(* ===== verification/Geopm_Prelude.thy ===== *)
theory Geopm_Prelude
  imports Main "HOL-Library.Word"
begin

text \<open>
  Shared vocabulary of the development.

  C++ exceptions are values of the type \<open>exn\<close>: \<open>Exception e\<close> is a
  \<^verbatim>\<open>geopm::Exception\<close> whose \<^verbatim>\<open>err_value()\<close> is \<open>e\<close>, the other constructors are the
  standard library's exceptions that the modelled code can raise. Message texts are not
  modelled. A function that may throw returns \<open>exn + 'a\<close>; a member function that also
  changes its object is an \<^emph>\<open>action\<close> \<open>'s \<Rightarrow> (exn + 'a) \<times> 's\<close>: the state that is
  returned with an exception is the state at the throw, because C++ does not roll back.

  The lemmas collected in \<open>keeps_intros\<close> propagate an invariant through the combinators, so
  that "every operation keeps the invariant" is one rule application per statement of the
  source.
\<close>

named_theorems keeps_intros \<open>introduction rules for invariants of actions\<close>
named_theorems act_simps \<open>unfolding of the action combinators\<close>

section \<open>Exceptions\<close>

datatype exn =
    Exception (err_value: int)   \<comment> \<open>geopm::Exception with its error value\<close>
  | Std_out_of_range             \<comment> \<open>std::out_of_range, from at(), substr() and stoi()\<close>
  | Std_invalid_argument         \<comment> \<open>std::invalid_argument, from stoi()\<close>
  | Std_length_error             \<comment> \<open>std::length_error, from a vector that is too long\<close>
  | Undefined_behavior           \<comment> \<open>the C++ statement has no defined result\<close>

abbreviation (input) GEOPM_ERROR_RUNTIME :: int where "GEOPM_ERROR_RUNTIME \<equiv> - 1"
abbreviation (input) GEOPM_ERROR_LOGIC :: int where "GEOPM_ERROR_LOGIC \<equiv> - 2"
abbreviation (input) GEOPM_ERROR_INVALID :: int where "GEOPM_ERROR_INVALID \<equiv> - 3"
abbreviation (input) GEOPM_ERROR_NOT_IMPLEMENTED :: int where "GEOPM_ERROR_NOT_IMPLEMENTED \<equiv> - 6"
abbreviation (input) GEOPM_ERROR_MSR_OPEN :: int where "GEOPM_ERROR_MSR_OPEN \<equiv> - 8"
abbreviation (input) GEOPM_ERROR_MSR_READ :: int where "GEOPM_ERROR_MSR_READ \<equiv> - 9"
abbreviation (input) GEOPM_ERROR_MSR_WRITE :: int where "GEOPM_ERROR_MSR_WRITE \<equiv> - 10"

abbreviation invalid :: exn where "invalid \<equiv> Exception GEOPM_ERROR_INVALID"
abbreviation runtime :: exn where "runtime \<equiv> Exception GEOPM_ERROR_RUNTIME"

section \<open>Results\<close>

type_synonym 'a result = "exn + 'a"

definition and_then :: "'a result \<Rightarrow> ('a \<Rightarrow> 'b result) \<Rightarrow> 'b result" where
  "and_then m f = (case m of Inl e \<Rightarrow> Inl e | Inr x \<Rightarrow> f x)"

lemma and_then_simps [simp]:
  "and_then (Inl e) f = Inl e"
  "and_then (Inr x) f = f x"
  by (simp_all add: and_then_def)

lemma and_then_eq_Inr: "and_then m f = Inr y \<longleftrightarrow> (\<exists>x. m = Inr x \<and> f x = Inr y)"
  by (cases m) auto

lemma and_then_cong [fundef_cong]:
  "m = m' \<Longrightarrow> (\<And>x. m' = Inr x \<Longrightarrow> f x = g x) \<Longrightarrow> and_then m f = and_then m' g"
  by (cases m') auto

text \<open>Left-to-right evaluation of a fallible function over a list, stopping at the first throw.\<close>

fun map_result :: "('a \<Rightarrow> 'b result) \<Rightarrow> 'a list \<Rightarrow> 'b list result" where
  "map_result f [] = Inr []"
| "map_result f (x # xs) = and_then (f x) (\<lambda>y. and_then (map_result f xs) (\<lambda>ys. Inr (y # ys)))"

lemma map_result_all_Inr:
  "(\<And>x. x \<in> set xs \<Longrightarrow> f x = Inr (g x)) \<Longrightarrow> map_result f xs = Inr (map g xs)"
  by (induction xs) auto

lemma map_result_Inr_length: "map_result f xs = Inr ys \<Longrightarrow> length ys = length xs"
  by (induction xs arbitrary: ys) (auto simp: and_then_eq_Inr)

lemma map_result_cong [fundef_cong]:
  "xs = ys \<Longrightarrow> (\<And>x. x \<in> set ys \<Longrightarrow> f x = g x) \<Longrightarrow> map_result f xs = map_result g ys"
  by (induction xs arbitrary: ys) auto

fun fold_result :: "('a \<Rightarrow> 's \<Rightarrow> 's result) \<Rightarrow> 'a list \<Rightarrow> 's \<Rightarrow> 's result" where
  "fold_result f [] s = Inr s"
| "fold_result f (x # xs) s = and_then (f x s) (fold_result f xs)"

lemma fold_result_append: "fold_result f (xs @ ys) s = and_then (fold_result f xs s) (fold_result f ys)"
  by (induction xs arbitrary: s) (simp_all add: and_then_def split: sum.splits)

text \<open>\<^verbatim>\<open>std::vector::at()\<close> with a signed index.\<close>

definition at :: "'a list \<Rightarrow> int \<Rightarrow> 'a result" where
  "at xs i = (if 0 \<le> i \<and> i < int (length xs) then Inr (xs ! nat i) else Inl Std_out_of_range)"

lemma at_of_nat [simp]: "at xs (int i) = (if i < length xs then Inr (xs ! i) else Inl Std_out_of_range)"
  by (simp add: at_def)

lemma at_eq_Inr: "at xs i = Inr x \<longleftrightarrow> 0 \<le> i \<and> i < int (length xs) \<and> x = xs ! nat i"
  by (auto simp: at_def)

section \<open>Actions: state and exceptions\<close>

type_synonym ('s, 'a) action = "'s \<Rightarrow> 'a result \<times> 's"

definition ret :: "'a \<Rightarrow> ('s, 'a) action" where
  [act_simps]: "ret x s = (Inr x, s)"

definition throw :: "exn \<Rightarrow> ('s, 'a) action" where
  [act_simps]: "throw e s = (Inl e, s)"

definition bind :: "('s, 'a) action \<Rightarrow> ('a \<Rightarrow> ('s, 'b) action) \<Rightarrow> ('s, 'b) action" where
  "bind m f s = (case m s of (Inl e, t) \<Rightarrow> (Inl e, t) | (Inr x, t) \<Rightarrow> f x t)"

definition gets :: "('s \<Rightarrow> 'a) \<Rightarrow> ('s, 'a) action" where
  [act_simps]: "gets f s = (Inr (f s), s)"

definition modify :: "('s \<Rightarrow> 's) \<Rightarrow> ('s, unit) action" where
  [act_simps]: "modify f s = (Inr (), f s)"

definition lift :: "'a result \<Rightarrow> ('s, 'a) action" where
  [act_simps]: "lift r s = (r, s)"

definition guard :: "bool \<Rightarrow> exn \<Rightarrow> ('s, unit) action" where
  [act_simps]: "guard b e s = (if b then Inr () else Inl e, s)"

text \<open>\<^verbatim>\<open>try { m } catch (const geopm::Exception &ex) { h(ex) }\<close>\<close>

definition try_catch :: "('s, 'a) action \<Rightarrow> (int \<Rightarrow> ('s, 'a) action) \<Rightarrow> ('s, 'a) action" where
  "try_catch m h s = (case m s of (Inl (Exception e), t) \<Rightarrow> h e t | r \<Rightarrow> r)"

fun for_each :: "('a \<Rightarrow> ('s, unit) action) \<Rightarrow> 'a list \<Rightarrow> ('s, unit) action" where
  "for_each f [] s = (Inr (), s)"
| "for_each f (x # xs) s = bind (f x) (\<lambda>_. for_each f xs) s"

fun map_action :: "('a \<Rightarrow> ('s, 'b) action) \<Rightarrow> 'a list \<Rightarrow> ('s, 'b list) action" where
  "map_action f [] s = (Inr [], s)"
| "map_action f (x # xs) s = bind (f x) (\<lambda>y. bind (map_action f xs) (\<lambda>ys. ret (y # ys))) s"

lemma bind_cases:
  "bind m f s = (r, t) \<longleftrightarrow>
     (\<exists>e. m s = (Inl e, t) \<and> r = Inl e) \<or> (\<exists>x u. m s = (Inr x, u) \<and> f x u = (r, t))"
  by (auto simp: bind_def split: prod.splits sum.splits)

lemma bind_Inr: "m s = (Inr x, t) \<Longrightarrow> bind m f s = f x t"
  by (simp add: bind_def)

lemma bind_Inl: "m s = (Inl e, t) \<Longrightarrow> bind m f s = (Inl e, t)"
  by (simp add: bind_def)

lemma try_catch_cases:
  "try_catch m h s = (r, t) \<longleftrightarrow>
     (\<exists>e u. m s = (Inl (Exception e), u) \<and> h e u = (r, t)) \<or>
     m s = (r, t) \<and> (\<forall>e. r \<noteq> Inl (Exception e))"
proof (cases "m s")
  case (Pair r' u)
  show ?thesis
  proof (cases r')
    case (Inl x)
    with Pair show ?thesis by (cases x) (auto simp: try_catch_def)
  next
    case (Inr y)
    with Pair show ?thesis by (auto simp: try_catch_def)
  qed
qed

lemma bind_act_simps [act_simps]:
  "bind (ret x) f s = f x s"
  "bind (throw e) g s = (Inl e, s)"
  "bind (gets h) f' s = f' (h s) s"
  "bind (modify k) f'' s = f'' () (k s)"
  "bind (guard b e') f''' s = (if b then f''' () s else (Inl e', s))"
  "bind (lift r) h' s = (case r of Inl e \<Rightarrow> (Inl e, s) | Inr y \<Rightarrow> h' y s)"
  by (simp_all add: bind_def ret_def throw_def gets_def modify_def guard_def lift_def
      split: sum.splits)

lemma bind_cong [fundef_cong]:
  "m = m' \<Longrightarrow> (\<And>x. f x = f' x) \<Longrightarrow> bind m f = bind m' f'"
  by presburger

lemma for_each_cong [fundef_cong]:
  "xs = ys \<Longrightarrow> (\<And>x. x \<in> set ys \<Longrightarrow> f x = g x) \<Longrightarrow> for_each f xs = for_each g ys"
proof (induction xs arbitrary: ys)
  case (Cons x xs)
  then show ?case by (auto simp: fun_eq_iff bind_def split: prod.splits sum.splits)
qed auto

lemma map_action_cong [fundef_cong]:
  "xs = ys \<Longrightarrow> (\<And>x. x \<in> set ys \<Longrightarrow> f x = g x) \<Longrightarrow> map_action f xs = map_action g ys"
proof (induction xs arbitrary: ys)
  case (Cons x xs)
  then show ?case by (auto simp: fun_eq_iff bind_def split: prod.splits sum.splits)
qed auto

lemma map_action_Inr_length: "map_action f xs s = (Inr ys, t) \<Longrightarrow> length ys = length xs"
proof (induction xs arbitrary: ys s t)
  case (Cons x xs)
  then show ?case by (auto simp: bind_cases ret_def)
qed auto

subsection \<open>Invariants of actions\<close>

text \<open>\<open>keeps P m\<close>: whether \<open>m\<close> returns or throws, it takes \<open>P\<close>-states to \<open>P\<close>-states.\<close>

definition keeps :: "('s \<Rightarrow> bool) \<Rightarrow> ('s, 'a) action \<Rightarrow> bool" where
  "keeps P m \<longleftrightarrow> (\<forall>s r t. P s \<longrightarrow> m s = (r, t) \<longrightarrow> P t)"

lemma keepsD: "keeps P m \<Longrightarrow> P s \<Longrightarrow> m s = (r, t) \<Longrightarrow> P t"
  by (auto simp: keeps_def)

lemma keeps_snd: "keeps P m \<Longrightarrow> P s \<Longrightarrow> P (snd (m s))"
  by (metis keepsD prod.collapse)

lemma keepsI: "(\<And>s r t. P s \<Longrightarrow> m s = (r, t) \<Longrightarrow> P t) \<Longrightarrow> keeps P m"
  by (auto simp: keeps_def)

lemma keeps_ret [keeps_intros]: "keeps P (ret x)"
  and keeps_throw [keeps_intros]: "keeps P (throw e)"
  and keeps_gets [keeps_intros]: "keeps P (gets f)"
  and keeps_lift [keeps_intros]: "keeps P (lift r)"
  and keeps_guard [keeps_intros]: "keeps P (guard b e)"
  by (auto simp: keeps_def act_simps)

lemma keeps_modify [keeps_intros]: "(\<And>s. P s \<Longrightarrow> P (f s)) \<Longrightarrow> keeps P (modify f)"
  by (auto simp: keeps_def act_simps)

lemma keeps_bind [keeps_intros]:
  "keeps P m \<Longrightarrow> (\<And>x. keeps P (f x)) \<Longrightarrow> keeps P (bind m f)"
  unfolding keeps_def bind_cases by metis

lemma keeps_if [keeps_intros]: "(b \<Longrightarrow> keeps P m) \<Longrightarrow> (\<not> b \<Longrightarrow> keeps P n) \<Longrightarrow> keeps P (if b then m else n)"
  by simp

lemma keeps_for_each [keeps_intros]: "(\<And>x. x \<in> set xs \<Longrightarrow> keeps P (f x)) \<Longrightarrow> keeps P (for_each f xs)"
proof (induction xs)
  case Nil
  then show ?case by (auto simp: keeps_def)
next
  case (Cons x xs)
  then have "keeps P (bind (f x) (\<lambda>_. for_each f xs))" by (auto intro: keeps_bind)
  then show ?case by (simp add: keeps_def)
qed

lemma keeps_map_action [keeps_intros]:
  "(\<And>x. x \<in> set xs \<Longrightarrow> keeps P (f x)) \<Longrightarrow> keeps P (map_action f xs)"
proof (induction xs)
  case Nil
  then show ?case by (auto simp: keeps_def)
next
  case (Cons x xs)
  then have "keeps P (bind (f x) (\<lambda>y. bind (map_action f xs) (\<lambda>ys. ret (y # ys))))"
    by (auto intro!: keeps_bind keeps_ret)
  then show ?case by (simp add: keeps_def)
qed

lemma keeps_try_catch [keeps_intros]:
  "keeps P m \<Longrightarrow> (\<And>e. keeps P (h e)) \<Longrightarrow> keeps P (try_catch m h)"
  unfolding keeps_def try_catch_cases by metis

subsection \<open>How actions change the state\<close>

text \<open>
  \<open>evolves R m\<close>: whether \<open>m\<close> returns or throws, the state before and after are related by \<open>R\<close>.
  The relations used are reflexive and transitive, so that they compose along the statements.
\<close>

definition evolves :: "('s \<Rightarrow> 's \<Rightarrow> bool) \<Rightarrow> ('s, 'a) action \<Rightarrow> bool" where
  "evolves R m \<longleftrightarrow> (\<forall>s r t. m s = (r, t) \<longrightarrow> R s t)"

definition preorder_on_states :: "('s \<Rightarrow> 's \<Rightarrow> bool) \<Rightarrow> bool" where
  "preorder_on_states R \<longleftrightarrow> reflp R \<and> transp R"

named_theorems evolves_intros \<open>introduction rules for the evolution of actions\<close>

lemma evolvesD: "evolves R m \<Longrightarrow> m s = (r, t) \<Longrightarrow> R s t"
  by (auto simp: evolves_def)

lemma evolves_pure [evolves_intros]:
  assumes "preorder_on_states R"
  shows "evolves R (ret x)" "evolves R (throw e)" "evolves R (gets f)" "evolves R (lift r)" "evolves R (guard b e)"
  using assms by (auto simp: evolves_def act_simps preorder_on_states_def dest: reflpD)

lemma evolves_modify [evolves_intros]: "(\<And>s. R s (f s)) \<Longrightarrow> evolves R (modify f)"
  by (auto simp: evolves_def act_simps)

lemma evolves_bind [evolves_intros]:
  assumes "preorder_on_states R" "evolves R m" "\<And>x. evolves R (f x)"
  shows "evolves R (bind m f)"
  using assms unfolding evolves_def bind_cases preorder_on_states_def by (metis transpD)

lemma evolves_if [evolves_intros]:
  "(b \<Longrightarrow> evolves R m) \<Longrightarrow> (\<not> b \<Longrightarrow> evolves R n) \<Longrightarrow> evolves R (if b then m else n)"
  by simp

lemma evolves_for_each [evolves_intros]:
  assumes "preorder_on_states R" "\<And>x. x \<in> set xs \<Longrightarrow> evolves R (f x)"
  shows "evolves R (for_each f xs)"
  using assms(2)
proof (induction xs)
  case Nil
  then show ?case using assms(1) by (auto simp: evolves_def preorder_on_states_def dest: reflpD)
next
  case (Cons x xs)
  then have "evolves R (bind (f x) (\<lambda>_. for_each f xs))" by (auto intro: evolves_bind[OF assms(1)])
  then show ?case by (simp add: evolves_def)
qed

lemma evolves_map_action [evolves_intros]:
  assumes "preorder_on_states R" "\<And>x. x \<in> set xs \<Longrightarrow> evolves R (f x)"
  shows "evolves R (map_action f xs)"
  using assms(2)
proof (induction xs)
  case Nil
  then show ?case using assms(1) by (auto simp: evolves_def preorder_on_states_def dest: reflpD)
next
  case (Cons x xs)
  then have "evolves R (bind (f x) (\<lambda>y. bind (map_action f xs) (\<lambda>ys. ret (y # ys))))"
    by (auto intro!: evolves_bind[OF assms(1)] evolves_pure[OF assms(1)])
  then show ?case by (simp add: evolves_def)
qed

lemma evolves_try_catch [evolves_intros]:
  assumes "preorder_on_states R" "evolves R m" "\<And>e. evolves R (h e)"
  shows "evolves R (try_catch m h)"
  using assms unfolding evolves_def try_catch_cases preorder_on_states_def by (metis transpD)

section \<open>Ordered sets\<close>

text \<open>
  A \<^verbatim>\<open>std::set\<close> is iterated in increasing order; it is represented by its strictly
  increasing list of elements, and insertion is \<open>insort_insert\<close> of the list library.
\<close>

definition sset :: "'a::linorder list \<Rightarrow> bool" where
  "sset xs \<longleftrightarrow> sorted xs \<and> distinct xs"

definition sset_of :: "'a::linorder list \<Rightarrow> 'a list" where
  "sset_of xs = fold insort_insert xs []"

lemma sset_insort_insert [simp]: "sset xs \<Longrightarrow> sset (insort_insert x xs)"
  by (simp add: sset_def sorted_insort_insert distinct_insort_insert)

lemma fold_insort_insert:
  "sset ys \<Longrightarrow> sset (fold insort_insert xs ys) \<and> set (fold insort_insert xs ys) = set xs \<union> set ys"
  by (induction xs arbitrary: ys) (auto simp: set_insort_insert)

lemma sset_sset_of [simp]: "sset (sset_of xs)"
  and set_sset_of [simp]: "set (sset_of xs) = set xs"
  using fold_insort_insert[of "[]" xs] by (simp_all add: sset_of_def sset_def)

lemma sset_eqI: "sset xs \<Longrightarrow> sset ys \<Longrightarrow> set xs = set ys \<Longrightarrow> xs = ys"
  by (auto simp: sset_def intro: sorted_distinct_set_unique)

lemma sset_of_id: "sset xs \<Longrightarrow> sset_of xs = xs"
  by (auto intro: sset_eqI)

lemma sset_upto [simp]: "sset [i..j]"
  by (simp add: sset_def)

lemma sset_last:
  assumes "sset s" "c \<in> set s"
  shows "c \<le> last s"
proof -
  have "s = butlast s @ [last s]" using assms(2) by (cases s) simp_all
  then have "sorted (butlast s @ [last s])" "c \<in> set (butlast s @ [last s])" using assms by (simp_all add: sset_def)
  then show ?thesis unfolding sorted_append by auto
qed

section \<open>Maps that are iterated\<close>

text \<open>
  A \<^verbatim>\<open>std::map\<close> whose iteration matters is the list of its entries by increasing key.
  \<open>upsert k f\<close> replaces the value of a key, or creates it from nothing.
\<close>

fun upsert :: "'k :: linorder \<Rightarrow> ('a option \<Rightarrow> 'a) \<Rightarrow> ('k \<times> 'a) list \<Rightarrow> ('k \<times> 'a) list" where
  "upsert key f [] = [(key, f None)]"
| "upsert key f ((k, m) # rest) =
     (if key = k then (k, f (Some m)) # rest
      else if key < k then (key, f None) # (k, m) # rest
      else (k, m) # upsert key f rest)"

lemma upsert_keys:
  "sset (map fst l) \<Longrightarrow> sset (map fst (upsert key f l)) \<and> set (map fst (upsert key f l)) = insert key (set (map fst l))"
  by (induction key f l rule: upsert.induct) (auto simp: sset_def)

lemma map_of_upsert:
  "sset (map fst l) \<Longrightarrow> map_of (upsert key f l) q = (if q = key then Some (f (map_of l key)) else map_of l q)"
proof (induction key f l rule: upsert.induct)
  case (2 key f k m rest)
  have "map_of rest key = None" if "key < k"
    using 2(2) that by (auto simp: sset_def map_of_eq_None_iff)
  then show ?case using 2 by (auto simp: sset_def)
qed simp

section \<open>Lists\<close>

lemma list_all_update: "list_all P xs \<Longrightarrow> P v \<Longrightarrow> list_all P (xs[i := v])"
  by (induction xs arbitrary: i) (auto split: nat.splits)

lemma take_Suc_snoc: "i < length xs \<Longrightarrow> take (Suc i) xs = take i xs @ [xs ! i]"
  by (rule take_Suc_conv_app_nth)

end
