(* ===== verification/Circular_Buffer.thy ===== *)
theory Circular_Buffer
  imports Geopm_Prelude
begin

text \<open>
  The container \<^verbatim>\<open>CircularBuffer\<close> (libgeopmd/include/geopm/CircularBuffer.hpp): a vector used
  as a ring, with the index of the oldest entry, the number of valid entries and the capacity.
  The abstraction \<open>cb_list\<close> is the list of valid entries, oldest first. The locale
  \<open>bounded_history\<close> is the interface that the clients (the periodicity detector, the
  derivative signal) rely on; it is interpreted on the ring at the end of the theory.

  Elements of the vector that were never written hold a value-initialised element, which is the
  argument \<open>d\<close> of the operations that create elements.
\<close>

section \<open>State and operations\<close>

record 'a circular_buffer =
  m_buffer :: "'a list"
  m_head :: nat
  m_count :: nat
  m_max_size :: nat

definition cb_make :: "'a \<Rightarrow> nat \<Rightarrow> 'a circular_buffer" where
  "cb_make d n = \<lparr>m_buffer = replicate n d, m_head = 0, m_count = 0, m_max_size = n\<rparr>"

definition cb_size :: "'a circular_buffer \<Rightarrow> nat" where
  "cb_size b = m_count b"

definition cb_capacity :: "'a circular_buffer \<Rightarrow> nat" where
  "cb_capacity b = m_max_size b"

definition cb_clear :: "'a circular_buffer \<Rightarrow> 'a circular_buffer" where
  "cb_clear b = b\<lparr>m_head := 0, m_count := 0\<rparr>"

definition cb_value :: "'a circular_buffer \<Rightarrow> int \<Rightarrow> 'a result" where
  "cb_value b index =
     (if index \<ge> int (m_count b) \<or> index < - int (m_count b) then Inl invalid
      else if index < 0 then
        let new_index = nat (int (m_count b) + index)
        in at (m_buffer b) (int ((m_head b + new_index) mod m_max_size b))
      else at (m_buffer b) (int ((m_head b + nat index) mod m_max_size b)))"

text \<open>\<^verbatim>\<open>std::vector::resize()\<close> and \<^verbatim>\<open>std::copy()\<close> into a vector at an offset.\<close>

definition resize :: "'a \<Rightarrow> nat \<Rightarrow> 'a list \<Rightarrow> 'a list" where
  "resize d n xs = take n xs @ replicate (n - length xs) d"

definition copy_to :: "'a list \<Rightarrow> nat \<Rightarrow> 'a list \<Rightarrow> 'a list" where
  "copy_to src pos dst = take pos dst @ src @ drop (pos + length src) dst"

definition cb_set_capacity :: "'a \<Rightarrow> nat \<Rightarrow> 'a circular_buffer \<Rightarrow> 'a circular_buffer result" where
  "cb_set_capacity d new_size b =
     (if new_size < m_count b \<and> m_max_size b > 0 then
        let size_diff = m_count b - new_size
        in and_then (map_result (\<lambda>idx. cb_value b (int idx)) [size_diff..<m_count b])
             (\<lambda>temp. Inr \<lparr>m_buffer = temp, m_head = 0, m_count = new_size, m_max_size = new_size\<rparr>)
      else Inr (b\<lparr>m_buffer := resize d new_size (m_buffer b), m_head := 0, m_max_size := new_size\<rparr>))"

definition cb_insert :: "'a \<Rightarrow> 'a circular_buffer \<Rightarrow> 'a circular_buffer result" where
  "cb_insert v b =
     (if m_max_size b < 1 then Inl runtime
      else if m_count b < m_max_size b then
        (if m_count b < length (m_buffer b)
         then Inr (b\<lparr>m_buffer := (m_buffer b)[m_count b := v], m_count := m_count b + 1\<rparr>)
         else Inl Std_out_of_range)
      else
        (if m_head b < length (m_buffer b)
         then Inr (b\<lparr>m_buffer := (m_buffer b)[m_head b := v],
                     m_head := (m_head b + 1) mod m_max_size b\<rparr>)
         else Inl Std_out_of_range))"

definition cb_make_vector :: "'a \<Rightarrow> 'a circular_buffer \<Rightarrow> 'a list" where
  "cb_make_vector d b =
     (let result = replicate (cb_size b) d
      in if m_head b = 0 then copy_to (take (m_count b) (m_buffer b)) 0 result
         else let result = copy_to (drop (m_head b) (m_buffer b)) 0 result
              in copy_to (take (m_head b) (m_buffer b)) (length result - m_head b) result)"

definition cb_make_vector_slice :: "'a \<Rightarrow> nat \<Rightarrow> nat \<Rightarrow> 'a circular_buffer \<Rightarrow> 'a list result" where
  "cb_make_vector_slice d idx_start idx_end b =
     (if idx_start \<ge> cb_size b then Inl invalid
      else if idx_end > cb_size b then Inl invalid
      else if idx_end \<le> idx_start then Inl invalid
      else
        let slice_length = idx_end - idx_start;
            result = replicate slice_length d;
            start = (m_head b + idx_start) mod cb_capacity b;
            end' = ((m_head b + idx_end) - 1) mod cb_capacity b + 1
        in Inr (if end' > start
                then copy_to (take (end' - start) (drop start (m_buffer b))) 0 result
                else copy_to (take end' (m_buffer b)) (cb_capacity b - start)
                       (copy_to (drop start (m_buffer b)) 0 result)))"

section \<open>Invariant and abstraction\<close>

definition cb_inv :: "'a circular_buffer \<Rightarrow> bool" where
  "cb_inv b \<longleftrightarrow> length (m_buffer b) = m_max_size b \<and> m_count b \<le> m_max_size b \<and>
     (m_count b < m_max_size b \<longrightarrow> m_head b = 0) \<and> (m_head b = 0 \<or> m_head b < m_max_size b)"

definition cb_list :: "'a circular_buffer \<Rightarrow> 'a list" where
  "cb_list b = map (\<lambda>i. m_buffer b ! ((m_head b + i) mod m_max_size b)) [0..<m_count b]"

text \<open>The specification of insertion: append, and forget the oldest entries beyond the capacity.\<close>

definition push_bounded :: "nat \<Rightarrow> 'a \<Rightarrow> 'a list \<Rightarrow> 'a list" where
  "push_bounded n v xs = drop (Suc (length xs) - n) (xs @ [v])"

lemma length_cb_list [simp]: "length (cb_list b) = m_count b"
  by (simp add: cb_list_def)

lemma cb_inv_make [simp]: "cb_inv (cb_make d n)"
  and cb_list_make [simp]: "cb_list (cb_make d n) = []"
  and capacity_make [simp]: "m_max_size (cb_make d n) = n"
  by (simp_all add: cb_inv_def cb_list_def cb_make_def)

lemma cb_inv_clear: "cb_inv b \<Longrightarrow> cb_inv (cb_clear b)"
  and cb_list_clear: "cb_list (cb_clear b) = []"
  by (auto simp: cb_inv_def cb_list_def cb_clear_def)

lemma cb_list_not_full: "cb_inv b \<Longrightarrow> m_head b = 0 \<Longrightarrow> cb_list b = take (m_count b) (m_buffer b)"
  by (auto simp: cb_list_def cb_inv_def intro!: nth_equalityI)

lemma mod_ring:
  fixes h i n :: nat
  assumes "h < n" "i < n"
  shows "(h + i) mod n = (if i < n - h then h + i else i - (n - h))"
  using assms by (auto simp: mod_if)

lemma cb_list_full:
  assumes "cb_inv b" "m_count b = m_max_size b" "m_head b < m_max_size b"
  shows "cb_list b = drop (m_head b) (m_buffer b) @ take (m_head b) (m_buffer b)"
  using assms
  by (auto simp: cb_list_def cb_inv_def nth_append mod_ring intro!: nth_equalityI)

lemma cb_list_rotate:
  assumes "cb_inv b"
  shows "cb_list b = (if m_head b = 0 then take (m_count b) (m_buffer b)
                      else drop (m_head b) (m_buffer b) @ take (m_head b) (m_buffer b))"
  using assms cb_list_full[OF assms] cb_list_not_full[OF assms]
  by (auto simp: cb_inv_def)

lemma cb_insert_room:
  assumes "cb_inv b" "m_count b < m_max_size b"
  shows "\<exists>b'. cb_insert v b = Inr b' \<and> cb_inv b' \<and> m_max_size b' = m_max_size b \<and>
              m_count b' = Suc (m_count b) \<and> cb_list b' = cb_list b @ [v]"
proof -
  let ?b = "b\<lparr>m_buffer := (m_buffer b)[m_count b := v], m_count := m_count b + 1\<rparr>"
  have h: "m_head b = 0" and l: "length (m_buffer b) = m_max_size b"
    using assms by (auto simp: cb_inv_def)
  have inv: "cb_inv ?b" using assms h l by (auto simp: cb_inv_def)
  have "cb_list ?b = take (Suc (m_count b)) ((m_buffer b)[m_count b := v])"
    using cb_list_not_full[OF inv] h by simp
  also have "\<dots> = take (m_count b) (m_buffer b) @ [v]"
    using assms l by (simp add: take_Suc_conv_app_nth)
  also have "\<dots> = cb_list b @ [v]" using cb_list_not_full[OF assms(1) h] by simp
  finally show ?thesis using assms inv l by (auto simp: cb_insert_def)
qed

lemma cb_insert_full:
  assumes "cb_inv b" "m_count b = m_max_size b" "0 < m_max_size b"
  shows "\<exists>b'. cb_insert v b = Inr b' \<and> cb_inv b' \<and> m_max_size b' = m_max_size b \<and>
              m_count b' = m_count b \<and> cb_list b' = tl (cb_list b) @ [v]"
proof -
  let ?h = "m_head b" let ?n = "m_max_size b" let ?xs = "m_buffer b"
  let ?b = "b\<lparr>m_buffer := ?xs[?h := v], m_head := (?h + 1) mod ?n\<rparr>"
  have l: "length ?xs = ?n" and h: "?h < ?n" using assms by (auto simp: cb_inv_def)
  have inv: "cb_inv ?b" using assms l by (auto simp: cb_inv_def)
  have old: "cb_list b = drop ?h ?xs @ take ?h ?xs" using assms h by (simp add: cb_list_full)
  have new: "cb_list ?b = drop ((?h + 1) mod ?n) (?xs[?h := v]) @ take ((?h + 1) mod ?n) (?xs[?h := v])"
    using cb_list_full[OF inv] assms by simp
  have upd: "take (Suc ?h) (?xs[?h := v]) = take ?h ?xs @ [v]"
    using h l by (simp add: take_Suc_conv_app_nth)
  have tl: "tl (drop ?h ?xs) = drop (Suc ?h) ?xs" by (simp add: drop_Suc tl_drop)
  have "cb_list ?b = drop (Suc ?h) ?xs @ take ?h ?xs @ [v]"
  proof (cases "Suc ?h < ?n")
    case True
    then show ?thesis using new upd by simp
  next
    case False
    then have "Suc ?h = ?n" using h by simp
    moreover have "?xs[?h := v] = take ?h ?xs @ [v]" using upd calculation l by simp
    ultimately show ?thesis using new l by simp
  qed
  moreover have "drop ?h ?xs \<noteq> []" using h l by simp
  ultimately have "cb_list ?b = tl (cb_list b) @ [v]" using old tl by simp
  then show ?thesis using assms inv l h by (auto simp: cb_insert_def)
qed

lemma cb_value_nth:
  assumes "cb_inv b" "i < m_count b"
  shows "cb_value b (int i) = Inr (cb_list b ! i)"
proof -
  have "(m_head b + i) mod m_max_size b < m_max_size b" using assms by (auto simp: cb_inv_def)
  then show ?thesis using assms by (simp add: cb_value_def cb_list_def cb_inv_def)
qed

lemma cb_insert_spec:
  assumes "cb_inv b" "0 < m_max_size b"
  shows "\<exists>b'. cb_insert v b = Inr b' \<and> cb_inv b' \<and> m_max_size b' = m_max_size b \<and>
              cb_list b' = push_bounded (m_max_size b) v (cb_list b)"
proof (cases "m_count b < m_max_size b")
  case True
  with cb_insert_room[OF assms(1) True, of v] show ?thesis by (auto simp: push_bounded_def)
next
  case False
  then have "m_count b = m_max_size b" using assms(1) by (simp add: cb_inv_def)
  moreover have "cb_list b \<noteq> []" using calculation assms(2) by (metis length_cb_list list.size(3) less_irrefl)
  moreover have "Suc 0 - m_max_size b = 0" using assms(2) by simp
  ultimately show ?thesis using cb_insert_full[OF assms(1) _ assms(2), of v]
    by (auto simp: push_bounded_def drop_Suc)
qed

lemma cb_value_spec:
  assumes "cb_inv b"
  shows "cb_value b i =
    (if 0 \<le> i \<and> i < int (m_count b) then Inr (cb_list b ! nat i)
     else if i < 0 \<and> - int (m_count b) \<le> i then Inr (cb_list b ! nat (int (m_count b) + i))
     else Inl invalid)"
proof -
  consider "0 \<le> i \<and> i < int (m_count b)" | "i < 0 \<and> - int (m_count b) \<le> i"
    | "i \<ge> int (m_count b) \<or> i < - int (m_count b)" by linarith
  then show ?thesis
  proof cases
    case 1
    then have "nat i < m_count b" by linarith
    then show ?thesis using cb_value_nth[OF assms, of "nat i"] 1 by simp
  next
    case 2
    then have "cb_value b i = cb_value b (int (nat (int (m_count b) + i)))"
      by (simp add: cb_value_def Let_def)
    also have "\<dots> = Inr (cb_list b ! nat (int (m_count b) + i))"
      using 2 by (intro cb_value_nth[OF assms]) linarith
    finally show ?thesis using 2 by simp
  next
    case 3
    then show ?thesis by (auto simp: cb_value_def)
  qed
qed

lemma cb_make_vector_list: "cb_inv b \<Longrightarrow> cb_make_vector d b = cb_list b"
  using cb_list_rotate[of b]
  by (auto simp: cb_make_vector_def copy_to_def cb_size_def Let_def cb_inv_def)

lemma cb_set_capacity_shrink:
  assumes "cb_inv b" "n < m_count b"
  shows "\<exists>b'. cb_set_capacity d n b = Inr b' \<and> cb_inv b' \<and> m_max_size b' = n \<and>
              cb_list b' = drop (m_count b - n) (cb_list b)"
proof -
  have pos: "m_max_size b > 0" using assms by (auto simp: cb_inv_def)
  have "map_result (\<lambda>idx. cb_value b (int idx)) [m_count b - n..<m_count b] =
        Inr (map ((!) (cb_list b)) [m_count b - n..<m_count b])"
    using assms by (intro map_result_all_Inr) (auto simp: cb_value_nth)
  moreover have "map ((!) (cb_list b)) [m_count b - n..<m_count b] = drop (m_count b - n) (cb_list b)"
    by (auto intro!: nth_equalityI)
  ultimately show ?thesis using assms pos
    by (auto simp: cb_set_capacity_def Let_def cb_inv_def cb_list_not_full)
qed

lemma cb_set_capacity_grow:
  assumes "cb_inv b" "m_count b \<le> n" "m_head b = 0"
  shows "\<exists>b'. cb_set_capacity d n b = Inr b' \<and> cb_inv b' \<and> m_max_size b' = n \<and> cb_list b' = cb_list b"
proof -
  let ?b = "b\<lparr>m_buffer := resize d n (m_buffer b), m_head := 0, m_max_size := n\<rparr>"
  have inv: "cb_inv ?b" using assms by (auto simp: cb_inv_def resize_def)
  have "take (m_count b) (resize d n (m_buffer b)) = take (m_count b) (m_buffer b)"
    using assms by (auto simp: resize_def min_def cb_inv_def)
  then have "cb_list ?b = cb_list b" using cb_list_not_full[OF inv] cb_list_not_full[OF assms(1,3)] by simp
  then show ?thesis using assms inv by (auto simp: cb_set_capacity_def)
qed

lemma ring_segment:
  assumes l: "length xs = n" and a: "a < n" and k: "0 < k" "k \<le> n"
  shows "(let e = (a + k - 1) mod n + 1; r = replicate k d in
           if e > a then copy_to (take (e - a) (drop a xs)) 0 r
           else copy_to (take e xs) (n - a) (copy_to (drop a xs) 0 r)) =
         map (\<lambda>j. xs ! ((a + j) mod n)) [0..<k]"
proof (cases "a + k \<le> n")
  case True
  then have "(a + k - 1) mod n + 1 = a + k" using k by simp
  then show ?thesis using True k l a
    by (auto simp: copy_to_def Let_def intro!: nth_equalityI)
next
  case False
  then have e: "(a + k - 1) mod n = a + k - 1 - n" using a k by (auto simp: mod_if)
  then have e': "(a + k - 1) mod n + 1 = a + k - n" "\<not> a + k - n > a" using False k by auto
  show ?thesis unfolding e' Let_def using False k l a e'(2)
    by (auto simp: copy_to_def nth_append mod_ring intro!: nth_equalityI)
qed

lemma cb_make_vector_slice_list:
  assumes inv: "cb_inv b" and idx: "s < e" "e \<le> m_count b"
  shows "cb_make_vector_slice d s e b = Inr (take (e - s) (drop s (cb_list b)))"
proof -
  let ?n = "m_max_size b" let ?a = "(m_head b + s) mod ?n"
  have n: "0 < ?n" "e - s \<le> ?n" "length (m_buffer b) = ?n" using assms by (auto simp: cb_inv_def)
  have "m_head b + e - 1 = m_head b + s + (e - s - 1)" using idx by simp
  then have "(m_head b + e - 1) mod ?n = (?a + (e - s - 1)) mod ?n" by (simp add: mod_simps)
  then have "(m_head b + e - 1) mod ?n = (?a + (e - s) - 1) mod ?n" using idx by simp
  then have "cb_make_vector_slice d s e b =
      Inr (map (\<lambda>j. m_buffer b ! ((?a + j) mod ?n)) [0..<e - s])"
    using ring_segment[of "m_buffer b" ?n ?a "e - s" d] n idx
    by (auto simp: cb_make_vector_slice_def cb_size_def cb_capacity_def Let_def split: if_splits)
  also have "map (\<lambda>j. m_buffer b ! ((?a + j) mod ?n)) [0..<e - s] = take (e - s) (drop s (cb_list b))"
    using idx by (auto simp: cb_list_def mod_simps add.assoc intro!: nth_equalityI)
  finally show ?thesis .
qed

lemma cb_list_grow:
  assumes "cb_inv b" "m_count b \<le> n"
  shows "\<exists>b'. cb_set_capacity d n b = Inr b' \<and> cb_inv b' \<and> m_max_size b' = n \<and>
              cb_list b' = rotate (m_count b - m_head b) (cb_list b)"
proof (cases "m_head b = 0")
  case True
  then show ?thesis using cb_set_capacity_grow[OF assms True, of d]
    by (metis diff_zero length_cb_list rotate_id mod_self)
next
  case False
  then have full: "m_count b = m_max_size b" "m_head b < m_max_size b" "length (m_buffer b) = m_max_size b"
    using assms by (auto simp: cb_inv_def)
  let ?b = "b\<lparr>m_buffer := resize d n (m_buffer b), m_head := 0, m_max_size := n\<rparr>"
  have inv: "cb_inv ?b" using assms by (auto simp: cb_inv_def resize_def)
  have "cb_list ?b = m_buffer b"
    using cb_list_not_full[OF inv] assms full by (simp add: resize_def)
  also have "\<dots> = rotate (m_count b - m_head b) (cb_list b)"
    using cb_list_full[OF assms(1) full(1,2)] full
    by (metis append_take_drop_id length_drop rotate_append)
  finally show ?thesis using assms inv by (auto simp: cb_set_capacity_def)
qed

section \<open>The interface the clients rely on\<close>

locale bounded_history =
  fixes empty :: "nat \<Rightarrow> 'b"
    and ins :: "'a \<Rightarrow> 'b \<Rightarrow> 'b result"
    and val :: "'b \<Rightarrow> int \<Rightarrow> 'a result"
    and cap :: "'b \<Rightarrow> nat"
    and contents :: "'b \<Rightarrow> 'a list"
    and ok :: "'b \<Rightarrow> bool"
  assumes ok_empty: "ok (empty n)"
    and contents_empty: "contents (empty n) = []"
    and cap_empty: "cap (empty n) = n"
    and contents_le: "ok b \<Longrightarrow> length (contents b) \<le> cap b"
    and ins_ok: "ok b \<Longrightarrow> 0 < cap b \<Longrightarrow>
      \<exists>b'. ins v b = Inr b' \<and> ok b' \<and> cap b' = cap b \<and> contents b' = push_bounded (cap b) v (contents b)"
    and val_nth: "ok b \<Longrightarrow> i < length (contents b) \<Longrightarrow> val b (int i) = Inr (contents b ! i)"
begin

lemma ins_many:
  assumes "ok b" "0 < cap b"
  shows "\<exists>b'. fold_result ins vs b = Inr b' \<and> ok b' \<and> cap b' = cap b \<and>
              contents b' = drop (length (contents b) + length vs - cap b) (contents b @ vs)"
  using assms
proof (induction vs arbitrary: b)
  case Nil
  then show ?case using contents_le[of b] by simp
next
  case (Cons v vs)
  obtain b1 where b1: "ins v b = Inr b1" "ok b1" "cap b1 = cap b"
      "contents b1 = push_bounded (cap b) v (contents b)"
    using ins_ok[OF Cons.prems, of v] by blast
  with Cons.IH[of b1] Cons.prems(2) obtain b2 where b2: "fold_result ins vs b1 = Inr b2" "ok b2"
      "cap b2 = cap b" "contents b2 = drop (length (contents b1) + length vs - cap b) (contents b1 @ vs)"
    by auto
  have le: "length (contents b) \<le> cap b" using contents_le Cons.prems by blast
  have "contents b2 = drop (length (contents b) + Suc (length vs) - cap b) (contents b @ v # vs)"
    using le b1(4) b2(4) Cons.prems(2)
    by (cases "length (contents b) = cap b") (auto simp: push_bounded_def drop_Suc_Cons Suc_diff_le)
  then show ?case using b1 b2 by simp
qed

lemma window:
  assumes "0 < n"
  shows "\<exists>b. fold_result ins vs (empty n) = Inr b \<and> ok b \<and> cap b = n \<and> contents b = drop (length vs - n) vs"
  using ins_many[of "empty n" vs] assms by (simp add: ok_empty cap_empty contents_empty)

end

interpretation ring: bounded_history "cb_make d" cb_insert cb_value cb_capacity cb_list cb_inv for d
proof unfold_locales
  show "cb_inv b \<Longrightarrow> 0 < cb_capacity b \<Longrightarrow> \<exists>b'. cb_insert v b = Inr b' \<and> cb_inv b' \<and>
      cb_capacity b' = cb_capacity b \<and> cb_list b' = push_bounded (cb_capacity b) v (cb_list b)"
    for b :: "'a circular_buffer" and v
    using cb_insert_spec[of b v] by (simp add: cb_capacity_def)
  show "cb_inv b \<Longrightarrow> length (cb_list b) \<le> cb_capacity b" for b :: "'a circular_buffer"
    by (simp add: cb_capacity_def cb_inv_def)
qed (auto simp: cb_capacity_def cb_value_nth)

section \<open>Properties\<close>

text \<open>
  Whatever is inserted into a new buffer of capacity \<open>n > 0\<close>, the buffer holds exactly the
  last \<open>n\<close> inserted values, oldest first: that is what \<^verbatim>\<open>make_vector()\<close> returns, what
  \<^verbatim>\<open>value()\<close> returns for every index (negative ones count from the newest, all others are
  refused), and what every slice returns.
\<close>

theorem circular_buffer_window:
  assumes "0 < n"
  shows "\<exists>b. fold_result cb_insert vs (cb_make d n) = Inr b \<and>
             cb_size b = min n (length vs) \<and>
             cb_make_vector d b = drop (length vs - n) vs \<and>
             (\<forall>i. cb_value b i =
               (if 0 \<le> i \<and> i < int (cb_size b) then Inr (drop (length vs - n) vs ! nat i)
                else if i < 0 \<and> - int (cb_size b) \<le> i
                then Inr (drop (length vs - n) vs ! nat (int (cb_size b) + i))
                else Inl invalid)) \<and>
             (\<forall>s e. s < e \<longrightarrow> e \<le> cb_size b \<longrightarrow>
               cb_make_vector_slice d s e b = Inr (take (e - s) (drop s (drop (length vs - n) vs))))"
proof -
  obtain b where b: "fold_result cb_insert vs (cb_make d n) = Inr b" "cb_inv b"
      "cb_list b = drop (length vs - n) vs"
    using ring.window[OF assms, of vs d] by auto
  have len: "cb_size b = min n (length vs)"
    using length_cb_list[of b] b(3) by (simp add: cb_size_def)
  show ?thesis
    using b(1) len cb_make_vector_list[OF b(2), of d] cb_value_spec[OF b(2)]
      cb_make_vector_slice_list[OF b(2)] by (auto simp: b(3)[symmetric] cb_size_def)
qed
theorem circular_buffer_window_witness:
  "0 < (2::nat) \<and> cb_make_vector 0 (projr (fold_result cb_insert [1, 2, 3 :: int] (cb_make 0 2))) = [2, 3]"
proof -
  have "0 < (2::nat)" by simp
  from circular_buffer_window[OF this, of "[1, 2, 3 :: int]" 0] show ?thesis
    by (auto simp del: fold_result.simps)
qed

text \<open>
  \<^verbatim>\<open>set_capacity()\<close>: shrinking below the current size keeps the newest entries in order;
  otherwise the entries are kept but \<^emph>\<open>rotated\<close> by the position of the ring's head, because the
  head is reset to zero without moving the entries. The order is kept only when the head is at
  zero; the witness is a full buffer with contents 2, 3 that reads 3, 2 after its capacity grew.
\<close>

theorem set_capacity_contents:
  assumes "cb_inv b"
  shows "\<exists>b'. cb_set_capacity d n b = Inr b' \<and> cb_inv b' \<and> cb_capacity b' = n \<and>
     cb_make_vector d b' =
       (if n < cb_size b then drop (cb_size b - n) (cb_make_vector d b)
        else rotate (cb_size b - m_head b) (cb_make_vector d b))"
proof (cases "n < m_count b")
  case True
  then show ?thesis using cb_set_capacity_shrink[OF assms True, of d] assms
    by (auto simp: cb_make_vector_list cb_size_def cb_capacity_def)
next
  case False
  then show ?thesis using cb_list_grow[OF assms, of n d] assms
    by (auto simp: cb_make_vector_list cb_size_def cb_capacity_def)
qed

theorem set_capacity_contents_witness:
  "cb_inv \<lparr>m_buffer = [3, 2 :: int], m_head = 1, m_count = 2, m_max_size = 2\<rparr> \<and>
   cb_make_vector 0 \<lparr>m_buffer = [3, 2 :: int], m_head = 1, m_count = 2, m_max_size = 2\<rparr> = [2, 3] \<and>
   (\<exists>b'. cb_set_capacity 0 3 \<lparr>m_buffer = [3, 2 :: int], m_head = 1, m_count = 2, m_max_size = 2\<rparr> = Inr b' \<and>
         cb_make_vector 0 b' = [3, 2])"
proof -
  let ?b = "\<lparr>m_buffer = [3, 2 :: int], m_head = 1, m_count = 2, m_max_size = 2\<rparr>"
  have inv: "cb_inv ?b" by (simp add: cb_inv_def)
  have v: "cb_make_vector 0 ?b = [2, 3]" by (simp add: cb_make_vector_def copy_to_def cb_size_def)
  show ?thesis using set_capacity_contents[OF inv, of 0 3] inv v by (auto simp: cb_size_def)
qed

end
