(* ===== verification/Binary64.thy ===== *)
theory Binary64
  imports Geopm_Prelude Complex_Main
begin

text \<open>
  The C++ type \<^verbatim>\<open>double\<close> as IEEE 754 binary64. A value is NaN, an infinity or a finite number;
  finite numbers are rationals, and every arithmetic operation rounds its exact result once, to
  nearest with ties to even, to 53 significant bits with exponents from \<open>-1074\<close>; results of
  magnitude \<open>2 ^ 1024\<close> or more overflow to an infinity. Everything is executable.

  Two things are left out: the sign of zero (\<open>Fin 0\<close> is both zeros) and NaN payloads. Where the
  code carries a raw 64-bit register in a \<^verbatim>\<open>double\<close> (\<^verbatim>\<open>geopm_field_to_signal()\<close>), the model
  keeps the 64-bit pattern itself.

  The library order on \<open>double\<close> is total (NaN first) so that sorting and minima of the list
  library apply; the comparison operators of C++ are \<open>dlt\<close>, \<open>dle\<close>, \<open>deq\<close>, which are false on
  NaN and agree with the library order elsewhere.
\<close>

section \<open>Rounding\<close>

function ilog2 :: "int \<Rightarrow> int" where
  "ilog2 n = (if n < 2 then 0 else ilog2 (n div 2) + 1)"
  by pat_completeness auto
termination
  by (relation "measure nat") auto

declare ilog2.simps [simp del]

text \<open>The binary exponent of a nonzero rational: \<open>2 powi expo x \<le> \<bar>x\<bar> < 2 powi (expo x + 1)\<close>.\<close>

definition expo :: "rat \<Rightarrow> int" where
  "expo x =
     (let (p, q) = quotient_of \<bar>x\<bar>; k = ilog2 p - ilog2 q
      in if 2 powi k \<le> \<bar>x\<bar> then k else k - 1)"

definition quantum :: "rat \<Rightarrow> int" where
  "quantum x = max (expo x - 52) (- 1074)"

definition round_even :: "rat \<Rightarrow> int" where
  "round_even y =
     (let f = \<lfloor>y\<rfloor>; d = y - of_int f
      in if d < 1 / 2 then f else if d > 1 / 2 then f + 1 else if even f then f else f + 1)"

definition round_value :: "rat \<Rightarrow> rat" where
  "round_value x =
     (if x = 0 then 0 else let q = 2 powi quantum x in of_int (round_even (x / q)) * q)"

subsection \<open>The binary exponent\<close>

lemma ilog2_bounds: "0 < n \<Longrightarrow> 0 \<le> ilog2 n \<and> 2 ^ nat (ilog2 n) \<le> n \<and> n < 2 ^ Suc (nat (ilog2 n))"
proof (induction n rule: ilog2.induct)
  case (1 n)
  show ?case
  proof (cases "n < 2")
    case True
    with 1 show ?thesis by (simp add: ilog2.simps[of n])
  next
    case False
    with 1 have "0 \<le> ilog2 (n div 2)" "2 ^ nat (ilog2 (n div 2)) \<le> n div 2"
      "n div 2 < 2 ^ Suc (nat (ilog2 (n div 2)))" by auto
    with False show ?thesis by (auto simp: ilog2.simps[of n] nat_add_distrib)
  qed
qed

lemma expo_bounds:
  assumes "x \<noteq> 0"
  shows "2 powi expo x \<le> \<bar>x\<bar> \<and> \<bar>x\<bar> < 2 powi (expo x + 1)"
proof -
  obtain p q where pq: "quotient_of \<bar>x\<bar> = (p, q)" by fastforce
  then have q: "q > 0" and xpq: "\<bar>x\<bar> = of_int p / of_int q"
    by (auto simp: quotient_of_denom_pos quotient_of_div)
  have "0 < (of_int p :: rat) / of_int q" using assms xpq by simp
  then have p: "p > 0" using q by (simp add: zero_less_divide_iff)
  define a b where "a = nat (ilog2 p)" and "b = nat (ilog2 q)"
  have "2 ^ a \<le> p" "p < 2 ^ Suc a" "2 ^ b \<le> q" "q < 2 ^ Suc b" "ilog2 p = int a" "ilog2 q = int b"
    using ilog2_bounds[of p] ilog2_bounds[of q] p q by (auto simp: a_def b_def)
  then have r: "2 ^ a \<le> (of_int p :: rat)" "of_int p < (2 ^ Suc a :: rat)"
    "2 ^ b \<le> (of_int q :: rat)" "of_int q < (2 ^ Suc b :: rat)"
    using of_int_le_iff[of "2 ^ a" p, where ?'a = rat] of_int_less_iff[of p "2 ^ Suc a", where ?'a = rat]
      of_int_le_iff[of "2 ^ b" q, where ?'a = rat] of_int_less_iff[of q "2 ^ Suc b", where ?'a = rat]
    by (simp_all del: of_int_le_iff of_int_less_iff)
  let ?k = "int a - int b"
  have "\<bar>x\<bar> < 2 ^ Suc a / 2 ^ b" unfolding xpq using r p q by (intro frac_less) auto
  also have "(2 ^ Suc a / 2 ^ b :: rat) = 2 powi (?k + 1)"
    by (simp add: power_int_diff power_int_add)
  finally have up: "\<bar>x\<bar> < 2 powi (?k + 1)" .
  have "(2 ^ a / 2 ^ Suc b :: rat) = 2 powi (?k - 1)"
    by (simp add: power_int_diff power_int_add)
  moreover have "2 ^ a / 2 ^ Suc b \<le> \<bar>x\<bar>" unfolding xpq using r p q by (intro frac_le) auto
  ultimately have lo: "2 powi (?k - 1) \<le> \<bar>x\<bar>" by simp
  have "expo x = (if 2 powi ?k \<le> \<bar>x\<bar> then ?k else ?k - 1)"
    by (simp add: expo_def pq \<open>ilog2 p = int a\<close> \<open>ilog2 q = int b\<close>)
  then show ?thesis using up lo by auto
qed

lemma powi_less_cancel: "(2 :: rat) powi m < 2 powi n \<longleftrightarrow> m < n"
  by (metis less_le_not_le linorder_not_le one_less_numeral_iff power_int_increasing
      power_int_strict_increasing semiring_norm(76) one_le_numeral)

lemma powi_le_cancel: "(2 :: rat) powi m \<le> 2 powi n \<longleftrightarrow> m \<le> n"
  by (meson linorder_not_le powi_less_cancel)

lemma expo_mono:
  assumes "x \<noteq> 0" "\<bar>x\<bar> \<le> \<bar>y\<bar>"
  shows "expo x \<le> expo y"
proof -
  have "y \<noteq> 0" using assms by auto
  then have "2 powi expo x < (2 :: rat) powi (expo y + 1)"
    using expo_bounds[OF assms(1)] expo_bounds[of y] assms(2) by linarith
  then show ?thesis by (simp add: powi_less_cancel)
qed

subsection \<open>Rounding to an integer\<close>

lemma round_even_of_int [simp]: "round_even (of_int n) = n"
  by (simp add: round_even_def)

lemma round_even_mono:
  assumes "x \<le> y"
  shows "round_even x \<le> round_even y"
proof -
  have fl: "\<lfloor>x\<rfloor> \<le> \<lfloor>y\<rfloor>" using assms by (rule floor_mono)
  have le1: "round_even x \<le> \<lfloor>x\<rfloor> + 1" and ge: "\<lfloor>y\<rfloor> \<le> round_even y"
    by (auto simp: round_even_def Let_def)
  show ?thesis
  proof (cases "\<lfloor>x\<rfloor> = \<lfloor>y\<rfloor>")
    case True
    then show ?thesis using assms by (auto simp: round_even_def Let_def)
  next
    case False
    then show ?thesis using fl le1 ge by linarith
  qed
qed

lemma round_even_minus: "round_even (- y) = - round_even y"
proof (cases "y = of_int \<lfloor>y\<rfloor>")
  case True
  then show ?thesis by (metis of_int_minus round_even_of_int)
next
  case False
  then have "\<lceil>y\<rceil> = \<lfloor>y\<rfloor> + 1" by (simp add: ceiling_altdef)
  then have "\<lfloor>- y\<rfloor> = - \<lfloor>y\<rfloor> - 1" by (simp add: floor_minus)
  then show ?thesis by (auto simp: round_even_def Let_def)
qed

lemma round_even_le_int: "y \<le> of_int n \<Longrightarrow> round_even y \<le> n"
  and round_even_ge_int: "of_int n \<le> y \<Longrightarrow> n \<le> round_even y"
  using round_even_mono[of y "of_int n"] round_even_mono[of "of_int n" y] by simp_all

subsection \<open>Rounding to 53 bits\<close>

lemma powi_pos [simp]: "0 < (2 :: rat) powi n"
  by simp

lemma powi_of_diff: "n \<le> m \<Longrightarrow> (2 :: rat) powi m = of_int (2 ^ nat (m - n)) * 2 powi n"
  by (metis add_diff_cancel_left' diff_add_cancel int_nat_eq of_int_numeral of_int_power
      power_int_add power_int_of_nat zero_le_numeral zero_neq_numeral diff_ge_0_iff_ge)

lemma round_value_0 [simp]: "round_value 0 = 0"
  by (simp add: round_value_def)

lemma expo_minus [simp]: "expo (- x) = expo x"
  by (simp add: expo_def)

lemma round_value_minus: "round_value (- x) = - round_value x"
  by (simp add: round_value_def quantum_def Let_def round_even_minus)

lemma round_value_multiple:
  assumes "x = of_int m * 2 powi e" "quantum x \<le> e"
  shows "round_value x = x"
proof (cases "x = 0")
  case False
  let ?q = "2 powi quantum x :: rat"
  have "x = of_int (m * 2 ^ nat (e - quantum x)) * ?q"
    using assms powi_of_diff[OF assms(2)] by simp
  then have "x / ?q = of_int (m * 2 ^ nat (e - quantum x))" by (metis powi_pos nonzero_eq_divide_eq less_irrefl)
  then have "round_even (x / ?q) = m * 2 ^ nat (e - quantum x)" by (simp only: round_even_of_int)
  then show ?thesis using False \<open>x = of_int (m * 2 ^ nat (e - quantum x)) * ?q\<close>
    by (simp add: round_value_def Let_def)
qed simp

text \<open>Numbers with at most 53 significant bits are represented exactly.\<close>

definition representable :: "rat \<Rightarrow> bool" where
  "representable x \<longleftrightarrow> (\<exists>m e. x = of_int m * 2 powi e \<and> \<bar>m\<bar> < 2 ^ 53 \<and> - 1074 \<le> e)"

lemma round_value_exact:
  assumes "representable x"
  shows "round_value x = x"
proof (cases "x = 0")
  case False
  obtain m e where x: "x = of_int m * 2 powi e" and m: "\<bar>m\<bar> < 2 ^ 53" and e: "- 1074 \<le> e"
    using assms by (auto simp: representable_def)
  have "\<bar>x\<bar> = of_int \<bar>m\<bar> * 2 powi e" by (simp add: x abs_mult)
  also have "\<dots> < of_int (2 ^ 53) * 2 powi e"
    using m by (intro mult_strict_right_mono) (simp_all only: of_int_less_iff powi_pos)
  also have "\<dots> = 2 powi (53 + e)" by (simp add: power_int_add)
  finally have "2 powi expo x < (2 :: rat) powi (53 + e)" using expo_bounds[OF False] by linarith
  then have "expo x < 53 + e" by (simp only: powi_less_cancel)
  then have "quantum x \<le> e" using e by (simp add: quantum_def)
  then show ?thesis using round_value_multiple x by blast
qed simp

lemma representable_of_int: "\<bar>n\<bar> < 2 ^ 53 \<Longrightarrow> representable (of_int n)"
  unfolding representable_def by (rule exI[of _ n], rule exI[of _ 0]) simp

lemma round_value_le_powi:
  assumes "0 < x"
  shows "round_value x \<le> 2 powi (max (expo x + 1) (- 1074))"
proof -
  let ?q = "2 powi quantum x :: rat"
  let ?t = "max (expo x + 1) (- 1074)"
  have "x \<le> 2 powi (expo x + 1)" using expo_bounds[of x] assms by auto
  also have "\<dots> \<le> 2 powi ?t" by (simp add: powi_le_cancel)
  also have "\<dots> = of_int (2 ^ nat (?t - quantum x)) * ?q"
    by (rule powi_of_diff) (simp add: quantum_def)
  finally have "x / ?q \<le> of_int (2 ^ nat (?t - quantum x))" by (simp only: pos_divide_le_eq powi_pos)
  then have "round_even (x / ?q) \<le> 2 ^ nat (?t - quantum x)" by (rule round_even_le_int)
  then have "of_int (round_even (x / ?q)) * ?q \<le> of_int (2 ^ nat (?t - quantum x)) * ?q"
    by (intro mult_right_mono) (simp_all only: of_int_le_iff less_imp_le powi_pos)
  also have "\<dots> = 2 powi ?t" by (rule powi_of_diff[symmetric]) (simp add: quantum_def)
  finally show ?thesis using assms by (simp add: round_value_def Let_def)
qed

lemma round_value_ge_powi:
  assumes "0 < x" "- 1074 \<le> expo x"
  shows "2 powi expo x \<le> round_value x"
proof -
  let ?q = "2 powi quantum x :: rat"
  have d: "2 powi expo x = of_int (2 ^ nat (expo x - quantum x)) * ?q"
    by (rule powi_of_diff) (use assms in \<open>simp add: quantum_def\<close>)
  have "of_int (2 ^ nat (expo x - quantum x)) * ?q \<le> x"
    using expo_bounds[of x] assms d by simp
  then have "of_int (2 ^ nat (expo x - quantum x)) \<le> x / ?q" by (simp only: pos_le_divide_eq powi_pos)
  then have "2 ^ nat (expo x - quantum x) \<le> round_even (x / ?q)" by (rule round_even_ge_int)
  then have "of_int (2 ^ nat (expo x - quantum x)) * ?q \<le> of_int (round_even (x / ?q)) * ?q"
    by (intro mult_right_mono) (simp_all only: of_int_le_iff less_imp_le powi_pos)
  then show ?thesis using assms d by (simp add: round_value_def Let_def)
qed

lemma round_value_nonneg: "0 \<le> x \<Longrightarrow> 0 \<le> round_value x"
  by (auto simp: round_value_def Let_def intro!: mult_nonneg_nonneg round_even_ge_int)

lemma round_value_mono_pos:
  assumes "0 < x" "x \<le> y"
  shows "round_value x \<le> round_value y"
proof (cases "quantum x = quantum y")
  case True
  then have "round_even (x / 2 powi quantum x) \<le> round_even (y / 2 powi quantum x)"
    using assms by (intro round_even_mono divide_right_mono) auto
  then show ?thesis using assms True
    by (auto simp: round_value_def Let_def intro!: mult_right_mono)
next
  case False
  have "expo x \<le> expo y" using assms by (intro expo_mono) auto
  then have "expo x + 1 \<le> expo y \<and> - 1074 \<le> expo y" using False by (auto simp: quantum_def max_def split: if_splits)
  then have "(2 :: rat) powi max (expo x + 1) (- 1074) \<le> 2 powi expo y"
    by (simp only: powi_le_cancel) simp
  with round_value_le_powi[OF assms(1)] round_value_ge_powi[of y] assms \<open>expo x + 1 \<le> expo y \<and> - 1074 \<le> expo y\<close>
  show ?thesis by auto
qed

lemma round_value_mono:
  assumes "x \<le> y"
  shows "round_value x \<le> round_value y"
proof -
  consider "0 < x" | "x \<le> 0" "0 \<le> y" | "y < 0" by linarith
  then show ?thesis
  proof cases
    case 1
    then show ?thesis using assms by (rule round_value_mono_pos)
  next
    case 2
    then show ?thesis using round_value_nonneg[of y] round_value_nonneg[of "- x"]
      by (simp add: round_value_minus)
  next
    case 3
    then show ?thesis using assms round_value_mono_pos[of "- y" "- x"] by (simp add: round_value_minus)
  qed
qed

section \<open>Values\<close>

datatype double = NaN | NInf | Fin rat | PInf

fun double_rank :: "double \<Rightarrow> nat" where
  "double_rank NaN = 0"
| "double_rank NInf = 1"
| "double_rank (Fin _) = 2"
| "double_rank PInf = 3"

fun fin_value :: "double \<Rightarrow> rat" where
  "fin_value (Fin x) = x"
| "fin_value _ = 0"

instantiation double :: linorder
begin

definition less_eq_double :: "double \<Rightarrow> double \<Rightarrow> bool" where
  "less_eq_double a b \<longleftrightarrow> double_rank a < double_rank b \<or>
     double_rank a = double_rank b \<and> fin_value a \<le> fin_value b"

definition less_double :: "double \<Rightarrow> double \<Rightarrow> bool" where
  "less_double a b \<longleftrightarrow> double_rank a < double_rank b \<or>
     double_rank a = double_rank b \<and> fin_value a < fin_value b"

instance
proof
  fix x y :: double
  show "x \<le> y \<Longrightarrow> y \<le> x \<Longrightarrow> x = y"
    by (cases x; cases y) (auto simp: less_eq_double_def)
qed (auto simp: less_eq_double_def less_double_def)

end

lemma Fin_le [simp]: "Fin x \<le> Fin y \<longleftrightarrow> x \<le> y"
  and Fin_less [simp]: "Fin x < Fin y \<longleftrightarrow> x < y"
  and Fin_less_PInf [simp]: "Fin x < PInf"
  and Fin_le_PInf [simp]: "Fin x \<le> PInf"
  and NInf_less_Fin [simp]: "NInf < Fin x"
  and NInf_le_Fin [simp]: "NInf \<le> Fin x"
  and NaN_le [simp]: "NaN \<le> d"
  and le_PInf [simp]: "d \<le> PInf"
  by (cases d; auto simp: less_eq_double_def less_double_def)+

definition isnan :: "double \<Rightarrow> bool" where
  "isnan a \<longleftrightarrow> a = NaN"

definition dlt :: "double \<Rightarrow> double \<Rightarrow> bool" where
  "dlt a b \<longleftrightarrow> \<not> isnan a \<and> \<not> isnan b \<and> a < b"

definition dle :: "double \<Rightarrow> double \<Rightarrow> bool" where
  "dle a b \<longleftrightarrow> \<not> isnan a \<and> \<not> isnan b \<and> a \<le> b"

definition deq :: "double \<Rightarrow> double \<Rightarrow> bool" where
  "deq a b \<longleftrightarrow> \<not> isnan a \<and> a = b"

section \<open>Arithmetic\<close>

definition round64 :: "rat \<Rightarrow> double" where
  "round64 x =
     (let r = round_value x
      in if \<bar>r\<bar> \<ge> 2 ^ 1024 then (if x > 0 then PInf else NInf) else Fin r)"

fun dneg :: "double \<Rightarrow> double" where
  "dneg NaN = NaN"
| "dneg NInf = PInf"
| "dneg PInf = NInf"
| "dneg (Fin x) = Fin (- x)"

fun dadd :: "double \<Rightarrow> double \<Rightarrow> double" where
  "dadd (Fin x) (Fin y) = round64 (x + y)"
| "dadd NaN _ = NaN"
| "dadd _ NaN = NaN"
| "dadd PInf NInf = NaN"
| "dadd NInf PInf = NaN"
| "dadd PInf _ = PInf"
| "dadd NInf _ = NInf"
| "dadd (Fin _) b = b"

definition dsub :: "double \<Rightarrow> double \<Rightarrow> double" where
  "dsub a b = dadd a (dneg b)"

definition inf_of_sign :: "bool \<Rightarrow> double" where
  "inf_of_sign pos = (if pos then PInf else NInf)"

fun dmul :: "double \<Rightarrow> double \<Rightarrow> double" where
  "dmul (Fin x) (Fin y) = round64 (x * y)"
| "dmul NaN _ = NaN"
| "dmul _ NaN = NaN"
| "dmul (Fin x) b = (if x = 0 then NaN else inf_of_sign ((x > 0) = (b = PInf)))"
| "dmul a (Fin y) = (if y = 0 then NaN else inf_of_sign ((y > 0) = (a = PInf)))"
| "dmul a b = inf_of_sign ((a = PInf) = (b = PInf))"

fun ddiv :: "double \<Rightarrow> double \<Rightarrow> double" where
  "ddiv (Fin x) (Fin y) =
     (if y = 0 then (if x = 0 then NaN else inf_of_sign (x > 0)) else round64 (x / y))"
| "ddiv NaN _ = NaN"
| "ddiv _ NaN = NaN"
| "ddiv (Fin x) _ = Fin 0"
| "ddiv a (Fin y) = inf_of_sign ((y \<ge> 0) = (a = PInf))"
| "ddiv _ _ = NaN"

text \<open>Conversions: integers to double round, double to integers truncate towards zero. A
  conversion whose truncated value does not fit the integer type is undefined.\<close>

definition d_of_int :: "int \<Rightarrow> double" where
  "d_of_int n = round64 (of_int n)"

definition d_of_u64 :: "64 word \<Rightarrow> double" where
  "d_of_u64 w = d_of_int (uint w)"

definition rat_trunc :: "rat \<Rightarrow> int" where
  "rat_trunc x = (if x < 0 then \<lceil>x\<rceil> else \<lfloor>x\<rfloor>)"

definition u64_of_d :: "double \<Rightarrow> 64 word result" where
  "u64_of_d a =
     (case a of
        Fin x \<Rightarrow> (if 0 \<le> rat_trunc x \<and> rat_trunc x < 2 ^ 64 then Inr (word_of_int (rat_trunc x))
                  else Inl Undefined_behavior)
      | _ \<Rightarrow> Inl Undefined_behavior)"

definition i64_of_d :: "double \<Rightarrow> 64 word result" where
  "i64_of_d a =
     (case a of
        Fin x \<Rightarrow> (if - (2 ^ 63) \<le> rat_trunc x \<and> rat_trunc x < 2 ^ 63 then Inr (word_of_int (rat_trunc x))
                  else Inl Undefined_behavior)
      | _ \<Rightarrow> Inl Undefined_behavior)"

definition int_of_d :: "double \<Rightarrow> int result" where
  "int_of_d a =
     (case a of
        Fin x \<Rightarrow> (if - (2 ^ 31) \<le> rat_trunc x \<and> rat_trunc x < 2 ^ 31 then Inr (rat_trunc x)
                  else Inl Undefined_behavior)
      | _ \<Rightarrow> Inl Undefined_behavior)"

section \<open>Laws\<close>

lemma isnan_simps [simp]: "isnan NaN" "\<not> isnan NInf" "\<not> isnan PInf" "\<not> isnan (Fin x)"
  by (simp_all add: isnan_def)

lemma round64_exact: "representable x \<Longrightarrow> \<bar>x\<bar> < 2 ^ 1024 \<Longrightarrow> round64 x = Fin x"
  by (simp add: round64_def round_value_exact Let_def)

lemma round64_0 [simp]: "round64 0 = Fin 0"
  by (simp add: round64_def)

lemma of_int_lt_overflow:
  assumes "\<bar>n\<bar> < 2 ^ 53"
  shows "\<bar>of_int n :: rat\<bar> < 2 ^ 1024"
proof -
  have "(2 :: int) ^ 53 \<le> 2 ^ 1024" by (rule power_increasing) auto
  then have "\<bar>n\<bar> < 2 ^ 1024" using assms by linarith
  then have "(of_int \<bar>n\<bar> :: rat) < of_int (2 ^ 1024)" by (simp only: of_int_less_iff)
  then show ?thesis by (simp only: of_int_abs of_int_power of_int_numeral)
qed

lemma round64_of_int: "\<bar>n\<bar> < 2 ^ 53 \<Longrightarrow> round64 (of_int n) = Fin (of_int n)"
  by (simp add: round64_exact representable_of_int of_int_lt_overflow del: of_int_abs)

lemma d_of_int_exact: "\<bar>n\<bar> < 2 ^ 53 \<Longrightarrow> d_of_int n = Fin (of_int n)"
  by (simp add: d_of_int_def round64_of_int)

lemma not_isnan_round64 [simp]: "\<not> isnan (round64 x)" "round64 x \<noteq> NaN"
  by (simp_all add: round64_def Let_def)

lemma round64_mono:
  assumes "x \<le> y"
  shows "round64 x \<le> round64 y"
proof -
  have r: "round_value x \<le> round_value y" using assms by (rule round_value_mono)
  have sx: "\<not> x > 0 \<Longrightarrow> round_value x \<le> 0" for x
    using round_value_nonneg[of "- x"] by (simp add: round_value_minus)
  have pos: "(2 :: rat) ^ 1024 > 0" by (rule zero_less_power) simp
  let ?T = "(2 :: rat) ^ 1024"
  consider "\<bar>round_value x\<bar> \<ge> ?T" "x > 0" | "\<bar>round_value x\<bar> \<ge> ?T" "\<not> x > 0" | "\<bar>round_value x\<bar> < ?T"
    by linarith
  then show ?thesis
  proof cases
    case 1
    then have "y > 0" "\<bar>round_value y\<bar> \<ge> ?T" using assms r round_value_nonneg[of x] by (auto simp: abs_if)
    then show ?thesis by (simp add: round64_def Let_def)
  next
    case 2
    then have "round64 x = NInf" by (simp add: round64_def Let_def)
    moreover have "NInf \<le> round64 y" by (simp add: round64_def Let_def)
    ultimately show ?thesis by simp
  next
    case 3
    show ?thesis
    proof (cases "\<bar>round_value y\<bar> \<ge> ?T \<and> \<not> y > 0")
      case True
      then have "round_value y \<le> - ?T" using sx[of y] by linarith
      then show ?thesis using 3 r by linarith
    next
      case False
      then show ?thesis using 3 r by (auto simp: round64_def Let_def)
    qed
  qed
qed

section \<open>Rounding error\<close>

lemma round_even_error: "\<bar>of_int (round_even y) - y\<bar> \<le> 1 / 2"
proof -
  have "of_int \<lfloor>y\<rfloor> \<le> y" "y < of_int \<lfloor>y\<rfloor> + 1" by linarith+
  then show ?thesis by (auto simp: round_even_def Let_def abs_le_iff)
qed

lemma round_even_abs: "\<bar>y\<bar> \<le> of_int n \<Longrightarrow> \<bar>round_even y\<bar> \<le> n"
  using round_even_le_int[of y n] round_even_ge_int[of "- n" y] by (auto simp: abs_le_iff)

lemma representable_round: "representable (round_value x)"
proof (cases "x = 0")
  case True
  then show ?thesis using representable_of_int[of 0] by simp
next
  case False
  let ?q = "2 powi quantum x :: rat" let ?r = "round_even (x / ?q)"
  have "\<bar>x\<bar> \<le> 2 powi (quantum x + 53)"
  proof -
    have "2 powi (expo x + 1) \<le> (2 :: rat) powi (quantum x + 53)" by (simp only: powi_le_cancel) (simp add: quantum_def)
    then show ?thesis using expo_bounds[OF False] by linarith
  qed
  also have "\<dots> = of_int (2 ^ 53) * ?q" by (simp add: power_int_add)
  finally have "\<bar>x / ?q\<bar> \<le> of_int (2 ^ 53)" by (simp only: abs_divide abs_of_pos powi_pos pos_divide_le_eq)
  then have r: "\<bar>?r\<bar> \<le> 2 ^ 53" by (rule round_even_abs)
  have v: "round_value x = of_int ?r * ?q" using False by (simp add: round_value_def Let_def)
  have q: "- 1074 \<le> quantum x" by (simp add: quantum_def)
  consider "\<bar>?r\<bar> < 2 ^ 53" | "?r = 2 ^ 53" | "?r = - (2 ^ 53)" using r by linarith
  then show ?thesis
  proof cases
    case 1
    then show ?thesis using v q unfolding representable_def by blast
  next
    case 2
    then have "round_value x = of_int 1 * 2 powi (quantum x + 53)" unfolding v by (simp add: power_int_add)
    then show ?thesis using q unfolding representable_def by (intro exI[of _ 1] exI[of _ "quantum x + 53"]) simp
  next
    case 3
    then have "round_value x = of_int (- 1) * 2 powi (quantum x + 53)" unfolding v by (simp add: power_int_add)
    then show ?thesis using q unfolding representable_def by (intro exI[of _ "- 1"] exI[of _ "quantum x + 53"]) simp
  qed
qed

lemma round64_idem: "round64 x = Fin y \<Longrightarrow> round64 y = Fin y"
  by (auto simp: round64_def Let_def round_value_exact[OF representable_round] split: if_splits)

text \<open>The error of one operation whose exact result is at most \<open>2 powi k\<close>.\<close>

lemma round_value_error:
  assumes "\<bar>x\<bar> \<le> 2 powi k" "- 1021 \<le> k"
  shows "\<bar>round_value x - x\<bar> \<le> 2 powi (k - 54)"
proof (cases "x = 0 \<or> \<bar>x\<bar> = 2 powi k")
  case True
  have "representable (of_int 1 * 2 powi k)" "representable (of_int (- 1) * 2 powi k)"
    using assms(2) unfolding representable_def by (intro exI[of _ 1] exI[of _ k], simp, intro exI[of _ "- 1"] exI[of _ k], simp)
  then have exact: "round_value (2 powi k) = 2 powi k" "round_value (- (2 powi k)) = - (2 powi k)" by (simp_all add: round_value_exact)
  consider "x = 0" | "x = 2 powi k" | "x = - (2 powi k)" using True by (auto simp: abs_if split: if_splits)
  then have "round_value x = x" using exact by cases simp_all
  then show ?thesis by simp
next
  case False
  then have x: "x \<noteq> 0" "\<bar>x\<bar> < 2 powi k" using assms(1) by auto
  then have "2 powi expo x < (2 :: rat) powi k" using expo_bounds[OF x(1)] by linarith
  then have "expo x < k" by (simp only: powi_less_cancel)
  then have "quantum x \<le> k - 53" using assms(2) by (simp add: quantum_def)
  then have q: "(2 :: rat) powi quantum x \<le> 2 powi (k - 53)" by (simp only: powi_le_cancel)
  let ?q = "2 powi quantum x :: rat" let ?y = "x / ?q"
  have "round_value x - x = (of_int (round_even ?y) - ?y) * ?q"
    using x(1) by (simp add: round_value_def Let_def left_diff_distrib)
  then have "\<bar>round_value x - x\<bar> \<le> 1 / 2 * ?q"
    using mult_right_mono[OF round_even_error[of ?y], of ?q] by (simp add: abs_mult)
  also have "\<dots> \<le> 1 / 2 * 2 powi (k - 53)" using q by simp
  also have "\<dots> = 2 powi (k - 54)" using power_int_add[of "2 :: rat" "k - 54" 1] by simp
  finally show ?thesis .
qed

text \<open>A value of type \<^verbatim>\<open>double\<close> is unchanged by rounding; every operation returns such a value.\<close>

fun is_value :: "double \<Rightarrow> bool" where
  "is_value (Fin x) \<longleftrightarrow> round64 x = Fin x"
| "is_value _ \<longleftrightarrow> True"

lemma is_value_round64 [simp]: "is_value (round64 x)"
  using round64_idem[of x] by (cases "round64 x") auto

lemma is_value_dadd [simp]: "is_value a \<Longrightarrow> is_value b \<Longrightarrow> is_value (dadd a b)"
  by (cases a; cases b) auto

lemma is_value_dneg [simp]: "is_value (dneg a) = is_value a"
proof (cases a)
  case (Fin x)
  have "round64 (- x) = dneg (round64 x)"
    by (auto simp: round64_def Let_def round_value_minus)
  then show ?thesis using Fin by (cases "round64 x") auto
qed auto

lemma is_value_dsub [simp]: "is_value a \<Longrightarrow> is_value b \<Longrightarrow> is_value (dsub a b)"
  by (simp add: dsub_def)

lemma is_value_ddiv [simp]: "is_value a \<Longrightarrow> is_value b \<Longrightarrow> is_value (ddiv a b)"
  by (cases a; cases b) (auto simp: inf_of_sign_def)

text \<open>Adding a positive number does not lead below a value, and subtracting one not above it.\<close>

lemma dsub_le: "is_value a \<Longrightarrow> 0 \<le> d \<Longrightarrow> dsub a (Fin d) \<le> a"
proof (cases a)
  case (Fin x)
  assume "is_value a" "0 \<le> d"
  then have "round64 (x - d) \<le> Fin x" using round64_mono[of "x - d" x] Fin by simp
  then show ?thesis using Fin by (simp add: dsub_def)
qed (auto simp: dsub_def)

lemma dsub_not_NaN: "a \<noteq> NaN \<Longrightarrow> dsub a (Fin d) \<noteq> NaN"
  by (cases a) (auto simp: dsub_def)

lemma dadd_not_NaN: "a \<noteq> NaN \<Longrightarrow> dadd a (Fin d) \<noteq> NaN"
  by (cases a) auto

end
