(* ===== verification/Aggregation.thy ===== *)
theory Aggregation
  imports Binary64
begin

text \<open>
  The aggregation functions of libgeopmd/src/Agg.cpp, which reduce the values of several instances
  of a domain to one. Each is translated with the loop or library algorithm it uses. A
  \<^verbatim>\<open>std::function\<close> holding one of them is compared by identity in the source
  (\<^verbatim>\<open>function_to_type()\<close>), so a function value is a constructor of \<open>agg_fn\<close> and
  \<open>agg_eval\<close> is its application. The square root used by \<^verbatim>\<open>stddev\<close> is a parameter.
\<close>

section \<open>The functions\<close>

definition nan_filter :: "double list \<Rightarrow> double list" where
  "nan_filter operand = filter (\<lambda>x. \<not> isnan x) operand"

definition agg_sum :: "double list \<Rightarrow> double" where
  "agg_sum operand =
     (let filtered = nan_filter operand
      in if filtered \<noteq> [] then foldl dadd (Fin 0) filtered else NaN)"

definition agg_average :: "double list \<Rightarrow> double" where
  "agg_average operand =
     (let filtered = nan_filter operand
      in if filtered \<noteq> [] then ddiv (agg_sum filtered) (d_of_int (int (length filtered))) else NaN)"

definition agg_median :: "double list \<Rightarrow> double" where
  "agg_median operand =
     (let filtered = nan_filter operand; num_op = length filtered
      in if num_op \<noteq> 0 then
           let mid_idx = num_op div 2; is_even = (num_op mod 2 = 0);
               operand_sorted = sort filtered; result = operand_sorted ! mid_idx
           in if is_even then ddiv (dadd result (operand_sorted ! (mid_idx - 1))) (Fin 2) else result
         else NaN)"

definition agg_integer_bitwise_or :: "double list \<Rightarrow> double result" where
  "agg_integer_bitwise_or operand =
     (let filtered = nan_filter operand
      in if filtered \<noteq> [] then
           and_then (fold_result (\<lambda>it agg_tmp. and_then (i64_of_d it) (\<lambda>w. Inr (semiring_bit_operations_class.or agg_tmp w))) filtered 0)
             (\<lambda>agg_tmp. Inr (d_of_int (sint agg_tmp)))
         else Inr NaN)"

definition double_of_bool :: "bool \<Rightarrow> double" where
  "double_of_bool b = (if b then Fin 1 else Fin 0)"

definition agg_logical_and :: "double list \<Rightarrow> double" where
  "agg_logical_and operand =
     (let filtered = nan_filter operand
      in if filtered \<noteq> [] then double_of_bool (list_all (\<lambda>it. \<not> deq it (Fin 0)) filtered) else NaN)"

definition agg_logical_or :: "double list \<Rightarrow> double" where
  "agg_logical_or operand =
     (let filtered = nan_filter operand
      in if filtered \<noteq> [] then double_of_bool (list_ex (\<lambda>it. \<not> deq it (Fin 0)) filtered) else NaN)"

definition common_value :: "double list \<Rightarrow> double \<Rightarrow> double" where
  "common_value operand no_match =
     (let filtered = nan_filter operand
      in if filtered \<noteq> [] then
           (if list_all (\<lambda>x. deq x (filtered ! 0)) filtered then filtered ! 0 else no_match)
         else NaN)"

definition GEOPM_REGION_HASH_UNMARKED :: int where
  "GEOPM_REGION_HASH_UNMARKED = 0x725e8066"

definition GEOPM_REGION_HINT_UNKNOWN :: int where
  "GEOPM_REGION_HINT_UNKNOWN = 1"

definition agg_region_hash :: "double list \<Rightarrow> double" where
  "agg_region_hash operand = common_value operand (d_of_int GEOPM_REGION_HASH_UNMARKED)"

definition agg_region_hint :: "double list \<Rightarrow> double" where
  "agg_region_hint operand = common_value operand (d_of_int GEOPM_REGION_HINT_UNKNOWN)"

text \<open>\<^verbatim>\<open>std::min_element\<close> and \<^verbatim>\<open>std::max_element\<close>: the first smallest or largest element.\<close>

fun min_element :: "double \<Rightarrow> double list \<Rightarrow> double" where
  "min_element m [] = m"
| "min_element m (x # xs) = min_element (if dlt x m then x else m) xs"

fun max_element :: "double \<Rightarrow> double list \<Rightarrow> double" where
  "max_element m [] = m"
| "max_element m (x # xs) = max_element (if dlt m x then x else m) xs"

definition agg_min :: "double list \<Rightarrow> double" where
  "agg_min operand = (case nan_filter operand of [] \<Rightarrow> NaN | x # xs \<Rightarrow> min_element x xs)"

definition agg_max :: "double list \<Rightarrow> double" where
  "agg_max operand = (case nan_filter operand of [] \<Rightarrow> NaN | x # xs \<Rightarrow> max_element x xs)"

definition agg_stddev :: "(double \<Rightarrow> double) \<Rightarrow> double list \<Rightarrow> double" where
  "agg_stddev sqrt_fn operand =
     (let filtered = nan_filter operand
      in if length filtered > 1 then
           let sum1 = agg_sum filtered; sum_squared = dmul sum1 sum1;
               operand_squared = map (\<lambda>it. dmul it it) filtered;
               sum_squares = agg_sum operand_squared;
               aa = ddiv (Fin 1) (d_of_int (int (length filtered - 1)));
               bb = ddiv aa (d_of_int (int (length filtered)))
           in sqrt_fn (dsub (dmul aa sum_squares) (dmul bb sum_squared))
         else if length filtered = 1 then Fin 0 else NaN)"

definition agg_select_first :: "double list \<Rightarrow> double" where
  "agg_select_first operand = (case operand of [] \<Rightarrow> Fin 0 | x # _ \<Rightarrow> x)"

fun expect_same_loop :: "double \<Rightarrow> double list \<Rightarrow> double" where
  "expect_same_loop val [] = val"
| "expect_same_loop val (vv # vs) = (if \<not> deq vv val then NaN else expect_same_loop val vs)"

definition agg_expect_same :: "double list \<Rightarrow> double" where
  "agg_expect_same operand =
     (let filtered = nan_filter operand
      in expect_same_loop (if filtered \<noteq> [] then filtered ! 0 else NaN) filtered)"

section \<open>Function values, names and types\<close>

datatype agg_fn =
    Fn_sum | Fn_average | Fn_median | Fn_integer_bitwise_or | Fn_logical_and | Fn_logical_or
  | Fn_min | Fn_max | Fn_stddev | Fn_region_hash | Fn_region_hint | Fn_select_first | Fn_expect_same

fun agg_eval :: "(double \<Rightarrow> double) \<Rightarrow> agg_fn \<Rightarrow> double list \<Rightarrow> double result" where
  "agg_eval sqrt_fn Fn_sum xs = Inr (agg_sum xs)"
| "agg_eval sqrt_fn Fn_average xs = Inr (agg_average xs)"
| "agg_eval sqrt_fn Fn_median xs = Inr (agg_median xs)"
| "agg_eval sqrt_fn Fn_integer_bitwise_or xs = agg_integer_bitwise_or xs"
| "agg_eval sqrt_fn Fn_logical_and xs = Inr (agg_logical_and xs)"
| "agg_eval sqrt_fn Fn_logical_or xs = Inr (agg_logical_or xs)"
| "agg_eval sqrt_fn Fn_min xs = Inr (agg_min xs)"
| "agg_eval sqrt_fn Fn_max xs = Inr (agg_max xs)"
| "agg_eval sqrt_fn Fn_stddev xs = Inr (agg_stddev sqrt_fn xs)"
| "agg_eval sqrt_fn Fn_region_hash xs = Inr (agg_region_hash xs)"
| "agg_eval sqrt_fn Fn_region_hint xs = Inr (agg_region_hint xs)"
| "agg_eval sqrt_fn Fn_select_first xs = Inr (agg_select_first xs)"
| "agg_eval sqrt_fn Fn_expect_same xs = Inr (agg_expect_same xs)"

definition name_to_function :: "string \<Rightarrow> agg_fn result" where
  "name_to_function name =
     (case map_of
        [(''sum'', Fn_sum), (''average'', Fn_average), (''median'', Fn_median),
         (''integer_bitwise_or'', Fn_integer_bitwise_or), (''logical_and'', Fn_logical_and),
         (''logical_or'', Fn_logical_or), (''region_hash'', Fn_region_hash),
         (''region_hint'', Fn_region_hint), (''min'', Fn_min), (''max'', Fn_max), (''stddev'', Fn_stddev),
         (''select_first'', Fn_select_first), (''expect_same'', Fn_expect_same)] name of
        None \<Rightarrow> Inl invalid | Some f \<Rightarrow> Inr f)"

fun function_to_name :: "agg_fn \<Rightarrow> string" where
  "function_to_name Fn_sum = ''sum''"
| "function_to_name Fn_average = ''average''"
| "function_to_name Fn_median = ''median''"
| "function_to_name Fn_integer_bitwise_or = ''integer_bitwise_or''"
| "function_to_name Fn_logical_and = ''logical_and''"
| "function_to_name Fn_logical_or = ''logical_or''"
| "function_to_name Fn_region_hash = ''region_hash''"
| "function_to_name Fn_region_hint = ''region_hint''"
| "function_to_name Fn_min = ''min''"
| "function_to_name Fn_max = ''max''"
| "function_to_name Fn_stddev = ''stddev''"
| "function_to_name Fn_select_first = ''select_first''"
| "function_to_name Fn_expect_same = ''expect_same''"

text \<open>The enumerators of \<^verbatim>\<open>Agg::m_type_e\<close> in declaration order.\<close>

fun function_to_type :: "agg_fn \<Rightarrow> int" where
  "function_to_type Fn_sum = 0"
| "function_to_type Fn_average = 1"
| "function_to_type Fn_median = 2"
| "function_to_type Fn_integer_bitwise_or = 3"
| "function_to_type Fn_logical_and = 4"
| "function_to_type Fn_logical_or = 5"
| "function_to_type Fn_min = 6"
| "function_to_type Fn_max = 7"
| "function_to_type Fn_stddev = 8"
| "function_to_type Fn_region_hash = 9"
| "function_to_type Fn_region_hint = 10"
| "function_to_type Fn_select_first = 11"
| "function_to_type Fn_expect_same = 12"

definition type_to_function :: "int \<Rightarrow> agg_fn result" where
  "type_to_function agg_type =
     (case map_of
        [(0, Fn_sum), (1, Fn_average), (2, Fn_median), (3, Fn_integer_bitwise_or), (4, Fn_logical_and),
         (5, Fn_logical_or), (9, Fn_region_hash), (10, Fn_region_hint), (6, Fn_min), (7, Fn_max), (8, Fn_stddev),
         (11, Fn_select_first), (12, Fn_expect_same)] agg_type of
        None \<Rightarrow> Inl invalid | Some f \<Rightarrow> Inr f)"

definition type_to_name :: "int \<Rightarrow> string result" where
  "type_to_name agg_type =
     (case map_of
        [(0, ''sum''), (1, ''average''), (2, ''median''), (3, ''integer_bitwise_or''),
         (4, ''logical_and''), (5, ''logical_or''), (9, ''region_hash''), (10, ''region_hint''),
         (6, ''min''), (7, ''max''), (8, ''stddev''), (11, ''select_first''), (12, ''expect_same'')] agg_type of
        None \<Rightarrow> Inl invalid | Some n \<Rightarrow> Inr n)"

section \<open>Lemmas\<close>

lemmas agg_defs = agg_sum_def agg_average_def agg_median_def agg_integer_bitwise_or_def
  agg_logical_and_def agg_logical_or_def agg_min_def agg_max_def agg_stddev_def agg_region_hash_def
  agg_region_hint_def common_value_def agg_expect_same_def

lemma nan_filter_idem [simp]: "nan_filter (nan_filter xs) = nan_filter xs"
  by (simp add: nan_filter_def)

lemma set_nan_filter [simp]: "set (nan_filter xs) = {x \<in> set xs. \<not> isnan x}"
  by (auto simp: nan_filter_def)

lemma min_element_spec:
  "\<not> isnan m \<Longrightarrow> \<forall>x \<in> set xs. \<not> isnan x \<Longrightarrow> min_element m xs = List.fold min xs m"
  by (induction xs arbitrary: m) (auto simp: dlt_def min_def)

lemma max_element_spec:
  "\<not> isnan m \<Longrightarrow> \<forall>x \<in> set xs. \<not> isnan x \<Longrightarrow> max_element m xs = List.fold max xs m"
  by (induction xs arbitrary: m) (auto simp: dlt_def max_def)

lemma agg_min_Min:
  assumes "nan_filter xs \<noteq> []"
  shows "agg_min xs = Min (set (nan_filter xs))"
proof -
  obtain y ys where ys: "nan_filter xs = y # ys" using assms by (cases "nan_filter xs") auto
  then have "\<not> isnan y" "\<forall>x \<in> set ys. \<not> isnan x"
    using set_nan_filter[of xs] by auto
  then show ?thesis using ys using Min.set_eq_fold[of y ys] by (simp add: agg_min_def min_element_spec del: set_nan_filter)
qed

lemma agg_max_Max:
  assumes "nan_filter xs \<noteq> []"
  shows "agg_max xs = Max (set (nan_filter xs))"
proof -
  obtain y ys where ys: "nan_filter xs = y # ys" using assms by (cases "nan_filter xs") auto
  then have "\<not> isnan y" "\<forall>x \<in> set ys. \<not> isnan x"
    using set_nan_filter[of xs] by auto
  then show ?thesis using ys using Max.set_eq_fold[of y ys] by (simp add: agg_max_def max_element_spec del: set_nan_filter)
qed

lemma agg_min_props:
  assumes "nan_filter xs \<noteq> []"
  shows "agg_min xs \<in> set (nan_filter xs)" "x \<in> set (nan_filter xs) \<Longrightarrow> agg_min xs \<le> x"
  unfolding agg_min_Min[OF assms] using assms by (simp_all only: Min_in Min_le finite_set set_empty not_False_eq_True)

lemma agg_max_props:
  assumes "nan_filter xs \<noteq> []"
  shows "agg_max xs \<in> set (nan_filter xs)" "x \<in> set (nan_filter xs) \<Longrightarrow> x \<le> agg_max xs"
  unfolding agg_max_Max[OF assms] using assms by (simp_all only: Max_in Max_ge finite_set set_empty not_False_eq_True)

lemma representable_double: "representable x \<Longrightarrow> representable (2 * x)"
  unfolding representable_def
proof (elim exE conjE)
  fix m e
  assume "x = of_int m * 2 powi e" "\<bar>m\<bar> < 2 ^ 53" "- 1074 \<le> e"
  then show "\<exists>m e. 2 * x = of_int m * 2 powi e \<and> \<bar>m\<bar> < 2 ^ 53 \<and> - 1074 \<le> e"
    by (intro exI[of _ m] exI[of _ "e + 1"]) (simp add: power_int_add)
qed

text \<open>The midpoint of two doubles, computed with rounding, stays between them.\<close>

lemma midpoint_between:
  assumes "u \<le> v" and u: "representable u" "\<bar>u\<bar> < 2 ^ 1023" and v: "representable v" "\<bar>v\<bar> < 2 ^ 1023"
  shows "Fin u \<le> ddiv (dadd (Fin v) (Fin u)) (Fin 2)" "ddiv (dadd (Fin v) (Fin u)) (Fin 2) \<le> Fin v"
proof -
  have two: "(2 :: rat) ^ 1024 = 2 * 2 ^ 1023" using power_Suc[of "2 :: rat" 1023] by (simp del: power_Suc)
  have big: "\<bar>w\<bar> < 2 ^ 1023 \<Longrightarrow> \<bar>2 * w\<bar> < (2 :: rat) ^ 1024 \<and> \<bar>w\<bar> < (2 :: rat) ^ 1024" for w :: rat
    unfolding two by linarith
  have ex: "round64 (2 * w) = Fin (2 * w)" "round64 w = Fin w" if "representable w" "\<bar>w\<bar> < 2 ^ 1023" for w
    using that big[of w] by (simp_all add: round64_exact representable_double)
  have "Fin (2 * u) \<le> round64 (v + u)" "round64 (v + u) \<le> Fin (2 * v)"
    using round64_mono[of "2 * u" "v + u"] round64_mono[of "v + u" "2 * v"] ex(1)[OF u] ex(1)[OF v] assms(1)
    by auto
  then obtain w where w: "round64 (v + u) = Fin w" "2 * u \<le> w" "w \<le> 2 * v"
    by (cases "round64 (v + u)") (auto simp: less_eq_double_def)
  then have "round64 u \<le> round64 (w / 2)" "round64 (w / 2) \<le> round64 v"
    by (auto intro!: round64_mono)
  then show "Fin u \<le> ddiv (dadd (Fin v) (Fin u)) (Fin 2)" "ddiv (dadd (Fin v) (Fin u)) (Fin 2) \<le> Fin v"
    using ex(2)[OF u] ex(2)[OF v] w(1) by auto
qed

lemma foldl_dadd_exact:
  assumes "\<bar>a\<bar> + sum_list (map abs ns) < 2 ^ 53"
  shows "foldl dadd (Fin (of_int a)) (map (\<lambda>n. Fin (of_int n)) ns) = Fin (of_int (a + sum_list ns))"
  using assms
proof (induction ns arbitrary: a)
  case (Cons n ns)
  have nonneg: "0 \<le> sum_list (map abs ns)" by (rule sum_list_nonneg) auto
  have lt: "\<bar>a + n\<bar> < 2 ^ 53" using Cons.prems nonneg by simp
  have "dadd (Fin (of_int a)) (Fin (of_int n)) = Fin (of_int (a + n))"
    by (simp only: dadd.simps of_int_add[symmetric] round64_of_int[OF lt])
  moreover have "\<bar>a + n\<bar> + sum_list (map abs ns) < 2 ^ 53" using Cons.prems by simp
  ultimately show ?case using Cons.IH[of "a + n"] by (simp add: add.assoc)
qed simp

section \<open>Properties\<close>

text \<open>
  Missing values: every aggregation except \<^verbatim>\<open>select_first\<close> ignores NaN operands, and returns NaN
  when nothing else is left.
\<close>

theorem agg_ignores_nan:
  assumes "f \<noteq> Fn_select_first"
  shows "agg_eval sq f (nan_filter xs) = agg_eval sq f xs \<and>
         (list_all isnan xs \<longrightarrow> agg_eval sq f xs = Inr NaN)"
proof -
  have "list_all isnan xs \<Longrightarrow> nan_filter xs = []"
    by (auto simp: nan_filter_def list_all_iff filter_empty_conv)
  then show ?thesis
    using assms by (cases f) (simp_all add: agg_defs)
qed

theorem agg_ignores_nan_witness:
  "Fn_max \<noteq> Fn_select_first \<and> agg_eval id Fn_max [NaN, Fin 3, NaN] = agg_eval id Fn_max [Fin 3] \<and>
   agg_eval id Fn_max [NaN] = Inr NaN"
  using agg_ignores_nan[of Fn_max id "[NaN, Fin 3, NaN]"] agg_ignores_nan[of Fn_max id "[NaN]"]
  by (simp add: nan_filter_def)

text \<open>
  Order statistics: on a set of finite doubles the minimum and the maximum are attained and bound
  every operand, and the median lies between them, although for an even number of operands it is
  computed with two rounded operations. The bound on the magnitudes excludes the overflow of
  the intermediate sum.
\<close>

theorem agg_order_statistics:
  assumes "nan_filter xs \<noteq> []"
    and "\<forall>x \<in> set (nan_filter xs). \<exists>v. x = Fin v \<and> representable v \<and> \<bar>v\<bar> < 2 ^ 1023"
  shows "agg_min xs \<in> set xs \<and> agg_max xs \<in> set xs \<and>
         (\<forall>x \<in> set (nan_filter xs). agg_min xs \<le> x \<and> x \<le> agg_max xs) \<and>
         agg_min xs \<le> agg_median xs \<and> agg_median xs \<le> agg_max xs"
proof -
  let ?f = "nan_filter xs" let ?s = "sort ?f" let ?m = "length ?f div 2"
  have mid: "?m < length ?s" "?m - 1 < length ?s" using assms(1) by (cases ?f; simp)+
  have in_f: "?s ! i \<in> set ?f" if "i < length ?s" for i using that nth_mem[OF that] by (simp only: set_sort)
  obtain u v where uv: "?s ! (?m - 1) = Fin u" "representable u" "\<bar>u\<bar> < 2 ^ 1023"
      "?s ! ?m = Fin v" "representable v" "\<bar>v\<bar> < 2 ^ 1023"
    using in_f[OF mid(1)] in_f[OF mid(2)] assms(2) by metis
  have "?s ! (?m - 1) \<le> ?s ! ?m" using mid by (intro sorted_nth_mono) auto
  then have le: "u \<le> v" using uv by simp
  have "Fin u \<le> agg_median xs \<and> agg_median xs \<le> Fin v"
    using midpoint_between[OF le uv(2,3,5,6)] uv assms(1) le
    by (auto simp: agg_median_def Let_def)
  moreover have "agg_min xs \<le> Fin u" "Fin v \<le> agg_max xs"
    using agg_min_props(2)[OF assms(1)] agg_max_props(2)[OF assms(1)] in_f mid uv by metis+
  ultimately have "agg_min xs \<le> agg_median xs \<and> agg_median xs \<le> agg_max xs"
    using order_trans by blast
  moreover have "agg_min xs \<in> set xs" "agg_max xs \<in> set xs"
    using agg_min_props(1)[OF assms(1)] agg_max_props(1)[OF assms(1)] by auto
  ultimately show ?thesis using agg_min_props(2)[OF assms(1)] agg_max_props(2)[OF assms(1)] by blast
qed

theorem agg_order_statistics_witness:
  "agg_min [Fin 1, NaN, Fin 2] \<le> agg_median [Fin 1, NaN, Fin 2] \<and>
   agg_median [Fin 1, NaN, Fin 2] \<le> agg_max [Fin 1, NaN, Fin 2]"
proof -
  have "representable 1" "representable 2"
    using representable_of_int[of 1] representable_of_int[of 2] by simp_all
  then show ?thesis
    using agg_order_statistics[of "[Fin 1, NaN, Fin 2]"] by (auto simp: nan_filter_def)
qed

text \<open>
  A sum of integers (counts, hashes of a region, raw counters) is exact while the magnitudes add up
  to less than \<open>2 ^ 53\<close>; in particular it does not depend on the order of the operands.
\<close>

theorem agg_sum_exact:
  assumes "ns \<noteq> []" "sum_list (map abs ns) < 2 ^ 53"
  shows "agg_sum (map (\<lambda>n. Fin (of_int n)) ns) = Fin (of_int (sum_list ns))"
proof -
  have "nan_filter (map (\<lambda>n. Fin (of_int n)) ns) = map (\<lambda>n. Fin (of_int n)) ns"
    by (simp add: nan_filter_def)
  then show ?thesis using foldl_dadd_exact[of 0 ns] assms by (simp add: agg_sum_def)
qed

theorem agg_sum_exact_witness:
  "agg_sum [Fin 1, Fin (- 5), Fin 10] = Fin 6"
  using agg_sum_exact[of "[1, - 5, 10]"] by simp

text \<open>
  Names, types and functions of the aggregation correspond one to one: each name and each type
  that a function has leads back to the function, and unknown names and types are refused.
\<close>

theorem agg_names_roundtrip:
  "name_to_function (function_to_name f) = Inr f \<and>
   type_to_function (function_to_type f) = Inr f \<and>
   type_to_name (function_to_type f) = Inr (function_to_name f) \<and>
   (\<forall>t. type_to_function t = Inl invalid \<longleftrightarrow> t < 0 \<or> t \<ge> 13)"
proof -
  have "type_to_function t = Inl invalid \<longleftrightarrow> t < 0 \<or> t \<ge> 13" for t
  proof -
    have "t \<in> {0..12} \<longleftrightarrow> t \<in> set [0..12]" by simp
    also have "\<dots> \<longleftrightarrow> t \<in> {0, 1, 2, 3, 4, 5, 6, 7, 8, 9, 10, 11, 12}" by (simp add: upto.simps)
    finally show ?thesis by (auto simp: type_to_function_def split: if_splits)
  qed
  moreover have "name_to_function (function_to_name f) = Inr f"
    by (cases f) (simp_all add: name_to_function_def)
  moreover have "type_to_function (function_to_type f) = Inr f" "type_to_name (function_to_type f) = Inr (function_to_name f)"
    by (cases f; simp add: type_to_function_def type_to_name_def)+
  ultimately show ?thesis by blast
qed

end
