(* ===== verification/Helper_Strings.thy ===== *)
theory Helper_Strings
  imports Geopm_Prelude
begin

text \<open>
  The string helpers of libgeopmd/src/Helper.cpp and what they use of the standard library:
  searching, splitting and joining, decimal and hexadecimal conversion, and the parsing of CPU
  lists (\<^verbatim>\<open>get_cpuset()\<close>). A string is a list of bytes; positions are natural numbers and
  \<^verbatim>\<open>npos\<close> is \<open>None\<close>. File access is the parameter \<open>read_file\<close>.
\<close>

section \<open>Standard library\<close>

text \<open>\<^verbatim>\<open>str.find(key, pos)\<close>\<close>

definition str_find :: "string \<Rightarrow> string \<Rightarrow> nat \<Rightarrow> nat option" where
  "str_find str key pos =
     List.find (\<lambda>i. take (length key) (drop i str) = key) [pos..<Suc (length str)]"

lemma str_find_Some:
  "str_find str key pos = Some i \<longleftrightarrow>
     pos \<le> i \<and> i \<le> length str \<and> take (length key) (drop i str) = key \<and>
     (\<forall>j. pos \<le> j \<longrightarrow> j < i \<longrightarrow> take (length key) (drop j str) \<noteq> key)"
proof -
  have "str_find str key pos = Some i \<longleftrightarrow>
     (\<exists>k < length [pos..<Suc (length str)]. take (length key) (drop ([pos..<Suc (length str)] ! k) str) = key \<and>
        i = [pos..<Suc (length str)] ! k \<and>
        (\<forall>j < k. take (length key) (drop ([pos..<Suc (length str)] ! j) str) \<noteq> key))"
    unfolding str_find_def find_Some_iff by simp
  also have "\<dots> \<longleftrightarrow> pos \<le> i \<and> i \<le> length str \<and> take (length key) (drop i str) = key \<and>
     (\<forall>j. pos \<le> j \<longrightarrow> j < i \<longrightarrow> take (length key) (drop j str) \<noteq> key)" (is "?L \<longleftrightarrow> ?R")
  proof
    assume ?L
    then obtain k where k: "k < Suc (length str) - pos" "i = pos + k"
        "take (length key) (drop i str) = key"
        "\<And>j. j < k \<Longrightarrow> take (length key) (drop (pos + j) str) \<noteq> key"
      by (auto simp del: upt_Suc)
    have "take (length key) (drop j str) \<noteq> key" if "pos \<le> j" "j < i" for j
      using k(4)[of "j - pos"] k(2) that by simp
    with k show ?R by auto
  next
    assume ?R
    then show ?L by (intro exI[of _ "i - pos"]) (auto simp del: upt_Suc)
  qed
  finally show ?thesis .
qed

lemma str_find_None:
  "str_find str key pos = None \<longleftrightarrow>
     (\<forall>i. pos \<le> i \<longrightarrow> i \<le> length str \<longrightarrow> take (length key) (drop i str) \<noteq> key)"
  unfolding str_find_def find_None_iff by (auto simp: less_Suc_eq_le simp del: upt_Suc)

text \<open>Characters: digits, white space, hexadecimal digits.\<close>

definition is_digit :: "char \<Rightarrow> bool" where
  "is_digit c \<longleftrightarrow> 48 \<le> (of_char c :: nat) \<and> (of_char c :: nat) \<le> 57"

definition is_space :: "char \<Rightarrow> bool" where
  "is_space c \<longleftrightarrow> (of_char c :: nat) = 32 \<or> 9 \<le> (of_char c :: nat) \<and> (of_char c :: nat) \<le> 13"

definition digit_char :: "nat \<Rightarrow> char" where
  "digit_char d = char_of (48 + d)"

definition digit_value :: "char \<Rightarrow> nat" where
  "digit_value c = of_char c - 48"

fun decimal_value :: "nat \<Rightarrow> string \<Rightarrow> nat" where
  "decimal_value acc [] = acc"
| "decimal_value acc (c # cs) = decimal_value (10 * acc + digit_value c) cs"

text \<open>
  \<^verbatim>\<open>std::stoi()\<close>: leading white space, an optional sign, then the longest run of digits;
  what follows is ignored.
\<close>

definition INT_MAX :: int where "INT_MAX = 2 ^ 31 - 1"
definition INT_MIN :: int where "INT_MIN = - (2 ^ 31)"

text \<open>Arithmetic on \<^verbatim>\<open>int\<close>s, whose overflow is undefined.\<close>

definition int_result :: "int \<Rightarrow> int result" where
  "int_result x = (if INT_MIN \<le> x \<and> x \<le> INT_MAX then Inr x else Inl Undefined_behavior)"

definition imul :: "int \<Rightarrow> int \<Rightarrow> int result" where
  "imul a b = (if INT_MIN \<le> a * b \<and> a * b \<le> INT_MAX then Inr (a * b) else Inl Undefined_behavior)"

definition strip_sign :: "string \<Rightarrow> bool \<times> string" where
  "strip_sign s =
     (case s of
        [] \<Rightarrow> (False, [])
      | c # cs \<Rightarrow> (if c = CHR ''-'' then (True, cs) else if c = CHR ''+'' then (False, cs) else (False, s)))"

definition stoi :: "string \<Rightarrow> int result" where
  "stoi s =
     (let (neg, body) = strip_sign (dropWhile is_space s); ds = takeWhile is_digit body;
          v = (if neg then - int (decimal_value 0 ds) else int (decimal_value 0 ds))
      in if ds = [] then Inl Std_invalid_argument
         else if v < INT_MIN \<or> v > INT_MAX then Inl Std_out_of_range
         else Inr v)"

text \<open>\<^verbatim>\<open>std::to_string()\<close> and \<^verbatim>\<open>operator<<\<close> for integers.\<close>

fun show_nat :: "nat \<Rightarrow> string" where
  "show_nat n = (if n < 10 then [digit_char n] else show_nat (n div 10) @ [digit_char (n mod 10)])"

declare show_nat.simps [simp del]

definition show_int :: "int \<Rightarrow> string" where
  "show_int i = (if i < 0 then CHR ''-'' # show_nat (nat (- i)) else show_nat (nat i))"

text \<open>\<^verbatim>\<open>std::stoul(std::string(1, c), 0, 16)\<close>\<close>

definition hex_digit_value :: "char \<Rightarrow> nat result" where
  "hex_digit_value c =
     (let n = (of_char c :: nat)
      in if 48 \<le> n \<and> n \<le> 57 then Inr (n - 48)
         else if 97 \<le> n \<and> n \<le> 102 then Inr (n - 87)
         else if 65 \<le> n \<and> n \<le> 70 then Inr (n - 55)
         else Inl Std_invalid_argument)"

subsection \<open>Printing and reading back\<close>

lemma is_digit_digit_char [simp]: "d < 10 \<Longrightarrow> is_digit (digit_char d)"
  and digit_value_digit_char [simp]: "d < 10 \<Longrightarrow> digit_value (digit_char d) = d"
  by (simp_all add: is_digit_def digit_char_def digit_value_def)

lemma decimal_value_append: "decimal_value acc (xs @ ys) = decimal_value (decimal_value acc xs) ys"
  by (induction xs arbitrary: acc) auto

lemma show_nat_props: "list_all is_digit (show_nat n) \<and> show_nat n \<noteq> [] \<and> decimal_value 0 (show_nat n) = n"
proof (induction n rule: show_nat.induct)
  case (1 n)
  show ?case
  proof (cases "n < 10")
    case True
    then show ?thesis by (simp add: show_nat.simps[of n])
  next
    case False
    then show ?thesis using "1.IH" by (simp add: show_nat.simps[of n] decimal_value_append)
  qed
qed

lemma is_digit_not_space: "is_digit c \<Longrightarrow> \<not> is_space c"
  and is_digit_not_sign: "is_digit c \<Longrightarrow> c \<noteq> CHR ''-'' \<and> c \<noteq> CHR ''+''"
  by (auto simp: is_digit_def is_space_def)

lemma stoi_digits:
  assumes "list_all is_digit ds" "ds \<noteq> []" "rest = [] \<or> \<not> is_digit (hd rest)"
    and "int (decimal_value 0 ds) \<le> INT_MAX"
  shows "stoi (ds @ rest) = Inr (int (decimal_value 0 ds))"
proof -
  obtain c cs where ds: "ds = c # cs" using assms(2) by (cases ds) auto
  then have c: "is_digit c" "\<not> is_space c" "c \<noteq> CHR ''-''" "c \<noteq> CHR ''+''"
    using assms(1) is_digit_not_space is_digit_not_sign by auto
  have body: "strip_sign (dropWhile is_space (ds @ rest)) = (False, ds @ rest)"
    using c by (simp add: ds strip_sign_def)
  have "takeWhile is_digit (ds @ rest) = ds"
    using assms(1,3) by (cases rest) (auto simp: takeWhile_append list_all_iff)
  moreover have "INT_MIN \<le> int (decimal_value 0 ds)" by (simp add: INT_MIN_def)
  ultimately show ?thesis using assms body by (simp add: stoi_def)
qed

lemma stoi_show_nat:
  "int n \<le> INT_MAX \<Longrightarrow> rest = [] \<or> \<not> is_digit (hd rest) \<Longrightarrow> stoi (show_nat n @ rest) = Inr (int n)"
  using show_nat_props[of n] stoi_digits[of "show_nat n" rest] by simp

section \<open>Splitting and joining\<close>

text \<open>The loop of \<^verbatim>\<open>string_split()\<close> from position \<open>start\<close>; the delimiter is not empty there.\<close>

function split_loop :: "string \<Rightarrow> string \<Rightarrow> nat \<Rightarrow> string list" where
  "split_loop str delim start_pos =
     (case str_find str delim start_pos of
        None \<Rightarrow> [drop start_pos str]
      | Some del_pos \<Rightarrow>
          if delim = [] then []
          else take (del_pos - start_pos) (drop start_pos str)
                 # split_loop str delim (del_pos + length delim))"
  by pat_completeness auto
termination
  by (relation "measure (\<lambda>(str, delim, start_pos). Suc (length str) - start_pos)")
     (auto simp: str_find_Some length_greater_0_conv[symmetric] simp del: length_greater_0_conv)

declare split_loop.simps [simp del]

definition string_split :: "string \<Rightarrow> string \<Rightarrow> string list result" where
  "string_split str delim =
     (if delim = [] then Inl invalid else Inr (if str \<noteq> [] then split_loop str delim 0 else []))"

fun string_join :: "string list \<Rightarrow> string \<Rightarrow> string" where
  "string_join [] delim = []"
| "string_join [s] delim = s"
| "string_join (s # t # ss) delim = s @ delim @ string_join (t # ss) delim"

definition string_begins_with :: "string \<Rightarrow> string \<Rightarrow> bool" where
  "string_begins_with str key \<longleftrightarrow> str_find str key 0 = Some 0"

definition string_ends_with :: "string \<Rightarrow> string \<Rightarrow> bool" where
  "string_ends_with str key \<longleftrightarrow> string_begins_with (rev str) (rev key)"

lemma string_begins_with_iff: "string_begins_with str key \<longleftrightarrow> (\<exists>rest. str = key @ rest)"
  unfolding string_begins_with_def str_find_Some
  by (auto, metis append_take_drop_id)

lemma string_ends_with_iff: "string_ends_with str key \<longleftrightarrow> (\<exists>rest. str = rest @ key)"
  unfolding string_ends_with_def string_begins_with_iff
  by (metis rev_append rev_rev_ident)

lemma split_loop_not_Nil: "delim \<noteq> [] \<Longrightarrow> split_loop str delim pos \<noteq> []"
  by (subst split_loop.simps) (auto split: option.splits)

lemma split_loop_join:
  "delim \<noteq> [] \<Longrightarrow> pos \<le> length str \<Longrightarrow> string_join (split_loop str delim pos) delim = drop pos str"
proof (induction str delim pos rule: split_loop.induct)
  case (1 str delim pos)
  show ?case
  proof (cases "str_find str delim pos")
    case None
    then show ?thesis by (simp add: split_loop.simps[of str delim pos])
  next
    case (Some i)
    then have i: "pos \<le> i" "take (length delim) (drop i str) = delim" "i \<le> length str"
      by (auto simp: str_find_Some)
    have "min (length str - i) (length delim) = length delim"
      using arg_cong[OF i(2), of length] by simp
    with i(3) have le: "i + length delim \<le> length str" by (simp add: min_def split: if_splits)
    have IH: "string_join (split_loop str delim (i + length delim)) delim = drop (i + length delim) str"
      using 1 Some i le by auto
    obtain q qs where q: "split_loop str delim (i + length delim) = q # qs"
      using split_loop_not_Nil[OF 1(2)] by (metis list.exhaust)
    have "drop pos str = take (i - pos) (drop pos str) @ drop i str"
      using i(1) by (metis append_take_drop_id drop_drop le_add_diff_inverse2)
    also have "drop i str = delim @ drop (i + length delim) str"
      using i(2) by (metis append_take_drop_id drop_drop add.commute)
    finally show ?thesis using Some 1(2) IH q by (simp add: split_loop.simps[of str delim pos])
  qed
qed

subsection \<open>Splitting at a single character\<close>

lemma take_1_drop: "take (Suc 0) (drop i str) = [c] \<longleftrightarrow> i < length str \<and> str ! i = c"
proof (cases "i < length str")
  case True
  then have "drop i str = str ! i # drop (Suc i) str" by (simp add: Cons_nth_drop_Suc)
  then show ?thesis using True by simp
qed simp

lemma split_loop_last:
  assumes "c \<notin> set a"
  shows "split_loop (pre @ a) [c] (length pre) = [a]"
proof -
  have "str_find (pre @ a) [c] (length pre) = None"
    unfolding str_find_None using assms nth_mem by (fastforce simp: take_1_drop nth_append)
  then show ?thesis by (simp add: split_loop.simps)
qed

lemma split_loop_step:
  assumes "c \<notin> set a"
  shows "split_loop (pre @ a @ c # rest) [c] (length pre) =
         a # split_loop (pre @ a @ c # rest) [c] (length pre + length a + 1)"
proof -
  let ?str = "pre @ a @ c # rest"
  have "str_find ?str [c] (length pre) = Some (length pre + length a)"
    unfolding str_find_Some using assms nth_mem by (fastforce simp: take_1_drop nth_append)
  then show ?thesis by (subst split_loop.simps) (simp del: append_assoc)
qed

lemma split_loop_join_pieces:
  assumes "ss \<noteq> []" "list_all (\<lambda>s. c \<notin> set s) ss"
  shows "split_loop (pre @ string_join ss [c]) [c] (length pre) = ss"
  using assms
proof (induction ss "[c]" arbitrary: pre rule: string_join.induct)
  case (2 s)
  then show ?case by (simp add: split_loop_last)
next
  case (3 s t ss)
  have "split_loop ((pre @ s @ [c]) @ string_join (t # ss) [c]) [c] (length (pre @ s @ [c])) = t # ss"
    by (rule "3.hyps") (use "3.prems" in auto)
  then show ?case
    using "3.prems" split_loop_step[of c s pre "string_join (t # ss) [c]"] by simp
qed simp

lemma string_split_join:
  assumes "ss \<noteq> []" "ss \<noteq> [[]]" "list_all (\<lambda>s. c \<notin> set s) ss"
  shows "string_split (string_join ss [c]) [c] = Inr ss"
proof -
  have "string_join ss [c] \<noteq> []" using assms(1,2) by (cases ss rule: list.exhaust, simp)
      (metis Nil_is_append_conv list.distinct(1) string_join.elims)
  then show ?thesis using split_loop_join_pieces[OF assms(1,3), of "[]"] by (simp add: string_split_def)
qed

section \<open>CPU lists and CPU masks\<close>

text \<open>
  \<^verbatim>\<open>get_cpuset()\<close>. A token of the list is either a number or a range. The increment in the
  loop over a range ending at \<^verbatim>\<open>INT_MAX\<close> overflows a signed integer.
\<close>

definition to_runtime :: "'a result \<Rightarrow> 'a result" where
  "to_runtime r = (case r of Inl Undefined_behavior \<Rightarrow> Inl Undefined_behavior | Inl e \<Rightarrow> Inl runtime | Inr x \<Rightarrow> Inr x)"

definition cpu_range_loop :: "int \<Rightarrow> int \<Rightarrow> int list \<Rightarrow> int list result" where
  "cpu_range_loop start end' result =
     (if start \<le> end' \<and> end' = INT_MAX then Inl Undefined_behavior
      else Inr (fold insort_insert [start..end'] result))"

definition parse_cpu_range :: "string \<Rightarrow> int list \<Rightarrow> int list result" where
  "parse_cpu_range token result =
     (case str_find token ''-'' 0 of
        None \<Rightarrow> to_runtime (and_then (stoi token) (\<lambda>cpu. Inr (insort_insert cpu result)))
      | Some hyphen_pos \<Rightarrow>
          to_runtime
            (and_then (stoi (take hyphen_pos token)) (\<lambda>start.
             and_then (stoi (drop (hyphen_pos + 1) token)) (\<lambda>end'.
               cpu_range_loop start end' result))))"

definition remove_newlines :: "string \<Rightarrow> string" where
  "remove_newlines s = filter (\<lambda>c. c \<noteq> CHR 0x0A) s"

fun read_first :: "(string \<Rightarrow> string result) \<Rightarrow> string list \<Rightarrow> string option result" where
  "read_first read_file [] = Inr None"
| "read_first read_file (path # paths) =
     (case read_file path of
        Inr content \<Rightarrow> Inr (Some (remove_newlines content))
      | Inl (Exception e) \<Rightarrow> read_first read_file paths
      | Inl e \<Rightarrow> Inl e)"

definition get_cpuset :: "(string \<Rightarrow> string result) \<Rightarrow> int \<Rightarrow> int list result" where
  "get_cpuset read_file pid =
     (let proc_path = (if pid = 0 then ''/proc/self/cpuset'' else ''/proc/'' @ show_int pid @ ''/cpuset'')
      in case read_file proc_path of
           Inl (Exception e) \<Rightarrow> Inl runtime
         | Inl e \<Rightarrow> Inl e
         | Inr content \<Rightarrow>
             let cpuset_cgroup = remove_newlines content
             in and_then
                  (read_first read_file
                     [''/sys/fs/cgroup/cpuset'' @ cpuset_cgroup @ ''/cpuset.effective_cpus'',
                      ''/sys/fs/cgroup'' @ cpuset_cgroup @ ''/cpuset.cpus.effective''])
                  (\<lambda>found. case found of
                      None \<Rightarrow> Inl runtime
                    | Some cpus_content \<Rightarrow>
                        and_then (string_split cpus_content '','') (\<lambda>ranges.
                          fold_result parse_cpu_range ranges [])))"

text \<open>
  The format in which the kernel prints a set of CPUs: a comma separated list of numbers and of
  ranges, which are pairs of a first and a last CPU here.
\<close>

definition show_range :: "nat \<times> nat \<Rightarrow> string" where
  "show_range r = (if fst r = snd r then show_nat (fst r) else show_nat (fst r) @ ''-'' @ show_nat (snd r))"

definition show_cpu_list :: "(nat \<times> nat) list \<Rightarrow> string" where
  "show_cpu_list rs = string_join (map show_range rs) '',''"

definition range_cpus :: "(nat \<times> nat) list \<Rightarrow> int set" where
  "range_cpus rs = (\<Union>r \<in> set rs. {int (fst r)..int (snd r)})"

lemma show_nat_no_char: "\<not> is_digit c \<Longrightarrow> c \<notin> set (show_nat n)"
  using show_nat_props[of n] by (auto simp: list_all_iff)

lemma no_digit [simp]: "\<not> is_digit CHR ''-''" "\<not> is_digit CHR '',''" "\<not> is_digit CHR 0x0A"
    "\<not> is_digit CHR '':''" "\<not> is_digit CHR '' ''"
  by (simp_all add: is_digit_def)

lemma str_find_char_None: "c \<notin> set s \<Longrightarrow> str_find s [c] 0 = None"
  by (auto simp: str_find_None take_1_drop)

lemma str_find_char_Some: "c \<notin> set a \<Longrightarrow> str_find (a @ c # b) [c] 0 = Some (length a)"
  by (auto simp: str_find_Some take_1_drop nth_append)

lemma parse_show_range:
  assumes "int (snd r) < INT_MAX" "fst r \<le> snd r" "sset acc"
  shows "\<exists>acc'. parse_cpu_range (show_range r) acc = Inr acc' \<and> sset acc' \<and>
                set acc' = set acc \<union> {int (fst r)..int (snd r)}"
proof (cases "fst r = snd r")
  case True
  then have "str_find (show_range r) ''-'' 0 = None" "stoi (show_range r) = Inr (int (fst r))"
    using assms stoi_show_nat[of "fst r" "[]"] show_nat_no_char[of "CHR ''-''"]
    by (auto simp: show_range_def intro!: str_find_char_None)
  then show ?thesis
    using assms True by (auto simp: parse_cpu_range_def to_runtime_def set_insort_insert)
next
  case False
  let ?s = "show_range r"
  have s: "?s = show_nat (fst r) @ CHR ''-'' # show_nat (snd r)" using False by (simp add: show_range_def)
  have "str_find ?s ''-'' 0 = Some (length (show_nat (fst r)))"
    unfolding s by (rule str_find_char_Some) (simp add: show_nat_no_char)
  moreover have "stoi (take (length (show_nat (fst r))) ?s) = Inr (int (fst r))"
    using assms stoi_show_nat[of "fst r" "[]"] by (simp add: s)
  moreover have "stoi (drop (length (show_nat (fst r)) + 1) ?s) = Inr (int (snd r))"
    using assms stoi_show_nat[of "snd r" "[]"] by (simp add: s)
  ultimately show ?thesis
    using assms fold_insort_insert[OF assms(3), of "[int (fst r)..int (snd r)]"]
    by (auto simp: parse_cpu_range_def to_runtime_def cpu_range_loop_def)
qed

lemma parse_show_ranges:
  assumes "list_all (\<lambda>r. int (snd r) < INT_MAX \<and> fst r \<le> snd r) rs" "sset acc"
  shows "\<exists>acc'. fold_result parse_cpu_range (map show_range rs) acc = Inr acc' \<and> sset acc' \<and>
                set acc' = set acc \<union> range_cpus rs"
  using assms
proof (induction rs arbitrary: acc)
  case Nil
  then show ?case by (simp add: range_cpus_def)
next
  case (Cons r rs)
  from Cons.prems obtain acc1 where 1: "parse_cpu_range (show_range r) acc = Inr acc1" "sset acc1"
      "set acc1 = set acc \<union> {int (fst r)..int (snd r)}"
    using parse_show_range[of r acc] by auto
  from Cons.IH[OF _ 1(2)] Cons.prems obtain acc' where
    "fold_result parse_cpu_range (map show_range rs) acc1 = Inr acc'" "sset acc'"
    "set acc' = set acc1 \<union> range_cpus rs" by auto
  with 1 show ?case by (auto simp: range_cpus_def)
qed

lemma show_range_chars: "set (show_range r) \<subseteq> {c. is_digit c \<or> c = CHR ''-''}"
  using show_nat_props[of "fst r"] show_nat_props[of "snd r"] by (auto simp: show_range_def list_all_iff)

lemma show_range_not_Nil: "show_range r \<noteq> []"
  using show_nat_props[of "fst r"] show_nat_props[of "snd r"] by (simp add: show_range_def)

lemma string_join_chars: "set (string_join ss d) \<subseteq> (\<Union>s \<in> set ss. set s) \<union> set d"
  by (induction ss d rule: string_join.induct) auto

lemma show_cpu_list_no_newline: "remove_newlines (show_cpu_list rs @ [CHR 0x0A]) = show_cpu_list rs"
proof -
  have "set (show_cpu_list rs) \<subseteq> {c. is_digit c \<or> c = CHR ''-'' \<or> c = CHR '',''}"
    unfolding show_cpu_list_def
    by (rule order_trans[OF string_join_chars]) (use show_range_chars in auto)
  then have "CHR 0x0A \<notin> set (show_cpu_list rs)" by (auto simp: is_digit_def)
  then show ?thesis by (auto simp: remove_newlines_def filter_id_conv)
qed

lemma split_show_cpu_list:
  assumes "rs \<noteq> []"
  shows "string_split (show_cpu_list rs) '','' = Inr (map show_range rs)"
  unfolding show_cpu_list_def
proof (rule string_split_join)
  show "map show_range rs \<noteq> []" "map show_range rs \<noteq> [[]]"
    using assms show_range_not_Nil by (auto simp: map_eq_Cons_conv)
  show "list_all (\<lambda>s. CHR '','' \<notin> set s) (map show_range rs)"
    using show_range_chars by (fastforce simp: list_all_iff)
qed

text \<open>\<^verbatim>\<open>make_cpu_set()\<close>: a mask is the function from CPU index to bit; \<open>garbage\<close> is what the
  allocation holds. The macros \<^verbatim>\<open>CPU_SET\<close> and \<^verbatim>\<open>CPU_CLR\<close> ignore indices beyond the 1024 bits of
  a \<^verbatim>\<open>cpu_set_t\<close>.\<close>

definition cpu_bit_assign :: "int \<Rightarrow> bool \<Rightarrow> (int \<Rightarrow> bool) \<Rightarrow> int \<Rightarrow> bool" where
  "cpu_bit_assign cpu b bits = (if cpu < 1024 then bits(cpu := b) else bits)"

fun make_cpu_set_loop :: "int list \<Rightarrow> int list \<Rightarrow> (int \<Rightarrow> bool) \<Rightarrow> int \<Rightarrow> bool" where
  "make_cpu_set_loop [] enabled bits = bits"
| "make_cpu_set_loop (cpu_idx # rest) [] bits = make_cpu_set_loop rest [] (cpu_bit_assign cpu_idx False bits)"
| "make_cpu_set_loop (cpu_idx # rest) (e # es) bits =
     (if e = cpu_idx then make_cpu_set_loop rest es (cpu_bit_assign cpu_idx True bits)
      else make_cpu_set_loop rest (e # es) (cpu_bit_assign cpu_idx False bits))"

definition make_cpu_set :: "int \<Rightarrow> int list \<Rightarrow> (int \<Rightarrow> bool) \<Rightarrow> int \<Rightarrow> bool" where
  "make_cpu_set num_cpu cpu_enabled garbage =
     (let num_cpu = (if num_cpu < 128 then 128 else num_cpu)
      in make_cpu_set_loop [0..num_cpu - 1] cpu_enabled garbage)"

lemma make_cpu_set_loop_outside:
  "i \<notin> set idxs \<or> i \<ge> 1024 \<Longrightarrow> make_cpu_set_loop idxs enabled bits i = bits i"
  by (induction idxs enabled bits rule: make_cpu_set_loop.induct) (auto simp: cpu_bit_assign_def)

lemma make_cpu_set_loop_inside:
  assumes "sset enabled" "\<forall>e \<in> set enabled. k \<le> e" "k \<le> i" "i \<le> n" "i < 1024"
  shows "make_cpu_set_loop [k..n] enabled bits i \<longleftrightarrow> i \<in> set enabled"
  using assms
proof (induction "nat (n - k)" arbitrary: k enabled bits rule: less_induct)
  case less
  have loop: "[k..n] = k # [k + 1..n]" using less.prems(3,4) by (simp add: upto_rec1)
  show ?case
  proof (cases "i = k")
    case True
    have out: "make_cpu_set_loop [k + 1..n] es m i = m i" for es m
      using True by (simp add: make_cpu_set_loop_outside)
    show ?thesis
    proof (cases enabled)
      case (Cons e es)
      then show ?thesis using less.prems True out by (auto simp: loop cpu_bit_assign_def sset_def)
    qed (use less.prems True out in \<open>simp add: loop cpu_bit_assign_def\<close>)
  next
    case False
    have IH: "make_cpu_set_loop [k + 1..n] es m i \<longleftrightarrow> i \<in> set es"
      if "sset es" "\<forall>e \<in> set es. k + 1 \<le> e" for es m
      using less.hyps[of "k + 1" es m] that less.prems False by auto
    show ?thesis
    proof (cases enabled)
      case (Cons e es)
      then have es: "sset es" "\<forall>x \<in> set es. k + 1 \<le> x" "e \<noteq> k \<Longrightarrow> \<forall>x \<in> set enabled. k + 1 \<le> x"
        using less.prems(1,2) by (auto simp: sset_def order_le_less)
      then show ?thesis using IH[OF es(1,2)] IH[OF less.prems(1) es(3)] False by (simp add: loop Cons)
    qed (use IH in \<open>simp add: loop sset_def\<close>)
  qed
qed

section \<open>Properties\<close>

text \<open>
  \<^verbatim>\<open>string_split()\<close> and \<^verbatim>\<open>string_join()\<close> are inverse to each other: joining the pieces of a
  non-empty string gives the string back for every non-empty delimiter, and splitting a joined
  list at a single-character delimiter that occurs in no piece gives the pieces back (a list
  that joins to the empty string excepted, which splits into no pieces); an empty delimiter is
  refused.
\<close>

theorem split_join_roundtrip:
  assumes "delim \<noteq> []" "str \<noteq> []"
    and "ss \<noteq> []" "ss \<noteq> [[]]" "list_all (\<lambda>s. c \<notin> set s) ss"
  shows "map_sum id (\<lambda>pieces. string_join pieces delim) (string_split str delim) = Inr str \<and>
         string_split (string_join ss [c]) [c] = Inr ss \<and>
         string_split str [] = Inl invalid"
  using assms split_loop_join[of delim 0 str] string_split_join[of ss c] by (simp add: string_split_def)

theorem split_join_roundtrip_witness:
  "string_split ''a::b::'' ''::'' = Inr [''a'', ''b'', []] \<and>
   map_sum id (\<lambda>pieces. string_join pieces ''::'') (string_split ''a::b::'' ''::'') = Inr ''a::b::'' \<and>
   string_split (string_join [''x'', [], ''y''] '','') '','' = Inr [''x'', [], ''y'']"
proof -
  have "string_split ''a::b::'' ''::'' = Inr [''a'', ''b'', []]" by code_simp
  then show ?thesis
    using split_join_roundtrip[of "''::''" "''a::b::''" "[''x'', [], ''y'']" "CHR '',''"] by simp
qed

text \<open>
  \<^verbatim>\<open>get_cpuset()\<close> reads the kernel's format. When the process's cgroup file can be read and
  one of the two cpuset files of that cgroup holds a non-empty list of CPU ranges as the kernel
  prints it, the result is exactly the set of the CPUs in those ranges, in increasing order; the
  version 1 path takes precedence.
\<close>

theorem get_cpuset_reads_kernel_format:
  assumes "read_file ''/proc/self/cpuset'' = Inr (cgroup @ [CHR 0x0A])" "CHR 0x0A \<notin> set cgroup"
    and "read_file (''/sys/fs/cgroup/cpuset'' @ cgroup @ ''/cpuset.effective_cpus'') =
           Inr (show_cpu_list rs @ [CHR 0x0A]) \<or>
         read_file (''/sys/fs/cgroup/cpuset'' @ cgroup @ ''/cpuset.effective_cpus'') = Inl (Exception e) \<and>
         read_file (''/sys/fs/cgroup'' @ cgroup @ ''/cpuset.cpus.effective'') =
           Inr (show_cpu_list rs @ [CHR 0x0A])"
    and "rs \<noteq> []" "list_all (\<lambda>r. int (snd r) < INT_MAX \<and> fst r \<le> snd r) rs"
  shows "\<exists>cpus. get_cpuset read_file 0 = Inr cpus \<and> sset cpus \<and> set cpus = range_cpus rs"
proof -
  have "remove_newlines (cgroup @ [CHR 0x0A]) = cgroup"
    using assms(2) by (auto simp: remove_newlines_def filter_id_conv)
  then have "get_cpuset read_file 0 =
      and_then (string_split (show_cpu_list rs) '','') (\<lambda>ranges. fold_result parse_cpu_range ranges [])"
    using assms(1,3) by (auto simp: get_cpuset_def Let_def show_cpu_list_no_newline)
  then show ?thesis
    using parse_show_ranges[OF assms(5), of "[]"] by (simp add: split_show_cpu_list[OF assms(4)] sset_def)
qed

definition demo_cgroup_files :: "string \<Rightarrow> string result" where
  "demo_cgroup_files path =
     (if path = ''/proc/self/cpuset'' then Inr (''/job'' @ [CHR 0x0A])
      else if path = ''/sys/fs/cgroup/job/cpuset.cpus.effective'' then Inr (''0-2,10'' @ [CHR 0x0A])
      else Inl (Exception 2))"

theorem get_cpuset_reads_kernel_format_witness:
  "\<exists>cpus. get_cpuset demo_cgroup_files 0 = Inr cpus \<and> sset cpus \<and> set cpus = {0, 1, 2, 10}"
proof -
  have "show_cpu_list [(0, 2), (10, 10)] = ''0-2,10''"
    by code_simp
  moreover have "range_cpus [(0, 2), (10, 10)] = {0, 1, 2, 10}" by (auto simp: range_cpus_def)
  ultimately show ?thesis
    using get_cpuset_reads_kernel_format[of demo_cgroup_files "''/job''" "[(0, 2), (10, 10)]" 2]
    by (simp add: demo_cgroup_files_def INT_MAX_def)
qed

text \<open>
  \<^verbatim>\<open>make_cpu_set()\<close> initialises the mask it allocates: for a set of non-negative CPU indices,
  every bit below both the (rounded up) number of CPUs and the 1024 bits of a \<^verbatim>\<open>cpu_set_t\<close> is set
  exactly when the index is in the set, whatever the allocated memory held; the bits from 1024
  on keep what the memory held.
\<close>

theorem make_cpu_set_initialises:
  assumes "sset enabled" "\<forall>e \<in> set enabled. 0 \<le> e"
  shows "\<forall>i. 0 \<le> i \<longrightarrow> i < max 128 num_cpu \<longrightarrow>
           (i < 1024 \<longrightarrow> make_cpu_set num_cpu enabled garbage i = (i \<in> set enabled)) \<and>
           (1024 \<le> i \<longrightarrow> make_cpu_set num_cpu enabled garbage i = garbage i)"
  using make_cpu_set_loop_inside[OF assms, of _ "max 128 num_cpu - 1" garbage]
  by (auto simp: make_cpu_set_def max_def make_cpu_set_loop_outside)

theorem make_cpu_set_initialises_witness:
  "make_cpu_set 4 [1, 3] (\<lambda>_. True) 3 \<and> \<not> make_cpu_set 4 [1, 3] (\<lambda>_. True) 2 \<and>
   make_cpu_set 2000 [1, 3] (\<lambda>_. True) 1500"
  using make_cpu_set_initialises[of "[1, 3]" 4 "\<lambda>_. True"]
    make_cpu_set_initialises[of "[1, 3]" 2000 "\<lambda>_. True"]
  by (simp add: sset_def)

end
