(* ===== verification/Error_Messages.thy ===== *)
theory Error_Messages
  imports Geopm_Prelude
begin

text \<open>
  Error codes and messages of libgeopmd/src/Exception.cpp: the conversion of exceptions into the
  error codes of the C interfaces, and the \<^verbatim>\<open>ErrorMessage\<close> object that keeps the text of the
  last error in a fixed buffer. \<^verbatim>\<open>strerror_r()\<close> is a parameter. A C string in a buffer is the
  part before the first NUL byte.
\<close>

section \<open>State and operations\<close>

definition GEOPM_MESSAGE_MAX :: nat where
  "GEOPM_MESSAGE_MAX = 4096"

definition c_str :: "string \<Rightarrow> string" where
  "c_str buffer = takeWhile (\<lambda>c. c \<noteq> CHR 0x00) buffer"

record error_message_state =
  m_error_value :: int
  m_error_message :: string

definition error_message_init :: error_message_state where
  "error_message_init = \<lparr>m_error_value = 0, m_error_message = replicate GEOPM_MESSAGE_MAX (CHR 0x00)\<rparr>"

definition value_message_map :: "int \<Rightarrow> string option" where
  "value_message_map = map_of
     [(- 1, ''Runtime error''), (- 2, ''Logic error''), (- 3, ''Invalid argument''),
      (- 4, ''Unable to parse input file''), (- 5, ''Control hierarchy level is out of range''),
      (- 6, ''Feature not yet implemented''),
      (- 7, ''Current platform not supported or unrecognized''),
      (- 8, ''Could not open MSR device''), (- 9, ''Could not read from MSR device''),
      (- 10, ''Could not write to MSR device''),
      (- 11, ''Specified Agent not supported or unrecognized''),
      (- 12, ''MPI ranks are not affinitized to distinct CPUs''),
      (- 13, ''Requested agent is unavailable or invalid''),
      (- 14, ''Encountered a data store error'')]"

definition message_fixed :: "(int \<Rightarrow> string) \<Rightarrow> int \<Rightarrow> string" where
  "message_fixed strerror err =
     (let err = (if err \<noteq> 0 then err else GEOPM_ERROR_RUNTIME)
      in ''<geopm> '' @ (case value_message_map err of Some text \<Rightarrow> text | None \<Rightarrow> strerror err))"

definition message_update :: "int \<Rightarrow> string \<Rightarrow> error_message_state \<Rightarrow> error_message_state" where
  "message_update error_value text st =
     (let num_copy = (if length text > GEOPM_MESSAGE_MAX - 1 then GEOPM_MESSAGE_MAX - 1 else length text);
          buffer = take num_copy text @ drop num_copy (m_error_message st)
      in \<lparr>m_error_value = error_value, m_error_message = buffer[num_copy := CHR 0x00]\<rparr>)"

definition message_last :: "(int \<Rightarrow> string) \<Rightarrow> int \<Rightarrow> error_message_state \<Rightarrow> string" where
  "message_last strerror error_value st =
     (if error_value = m_error_value st then c_str (m_error_message st)
      else message_fixed strerror error_value)"

text \<open>\<^verbatim>\<open>strncpy()\<close>: at most \<open>n\<close> bytes of the string, padded with NUL up to \<open>n\<close>.\<close>

definition strncpy :: "string \<Rightarrow> string \<Rightarrow> nat \<Rightarrow> string" where
  "strncpy dst src n = take n (c_str src @ replicate n (CHR 0x00)) @ drop n dst"

definition geopm_error_message ::
  "(int \<Rightarrow> string) \<Rightarrow> int \<Rightarrow> string \<Rightarrow> nat \<Rightarrow> error_message_state \<Rightarrow> string" where
  "geopm_error_message strerror error_value buffer message_size st =
     (if message_size \<noteq> 0 then
        strncpy (buffer[message_size - 1 := CHR 0x00]) (message_last strerror error_value st) (message_size - 1)
      else buffer)"

text \<open>
  \<^verbatim>\<open>exception_handler()\<close>: what was thrown is a \<^verbatim>\<open>geopm::Exception\<close> with its error value, a
  \<^verbatim>\<open>std::system_error\<close> with its code, another \<^verbatim>\<open>std::exception\<close>, or an object of a foreign type,
  which the handler does not catch (\<open>None\<close>).
\<close>

datatype thrown = Thrown_geopm int | Thrown_system int | Thrown_std | Thrown_foreign

definition exception_handler ::
  "int \<Rightarrow> (thrown \<times> string) option \<Rightarrow> error_message_state \<Rightarrow> int option \<times> error_message_state" where
  "exception_handler errno eptr st =
     (let err = (if errno \<noteq> 0 then errno else GEOPM_ERROR_RUNTIME)
      in case eptr of
           None \<Rightarrow> (Some err, st)
         | Some (ex, what) \<Rightarrow>
             (case ex of
                Thrown_foreign \<Rightarrow> (None, st)
              | Thrown_geopm e \<Rightarrow> (Some e, message_update e what st)
              | Thrown_system e \<Rightarrow> (Some e, message_update e what st)
              | Thrown_std \<Rightarrow> (Some err, message_update err what st)))"

text \<open>The constructor of \<^verbatim>\<open>geopm::Exception\<close> never stores zero.\<close>

definition make_exception :: "int \<Rightarrow> exn" where
  "make_exception err = Exception (if err \<noteq> 0 then err else GEOPM_ERROR_RUNTIME)"

text \<open>
  The tail of every C wrapper: \<^verbatim>\<open>catch (...)\<close>, the handler, and the replacement of a
  non-negative code by \<^verbatim>\<open>GEOPM_ERROR_RUNTIME\<close>.
\<close>

definition thrown_of :: "exn \<Rightarrow> thrown" where
  "thrown_of e = (case e of Exception v \<Rightarrow> Thrown_geopm v | _ \<Rightarrow> Thrown_std)"

definition c_api :: "int \<Rightarrow> int result \<Rightarrow> int result" where
  "c_api errno r =
     (case r of
        Inr v \<Rightarrow> Inr v
      | Inl Undefined_behavior \<Rightarrow> Inl Undefined_behavior
      | Inl e \<Rightarrow> (case fst (exception_handler errno (Some (thrown_of e, [])) error_message_init) of
                    Some result \<Rightarrow> Inr (if result < 0 then result else GEOPM_ERROR_RUNTIME)
                  | None \<Rightarrow> Inl e))"

section \<open>Lemmas\<close>

lemma c_str_append_NUL: "c_str (s @ CHR 0x00 # rest) = c_str s"
  by (simp add: c_str_def takeWhile_tail)

lemma c_str_update:
  assumes "length (m_error_message st) = GEOPM_MESSAGE_MAX"
  shows "c_str (m_error_message (message_update e text st)) = c_str (take (GEOPM_MESSAGE_MAX - 1) text)"
    and "length (m_error_message (message_update e text st)) = GEOPM_MESSAGE_MAX"
proof -
  let ?n = "min (length text) (GEOPM_MESSAGE_MAX - 1)"
  have m: "m_error_message (message_update e text st) =
           (take ?n text @ drop ?n (m_error_message st))[?n := CHR 0x00]"
    by (simp add: message_update_def Let_def min_def)
  have "?n < length (m_error_message st)" using assms by (simp add: GEOPM_MESSAGE_MAX_def)
  then have "m_error_message (message_update e text st) =
             take ?n text @ CHR 0x00 # drop (Suc ?n) (m_error_message st)"
    unfolding m by (simp add: list_update_append Cons_nth_drop_Suc[symmetric])
  then show "c_str (m_error_message (message_update e text st)) = c_str (take (GEOPM_MESSAGE_MAX - 1) text)"
    by (simp add: c_str_append_NUL min_def)
  show "length (m_error_message (message_update e text st)) = GEOPM_MESSAGE_MAX"
    unfolding m using assms by (simp add: GEOPM_MESSAGE_MAX_def)
qed

lemma c_api_Inl:
  "e \<noteq> Undefined_behavior \<Longrightarrow> 0 \<le> errno \<Longrightarrow>
   c_api errno (Inl e) = Inr (case e of Exception v \<Rightarrow> if v < 0 then v else - 1 | _ \<Rightarrow> - 1)"
  by (cases e) (auto simp: c_api_def exception_handler_def thrown_of_def Let_def)

lemma c_api_Inr [simp]: "c_api errno (Inr v) = Inr v"
  by (simp add: c_api_def)

lemma strncpy_terminated:
  assumes "n < length dst" "dst ! n = CHR 0x00"
  shows "c_str (strncpy dst src n) = take n (c_str src)"
proof -
  have d: "drop n dst = CHR 0x00 # drop (Suc n) dst" using assms by (metis Cons_nth_drop_Suc)
  have no0: "CHR 0x00 \<notin> set (c_str src)" by (auto simp: c_str_def dest: set_takeWhileD)
  then have id: "c_str (take n (c_str src)) = take n (c_str src)"
    by (auto simp: c_str_def takeWhile_eq_all_conv dest: in_set_takeD)
  show ?thesis
  proof (cases "length (c_str src) < n")
    case True
    then obtain k where "n - length (c_str src) = Suc k" by (metis Suc_diff_Suc)
    then show ?thesis using id True
      by (simp add: strncpy_def take_Cons c_str_append_NUL)
  next
    case False
    then show ?thesis using id by (simp add: strncpy_def d c_str_append_NUL)
  qed
qed

section \<open>Properties\<close>

text \<open>
  Error reporting of the C interfaces. Every exception with defined behaviour becomes a
  negative return value, and a \<^verbatim>\<open>geopm::Exception\<close> with a negative error value keeps it. After
  the handler has recorded an exception under a code, \<^verbatim>\<open>geopm_error_message()\<close> asked for that
  code leaves in the caller's buffer a NUL-terminated prefix of the recorded text, cut at the
  4095 bytes of the internal buffer and at the caller's buffer size; another code yields the fixed
  text of that code.
\<close>

theorem c_error_reporting:
  assumes "e \<noteq> Undefined_behavior" "0 \<le> errno"
    and "length (m_error_message st) = GEOPM_MESSAGE_MAX"
    and "exception_handler errno (Some (ex, what)) st = (Some code, st')"
    and "0 < n" "n \<le> length buffer"
  shows "(\<exists>v. c_api errno (Inl e) = Inr v \<and> v < 0 \<and> (\<forall>v'. e = Exception v' \<and> v' < 0 \<longrightarrow> v = v')) \<and>
         c_str (geopm_error_message strerror code buffer n st') =
           take (n - 1) (c_str (take (GEOPM_MESSAGE_MAX - 1) what)) \<and>
         (\<forall>code'. code' \<noteq> code \<longrightarrow>
           c_str (geopm_error_message strerror code' buffer n st') =
             take (n - 1) (c_str (message_fixed strerror code')))"
proof -
  have code: "\<exists>v. c_api errno (Inl e) = Inr v \<and> v < 0 \<and> (\<forall>v'. e = Exception v' \<and> v' < 0 \<longrightarrow> v = v')"
    using assms(1,2) by (auto simp: c_api_Inl split: exn.splits)
  have st': "st' = message_update code what st"
    using assms(4) by (auto simp: exception_handler_def Let_def split: thrown.splits)
  have last: "message_last strerror code st' = c_str (take (GEOPM_MESSAGE_MAX - 1) what)"
    using c_str_update(1)[OF assms(3), of code what] by (simp add: message_last_def st') (simp add: message_update_def Let_def)
  have other: "message_last strerror code' st' = message_fixed strerror code'" if "code' \<noteq> code" for code'
    using that by (simp add: message_last_def st' message_update_def Let_def)
  have idem: "c_str (c_str s) = c_str s" for s by (auto simp: c_str_def takeWhile_eq_all_conv dest: set_takeWhileD)
  have copy: "c_str (strncpy (buffer[n - 1 := CHR 0x00]) s (n - 1)) = take (n - 1) (c_str s)" for s
    by (rule strncpy_terminated) (use assms(5,6) in auto)
  then show ?thesis using code other assms(5) by (simp add: geopm_error_message_def last idem)
qed

theorem c_error_reporting_witness:
  "c_str (geopm_error_message (\<lambda>_. ''?'') (- 3) (replicate 4 CHR ''x'') 4
     (snd (exception_handler 0 (Some (Thrown_geopm (- 3), ''bad domain'')) error_message_init))) = ''bad''"
proof -
  have "c_str (take (GEOPM_MESSAGE_MAX - 1) ''bad domain'') = ''bad domain''"
    by (simp add: c_str_def GEOPM_MESSAGE_MAX_def)
  then show ?thesis
    using c_error_reporting[of "Exception (- 3)" 0 error_message_init "Thrown_geopm (- 3)" "''bad domain''"
        "- 3" _ 4 "replicate 4 CHR ''x''" "\<lambda>_. ''?''"]
    by (simp add: error_message_init_def exception_handler_def)
qed

end
