(* ===== verification/Platform_Topo.thy ===== *)
theory Platform_Topo
  imports Error_Messages Helper_Strings
begin

text \<open>
  The platform topology (libgeopmd/src/PlatformTopo.cpp): how many domains of each type the
  platform has, which CPUs belong to a domain, the nesting of domains, the parser of the
  \<^verbatim>\<open>lscpu\<close> cache file with the NUMA masks and the GPU lines that \<^verbatim>\<open>create_cache()\<close> appends to
  it, and the C interface. Running \<^verbatim>\<open>lscpu\<close>, the temporary file and the service proxy are not
  modelled: the constructor takes the contents of the cache file. \<^verbatim>\<open>std::set<int>\<close> is its
  increasing list.
\<close>

section \<open>Domain types\<close>

abbreviation (input) GEOPM_DOMAIN_INVALID :: int where "GEOPM_DOMAIN_INVALID \<equiv> - 1"
abbreviation (input) GEOPM_DOMAIN_BOARD :: int where "GEOPM_DOMAIN_BOARD \<equiv> 0"
abbreviation (input) GEOPM_DOMAIN_PACKAGE :: int where "GEOPM_DOMAIN_PACKAGE \<equiv> 1"
abbreviation (input) GEOPM_DOMAIN_CORE :: int where "GEOPM_DOMAIN_CORE \<equiv> 2"
abbreviation (input) GEOPM_DOMAIN_CPU :: int where "GEOPM_DOMAIN_CPU \<equiv> 3"
abbreviation (input) GEOPM_DOMAIN_MEMORY :: int where "GEOPM_DOMAIN_MEMORY \<equiv> 4"
abbreviation (input) GEOPM_DOMAIN_PACKAGE_INTEGRATED_MEMORY :: int where "GEOPM_DOMAIN_PACKAGE_INTEGRATED_MEMORY \<equiv> 5"
abbreviation (input) GEOPM_DOMAIN_NIC :: int where "GEOPM_DOMAIN_NIC \<equiv> 6"
abbreviation (input) GEOPM_DOMAIN_PACKAGE_INTEGRATED_NIC :: int where "GEOPM_DOMAIN_PACKAGE_INTEGRATED_NIC \<equiv> 7"
abbreviation (input) GEOPM_DOMAIN_GPU :: int where "GEOPM_DOMAIN_GPU \<equiv> 8"
abbreviation (input) GEOPM_DOMAIN_PACKAGE_INTEGRATED_GPU :: int where "GEOPM_DOMAIN_PACKAGE_INTEGRATED_GPU \<equiv> 9"
abbreviation (input) GEOPM_DOMAIN_GPU_CHIP :: int where "GEOPM_DOMAIN_GPU_CHIP \<equiv> 10"
abbreviation (input) GEOPM_NUM_DOMAIN :: int where "GEOPM_NUM_DOMAIN \<equiv> 11"

abbreviation not_implemented :: exn where "not_implemented \<equiv> Exception GEOPM_ERROR_NOT_IMPLEMENTED"

definition domain_types :: "(string \<times> int) list" where
  "domain_types =
     [(''board'', GEOPM_DOMAIN_BOARD), (''package'', GEOPM_DOMAIN_PACKAGE),
      (''core'', GEOPM_DOMAIN_CORE), (''cpu'', GEOPM_DOMAIN_CPU), (''memory'', GEOPM_DOMAIN_MEMORY),
      (''package_integrated_memory'', GEOPM_DOMAIN_PACKAGE_INTEGRATED_MEMORY),
      (''nic'', GEOPM_DOMAIN_NIC), (''package_integrated_nic'', GEOPM_DOMAIN_PACKAGE_INTEGRATED_NIC),
      (''gpu'', GEOPM_DOMAIN_GPU), (''package_integrated_gpu'', GEOPM_DOMAIN_PACKAGE_INTEGRATED_GPU),
      (''gpu_chip'', GEOPM_DOMAIN_GPU_CHIP)]"

definition domain_names :: "string list" where
  "domain_names = fold (\<lambda>it result. result[nat (snd it) := fst it]) domain_types (replicate (nat GEOPM_NUM_DOMAIN) [])"

definition domain_type_to_name :: "int \<Rightarrow> string result" where
  "domain_type_to_name domain_type =
     (if domain_type \<le> GEOPM_DOMAIN_INVALID \<or> domain_type \<ge> GEOPM_NUM_DOMAIN then Inl invalid
      else Inr (domain_names ! nat domain_type))"

definition domain_name_to_type :: "string \<Rightarrow> int result" where
  "domain_name_to_type domain_name =
     (case map_of domain_types domain_name of None \<Rightarrow> Inl invalid | Some t \<Rightarrow> Inr t)"

section \<open>The topology object\<close>

text \<open>C++ integer division and remainder truncate toward zero.\<close>

definition cdiv :: "int \<Rightarrow> int \<Rightarrow> int" where
  "cdiv a b = sgn a * sgn b * (\<bar>a\<bar> div \<bar>b\<bar>)"

definition cmod :: "int \<Rightarrow> int \<Rightarrow> int" where
  "cmod a b = a - cdiv a b * b"

lemma cdiv_pos [simp]: "0 \<le> a \<Longrightarrow> 0 < b \<Longrightarrow> cdiv a b = a div b"
  by (cases "a = 0") (auto simp: cdiv_def sgn_if)

lemma cmod_pos [simp]: "0 \<le> a \<Longrightarrow> 0 < b \<Longrightarrow> cmod a b = a mod b"
  by (simp add: cmod_def minus_div_mult_eq_mod)

record topo =
  m_num_package :: int
  m_core_per_package :: int
  m_thread_per_core :: int
  m_numa_map :: "int list list"
  m_gpu_node :: "int list list"   \<comment> \<open>\<open>m_gpu_info[GEOPM_DOMAIN_GPU]\<close>\<close>
  m_gpu_chip :: "int list list"   \<comment> \<open>\<open>m_gpu_info[GEOPM_DOMAIN_GPU_CHIP]\<close>\<close>

definition m_gpu_info :: "topo \<Rightarrow> int \<Rightarrow> int list list" where
  "m_gpu_info t domain_type = (if domain_type = GEOPM_DOMAIN_GPU then m_gpu_node t else m_gpu_chip t)"

definition num_domain :: "topo \<Rightarrow> int \<Rightarrow> int result" where
  "num_domain t domain_type =
     (if domain_type = GEOPM_DOMAIN_BOARD then Inr 1
      else if domain_type = GEOPM_DOMAIN_PACKAGE then Inr (m_num_package t)
      else if domain_type = GEOPM_DOMAIN_CORE then Inr (m_num_package t * m_core_per_package t)
      else if domain_type = GEOPM_DOMAIN_CPU then Inr (m_num_package t * m_core_per_package t * m_thread_per_core t)
      else if domain_type = GEOPM_DOMAIN_MEMORY then Inr (int (length (filter (\<lambda>it. it \<noteq> []) (m_numa_map t))))
      else if domain_type = GEOPM_DOMAIN_PACKAGE_INTEGRATED_MEMORY then
        Inr (int (length (filter (\<lambda>it. it = []) (m_numa_map t))))
      else if domain_type = GEOPM_DOMAIN_NIC \<or> domain_type = GEOPM_DOMAIN_PACKAGE_INTEGRATED_NIC then Inr 0
      else if domain_type = GEOPM_DOMAIN_GPU \<or> domain_type = GEOPM_DOMAIN_GPU_CHIP then
        Inr (int (length (m_gpu_info t domain_type)))
      else if domain_type = GEOPM_DOMAIN_PACKAGE_INTEGRATED_GPU then Inr 0
      else Inl invalid)"

text \<open>
  The loops over threads and cores compare with \<^verbatim>\<open>!=\<close>: with a negative count they run past the
  largest \<^verbatim>\<open>int\<close>.
\<close>

definition package_cpus :: "topo \<Rightarrow> int \<Rightarrow> int list result" where
  "package_cpus t domain_idx =
     (if m_thread_per_core t < 0 \<or> (m_thread_per_core t \<noteq> 0 \<and> m_core_per_package t < 0) then Inl Undefined_behavior
      else Inr (sset_of (concat (map (\<lambda>thread_idx.
             map (\<lambda>core_idx. core_idx + thread_idx * m_core_per_package t * m_num_package t)
               [domain_idx * m_core_per_package t..(domain_idx + 1) * m_core_per_package t - 1])
             [0..m_thread_per_core t - 1]))))"

definition core_cpus :: "topo \<Rightarrow> int \<Rightarrow> int list result" where
  "core_cpus t domain_idx =
     (if m_thread_per_core t < 0 then Inl Undefined_behavior
      else Inr (sset_of (map (\<lambda>thread_idx. domain_idx + thread_idx * m_core_per_package t * m_num_package t)
             [0..m_thread_per_core t - 1])))"

definition domain_cpus :: "topo \<Rightarrow> int \<Rightarrow> int \<Rightarrow> int list result" where
  "domain_cpus t domain_type domain_idx =
     (if domain_type < 0 \<or> domain_type \<ge> GEOPM_NUM_DOMAIN then Inl invalid
      else and_then (num_domain t domain_type) (\<lambda>num_dom.
        if domain_idx < 0 \<or> domain_idx \<ge> num_dom then Inl invalid
        else if domain_type = GEOPM_DOMAIN_BOARD then Inr (sset_of (concat (m_numa_map t)))
        else if domain_type = GEOPM_DOMAIN_GPU \<or> domain_type = GEOPM_DOMAIN_GPU_CHIP then
          at (m_gpu_info t domain_type) domain_idx
        else if domain_type = GEOPM_DOMAIN_PACKAGE then package_cpus t domain_idx
        else if domain_type = GEOPM_DOMAIN_CORE then core_cpus t domain_idx
        else if domain_type = GEOPM_DOMAIN_CPU then Inr [domain_idx]
        else if domain_type = GEOPM_DOMAIN_MEMORY then Inr (m_numa_map t ! nat domain_idx)
        else Inl not_implemented))"

text \<open>The search of \<^verbatim>\<open>domain_idx()\<close> for the first node that contains a CPU; -1 when there is none.\<close>

fun first_containing :: "int \<Rightarrow> int list list \<Rightarrow> int \<Rightarrow> int" where
  "first_containing cpu_idx [] numa_idx = - 1"
| "first_containing cpu_idx (set_it # rest) numa_idx =
     (if cpu_idx \<in> set set_it then numa_idx else first_containing cpu_idx rest (numa_idx + 1))"

definition domain_idx :: "topo \<Rightarrow> int \<Rightarrow> int \<Rightarrow> int result" where
  "domain_idx t domain_type cpu_idx =
     and_then (num_domain t GEOPM_DOMAIN_CPU) (\<lambda>num_cpu.
       if domain_type < 0 \<or> domain_type \<ge> GEOPM_NUM_DOMAIN then Inl invalid
       else if cpu_idx < 0 \<or> cpu_idx \<ge> num_cpu then Inl invalid
       else if domain_type = GEOPM_DOMAIN_BOARD then Inr 0
       else if domain_type = GEOPM_DOMAIN_PACKAGE then
         Inr (cdiv (cmod cpu_idx (m_num_package t * m_core_per_package t)) (m_core_per_package t))
       else if domain_type = GEOPM_DOMAIN_CORE then
         Inr (cmod cpu_idx (m_num_package t * m_core_per_package t))
       else if domain_type = GEOPM_DOMAIN_CPU then Inr cpu_idx
       else if domain_type = GEOPM_DOMAIN_MEMORY then Inr (first_containing cpu_idx (m_numa_map t) 0)
       else if domain_type = GEOPM_DOMAIN_GPU \<or> domain_type = GEOPM_DOMAIN_GPU_CHIP then
         Inr (first_containing cpu_idx (m_gpu_info t domain_type) 0)
       else Inl not_implemented)"

definition is_nested_domain :: "int \<Rightarrow> int \<Rightarrow> bool" where
  "is_nested_domain inner_domain outer_domain \<longleftrightarrow>
     inner_domain = outer_domain \<or>
     outer_domain = GEOPM_DOMAIN_BOARD \<or>
     (outer_domain = GEOPM_DOMAIN_CORE \<and> inner_domain = GEOPM_DOMAIN_CPU) \<or>
     (outer_domain = GEOPM_DOMAIN_PACKAGE \<and>
        inner_domain \<in> {GEOPM_DOMAIN_CPU, GEOPM_DOMAIN_CORE, GEOPM_DOMAIN_PACKAGE_INTEGRATED_MEMORY,
                        GEOPM_DOMAIN_PACKAGE_INTEGRATED_NIC, GEOPM_DOMAIN_PACKAGE_INTEGRATED_GPU}) \<or>
     (outer_domain = GEOPM_DOMAIN_MEMORY \<and> inner_domain = GEOPM_DOMAIN_CPU) \<or>
     (outer_domain = GEOPM_DOMAIN_GPU \<and> inner_domain = GEOPM_DOMAIN_CPU) \<or>
     (outer_domain = GEOPM_DOMAIN_GPU \<and> inner_domain = GEOPM_DOMAIN_GPU_CHIP) \<or>
     (outer_domain = GEOPM_DOMAIN_GPU_CHIP \<and> inner_domain = GEOPM_DOMAIN_CPU)"

definition domain_nested :: "topo \<Rightarrow> int \<Rightarrow> int \<Rightarrow> int \<Rightarrow> int list result" where
  "domain_nested t inner_domain outer_domain outer_idx =
     (if \<not> is_nested_domain inner_domain outer_domain then Inl invalid
      else and_then (domain_cpus t outer_domain outer_idx) (\<lambda>cpus.
        fold_result (\<lambda>cc inner_domain_idx.
          and_then (domain_idx t inner_domain cc) (\<lambda>i. Inr (insort_insert i inner_domain_idx))) cpus []))"

section \<open>Parsing the cache file\<close>

text \<open>\<^verbatim>\<open>std::getline()\<close> until the end of the stream.\<close>

function getlines :: "string \<Rightarrow> string list" where
  "getlines [] = []"
| "getlines (c # cs) =
     takeWhile (\<lambda>x. x \<noteq> CHR 0x0A) (c # cs) # getlines (drop 1 (dropWhile (\<lambda>x. x \<noteq> CHR 0x0A) (c # cs)))"
  by pat_completeness auto
termination
proof (relation "measure length")
  fix c :: char and cs
  have "length (dropWhile (\<lambda>x. x \<noteq> CHR 0x0A) cs) \<le> length cs" by (rule length_dropWhile_le)
  then show "(drop 1 (dropWhile (\<lambda>x. x \<noteq> CHR 0x0A) (c # cs)), c # cs) \<in> measure length" by auto
qed simp

definition emplace :: "'k \<Rightarrow> 'v \<Rightarrow> ('k \<times> 'v) list \<Rightarrow> ('k \<times> 'v) list" where
  "emplace k v m = (if map_of m k = None then m @ [(k, v)] else m)"

definition trim_value :: "string \<Rightarrow> string" where
  "trim_value value =
     (let data_pos = length (takeWhile (\<lambda>c. c = CHR '' '' \<or> c = CHR 0x09) value)
      in if data_pos \<noteq> 0 \<and> data_pos \<noteq> length value then drop data_pos value else value)"

definition lscpu_line :: "string \<Rightarrow> (string \<times> string) list \<Rightarrow> (string \<times> string) list" where
  "lscpu_line line lscpu_map =
     (case str_find line '':'' 0 of
        None \<Rightarrow> lscpu_map
      | Some colon_pos \<Rightarrow>
          let key = take colon_pos line; value = trim_value (drop (colon_pos + 1) line)
          in if key \<noteq> [] then emplace key value lscpu_map else lscpu_map)"

definition lscpu :: "string \<Rightarrow> (string \<times> string) list" where
  "lscpu lscpu_contents = fold lscpu_line (getlines lscpu_contents) []"

text \<open>\<^verbatim>\<open>atoi()\<close>\<close>

definition atoi :: "string \<Rightarrow> int result" where
  "atoi s = (case stoi s of Inr v \<Rightarrow> Inr v | Inl Std_invalid_argument \<Rightarrow> Inr 0 | Inl _ \<Rightarrow> Inl Undefined_behavior)"

definition strip_0x :: "string \<Rightarrow> string" where
  "strip_0x s = (if take 2 s = ''0x'' then drop 2 s else s)"

fun count_bits :: "nat \<Rightarrow> nat \<Rightarrow> int" where
  "count_bits 0 hmb = 0"
| "count_bits (Suc k) hmb = (if odd hmb then 1 else 0) + count_bits k (hmb div 2)"

fun online_cpus :: "string \<Rightarrow> int result" where
  "online_cpus [] = Inr 0"
| "online_cpus (hmc # rest) =
     and_then (hex_digit_value hmc) (\<lambda>hmb. and_then (online_cpus rest) (\<lambda>n. Inr (count_bits 4 hmb + n)))"

text \<open>The keys are looked up in order; the socket keys are replaced by the cluster keys when missing.\<close>

definition lscpu_value :: "(string \<times> string) list \<Rightarrow> string \<Rightarrow> string result" where
  "lscpu_value lscpu_map key =
     (case map_of lscpu_map key of None \<Rightarrow> Inl runtime | Some v \<Rightarrow> if v = [] then Inl runtime else Inr v)"

definition invalid_if_not_number :: "int result \<Rightarrow> int result" where
  "invalid_if_not_number r = (case r of Inl Std_invalid_argument \<Rightarrow> Inl invalid | _ \<Rightarrow> r)"

definition parse_lscpu_keys :: "(string \<times> string) list \<Rightarrow> string list" where
  "parse_lscpu_keys lscpu_map =
     (let is_socket = (map_of lscpu_map ''Core(s) per socket'' \<noteq> None)
      in [''CPU(s)'', ''Thread(s) per core'',
          if is_socket then ''Core(s) per socket'' else ''Core(s) per cluster'',
          if is_socket then ''Socket(s)'' else ''Cluster(s)'',
          ''On-line CPU(s) mask''])"

definition check_online_cpus :: "int \<Rightarrow> string list \<Rightarrow> unit result" where
  "check_online_cpus total_cores_expected_online values =
     and_then (atoi (values ! 0)) (\<lambda>num_cpu.
       if total_cores_expected_online \<noteq> num_cpu then
         and_then (online_cpus (rev (strip_0x (values ! 4)))) (\<lambda>online.
           if total_cores_expected_online \<noteq> online then Inl runtime else Inr ())
       else Inr ())"

definition parse_lscpu :: "(string \<times> string) list \<Rightarrow> (int \<times> int \<times> int) result" where
  "parse_lscpu lscpu_map =
     and_then (map_result (lscpu_value lscpu_map) (parse_lscpu_keys lscpu_map)) (\<lambda>values.
     and_then (invalid_if_not_number (stoi (values ! 3))) (\<lambda>num_package.
     and_then (invalid_if_not_number (stoi (values ! 2))) (\<lambda>core_per_package.
     and_then (invalid_if_not_number (stoi (values ! 1))) (\<lambda>thread_per_core.
     and_then (imul num_package core_per_package) (\<lambda>num_core.
     and_then (imul num_core thread_per_core) (\<lambda>total_cores_expected_online.
     and_then (check_online_cpus total_cores_expected_online values) (\<lambda>_.
       Inr (num_package, core_per_package, thread_per_core))))))))"

fun hex_bits_loop :: "nat \<Rightarrow> nat \<Rightarrow> int \<Rightarrow> int list \<Rightarrow> int list" where
  "hex_bits_loop 0 hmb cpu_idx cpus = cpus"
| "hex_bits_loop (Suc k) hmb cpu_idx cpus =
     hex_bits_loop k (hmb div 2) (cpu_idx + 1) (if odd hmb then insort_insert cpu_idx cpus else cpus)"

fun hex_mask_loop :: "string \<Rightarrow> int \<Rightarrow> int list \<Rightarrow> int list result" where
  "hex_mask_loop [] cpu_idx cpus = Inr cpus"
| "hex_mask_loop (hmc # rest) cpu_idx cpus =
     and_then (hex_digit_value hmc) (\<lambda>hmb. hex_mask_loop rest (cpu_idx + 4) (hex_bits_loop 4 hmb cpu_idx cpus))"

definition numa_node_cpus :: "string \<Rightarrow> int list result" where
  "numa_node_cpus hex_mask = hex_mask_loop (rev (strip_0x hex_mask)) 0 []"

definition gpu_node_cpus :: "string \<Rightarrow> int list result" where
  "gpu_node_cpus value =
     and_then (string_split value '','')
       (\<lambda>pieces. fold_result (\<lambda>cpu_str cpus. and_then (stoi cpu_str) (\<lambda>cpu. Inr (insort_insert cpu cpus))) pieces [])"

definition node_key :: "string \<Rightarrow> nat \<Rightarrow> string" where
  "node_key prefix idx = prefix @ show_nat idx @ '' CPU(s)''"

lemma inj_show_nat: "show_nat i = show_nat j \<Longrightarrow> i = j"
  by (metis show_nat_props)

lemma node_key_inj [simp]: "node_key prefix i = node_key prefix j \<longleftrightarrow> i = j"
  by (auto simp: node_key_def intro: inj_show_nat)

lemma finite_node_keys: "finite {i. idx \<le> i \<and> node_key prefix i \<in> fst ` set m}"
proof (rule finite_subset)
  show "finite (node_key prefix -` (fst ` set m))"
    by (intro finite_vimageI) (auto simp: inj_on_def)
qed auto

text \<open>The search for the consecutive nodes of a kind, shared by \<^verbatim>\<open>parse_lscpu_numa()\<close> and
  \<^verbatim>\<open>parse_lscpu_gpu()\<close>; it ends because the map has finitely many keys.\<close>

function scan_nodes ::
  "(string \<times> string) list \<Rightarrow> string \<Rightarrow> (string \<Rightarrow> int list result) \<Rightarrow> nat \<Rightarrow> int list list result" where
  "scan_nodes lscpu_map prefix parse idx =
     (case map_of lscpu_map (node_key prefix idx) of
        None \<Rightarrow> Inr []
      | Some value \<Rightarrow>
          and_then (parse value) (\<lambda>cpus.
          and_then (scan_nodes lscpu_map prefix parse (Suc idx)) (\<lambda>rest. Inr (cpus # rest))))"
  by pat_completeness auto
termination
proof (relation "measure (\<lambda>(m, prefix, parse, idx). card {i. idx \<le> i \<and> node_key prefix i \<in> fst ` set m})")
  fix m :: "(string \<times> string) list" and prefix idx v and parse :: "string \<Rightarrow> int list result"
  assume "map_of m (node_key prefix idx) = Some v"
  then have "node_key prefix idx \<in> fst ` set m" by (metis map_of_eq_None_iff option.distinct(1))
  then have "{i. Suc idx \<le> i \<and> node_key prefix i \<in> fst ` set m} \<subset> {i. idx \<le> i \<and> node_key prefix i \<in> fst ` set m}"
    by (auto simp: Suc_le_eq)
  then show "((m, prefix, parse, Suc idx), m, prefix, parse, idx)
      \<in> measure (\<lambda>(m, prefix, parse, idx). card {i. idx \<le> i \<and> node_key prefix i \<in> fst ` set m})"
    by (simp add: psubset_card_mono finite_node_keys)
qed simp

declare scan_nodes.simps [simp del]

definition parse_lscpu_numa :: "int \<Rightarrow> (string \<times> string) list \<Rightarrow> int list list result" where
  "parse_lscpu_numa num_cpu lscpu_map =
     and_then (scan_nodes lscpu_map ''NUMA node'' numa_node_cpus 0) (\<lambda>numa_map.
       if numa_map = [] then (if num_cpu < 0 then Inl Undefined_behavior else Inr [[0..num_cpu - 1]])
       else Inr numa_map)"

definition gpu_short_name :: "int \<Rightarrow> string result" where
  "gpu_short_name domain_type =
     (if domain_type = GEOPM_DOMAIN_GPU then Inr ''node''
      else if domain_type = GEOPM_DOMAIN_GPU_CHIP then Inr ''chip'' else Inl Std_out_of_range)"

definition parse_lscpu_gpu :: "(string \<times> string) list \<Rightarrow> int \<Rightarrow> int list list result" where
  "parse_lscpu_gpu lscpu_map domain_type =
     and_then (gpu_short_name domain_type) (\<lambda>short_name.
       scan_nodes lscpu_map (''GPU '' @ short_name) gpu_node_cpus 0)"

text \<open>The constructor, from the contents of the cache file.\<close>

definition make_topo :: "string \<Rightarrow> topo result" where
  "make_topo lscpu_contents =
     (let lscpu_map = lscpu lscpu_contents
      in and_then (parse_lscpu lscpu_map) (\<lambda>(num_package, core_per_package, thread_per_core).
         and_then (parse_lscpu_numa (num_package * core_per_package * thread_per_core) lscpu_map) (\<lambda>numa_map.
         and_then (parse_lscpu_gpu lscpu_map GEOPM_DOMAIN_GPU) (\<lambda>gpu.
         and_then (parse_lscpu_gpu lscpu_map GEOPM_DOMAIN_GPU_CHIP) (\<lambda>gpu_chip.
           Inr \<lparr>m_num_package = num_package, m_core_per_package = core_per_package,
                m_thread_per_core = thread_per_core, m_numa_map = numa_map,
                m_gpu_node = gpu, m_gpu_chip = gpu_chip\<rparr>)))))"

text \<open>
  The lines that \<^verbatim>\<open>create_cache()\<close> appends for the GPUs; \<open>num_gpu_all\<close>, \<open>num_gpu\<close> and \<open>affinity\<close> are the
  methods \<^verbatim>\<open>num_gpu()\<close>, \<^verbatim>\<open>num_gpu(domain)\<close> and \<^verbatim>\<open>cpu_affinity_ideal()\<close> of \<^verbatim>\<open>GPUTopo\<close>.
\<close>

fun cpu_list_text :: "string \<Rightarrow> int list \<Rightarrow> string" where
  "cpu_list_text delim [] = []"
| "cpu_list_text delim (cpu_idx # rest) = delim @ show_int cpu_idx @ cpu_list_text '','' rest"

definition gpu_line :: "string \<Rightarrow> nat \<Rightarrow> int list \<Rightarrow> string" where
  "gpu_line short_name idx cpus =
     ''GPU '' @ short_name @ show_nat idx @ '' CPU(s):'' @ cpu_list_text '' '' cpus"

definition gpu_cache_text :: "nat \<Rightarrow> (int \<Rightarrow> nat) \<Rightarrow> (int \<Rightarrow> nat \<Rightarrow> int list) \<Rightarrow> string" where
  "gpu_cache_text num_gpu_all num_gpu affinity =
     (if num_gpu_all \<noteq> 0 then
        concat (map (\<lambda>(domain_type, short_name).
          concat (map (\<lambda>idx. gpu_line short_name idx (affinity domain_type idx) @ [CHR 0x0A])
            [0..<num_gpu domain_type]))
          [(GEOPM_DOMAIN_GPU, ''node''), (GEOPM_DOMAIN_GPU_CHIP, ''chip'')])
      else [])"

text \<open>
  \<^verbatim>\<open>check_file()\<close> from the results of \<^verbatim>\<open>sysinfo()\<close> (the uptime), \<^verbatim>\<open>stat()\<close> (modification time and
  mode) and the clock.
\<close>

definition check_file :: "int result \<Rightarrow> (int \<times> 32 word) result \<Rightarrow> int \<Rightarrow> bool result" where
  "check_file sysinfo stat current_time =
     and_then sysinfo (\<lambda>uptime. and_then stat (\<lambda>(st_mtime, st_mode).
       let last_boot_time = (word_of_int (current_time - uptime) :: 32 word)
       in if (word_of_int st_mtime :: 32 word) < last_boot_time then Inr False
          else Inr (semiring_bit_operations_class.and st_mode (ring_bit_operations_class.not 0xF000) = 0x180)))"

section \<open>C interface\<close>

definition geopm_topo_num_domain :: "int \<Rightarrow> topo \<Rightarrow> int \<Rightarrow> int result" where
  "geopm_topo_num_domain errno t domain_type = c_api errno (num_domain t domain_type)"

definition geopm_topo_domain_idx :: "int \<Rightarrow> topo \<Rightarrow> int \<Rightarrow> int \<Rightarrow> int result" where
  "geopm_topo_domain_idx errno t domain_type cpu_idx = c_api errno (domain_idx t domain_type cpu_idx)"

definition geopm_topo_num_domain_nested :: "int \<Rightarrow> topo \<Rightarrow> int \<Rightarrow> int \<Rightarrow> int result" where
  "geopm_topo_num_domain_nested errno t inner_domain outer_domain =
     c_api errno
       (if is_nested_domain inner_domain outer_domain then
          and_then (num_domain t inner_domain) (\<lambda>num_inner_domain.
          and_then (num_domain t outer_domain) (\<lambda>num_outer_domain.
            if num_outer_domain > 0 \<and> num_inner_domain > 0
            then Inr (cdiv num_inner_domain num_outer_domain) else Inr GEOPM_ERROR_INVALID))
        else Inr GEOPM_ERROR_INVALID)"

definition geopm_topo_domain_nested ::
  "int \<Rightarrow> topo \<Rightarrow> int \<Rightarrow> int \<Rightarrow> int \<Rightarrow> nat \<Rightarrow> int list \<Rightarrow> (int \<times> int list) result" where
  "geopm_topo_domain_nested errno t inner_domain outer_domain outer_idx num_domain_nested buffer =
     and_then (geopm_topo_num_domain_nested errno t inner_domain outer_domain) (\<lambda>num_domain_nested_ref.
       if num_domain_nested_ref > 0 \<and> int num_domain_nested = num_domain_nested_ref then
         (case domain_nested t inner_domain outer_domain outer_idx of
            Inr nested_set \<Rightarrow>
              Inr (if length nested_set = num_domain_nested
                   then (0, nested_set @ drop (length nested_set) buffer)
                   else (GEOPM_ERROR_RUNTIME, buffer))
          | Inl e \<Rightarrow> and_then (c_api errno (Inl e)) (\<lambda>err. Inr (err, buffer)))
       else Inr (num_domain_nested_ref, buffer))"

definition geopm_topo_domain_name :: "int \<Rightarrow> int \<Rightarrow> nat \<Rightarrow> string \<Rightarrow> (int \<times> string) result" where
  "geopm_topo_domain_name errno domain_type domain_name_max buffer =
     (case domain_type_to_name domain_type of
        Inl e \<Rightarrow> and_then (c_api errno (Inl e)) (\<lambda>err. Inr (err, buffer))
      | Inr name \<Rightarrow>
          if domain_name_max = 0 then Inl Undefined_behavior
          else let last = domain_name_max - 1;
                   buffer = strncpy (buffer[last := CHR 0x00]) name domain_name_max
               in Inr (if buffer ! last \<noteq> CHR 0x00 then (GEOPM_ERROR_INVALID, buffer[last := CHR 0x00])
                       else (0, buffer)))"

definition geopm_topo_domain_type :: "int \<Rightarrow> string \<Rightarrow> int result" where
  "geopm_topo_domain_type errno domain_name = c_api errno (domain_name_to_type (c_str domain_name))"

section \<open>Well-formed topologies\<close>

definition num_cpu :: "topo \<Rightarrow> int" where
  "num_cpu t = m_num_package t * m_core_per_package t * m_thread_per_core t"

text \<open>
  What a platform's description satisfies: positive counts, and NUMA nodes that partition the
  CPUs, nodes without CPUs (memory integrated in a package) numbered after the others.
\<close>

definition topo_wf :: "topo \<Rightarrow> bool" where
  "topo_wf t \<longleftrightarrow> 0 < m_num_package t \<and> 0 < m_core_per_package t \<and> 0 < m_thread_per_core t \<and>
     list_all sset (m_numa_map t) \<and>
     set (concat (m_numa_map t)) = {0..<num_cpu t} \<and>
     (\<forall>j < length (m_numa_map t). \<forall>i < j. set (m_numa_map t ! i) \<inter> set (m_numa_map t ! j) = {} \<and>
        (m_numa_map t ! i = [] \<longrightarrow> m_numa_map t ! j = []))"

lemma num_domain_simps [simp]:
  "num_domain t 0 = Inr 1" "num_domain t 1 = Inr (m_num_package t)"
  "num_domain t 2 = Inr (m_num_package t * m_core_per_package t)"
  "num_domain t 3 = Inr (num_cpu t)"
  "num_domain t 4 = Inr (int (length (filter (\<lambda>it. it \<noteq> []) (m_numa_map t))))"
  by (simp_all add: num_domain_def num_cpu_def)

lemma div_less_int:
  fixes a n h :: int
  assumes "0 < n" "a < h * n"
  shows "a div n < h"
proof (rule ccontr)
  assume "\<not> a div n < h"
  then have "h * n \<le> a div n * n" using assms(1) by (intro mult_right_mono) auto
  also have "\<dots> \<le> a" using assms(1) div_mult_mod_eq[of a n] pos_mod_sign[of n a] by linarith
  finally show False using assms(2) by simp
qed

lemma set_package_cpus:
  assumes "topo_wf t" "0 \<le> j" "j < m_num_package t"
  shows "\<exists>s. domain_cpus t GEOPM_DOMAIN_PACKAGE j = Inr s \<and> sset s \<and>
     set s = {cpu. 0 \<le> cpu \<and> cpu < num_cpu t \<and>
                cpu mod (m_num_package t * m_core_per_package t) div m_core_per_package t = j}"
proof -
  let ?p = "m_num_package t" and ?c = "m_core_per_package t" and ?h = "m_thread_per_core t"
  have pos: "0 < ?p" "0 < ?c" "0 < ?h" using assms(1) by (auto simp: topo_wf_def)
  let ?s = "sset_of (concat (map (\<lambda>th. map (\<lambda>core. core + th * ?c * ?p) [j * ?c..(j + 1) * ?c - 1]) [0..?h - 1]))"
  have "domain_cpus t GEOPM_DOMAIN_PACKAGE j = Inr ?s"
    using assms pos by (simp add: domain_cpus_def package_cpus_def)
  moreover have "set ?s = {cpu. 0 \<le> cpu \<and> cpu < num_cpu t \<and> cpu mod (?p * ?c) div ?c = j}" (is "_ = ?R")
  proof (intro set_eqI iffI)
    fix cpu assume "cpu \<in> set ?s"
    then obtain th where th: "0 \<le> th" "th < ?h" "cpu - th * (?p * ?c) \<in> {j * ?c..(j + 1) * ?c - 1}"
      by (auto simp: algebra_simps)
    define core where "core = cpu - th * (?p * ?c)"
    then have c: "cpu = core + th * (?p * ?c)" "0 \<le> th" "th < ?h" "j * ?c \<le> core" "core < (j + 1) * ?c"
      using th by auto
    have "(j + 1) * ?c \<le> ?p * ?c" using assms(3) pos by (intro mult_right_mono) auto
    with c(5) have "core < ?p * ?c" by (rule less_le_trans)
    moreover have "0 \<le> j * ?c" using assms(2) pos by simp
    ultimately have core: "0 \<le> core" "core < ?p * ?c" using c(4) by linarith+
    have "core div ?c = j" using c(4,5) pos by (intro int_div_pos_eq[where r = "core - j * ?c"]) (auto simp: algebra_simps)
    moreover have "cpu mod (?p * ?c) = core" using core by (simp add: c(1))
    moreover have "cpu < num_cpu t"
    proof -
      have "(th + 1) * (?p * ?c) \<le> ?h * (?p * ?c)" using c(3) pos by (intro mult_right_mono) auto
      then show ?thesis using core by (simp add: c(1) num_cpu_def algebra_simps)
    qed
    ultimately show "cpu \<in> ?R" using core c pos by simp
  next
    fix cpu assume R: "cpu \<in> ?R"
    let ?core = "cpu mod (?p * ?c)" and ?th = "cpu div (?p * ?c)"
    have "?core div ?c * ?c + ?core mod ?c = ?core" "?core div ?c = j" using R by auto
    then have "j * ?c + ?core mod ?c = ?core" by simp
    then have "j * ?c \<le> ?core" "?core < (j + 1) * ?c"
      using pos_mod_bound[OF pos(2), of ?core] pos_mod_sign[OF pos(2), of ?core]
      unfolding distrib_right by linarith+
    moreover have "0 \<le> ?th" "?th < ?h" using R pos div_less_int[of "?p * ?c" cpu ?h]
      by (auto simp: num_cpu_def pos_imp_zdiv_nonneg_iff algebra_simps)
    moreover have mem: "core + th * ?c * ?p \<in> set ?s"
      if "core \<in> {j * ?c..(j + 1) * ?c - 1}" "th \<in> {0..?h - 1}" for core th
      using that by (auto intro!: bexI[of _ th])
    ultimately have "?core + ?th * ?c * ?p \<in> set ?s" by (intro mem) simp_all
    moreover have "?core + ?th * ?c * ?p = cpu" using mod_div_mult_eq[of cpu "?p * ?c"] by (simp add: algebra_simps)
    ultimately show "cpu \<in> set ?s" by simp
  qed
  ultimately show ?thesis by (intro exI conjI) (assumption | rule sset_sset_of)+
qed

lemma set_core_cpus:
  assumes "topo_wf t" "0 \<le> j" "j < m_num_package t * m_core_per_package t"
  shows "\<exists>s. domain_cpus t GEOPM_DOMAIN_CORE j = Inr s \<and> sset s \<and>
     set s = {cpu. 0 \<le> cpu \<and> cpu < num_cpu t \<and> cpu mod (m_num_package t * m_core_per_package t) = j}"
proof -
  let ?n = "m_num_package t * m_core_per_package t" and ?h = "m_thread_per_core t"
  have pos: "0 < ?n" "0 < ?h" using assms(1) by (auto simp: topo_wf_def)
  let ?s = "sset_of (map (\<lambda>th. j + th * m_core_per_package t * m_num_package t) [0..?h - 1])"
  have "domain_cpus t GEOPM_DOMAIN_CORE j = Inr ?s"
    using assms pos by (simp add: domain_cpus_def core_cpus_def)
  moreover have "set ?s = {cpu. 0 \<le> cpu \<and> cpu < num_cpu t \<and> cpu mod ?n = j}" (is "_ = ?R")
  proof (intro set_eqI iffI)
    fix cpu assume "cpu \<in> set ?s"
    then have "\<exists>th. th \<in> {0..?h - 1} \<and> cpu = j + th * ?n"
      unfolding set_sset_of set_map by (elim imageE) (auto simp: mult.assoc mult.commute[of "m_core_per_package t"])
    then obtain th where th: "cpu = j + th * ?n" "0 \<le> th" "th < ?h" by auto
    have "(th + 1) * ?n \<le> ?h * ?n" using th pos by (intro mult_right_mono) auto
    then show "cpu \<in> ?R" using assms(2,3) th pos by (simp add: num_cpu_def algebra_simps)
  next
    fix cpu assume R: "cpu \<in> ?R"
    then have "0 \<le> cpu div ?n" "cpu div ?n < ?h" "cpu = j + cpu div ?n * ?n"
      using pos div_less_int[of ?n cpu ?h] mod_div_mult_eq[of cpu ?n]
      by (auto simp: num_cpu_def pos_imp_zdiv_nonneg_iff algebra_simps)
    then show "cpu \<in> set ?s" by (auto simp: image_iff algebra_simps intro!: bexI[of _ "cpu div ?n"])
  qed
  ultimately show ?thesis by (metis sset_sset_of)
qed

lemma first_containing_unique:
  assumes "cpu \<in> set (concat nodes)"
  shows "\<exists>i < length nodes. first_containing cpu nodes k = k + int i \<and> cpu \<in> set (nodes ! i) \<and>
           (\<forall>j < i. cpu \<notin> set (nodes ! j))"
  using assms
proof (induction nodes arbitrary: k)
  case (Cons s nodes)
  show ?case
  proof (cases "cpu \<in> set s")
    case False
    then obtain i where "i < length nodes" "first_containing cpu nodes (k + 1) = k + 1 + int i"
        "cpu \<in> set (nodes ! i)" "\<forall>j < i. cpu \<notin> set (nodes ! j)"
      using Cons.IH[of "k + 1"] Cons.prems by auto
    then show ?thesis using False by (intro exI[of _ "Suc i"]) (auto simp: nth_Cons split: nat.splits)
  qed (auto intro!: exI[of _ 0])
qed simp

lemma first_containing_none: "cpu \<notin> set (concat nodes) \<Longrightarrow> first_containing cpu nodes k = - 1"
  by (induction nodes arbitrary: k) auto

lemma filter_prefix_length:
  assumes "\<forall>j < length xs. \<forall>i < j. xs ! i = [] \<longrightarrow> xs ! j = []" "i < length xs"
  shows "i < length (filter (\<lambda>x. x \<noteq> []) xs) \<longleftrightarrow> xs ! i \<noteq> []"
  using assms
proof (induction xs arbitrary: i)
  case (Cons x xs)
  have IH: "i < length (filter (\<lambda>x. x \<noteq> []) xs) \<longleftrightarrow> xs ! i \<noteq> []" if "i < length xs" for i
    using Cons.IH[OF _ that] Cons.prems(1) by (metis Suc_less_eq length_Cons nth_Cons_Suc)
  show ?case
  proof (cases "x = []")
    case True
    then have all: "xs ! j = []" if "j < length xs" for j
      using Cons.prems(1) that by (metis Suc_less_eq length_Cons nth_Cons_0 nth_Cons_Suc zero_less_Suc)
    then have "filter (\<lambda>x. x \<noteq> []) xs = []" by (auto simp: filter_empty_conv in_set_conv_nth)
    then show ?thesis using True all Cons.prems(2) by (cases i) auto
  qed (use IH Cons.prems(2) in \<open>cases i; simp\<close>)
qed simp

lemma memory_partition:
  assumes "topo_wf t" "0 \<le> cpu" "cpu < num_cpu t"
  shows "\<exists>i n. domain_idx t GEOPM_DOMAIN_MEMORY cpu = Inr i \<and> num_domain t GEOPM_DOMAIN_MEMORY = Inr n \<and>
    0 \<le> i \<and> i < n \<and> (\<forall>j. 0 \<le> j \<longrightarrow> j < n \<longrightarrow>
      (\<exists>s. domain_cpus t GEOPM_DOMAIN_MEMORY j = Inr s \<and> sset s \<and> (cpu \<in> set s \<longleftrightarrow> j = i)))"
proof -
  let ?nodes = "m_numa_map t"
  have cpu: "cpu \<in> set (concat ?nodes)" using assms by (simp add: topo_wf_def)
  obtain i where i: "i < length ?nodes" "first_containing cpu ?nodes 0 = int i" "cpu \<in> set (?nodes ! i)"
    using first_containing_unique[OF cpu, of 0] by auto
  have len: "k < length (filter (\<lambda>x. x \<noteq> []) ?nodes) \<longleftrightarrow> ?nodes ! k \<noteq> []" if "k < length ?nodes" for k
    by (rule filter_prefix_length[OF _ that]) (use assms(1) in \<open>auto simp: topo_wf_def\<close>)
  have disj: "set (?nodes ! a) \<inter> set (?nodes ! b) = {}" if "a < b" "b < length ?nodes" for a b
    using assms(1) that by (auto simp: topo_wf_def)
  have bound: "length (filter (\<lambda>x. x \<noteq> []) ?nodes) \<le> length ?nodes" by simp
  have one: "cpu \<in> set (?nodes ! j) \<longleftrightarrow> j = i" if "j < length ?nodes" for j
    using i disj[of i j] disj[of j i] that by (metis IntI emptyE linorder_neqE_nat)
  have ord: "sset (?nodes ! j)" if "j < length ?nodes" for j
    using assms(1) that by (auto simp: topo_wf_def list_all_length)
  let ?n = "length (filter (\<lambda>x. x \<noteq> []) ?nodes)"
  have "\<exists>s. domain_cpus t GEOPM_DOMAIN_MEMORY j = Inr s \<and> sset s \<and> (cpu \<in> set s \<longleftrightarrow> j = int i)"
    if "0 \<le> j" "j < int ?n" for j
  proof -
    have j: "nat j < length ?nodes" using that bound by (meson less_le_trans nat_less_iff)
    have "domain_cpus t GEOPM_DOMAIN_MEMORY j = Inr (?nodes ! nat j)" using that by (simp add: domain_cpus_def)
    then show ?thesis using ord[OF j] one[OF j] that(1) by auto
  qed
  moreover have "domain_idx t GEOPM_DOMAIN_MEMORY cpu = Inr (int i)"
    using i(2) assms(2,3) by (simp add: domain_idx_def)
  moreover have "i < ?n" using len[OF i(1)] i(3) by auto
  ultimately show ?thesis by (intro exI[of _ "int i"] exI[of _ "int ?n"]) auto
qed

lemma domain_partition_aux:
  assumes "topo_wf t" "0 \<le> cpu" "cpu < num_cpu t" "d \<in> {0, 1, 2, 3}"
  shows "\<exists>i n. domain_idx t d cpu = Inr i \<and> num_domain t d = Inr n \<and>
    0 \<le> i \<and> i < n \<and> (\<forall>j. 0 \<le> j \<longrightarrow> j < n \<longrightarrow>
      (\<exists>s. domain_cpus t d j = Inr s \<and> sset s \<and> (cpu \<in> set s \<longleftrightarrow> j = i)))"
proof -
  have pos: "0 < m_num_package t" "0 < m_core_per_package t" "0 < m_thread_per_core t"
    using assms(1) by (auto simp: topo_wf_def)
  then have n: "0 < m_num_package t * m_core_per_package t" by simp
  have core: "0 \<le> cpu mod (m_num_package t * m_core_per_package t)"
    "cpu mod (m_num_package t * m_core_per_package t) < m_num_package t * m_core_per_package t"
    using n by auto
  then have pkg: "0 \<le> cpu mod (m_num_package t * m_core_per_package t) div m_core_per_package t"
    "cpu mod (m_num_package t * m_core_per_package t) div m_core_per_package t < m_num_package t"
    using pos by (auto simp: pos_imp_zdiv_nonneg_iff intro!: div_less_int)
  consider "d = 0" | "d = 1" | "d = 2" | "d = 3" using assms(4) by auto
  then show ?thesis
  proof cases
    case 1
    have "set (sset_of (concat (m_numa_map t))) = {0..<num_cpu t}"
      using assms(1) by (simp add: topo_wf_def del: set_concat)
    then show ?thesis using 1 assms(2,3) by (auto simp: domain_idx_def domain_cpus_def simp del: set_concat)
  next
    case 2
    then show ?thesis using set_package_cpus[OF assms(1)] assms(2,3) pkg core n pos
      by (fastforce simp: domain_idx_def)
  next
    case 3
    then show ?thesis using set_core_cpus[OF assms(1)] assms(2,3) core n
      by (fastforce simp: domain_idx_def)
  next
    case 4
    then show ?thesis using assms(2,3) by (auto simp: domain_idx_def domain_cpus_def sset_def)
  qed
qed

section \<open>Nested domains\<close>

lemma fold_insort_insert_of:
  "sset acc \<Longrightarrow> (\<And>x. x \<in> set xs \<Longrightarrow> f x = Inr (g x)) \<Longrightarrow>
   \<exists>s. fold_result (\<lambda>x acc. and_then (f x) (\<lambda>i. Inr (insort_insert i acc))) xs acc = Inr s \<and>
       sset s \<and> set s = set acc \<union> g ` set xs"
proof (induction xs arbitrary: acc)
  case (Cons x xs)
  have "\<exists>s. fold_result (\<lambda>x acc. and_then (f x) (\<lambda>i. Inr (insort_insert i acc))) xs (insort_insert (g x) acc) = Inr s \<and>
      sset s \<and> set s = set (insort_insert (g x) acc) \<union> g ` set xs"
    by (rule Cons.IH) (use Cons.prems in auto)
  then obtain s where "fold_result (\<lambda>x acc. and_then (f x) (\<lambda>i. Inr (insort_insert i acc))) xs (insort_insert (g x) acc) = Inr s"
      "sset s" "set s = set (insort_insert (g x) acc) \<union> g ` set xs" by blast
  then show ?case using Cons.prems by (intro exI[of _ s]) (auto simp: set_insort_insert)
qed simp

lemma card_residues:
  fixes n h k :: int
  assumes "0 \<le> k" "k < n" "0 < h"
  shows "card {cpu. 0 \<le> cpu \<and> cpu < h * n \<and> cpu mod n = k} = nat h"
proof -
  have "bij_betw (\<lambda>th. k + th * n) {0..<h} {cpu. 0 \<le> cpu \<and> cpu < h * n \<and> cpu mod n = k}"
  proof (rule bij_betw_byWitness[where f' = "\<lambda>cpu. cpu div n"])
    have "k + th * n \<in> {cpu. 0 \<le> cpu \<and> cpu < h * n \<and> cpu mod n = k}" if th: "th \<in> {0..<h}" for th
    proof -
      have "(th + 1) * n \<le> h * n" using assms th by (intro mult_right_mono) auto
      then have "k + th * n < h * n" using assms(2) unfolding distrib_right by linarith
      then show ?thesis using th assms by simp
    qed
    then show "(\<lambda>th. k + th * n) ` {0..<h} \<subseteq> {cpu. 0 \<le> cpu \<and> cpu < h * n \<and> cpu mod n = k}" by blast
    show "(\<lambda>cpu. cpu div n) ` {cpu. 0 \<le> cpu \<and> cpu < h * n \<and> cpu mod n = k} \<subseteq> {0..<h}"
      using assms div_less_int[of n _ h] by (auto simp: pos_imp_zdiv_nonneg_iff)
    show "\<forall>th \<in> {0..<h}. (k + th * n) div n = th" using assms by simp
    show "\<forall>cpu \<in> {cpu. 0 \<le> cpu \<and> cpu < h * n \<and> cpu mod n = k}. k + cpu div n * n = cpu"
      using mod_div_mult_eq[of _ n] by auto
  qed
  from bij_betw_same_card[OF this] show ?thesis by simp
qed

lemma card_package:
  fixes p c h j :: int
  assumes "0 \<le> j" "j < p" "0 < c" "0 < h"
  shows "card {cpu. 0 \<le> cpu \<and> cpu < p * c * h \<and> cpu mod (p * c) div c = j} = nat (c * h)"
proof -
  let ?R = "\<lambda>k. {cpu. 0 \<le> cpu \<and> cpu < h * (p * c) \<and> cpu mod (p * c) = k}"
  have le: "(j + 1) * c \<le> p * c" using assms by (intro mult_right_mono) auto
  have split: "{cpu. 0 \<le> cpu \<and> cpu < p * c * h \<and> cpu mod (p * c) div c = j} = (\<Union>k \<in> {j * c..<(j + 1) * c}. ?R k)"
  proof -
    have "k div c = j \<longleftrightarrow> k \<in> {j * c..<(j + 1) * c}" for k
    proof
      assume "k div c = j"
      then show "k \<in> {j * c..<(j + 1) * c}"
        using div_mult_mod_eq[of k c] pos_mod_bound[OF assms(3), of k] pos_mod_sign[OF assms(3), of k]
        by (auto simp: distrib_right)
    next
      assume "k \<in> {j * c..<(j + 1) * c}"
      then show "k div c = j" using assms(3)
        by (intro int_div_pos_eq[where r = "k - j * c"]) (auto simp: algebra_simps)
    qed
    then have "{cpu. 0 \<le> cpu \<and> cpu < p * c * h \<and> cpu mod (p * c) div c = j} =
               (\<Union>k \<in> {j * c..<(j + 1) * c}. {cpu. 0 \<le> cpu \<and> cpu < p * c * h \<and> cpu mod (p * c) = k})"
      by blast
    then show ?thesis by (simp only: mult.commute[of h "p * c"])
  qed
  have sum: "card (\<Union>k \<in> {j * c..<(j + 1) * c}. ?R k) = (\<Sum>k \<in> {j * c..<(j + 1) * c}. card (?R k))"
    by (rule card_UN_disjoint) (auto intro: finite_subset[of _ "{0..<h * (p * c)}"])
  have "card (?R k) = nat h" if "k \<in> {j * c..<(j + 1) * c}" for k
  proof -
    have "0 \<le> j * c" using assms by simp
    then have "0 \<le> k" "k < p * c" using that le unfolding atLeastLessThan_iff by linarith+
    then show ?thesis using assms(4) by (rule card_residues)
  qed
  then have "(\<Sum>k \<in> {j * c..<(j + 1) * c}. card (?R k)) = (\<Sum>k \<in> {j * c..<(j + 1) * c}. nat h)"
    by (intro sum.cong refl)
  then have "card {cpu. 0 \<le> cpu \<and> cpu < p * c * h \<and> cpu mod (p * c) div c = j} = (\<Sum>k \<in> {j * c..<(j + 1) * c}. nat h)"
    unfolding split sum .
  then show ?thesis using assms by (simp add: distrib_right nat_mult_distrib)
qed

lemma domain_nested_image:
  assumes "is_nested_domain inner outer" "domain_cpus t outer j = Inr cpus"
    and "\<And>cpu. cpu \<in> set cpus \<Longrightarrow> domain_idx t inner cpu = Inr (g cpu)"
  shows "\<exists>s. domain_nested t inner outer j = Inr s \<and> sset s \<and> set s = g ` set cpus"
  using fold_insort_insert_of[of "[]" cpus "domain_idx t inner" g] assms
  by (simp add: domain_nested_def sset_def)

lemma cpu_idx_simp: "0 \<le> cpu \<Longrightarrow> cpu < num_cpu t \<Longrightarrow> domain_idx t GEOPM_DOMAIN_CPU cpu = Inr cpu"
  by (simp add: domain_idx_def)

lemma nested_core_package:
  assumes "topo_wf t" "0 \<le> j" "j < m_num_package t"
  shows "\<exists>s. domain_nested t GEOPM_DOMAIN_CORE GEOPM_DOMAIN_PACKAGE j = Inr s \<and> sset s \<and>
             set s = {j * m_core_per_package t..<(j + 1) * m_core_per_package t} \<and>
             int (length s) = m_core_per_package t"
proof -
  let ?p = "m_num_package t" and ?c = "m_core_per_package t"
  have pos: "0 < ?p" "0 < ?c" "0 < m_thread_per_core t" using assms(1) by (auto simp: topo_wf_def)
  obtain cpus where cpus: "domain_cpus t GEOPM_DOMAIN_PACKAGE j = Inr cpus"
      "set cpus = {cpu. 0 \<le> cpu \<and> cpu < num_cpu t \<and> cpu mod (?p * ?c) div ?c = j}"
    using set_package_cpus[OF assms] by auto
  have "domain_idx t GEOPM_DOMAIN_CORE cpu = Inr (cpu mod (?p * ?c))" if "cpu \<in> set cpus" for cpu
    using that pos unfolding cpus(2) by (simp add: domain_idx_def)
  from domain_nested_image[OF _ cpus(1) this] obtain s where
    s: "domain_nested t GEOPM_DOMAIN_CORE GEOPM_DOMAIN_PACKAGE j = Inr s" "sset s"
      "set s = (\<lambda>cpu. cpu mod (?p * ?c)) ` set cpus"
    by (auto simp: is_nested_domain_def)
  have "set s = {j * ?c..<(j + 1) * ?c}"
  proof (intro set_eqI iffI)
    fix k assume "k \<in> set s"
    then have "k div ?c = j" unfolding s(3) cpus(2) by auto
    then show "k \<in> {j * ?c..<(j + 1) * ?c}"
      using div_mult_mod_eq[of k ?c] pos_mod_bound[OF pos(2), of k] pos_mod_sign[OF pos(2), of k]
      by (auto simp: distrib_right)
  next
    fix k assume k: "k \<in> {j * ?c..<(j + 1) * ?c}"
    have "(j + 1) * ?c \<le> ?p * ?c" using assms(3) pos by (intro mult_right_mono) auto
    moreover have "?p * ?c \<le> ?p * ?c * m_thread_per_core t" using pos by simp
    moreover have "0 \<le> j * ?c" using assms(2) pos by simp
    moreover have "k div ?c = j"
      using k pos by (intro int_div_pos_eq[where r = "k - j * ?c"]) (auto simp: algebra_simps)
    ultimately have "k \<in> set cpus" "k mod (?p * ?c) = k" using k unfolding cpus(2) num_cpu_def by auto
    then show "k \<in> set s" unfolding s(3) by force
  qed
  moreover from this have "int (length s) = ?c"
    using s(2) distinct_card[of s] pos by (simp add: sset_def distrib_right)
  ultimately show ?thesis using s by blast
qed

lemma nested_cpu_core:
  assumes "topo_wf t" "0 \<le> j" "j < m_num_package t * m_core_per_package t"
  shows "\<exists>s. domain_nested t GEOPM_DOMAIN_CPU GEOPM_DOMAIN_CORE j = Inr s \<and> sset s \<and>
             domain_cpus t GEOPM_DOMAIN_CORE j = Inr s \<and> int (length s) = m_thread_per_core t"
proof -
  let ?n = "m_num_package t * m_core_per_package t"
  have pos: "0 < m_thread_per_core t" using assms(1) by (auto simp: topo_wf_def)
  obtain cpus where cpus: "domain_cpus t GEOPM_DOMAIN_CORE j = Inr cpus" "sset cpus"
      "set cpus = {cpu. 0 \<le> cpu \<and> cpu < num_cpu t \<and> cpu mod ?n = j}"
    using set_core_cpus[OF assms] by auto
  have "domain_idx t GEOPM_DOMAIN_CPU cpu = Inr cpu" if "cpu \<in> set cpus" for cpu
    using that unfolding cpus(3) by (simp add: cpu_idx_simp)
  from domain_nested_image[OF _ cpus(1) this] obtain s where
    s: "domain_nested t GEOPM_DOMAIN_CPU GEOPM_DOMAIN_CORE j = Inr s" "sset s" "set s = set cpus"
    by (auto simp: is_nested_domain_def)
  have "int (length s) = m_thread_per_core t"
    using s(2,3) distinct_card[of s] card_residues[OF assms(2,3) pos] pos cpus(3)
    by (simp add: sset_def num_cpu_def mult.commute mult.left_commute)
  with s cpus sset_eqI[OF s(2) cpus(2) s(3)] show ?thesis by auto
qed

lemma nested_cpu_package:
  assumes "topo_wf t" "0 \<le> j" "j < m_num_package t"
  shows "\<exists>s. domain_nested t GEOPM_DOMAIN_CPU GEOPM_DOMAIN_PACKAGE j = Inr s \<and> sset s \<and>
             domain_cpus t GEOPM_DOMAIN_PACKAGE j = Inr s \<and>
             int (length s) = m_core_per_package t * m_thread_per_core t"
proof -
  let ?p = "m_num_package t" and ?c = "m_core_per_package t" and ?h = "m_thread_per_core t"
  have pos: "0 < ?c" "0 < ?h" using assms(1) by (auto simp: topo_wf_def)
  obtain cpus where cpus: "domain_cpus t GEOPM_DOMAIN_PACKAGE j = Inr cpus" "sset cpus"
      "set cpus = {cpu. 0 \<le> cpu \<and> cpu < num_cpu t \<and> cpu mod (?p * ?c) div ?c = j}"
    using set_package_cpus[OF assms] by auto
  have "domain_idx t GEOPM_DOMAIN_CPU cpu = Inr cpu" if "cpu \<in> set cpus" for cpu
    using that unfolding cpus(3) by (simp add: cpu_idx_simp)
  from domain_nested_image[OF _ cpus(1) this] obtain s where
    s: "domain_nested t GEOPM_DOMAIN_CPU GEOPM_DOMAIN_PACKAGE j = Inr s" "sset s" "set s = set cpus"
    by (auto simp: is_nested_domain_def)
  have "0 \<le> ?c * ?h" using pos by simp
  moreover have "length s = nat (?c * ?h)"
    using s(2,3) distinct_card[of s] card_package[OF assms(2,3) pos] cpus(3)
    by (simp add: sset_def num_cpu_def)
  ultimately have "int (length s) = ?c * ?h" by simp
  with s cpus sset_eqI[OF s(2) cpus(2) s(3)] show ?thesis by auto
qed

lemma c_nested:
  assumes "is_nested_domain inner outer" "num_domain t inner = Inr ni" "num_domain t outer = Inr no"
    and "0 < no" "ni = no * k" "0 < k" "domain_nested t inner outer j = Inr s" "int (length s) = k"
  shows "geopm_topo_num_domain_nested errno t inner outer = Inr k \<and>
         geopm_topo_domain_nested errno t inner outer j (nat k) buf = Inr (0, s @ drop (nat k) buf)"
proof -
  have "0 < ni" using assms by simp
  then have "geopm_topo_num_domain_nested errno t inner outer = Inr k"
    using assms by (simp add: geopm_topo_num_domain_nested_def)
  moreover have "length s = nat k" using assms(8) by simp
  ultimately show ?thesis using assms by (simp add: geopm_topo_domain_nested_def)
qed

section \<open>Parsing\<close>

subsection \<open>Hexadecimal masks\<close>

fun hex_number :: "nat list \<Rightarrow> nat" where
  "hex_number [] = 0"
| "hex_number (d # ds) = d + 16 * hex_number ds"

lemma bit_hex_digit:
  assumes "d < (16 :: nat)"
  shows "bit (d + 16 * x) k \<longleftrightarrow> (if k < 4 then bit d k else bit x (k - 4))"
proof (cases "k < 4")
  case True
  then consider "k = 0" | "k = 1" | "k = 2" | "k = 3" by linarith
  then show ?thesis by cases (simp_all add: bit_iff_odd, presburger+)
next
  case False
  then obtain i where k: "k = 4 + i" using le_Suc_ex not_less by blast
  have "(d + 16 * x) div 2 ^ k = (d + 16 * x) div 16 div 2 ^ i" by (simp add: k power_add div_mult2_eq)
  also have "(d + 16 * x) div 16 = x" using assms by simp
  finally show ?thesis by (simp add: k bit_iff_odd)
qed

lemma hex_bits_loop_spec:
  "sset cpus \<Longrightarrow> sset (hex_bits_loop n hmb cpu_idx cpus) \<and>
   set (hex_bits_loop n hmb cpu_idx cpus) = set cpus \<union> {cpu_idx + int k |k. k < n \<and> bit hmb k}"
proof (induction n hmb cpu_idx cpus rule: hex_bits_loop.induct)
  case (2 n hmb cpu_idx cpus)
  have "{cpu_idx + int k |k. k < Suc n \<and> bit hmb k} =
        (if odd hmb then {cpu_idx} else {}) \<union> {cpu_idx + 1 + int k |k. k < n \<and> bit (hmb div 2) k}" (is "?L = ?R")
  proof (intro set_eqI iffI)
    fix x assume "x \<in> ?L"
    then obtain k where "x = cpu_idx + int k" "k < Suc n" "bit hmb k" by auto
    then show "x \<in> ?R" by (cases k) (auto simp: bit_0 bit_Suc)
  next
    fix x assume "x \<in> ?R"
    then show "x \<in> ?L"
    proof
      assume "x \<in> (if odd hmb then {cpu_idx} else {})"
      then show ?thesis by (auto simp: bit_0 split: if_splits intro!: exI[of _ 0])
    next
      assume "x \<in> {cpu_idx + 1 + int k |k. k < n \<and> bit (hmb div 2) k}"
      then obtain k where "x = cpu_idx + 1 + int k" "k < n" "bit (hmb div 2) k" by auto
      then show ?thesis by (auto simp: bit_Suc intro!: exI[of _ "Suc k"])
    qed
  qed
  then show ?case using 2 by (auto simp: set_insort_insert)
qed simp

lemma hex_mask_loop_spec:
  assumes "map_result hex_digit_value digits = Inr ds" "list_all (\<lambda>d. d < 16) ds" "sset cpus"
  shows "\<exists>s. hex_mask_loop digits cpu_idx cpus = Inr s \<and> sset s \<and>
             set s = set cpus \<union> {cpu_idx + int k |k. bit (hex_number ds) k}"
  using assms
proof (induction digits arbitrary: ds cpu_idx cpus)
  case (Cons c digits)
  then obtain d ds' where d: "ds = d # ds'" "hex_digit_value c = Inr d" "map_result hex_digit_value digits = Inr ds'"
    by (auto simp: and_then_eq_Inr)
  let ?cpus = "hex_bits_loop 4 d cpu_idx cpus"
  have cpus: "sset ?cpus" "set ?cpus = set cpus \<union> {cpu_idx + int k |k. k < 4 \<and> bit d k}"
    using hex_bits_loop_spec[OF Cons.prems(3)] by auto
  obtain s where s: "hex_mask_loop digits (cpu_idx + 4) ?cpus = Inr s" "sset s"
      "set s = set ?cpus \<union> {cpu_idx + 4 + int k |k. bit (hex_number ds') k}"
    using Cons.IH[OF d(3) _ cpus(1), of "cpu_idx + 4"] Cons.prems(2) d(1) by auto
  have "{cpu_idx + int k |k. bit (hex_number ds) k} =
        {cpu_idx + int k |k. k < 4 \<and> bit d k} \<union> {cpu_idx + 4 + int k |k. bit (hex_number ds') k}" (is "?L = ?A \<union> ?B")
  proof (intro set_eqI iffI)
    fix x assume "x \<in> ?L"
    then obtain k where k: "x = cpu_idx + int k" "if k < 4 then bit d k else bit (hex_number ds') (k - 4)"
      using Cons.prems(2) by (auto simp: d(1) bit_hex_digit)
    then show "x \<in> ?A \<union> ?B" by (cases "k < 4") (auto intro!: exI[of _ "k - 4"])
  next
    fix x assume "x \<in> ?A \<union> ?B"
    then show "x \<in> ?L"
    proof
      assume "x \<in> ?A"
      then show ?thesis using Cons.prems(2) by (auto simp: d(1) bit_hex_digit)
    next
      assume "x \<in> ?B"
      then obtain k where "x = cpu_idx + 4 + int k" "bit (hex_number ds') k" by auto
      then show ?thesis using Cons.prems(2) by (auto simp: d(1) bit_hex_digit intro!: exI[of _ "k + 4"])
    qed
  qed
  then show ?case using s cpus(2) d(2) by (intro exI[of _ s]) auto
qed auto

lemma hex_digit_value_less: "hex_digit_value c = Inr d \<Longrightarrow> d < 16"
  by (auto simp: hex_digit_value_def Let_def split: if_splits)

lemma map_hex_digits_less: "map_result hex_digit_value cs = Inr ds \<Longrightarrow> list_all (\<lambda>d. d < 16) ds"
  by (induction cs arbitrary: ds) (auto simp: and_then_eq_Inr dest: hex_digit_value_less)

subsection \<open>The GPU lines\<close>

lemma getlines_append: "c \<noteq> [] \<Longrightarrow> getlines c = takeWhile (\<lambda>x. x \<noteq> CHR 0x0A) c #
     getlines (drop 1 (dropWhile (\<lambda>x. x \<noteq> CHR 0x0A) c))"
  by (cases c) simp_all

lemma getlines_line: "CHR 0x0A \<notin> set line \<Longrightarrow> getlines (line @ CHR 0x0A # rest) = line # getlines rest"
proof -
  assume "CHR 0x0A \<notin> set line"
  then have "takeWhile (\<lambda>x. x \<noteq> CHR 0x0A) (line @ CHR 0x0A # rest) = line"
    "dropWhile (\<lambda>x. x \<noteq> CHR 0x0A) (line @ CHR 0x0A # rest) = CHR 0x0A # rest"
    by (auto simp: takeWhile_append dropWhile_append takeWhile_eq_all_conv)
  then show ?thesis by (simp add: getlines_append)
qed

lemma getlines_lines:
  "list_all (\<lambda>l. CHR 0x0A \<notin> set l) ls \<Longrightarrow> getlines (concat (map (\<lambda>l. l @ [CHR 0x0A]) ls) @ rest) = ls @ getlines rest"
  by (induction ls) (auto simp: getlines_line)

text \<open>A text of complete lines.\<close>

definition unlines :: "string list \<Rightarrow> string" where
  "unlines ls = concat (map (\<lambda>l. l @ [CHR 0x0A]) ls)"

lemma getlines_unlines: "list_all (\<lambda>l. CHR 0x0A \<notin> set l) ls \<Longrightarrow> getlines (unlines ls) = ls"
  using getlines_lines[of ls "[]"] by (simp add: unlines_def)

definition gpu_cache_lines :: "(int \<Rightarrow> nat) \<Rightarrow> (int \<Rightarrow> nat \<Rightarrow> int list) \<Rightarrow> string list" where
  "gpu_cache_lines num_gpu affinity =
     map (\<lambda>i. gpu_line ''node'' i (affinity GEOPM_DOMAIN_GPU i)) [0..<num_gpu GEOPM_DOMAIN_GPU] @
     map (\<lambda>i. gpu_line ''chip'' i (affinity GEOPM_DOMAIN_GPU_CHIP i)) [0..<num_gpu GEOPM_DOMAIN_GPU_CHIP]"

lemma gpu_cache_text_lines: "n \<noteq> 0 \<Longrightarrow> gpu_cache_text n num_gpu affinity = unlines (gpu_cache_lines num_gpu affinity)"
  by (simp add: gpu_cache_text_def unlines_def gpu_cache_lines_def map_map o_def)

lemma cpu_list_text_join: "cpus \<noteq> [] \<Longrightarrow> cpu_list_text delim cpus = delim @ string_join (map show_int cpus) '',''"
proof (induction delim cpus rule: cpu_list_text.induct)
  case (2 delim cpu_idx rest)
  then show ?case by (cases rest) auto
qed simp

lemma show_int_nonneg: "0 \<le> i \<Longrightarrow> show_int i = show_nat (nat i)"
  by (simp add: show_int_def)

lemma show_int_digits: "0 \<le> i \<Longrightarrow> list_all is_digit (show_int i) \<and> show_int i \<noteq> []"
  using show_nat_props[of "nat i"] by (simp add: show_int_nonneg)

definition cpu_list_ok :: "int list \<Rightarrow> bool" where
  "cpu_list_ok cpus \<longleftrightarrow> sset cpus \<and> (\<forall>c \<in> set cpus. 0 \<le> c \<and> c \<le> INT_MAX)"

definition gpu_value :: "int list \<Rightarrow> string" where
  "gpu_value cpus = string_join (map show_int cpus) '',''"

lemma gpu_value_chars: "cpu_list_ok cpus \<Longrightarrow> x \<in> set (gpu_value cpus) \<Longrightarrow> is_digit x \<or> x = CHR '',''"
  using string_join_chars[of "map show_int cpus" "'',''"] show_int_digits
  by (fastforce simp: gpu_value_def cpu_list_ok_def list_all_iff)

lemma gpu_node_cpus_value:
  assumes "cpu_list_ok cpus"
  shows "gpu_node_cpus (gpu_value cpus) = Inr cpus"
proof (cases "cpus = []")
  case False
  have digits: "list_all is_digit (show_int c)" "show_int c \<noteq> []" if "c \<in> set cpus" for c
    using assms that show_int_digits by (auto simp: cpu_list_ok_def)
  have "string_split (gpu_value cpus) '','' = Inr (map show_int cpus)"
    unfolding gpu_value_def
  proof (rule string_split_join)
    show "map show_int cpus \<noteq> []" using False by simp
    show "map show_int cpus \<noteq> [[]]" using digits(2) by (auto simp: map_eq_Cons_conv)
    show "list_all (\<lambda>s. CHR '','' \<notin> set s) (map show_int cpus)"
      using digits(1) by (fastforce simp: list_all_iff)
  qed
  moreover have "stoi (show_int c) = Inr c" if "c \<in> set cpus" for c
    using assms that stoi_show_nat[of "nat c" "[]"] by (simp add: cpu_list_ok_def show_int_nonneg)
  then have "\<exists>s. fold_result (\<lambda>cpu_str cpus. and_then (stoi cpu_str) (\<lambda>cpu. Inr (insort_insert cpu cpus)))
               (map show_int cpus) [] = Inr s \<and> sset s \<and> set s = set [] \<union> (projr \<circ> stoi) ` set (map show_int cpus)"
    by (intro fold_insort_insert_of) (auto simp: sset_def)
  moreover have "(projr \<circ> stoi) ` set (map show_int cpus) = set cpus"
    using \<open>\<And>c. c \<in> set cpus \<Longrightarrow> stoi (show_int c) = Inr c\<close> by (force simp: image_iff)
  ultimately show ?thesis using assms by (auto simp: gpu_node_cpus_def cpu_list_ok_def intro: sset_eqI)
qed (simp add: gpu_node_cpus_def gpu_value_def string_split_def)

lemma gpu_line_parts: "gpu_line short i cpus = node_key (''GPU '' @ short) i @ CHR '':'' # cpu_list_text '' '' cpus"
  by (simp add: gpu_line_def node_key_def)

lemma node_key_no_char:
  "c \<notin> set prefix \<Longrightarrow> \<not> is_digit c \<Longrightarrow> c \<notin> set '' CPU(s)'' \<Longrightarrow> c \<notin> set (node_key prefix i)"
  using show_nat_no_char[of c i] by (auto simp: node_key_def)

lemma lscpu_gpu_line:
  assumes "cpu_list_ok cpus" "short \<in> {''node'', ''chip''}"
  shows "lscpu_line (gpu_line short i cpus) m = emplace (node_key (''GPU '' @ short) i) (gpu_value cpus) m"
    and "CHR 0x0A \<notin> set (gpu_line short i cpus)"
proof -
  let ?k = "node_key (''GPU '' @ short) i"
  have "CHR '':'' \<notin> set ?k" "CHR 0x0A \<notin> set ?k"
    using assms(2) node_key_no_char[of "CHR '':''" "''GPU '' @ short" i]
      node_key_no_char[of "CHR 0x0A" "''GPU '' @ short" i] by auto
  then have colon: "str_find (gpu_line short i cpus) '':'' 0 = Some (length ?k)"
    unfolding gpu_line_parts by (intro str_find_char_Some)
  have val: "trim_value (cpu_list_text '' '' cpus) = gpu_value cpus"
  proof (cases "cpus = []")
    case False
    have hd: "gpu_value cpus \<noteq> []" "\<not> (hd (gpu_value cpus) = CHR '' '' \<or> hd (gpu_value cpus) = CHR 0x09)"
    proof -
      obtain c cs where c: "cpus = c # cs" using False by (cases cpus) auto
      then have "list_all is_digit (show_int c)" "show_int c \<noteq> []"
        using assms(1) show_int_digits[of c] by (auto simp: cpu_list_ok_def)
      then show "gpu_value cpus \<noteq> []" "\<not> (hd (gpu_value cpus) = CHR '' '' \<or> hd (gpu_value cpus) = CHR 0x09)"
        by (cases cs; cases "show_int c"; auto simp: gpu_value_def c is_digit_def)+
    qed
    then show ?thesis using False
      by (cases "gpu_value cpus") (auto simp: cpu_list_text_join gpu_value_def[symmetric] trim_value_def)
  qed (simp add: trim_value_def gpu_value_def)
  have "?k \<noteq> []" by (simp add: node_key_def)
  with colon val show "lscpu_line (gpu_line short i cpus) m = emplace ?k (gpu_value cpus) m"
    by (simp add: lscpu_line_def gpu_line_parts)
  have "CHR 0x0A \<notin> set (cpu_list_text '' '' cpus)"
    using gpu_value_chars[OF assms(1), of "CHR 0x0A"]
    by (cases "cpus = []") (auto simp: cpu_list_text_join gpu_value_def[symmetric])
  then show "CHR 0x0A \<notin> set (gpu_line short i cpus)"
    using \<open>CHR 0x0A \<notin> set ?k\<close> by (simp add: gpu_line_parts)
qed

lemma fold_emplace:
  "distinct (map fst es) \<Longrightarrow> \<forall>k \<in> fst ` set es. map_of m k = None \<Longrightarrow>
   fold (\<lambda>(k, v). emplace k v) es m = m @ es"
proof (induction es arbitrary: m)
  case (Cons e es)
  obtain k v where e: "e = (k, v)" by (cases e)
  have "fold (\<lambda>(k, v). emplace k v) es (m @ [(k, v)]) = (m @ [(k, v)]) @ es"
    by (rule Cons.IH) (use Cons.prems e in \<open>auto simp: map_add_def split: option.splits\<close>)
  moreover have "emplace k v m = m @ [(k, v)]" using Cons.prems e by (simp add: emplace_def)
  ultimately show ?case using e by simp
qed simp

definition gpu_entries :: "(int \<Rightarrow> nat) \<Rightarrow> (int \<Rightarrow> nat \<Rightarrow> int list) \<Rightarrow> (string \<times> string) list" where
  "gpu_entries num_gpu affinity =
     map (\<lambda>i. (node_key ''GPU node'' i, gpu_value (affinity GEOPM_DOMAIN_GPU i))) [0..<num_gpu GEOPM_DOMAIN_GPU] @
     map (\<lambda>i. (node_key ''GPU chip'' i, gpu_value (affinity GEOPM_DOMAIN_GPU_CHIP i))) [0..<num_gpu GEOPM_DOMAIN_GPU_CHIP]"

definition affinity_ok :: "(int \<Rightarrow> nat) \<Rightarrow> (int \<Rightarrow> nat \<Rightarrow> int list) \<Rightarrow> bool" where
  "affinity_ok num_gpu affinity \<longleftrightarrow>
     (\<forall>d \<in> {GEOPM_DOMAIN_GPU, GEOPM_DOMAIN_GPU_CHIP}. \<forall>i < num_gpu d. cpu_list_ok (affinity d i))"

lemma fold_gpu_lines:
  assumes "affinity_ok num_gpu affinity"
  shows "fold lscpu_line (gpu_cache_lines num_gpu affinity) m =
         fold (\<lambda>(k, v). emplace k v) (gpu_entries num_gpu affinity) m"
    and "list_all (\<lambda>l. CHR 0x0A \<notin> set l) (gpu_cache_lines num_gpu affinity)"
proof -
  have ok: "cpu_list_ok (affinity 8 i)" if "i < num_gpu 8" for i
    using assms that by (simp add: affinity_ok_def)
  have ok': "cpu_list_ok (affinity 10 i)" if "i < num_gpu 10" for i
    using assms that by (simp add: affinity_ok_def)
  have each: "fold lscpu_line (map (\<lambda>i. gpu_line short i (f i)) is) m =
        fold (\<lambda>(k, v). emplace k v) (map (\<lambda>i. (node_key (''GPU '' @ short) i, gpu_value (f i))) is) m"
    if "\<forall>i \<in> set is. cpu_list_ok (f i)" "short \<in> {''node'', ''chip''}" for short f "is" m
    using that(1) by (induction "is" arbitrary: m) (use lscpu_gpu_line(1)[OF _ that(2)] in auto)
  have "fold lscpu_line (map (\<lambda>i. gpu_line ''node'' i (affinity 8 i)) [0..<num_gpu 8]) m =
      fold (\<lambda>(k, v). emplace k v) (map (\<lambda>i. (node_key ''GPU node'' i, gpu_value (affinity 8 i))) [0..<num_gpu 8]) m" for m
    using each[of "[0..<num_gpu 8]" "affinity 8" "''node''" m] ok by simp
  moreover have "fold lscpu_line (map (\<lambda>i. gpu_line ''chip'' i (affinity 10 i)) [0..<num_gpu 10]) m =
      fold (\<lambda>(k, v). emplace k v) (map (\<lambda>i. (node_key ''GPU chip'' i, gpu_value (affinity 10 i))) [0..<num_gpu 10]) m" for m
    using each[of "[0..<num_gpu 10]" "affinity 10" "''chip''" m] ok' by simp
  ultimately show "fold lscpu_line (gpu_cache_lines num_gpu affinity) m =
         fold (\<lambda>(k, v). emplace k v) (gpu_entries num_gpu affinity) m"
    by (simp only: gpu_cache_lines_def gpu_entries_def fold_append o_apply)
  show "list_all (\<lambda>l. CHR 0x0A \<notin> set l) (gpu_cache_lines num_gpu affinity)"
    using lscpu_gpu_line(2) ok ok' by (auto simp: gpu_cache_lines_def list_all_iff)
qed

lemma node_key_prefix_neq: "node_key ''GPU node'' i \<noteq> node_key ''GPU chip'' j"
  by (simp add: node_key_def)

lemma distinct_gpu_entries: "distinct (map fst (gpu_entries num_gpu affinity))"
  by (auto simp: gpu_entries_def distinct_map inj_on_def node_key_prefix_neq)

lemma scan_nodes_all:
  assumes "\<And>i. i < n \<Longrightarrow> map_of m (node_key prefix i) = Some (val i) \<and> parse (val i) = Inr (g i)"
    and "map_of m (node_key prefix n) = None" "k \<le> n"
  shows "scan_nodes m prefix parse k = Inr (map g [k..<n])"
  using assms(3)
proof (induction "n - k" arbitrary: k)
  case 0
  then show ?case using assms(2) by (simp add: scan_nodes.simps)
next
  case (Suc x)
  then have "scan_nodes m prefix parse (Suc k) = Inr (map g [Suc k..<n])" "k < n" by auto
  then show ?case using assms(1)[of k] by (subst scan_nodes.simps) (simp add: upt_conv_Cons)
qed

lemma map_of_nodes:
  "map_of (map (\<lambda>i. (node_key p i, g i)) is) (node_key p i) = (if i \<in> set is then Some (g i) else None)"
  by (induction "is") auto

lemma map_of_nodes_other:
  "(\<And>i. node_key p i \<noteq> k) \<Longrightarrow> map_of (map (\<lambda>i. (node_key p i, g i)) is) k = None"
  by (induction "is") auto

lemma map_of_gpu_entries:
  "map_of (gpu_entries num_gpu affinity) (node_key ''GPU node'' i) =
     (if i < num_gpu 8 then Some (gpu_value (affinity 8 i)) else None)"
  "map_of (gpu_entries num_gpu affinity) (node_key ''GPU chip'' i) =
     (if i < num_gpu 10 then Some (gpu_value (affinity 10 i)) else None)"
  unfolding gpu_entries_def map_of_append map_add_def map_of_nodes
    map_of_nodes_other[OF node_key_prefix_neq] map_of_nodes_other[OF node_key_prefix_neq[symmetric]]
  by simp_all

lemma lscpu_with_gpu:
  assumes "list_all (\<lambda>l. CHR 0x0A \<notin> set l) base" "affinity_ok num_gpu affinity" "n \<noteq> 0"
    and "\<forall>k. map_of (lscpu (unlines base)) (''GPU '' @ k) = None"
  shows "lscpu (unlines base @ gpu_cache_text n num_gpu affinity) =
         lscpu (unlines base) @ gpu_entries num_gpu affinity"
proof -
  have "unlines base @ gpu_cache_text n num_gpu affinity = unlines (base @ gpu_cache_lines num_gpu affinity)"
    using assms(3) by (simp add: gpu_cache_text_lines unlines_def)
  then have "lscpu (unlines base @ gpu_cache_text n num_gpu affinity) =
      fold lscpu_line (gpu_cache_lines num_gpu affinity) (lscpu (unlines base))"
    using assms(1) fold_gpu_lines(2)[OF assms(2)] by (simp add: lscpu_def getlines_unlines)
  moreover have "\<forall>k \<in> fst ` set (gpu_entries num_gpu affinity). map_of (lscpu (unlines base)) k = None"
    using assms(4) by (auto simp: gpu_entries_def node_key_def)
  ultimately show ?thesis
    using fold_emplace[OF distinct_gpu_entries] by (simp add: fold_gpu_lines(1)[OF assms(2)])
qed

subsection \<open>Counting and collecting the bits of a mask\<close>

lemma hex_bits_loop_count:
  "\<forall>c \<in> set cpus. c < cpu_idx \<Longrightarrow> sset cpus \<Longrightarrow>
   int (length (hex_bits_loop n hmb cpu_idx cpus)) = int (length cpus) + count_bits n hmb \<and>
   (\<forall>c \<in> set (hex_bits_loop n hmb cpu_idx cpus). c < cpu_idx + int n)"
proof (induction n hmb cpu_idx cpus rule: hex_bits_loop.induct)
  case (2 n hmb cpu_idx cpus)
  let ?cpus = "if odd hmb then insort_insert cpu_idx cpus else cpus"
  have "cpu_idx \<notin> set cpus" using 2 by auto
  then have len: "int (length ?cpus) = int (length cpus) + (if odd hmb then 1 else 0)"
    by (simp add: insort_insert_insort)
  have "\<forall>c \<in> set ?cpus. c < cpu_idx + 1" "sset ?cpus" using 2 by (auto simp: set_insort_insert)
  from 2(1)[OF this] len show ?case by (simp add: algebra_simps)
qed simp

lemma online_cpus_count:
  "\<forall>c \<in> set cpus. c < cpu_idx \<Longrightarrow> sset cpus \<Longrightarrow>
   online_cpus digits = map_sum id (\<lambda>s. int (length s) - int (length cpus)) (hex_mask_loop digits cpu_idx cpus)"
proof (induction digits arbitrary: cpu_idx cpus)
  case (Cons c digits)
  show ?case
  proof (cases "hex_digit_value c")
    case (Inr d)
    let ?cpus = "hex_bits_loop 4 d cpu_idx cpus"
    have step: "int (length ?cpus) = int (length cpus) + count_bits 4 d" "\<forall>c \<in> set ?cpus. c < cpu_idx + 4" "sset ?cpus"
      using hex_bits_loop_count[OF Cons.prems, of 4 d] hex_bits_loop_spec[OF Cons.prems(2), of 4 d cpu_idx] by auto
    have IH: "online_cpus digits =
        map_sum id (\<lambda>s. int (length s) - int (length ?cpus)) (hex_mask_loop digits (cpu_idx + 4) ?cpus)"
      by (rule Cons.IH) (use step in auto)
    then show ?thesis using Inr step(1)
      by (cases "hex_mask_loop digits (cpu_idx + 4) ?cpus") (auto simp: IH)
  qed simp
qed simp

lemma hex_mask_sset: "hex_mask_loop digits cpu_idx cpus = Inr s \<Longrightarrow> sset cpus \<Longrightarrow> sset s"
  by (induction digits arbitrary: cpu_idx cpus) (auto simp: and_then_eq_Inr dest: hex_bits_loop_spec)

section \<open>Properties\<close>

text \<open>
  C39: The domains of a type partition the CPUs. On a well-formed topology, for board, package, core,
  CPU and memory domains, \<^verbatim>\<open>domain_idx()\<close> maps every CPU to a domain index in range, and
  \<^verbatim>\<open>domain_cpus()\<close> of a domain contains the CPU exactly when it is that domain: the two
  functions are inverse views of one partition.
\<close>

theorem domain_partition:
  assumes "topo_wf t" "0 \<le> cpu" "cpu < num_cpu t"
    and "d \<in> {GEOPM_DOMAIN_BOARD, GEOPM_DOMAIN_PACKAGE, GEOPM_DOMAIN_CORE, GEOPM_DOMAIN_CPU, GEOPM_DOMAIN_MEMORY}"
  shows "\<exists>i n. domain_idx t d cpu = Inr i \<and> num_domain t d = Inr n \<and> 0 \<le> i \<and> i < n \<and>
     (\<forall>j. 0 \<le> j \<longrightarrow> j < n \<longrightarrow> (\<exists>s. domain_cpus t d j = Inr s \<and> sset s \<and> (cpu \<in> set s \<longleftrightarrow> j = i)))"
proof (cases "d = GEOPM_DOMAIN_MEMORY")
  case True
  then show ?thesis using memory_partition[OF assms(1-3)] by simp
next
  case False
  then show ?thesis using domain_partition_aux[OF assms(1-3)] assms(4) by simp
qed

definition demo_topo :: topo where
  "demo_topo = \<lparr>m_num_package = 2, m_core_per_package = 2, m_thread_per_core = 2,
     m_numa_map = [[0, 1, 4, 5], [2, 3, 6, 7], []], m_gpu_node = [[0, 1]], m_gpu_chip = [[0], [1]]\<rparr>"

lemma demo_topo_wf: "topo_wf demo_topo" "num_cpu demo_topo = 8"
proof -
  have "{0..<8} = {0, 1, 2, 3, 4, 5, 6, 7 :: int}" by (auto simp: numeral_eq_Suc)
  then show "topo_wf demo_topo" "num_cpu demo_topo = 8"
    by (auto simp: topo_wf_def demo_topo_def num_cpu_def sset_def less_Suc_eq numeral_eq_Suc nth_Cons
        split: nat.splits)
qed

theorem domain_partition_witness:
  "domain_idx demo_topo GEOPM_DOMAIN_PACKAGE 6 = Inr 1 \<and>
   (\<exists>s. domain_cpus demo_topo GEOPM_DOMAIN_PACKAGE 1 = Inr s \<and> 6 \<in> set s) \<and>
   (\<exists>s. domain_cpus demo_topo GEOPM_DOMAIN_PACKAGE 0 = Inr s \<and> 6 \<notin> set s)"
proof -
  have "domain_idx demo_topo GEOPM_DOMAIN_PACKAGE 6 = Inr 1" "num_domain demo_topo GEOPM_DOMAIN_PACKAGE = Inr 2"
    by (simp_all add: domain_idx_def demo_topo_def num_cpu_def)
  then show ?thesis
    using domain_partition[OF demo_topo_wf(1), of 6 GEOPM_DOMAIN_PACKAGE] demo_topo_wf(2) by fastforce
qed

text \<open>
  Nesting. On a well-formed topology the cores of a package are the consecutive indices of that
  package, the CPUs of a core and of a package are its CPU set, each nested set has
  \<^verbatim>\<open>num_domain(inner) / num_domain(outer)\<close> members, and so the C function
  \<^verbatim>\<open>geopm_topo_domain_nested()\<close> succeeds with a buffer of the size that
  \<^verbatim>\<open>geopm_topo_num_domain_nested()\<close> announces, writing the nested indices in increasing order.
\<close>

theorem domain_nested_sizes:
  assumes "topo_wf t" "num_domain t outer = Inr no" "0 \<le> j" "j < no"
    and "(inner, outer) \<in> {(GEOPM_DOMAIN_CORE, GEOPM_DOMAIN_PACKAGE), (GEOPM_DOMAIN_CPU, GEOPM_DOMAIN_CORE),
                           (GEOPM_DOMAIN_CPU, GEOPM_DOMAIN_PACKAGE)}"
  shows "\<exists>s k. domain_nested t inner outer j = Inr s \<and> sset s \<and> int (length s) = k \<and>
     num_domain t inner = Inr (no * k) \<and>
     (if inner = GEOPM_DOMAIN_CORE then set s = {j * k..<(j + 1) * k} else domain_cpus t outer j = Inr s) \<and>
     geopm_topo_num_domain_nested errno t inner outer = Inr k \<and>
     geopm_topo_domain_nested errno t inner outer j (nat k) buf = Inr (0, s @ drop (nat k) buf)"
proof -
  have pos: "0 < m_num_package t" "0 < m_core_per_package t" "0 < m_thread_per_core t"
    using assms(1) by (auto simp: topo_wf_def)
  consider "inner = 2" "outer = 1" | "inner = 3" "outer = 2" | "inner = 3" "outer = 1" using assms(5) by auto
  then show ?thesis
  proof cases
    case 1
    with assms(1-4) nested_core_package[of t j] obtain s where s: "domain_nested t 2 1 j = Inr s" "sset s"
      "set s = {j * m_core_per_package t..<(j + 1) * m_core_per_package t}" "int (length s) = m_core_per_package t"
      by auto
    show ?thesis using 1 s assms(2) pos c_nested[OF _ _ _ _ _ _ s(1) s(4)]
      by (intro exI[of _ s] exI[of _ "m_core_per_package t"]) (auto simp: is_nested_domain_def)
  next
    case 2
    with assms(1-4) nested_cpu_core[of t j] obtain s where s: "domain_nested t 3 2 j = Inr s" "sset s"
      "domain_cpus t 2 j = Inr s" "int (length s) = m_thread_per_core t"
      by auto
    show ?thesis using 2 s assms(2) pos c_nested[OF _ _ _ _ _ _ s(1) s(4)]
      by (intro exI[of _ s] exI[of _ "m_thread_per_core t"]) (auto simp: is_nested_domain_def num_cpu_def)
  next
    case 3
    with assms(1-4) nested_cpu_package[of t j] obtain s where s: "domain_nested t 3 1 j = Inr s" "sset s"
      "domain_cpus t 1 j = Inr s" "int (length s) = m_core_per_package t * m_thread_per_core t"
      by auto
    show ?thesis using 3 s assms(2) pos c_nested[OF _ _ _ _ _ _ s(1) s(4)]
      by (intro exI[of _ s] exI[of _ "m_core_per_package t * m_thread_per_core t"])
         (auto simp: is_nested_domain_def num_cpu_def algebra_simps)
  qed
qed

theorem domain_nested_sizes_witness:
  "geopm_topo_domain_nested 0 demo_topo GEOPM_DOMAIN_CORE GEOPM_DOMAIN_PACKAGE 1 2 [0, 0, 9] = Inr (0, [2, 3, 9])"
proof -
  have n: "num_domain demo_topo GEOPM_DOMAIN_PACKAGE = Inr 2" "num_domain demo_topo GEOPM_DOMAIN_CORE = Inr 4"
    by (simp_all add: demo_topo_def)
  from domain_nested_sizes[OF demo_topo_wf(1) n(1), of 1 GEOPM_DOMAIN_CORE 0 "[0, 0, 9]"]
  obtain s k where s: "sset s" "num_domain demo_topo GEOPM_DOMAIN_CORE = Inr (2 * k)"
      "if (2 :: int) = 2 then set s = {1 * k..<(1 + 1) * k} else domain_cpus demo_topo 1 1 = Inr s"
      "geopm_topo_domain_nested 0 demo_topo GEOPM_DOMAIN_CORE GEOPM_DOMAIN_PACKAGE 1 (nat k) [0, 0, 9] =
         Inr (0, s @ drop (nat k) [0, 0, 9])"
    by (auto simp del: num_domain_simps)
  have k: "k = 2" using s(2) n(2) by simp
  have "{2..<4} = {2, 3 :: int}" by auto
  then have "set s = set [2, 3]" using s(3) by (simp add: k)
  then have "s = [2, 3]" using s(1) by (intro sset_eqI) (auto simp: sset_def)
  then show ?thesis using s(4) k by (simp add: numeral_eq_Suc)
qed

text \<open>
  The affinity lines in the cache file. Appended to the output of \<^verbatim>\<open>lscpu\<close> (complete lines,
  no key of which starts with "GPU "), the text that \<^verbatim>\<open>create_cache()\<close> writes for the GPUs is
  read back by \<^verbatim>\<open>parse_lscpu_gpu()\<close> as exactly the affinity sets of the GPUs and of the GPU
  chips, and every other key of the file keeps its value.
\<close>

theorem gpu_cache_roundtrip:
  assumes "list_all (\<lambda>l. CHR 0x0A \<notin> set l) base" "affinity_ok num_gpu affinity" "n \<noteq> 0"
    and "\<forall>k. map_of (lscpu (unlines base)) (''GPU '' @ k) = None"
    and "d \<in> {GEOPM_DOMAIN_GPU, GEOPM_DOMAIN_GPU_CHIP}"
  shows "parse_lscpu_gpu (lscpu (unlines base @ gpu_cache_text n num_gpu affinity)) d =
           Inr (map (affinity d) [0..<num_gpu d]) \<and>
         (\<forall>key. (\<forall>k. key \<noteq> ''GPU '' @ k) \<longrightarrow>
           map_of (lscpu (unlines base @ gpu_cache_text n num_gpu affinity)) key =
           map_of (lscpu (unlines base)) key)"
proof -
  let ?m = "lscpu (unlines base)" and ?e = "gpu_entries num_gpu affinity"
  have all: "lscpu (unlines base @ gpu_cache_text n num_gpu affinity) = ?m @ ?e"
    by (rule lscpu_with_gpu[OF assms(1-4)])
  have none: "map_of ?m (node_key (''GPU '' @ short) i) = None" for short i
    using assms(4) by (simp add: node_key_def)
  have "map_of ?e key = None" if "\<forall>k. key \<noteq> ''GPU '' @ k" for key
    using that by (auto simp: map_of_eq_None_iff gpu_entries_def node_key_def)
  moreover have "parse_lscpu_gpu (?m @ ?e) d = Inr (map (affinity d) [0..<num_gpu d])"
  proof (cases "d = 8")
    case True
    have "scan_nodes (?m @ ?e) ''GPU node'' gpu_node_cpus 0 = Inr (map (affinity 8) [0..<num_gpu 8])"
      by (rule scan_nodes_all[where val = "\<lambda>i. gpu_value (affinity 8 i)"])
         (use none[of "''node''"] assms(2) in \<open>auto simp: map_add_def map_of_gpu_entries gpu_node_cpus_value affinity_ok_def\<close>)
    then show ?thesis using True by (simp add: parse_lscpu_gpu_def gpu_short_name_def)
  next
    case False
    then have d: "d = 10" using assms(5) by simp
    have "scan_nodes (?m @ ?e) ''GPU chip'' gpu_node_cpus 0 = Inr (map (affinity 10) [0..<num_gpu 10])"
      by (rule scan_nodes_all[where val = "\<lambda>i. gpu_value (affinity 10 i)"])
         (use none[of "''chip''"] assms(2) in \<open>auto simp: map_add_def map_of_gpu_entries gpu_node_cpus_value affinity_ok_def\<close>)
    then show ?thesis using d by (simp add: parse_lscpu_gpu_def gpu_short_name_def)
  qed
  ultimately show ?thesis unfolding all by (auto simp: map_add_def split: option.splits)
qed

theorem gpu_cache_roundtrip_witness:
  "parse_lscpu_gpu (lscpu (unlines [''CPU(s): 4''] @ gpu_cache_text 1 (\<lambda>_. 1) (\<lambda>_ _. [0, 3]))) GEOPM_DOMAIN_GPU =
     Inr [[0, 3]]"
proof -
  have "lscpu (unlines [''CPU(s): 4'']) = [(''CPU(s)'', ''4'')]" by code_simp
  then show ?thesis
    using gpu_cache_roundtrip[of "[''CPU(s): 4'']" "\<lambda>_. 1" "\<lambda>_ _. [0, 3]" 1 GEOPM_DOMAIN_GPU]
    by (simp add: affinity_ok_def cpu_list_ok_def sset_def INT_MAX_def)
qed

text \<open>
  The constructor's consistency check. When a topology is built from a cache file, the
  product of packages, cores and threads fits an \<^verbatim>\<open>int\<close> and equals the number of CPUs that
  \<^verbatim>\<open>lscpu\<close> printed, or else the number of bits set in the mask of the CPUs that are online
  (the number of CPUs that the mask parser used for the NUMA nodes would collect from it).
\<close>

theorem make_topo_consistent:
  assumes "make_topo contents = Inr t"
  shows "INT_MIN \<le> num_cpu t \<and> num_cpu t \<le> INT_MAX \<and>
     (\<exists>cpus mask. map_of (lscpu contents) ''CPU(s)'' = Some cpus \<and>
        map_of (lscpu contents) ''On-line CPU(s) mask'' = Some mask \<and>
        (atoi cpus = Inr (num_cpu t) \<or>
         (\<exists>s. numa_node_cpus mask = Inr s \<and> sset s \<and> int (length s) = num_cpu t)))"
proof -
  let ?m = "lscpu contents"
  obtain p c h where ok: "parse_lscpu ?m = Inr (p, c, h)" and t: "num_cpu t = p * c * h"
    using assms by (auto simp: make_topo_def Let_def and_then_eq_Inr num_cpu_def)
  then obtain vs where vs: "map_result (lscpu_value ?m) (parse_lscpu_keys ?m) = Inr vs"
      "imul (p * c) h = Inr (num_cpu t)" "check_online_cpus (num_cpu t) vs = Inr ()"
    unfolding parse_lscpu_def and_then_eq_Inr by (auto simp: imul_def split: if_splits)
  have chk: "atoi (vs ! 0) = Inr (num_cpu t) \<or> online_cpus (rev (strip_0x (vs ! 4))) = Inr (num_cpu t)"
    using vs(3) by (auto simp: check_online_cpus_def and_then_eq_Inr split: if_splits)
  have "lscpu_value ?m ''CPU(s)'' = Inr (vs ! 0)" "lscpu_value ?m ''On-line CPU(s) mask'' = Inr (vs ! 4)"
    using vs(1) by (auto simp: parse_lscpu_keys_def Let_def and_then_eq_Inr)
  then have "map_of ?m ''CPU(s)'' = Some (vs ! 0)" "map_of ?m ''On-line CPU(s) mask'' = Some (vs ! 4)"
    unfolding lscpu_value_def by (auto split: option.splits if_splits)
  moreover have "\<exists>s. numa_node_cpus mask = Inr s \<and> sset s \<and> int (length s) = n"
    if on: "online_cpus (rev (strip_0x mask)) = Inr n" for mask n
  proof -
    obtain s where s: "hex_mask_loop (rev (strip_0x mask)) 0 [] = Inr s" "int (length s) = n"
      using online_cpus_count[of "[]" 0 "rev (strip_0x mask)"] on
      by (cases "hex_mask_loop (rev (strip_0x mask)) 0 []") (auto simp: sset_def)
    have "sset s" using hex_mask_sset[OF s(1)] by (simp add: sset_def)
    with s show ?thesis by (simp add: numa_node_cpus_def)
  qed
  ultimately show ?thesis using vs(2) chk by (auto simp: imul_def split: if_splits)
qed

definition demo_lscpu :: string where
  "demo_lscpu = unlines [''CPU(s): 2'', ''Thread(s) per core: 1'', ''Core(s) per socket: 1'', ''Socket(s): 2'',
     ''On-line CPU(s) mask: 0x3'']"

theorem make_topo_consistent_witness:
  "make_topo demo_lscpu = Inr \<lparr>m_num_package = 2, m_core_per_package = 1, m_thread_per_core = 1,
     m_numa_map = [[0, 1]], m_gpu_node = [], m_gpu_chip = []\<rparr> \<and>
   (\<exists>cpus. map_of (lscpu demo_lscpu) ''CPU(s)'' = Some cpus)"
proof -
  have "make_topo demo_lscpu = Inr \<lparr>m_num_package = 2, m_core_per_package = 1, m_thread_per_core = 1,
     m_numa_map = [[0, 1]], m_gpu_node = [], m_gpu_chip = []\<rparr>" by code_simp
  with make_topo_consistent[OF this] show ?thesis by blast
qed

text \<open>
  Domain names. Each of the eleven domain types has a name, the name leads back to the type, and
  every other number and name is refused; through the C interface, \<^verbatim>\<open>geopm_topo_domain_name()\<close>
  writes the terminated name when it fits the buffer, and \<^verbatim>\<open>geopm_topo_domain_type()\<close> reads that
  buffer back as the same type; a buffer that is too short yields \<^verbatim>\<open>GEOPM_ERROR_INVALID\<close> and a
  truncated, terminated name.
\<close>

theorem domain_names_roundtrip:
  assumes "0 \<le> d" "d < GEOPM_NUM_DOMAIN" "0 < n" "n \<le> length buf" "0 \<le> errno"
  shows "\<exists>name. domain_type_to_name d = Inr name \<and> domain_name_to_type name = Inr d \<and>
     (\<exists>err buf'. geopm_topo_domain_name errno d n buf = Inr (err, buf') \<and>
        length buf' = length buf \<and> c_str buf' = take (n - 1) name \<and>
        (if length name < n then err = 0 \<and> geopm_topo_domain_type errno buf' = Inr d
         else err = GEOPM_ERROR_INVALID))"
proof -
  have "d \<in> set [0..10]" using assms by simp
  then have d: "d \<in> {0, 1, 2, 3, 4, 5, 6, 7, 8, 9, 10}" by (simp add: upto.simps)
  have names: "domain_names = [''board'', ''package'', ''core'', ''cpu'', ''memory'',
      ''package_integrated_memory'', ''nic'', ''package_integrated_nic'', ''gpu'', ''package_integrated_gpu'', ''gpu_chip'']"
    by code_simp
  have "\<exists>name. domain_type_to_name d = Inr name \<and> domain_name_to_type name = Inr d \<and> CHR 0x00 \<notin> set name"
    using d by (elim insertE) (simp_all add: domain_type_to_name_def names domain_name_to_type_def domain_types_def)
  then obtain name where name: "domain_type_to_name d = Inr name" "domain_name_to_type name = Inr d"
      "CHR 0x00 \<notin> set name" by blast
  have cname: "c_str name = name" using name(3) by (auto simp: c_str_def takeWhile_eq_all_conv)
  let ?b = "strncpy (buf[n - 1 := CHR 0x00]) name n"
  have b: "?b = take n (name @ replicate n (CHR 0x00)) @ drop n buf"
    using assms(3) by (simp add: strncpy_def cname)
  then have len: "length ?b = length buf" using assms(4) by simp
  have nth: "?b ! (n - 1) = (if n - 1 < length name then name ! (n - 1) else CHR 0x00)"
    unfolding b using assms(3,4) by (auto simp: nth_append)
  show ?thesis
  proof (cases "length name < n")
    case True
    then obtain k where "n - length name = Suc k" by (metis Suc_diff_Suc)
    then have "?b = name @ CHR 0x00 # (replicate k (CHR 0x00) @ drop n buf)"
      unfolding b using True by simp
    then have "c_str ?b = name" using c_str_append_NUL[of name] cname by simp
    moreover have "?b ! (n - 1) = CHR 0x00" unfolding nth using True assms(3) by auto
    ultimately show ?thesis
      using name True len assms(3)
      by (intro exI[of _ name]) (simp add: geopm_topo_domain_name_def geopm_topo_domain_type_def Let_def)
  next
    case False
    then have "name ! (n - 1) \<in> set name" using assms(3) by (intro nth_mem) linarith
    then have "name ! (n - 1) \<noteq> CHR 0x00" using name(3) by metis
    moreover have "n - 1 < length name" using False assms(3) by linarith
    ultimately have "?b ! (n - 1) \<noteq> CHR 0x00" unfolding nth by simp
    moreover have "?b[n - 1 := CHR 0x00] = take (n - 1) name @ CHR 0x00 # drop n buf"
    proof -
      have "take n name = take (n - 1) name @ [name ! (n - 1)]"
        using False assms(3) take_Suc_snoc[of "n - 1" name] by simp
      then show ?thesis unfolding b using False assms(3) by (simp add: list_update_append)
    qed
    then have "c_str (?b[n - 1 := CHR 0x00]) = take (n - 1) name"
      using name(3) by (auto simp: c_str_append_NUL) (auto simp: c_str_def takeWhile_eq_all_conv dest: in_set_takeD)
    ultimately show ?thesis
      using name False len assms(3)
      by (intro exI[of _ name]) (simp add: geopm_topo_domain_name_def Let_def)
  qed
qed

theorem domain_names_roundtrip_witness:
  "\<exists>buf'. geopm_topo_domain_name 0 GEOPM_DOMAIN_CPU 6 (replicate 6 CHR ''x'') = Inr (0, buf') \<and>
          geopm_topo_domain_type 0 buf' = Inr GEOPM_DOMAIN_CPU"
proof -
  have "domain_type_to_name GEOPM_DOMAIN_CPU = Inr ''cpu''" by code_simp
  then show ?thesis
    using domain_names_roundtrip[of GEOPM_DOMAIN_CPU 6 "replicate 6 CHR ''x''" 0] by auto
qed

text \<open>
  GPUs nested in the board. On a well-formed topology \<^verbatim>\<open>domain_nested(GPU, BOARD, 0)\<close> collects
  the GPU of every CPU, and its result contains the index -1, which is no GPU, exactly when some
  CPU has no GPU in the affinity lists; a GPU without an affine CPU of its own is left out. The
  witness is a platform with two CPUs per GPU on one GPU only.
\<close>

theorem gpu_nested_in_board:
  assumes "topo_wf t"
  shows "\<exists>s. domain_nested t GEOPM_DOMAIN_GPU GEOPM_DOMAIN_BOARD 0 = Inr s \<and> sset s \<and>
     (- 1 \<in> set s \<longleftrightarrow> (\<exists>cpu. 0 \<le> cpu \<and> cpu < num_cpu t \<and> cpu \<notin> set (concat (m_gpu_node t)))) \<and>
     (\<forall>i < length (m_gpu_node t). int i \<in> set s \<longleftrightarrow>
        (\<exists>cpu \<in> set (m_gpu_node t ! i). 0 \<le> cpu \<and> cpu < num_cpu t \<and> (\<forall>j < i. cpu \<notin> set (m_gpu_node t ! j))))"
proof -
  let ?g = "\<lambda>cpu. first_containing cpu (m_gpu_node t) 0"
  have cpus: "domain_cpus t GEOPM_DOMAIN_BOARD 0 = Inr (sset_of (concat (m_numa_map t)))"
    "set (sset_of (concat (m_numa_map t))) = {0..<num_cpu t}"
    using assms by (simp_all add: domain_cpus_def topo_wf_def del: set_concat)
  have "domain_idx t GEOPM_DOMAIN_GPU cpu = Inr (?g cpu)" if "cpu \<in> set (sset_of (concat (m_numa_map t)))" for cpu
    using that unfolding cpus(2) by (simp add: domain_idx_def m_gpu_info_def)
  from domain_nested_image[OF _ cpus(1) this] obtain s where
    s: "domain_nested t GEOPM_DOMAIN_GPU GEOPM_DOMAIN_BOARD 0 = Inr s" "sset s" "set s = ?g ` {0..<num_cpu t}"
    unfolding cpus(2) by (auto simp: is_nested_domain_def)
  have none: "?g cpu = - 1 \<longleftrightarrow> cpu \<notin> set (concat (m_gpu_node t))" for cpu
    using first_containing_unique[of cpu "m_gpu_node t" 0] first_containing_none[of cpu "m_gpu_node t" 0]
    by fastforce
  have some: "?g cpu = int i \<longleftrightarrow> cpu \<in> set (m_gpu_node t ! i) \<and> (\<forall>j < i. cpu \<notin> set (m_gpu_node t ! j))"
    if "i < length (m_gpu_node t)" for cpu i
  proof (cases "cpu \<in> set (concat (m_gpu_node t))")
    case True
    then obtain k where "k < length (m_gpu_node t)" "?g cpu = int k" "cpu \<in> set (m_gpu_node t ! k)"
        "\<forall>j < k. cpu \<notin> set (m_gpu_node t ! j)"
      using first_containing_unique[of cpu "m_gpu_node t" 0] by auto
    then show ?thesis by (metis linorder_neqE_nat of_nat_eq_iff)
  next
    case False
    then have "cpu \<notin> set (m_gpu_node t ! i)" using that by auto
    then show ?thesis using none[of cpu] False by simp
  qed
  have "- 1 \<in> set s \<longleftrightarrow> (\<exists>cpu. 0 \<le> cpu \<and> cpu < num_cpu t \<and> cpu \<notin> set (concat (m_gpu_node t)))"
    unfolding s(3) image_iff none[symmetric] by (auto simp: eq_commute)
  moreover have "int i \<in> set s \<longleftrightarrow> (\<exists>cpu \<in> set (m_gpu_node t ! i). 0 \<le> cpu \<and> cpu < num_cpu t \<and>
      (\<forall>j < i. cpu \<notin> set (m_gpu_node t ! j)))" if "i < length (m_gpu_node t)" for i
    unfolding s(3) image_iff using some[OF that] by (metis atLeastLessThan_iff)
  ultimately show ?thesis using s(1,2) by blast
qed

theorem gpu_nested_in_board_witness:
  "\<exists>s. domain_nested demo_topo GEOPM_DOMAIN_GPU GEOPM_DOMAIN_BOARD 0 = Inr s \<and> - 1 \<in> set s"
proof -
  have "0 \<le> (5 :: int) \<and> 5 < num_cpu demo_topo \<and> 5 \<notin> set (concat (m_gpu_node demo_topo))"
    using demo_topo_wf(2) by (simp add: demo_topo_def)
  then show ?thesis using gpu_nested_in_board[OF demo_topo_wf(1)] by blast
qed

end
