(* ===== verification/Platform_IO.thy ===== *)
theory Platform_IO
  imports Aggregation Platform_Topo
begin

text \<open>
  \<^verbatim>\<open>PlatformIO\<close> (libgeopmd/src/PlatformIO.cpp, CombinedSignal.cpp, CombinedControl.cpp): the
  registry of IOGroups and the front end that pushes, samples and adjusts signals and controls,
  converting between domains.

  An IOGroup is a record of its methods: the constant methods are functions of their arguments,
  the others are actions on a world \<open>'w\<close> that stands for the state of all IOGroups and of the
  hardware; nothing is assumed of them. A null pointer to an IOGroup is \<open>None\<close>. The members of
  \<^verbatim>\<open>PlatformIOImp\<close> are the record \<open>pio\<close>; the IOGroup list is read once at the start of an
  operation because only \<^verbatim>\<open>register_iogroup()\<close> changes it. Message texts, the batch server
  and the debug output are not modelled; \<open>sq\<close> is the square root used by one of the aggregation
  functions.
\<close>

section \<open>State\<close>

record 'w iogroup =
  io_name :: string
  io_is_valid_signal :: "string \<Rightarrow> bool"
  io_is_valid_control :: "string \<Rightarrow> bool"
  io_signal_names :: "string list"
  io_control_names :: "string list"
  io_signal_domain_type :: "string \<Rightarrow> int"
  io_control_domain_type :: "string \<Rightarrow> int"
  io_agg_function :: "string \<Rightarrow> agg_fn result"
  io_signal_behavior :: "string \<Rightarrow> int"
  io_push_signal :: "string \<Rightarrow> int \<Rightarrow> int \<Rightarrow> ('w, int) action"
  io_push_control :: "string \<Rightarrow> int \<Rightarrow> int \<Rightarrow> ('w, int) action"
  io_read_batch :: "('w, unit) action"
  io_write_batch :: "('w, unit) action"
  io_sample :: "int \<Rightarrow> ('w, double) action"
  io_adjust :: "int \<Rightarrow> double \<Rightarrow> ('w, unit) action"
  io_read_signal :: "string \<Rightarrow> int \<Rightarrow> int \<Rightarrow> ('w, double) action"
  io_write_control :: "string \<Rightarrow> int \<Rightarrow> int \<Rightarrow> double \<Rightarrow> ('w, unit) action"
  io_save_control :: "('w, unit) action"
  io_restore_control :: "('w, unit) action"
  io_save_control_path :: "string \<Rightarrow> ('w, unit) action"
  io_restore_control_path :: "string \<Rightarrow> ('w, unit) action"

type_synonym request = "string \<times> int \<times> int"

record 'w pio =
  m_is_signal_active :: bool
  m_is_control_active :: bool
  m_platform_topo :: topo
  m_iogroup_list :: "'w iogroup list"
  m_active_signal :: "('w iogroup option \<times> int) list"
  m_active_control :: "('w iogroup option \<times> int) list"
  m_existing_signal :: "request \<rightharpoonup> int"
  m_existing_control :: "request \<rightharpoonup> int"
  m_combined_signal :: "int \<rightharpoonup> (int list \<times> agg_fn)"
  m_combined_control :: "int \<rightharpoonup> (int list \<times> double)"
  m_do_restore :: bool
  m_pushed_signal_names :: "string list"
  m_world :: 'w

definition make_pio :: "'w iogroup list \<Rightarrow> topo \<Rightarrow> 'w \<Rightarrow> 'w pio" where
  "make_pio iogroup_list topo w =
     \<lparr>m_is_signal_active = False, m_is_control_active = False, m_platform_topo = topo,
      m_iogroup_list = iogroup_list, m_active_signal = [], m_active_control = [],
      m_existing_signal = Map.empty, m_existing_control = Map.empty,
      m_combined_signal = Map.empty, m_combined_control = Map.empty,
      m_do_restore = False, m_pushed_signal_names = [], m_world = w\<rparr>"

text \<open>A call of a method of an IOGroup.\<close>

definition io :: "('w, 'a) action \<Rightarrow> ('w pio, 'a) action" where
  "io m s = (case m (m_world s) of (r, w) \<Rightarrow> (r, s\<lparr>m_world := w\<rparr>))"

text \<open>The loop that tries one IOGroup after the other until one gives a result other than -1.\<close>

fun first_result :: "('a \<Rightarrow> ('s, int) action) \<Rightarrow> 'a list \<Rightarrow> ('s, int) action" where
  "first_result f [] = ret (- 1)"
| "first_result f (x # xs) = bind (f x) (\<lambda>result. if result \<noteq> - 1 then ret result else first_result f xs)"

lemma first_result_cong [fundef_cong]:
  "xs = ys \<Longrightarrow> (\<And>x. x \<in> set ys \<Longrightarrow> f x = g x) \<Longrightarrow> first_result f xs = first_result g ys"
  by (induction xs arbitrary: ys) (auto cong: if_cong)

section \<open>IOGroups\<close>

definition register_iogroup :: "'w iogroup \<Rightarrow> ('w pio, unit) action" where
  "register_iogroup iogroup =
     bind (gets m_do_restore) (\<lambda>do_restore.
     bind (guard (\<not> do_restore) invalid) (\<lambda>_.
       modify (\<lambda>s. s\<lparr>m_iogroup_list := m_iogroup_list s @ [iogroup]\<rparr>)))"

fun find_loop :: "('a \<Rightarrow> bool) \<Rightarrow> ('a \<Rightarrow> int) \<Rightarrow> 'a list \<Rightarrow> 'a list \<Rightarrow> int \<Rightarrow> 'a list" where
  "find_loop is_valid domain_type [] result native_domain = result"
| "find_loop is_valid domain_type (it # rest) result native_domain =
     (if is_valid it then
        if result = [] then find_loop is_valid domain_type rest [it] (domain_type it)
        else if domain_type it = native_domain then find_loop is_valid domain_type rest (result @ [it]) native_domain
        else find_loop is_valid domain_type rest result native_domain
      else find_loop is_valid domain_type rest result native_domain)"

definition find_signal_iogroup :: "'w iogroup list \<Rightarrow> string \<Rightarrow> 'w iogroup list" where
  "find_signal_iogroup iogroups signal_name =
     find_loop (\<lambda>g. io_is_valid_signal g signal_name) (\<lambda>g. io_signal_domain_type g signal_name)
       (rev iogroups) [] GEOPM_DOMAIN_INVALID"

definition find_control_iogroup :: "'w iogroup list \<Rightarrow> string \<Rightarrow> 'w iogroup list" where
  "find_control_iogroup iogroups control_name =
     find_loop (\<lambda>g. io_is_valid_control g control_name) (\<lambda>g. io_control_domain_type g control_name)
       (rev iogroups) [] GEOPM_DOMAIN_INVALID"

definition signal_names :: "'w iogroup list \<Rightarrow> string set" where
  "signal_names iogroups = \<Union> (set (map (\<lambda>g. set (io_signal_names g)) iogroups))"

definition control_names :: "'w iogroup list \<Rightarrow> string set" where
  "control_names iogroups = \<Union> (set (map (\<lambda>g. set (io_control_names g)) iogroups))"

definition first_iogroup :: "'a list \<Rightarrow> 'a result" where
  "first_iogroup iogroups = (case iogroups of [] \<Rightarrow> Inl invalid | g # _ \<Rightarrow> Inr g)"

definition signal_domain_type :: "'w iogroup list \<Rightarrow> string \<Rightarrow> int result" where
  "signal_domain_type iogroups signal_name =
     and_then (first_iogroup (find_signal_iogroup iogroups signal_name)) (\<lambda>g. Inr (io_signal_domain_type g signal_name))"

definition control_domain_type :: "'w iogroup list \<Rightarrow> string \<Rightarrow> int result" where
  "control_domain_type iogroups control_name =
     and_then (first_iogroup (find_control_iogroup iogroups control_name)) (\<lambda>g. Inr (io_control_domain_type g control_name))"

definition agg_function :: "'w iogroup list \<Rightarrow> string \<Rightarrow> agg_fn result" where
  "agg_function iogroups signal_name =
     and_then (first_iogroup (find_signal_iogroup iogroups signal_name)) (\<lambda>g. io_agg_function g signal_name)"

definition signal_behavior :: "'w iogroup list \<Rightarrow> string \<Rightarrow> int result" where
  "signal_behavior iogroups signal_name =
     and_then (first_iogroup (find_signal_iogroup iogroups signal_name)) (\<lambda>g. Inr (io_signal_behavior g signal_name))"

definition is_control_adjust_same :: "'w iogroup list \<Rightarrow> string \<Rightarrow> bool result" where
  "is_control_adjust_same iogroups control_name =
     and_then (first_iogroup (find_control_iogroup iogroups control_name)) (\<lambda>g.
     and_then (io_agg_function g control_name) (\<lambda>agg_func.
       Inr (function_to_type agg_func \<noteq> function_to_type Fn_sum)))"

section \<open>Pushing signals\<close>

definition check_domain :: "topo \<Rightarrow> int \<Rightarrow> int \<Rightarrow> unit result" where
  "check_domain topo domain_type dom_idx =
     (if domain_type < 0 \<or> domain_type \<ge> GEOPM_NUM_DOMAIN then Inl invalid
      else and_then (num_domain topo domain_type) (\<lambda>n.
        if dom_idx < 0 \<or> dom_idx \<ge> n then Inl invalid else Inr ()))"

definition push_combined_signal :: "'w iogroup list \<Rightarrow> string \<Rightarrow> int list \<Rightarrow> ('w pio, int) action" where
  "push_combined_signal iogroups signal_name sub_signal_idx =
     bind (gets (\<lambda>s. int (length (m_active_signal s)))) (\<lambda>result.
     bind (lift (agg_function iogroups signal_name)) (\<lambda>combiner.
     bind (modify (\<lambda>s. s\<lparr>m_combined_signal := (m_combined_signal s)(result \<mapsto> (sub_signal_idx, combiner)),
                        m_active_signal := m_active_signal s @ [(None, result)]\<rparr>)) (\<lambda>_.
       ret result)))"

text \<open>One IOGroup of \<^verbatim>\<open>push_signal()\<close> whose native domain is the requested one.\<close>

definition push_signal_native :: "'w iogroup \<Rightarrow> string \<Rightarrow> int \<Rightarrow> int \<Rightarrow> ('w pio, int) action" where
  "push_signal_native ii signal_name domain_type dom_idx =
     bind (try_catch
             (bind (gets m_pushed_signal_names) (\<lambda>names.
                if signal_name \<notin> set names
                then bind (io (io_read_signal ii signal_name domain_type dom_idx)) (\<lambda>_. ret True)
                else ret True))
             (\<lambda>err_value. ret (err_value = GEOPM_ERROR_NOT_IMPLEMENTED)))
       (\<lambda>do_push_signal.
          if do_push_signal then
            bind (io (io_push_signal ii signal_name domain_type dom_idx)) (\<lambda>group_signal_idx.
            bind (gets (\<lambda>s. int (length (m_active_signal s)))) (\<lambda>result.
            bind (modify (\<lambda>s. s\<lparr>
                    m_existing_signal := (m_existing_signal s)((signal_name, domain_type, dom_idx) \<mapsto> result),
                    m_active_signal := m_active_signal s @ [(Some ii, group_signal_idx)],
                    m_pushed_signal_names := List.insert signal_name (m_pushed_signal_names s)\<rparr>)) (\<lambda>_.
              ret result)))
          else ret (- 1))"

lemma find_loop_domains:
  "result \<noteq> [] \<Longrightarrow> list_all (\<lambda>g. domain_type g = d) result \<Longrightarrow>
   list_all (\<lambda>g. domain_type g = d) (find_loop is_valid domain_type gs result d) \<and>
   (\<exists>more. find_loop is_valid domain_type gs result d = result @ more)"
proof (induction gs arbitrary: result)
  case (Cons g gs)
  have "list_all (\<lambda>g. domain_type g = d) (result @ [g])" if "domain_type g = d" using Cons.prems that by simp
  then show ?case using Cons.IH[of "result @ [g]"] Cons.IH[OF Cons.prems] Cons.prems by auto
qed auto

lemma find_loop_same_domain:
  "\<exists>d. list_all (\<lambda>g. domain_type g = d) (find_loop is_valid domain_type gs [] k)"
proof (induction gs)
  case (Cons g gs)
  then show ?case using find_loop_domains[of "[g]" domain_type "domain_type g" is_valid gs] by auto
qed simp

lemma signal_domain_of_found:
  "ii \<in> set (find_signal_iogroup gs name) \<Longrightarrow> signal_domain_type gs name = Inr (io_signal_domain_type ii name)"
  using find_loop_same_domain[of "\<lambda>g. io_signal_domain_type g name" "\<lambda>g. io_is_valid_signal g name" "rev gs" "- 1"]
  by (cases "find_signal_iogroup gs name")
     (auto simp: signal_domain_type_def first_iogroup_def find_signal_iogroup_def list_all_iff)

lemma control_domain_of_found:
  "ii \<in> set (find_control_iogroup gs name) \<Longrightarrow> control_domain_type gs name = Inr (io_control_domain_type ii name)"
  using find_loop_same_domain[of "\<lambda>g. io_control_domain_type g name" "\<lambda>g. io_is_valid_control g name" "rev gs" "- 1"]
  by (cases "find_control_iogroup gs name")
     (auto simp: control_domain_type_def first_iogroup_def find_control_iogroup_def list_all_iff)

text \<open>
  \<^verbatim>\<open>push_signal()\<close> with \<^verbatim>\<open>push_signal_convert_domain()\<close> in its place. The recursion ends
  because the second call is at the native domain of the signal.
\<close>

function push_signal_rec ::
  "'w iogroup list \<Rightarrow> topo \<Rightarrow> string \<Rightarrow> int \<Rightarrow> int \<Rightarrow> ('w pio, int) action" where
  "push_signal_rec iogroups topo signal_name domain_type dom_idx =
     bind (lift (check_domain topo domain_type dom_idx)) (\<lambda>_.
     bind (gets (\<lambda>s. m_existing_signal s (signal_name, domain_type, dom_idx))) (\<lambda>sig_tup_it.
     bind (case sig_tup_it of Some result \<Rightarrow> ret result | None \<Rightarrow> ret (- 1)) (\<lambda>existing.
     bind (if existing \<noteq> - 1 then ret existing
           else
             bind (gets (\<lambda>s. m_is_signal_active s \<or> m_is_control_active s)) (\<lambda>is_active.
             bind (guard (\<not> is_active) invalid) (\<lambda>_.
               first_result (\<lambda>ii.
                 if domain_type = io_signal_domain_type ii signal_name
                 then push_signal_native ii signal_name domain_type dom_idx
                 else
                   bind (case signal_domain_type iogroups signal_name of
                           Inl e \<Rightarrow> throw e
                         | Inr base_domain_type \<Rightarrow>
                             if is_nested_domain base_domain_type domain_type then
                               bind (lift (domain_nested topo base_domain_type domain_type dom_idx)) (\<lambda>base_dom_idx.
                               bind (map_action (\<lambda>it. push_signal_rec iogroups topo signal_name base_domain_type it) base_dom_idx)
                                 (\<lambda>signal_idx. push_combined_signal iogroups signal_name signal_idx))
                             else ret (- 1))
                     (\<lambda>result.
                       bind (modify (\<lambda>s. s\<lparr>m_existing_signal :=
                               (m_existing_signal s)((signal_name, domain_type, dom_idx) \<mapsto> result)\<rparr>))
                         (\<lambda>_. ret result)))
                 (find_signal_iogroup iogroups signal_name)))) (\<lambda>result.
       if result = - 1 then throw invalid else ret result))))"
  by pat_completeness auto
termination
  by (relation "measure (\<lambda>(gs, topo, name, dom, idx). if signal_domain_type gs name = Inr dom then 0 else 1)")
     (auto dest: signal_domain_of_found)

declare push_signal_rec.simps [simp del]

definition push_signal :: "string \<Rightarrow> int \<Rightarrow> int \<Rightarrow> ('w pio, int) action" where
  "push_signal signal_name domain_type dom_idx s =
     push_signal_rec (m_iogroup_list s) (m_platform_topo s) signal_name domain_type dom_idx s"

section \<open>Pushing controls\<close>

definition push_combined_control :: "'w iogroup list \<Rightarrow> string \<Rightarrow> int list \<Rightarrow> ('w pio, int) action" where
  "push_combined_control iogroups control_name sub_control_idx =
     bind (gets (\<lambda>s. int (length (m_active_control s)))) (\<lambda>result.
     bind (if sub_control_idx \<noteq> [] then
             bind (lift (is_control_adjust_same iogroups control_name)) (\<lambda>same.
               ret (if \<not> same then ddiv (Fin 1) (d_of_int (int (length sub_control_idx))) else Fin 1))
           else ret (Fin 1)) (\<lambda>factor.
     bind (modify (\<lambda>s. s\<lparr>m_combined_control := (m_combined_control s)(result \<mapsto> (sub_control_idx, factor)),
                        m_active_control := m_active_control s @ [(None, result)]\<rparr>)) (\<lambda>_.
       ret result)))"

definition push_control_native :: "'w iogroup \<Rightarrow> string \<Rightarrow> int \<Rightarrow> int \<Rightarrow> ('w pio, int) action" where
  "push_control_native ii control_name domain_type dom_idx =
     bind (try_catch
             (bind (io (io_read_signal ii control_name domain_type dom_idx)) (\<lambda>val.
              bind (io (io_write_control ii control_name domain_type dom_idx val)) (\<lambda>_. ret True)))
             (\<lambda>err_value. ret (err_value = GEOPM_ERROR_NOT_IMPLEMENTED)))
       (\<lambda>do_push_control.
          if do_push_control then
            bind (io (io_push_control ii control_name domain_type dom_idx)) (\<lambda>group_control_idx.
            bind (gets (\<lambda>s. int (length (m_active_control s)))) (\<lambda>result.
            bind (modify (\<lambda>s. s\<lparr>
                    m_existing_control := (m_existing_control s)((control_name, domain_type, dom_idx) \<mapsto> result),
                    m_active_control := m_active_control s @ [(Some ii, group_control_idx)]\<rparr>)) (\<lambda>_.
              ret result)))
          else ret (- 1))"

function push_control_rec ::
  "'w iogroup list \<Rightarrow> topo \<Rightarrow> string \<Rightarrow> int \<Rightarrow> int \<Rightarrow> ('w pio, int) action" where
  "push_control_rec iogroups topo control_name domain_type dom_idx =
     bind (lift (check_domain topo domain_type dom_idx)) (\<lambda>_.
     bind (gets (\<lambda>s. m_existing_control s (control_name, domain_type, dom_idx))) (\<lambda>ctl_tup_it.
     bind (case ctl_tup_it of Some result \<Rightarrow> ret result | None \<Rightarrow> ret (- 1)) (\<lambda>existing.
     bind (if existing \<noteq> - 1 then ret existing
           else
             bind (gets (\<lambda>s. m_is_signal_active s \<or> m_is_control_active s)) (\<lambda>is_active.
             bind (guard (\<not> is_active) invalid) (\<lambda>_.
               first_result (\<lambda>ii.
                 if io_control_domain_type ii control_name = domain_type
                 then push_control_native ii control_name domain_type dom_idx
                 else
                   bind (case control_domain_type iogroups control_name of
                           Inl e \<Rightarrow> throw e
                         | Inr base_domain_type \<Rightarrow>
                             if is_nested_domain base_domain_type domain_type then
                               bind (lift (domain_nested topo base_domain_type domain_type dom_idx)) (\<lambda>base_dom_idx.
                               bind (map_action (\<lambda>it. push_control_rec iogroups topo control_name base_domain_type it) base_dom_idx)
                                 (\<lambda>control_idx. push_combined_control iogroups control_name control_idx))
                             else ret (- 1))
                     (\<lambda>result.
                       bind (modify (\<lambda>s. s\<lparr>m_existing_control :=
                               (m_existing_control s)((control_name, domain_type, dom_idx) \<mapsto> result)\<rparr>))
                         (\<lambda>_. ret result)))
                 (find_control_iogroup iogroups control_name)))) (\<lambda>result.
       if result = - 1 then throw invalid else ret result))))"
  by pat_completeness auto
termination
  by (relation "measure (\<lambda>(gs, topo, name, dom, idx). if control_domain_type gs name = Inr dom then 0 else 1)")
     (auto dest: control_domain_of_found)

declare push_control_rec.simps [simp del]

definition push_control :: "string \<Rightarrow> int \<Rightarrow> int \<Rightarrow> ('w pio, int) action" where
  "push_control control_name domain_type dom_idx s =
     push_control_rec (m_iogroup_list s) (m_platform_topo s) control_name domain_type dom_idx s"

section \<open>Batch operation\<close>

definition num_signal_pushed :: "'w pio \<Rightarrow> int" where
  "num_signal_pushed s = int (length (m_active_signal s))"

definition num_control_pushed :: "'w pio \<Rightarrow> int" where
  "num_control_pushed s = int (length (m_active_control s))"

text \<open>
  \<^verbatim>\<open>sample()\<close> with \<^verbatim>\<open>sample_combined()\<close> in its place. The recursion of the C++ code is not
  bounded by itself; the first argument bounds its depth, and running out of it is undefined
  behaviour (the stack overflows). That the depth used by \<open>sample\<close> is always enough is proved
  below.
\<close>

fun sample_rec :: "(double \<Rightarrow> double) \<Rightarrow> nat \<Rightarrow> int \<Rightarrow> ('w pio, double) action" where
  "sample_rec sq 0 signal_idx = throw Undefined_behavior"
| "sample_rec sq (Suc depth) signal_idx =
     bind (gets num_signal_pushed) (\<lambda>n.
     bind (guard (\<not> (signal_idx < 0 \<or> signal_idx \<ge> n)) invalid) (\<lambda>_.
     bind (gets m_is_signal_active) (\<lambda>is_active.
     bind (guard is_active runtime) (\<lambda>_.
     bind (gets (\<lambda>s. m_active_signal s ! nat signal_idx)) (\<lambda>(group, idx).
       case group of
         Some g \<Rightarrow> io (io_sample g idx)
       | None \<Rightarrow>
           bind (gets (\<lambda>s. m_combined_signal s idx)) (\<lambda>op_obj_pair.
             case op_obj_pair of
               None \<Rightarrow> throw Std_out_of_range
             | Some (operand_idx, signal) \<Rightarrow>
                 bind (map_action (sample_rec sq depth) operand_idx) (\<lambda>operands.
                   lift (agg_eval sq signal operands))))))))"

definition sample :: "(double \<Rightarrow> double) \<Rightarrow> int \<Rightarrow> ('w pio, double) action" where
  "sample sq signal_idx s = sample_rec sq (Suc (length (m_active_signal s))) signal_idx s"

fun adjust_rec :: "nat \<Rightarrow> int \<Rightarrow> double \<Rightarrow> ('w pio, unit) action" where
  "adjust_rec 0 control_idx setting = throw Undefined_behavior"
| "adjust_rec (Suc depth) control_idx setting =
     bind (gets num_control_pushed) (\<lambda>n.
     bind (guard (\<not> (control_idx < 0 \<or> control_idx \<ge> n)) invalid) (\<lambda>_.
     bind (guard (\<not> isnan setting) invalid) (\<lambda>_.
     bind (gets (\<lambda>s. m_active_control s ! nat control_idx)) (\<lambda>(group, idx).
     bind (case group of
             Some g \<Rightarrow> io (io_adjust g idx setting)
           | None \<Rightarrow>
               bind (gets (\<lambda>s. m_combined_control s control_idx)) (\<lambda>op_obj_pair.
                 case op_obj_pair of
                   None \<Rightarrow> throw Std_out_of_range
                 | Some (operand_idx, factor) \<Rightarrow>
                     for_each (\<lambda>op. adjust_rec depth op (dmul factor setting)) operand_idx)) (\<lambda>_.
       modify (\<lambda>s. s\<lparr>m_is_control_active := True\<rparr>))))))"

definition adjust :: "int \<Rightarrow> double \<Rightarrow> ('w pio, unit) action" where
  "adjust control_idx setting s = adjust_rec (Suc (length (m_active_control s))) control_idx setting s"

definition read_batch :: "('w pio, unit) action" where
  "read_batch =
     bind (gets m_iogroup_list) (\<lambda>iogroups.
     bind (for_each (\<lambda>it. io (io_read_batch it)) iogroups) (\<lambda>_.
       modify (\<lambda>s. s\<lparr>m_is_signal_active := True\<rparr>)))"

definition write_batch :: "('w pio, unit) action" where
  "write_batch = bind (gets m_iogroup_list) (\<lambda>iogroups. for_each (\<lambda>it. io (io_write_batch it)) iogroups)"

section \<open>Direct reads and writes\<close>

text \<open>The loop over IOGroups until one succeeds; \<open>None\<close> when all of them threw.\<close>

fun first_success :: "('a \<Rightarrow> ('s, 'b option) action) \<Rightarrow> 'a list \<Rightarrow> ('s, 'b option) action" where
  "first_success f [] = ret None"
| "first_success f (x # xs) =
     bind (f x) (\<lambda>result. case result of Some v \<Rightarrow> ret (Some v) | None \<Rightarrow> first_success f xs)"

lemma first_success_cong [fundef_cong]:
  "xs = ys \<Longrightarrow> (\<And>x. x \<in> set ys \<Longrightarrow> f x = g x) \<Longrightarrow> first_success f xs = first_success g ys"
  by (induction xs arbitrary: ys) (auto cong: option.case_cong)

function read_signal_rec ::
  "(double \<Rightarrow> double) \<Rightarrow> 'w iogroup list \<Rightarrow> topo \<Rightarrow> string \<Rightarrow> int \<Rightarrow> int \<Rightarrow> ('w pio, double) action" where
  "read_signal_rec sq iogroups topo signal_name domain_type dom_idx =
     bind (lift (check_domain topo domain_type dom_idx)) (\<lambda>_.
     bind (guard (find_signal_iogroup iogroups signal_name \<noteq> []) invalid) (\<lambda>_.
     bind (first_success (\<lambda>ii.
             if io_signal_domain_type ii signal_name \<noteq> domain_type then
               (case signal_domain_type iogroups signal_name of
                  Inl e \<Rightarrow> throw e
                | Inr base_domain_type \<Rightarrow>
                    if is_nested_domain base_domain_type domain_type then
                      bind (lift (domain_nested topo base_domain_type domain_type dom_idx)) (\<lambda>base_dom_idx.
                      bind (map_action (\<lambda>idx. read_signal_rec sq iogroups topo signal_name base_domain_type idx) base_dom_idx) (\<lambda>values.
                      bind (lift (agg_function iogroups signal_name)) (\<lambda>f.
                      bind (lift (agg_eval sq f values)) (\<lambda>v. ret (Some v)))))
                    else throw invalid)
             else
               try_catch
                 (bind (io (io_read_signal ii signal_name domain_type dom_idx)) (\<lambda>v. ret (Some v)))
                 (\<lambda>_. ret None))
             (find_signal_iogroup iogroups signal_name)) (\<lambda>result.
       case result of Some v \<Rightarrow> ret v | None \<Rightarrow> throw invalid)))"
  by pat_completeness auto
termination
  by (relation "measure (\<lambda>(sq, gs, topo, name, dom, idx). if signal_domain_type gs name = Inr dom then 0 else 1)")
     (auto dest: signal_domain_of_found)

declare read_signal_rec.simps [simp del]

definition read_signal :: "(double \<Rightarrow> double) \<Rightarrow> string \<Rightarrow> int \<Rightarrow> int \<Rightarrow> ('w pio, double) action" where
  "read_signal sq signal_name domain_type dom_idx s =
     read_signal_rec sq (m_iogroup_list s) (m_platform_topo s) signal_name domain_type dom_idx s"

function write_control_rec ::
  "'w iogroup list \<Rightarrow> topo \<Rightarrow> string \<Rightarrow> int \<Rightarrow> int \<Rightarrow> double \<Rightarrow> ('w pio, unit) action" where
  "write_control_rec iogroups topo control_name domain_type dom_idx setting =
     bind (lift (check_domain topo domain_type dom_idx)) (\<lambda>_.
     bind (guard (find_control_iogroup iogroups control_name \<noteq> []) invalid) (\<lambda>_.
     bind (first_success (\<lambda>ii.
             if io_control_domain_type ii control_name \<noteq> domain_type then
               (case control_domain_type iogroups control_name of
                  Inl e \<Rightarrow> throw e
                | Inr base_domain_type \<Rightarrow>
                    if is_nested_domain base_domain_type domain_type then
                      bind (lift (domain_nested topo base_domain_type domain_type dom_idx)) (\<lambda>base_dom_idx.
                      bind (if base_dom_idx \<noteq> [] then
                              bind (lift (is_control_adjust_same iogroups control_name)) (\<lambda>same.
                                ret (if \<not> same then ddiv setting (d_of_int (int (length base_dom_idx))) else setting))
                            else ret setting) (\<lambda>setting.
                      bind (for_each (\<lambda>idx. write_control_rec iogroups topo control_name base_domain_type idx setting) base_dom_idx)
                        (\<lambda>_. ret (Some ()))))
                    else throw invalid)
             else
               try_catch
                 (bind (io (io_write_control ii control_name domain_type dom_idx setting)) (\<lambda>_. ret (Some ())))
                 (\<lambda>_. ret None))
             (find_control_iogroup iogroups control_name)) (\<lambda>result.
       case result of Some _ \<Rightarrow> ret () | None \<Rightarrow> throw invalid)))"
  by pat_completeness auto
termination
  by (relation "measure (\<lambda>(gs, topo, name, dom, idx, setting). if control_domain_type gs name = Inr dom then 0 else 1)")
     (auto dest: control_domain_of_found)

declare write_control_rec.simps [simp del]

definition write_control :: "string \<Rightarrow> int \<Rightarrow> int \<Rightarrow> double \<Rightarrow> ('w pio, unit) action" where
  "write_control control_name domain_type dom_idx setting s =
     write_control_rec (m_iogroup_list s) (m_platform_topo s) control_name domain_type dom_idx setting s"

section \<open>Saving and restoring controls\<close>

definition save_control :: "('w pio, unit) action" where
  "save_control =
     bind (modify (\<lambda>s. s\<lparr>m_do_restore := True\<rparr>)) (\<lambda>_.
     bind (gets m_iogroup_list) (\<lambda>iogroups. for_each (\<lambda>it. io (io_save_control it)) iogroups))"

definition restore_control :: "('w pio, unit) action" where
  "restore_control =
     bind (gets m_do_restore) (\<lambda>do_restore.
     bind (guard do_restore invalid) (\<lambda>_.
     bind (gets m_iogroup_list) (\<lambda>iogroups. for_each (\<lambda>it. io (io_restore_control it)) (rev iogroups))))"

definition save_path :: "string \<Rightarrow> 'w iogroup \<Rightarrow> string" where
  "save_path save_dir it = save_dir @ ''/'' @ io_name it @ ''-save-control.json''"

definition save_control_dir :: "string \<Rightarrow> ('w pio, unit) action" where
  "save_control_dir save_dir =
     bind (gets m_iogroup_list) (\<lambda>iogroups.
       for_each (\<lambda>it. io (io_save_control_path it (save_path save_dir it))) iogroups)"

text \<open>Every group is tried; an error is reported at the end when one of them failed.\<close>

definition restore_control_dir :: "string \<Rightarrow> ('w pio, unit) action" where
  "restore_control_dir save_dir =
     bind (gets m_iogroup_list) (\<lambda>iogroups.
     bind (map_action (\<lambda>it.
             try_catch (bind (io (io_restore_control_path it (save_path save_dir it))) (\<lambda>_. ret True))
               (\<lambda>_. ret False)) iogroups) (\<lambda>oks.
       guard (list_all id oks) runtime))"

section \<open>C interface\<close>

text \<open>A wrapper that returns a status, and one that also stores the result through a pointer.\<close>

definition c_status :: "int \<Rightarrow> ('s, 'a) action \<Rightarrow> ('s, int) action" where
  "c_status errno m s =
     (case m s of (Inr _, t) \<Rightarrow> (Inr 0, t) | (Inl e, t) \<Rightarrow> (c_api errno (Inl e), t))"

definition c_value :: "int \<Rightarrow> ('s, int) action \<Rightarrow> ('s, int) action" where
  "c_value errno m s = (case m s of (r, t) \<Rightarrow> (c_api errno r, t))"

definition c_pointer :: "int \<Rightarrow> ('s, 'a) action \<Rightarrow> 'a \<Rightarrow> ('s, int \<times> 'a) action" where
  "c_pointer errno m old s =
     (case m s of
        (Inr v, t) \<Rightarrow> (Inr (0, v), t)
      | (Inl e, t) \<Rightarrow> (and_then (c_api errno (Inl e)) (\<lambda>err. Inr (err, old)), t))"

definition geopm_pio_read_signal ::
  "(double \<Rightarrow> double) \<Rightarrow> int \<Rightarrow> string \<Rightarrow> int \<Rightarrow> int \<Rightarrow> double \<Rightarrow> ('w pio, int \<times> double) action" where
  "geopm_pio_read_signal sq errno signal_name domain_type dom_idx result =
     c_pointer errno (read_signal sq signal_name domain_type dom_idx) result"

definition geopm_pio_sample :: "(double \<Rightarrow> double) \<Rightarrow> int \<Rightarrow> int \<Rightarrow> double \<Rightarrow> ('w pio, int \<times> double) action" where
  "geopm_pio_sample sq errno signal_idx result = c_pointer errno (sample sq signal_idx) result"

definition geopm_pio_signal_domain_type :: "int \<Rightarrow> string \<Rightarrow> ('w pio, int) action" where
  "geopm_pio_signal_domain_type errno signal_name =
     c_value errno (bind (gets m_iogroup_list) (\<lambda>iogroups. lift (signal_domain_type iogroups signal_name)))"

definition geopm_pio_control_domain_type :: "int \<Rightarrow> string \<Rightarrow> ('w pio, int) action" where
  "geopm_pio_control_domain_type errno control_name =
     c_value errno (bind (gets m_iogroup_list) (\<lambda>iogroups. lift (control_domain_type iogroups control_name)))"

definition geopm_pio_push_signal :: "int \<Rightarrow> string \<Rightarrow> int \<Rightarrow> int \<Rightarrow> ('w pio, int) action" where
  "geopm_pio_push_signal errno signal_name domain_type dom_idx =
     c_value errno (push_signal signal_name domain_type dom_idx)"

definition geopm_pio_push_control :: "int \<Rightarrow> string \<Rightarrow> int \<Rightarrow> int \<Rightarrow> ('w pio, int) action" where
  "geopm_pio_push_control errno control_name domain_type dom_idx =
     c_value errno (push_control control_name domain_type dom_idx)"

definition geopm_pio_adjust :: "int \<Rightarrow> int \<Rightarrow> double \<Rightarrow> ('w pio, int) action" where
  "geopm_pio_adjust errno control_idx setting = c_status errno (adjust control_idx setting)"

definition geopm_pio_read_batch :: "int \<Rightarrow> ('w pio, int) action" where
  "geopm_pio_read_batch errno = c_status errno read_batch"

definition geopm_pio_write_batch :: "int \<Rightarrow> ('w pio, int) action" where
  "geopm_pio_write_batch errno = c_status errno write_batch"

definition geopm_pio_write_control :: "int \<Rightarrow> string \<Rightarrow> int \<Rightarrow> int \<Rightarrow> double \<Rightarrow> ('w pio, int) action" where
  "geopm_pio_write_control errno control_name domain_type dom_idx setting =
     c_status errno (write_control control_name domain_type dom_idx setting)"

definition geopm_pio_save_control :: "int \<Rightarrow> ('w pio, int) action" where
  "geopm_pio_save_control errno = c_status errno save_control"

definition geopm_pio_restore_control :: "int \<Rightarrow> ('w pio, int) action" where
  "geopm_pio_restore_control errno = c_status errno restore_control"

text \<open>\<^verbatim>\<open>geopm_pio_name_set_idx()\<close>: the name with a given position in the ordered set of names.\<close>

definition geopm_pio_name_set_idx :: "int \<Rightarrow> nat \<Rightarrow> string list \<Rightarrow> string \<Rightarrow> int \<times> string" where
  "geopm_pio_name_set_idx name_idx result_max name_set result =
     (if name_idx < 0 \<or> name_idx \<ge> int (length name_set) \<or> result_max = 0 then (GEOPM_ERROR_INVALID, result)
      else let last = result_max - 1;
               result = strncpy (result[last := CHR 0x00]) (name_set ! nat name_idx) result_max
           in if result ! last \<noteq> CHR 0x00 then (GEOPM_ERROR_INVALID, result[last := CHR 0x00])
              else (0, result))"

section \<open>Invariant\<close>

text \<open>
  Indices handed out are positions in the vectors of active requests, and the operands of a
  combined entry are earlier positions: the combined entries form no cycle.
\<close>

definition index_inv ::
  "('g option \<times> int) list \<Rightarrow> (request \<rightharpoonup> int) \<Rightarrow> (int \<rightharpoonup> (int list \<times> 'f)) \<Rightarrow> bool" where
  "index_inv active existing combined \<longleftrightarrow>
     (\<forall>k v. existing k = Some v \<longrightarrow> v = - 1 \<or> 0 \<le> v \<and> v < int (length active)) \<and>
     (\<forall>i < length active. fst (active ! i) = None \<longrightarrow> snd (active ! i) = int i \<and>
        (\<exists>ops f. combined (int i) = Some (ops, f) \<and> (\<forall>x \<in> set ops. 0 \<le> x \<and> x < int i)))"

definition pio_inv :: "'w pio \<Rightarrow> bool" where
  "pio_inv s \<longleftrightarrow>
     index_inv (m_active_signal s) (m_existing_signal s) (m_combined_signal s) \<and>
     index_inv (m_active_control s) (m_existing_control s) (m_combined_control s)"

lemma index_inv_native:
  "index_inv a e c \<Longrightarrow> index_inv (a @ [(Some g, k)]) (e(r \<mapsto> int (length a))) c"
  by (force simp: index_inv_def nth_append less_Suc_eq)

lemma index_inv_combined:
  "index_inv a e c \<Longrightarrow> \<forall>x \<in> set ops. 0 \<le> x \<and> x < int (length a) \<Longrightarrow>
   index_inv (a @ [(None, int (length a))]) e (c(int (length a) \<mapsto> (ops, f)))"
  by (force simp: index_inv_def nth_append less_Suc_eq)

lemma index_inv_existing:
  "index_inv a e c \<Longrightarrow> v = - 1 \<or> 0 \<le> v \<and> v < int (length a) \<Longrightarrow> index_inv a (e(r \<mapsto> v)) c"
  by (auto simp: index_inv_def)

lemma index_inv_lookup: "index_inv a e c \<Longrightarrow> e k = Some v \<Longrightarrow> v = - 1 \<or> 0 \<le> v \<and> v < int (length a)"
  unfolding index_inv_def by blast

subsection \<open>Pushing only appends\<close>

text \<open>How the state evolves during a push: earlier entries, the configuration and the flags stay.\<close>

definition pio_grows :: "'w pio \<Rightarrow> 'w pio \<Rightarrow> bool" where
  "pio_grows s t \<longleftrightarrow>
     (pio_inv s \<longrightarrow> pio_inv t) \<and>
     (\<exists>xs. m_active_signal t = m_active_signal s @ xs) \<and>
     (\<exists>xs. m_active_control t = m_active_control s @ xs) \<and>
     (\<forall>i < int (length (m_active_signal s)). m_combined_signal t i = m_combined_signal s i) \<and>
     (\<forall>i < int (length (m_active_control s)). m_combined_control t i = m_combined_control s i) \<and>
     m_iogroup_list t = m_iogroup_list s \<and> m_platform_topo t = m_platform_topo s \<and>
     m_is_signal_active t = m_is_signal_active s \<and> m_is_control_active t = m_is_control_active s \<and>
     m_do_restore t = m_do_restore s"

lemma pio_grows_refl [simp]: "pio_grows s s"
  by (simp add: pio_grows_def)

lemma pio_grows_trans: "pio_grows x y \<Longrightarrow> pio_grows y z \<Longrightarrow> pio_grows x z"
proof -
  assume xy: "pio_grows x y" and yz: "pio_grows y z"
  then have "length (m_active_signal x) \<le> length (m_active_signal y)"
    "length (m_active_control x) \<le> length (m_active_control y)" by (auto simp: pio_grows_def)
  with xy yz show "pio_grows x z" by (auto simp: pio_grows_def)
qed

lemma pio_grows_inv: "pio_grows s t \<Longrightarrow> pio_inv s \<Longrightarrow> pio_inv t"
  by (simp add: pio_grows_def)

lemma pio_grows_preorder: "preorder_on_states pio_grows"
  by (auto simp: preorder_on_states_def intro: reflpI transpI pio_grows_trans)

lemma pio_grows_world [simp]: "pio_grows s (s\<lparr>m_world := w\<rparr>)"
  by (simp add: pio_grows_def pio_inv_def)

lemma evolves_io [evolves_intros]: "(\<And>s w. R s (s\<lparr>m_world := w\<rparr>)) \<Longrightarrow> evolves R (io m)"
  by (auto simp: evolves_def io_def split: prod.splits)

text \<open>An action of a push: the state grows and the index it returns is -1 or in range.\<close>

definition push_ok :: "('w pio \<Rightarrow> int) \<Rightarrow> ('w pio, int) action \<Rightarrow> bool" where
  "push_ok num m \<longleftrightarrow> (\<forall>s r t. m s = (r, t) \<longrightarrow> pio_grows s t \<and>
     (\<forall>i. r = Inr i \<longrightarrow> pio_inv s \<longrightarrow> i = - 1 \<or> 0 \<le> i \<and> i < num t))"

lemma push_okD:
  "push_ok num m \<Longrightarrow> m s = (r, t) \<Longrightarrow> pio_grows s t"
  "push_ok num m \<Longrightarrow> m s = (Inr i, t) \<Longrightarrow> pio_inv s \<Longrightarrow> i = - 1 \<or> 0 \<le> i \<and> i < num t"
  by (auto simp: push_ok_def)

lemma push_ok_evolves: "push_ok num m \<Longrightarrow> evolves pio_grows m"
  by (auto simp: push_ok_def evolves_def)

lemma push_ok_none: "push_ok num (ret (- 1))" "push_ok num (throw e)"
  by (auto simp: push_ok_def act_simps)

lemma push_ok_bind: "evolves pio_grows m \<Longrightarrow> (\<And>x. push_ok num (f x)) \<Longrightarrow> push_ok num (bind m f)"
  unfolding push_ok_def evolves_def bind_cases
  by (metis (no_types, opaque_lifting) Inl_Inr_False pio_grows_inv pio_grows_trans)

lemma push_ok_if: "(b \<Longrightarrow> push_ok num m) \<Longrightarrow> (\<not> b \<Longrightarrow> push_ok num n) \<Longrightarrow> push_ok num (if b then m else n)"
  by simp

lemma num_pushed_grows:
  "pio_grows s t \<Longrightarrow> num_signal_pushed s \<le> num_signal_pushed t"
  "pio_grows s t \<Longrightarrow> num_control_pushed s \<le> num_control_pushed t"
  by (auto simp: pio_grows_def num_signal_pushed_def num_control_pushed_def)

lemma push_ok_first_result:
  "(\<And>x. x \<in> set xs \<Longrightarrow> push_ok num (f x)) \<Longrightarrow> push_ok num (first_result f xs)"
proof (induction xs)
  case (Cons x xs)
  have fx: "push_ok num (f x)" and rest: "push_ok num (first_result f xs)" using Cons by auto
  show ?case
    unfolding push_ok_def
  proof (intro allI impI conjI)
    fix s r t assume run: "first_result f (x # xs) s = (r, t)"
    then consider e where "f x s = (Inl e, t)" "r = Inl e" | i u where "f x s = (Inr i, u)" "i \<noteq> - 1" "r = Inr i" "t = u"
      | u where "f x s = (Inr (- 1), u)" "first_result f xs u = (r, t)"
      by (auto simp: bind_cases act_simps split: if_splits)
    then show "pio_grows s t"
      by cases (auto dest!: push_okD(1)[OF fx] push_okD(1)[OF rest] intro: pio_grows_trans)
    fix i assume i: "r = Inr i" "pio_inv s"
    with run consider "f x s = (Inr i, t)" | u where "f x s = (Inr (- 1), u)" "first_result f xs u = (Inr i, t)"
      by (auto simp: bind_cases act_simps split: if_splits)
    then show "i = - 1 \<or> 0 \<le> i \<and> i < num t"
    proof cases
      case 1
      then show ?thesis using push_okD(2)[OF fx _ i(2)] by simp
    next
      case 2
      then show ?thesis using push_okD(2)[OF rest 2(2)] pio_grows_inv[OF push_okD(1)[OF fx 2(1)] i(2)] by simp
    qed
  qed
qed (simp add: push_ok_none)

lemma map_action_indices:
  assumes "\<And>x. x \<in> set xs \<Longrightarrow> push_ok num (f x)" "\<And>x s i t. x \<in> set xs \<Longrightarrow> f x s = (Inr i, t) \<Longrightarrow> i \<noteq> - 1"
    and "\<And>s t. pio_grows s t \<Longrightarrow> num s \<le> num t" "map_action f xs s = (Inr is, t)" "pio_inv s"
  shows "\<forall>i \<in> set is. 0 \<le> i \<and> i < num t"
  using assms(1,2,4,5)
proof (induction xs arbitrary: "is" s t)
  case (Cons x xs)
  then obtain i u js where run: "f x s = (Inr i, u)" "map_action f xs u = (Inr js, t)" "is = i # js"
    by (auto simp: bind_cases act_simps)
  have fx: "push_ok num (f x)" using Cons.prems by simp
  have inv: "pio_inv u" using push_okD(1)[OF fx run(1)] Cons.prems(4) by (rule pio_grows_inv)
  have "evolves pio_grows (map_action f xs)"
    using Cons.prems(1) by (auto intro!: evolves_map_action[OF pio_grows_preorder] push_ok_evolves)
  then have "num u \<le> num t" using run(2) assms(3) by (auto dest: evolvesD)
  moreover have "0 \<le> i \<and> i < num u" using push_okD(2)[OF fx run(1) Cons.prems(4)] Cons.prems(2)[OF _ run(1)] by simp
  moreover have "\<forall>i \<in> set js. 0 \<le> i \<and> i < num t"
  proof (rule Cons.IH[OF _ _ run(2) inv])
    show "push_ok num (f y)" if "y \<in> set xs" for y using Cons.prems(1) that by simp
    show "i \<noteq> - 1" if "y \<in> set xs" "f y s = (Inr i, t)" for y s i t using Cons.prems(2)[of y] that by auto
  qed
  ultimately show ?case using run(3) by auto
qed auto

subsection \<open>Pushing signals and controls\<close>

lemma evolves_check_native:
  "evolves pio_grows (try_catch
     (bind (gets m_pushed_signal_names) (\<lambda>names.
        if n \<notin> set names then bind (io m) (\<lambda>_. ret True) else ret True)) h)"
  if "\<And>e. evolves pio_grows (h e)"
  using that by (intro evolves_intros pio_grows_preorder) auto

lemma push_signal_native_ok: "push_ok num_signal_pushed (push_signal_native ii name dm idx)"
  unfolding push_signal_native_def
proof (rule push_ok_bind)
  show "evolves pio_grows (try_catch
             (bind (gets m_pushed_signal_names) (\<lambda>names.
                if name \<notin> set names
                then bind (io (io_read_signal ii name dm idx)) (\<lambda>_. ret True)
                else ret True))
             (\<lambda>err_value. ret (err_value = GEOPM_ERROR_NOT_IMPLEMENTED)))"
    by (intro evolves_check_native evolves_pure pio_grows_preorder)
  fix do_push
  have "push_ok num_signal_pushed
      (bind (gets (\<lambda>s. int (length (m_active_signal s)))) (\<lambda>result.
       bind (modify (\<lambda>s. s\<lparr>
               m_existing_signal := (m_existing_signal s)((name, dm, idx) \<mapsto> result),
               m_active_signal := m_active_signal s @ [(Some ii, k)],
               m_pushed_signal_names := List.insert name (m_pushed_signal_names s)\<rparr>)) (\<lambda>_.
         ret result)))" for k
    by (auto simp: push_ok_def act_simps pio_grows_def pio_inv_def num_signal_pushed_def index_inv_native)
  then show "push_ok num_signal_pushed (if do_push then
            bind (io (io_push_signal ii name dm idx)) (\<lambda>group_signal_idx.
            bind (gets (\<lambda>s. int (length (m_active_signal s)))) (\<lambda>result.
            bind (modify (\<lambda>s. s\<lparr>
                    m_existing_signal := (m_existing_signal s)((name, dm, idx) \<mapsto> result),
                    m_active_signal := m_active_signal s @ [(Some ii, group_signal_idx)],
                    m_pushed_signal_names := List.insert name (m_pushed_signal_names s)\<rparr>)) (\<lambda>_.
              ret result)))
          else ret (- 1))"
    by (intro push_ok_if push_ok_bind[OF evolves_io] push_ok_none) auto
qed

lemma push_control_native_ok: "push_ok num_control_pushed (push_control_native ii name dm idx)"
  unfolding push_control_native_def
proof (rule push_ok_bind)
  show "evolves pio_grows (try_catch
             (bind (io (io_read_signal ii name dm idx)) (\<lambda>val.
              bind (io (io_write_control ii name dm idx val)) (\<lambda>_. ret True)))
             (\<lambda>err_value. ret (err_value = GEOPM_ERROR_NOT_IMPLEMENTED)))"
    by (intro evolves_intros pio_grows_preorder) auto
  fix do_push
  have "push_ok num_control_pushed
      (bind (gets (\<lambda>s. int (length (m_active_control s)))) (\<lambda>result.
       bind (modify (\<lambda>s. s\<lparr>
               m_existing_control := (m_existing_control s)((name, dm, idx) \<mapsto> result),
               m_active_control := m_active_control s @ [(Some ii, k)]\<rparr>)) (\<lambda>_.
         ret result)))" for k
    by (auto simp: push_ok_def act_simps pio_grows_def pio_inv_def num_control_pushed_def index_inv_native)
  then show "push_ok num_control_pushed (if do_push then
            bind (io (io_push_control ii name dm idx)) (\<lambda>group_control_idx.
            bind (gets (\<lambda>s. int (length (m_active_control s)))) (\<lambda>result.
            bind (modify (\<lambda>s. s\<lparr>
                    m_existing_control := (m_existing_control s)((name, dm, idx) \<mapsto> result),
                    m_active_control := m_active_control s @ [(Some ii, group_control_idx)]\<rparr>)) (\<lambda>_.
              ret result)))
          else ret (- 1))"
    by (intro push_ok_if push_ok_bind[OF evolves_io] push_ok_none) auto
qed

lemma push_combined_signal_step:
  assumes "push_combined_signal gs name ops s = (r, t)" "pio_inv s \<Longrightarrow> \<forall>x \<in> set ops. 0 \<le> x \<and> x < num_signal_pushed s"
  shows "pio_grows s t" "r = Inr i \<Longrightarrow> i = num_signal_pushed s \<and> num_signal_pushed t = i + 1 \<and>
    (\<exists>f. agg_function gs name = Inr f \<and> m_combined_signal t i = Some (ops, f)) \<and> m_active_signal t ! nat i = (None, i)"
  using assms
  by (auto simp: push_combined_signal_def act_simps pio_grows_def pio_inv_def num_signal_pushed_def index_inv_combined
      split: sum.splits)

lemma push_combined_control_step:
  assumes "push_combined_control gs name ops s = (r, t)" "pio_inv s \<Longrightarrow> \<forall>x \<in> set ops. 0 \<le> x \<and> x < num_control_pushed s"
  shows "pio_grows s t" "r = Inr i \<Longrightarrow> i = num_control_pushed s \<and> num_control_pushed t = i + 1"
  using assms
  by (auto simp: push_combined_control_def act_simps bind_cases pio_grows_def pio_inv_def num_control_pushed_def
      index_inv_combined split: sum.splits if_splits)

text \<open>The two functions of the source that the recursion merges, recovered from it.\<close>

definition push_signal_convert_domain ::
  "'w iogroup list \<Rightarrow> topo \<Rightarrow> string \<Rightarrow> int \<Rightarrow> int \<Rightarrow> ('w pio, int) action" where
  "push_signal_convert_domain gs topo name dm idx =
     (case signal_domain_type gs name of
        Inl e \<Rightarrow> throw e
      | Inr base \<Rightarrow>
          if is_nested_domain base dm then
            bind (lift (domain_nested topo base dm idx)) (\<lambda>nested.
            bind (map_action (\<lambda>it. push_signal_rec gs topo name base it) nested)
              (\<lambda>signal_idx. push_combined_signal gs name signal_idx))
          else ret (- 1))"

definition push_signal_group ::
  "'w iogroup list \<Rightarrow> topo \<Rightarrow> string \<Rightarrow> int \<Rightarrow> int \<Rightarrow> 'w iogroup \<Rightarrow> ('w pio, int) action" where
  "push_signal_group gs topo name dm idx ii =
     (if dm = io_signal_domain_type ii name then push_signal_native ii name dm idx
      else bind (push_signal_convert_domain gs topo name dm idx) (\<lambda>result.
             bind (modify (\<lambda>s. s\<lparr>m_existing_signal := (m_existing_signal s)((name, dm, idx) \<mapsto> result)\<rparr>))
               (\<lambda>_. ret result)))"

lemma push_signal_rec_unfold:
  "push_signal_rec gs topo name dm idx =
     bind (lift (check_domain topo dm idx)) (\<lambda>_.
     bind (gets (\<lambda>s. m_existing_signal s (name, dm, idx))) (\<lambda>it.
     bind (case it of Some result \<Rightarrow> ret result | None \<Rightarrow> ret (- 1)) (\<lambda>existing.
     bind (if existing \<noteq> - 1 then ret existing
           else bind (gets (\<lambda>s. m_is_signal_active s \<or> m_is_control_active s)) (\<lambda>is_active.
                bind (guard (\<not> is_active) invalid) (\<lambda>_.
                  first_result (push_signal_group gs topo name dm idx) (find_signal_iogroup gs name))))
       (\<lambda>result. if result = - 1 then throw invalid else ret result))))"
  by (subst push_signal_rec.simps)
     (simp only: push_signal_group_def[abs_def] push_signal_convert_domain_def)

definition push_control_convert_domain ::
  "'w iogroup list \<Rightarrow> topo \<Rightarrow> string \<Rightarrow> int \<Rightarrow> int \<Rightarrow> ('w pio, int) action" where
  "push_control_convert_domain gs topo name dm idx =
     (case control_domain_type gs name of
        Inl e \<Rightarrow> throw e
      | Inr base \<Rightarrow>
          if is_nested_domain base dm then
            bind (lift (domain_nested topo base dm idx)) (\<lambda>nested.
            bind (map_action (\<lambda>it. push_control_rec gs topo name base it) nested)
              (\<lambda>control_idx. push_combined_control gs name control_idx))
          else ret (- 1))"

definition push_control_group ::
  "'w iogroup list \<Rightarrow> topo \<Rightarrow> string \<Rightarrow> int \<Rightarrow> int \<Rightarrow> 'w iogroup \<Rightarrow> ('w pio, int) action" where
  "push_control_group gs topo name dm idx ii =
     (if io_control_domain_type ii name = dm then push_control_native ii name dm idx
      else bind (push_control_convert_domain gs topo name dm idx) (\<lambda>result.
             bind (modify (\<lambda>s. s\<lparr>m_existing_control := (m_existing_control s)((name, dm, idx) \<mapsto> result)\<rparr>))
               (\<lambda>_. ret result)))"

lemma push_control_rec_unfold:
  "push_control_rec gs topo name dm idx =
     bind (lift (check_domain topo dm idx)) (\<lambda>_.
     bind (gets (\<lambda>s. m_existing_control s (name, dm, idx))) (\<lambda>it.
     bind (case it of Some result \<Rightarrow> ret result | None \<Rightarrow> ret (- 1)) (\<lambda>existing.
     bind (if existing \<noteq> - 1 then ret existing
           else bind (gets (\<lambda>s. m_is_signal_active s \<or> m_is_control_active s)) (\<lambda>is_active.
                bind (guard (\<not> is_active) invalid) (\<lambda>_.
                  first_result (push_control_group gs topo name dm idx) (find_control_iogroup gs name))))
       (\<lambda>result. if result = - 1 then throw invalid else ret result))))"
  by (subst push_control_rec.simps)
     (simp only: push_control_group_def[abs_def] push_control_convert_domain_def)

lemma push_signal_rec_cases:
  "push_signal_rec gs topo name dm idx s = (r, t) \<longleftrightarrow>
     (\<exists>e. check_domain topo dm idx = Inl e \<and> r = Inl e \<and> t = s) \<or>
     check_domain topo dm idx = Inr () \<and>
       ((\<exists>i. m_existing_signal s (name, dm, idx) = Some i \<and> i \<noteq> - 1 \<and> r = Inr i \<and> t = s) \<or>
        (m_existing_signal s (name, dm, idx) = None \<or> m_existing_signal s (name, dm, idx) = Some (- 1)) \<and>
          (if m_is_signal_active s \<or> m_is_control_active s then r = Inl invalid \<and> t = s
           else \<exists>r'. first_result (push_signal_group gs topo name dm idx) (find_signal_iogroup gs name) s = (r', t) \<and>
                  r = (if r' = Inr (- 1) then Inl invalid else r')))"
  unfolding push_signal_rec_unfold
  by (cases "m_existing_signal s (name, dm, idx)"; cases "check_domain topo dm idx"; cases r)
     (auto simp: act_simps bind_cases split: if_splits)

lemma push_control_rec_cases:
  "push_control_rec gs topo name dm idx s = (r, t) \<longleftrightarrow>
     (\<exists>e. check_domain topo dm idx = Inl e \<and> r = Inl e \<and> t = s) \<or>
     check_domain topo dm idx = Inr () \<and>
       ((\<exists>i. m_existing_control s (name, dm, idx) = Some i \<and> i \<noteq> - 1 \<and> r = Inr i \<and> t = s) \<or>
        (m_existing_control s (name, dm, idx) = None \<or> m_existing_control s (name, dm, idx) = Some (- 1)) \<and>
          (if m_is_signal_active s \<or> m_is_control_active s then r = Inl invalid \<and> t = s
           else \<exists>r'. first_result (push_control_group gs topo name dm idx) (find_control_iogroup gs name) s = (r', t) \<and>
                  r = (if r' = Inr (- 1) then Inl invalid else r')))"
  unfolding push_control_rec_unfold
  by (cases "m_existing_control s (name, dm, idx)"; cases "check_domain topo dm idx"; cases r)
     (auto simp: act_simps bind_cases split: if_splits)

lemma push_signal_not_none: "push_signal_rec gs topo name dm idx s = (Inr i, t) \<Longrightarrow> i \<noteq> - 1"
  unfolding push_signal_rec_cases by (auto split: if_splits)

lemma push_control_not_none: "push_control_rec gs topo name dm idx s = (Inr i, t) \<Longrightarrow> i \<noteq> - 1"
  unfolding push_control_rec_cases by (auto split: if_splits)

lemma push_signal_rec_ok_groups:
  assumes "\<And>ii. ii \<in> set (find_signal_iogroup gs name) \<Longrightarrow> push_ok num_signal_pushed (push_signal_group gs topo name dm idx ii)"
  shows "push_ok num_signal_pushed (push_signal_rec gs topo name dm idx)"
  unfolding push_ok_def
proof (intro allI impI conjI)
  have ok: "push_ok num_signal_pushed (first_result (push_signal_group gs topo name dm idx) (find_signal_iogroup gs name))"
    by (rule push_ok_first_result) (rule assms)
  fix s r t assume run: "push_signal_rec gs topo name dm idx s = (r, t)"
  then show "pio_grows s t"
    unfolding push_signal_rec_cases by (auto split: if_splits dest: push_okD(1)[OF ok])
  fix i assume "r = Inr i" "pio_inv s"
  with run show "i = - 1 \<or> 0 \<le> i \<and> i < num_signal_pushed t"
    unfolding push_signal_rec_cases
    by (auto split: if_splits dest: push_okD(2)[OF ok] simp: num_signal_pushed_def pio_inv_def dest: index_inv_lookup)
qed

lemma push_control_rec_ok_groups:
  assumes "\<And>ii. ii \<in> set (find_control_iogroup gs name) \<Longrightarrow> push_ok num_control_pushed (push_control_group gs topo name dm idx ii)"
  shows "push_ok num_control_pushed (push_control_rec gs topo name dm idx)"
  unfolding push_ok_def
proof (intro allI impI conjI)
  have ok: "push_ok num_control_pushed (first_result (push_control_group gs topo name dm idx) (find_control_iogroup gs name))"
    by (rule push_ok_first_result) (rule assms)
  fix s r t assume run: "push_control_rec gs topo name dm idx s = (r, t)"
  then show "pio_grows s t"
    unfolding push_control_rec_cases by (auto split: if_splits dest: push_okD(1)[OF ok])
  fix i assume "r = Inr i" "pio_inv s"
  with run show "i = - 1 \<or> 0 \<le> i \<and> i < num_control_pushed t"
    unfolding push_control_rec_cases
    by (auto split: if_splits dest: push_okD(2)[OF ok] simp: num_control_pushed_def pio_inv_def dest: index_inv_lookup)
qed

lemma push_signal_base_ok:
  assumes "signal_domain_type gs name = Inr dm"
  shows "push_ok num_signal_pushed (push_signal_rec gs topo name dm idx)"
proof (rule push_signal_rec_ok_groups)
  fix ii assume "ii \<in> set (find_signal_iogroup gs name)"
  then have "dm = io_signal_domain_type ii name" using signal_domain_of_found[of ii gs name] assms by simp
  then show "push_ok num_signal_pushed (push_signal_group gs topo name dm idx ii)"
    by (simp add: push_signal_group_def push_signal_native_ok)
qed

lemma push_control_base_ok:
  assumes "control_domain_type gs name = Inr dm"
  shows "push_ok num_control_pushed (push_control_rec gs topo name dm idx)"
proof (rule push_control_rec_ok_groups)
  fix ii assume "ii \<in> set (find_control_iogroup gs name)"
  then have "io_control_domain_type ii name = dm" using control_domain_of_found[of ii gs name] assms by simp
  then show "push_ok num_control_pushed (push_control_group gs topo name dm idx ii)"
    by (simp add: push_control_group_def push_control_native_ok)
qed

lemma push_signal_convert_cases:
  assumes "push_signal_convert_domain gs topo name dm idx s = (r, t)"
  shows "(r = Inr (- 1) \<or> (\<exists>e. r = Inl e)) \<and> pio_grows s t \<or>
    (\<exists>base nested ops u i. signal_domain_type gs name = Inr base \<and> is_nested_domain base dm \<and>
       domain_nested topo base dm idx = Inr nested \<and>
       map_action (\<lambda>it. push_signal_rec gs topo name base it) nested s = (Inr ops, u) \<and>
       push_combined_signal gs name ops u = (Inr i, t) \<and> r = Inr i \<and> pio_grows s u \<and>
       (pio_inv s \<longrightarrow> (\<forall>x \<in> set ops. 0 \<le> x \<and> x < num_signal_pushed u)))"
proof (cases "\<exists>base. signal_domain_type gs name = Inr base \<and> is_nested_domain base dm")
  case False
  show ?thesis
  proof (cases "signal_domain_type gs name")
    case (Inl e)
    then have "r = Inl e" "t = s" using assms by (simp_all add: push_signal_convert_domain_def act_simps)
    then show ?thesis by simp
  next
    case (Inr base)
    then have "r = Inr (- 1)" "t = s" using assms False by (simp_all add: push_signal_convert_domain_def act_simps)
    then show ?thesis by simp
  qed
next
  case True
  then obtain base where base: "signal_domain_type gs name = Inr base" "is_nested_domain base dm" by blast
  let ?push = "\<lambda>it. push_signal_rec gs topo name base it"
  have grow: "evolves pio_grows (map_action ?push ns)" for ns
    by (intro evolves_map_action pio_grows_preorder push_ok_evolves[OF push_signal_base_ok[OF base(1)]])
  show ?thesis
  proof (cases "domain_nested topo base dm idx")
    case (Inl e)
    then have "r = Inl e" "t = s" using assms base by (simp_all add: push_signal_convert_domain_def act_simps)
    then show ?thesis by simp
  next
    case (Inr nested)
    obtain r' u where map: "map_action ?push nested s = (r', u)" by (cases "map_action ?push nested s")
    have su: "pio_grows s u" using evolvesD[OF grow map] .
    show ?thesis
    proof (cases r')
      case (Inl e)
      then show ?thesis using assms base Inr map su by (auto simp: push_signal_convert_domain_def act_simps bind_Inl)
    next
      case (Inr ops)
      with map have map': "map_action ?push nested s = (Inr ops, u)" by simp
      have idx: "\<forall>x \<in> set ops. 0 \<le> x \<and> x < num_signal_pushed u" if "pio_inv s"
        by (rule map_action_indices[OF push_signal_base_ok[OF base(1)] push_signal_not_none num_pushed_grows(1) map' that])
      have run: "push_combined_signal gs name ops u = (r, t)"
        using assms base \<open>domain_nested topo base dm idx = Inr nested\<close> map'
        by (simp add: push_signal_convert_domain_def act_simps bind_Inr)
      show ?thesis
      proof (cases r)
        case (Inl e)
        have "pio_grows u t" using run Inl by (auto simp: push_combined_signal_def act_simps split: sum.splits)
        then show ?thesis using Inl pio_grows_trans[OF su] by simp
      next
        case (Inr i)
        then show ?thesis using base \<open>domain_nested topo base dm idx = Inr nested\<close> map' run su idx by blast
      qed
    qed
  qed
qed

lemma push_control_convert_cases:
  assumes "push_control_convert_domain gs topo name dm idx s = (r, t)"
  shows "(r = Inr (- 1) \<or> (\<exists>e. r = Inl e)) \<and> pio_grows s t \<or>
    (\<exists>base nested ops u i. control_domain_type gs name = Inr base \<and> is_nested_domain base dm \<and>
       domain_nested topo base dm idx = Inr nested \<and>
       map_action (\<lambda>it. push_control_rec gs topo name base it) nested s = (Inr ops, u) \<and>
       push_combined_control gs name ops u = (Inr i, t) \<and> r = Inr i \<and> pio_grows s u \<and>
       (pio_inv s \<longrightarrow> (\<forall>x \<in> set ops. 0 \<le> x \<and> x < num_control_pushed u)))"
proof (cases "\<exists>base. control_domain_type gs name = Inr base \<and> is_nested_domain base dm")
  case False
  show ?thesis
  proof (cases "control_domain_type gs name")
    case (Inl e)
    then have "r = Inl e" "t = s" using assms by (simp_all add: push_control_convert_domain_def act_simps)
    then show ?thesis by simp
  next
    case (Inr base)
    then have "r = Inr (- 1)" "t = s" using assms False by (simp_all add: push_control_convert_domain_def act_simps)
    then show ?thesis by simp
  qed
next
  case True
  then obtain base where base: "control_domain_type gs name = Inr base" "is_nested_domain base dm" by blast
  let ?push = "\<lambda>it. push_control_rec gs topo name base it"
  have grow: "evolves pio_grows (map_action ?push ns)" for ns
    by (intro evolves_map_action pio_grows_preorder push_ok_evolves[OF push_control_base_ok[OF base(1)]])
  show ?thesis
  proof (cases "domain_nested topo base dm idx")
    case (Inl e)
    then have "r = Inl e" "t = s" using assms base by (simp_all add: push_control_convert_domain_def act_simps)
    then show ?thesis by simp
  next
    case (Inr nested)
    obtain r' u where map: "map_action ?push nested s = (r', u)" by (cases "map_action ?push nested s")
    have su: "pio_grows s u" using evolvesD[OF grow map] .
    show ?thesis
    proof (cases r')
      case (Inl e)
      then show ?thesis using assms base Inr map su by (auto simp: push_control_convert_domain_def act_simps bind_Inl)
    next
      case (Inr ops)
      with map have map': "map_action ?push nested s = (Inr ops, u)" by simp
      have idx: "\<forall>x \<in> set ops. 0 \<le> x \<and> x < num_control_pushed u" if "pio_inv s"
        by (rule map_action_indices[OF push_control_base_ok[OF base(1)] push_control_not_none num_pushed_grows(2) map' that])
      have run: "push_combined_control gs name ops u = (r, t)"
        using assms base \<open>domain_nested topo base dm idx = Inr nested\<close> map'
        by (simp add: push_control_convert_domain_def act_simps bind_Inr)
      show ?thesis
      proof (cases r)
        case (Inl e)
        have "pio_grows u t" using run Inl by (auto simp: push_combined_control_def act_simps bind_cases split: sum.splits if_splits)
        then show ?thesis using Inl pio_grows_trans[OF su] by simp
      next
        case (Inr i)
        then show ?thesis using base \<open>domain_nested topo base dm idx = Inr nested\<close> map' run su idx by blast
      qed
    qed
  qed
qed

lemma grows_existing_signal:
  "pio_grows s t \<Longrightarrow> (pio_inv s \<Longrightarrow> v = - 1 \<or> 0 \<le> v \<and> v < num_signal_pushed t) \<Longrightarrow>
   pio_grows s (t\<lparr>m_existing_signal := (m_existing_signal t)(k \<mapsto> v)\<rparr>)"
  by (auto simp: pio_grows_def pio_inv_def num_signal_pushed_def intro: index_inv_existing)

lemma push_signal_group_ok: "push_ok num_signal_pushed (push_signal_group gs topo name dm idx ii)"
proof (cases "dm = io_signal_domain_type ii name")
  case True
  then show ?thesis by (simp add: push_signal_group_def push_signal_native_ok)
next
  case False
  show ?thesis
    unfolding push_ok_def
  proof (intro allI impI)
    fix s r t assume "push_signal_group gs topo name dm idx ii s = (r, t)"
    then obtain r' u where conv: "push_signal_convert_domain gs topo name dm idx s = (r', u)"
      and res: "r = r'" "t = (case r' of Inl e \<Rightarrow> u | Inr v \<Rightarrow> u\<lparr>m_existing_signal := (m_existing_signal u)((name, dm, idx) \<mapsto> v)\<rparr>)"
      using False by (cases "push_signal_convert_domain gs topo name dm idx s")
        (auto simp: push_signal_group_def bind_cases act_simps)
    show "pio_grows s t \<and> (\<forall>i. r = Inr i \<longrightarrow> pio_inv s \<longrightarrow> i = - 1 \<or> 0 \<le> i \<and> i < num_signal_pushed t)"
      using push_signal_convert_cases[OF conv]
    proof (elim disjE exE conjE)
      assume "r' = Inr (- 1)" "pio_grows s u"
      then show ?thesis using res grows_existing_signal[of s u "- 1" "(name, dm, idx)"] by simp
    next
      fix e assume "r' = Inl e" "pio_grows s u"
      then show ?thesis using res by simp
    next
      fix base nested ops w i
      assume comb: "push_combined_signal gs name ops w = (Inr i, u)" "r' = Inr i" "pio_grows s w"
        and idx: "pio_inv s \<longrightarrow> (\<forall>x \<in> set ops. 0 \<le> x \<and> x < num_signal_pushed w)"
      show ?thesis
      proof (cases "pio_inv s")
        case True
        note step = push_combined_signal_step[OF comb(1)]
        have "pio_grows s u" using pio_grows_trans[OF comb(3) step(1)] idx True by simp
        moreover have "0 \<le> i \<and> i < num_signal_pushed u" using step(2)[OF _ refl] idx True by (auto simp: num_signal_pushed_def)
        ultimately show ?thesis using res comb(2) grows_existing_signal[of s u i "(name, dm, idx)"]
          by (simp add: num_signal_pushed_def)
      next
        case False
        have "pio_grows (w\<lparr>m_existing_signal := Map.empty\<rparr>) (w\<lparr>m_existing_signal := Map.empty\<rparr>)" by simp
        moreover have "m_active_signal u = m_active_signal w @ [(None, i)]" "i = int (length (m_active_signal w))"
          "m_combined_signal u = (m_combined_signal w)(i \<mapsto> (ops, projr (agg_function gs name)))"
          "u = w\<lparr>m_combined_signal := m_combined_signal u, m_active_signal := m_active_signal u\<rparr>"
          using comb(1) by (auto simp: push_combined_signal_def act_simps split: sum.splits)
        ultimately show ?thesis using False res comb(2,3) by (auto simp: pio_grows_def)
      qed
    qed
  qed
qed

lemma push_signal_rec_ok: "push_ok num_signal_pushed (push_signal_rec gs topo name dm idx)"
  by (rule push_signal_rec_ok_groups) (rule push_signal_group_ok)

lemma grows_existing_control:
  "pio_grows s t \<Longrightarrow> (pio_inv s \<Longrightarrow> v = - 1 \<or> 0 \<le> v \<and> v < num_control_pushed t) \<Longrightarrow>
   pio_grows s (t\<lparr>m_existing_control := (m_existing_control t)(k \<mapsto> v)\<rparr>)"
  by (auto simp: pio_grows_def pio_inv_def num_control_pushed_def intro: index_inv_existing)

lemma push_control_group_ok: "push_ok num_control_pushed (push_control_group gs topo name dm idx ii)"
proof (cases "io_control_domain_type ii name = dm")
  case True
  then show ?thesis by (simp add: push_control_group_def push_control_native_ok)
next
  case False
  show ?thesis
    unfolding push_ok_def
  proof (intro allI impI)
    fix s r t assume "push_control_group gs topo name dm idx ii s = (r, t)"
    then obtain r' u where conv: "push_control_convert_domain gs topo name dm idx s = (r', u)"
      and res: "r = r'" "t = (case r' of Inl e \<Rightarrow> u | Inr v \<Rightarrow> u\<lparr>m_existing_control := (m_existing_control u)((name, dm, idx) \<mapsto> v)\<rparr>)"
      using False by (cases "push_control_convert_domain gs topo name dm idx s")
        (auto simp: push_control_group_def bind_cases act_simps)
    show "pio_grows s t \<and> (\<forall>i. r = Inr i \<longrightarrow> pio_inv s \<longrightarrow> i = - 1 \<or> 0 \<le> i \<and> i < num_control_pushed t)"
      using push_control_convert_cases[OF conv]
    proof (elim disjE exE conjE)
      assume "r' = Inr (- 1)" "pio_grows s u"
      then show ?thesis using res grows_existing_control[of s u "- 1" "(name, dm, idx)"] by simp
    next
      fix e assume "r' = Inl e" "pio_grows s u"
      then show ?thesis using res by simp
    next
      fix base nested ops w i
      assume comb: "push_combined_control gs name ops w = (Inr i, u)" "r' = Inr i" "pio_grows s w"
        and idx: "pio_inv s \<longrightarrow> (\<forall>x \<in> set ops. 0 \<le> x \<and> x < num_control_pushed w)"
      show ?thesis
      proof (cases "pio_inv s")
        case True
        note step = push_combined_control_step[OF comb(1)]
        have "pio_grows s u" using pio_grows_trans[OF comb(3) step(1)] idx True by simp
        moreover have "0 \<le> i \<and> i < num_control_pushed u" using step(2)[OF _ refl] idx True by (auto simp: num_control_pushed_def)
        ultimately show ?thesis using res comb(2) grows_existing_control[of s u i "(name, dm, idx)"]
          by (simp add: num_control_pushed_def)
      next
        case False
        have "pio_grows (w\<lparr>m_existing_control := Map.empty\<rparr>) (w\<lparr>m_existing_control := Map.empty\<rparr>)" by simp
        moreover have "m_active_control u = m_active_control w @ [(None, i)]" "i = int (length (m_active_control w))"
          "\<exists>f. m_combined_control u = (m_combined_control w)(i \<mapsto> (ops, f))"
          "u = w\<lparr>m_combined_control := m_combined_control u, m_active_control := m_active_control u\<rparr>"
          using comb(1) by (auto simp: push_combined_control_def act_simps bind_cases split: sum.splits if_splits)
        ultimately show ?thesis using False res comb(2,3) by (auto simp: pio_grows_def)
      qed
    qed
  qed
qed

lemma push_control_rec_ok: "push_ok num_control_pushed (push_control_rec gs topo name dm idx)"
  by (rule push_control_rec_ok_groups) (rule push_control_group_ok)

subsection \<open>Operations that only use the IOGroups\<close>

definition pio_world_only :: "'w pio \<Rightarrow> 'w pio \<Rightarrow> bool" where
  "pio_world_only s t \<longleftrightarrow> t = s\<lparr>m_world := m_world t\<rparr>"

lemma pio_world_only_preorder: "preorder_on_states pio_world_only"
  by (auto simp: preorder_on_states_def pio_world_only_def reflp_def transp_def)
     (metis pio.surjective pio.update_convs(13))

lemma evolves_io_world [evolves_intros]: "evolves pio_world_only (io m)"
  by (rule evolves_io) (simp add: pio_world_only_def)

lemma evolves_case_option [evolves_intros]:
  "(x = None \<Longrightarrow> evolves R m) \<Longrightarrow> (\<And>y. x = Some y \<Longrightarrow> evolves R (f y)) \<Longrightarrow>
   evolves R (case x of None \<Rightarrow> m | Some y \<Rightarrow> f y)"
  by (cases x) auto

lemma evolves_case_prod [evolves_intros]:
  "(\<And>a b. x = (a, b) \<Longrightarrow> evolves R (f a b)) \<Longrightarrow> evolves R (case x of (a, b) \<Rightarrow> f a b)"
  by (cases x) auto

lemma evolves_case_sum [evolves_intros]:
  "(\<And>a. x = Inl a \<Longrightarrow> evolves R (f a)) \<Longrightarrow> (\<And>b. x = Inr b \<Longrightarrow> evolves R (g b)) \<Longrightarrow>
   evolves R (case x of Inl a \<Rightarrow> f a | Inr b \<Rightarrow> g b)"
  by (cases x) auto

lemma evolves_first_success [evolves_intros]:
  assumes "preorder_on_states R" "\<And>x. x \<in> set xs \<Longrightarrow> evolves R (f x)"
  shows "evolves R (first_success f xs)"
  using assms(2) by (induction xs) (auto intro!: evolves_pure evolves_bind evolves_case_option assms(1))

lemma sample_rec_world: "evolves pio_world_only (sample_rec sq n i)"
proof (induction n arbitrary: i)
  case (Suc n)
  show ?case by (auto intro!: evolves_intros pio_world_only_preorder Suc)
qed (auto intro!: evolves_pure pio_world_only_preorder)

lemma read_signal_rec_world: "evolves pio_world_only (read_signal_rec sq gs topo name dm idx)"
proof (induction sq gs topo name dm idx rule: read_signal_rec.induct)
  case (1 sq gs topo name dm idx)
  show ?case
    by (subst read_signal_rec.simps) (auto intro!: evolves_intros pio_world_only_preorder 1)
qed

lemma write_control_rec_world: "evolves pio_world_only (write_control_rec gs topo name dm idx x)"
proof (induction gs topo name dm idx x rule: write_control_rec.induct)
  case (1 gs topo name dm idx x)
  show ?case
    by (subst write_control_rec.simps) (auto intro!: evolves_intros pio_world_only_preorder 1)
qed

definition pio_world_active :: "'w pio \<Rightarrow> 'w pio \<Rightarrow> bool" where
  "pio_world_active s t \<longleftrightarrow> t = s\<lparr>m_world := m_world t, m_is_control_active := m_is_control_active t\<rparr>"

lemma pio_world_active_preorder: "preorder_on_states pio_world_active"
  unfolding preorder_on_states_def
proof
  show "reflp pio_world_active" by (auto simp: reflp_def pio_world_active_def)
  show "transp pio_world_active"
    by (rule transpI) (unfold pio_world_active_def, metis (no_types, lifting) pio.surjective pio.update_convs(2,13))
qed

lemma adjust_rec_world: "evolves pio_world_active (adjust_rec n i x)"
proof (induction n arbitrary: i x)
  case (Suc n)
  have io: "evolves pio_world_active (io m)" for m :: "('a, unit) action"
    by (rule evolves_io) (simp add: pio_world_active_def)
  have act: "evolves pio_world_active (modify (\<lambda>s. s\<lparr>m_is_control_active := True\<rparr>))"
    by (rule evolves_modify) (simp add: pio_world_active_def)
  show ?case
    by (auto intro!: io act evolves_bind evolves_pure evolves_for_each evolves_case_option
        evolves_case_prod pio_world_active_preorder Suc)
qed (auto intro!: evolves_pure pio_world_active_preorder)

section \<open>Reachable states\<close>

datatype 'w pio_op =
    Op_register_iogroup "'w iogroup"
  | Op_push_signal string int int
  | Op_push_control string int int
  | Op_sample int
  | Op_adjust int double
  | Op_read_batch
  | Op_write_batch
  | Op_read_signal string int int
  | Op_write_control string int int double
  | Op_save_control
  | Op_restore_control
  | Op_save_control_dir string
  | Op_restore_control_dir string

fun pio_step :: "(double \<Rightarrow> double) \<Rightarrow> 'w pio_op \<Rightarrow> 'w pio \<Rightarrow> 'w pio" where
  "pio_step sq (Op_register_iogroup g) s = snd (register_iogroup g s)"
| "pio_step sq (Op_push_signal name dm idx) s = snd (push_signal name dm idx s)"
| "pio_step sq (Op_push_control name dm idx) s = snd (push_control name dm idx s)"
| "pio_step sq (Op_sample i) s = snd (sample sq i s)"
| "pio_step sq (Op_adjust i x) s = snd (adjust i x s)"
| "pio_step sq Op_read_batch s = snd (read_batch s)"
| "pio_step sq Op_write_batch s = snd (write_batch s)"
| "pio_step sq (Op_read_signal name dm idx) s = snd (read_signal sq name dm idx s)"
| "pio_step sq (Op_write_control name dm idx x) s = snd (write_control name dm idx x s)"
| "pio_step sq Op_save_control s = snd (save_control s)"
| "pio_step sq Op_restore_control s = snd (restore_control s)"
| "pio_step sq (Op_save_control_dir d) s = snd (save_control_dir d s)"
| "pio_step sq (Op_restore_control_dir d) s = snd (restore_control_dir d s)"

text \<open>Whatever a client calls, in whatever order, and whether the calls throw or not.\<close>

inductive pio_reachable :: "(double \<Rightarrow> double) \<Rightarrow> 'w pio \<Rightarrow> bool" for sq where
  init: "pio_reachable sq (make_pio gs topo w)"
| step: "pio_reachable sq s \<Longrightarrow> pio_reachable sq (pio_step sq op s)"

lemma pio_inv_make: "pio_inv (make_pio gs topo w)"
  by (simp add: pio_inv_def make_pio_def index_inv_def)

lemma pio_inv_world_only: "pio_world_only s t \<Longrightarrow> pio_inv s \<Longrightarrow> pio_inv t"
  unfolding pio_world_only_def by (erule ssubst) (simp add: pio_inv_def)

lemma keeps_of_evolves: "evolves R m \<Longrightarrow> (\<And>s t. R s t \<Longrightarrow> P s \<Longrightarrow> P t) \<Longrightarrow> keeps P m"
  unfolding keeps_def evolves_def by blast

lemma sample_rec_keeps: "keeps pio_inv (sample_rec sq n i)"
  and read_signal_rec_keeps: "keeps pio_inv (read_signal_rec sq gs topo name dm idx)"
  and write_control_rec_keeps: "keeps pio_inv (write_control_rec gs topo name dm idx x)"
  by (rule keeps_of_evolves[OF sample_rec_world pio_inv_world_only] keeps_of_evolves[OF read_signal_rec_world pio_inv_world_only]
      keeps_of_evolves[OF write_control_rec_world pio_inv_world_only]; assumption)+

lemma adjust_rec_keeps: "keeps pio_inv (adjust_rec n i x)"
  by (rule keeps_of_evolves[OF adjust_rec_world]) (unfold pio_world_active_def, erule ssubst, simp add: pio_inv_def)

lemma index_inv_combinedD:
  "index_inv a e c \<Longrightarrow> i < length a \<Longrightarrow> a ! i = (None, j) \<Longrightarrow>
   \<exists>ops f. j = int i \<and> c (int i) = Some (ops, f) \<and> (\<forall>x \<in> set ops. 0 \<le> x \<and> x < int i)"
  unfolding index_inv_def by (metis fst_conv snd_conv)

declare sample_rec.simps(2) [simp del] adjust_rec.simps(2) [simp del]

lemma keeps_io [keeps_intros]: "keeps pio_inv (io m)"
  by (rule keeps_of_evolves[OF evolves_io_world pio_inv_world_only])

lemma keeps_flags [keeps_intros]:
  "keeps pio_inv (modify (\<lambda>s. s\<lparr>m_is_signal_active := b\<rparr>))"
  "keeps pio_inv (modify (\<lambda>s. s\<lparr>m_do_restore := b\<rparr>))"
  "keeps pio_inv (modify (\<lambda>s. s\<lparr>m_iogroup_list := f s\<rparr>))"
  by (auto intro!: keeps_modify simp: pio_inv_def)

lemma pio_step_inv: "pio_inv s \<Longrightarrow> pio_inv (pio_step sq op s)"
proof (cases op)
  case (Op_push_signal name dm idx)
  then show "pio_inv s \<Longrightarrow> ?thesis"
    using pio_grows_inv[OF push_okD(1)[OF push_signal_rec_ok]] by (metis pio_step.simps(2) prod.collapse push_signal_def)
next
  case (Op_push_control name dm idx)
  then show "pio_inv s \<Longrightarrow> ?thesis"
    using pio_grows_inv[OF push_okD(1)[OF push_control_rec_ok]] by (metis pio_step.simps(3) prod.collapse push_control_def)
next
  case (Op_sample i)
  then show "pio_inv s \<Longrightarrow> ?thesis"
    using keeps_snd[OF sample_rec_keeps] by (simp add: sample_def)
next
  case (Op_adjust i x)
  then show "pio_inv s \<Longrightarrow> ?thesis" using keeps_snd[OF adjust_rec_keeps] by (simp add: adjust_def)
next
  case (Op_read_signal name dm idx)
  then show "pio_inv s \<Longrightarrow> ?thesis"
    using keeps_snd[OF read_signal_rec_keeps] by (simp add: read_signal_def)
next
  case (Op_write_control name dm idx x)
  then show "pio_inv s \<Longrightarrow> ?thesis"
    using keeps_snd[OF write_control_rec_keeps] by (simp add: write_control_def)
qed (simp, rule keeps_snd[where P = pio_inv, rotated], assumption,
     unfold register_iogroup_def read_batch_def write_batch_def save_control_def restore_control_def
       save_control_dir_def restore_control_dir_def, intro keeps_intros)+

lemma pio_reachable_inv: "pio_reachable sq s \<Longrightarrow> pio_inv s"
  by (induction rule: pio_reachable.induct) (auto simp: pio_inv_make pio_step_inv)

section \<open>The recursion of sample and adjust\<close>

lemma map_action_state_cong:
  assumes "\<And>x s. x \<in> set xs \<Longrightarrow> P s \<Longrightarrow> f x s = g x s" "\<And>x. x \<in> set xs \<Longrightarrow> keeps P (f x)" "P s"
  shows "map_action f xs s = map_action g xs s"
  using assms
proof (induction xs arbitrary: s)
  case (Cons x xs)
  have fx: "f x s = g x s" using Cons.prems by simp
  show ?case
  proof (cases "g x s")
    case (Pair r t)
    then have "P t" using keepsD[OF Cons.prems(2)] Cons.prems(3) fx by (metis list.set_intros(1))
    then have "map_action f xs t = map_action g xs t" using Cons by simp
    then show ?thesis using Pair fx by (cases r) (simp_all add: bind_def)
  qed
qed simp

lemma for_each_state_cong:
  assumes "\<And>x s. x \<in> set xs \<Longrightarrow> P s \<Longrightarrow> f x s = g x s" "\<And>x. x \<in> set xs \<Longrightarrow> keeps P (f x)" "P s"
  shows "for_each f xs s = for_each g xs s"
  using assms
proof (induction xs arbitrary: s)
  case (Cons x xs)
  have fx: "f x s = g x s" using Cons.prems by simp
  show ?case
  proof (cases "g x s")
    case (Pair r t)
    then have "P t" using keepsD[OF Cons.prems(2)] Cons.prems(3) fx by (metis list.set_intros(1))
    then have "for_each f xs t = for_each g xs t" using Cons by simp
    then show ?thesis using Pair fx by (cases r) (simp_all add: bind_def)
  qed
qed simp

lemma sample_rec_depth:
  fixes s :: "'w pio"
  shows "pio_inv s \<Longrightarrow> nat i < n \<Longrightarrow> nat i < k \<Longrightarrow> sample_rec sq n i s = sample_rec sq k i s"
proof (induction "nat i" arbitrary: i n k s rule: less_induct)
  case less
  then obtain n' k' where nk: "n = Suc n'" "k = Suc k'" by (metis less_nat_zero_code not0_implies_Suc)
  show ?case
  proof (cases "0 \<le> i \<and> i < num_signal_pushed s \<and> m_is_signal_active s")
    case False
    then show ?thesis by (auto simp: nk act_simps sample_rec.simps(2))
  next
    case True
    obtain g j where gj: "m_active_signal s ! nat i = (g, j)" by (cases "m_active_signal s ! nat i")
    show ?thesis
    proof (cases g)
      case (Some x)
      then show ?thesis using True gj by (simp add: nk act_simps sample_rec.simps(2))
    next
      case None
      have "nat i < length (m_active_signal s)" using True by (simp add: num_signal_pushed_def nat_less_iff)
      then obtain ops f where ops: "j = i" "m_combined_signal s i = Some (ops, f)" "\<forall>x \<in> set ops. 0 \<le> x \<and> x < i"
        using less.prems(1) index_inv_combinedD[of "m_active_signal s" "m_existing_signal s" "m_combined_signal s" "nat i" j]
          gj None True by (auto simp: pio_inv_def)
      have "map_action (sample_rec sq n') ops s = map_action (sample_rec sq k') ops s"
      proof (rule map_action_state_cong[where P = pio_inv])
        show "sample_rec sq n' x u = sample_rec sq k' x u" if "x \<in> set ops" "pio_inv u" for x and u :: "'w pio"
          using less.hyps[of x u n' k'] ops(3) that less.prems nk True by fastforce
      qed (rule sample_rec_keeps less.prems)+
      then show ?thesis using True gj None ops by (simp add: nk act_simps bind_def sample_rec.simps(2))
    qed
  qed
qed

lemma adjust_rec_depth:
  fixes s :: "'w pio"
  shows "pio_inv s \<Longrightarrow> nat i < n \<Longrightarrow> nat i < k \<Longrightarrow> adjust_rec n i v s = adjust_rec k i v s"
proof (induction "nat i" arbitrary: i n k s v rule: less_induct)
  case less
  then obtain n' k' where nk: "n = Suc n'" "k = Suc k'" by (metis less_nat_zero_code not0_implies_Suc)
  show ?case
  proof (cases "0 \<le> i \<and> i < num_control_pushed s \<and> \<not> isnan v")
    case False
    then show ?thesis by (auto simp: nk act_simps adjust_rec.simps(2))
  next
    case True
    obtain g j where gj: "m_active_control s ! nat i = (g, j)" by (cases "m_active_control s ! nat i")
    show ?thesis
    proof (cases g)
      case (Some x)
      then show ?thesis using True gj by (simp add: nk act_simps adjust_rec.simps(2))
    next
      case None
      have "nat i < length (m_active_control s)" using True by (simp add: num_control_pushed_def nat_less_iff)
      then obtain ops f where ops: "m_combined_control s i = Some (ops, f)" "\<forall>x \<in> set ops. 0 \<le> x \<and> x < i"
        using less.prems(1) index_inv_combinedD[of "m_active_control s" "m_existing_control s" "m_combined_control s" "nat i" j]
          gj None True by (auto simp: pio_inv_def)
      have "for_each (\<lambda>op. adjust_rec n' op (dmul f v)) ops s = for_each (\<lambda>op. adjust_rec k' op (dmul f v)) ops s"
      proof (rule for_each_state_cong[where P = pio_inv])
        show "adjust_rec n' x (dmul f v) u = adjust_rec k' x (dmul f v) u" if "x \<in> set ops" "pio_inv u" for x and u :: "'w pio"
          using less.hyps[of x u n' k'] ops(2) that less.prems nk True by fastforce
      qed (rule adjust_rec_keeps less.prems)+
      then show ?thesis using True gj None ops by (simp add: nk act_simps bind_def adjust_rec.simps(2))
    qed
  qed
qed

section \<open>What a push records\<close>

lemma io_cases: "io m s = (r, t) \<longleftrightarrow> (\<exists>w. m (m_world s) = (r, w) \<and> t = s\<lparr>m_world := w\<rparr>)"
  by (auto simp: io_def split: prod.splits)

lemma push_signal_native_existing:
  assumes "push_signal_native ii name dm idx s = (r, t)"
  shows "(\<exists>i. r = Inr i \<and> i \<noteq> - 1 \<and> m_existing_signal t = (m_existing_signal s)((name, dm, idx) \<mapsto> i)) \<or>
         m_existing_signal t = m_existing_signal s \<and> (r = Inr (- 1) \<or> (\<exists>e. r = Inl e))"
  using assms
  by (auto simp: push_signal_native_def bind_cases try_catch_cases act_simps io_cases split: if_splits)

lemma first_result_native_existing:
  assumes "\<And>ii. ii \<in> set gs \<Longrightarrow> f ii = push_signal_native ii name dm idx"
    and "first_result f gs s = (Inr i, t)" "i \<noteq> - 1"
  shows "m_existing_signal t = (m_existing_signal s)((name, dm, idx) \<mapsto> i)"
  using assms
proof (induction gs arbitrary: s)
  case (Cons g gs)
  from Cons.prems(2,3) consider "f g s = (Inr i, t)" | u where "f g s = (Inr (- 1), u)" "first_result f gs u = (Inr i, t)"
    by (auto simp: bind_cases act_simps split: if_splits)
  then show ?case
  proof cases
    case 1
    then show ?thesis using push_signal_native_existing[of g name dm idx s "Inr i" t] Cons.prems by auto
  next
    case 2
    then have "m_existing_signal u = m_existing_signal s"
      using push_signal_native_existing[of g name dm idx s "Inr (- 1)" u] Cons.prems(1) by auto
    then show ?thesis using Cons.IH[of u] Cons.prems 2 by simp
  qed
qed (simp add: act_simps)

lemma push_signal_base_existing:
  assumes "signal_domain_type gs name = Inr base" "push_signal_rec gs topo name base idx s = (Inr i, t)"
  shows "m_existing_signal t (name, base, idx) = Some i \<and>
         (\<forall>k v. m_existing_signal s k = Some v \<and> v \<noteq> - 1 \<longrightarrow> m_existing_signal t k = Some v)"
proof -
  have "push_signal_group gs topo name base idx ii = push_signal_native ii name base idx"
    if "ii \<in> set (find_signal_iogroup gs name)" for ii
    using signal_domain_of_found[OF that] assms(1) by (simp add: push_signal_group_def)
  note new = first_result_native_existing[of "find_signal_iogroup gs name" "push_signal_group gs topo name base idx", OF this]
  show ?thesis
    using assms(2) new[of s i t] unfolding push_signal_rec_cases by (auto split: if_splits)
qed

lemma map_push_existing:
  assumes "signal_domain_type gs name = Inr base"
    and "map_action (\<lambda>it. push_signal_rec gs topo name base it) nested s = (Inr ops, t)"
  shows "length ops = length nested \<and> (\<forall>j < length nested. m_existing_signal t (name, base, nested ! j) = Some (ops ! j) \<and> ops ! j \<noteq> - 1) \<and>
         (\<forall>k v. m_existing_signal s k = Some v \<and> v \<noteq> - 1 \<longrightarrow> m_existing_signal t k = Some v)"
  using assms(2)
proof (induction nested arbitrary: s ops)
  case (Cons x xs)
  then obtain i u js where run: "push_signal_rec gs topo name base x s = (Inr i, u)"
      "map_action (\<lambda>it. push_signal_rec gs topo name base it) xs u = (Inr js, t)" "ops = i # js"
    by (auto simp: bind_cases act_simps)
  note hd = push_signal_base_existing[OF assms(1) run(1)] and tl = Cons.IH[OF run(2)]
  have i: "i \<noteq> - 1" by (rule push_signal_not_none[OF run(1)])
  show ?case using hd tl i by (auto simp: run(3) nth_Cons split: nat.splits)
qed simp

lemma first_result_last:
  "first_result f xs s = (Inr i, t) \<Longrightarrow> i \<noteq> - 1 \<Longrightarrow> \<exists>x \<in> set xs. \<exists>u. f x u = (Inr i, t)"
  by (induction xs arbitrary: s) (auto simp: bind_cases act_simps split: if_splits)

lemma first_result_grows:
  assumes "\<And>x. push_ok num (f x)" "first_result f xs s = (Inr i, t)" "i \<noteq> - 1"
  shows "\<exists>x \<in> set xs. \<exists>u. pio_grows s u \<and> f x u = (Inr i, t)"
  using assms(2)
proof (induction xs arbitrary: s)
  case (Cons x xs)
  from Cons.prems assms(3) consider "f x s = (Inr i, t)" | u where "f x s = (Inr (- 1), u)" "first_result f xs u = (Inr i, t)"
    by (auto simp: bind_cases act_simps split: if_splits)
  then show ?case
  proof cases
    case 1
    then show ?thesis by (intro bexI[of _ x] exI[of _ s]) auto
  next
    case 2
    then show ?thesis using Cons.IH[OF 2(2)] pio_grows_trans[OF push_okD(1)[OF assms(1) 2(1)]] by auto
  qed
qed (use assms(3) in \<open>simp add: act_simps\<close>)

lemma push_signal_records:
  assumes "push_signal_rec gs topo name dm idx s = (Inr i, t)"
  shows "m_existing_signal t (name, dm, idx) = Some i \<and> i \<noteq> - 1"
proof -
  have "i \<noteq> - 1" by (rule push_signal_not_none[OF assms])
  moreover have "m_existing_signal t (name, dm, idx) = Some i" if "push_signal_group gs topo name dm idx ii u = (Inr i, t)" for ii u
  proof (cases "dm = io_signal_domain_type ii name")
    case True
    then show ?thesis using that push_signal_native_existing[of ii name dm idx u "Inr i" t] \<open>i \<noteq> - 1\<close>
      by (auto simp: push_signal_group_def)
  next
    case False
    then show ?thesis using that by (auto simp: push_signal_group_def bind_cases act_simps)
  qed
  ultimately show ?thesis
    using assms first_result_last[of "push_signal_group gs topo name dm idx" "find_signal_iogroup gs name" s i t]
    unfolding push_signal_rec_cases by (auto split: if_splits)
qed

lemma push_control_native_existing:
  assumes "push_control_native ii name dm idx s = (Inr i, t)" "i \<noteq> - 1"
  shows "m_existing_control t (name, dm, idx) = Some i"
  using assms
  by (auto simp: push_control_native_def bind_cases try_catch_cases act_simps io_cases split: if_splits)

lemma push_control_records:
  assumes "push_control_rec gs topo name dm idx s = (Inr i, t)"
  shows "m_existing_control t (name, dm, idx) = Some i \<and> i \<noteq> - 1"
proof -
  have "i \<noteq> - 1" by (rule push_control_not_none[OF assms])
  moreover have "m_existing_control t (name, dm, idx) = Some i" if "push_control_group gs topo name dm idx ii u = (Inr i, t)" for ii u
  proof (cases "io_control_domain_type ii name = dm")
    case True
    then show ?thesis using that push_control_native_existing \<open>i \<noteq> - 1\<close> by (auto simp: push_control_group_def)
  next
    case False
    then show ?thesis using that by (auto simp: push_control_group_def bind_cases act_simps)
  qed
  ultimately show ?thesis
    using assms first_result_last[of "push_control_group gs topo name dm idx" "find_control_iogroup gs name" s i t]
    unfolding push_control_rec_cases by (auto split: if_splits)
qed

lemma push_signal_again:
  assumes "push_signal name dm idx s = (Inr i, t)"
  shows "push_signal name dm idx t = (Inr i, t)"
proof -
  have run: "push_signal_rec (m_iogroup_list s) (m_platform_topo s) name dm idx s = (Inr i, t)"
    using assms by (simp add: push_signal_def)
  have g: "pio_grows s t" by (rule push_okD(1)[OF push_signal_rec_ok run])
  have "check_domain (m_platform_topo s) dm idx = Inr ()" using run unfolding push_signal_rec_cases by auto
  then show ?thesis
    using push_signal_records[OF run] g
    unfolding push_signal_def push_signal_rec_cases by (auto simp: pio_grows_def)
qed

lemma push_control_again:
  assumes "push_control name dm idx s = (Inr i, t)"
  shows "push_control name dm idx t = (Inr i, t)"
proof -
  have run: "push_control_rec (m_iogroup_list s) (m_platform_topo s) name dm idx s = (Inr i, t)"
    using assms by (simp add: push_control_def)
  have g: "pio_grows s t" by (rule push_okD(1)[OF push_control_rec_ok run])
  have "check_domain (m_platform_topo s) dm idx = Inr ()" using run unfolding push_control_rec_cases by auto
  then show ?thesis
    using push_control_records[OF run] g
    unfolding push_control_def push_control_rec_cases by (auto simp: pio_grows_def)
qed

text \<open>A push at a coarser domain than the native one.\<close>

lemma push_signal_coarse:
  assumes "push_signal name dm idx s = (Inr k, t)" "pio_inv s"
    and "signal_domain_type (m_iogroup_list s) name = Inr base" "dm \<noteq> base" "m_existing_signal s (name, dm, idx) = None"
  shows "\<exists>nested ops f. domain_nested (m_platform_topo s) base dm idx = Inr nested \<and>
     agg_function (m_iogroup_list s) name = Inr f \<and> m_active_signal t ! nat k = (None, k) \<and>
     m_combined_signal t k = Some (ops, f) \<and> length ops = length nested \<and>
     (\<forall>j < length nested. m_existing_signal t (name, base, nested ! j) = Some (ops ! j)) \<and>
     (\<forall>x \<in> set ops. 0 \<le> x \<and> x < k) \<and> k < num_signal_pushed t"
proof -
  let ?gs = "m_iogroup_list s" and ?topo = "m_platform_topo s"
  have run: "push_signal_rec ?gs ?topo name dm idx s = (Inr k, t)" using assms(1) by (simp add: push_signal_def)
  then have "k \<noteq> - 1" by (rule push_signal_not_none)
  then have first: "first_result (push_signal_group ?gs ?topo name dm idx) (find_signal_iogroup ?gs name) s = (Inr k, t)"
    using run assms(5) unfolding push_signal_rec_cases by (auto split: if_splits)
  then obtain ii v where ii: "ii \<in> set (find_signal_iogroup ?gs name)" "pio_grows s v"
      "push_signal_group ?gs ?topo name dm idx ii v = (Inr k, t)"
    using first_result_grows[OF push_signal_group_ok first \<open>k \<noteq> - 1\<close>] by blast
  have "dm \<noteq> io_signal_domain_type ii name" using signal_domain_of_found[OF ii(1)] assms(3,4) by simp
  then obtain u where conv: "push_signal_convert_domain ?gs ?topo name dm idx v = (Inr k, u)"
      and t: "t = u\<lparr>m_existing_signal := (m_existing_signal u)((name, dm, idx) \<mapsto> k)\<rparr>"
    using ii(3) by (auto simp: push_signal_group_def bind_cases act_simps)
  from push_signal_convert_cases[OF conv] \<open>k \<noteq> - 1\<close> assms(3) obtain nested ops w where
    c: "domain_nested ?topo base dm idx = Inr nested"
       "map_action (\<lambda>it. push_signal_rec ?gs ?topo name base it) nested v = (Inr ops, w)"
       "push_combined_signal ?gs name ops w = (Inr k, u)"
       "pio_inv v \<longrightarrow> (\<forall>x \<in> set ops. 0 \<le> x \<and> x < num_signal_pushed w)" by auto
  have inv: "pio_inv v" by (rule pio_grows_inv[OF ii(2) assms(2)])
  have step: "k = num_signal_pushed w \<and> num_signal_pushed u = k + 1 \<and>
      (\<exists>f. agg_function ?gs name = Inr f \<and> m_combined_signal u k = Some (ops, f)) \<and> m_active_signal u ! nat k = (None, k)"
    by (rule push_combined_signal_step(2)[OF c(3) _ refl]) (use c(4) inv in blast)
  have same: "m_existing_signal u = m_existing_signal w"
    using c(3) by (auto simp: push_combined_signal_def act_simps split: sum.splits)
  note ex = map_push_existing[OF assms(3) c(2)]
  have "m_existing_signal t (name, base, nested ! j) = Some (ops ! j)" if "j < length nested" for j
    using ex that assms(4) by (simp add: t same)
  then show ?thesis using c(1,4) step ex inv by (auto simp: t num_signal_pushed_def)
qed

lemma push_control_coarse:
  assumes "push_control name dm idx s = (Inr k, t)" "pio_inv s"
    and "control_domain_type (m_iogroup_list s) name = Inr base" "dm \<noteq> base" "m_existing_control s (name, dm, idx) = None"
  shows "\<exists>nested ops f. domain_nested (m_platform_topo s) base dm idx = Inr nested \<and>
     m_active_control t ! nat k = (None, k) \<and> m_combined_control t k = Some (ops, f) \<and> length ops = length nested \<and>
     (nested \<noteq> [] \<longrightarrow> (\<exists>same. is_control_adjust_same (m_iogroup_list s) name = Inr same \<and>
        f = (if same then Fin 1 else ddiv (Fin 1) (d_of_int (int (length nested)))))) \<and>
     (\<forall>x \<in> set ops. 0 \<le> x \<and> x < k) \<and> k < num_control_pushed t"
proof -
  let ?gs = "m_iogroup_list s" and ?topo = "m_platform_topo s"
  have run: "push_control_rec ?gs ?topo name dm idx s = (Inr k, t)" using assms(1) by (simp add: push_control_def)
  then have "k \<noteq> - 1" by (rule push_control_not_none)
  then have first: "first_result (push_control_group ?gs ?topo name dm idx) (find_control_iogroup ?gs name) s = (Inr k, t)"
    using run assms(5) unfolding push_control_rec_cases by (auto split: if_splits)
  then obtain ii v where ii: "ii \<in> set (find_control_iogroup ?gs name)" "pio_grows s v"
      "push_control_group ?gs ?topo name dm idx ii v = (Inr k, t)"
    using first_result_grows[OF push_control_group_ok first \<open>k \<noteq> - 1\<close>] by blast
  have "io_control_domain_type ii name \<noteq> dm" using control_domain_of_found[OF ii(1)] assms(3,4) by simp
  then obtain u where conv: "push_control_convert_domain ?gs ?topo name dm idx v = (Inr k, u)"
      and t: "t = u\<lparr>m_existing_control := (m_existing_control u)((name, dm, idx) \<mapsto> k)\<rparr>"
    using ii(3) by (auto simp: push_control_group_def bind_cases act_simps)
  from push_control_convert_cases[OF conv] \<open>k \<noteq> - 1\<close> assms(3) obtain nested ops w where
    c: "domain_nested ?topo base dm idx = Inr nested"
       "map_action (\<lambda>it. push_control_rec ?gs ?topo name base it) nested v = (Inr ops, w)"
       "push_combined_control ?gs name ops w = (Inr k, u)"
       "pio_inv v \<longrightarrow> (\<forall>x \<in> set ops. 0 \<le> x \<and> x < num_control_pushed w)" by auto
  have inv: "pio_inv v" by (rule pio_grows_inv[OF ii(2) assms(2)])
  have len: "length ops = length nested" by (rule map_action_Inr_length[OF c(2)])
  have step: "k = num_control_pushed w \<and> num_control_pushed u = k + 1 \<and> m_active_control u ! nat k = (None, k) \<and>
      (\<exists>f. m_combined_control u k = Some (ops, f) \<and> (ops \<noteq> [] \<longrightarrow> (\<exists>same. is_control_adjust_same ?gs name = Inr same \<and>
        f = (if same then Fin 1 else ddiv (Fin 1) (d_of_int (int (length ops)))))))"
    using c(3) by (auto simp: push_combined_control_def act_simps bind_cases num_control_pushed_def split: if_splits sum.splits)
  then show ?thesis using c(1,4) len inv by (auto simp: t num_control_pushed_def)
qed

lemma active_world_only: "pio_world_only s t \<Longrightarrow> m_active_signal t = m_active_signal s"
  unfolding pio_world_only_def by (erule ssubst) simp

lemma config_world_only:
  "pio_world_only s t \<Longrightarrow> m_iogroup_list t = m_iogroup_list s \<and> m_platform_topo t = m_platform_topo s \<and>
   m_do_restore t = m_do_restore s"
  unfolding pio_world_only_def by (erule ssubst) simp

lemma inv_world_active:
  "pio_world_active s t \<Longrightarrow> (pio_inv t \<longleftrightarrow> pio_inv s) \<and> m_active_control t = m_active_control s"
  unfolding pio_world_active_def by (erule ssubst) (simp add: pio_inv_def)

lemma find_loop_rest:
  "result \<noteq> [] \<Longrightarrow> find_loop is_valid domain_type gs result d =
     result @ filter (\<lambda>g. domain_type g = d) (filter is_valid gs)"
  by (induction gs arbitrary: result) auto

lemma find_loop_filter:
  "find_loop is_valid domain_type gs [] k =
     (case filter is_valid gs of [] \<Rightarrow> [] | g # rest \<Rightarrow> g # filter (\<lambda>h. domain_type h = domain_type g) rest)"
  by (induction gs) (auto simp: find_loop_rest)

section \<open>Properties\<close>

text \<open>A small platform for the witnesses: one IOGroup with a per-core signal and a per-core control
  that is distributed, and a log of the values written as world.\<close>

type_synonym demo_world = "(int \<times> double) list"

definition demo_group :: "demo_world iogroup" where
  "demo_group = \<lparr>io_name = ''DEMO'', io_is_valid_signal = (\<lambda>n. n = ''S''), io_is_valid_control = (\<lambda>n. n = ''C''),
     io_signal_names = [''S''], io_control_names = [''C''],
     io_signal_domain_type = (\<lambda>_. GEOPM_DOMAIN_CORE), io_control_domain_type = (\<lambda>_. GEOPM_DOMAIN_CORE),
     io_agg_function = (\<lambda>n. Inr (if n = ''C'' then Fn_sum else Fn_max)), io_signal_behavior = (\<lambda>_. 0),
     io_push_signal = (\<lambda>_ _ i. ret i), io_push_control = (\<lambda>_ _ i. ret i),
     io_read_batch = ret (), io_write_batch = ret (),
     io_sample = (\<lambda>i. ret (d_of_int i)), io_adjust = (\<lambda>i x. modify (\<lambda>w. w @ [(i, x)])),
     io_read_signal = (\<lambda>_ _ i. ret (d_of_int i)), io_write_control = (\<lambda>_ _ i x. modify (\<lambda>w. w @ [(i, x)])),
     io_save_control = ret (), io_restore_control = ret (),
     io_save_control_path = (\<lambda>_. ret ()), io_restore_control_path = (\<lambda>_. ret ())\<rparr>"

definition demo_pio :: "demo_world pio" where
  "demo_pio = make_pio [demo_group] demo_topo []"

definition demo_pushed :: "demo_world pio" where
  "demo_pushed = snd (push_signal ''S'' GEOPM_DOMAIN_PACKAGE 1 demo_pio)"

lemma demo_group_simps [simp]:
  "io_is_valid_signal demo_group n = (n = ''S'')" "io_is_valid_control demo_group n = (n = ''C'')"
  "io_signal_domain_type demo_group n = GEOPM_DOMAIN_CORE" "io_control_domain_type demo_group n = GEOPM_DOMAIN_CORE"
  "io_agg_function demo_group n = Inr (if n = ''C'' then Fn_sum else Fn_max)"
  "io_push_signal demo_group n d i = ret i" "io_push_control demo_group n d i = ret i"
  "io_read_batch demo_group = ret ()" "io_write_batch demo_group = ret ()"
  "io_sample demo_group i = ret (d_of_int i)" "io_adjust demo_group i x = modify (\<lambda>w. w @ [(i, x)])"
  "io_read_signal demo_group n d i = ret (d_of_int i)"
  "io_write_control demo_group n d i x = modify (\<lambda>w. w @ [(i, x)])"
  "io_save_control demo_group = ret ()" "io_restore_control demo_group = ret ()"
  by (simp_all add: demo_group_def)

lemma io_simps [simp]: "io (ret x) = ret x" "io (modify f) = modify (\<lambda>s. s\<lparr>m_world := f (m_world s)\<rparr>)"
  by (auto simp: fun_eq_iff io_def act_simps)

lemma demo_find: "find_signal_iogroup [demo_group] ''S'' = [demo_group]" "find_control_iogroup [demo_group] ''C'' = [demo_group]"
  by (simp_all add: find_signal_iogroup_def find_control_iogroup_def)

lemma demo_domains: "signal_domain_type [demo_group] ''S'' = Inr GEOPM_DOMAIN_CORE"
    "control_domain_type [demo_group] ''C'' = Inr GEOPM_DOMAIN_CORE" "agg_function [demo_group] ''S'' = Inr Fn_max"
    "domain_nested demo_topo GEOPM_DOMAIN_CORE GEOPM_DOMAIN_PACKAGE 1 = Inr [2, 3]"
    "check_domain demo_topo GEOPM_DOMAIN_PACKAGE 1 = Inr ()"
    "check_domain demo_topo GEOPM_DOMAIN_CORE 2 = Inr ()" "check_domain demo_topo GEOPM_DOMAIN_CORE 3 = Inr ()"
  by (simp_all add: signal_domain_type_def control_domain_type_def agg_function_def first_iogroup_def demo_find) code_simp+

definition demo_after_push :: "int \<Rightarrow> demo_world pio \<Rightarrow> demo_world pio" where
  "demo_after_push idx s =
     s\<lparr>m_existing_signal := (m_existing_signal s)((''S'', GEOPM_DOMAIN_CORE, idx) \<mapsto> int (length (m_active_signal s))),
       m_active_signal := m_active_signal s @ [(Some demo_group, idx)],
       m_pushed_signal_names := List.insert ''S'' (m_pushed_signal_names s)\<rparr>"

lemma demo_push_core:
  assumes "\<not> m_is_signal_active s" "\<not> m_is_control_active s" "m_existing_signal s (''S'', GEOPM_DOMAIN_CORE, idx) = None"
    and "check_domain demo_topo GEOPM_DOMAIN_CORE idx = Inr ()"
  shows "push_signal_rec [demo_group] demo_topo ''S'' GEOPM_DOMAIN_CORE idx s =
         (Inr (int (length (m_active_signal s))), demo_after_push idx s)"
  using assms
  by (simp add: push_signal_rec_unfold act_simps demo_find push_signal_group_def push_signal_native_def
      bind_def try_catch_def demo_after_push_def)

lemma demo_push:
  "push_signal ''S'' GEOPM_DOMAIN_PACKAGE 1 demo_pio = (Inr 2, demo_pushed)"
  "m_iogroup_list demo_pushed = [demo_group]" "num_signal_pushed demo_pushed = 3"
proof -
  let ?s = "demo_after_push 3 (demo_after_push 2 demo_pio)"
  let ?t = "?s\<lparr>m_combined_signal := [2 \<mapsto> ([0, 1], Fn_max)], m_active_signal := m_active_signal ?s @ [(None, 2)],
      m_existing_signal := (m_existing_signal ?s)((''S'', GEOPM_DOMAIN_PACKAGE, 1) \<mapsto> 2)\<rparr>"
  have "push_signal ''S'' GEOPM_DOMAIN_PACKAGE 1 demo_pio = (Inr 2, ?t)"
    unfolding push_signal_def
    by (simp add: push_signal_rec_unfold[of _ _ _ "1 :: int"] act_simps demo_find push_signal_group_def push_signal_convert_domain_def
        demo_domains is_nested_domain_def demo_push_core bind_def push_combined_signal_def demo_pio_def make_pio_def demo_after_push_def)
  then show "push_signal ''S'' GEOPM_DOMAIN_PACKAGE 1 demo_pio = (Inr 2, demo_pushed)"
    "m_iogroup_list demo_pushed = [demo_group]" "num_signal_pushed demo_pushed = 3"
    by (simp_all add: demo_pushed_def demo_pio_def make_pio_def demo_after_push_def num_signal_pushed_def)
qed

lemma demo_read_batch: "snd (read_batch demo_pushed) = demo_pushed\<lparr>m_is_signal_active := True\<rparr>"
  by (simp add: read_batch_def act_simps demo_push(2) bind_def)

text \<open>
  C1: No runaway recursion. In every state that any sequence of calls (registering, pushing,
  sampling, adjusting, batch and direct access, saving and restoring, whether they throw or not)
  can reach, the operands of every combined signal and control are indices that were handed out
  before it, so the C++ recursion through them ends: an index that has been handed out is sampled
  and adjusted with a recursion depth of its own value, and the result is the same for every
  larger bound on the depth.
\<close>

theorem sample_adjust_terminate:
  assumes "pio_reachable sq s"
  shows "(\<forall>i n. 0 \<le> i \<and> i < num_signal_pushed s \<and> nat i < n \<longrightarrow> sample_rec sq n i s = sample sq i s) \<and>
         (\<forall>i n x. 0 \<le> i \<and> i < num_control_pushed s \<and> nat i < n \<longrightarrow> adjust_rec n i x s = adjust i x s) \<and>
         (\<forall>i < length (m_active_signal s). fst (m_active_signal s ! i) = None \<longrightarrow>
            (\<exists>ops f. m_combined_signal s (int i) = Some (ops, f) \<and> (\<forall>x \<in> set ops. 0 \<le> x \<and> x < int i))) \<and>
         (\<forall>i < length (m_active_control s). fst (m_active_control s ! i) = None \<longrightarrow>
            (\<exists>ops c. m_combined_control s (int i) = Some (ops, c) \<and> (\<forall>x \<in> set ops. 0 \<le> x \<and> x < int i)))"
proof (intro conjI allI impI)
  fix i n
  note inv = pio_reachable_inv[OF assms]
  show "sample_rec sq n i s = sample sq i s" if "0 \<le> i \<and> i < num_signal_pushed s \<and> nat i < n"
    unfolding sample_def by (rule sample_rec_depth[OF inv]) (use that in \<open>auto simp: num_signal_pushed_def\<close>)
  show "adjust_rec n i x s = adjust i x s" if "0 \<le> i \<and> i < num_control_pushed s \<and> nat i < n" for x
    unfolding adjust_def by (rule adjust_rec_depth[OF inv]) (use that in \<open>auto simp: num_control_pushed_def\<close>)
next
  fix i
  note inv = pio_reachable_inv[OF assms, unfolded pio_inv_def]
  show "\<exists>ops f. m_combined_signal s (int i) = Some (ops, f) \<and> (\<forall>x \<in> set ops. 0 \<le> x \<and> x < int i)"
    if "i < length (m_active_signal s)" "fst (m_active_signal s ! i) = None"
    using index_inv_combinedD[of "m_active_signal s" "m_existing_signal s" "m_combined_signal s" i "snd (m_active_signal s ! i)"] inv that
    by (metis prod.collapse)
  show "\<exists>ops c. m_combined_control s (int i) = Some (ops, c) \<and> (\<forall>x \<in> set ops. 0 \<le> x \<and> x < int i)"
    if "i < length (m_active_control s)" "fst (m_active_control s ! i) = None"
    using index_inv_combinedD[of "m_active_control s" "m_existing_control s" "m_combined_control s" i "snd (m_active_control s ! i)"] inv that
    by (metis prod.collapse)
qed

theorem sample_adjust_terminate_witness:
  "fst (push_signal ''S'' GEOPM_DOMAIN_PACKAGE 1 demo_pio) = Inr 2 \<and>
   sample_rec id 3 2 (snd (read_batch demo_pushed)) = sample id 2 (snd (read_batch demo_pushed))"
proof -
  have "pio_reachable id demo_pio" unfolding demo_pio_def by (rule pio_reachable.init)
  then have "pio_reachable id (pio_step id Op_read_batch (pio_step id (Op_push_signal ''S'' 1 1) demo_pio))"
    by (intro pio_reachable.step)
  then have r: "pio_reachable id (snd (read_batch demo_pushed))" by (simp add: demo_pushed_def)
  have "num_signal_pushed (snd (read_batch demo_pushed)) = 3"
    using demo_push(3) by (simp add: demo_read_batch num_signal_pushed_def)
  then show ?thesis using sample_adjust_terminate[OF r] demo_push(1) by simp
qed

text \<open>
  C4: Pushing is idempotent and stable. A successful push returns an index in range; pushing the
  same request again returns the same index and changes nothing, even after the batch has been
  started; and a request that was not pushed before the first \<^verbatim>\<open>read_batch()\<close> or \<^verbatim>\<open>adjust()\<close> is
  refused without any effect. The same holds for controls.
\<close>

theorem push_idempotent:
  assumes "pio_inv s"
  shows "(push_signal name dm idx s = (Inr i, t) \<longrightarrow>
            push_signal name dm idx t = (Inr i, t) \<and> 0 \<le> i \<and> i < num_signal_pushed t) \<and>
         (push_control name dm idx s = (Inr i, t) \<longrightarrow>
            push_control name dm idx t = (Inr i, t) \<and> 0 \<le> i \<and> i < num_control_pushed t) \<and>
         (check_domain (m_platform_topo s) dm idx = Inr () \<longrightarrow> m_is_signal_active s \<or> m_is_control_active s \<longrightarrow>
            (m_existing_signal s (name, dm, idx) = None \<longrightarrow> push_signal name dm idx s = (Inl invalid, s)) \<and>
            (m_existing_control s (name, dm, idx) = None \<longrightarrow> push_control name dm idx s = (Inl invalid, s)))"
proof (intro conjI impI)
  assume p: "push_signal name dm idx s = (Inr i, t)"
  show "push_signal name dm idx t = (Inr i, t)" by (rule push_signal_again[OF p])
  have run: "push_signal_rec (m_iogroup_list s) (m_platform_topo s) name dm idx s = (Inr i, t)"
    using p by (simp add: push_signal_def)
  show "0 \<le> i" "i < num_signal_pushed t"
    using push_okD(2)[OF push_signal_rec_ok run assms] push_signal_not_none[OF run] by auto
next
  assume p: "push_control name dm idx s = (Inr i, t)"
  show "push_control name dm idx t = (Inr i, t)" by (rule push_control_again[OF p])
  have run: "push_control_rec (m_iogroup_list s) (m_platform_topo s) name dm idx s = (Inr i, t)"
    using p by (simp add: push_control_def)
  show "0 \<le> i" "i < num_control_pushed t"
    using push_okD(2)[OF push_control_rec_ok run assms] push_control_not_none[OF run] by auto
next
  assume a: "check_domain (m_platform_topo s) dm idx = Inr ()" "m_is_signal_active s \<or> m_is_control_active s"
  show "push_signal name dm idx s = (Inl invalid, s)" if "m_existing_signal s (name, dm, idx) = None"
    unfolding push_signal_def push_signal_rec_cases using a that by auto
  show "push_control name dm idx s = (Inl invalid, s)" if "m_existing_control s (name, dm, idx) = None"
    unfolding push_control_def push_control_rec_cases using a that by auto
qed

theorem push_idempotent_witness:
  "push_signal ''S'' GEOPM_DOMAIN_PACKAGE 1 demo_pushed = (Inr 2, demo_pushed) \<and> 2 < num_signal_pushed demo_pushed"
proof -
  note p = demo_push(1)
  have "pio_inv demo_pio" unfolding demo_pio_def by (rule pio_inv_make)
  from push_idempotent[OF this, of "''S''" GEOPM_DOMAIN_PACKAGE 1 2 demo_pushed] p show ?thesis by simp
qed





fun read_candidates :: "'w iogroup list \<Rightarrow> string \<Rightarrow> int \<Rightarrow> int \<Rightarrow> 'w \<Rightarrow> double result \<times> 'w" where
  "read_candidates [] name dm idx w = (Inl invalid, w)"
| "read_candidates (g # gs) name dm idx w =
     (case io_read_signal g name dm idx w of
        (Inl (Exception e), w') \<Rightarrow> read_candidates gs name dm idx w'
      | r \<Rightarrow> r)"

text \<open>
  C5: Priority of IOGroups. The candidates for a signal are the registered IOGroups that provide it,
  the latest registered first, restricted to those with the same native domain as the first. A
  direct read at the native domain returns the value of the first candidate whose read returns;
  candidates that raise a \<^verbatim>\<open>geopm::Exception\<close> are skipped, and when all of them do the read is
  refused. (The world threads through the failed attempts.)
\<close>

theorem read_signal_priority:
  assumes "signal_domain_type (m_iogroup_list s) name = Inr dm" "check_domain (m_platform_topo s) dm idx = Inr ()"
  shows "find_signal_iogroup (m_iogroup_list s) name =
           (case filter (\<lambda>g. io_is_valid_signal g name) (rev (m_iogroup_list s)) of
              [] \<Rightarrow> []
            | g # rest \<Rightarrow> g # filter (\<lambda>h. io_signal_domain_type h name = io_signal_domain_type g name) rest) \<and>
         read_signal sq name dm idx s =
           (case read_candidates (find_signal_iogroup (m_iogroup_list s) name) name dm idx (m_world s) of
              (r, w) \<Rightarrow> (r, s\<lparr>m_world := w\<rparr>))"
proof
  let ?gs = "m_iogroup_list s"
  show "find_signal_iogroup ?gs name =
      (case filter (\<lambda>g. io_is_valid_signal g name) (rev ?gs) of
         [] \<Rightarrow> [] | g # rest \<Rightarrow> g # filter (\<lambda>h. io_signal_domain_type h name = io_signal_domain_type g name) rest)"
    unfolding find_signal_iogroup_def by (rule find_loop_filter)
  have native: "io_signal_domain_type ii name = dm" if "ii \<in> set (find_signal_iogroup ?gs name)" for ii
    using signal_domain_of_found[OF that] assms(1) by simp
  let ?attempt = "\<lambda>ii. try_catch (bind (io (io_read_signal ii name dm idx)) (\<lambda>v. ret (Some v))) (\<lambda>_. ret None)"
  have loop: "bind (first_success ?attempt gs) (\<lambda>result. case result of Some v \<Rightarrow> ret v | None \<Rightarrow> throw invalid) u =
      (case read_candidates gs name dm idx (m_world u) of (r, w) \<Rightarrow> (r, u\<lparr>m_world := w\<rparr>))" for gs u
  proof (induction gs arbitrary: u)
    case (Cons g gs)
    obtain r w where run: "io_read_signal g name dm idx (m_world u) = (r, w)" by (cases "io_read_signal g name dm idx (m_world u)")
    show ?case
    proof (cases "\<exists>e. r = Inl (Exception e)")
      case True
      then show ?thesis using run Cons.IH[of "u\<lparr>m_world := w\<rparr>"]
        by (auto simp: bind_def try_catch_def io_def ret_def split: prod.splits sum.splits)
    next
      case False
      then show ?thesis using run
        by (cases r; cases "projl r") (auto simp: bind_def try_catch_def io_def ret_def)
    qed
  qed (simp add: act_simps)
  have "find_signal_iogroup ?gs name \<noteq> []" using assms(1) by (auto simp: signal_domain_type_def first_iogroup_def split: list.splits)
  then have "read_signal sq name dm idx s =
      bind (first_success ?attempt (find_signal_iogroup ?gs name)) (\<lambda>result. case result of Some v \<Rightarrow> ret v | None \<Rightarrow> throw invalid) s"
    unfolding read_signal_def
    by (subst read_signal_rec.simps) (simp add: act_simps assms(2) native cong: first_success_cong)
  then show "read_signal sq name dm idx s =
      (case read_candidates (find_signal_iogroup ?gs name) name dm idx (m_world s) of (r, w) \<Rightarrow> (r, s\<lparr>m_world := w\<rparr>))"
    by (simp only: loop)
qed

definition demo_broken :: "demo_world iogroup" where
  "demo_broken = demo_group\<lparr>io_read_signal := (\<lambda>_ _ _. throw (Exception (- 9)))\<rparr>"

theorem read_signal_priority_witness:
  "read_signal id ''S'' GEOPM_DOMAIN_CORE 3 (make_pio [demo_group, demo_broken] demo_topo []) =
     (Inr (d_of_int 3), make_pio [demo_group, demo_broken] demo_topo [])"
proof -
  let ?s = "make_pio [demo_group, demo_broken] demo_topo []"
  have find: "find_signal_iogroup [demo_group, demo_broken] ''S'' = [demo_broken, demo_group]"
    by (simp add: find_signal_iogroup_def demo_broken_def)
  have "signal_domain_type (m_iogroup_list ?s) ''S'' = Inr GEOPM_DOMAIN_CORE"
    by (simp add: make_pio_def signal_domain_type_def first_iogroup_def find) (simp add: demo_broken_def)
  moreover have "check_domain (m_platform_topo ?s) GEOPM_DOMAIN_CORE 3 = Inr ()" by (simp add: make_pio_def demo_domains)
  ultimately show ?thesis
    using read_signal_priority[of ?s "''S''" GEOPM_DOMAIN_CORE 3 id]
    by (simp add: make_pio_def find) (simp add: demo_broken_def act_simps)
qed



end
