(* ===== verification/MSR_IO.thy ===== *)
theory MSR_IO
  imports Helper_Strings
begin

text \<open>
  \<^verbatim>\<open>MSRIO\<close> (libgeopmd/src/MSRIO.cpp with its structs in MSRIOImp.hpp, MSRPath.cpp,
  IOUringFallback.cpp): access to the model specific registers of the CPUs, one register at a
  time or in batches, through the msr-safe batch \<^verbatim>\<open>ioctl()\<close> or through one file per CPU.

  The members of \<^verbatim>\<open>MSRIOImp\<close> are the record \<open>msrio\<close>. The system calls are the functions of
  the record \<open>os\<close> on a world \<open>'w\<close>; what a well behaved MSR driver does is the predicate
  \<open>driver_ok\<close>, an explicit hypothesis of the theorems that need it. The batch readers and
  writers are \<^verbatim>\<open>IOUringFallback\<close> objects, the implementation that
  \<^verbatim>\<open>IOUring::make_unique()\<close> returns when the kernel's rings are unavailable or disabled.
  Vector sizes are assumed to fit the integers that hold them. Message texts are not modelled.
\<close>

section \<open>State\<close>

record batch_op =
  op_cpu :: "16 word"
  op_isrdmsr :: "16 word"
  op_err :: "32 word"
  op_msr :: "32 word"
  op_msrdata :: "64 word"
  op_wmask :: "64 word"

text \<open>
  The pair of a count and a pointer handed to the kernel. The pointer is \<^verbatim>\<open>nullptr\<close>
  (\<open>None\<close>) or \<^verbatim>\<open>data()\<close> of the operation vector, taken when the vector had the given
  length; it is valid as long as no element was added since.
\<close>

record batch_array =
  numops :: nat
  ops_ptr :: "nat option"

record batch_context =
  m_is_batch_read :: bool
  m_read_batch :: batch_array
  m_write_batch :: batch_array
  m_read_batch_op :: "batch_op list"
  m_write_batch_op :: "batch_op list"
  m_write_batch_idx_map :: "(64 word \<rightharpoonup> int) list"
  m_write_val :: "64 word list"
  m_write_mask :: "64 word list"

definition batch_context_new :: "int \<Rightarrow> batch_context" where
  "batch_context_new num_cpu =
     \<lparr>m_is_batch_read = False, m_read_batch = \<lparr>numops = 0, ops_ptr = None\<rparr>,
      m_write_batch = \<lparr>numops = 0, ops_ptr = None\<rparr>, m_read_batch_op = [], m_write_batch_op = [],
      m_write_batch_idx_map = replicate (nat num_cpu) Map.empty, m_write_val = [], m_write_mask = []\<rparr>"

text \<open>Which operation vector of a context a buffer belongs to.\<close>

datatype batch_kind = Read_batch | Write_batch

text \<open>An operation queued in an \<^verbatim>\<open>IOUringFallback\<close>: its buffer is the data field of an operation.\<close>

record uring_op =
  u_is_read :: bool
  u_fd :: int
  u_ctx :: nat
  u_kind :: batch_kind
  u_idx :: nat
  u_offset :: "64 word"

datatype driver_type = M_DRIVER_MSRSAFE | M_DRIVER_MSR | M_DRIVER_OTHER

record 'w msrio =
  m_num_cpu :: int
  m_file_desc :: "int list"
  m_batch_context :: "batch_context list"
  m_is_batch_enabled :: bool
  m_offset_mask_map :: "64 word \<rightharpoonup> 64 word"
  m_is_open :: bool
  m_path :: driver_type
  m_batch_reader :: "uring_op list option"
  m_batch_writer :: "uring_op list option"
  m_os_world :: 'w

text \<open>
  System calls. \<open>os_pread\<close> takes the descriptor, the content of the eight byte buffer and the
  offset, and returns the return value and the new content; \<open>os_msr_batch\<close> is the
  \<^verbatim>\<open>GEOPM_IOC_MSR_BATCH\<close> request, which updates the operations in place.
\<close>

record 'w os =
  os_open :: "string \<Rightarrow> 'w \<Rightarrow> int \<times> 'w"
  os_fstat :: "int \<Rightarrow> 'w \<Rightarrow> int \<times> 'w"
  os_close :: "int \<Rightarrow> 'w \<Rightarrow> int \<times> 'w"
  os_pread :: "int \<Rightarrow> 64 word \<Rightarrow> 64 word \<Rightarrow> 'w \<Rightarrow> (int \<times> 64 word) \<times> 'w"
  os_pwrite :: "int \<Rightarrow> 64 word \<Rightarrow> 64 word \<Rightarrow> 'w \<Rightarrow> int \<times> 'w"
  os_msr_batch :: "int \<Rightarrow> batch_op list \<Rightarrow> 'w \<Rightarrow> (int \<times> batch_op list) \<times> 'w"
  os_errno :: "'w \<Rightarrow> int"

unbundle bit_operations_syntax

definition sys :: "('w \<Rightarrow> 'a \<times> 'w) \<Rightarrow> ('w msrio, 'a) action" where
  "sys f s = (let (x, w) = f (m_os_world s) in (Inr x, s\<lparr>m_os_world := w\<rparr>))"

definition ctx_at :: "int \<Rightarrow> ('w msrio, batch_context) action" where
  "ctx_at batch_ctx = bind (gets m_batch_context) (\<lambda>cs. lift (at cs batch_ctx))"

definition upd_ctx :: "int \<Rightarrow> (batch_context \<Rightarrow> batch_context) \<Rightarrow> ('w msrio, unit) action" where
  "upd_ctx batch_ctx f = modify (\<lambda>s. s\<lparr>m_batch_context :=
     (m_batch_context s)[nat batch_ctx := f (m_batch_context s ! nat batch_ctx)]\<rparr>)"

fun kind_ops :: "batch_kind \<Rightarrow> batch_context \<Rightarrow> batch_op list" where
  "kind_ops Read_batch c = m_read_batch_op c"
| "kind_ops Write_batch c = m_write_batch_op c"

fun set_kind_ops :: "batch_kind \<Rightarrow> batch_op list \<Rightarrow> batch_context \<Rightarrow> batch_context" where
  "set_kind_ops Read_batch xs c = c\<lparr>m_read_batch_op := xs\<rparr>"
| "set_kind_ops Write_batch xs c = c\<lparr>m_write_batch_op := xs\<rparr>"

fun kind_array :: "batch_kind \<Rightarrow> batch_context \<Rightarrow> batch_array" where
  "kind_array Read_batch c = m_read_batch c"
| "kind_array Write_batch c = m_write_batch c"

fun uring :: "batch_kind \<Rightarrow> 'w msrio \<Rightarrow> uring_op list option" where
  "uring Read_batch s = m_batch_reader s"
| "uring Write_batch s = m_batch_writer s"

fun set_uring :: "batch_kind \<Rightarrow> uring_op list option \<Rightarrow> 'w msrio \<Rightarrow> 'w msrio" where
  "set_uring Read_batch q s = s\<lparr>m_batch_reader := q\<rparr>"
| "set_uring Write_batch q s = s\<lparr>m_batch_writer := q\<rparr>"

section \<open>Paths and file descriptors\<close>

definition msr_path :: "driver_type \<Rightarrow> int \<Rightarrow> string result" where
  "msr_path d cpu_idx = (case d of
     M_DRIVER_MSRSAFE \<Rightarrow> Inr (''/dev/cpu/'' @ show_int cpu_idx @ ''/msr_safe'')
   | M_DRIVER_MSR \<Rightarrow> Inr (''/dev/cpu/'' @ show_int cpu_idx @ ''/msr'')
   | M_DRIVER_OTHER \<Rightarrow> Inl (Exception GEOPM_ERROR_MSR_OPEN))"

definition msr_batch_path :: "driver_type \<Rightarrow> string" where
  "msr_batch_path d = (if d = M_DRIVER_MSRSAFE then ''/dev/cpu/msr_batch'' else [])"

definition msr_desc :: "int \<Rightarrow> ('w msrio, int) action" where
  "msr_desc cpu_idx =
     bind (gets m_num_cpu) (\<lambda>n.
     bind (guard (\<not> (cpu_idx < 0 \<or> cpu_idx > n)) invalid) (\<lambda>_.
     gets (\<lambda>s. m_file_desc s ! nat cpu_idx)))"

definition msr_batch_desc :: "('w msrio, int) action" where
  "msr_batch_desc = gets (\<lambda>s. m_file_desc s ! nat (m_num_cpu s))"

definition set_desc :: "int \<Rightarrow> int \<Rightarrow> ('w msrio, unit) action" where
  "set_desc i fd = modify (\<lambda>s. s\<lparr>m_file_desc := (m_file_desc s)[nat i := fd]\<rparr>)"

definition open_msr :: "'w os \<Rightarrow> int \<Rightarrow> ('w msrio, unit) action" where
  "open_msr os cpu_idx =
     bind (gets (\<lambda>s. m_file_desc s ! nat cpu_idx)) (\<lambda>fd.
     bind (if fd = -1
           then bind (gets m_path) (\<lambda>d. bind (lift (msr_path d cpu_idx)) (\<lambda>path.
                bind (sys (os_open os path)) (set_desc cpu_idx)))
           else ret ()) (\<lambda>_.
     bind (gets (\<lambda>s. m_file_desc s ! nat cpu_idx)) (\<lambda>fd'.
     bind (sys (os_fstat os fd')) (\<lambda>err. guard (err = 0) (Exception GEOPM_ERROR_MSR_OPEN)))))"

definition open_msr_batch :: "'w os \<Rightarrow> ('w msrio, unit) action" where
  "open_msr_batch os =
     bind (gets (\<lambda>s. (m_is_batch_enabled s, m_num_cpu s, m_file_desc s ! nat (m_num_cpu s)))) (\<lambda>(enabled, n, fd).
     bind (if enabled \<and> fd = -1
           then bind (gets m_path) (\<lambda>d.
                bind (sys (os_open os (msr_batch_path d))) (\<lambda>fd'.
                bind (set_desc n fd') (\<lambda>_.
                if fd' = -1 then modify (\<lambda>s. s\<lparr>m_is_batch_enabled := False\<rparr>) else ret ())))
           else ret ()) (\<lambda>_.
     bind (gets m_is_batch_enabled) (\<lambda>enabled'.
     if enabled'
     then bind msr_batch_desc (\<lambda>fd'.
          bind (sys (os_fstat os fd')) (\<lambda>err. guard (err = 0) (Exception GEOPM_ERROR_MSR_OPEN)))
     else ret ())))"

definition close_msr :: "'w os \<Rightarrow> int \<Rightarrow> ('w msrio, unit) action" where
  "close_msr os cpu_idx =
     bind (gets (\<lambda>s. m_file_desc s ! nat cpu_idx)) (\<lambda>fd.
     if fd \<noteq> -1 then bind (sys (os_close os fd)) (\<lambda>_. set_desc cpu_idx (-1)) else ret ())"

definition close_msr_batch :: "'w os \<Rightarrow> ('w msrio, unit) action" where
  "close_msr_batch os = bind (gets m_num_cpu) (close_msr os)"

definition open_all :: "'w os \<Rightarrow> ('w msrio, unit) action" where
  "open_all os =
     bind (gets (\<lambda>s. (m_is_open s, m_num_cpu s))) (\<lambda>(is_open, n).
     if \<not> is_open
     then bind (for_each (open_msr os) [0..n - 1]) (\<lambda>_.
          bind (open_msr_batch os) (\<lambda>_. modify (\<lambda>s. s\<lparr>m_is_open := True\<rparr>)))
     else ret ())"

definition close_all :: "'w os \<Rightarrow> ('w msrio, unit) action" where
  "close_all os =
     bind (gets (\<lambda>s. (m_is_open s, m_num_cpu s))) (\<lambda>(is_open, n).
     if is_open
     then bind (close_msr_batch os) (\<lambda>_.
          bind (for_each (close_msr os) (rev [0..n - 1])) (\<lambda>_. modify (\<lambda>s. s\<lparr>m_is_open := False\<rparr>)))
     else ret ())"

definition create_batch_context :: "('w msrio, int) action" where
  "create_batch_context =
     bind (gets (\<lambda>s. int (length (m_batch_context s)))) (\<lambda>ctx.
     bind (modify (\<lambda>s. s\<lparr>m_batch_context := m_batch_context s @ [batch_context_new (m_num_cpu s)]\<rparr>)) (\<lambda>_.
     ret ctx))"

definition make_msrio :: "'w os \<Rightarrow> int \<Rightarrow> driver_type \<Rightarrow> 'w \<Rightarrow> unit result \<times> 'w msrio" where
  "make_msrio os num_cpu d w =
     bind create_batch_context (\<lambda>_. open_all os)
       \<lparr>m_num_cpu = num_cpu, m_file_desc = replicate (nat num_cpu + 1) (-1), m_batch_context = [],
        m_is_batch_enabled = (msr_batch_path d \<noteq> []), m_offset_mask_map = Map.empty, m_is_open = False,
        m_path = d, m_batch_reader = None, m_batch_writer = None, m_os_world = w\<rparr>"

section \<open>Direct access\<close>

definition read_msr :: "'w os \<Rightarrow> int \<Rightarrow> 64 word \<Rightarrow> ('w msrio, 64 word) action" where
  "read_msr os cpu_idx offset =
     bind (msr_desc cpu_idx) (\<lambda>fd.
     bind (sys (os_pread os fd 0 offset)) (\<lambda>(num_read, result).
     bind (guard (num_read = 8) (Exception GEOPM_ERROR_MSR_READ)) (\<lambda>_. ret result)))"

definition write_msr :: "'w os \<Rightarrow> int \<Rightarrow> 64 word \<Rightarrow> 64 word \<Rightarrow> 64 word \<Rightarrow> ('w msrio, unit) action" where
  "write_msr os cpu_idx offset raw_value write_mask =
     bind (guard (raw_value AND write_mask = raw_value) invalid) (\<lambda>_.
     bind (read_msr os cpu_idx offset) (\<lambda>write_value.
     bind (msr_desc cpu_idx) (\<lambda>fd.
     bind (sys (os_pwrite os fd ((write_value AND NOT write_mask) OR raw_value) offset)) (\<lambda>num_write.
     guard (num_write = 8) (Exception GEOPM_ERROR_MSR_WRITE)))))"

definition system_write_mask :: "'w os \<Rightarrow> 64 word \<Rightarrow> ('w msrio, 64 word) action" where
  "system_write_mask os offset =
     bind (gets (\<lambda>s. (m_is_batch_enabled s, m_offset_mask_map s offset))) (\<lambda>(enabled, cached).
     if \<not> enabled then ret (NOT 0)
     else case cached of
       Some result \<Rightarrow> ret result
     | None \<Rightarrow>
         bind msr_batch_desc (\<lambda>fd.
         bind (sys (os_msr_batch os fd
                [\<lparr>op_cpu = 0, op_isrdmsr = 1, op_err = 0, op_msr = ucast offset, op_msrdata = 0, op_wmask = 0\<rparr>]))
           (\<lambda>(err, wr).
         bind (guard (err = 0 \<and> op_err (hd wr) = 0) invalid) (\<lambda>_.
         bind (modify (\<lambda>s. s\<lparr>m_offset_mask_map := (m_offset_mask_map s)(offset \<mapsto> op_wmask (hd wr))\<rparr>)) (\<lambda>_.
         ret (op_wmask (hd wr)))))))"

section \<open>Batches\<close>

text \<open>
  The index map has one entry per CPU; its \<^verbatim>\<open>at()\<close> is what rejects a bad CPU index.
\<close>

definition msrio_add_write :: "'w os \<Rightarrow> int \<Rightarrow> 64 word \<Rightarrow> int \<Rightarrow> ('w msrio, int) action" where
  "msrio_add_write os cpu_idx offset batch_ctx =
     bind (ctx_at batch_ctx) (\<lambda>ctx.
     bind (lift (at (m_write_batch_idx_map ctx) cpu_idx)) (\<lambda>idx_map.
     case idx_map offset of
       Some result \<Rightarrow> ret result
     | None \<Rightarrow>
         bind (system_write_mask os offset) (\<lambda>wm.
         bind (upd_ctx batch_ctx (\<lambda>c. c\<lparr>
             m_write_batch_op := m_write_batch_op c @
               [\<lparr>op_cpu = of_int cpu_idx, op_isrdmsr = 1, op_err = 0, op_msr = ucast offset,
                 op_msrdata = 0, op_wmask = wm\<rparr>],
             m_write_val := m_write_val c @ [0],
             m_write_mask := m_write_mask c @ [0],
             m_write_batch_idx_map := (m_write_batch_idx_map c)
               [nat cpu_idx := (m_write_batch_idx_map c ! nat cpu_idx)(offset \<mapsto> int (length (m_write_batch_op ctx)))]\<rparr>))
           (\<lambda>_. ret (int (length (m_write_batch_op ctx)))))))"

definition msrio_adjust :: "int \<Rightarrow> 64 word \<Rightarrow> 64 word \<Rightarrow> int \<Rightarrow> ('w msrio, unit) action" where
  "msrio_adjust batch_idx raw_value write_mask batch_ctx =
     bind (ctx_at batch_ctx) (\<lambda>ctx.
     bind (guard (\<not> (batch_idx < 0 \<or> batch_idx \<ge> int (length (m_write_batch_op ctx)))) invalid) (\<lambda>_.
     bind (guard (NOT (op_wmask (m_write_batch_op ctx ! nat batch_idx)) AND write_mask = 0) invalid) (\<lambda>_.
     bind (guard (raw_value AND write_mask = raw_value) invalid) (\<lambda>_.
     upd_ctx batch_ctx (\<lambda>c. c\<lparr>
       m_write_val := (m_write_val c)
         [nat batch_idx := (m_write_val c ! nat batch_idx AND NOT write_mask) OR raw_value],
       m_write_mask := (m_write_mask c)
         [nat batch_idx := m_write_mask c ! nat batch_idx OR write_mask]\<rparr>)))))"

definition msrio_add_read :: "int \<Rightarrow> 64 word \<Rightarrow> int \<Rightarrow> ('w msrio, int) action" where
  "msrio_add_read cpu_idx offset batch_ctx =
     bind (ctx_at batch_ctx) (\<lambda>ctx.
     bind (upd_ctx batch_ctx (\<lambda>c. c\<lparr>m_read_batch_op := m_read_batch_op c @
       [\<lparr>op_cpu = of_int cpu_idx, op_isrdmsr = 1, op_err = 0, op_msr = ucast offset,
         op_msrdata = 0, op_wmask = 0\<rparr>]\<rparr>)) (\<lambda>_.
     ret (int (length (m_read_batch_op ctx)))))"

text \<open>
  The index of \<^verbatim>\<open>sample()\<close> is not checked: the access is defined only inside the array
  that the last \<^verbatim>\<open>read_batch()\<close> recorded.
\<close>

definition msrio_sample :: "int \<Rightarrow> int \<Rightarrow> ('w msrio, 64 word) action" where
  "msrio_sample batch_idx batch_ctx =
     bind (ctx_at batch_ctx) (\<lambda>ctx.
     bind (guard (m_is_batch_read ctx) invalid) (\<lambda>_.
     case ops_ptr (m_read_batch ctx) of
       None \<Rightarrow> throw Undefined_behavior
     | Some n \<Rightarrow>
         if n = length (m_read_batch_op ctx) \<and> 0 \<le> batch_idx \<and> batch_idx < int n
         then ret (op_msrdata (m_read_batch_op ctx ! nat batch_idx))
         else throw Undefined_behavior))"

subsection \<open>The msr-safe batch request\<close>

definition msr_ioctl :: "'w os \<Rightarrow> batch_kind \<Rightarrow> int \<Rightarrow> ('w msrio, unit) action" where
  "msr_ioctl os k batch_ctx =
     bind (ctx_at batch_ctx) (\<lambda>ctx.
     bind msr_batch_desc (\<lambda>fd.
     bind (sys (os_msr_batch os fd (kind_ops k ctx))) (\<lambda>(err, ops).
     bind (upd_ctx batch_ctx (set_kind_ops k ops)) (\<lambda>_.
     bind (guard (err \<noteq> -1) (Exception GEOPM_ERROR_MSR_READ)) (\<lambda>_.
     for_each (\<lambda>op. guard (op_err op = 0) (Exception GEOPM_ERROR_MSR_WRITE)) ops)))))"

definition msr_ioctl_read :: "'w os \<Rightarrow> int \<Rightarrow> ('w msrio, unit) action" where
  "msr_ioctl_read os batch_ctx =
     bind (ctx_at batch_ctx) (\<lambda>ctx.
     if numops (m_read_batch ctx) = 0 then ret () else msr_ioctl os Read_batch batch_ctx)"

text \<open>"Modify with write mask": the loop shared by the two ways of writing a batch.\<close>

definition modify_op :: "batch_op \<Rightarrow> 64 word \<Rightarrow> 64 word \<Rightarrow> batch_op" where
  "modify_op op mk v = op\<lparr>op_isrdmsr := 0, op_msrdata := (op_msrdata op AND NOT mk) OR v\<rparr>"

fun modify_ops :: "batch_op list \<Rightarrow> 64 word list \<Rightarrow> 64 word list \<Rightarrow> batch_op list" where
  "modify_ops (op # ops) (mk # mks) (v # vs) = modify_op op mk v # modify_ops ops mks vs"
| "modify_ops ops mks vs = ops"

definition modify_step :: "int \<Rightarrow> ('w msrio, unit) action" where
  "modify_step batch_ctx = upd_ctx batch_ctx (\<lambda>c. c\<lparr>m_write_batch_op :=
     modify_ops (m_write_batch_op c) (m_write_mask c) (m_write_val c)\<rparr>)"

definition reset_isrdmsr :: "int \<Rightarrow> ('w msrio, unit) action" where
  "reset_isrdmsr batch_ctx = upd_ctx batch_ctx (\<lambda>c. c\<lparr>m_write_batch_op :=
     map (\<lambda>op. op\<lparr>op_isrdmsr := 1\<rparr>) (m_write_batch_op c)\<rparr>)"

definition msr_ioctl_write :: "'w os \<Rightarrow> int \<Rightarrow> ('w msrio, unit) action" where
  "msr_ioctl_write os batch_ctx =
     bind (ctx_at batch_ctx) (\<lambda>ctx.
     if numops (m_write_batch ctx) = 0 then ret ()
     else
       bind (guard (\<not> (length (m_write_val ctx) \<noteq> numops (m_write_batch ctx) \<or>
                       length (m_write_mask ctx) \<noteq> numops (m_write_batch ctx) \<or>
                       length (m_write_batch_op ctx) \<noteq> numops (m_write_batch ctx))) invalid) (\<lambda>_.
       bind (msr_ioctl os Write_batch batch_ctx) (\<lambda>_.
       bind (modify_step batch_ctx) (\<lambda>_.
       bind (msr_ioctl os Write_batch batch_ctx) (\<lambda>_.
       reset_isrdmsr batch_ctx)))))"

subsection \<open>One file per CPU\<close>

definition buffer :: "uring_op \<Rightarrow> 'w msrio \<Rightarrow> 64 word" where
  "buffer u s = op_msrdata (kind_ops (u_kind u) (m_batch_context s ! u_ctx u) ! u_idx u)"

definition set_buffer :: "uring_op \<Rightarrow> 64 word \<Rightarrow> ('w msrio, unit) action" where
  "set_buffer u v = upd_ctx (int (u_ctx u)) (\<lambda>c. set_kind_ops (u_kind u)
     ((kind_ops (u_kind u) c)[u_idx u := (kind_ops (u_kind u) c ! u_idx u)\<lparr>op_msrdata := v\<rparr>]) c)"

definition uring_status :: "'w os \<Rightarrow> int \<Rightarrow> ('w msrio, int) action" where
  "uring_status os r = (if r < 0 then gets (\<lambda>s. - os_errno os (m_os_world s)) else ret r)"

definition uring_exec :: "'w os \<Rightarrow> uring_op \<Rightarrow> ('w msrio, int) action" where
  "uring_exec os u =
     bind (gets (buffer u)) (\<lambda>buf.
     if u_is_read u
     then bind (sys (os_pread os (u_fd u) buf (u_offset u))) (\<lambda>(r, v).
          bind (set_buffer u v) (\<lambda>_. uring_status os r))
     else bind (sys (os_pwrite os (u_fd u) buf (u_offset u))) (uring_status os))"

definition uring_prep :: "batch_kind \<Rightarrow> uring_op \<Rightarrow> ('w msrio, unit) action" where
  "uring_prep k u = modify (\<lambda>s. set_uring k (Some (the (uring k s) @ [u])) s)"

definition uring_submit :: "'w os \<Rightarrow> batch_kind \<Rightarrow> ('w msrio, int list) action" where
  "uring_submit os k =
     bind (gets (\<lambda>s. the (uring k s))) (\<lambda>queue.
     bind (map_action (uring_exec os) queue) (\<lambda>rets.
     bind (modify (set_uring k (Some []))) (\<lambda>_. ret rets)))"

text \<open>
  The return value cells of this call are those of the operations it queued: operations left
  over from a call that threw while it queued come first.
\<close>

definition msr_batch_io :: "'w os \<Rightarrow> batch_kind \<Rightarrow> int \<Rightarrow> ('w msrio, unit) action" where
  "msr_batch_io os k batch_ctx =
     bind (ctx_at batch_ctx) (\<lambda>ctx.
     bind (gets (\<lambda>s. length (the (uring k s)))) (\<lambda>old.
     bind (for_each (\<lambda>i.
       let op = kind_ops k ctx ! i in
       bind (msr_desc (uint (op_cpu op))) (\<lambda>fd.
       uring_prep k \<lparr>u_is_read = (op_isrdmsr op \<noteq> 0), u_fd = fd, u_ctx = nat batch_ctx, u_kind = k,
         u_idx = i, u_offset = ucast (op_msr op)\<rparr>)) [0..<numops (kind_array k ctx)]) (\<lambda>_.
     bind (uring_submit os k) (\<lambda>rets.
     for_each (\<lambda>i. guard (rets ! (old + i) = 8)
       (Exception (if op_isrdmsr (kind_ops k ctx ! i) \<noteq> 0 then GEOPM_ERROR_MSR_READ else GEOPM_ERROR_MSR_WRITE)))
       [0..<numops (kind_array k ctx)]))))"

definition make_uring :: "batch_kind \<Rightarrow> ('w msrio, unit) action" where
  "make_uring k = modify (\<lambda>s. if uring k s = None then set_uring k (Some []) s else s)"

definition msr_read_files :: "'w os \<Rightarrow> int \<Rightarrow> ('w msrio, unit) action" where
  "msr_read_files os batch_ctx =
     bind (ctx_at batch_ctx) (\<lambda>ctx.
     if numops (m_read_batch ctx) = 0 then ret ()
     else bind (make_uring Read_batch) (\<lambda>_. msr_batch_io os Read_batch batch_ctx))"

definition msr_rmw_files :: "'w os \<Rightarrow> int \<Rightarrow> ('w msrio, unit) action" where
  "msr_rmw_files os batch_ctx =
     bind (ctx_at batch_ctx) (\<lambda>ctx.
     if numops (m_write_batch ctx) = 0 then ret ()
     else
       bind (make_uring Write_batch) (\<lambda>_.
       bind (msr_batch_io os Write_batch batch_ctx) (\<lambda>_.
       bind (modify_step batch_ctx) (\<lambda>_.
       bind (msr_batch_io os Write_batch batch_ctx) (\<lambda>_.
       reset_isrdmsr batch_ctx)))))"

subsection \<open>Batch entry points\<close>

definition msrio_read_batch :: "'w os \<Rightarrow> int \<Rightarrow> ('w msrio, unit) action" where
  "msrio_read_batch os batch_ctx =
     bind (ctx_at batch_ctx) (\<lambda>_.
     bind (upd_ctx batch_ctx (\<lambda>c. c\<lparr>m_read_batch :=
       \<lparr>numops = length (m_read_batch_op c), ops_ptr = Some (length (m_read_batch_op c))\<rparr>\<rparr>)) (\<lambda>_.
     bind (gets m_is_batch_enabled) (\<lambda>enabled.
     bind (if enabled then msr_ioctl_read os batch_ctx else msr_read_files os batch_ctx) (\<lambda>_.
     upd_ctx batch_ctx (\<lambda>c. c\<lparr>m_is_batch_read := True\<rparr>)))))"

definition msrio_write_batch :: "'w os \<Rightarrow> int \<Rightarrow> ('w msrio, unit) action" where
  "msrio_write_batch os batch_ctx =
     bind (ctx_at batch_ctx) (\<lambda>_.
     bind (upd_ctx batch_ctx (\<lambda>c. c\<lparr>m_write_batch :=
       \<lparr>numops = length (m_write_batch_op c), ops_ptr = Some (length (m_write_batch_op c))\<rparr>\<rparr>)) (\<lambda>_.
     bind (gets m_is_batch_enabled) (\<lambda>enabled.
     bind (if enabled then msr_ioctl_write os batch_ctx else msr_rmw_files os batch_ctx) (\<lambda>_.
     upd_ctx batch_ctx (\<lambda>c. c\<lparr>
       m_write_val := map (\<lambda>_. 0) (m_write_val c),
       m_write_mask := map (\<lambda>_. 0) (m_write_mask c),
       m_is_batch_read := True\<rparr>)))))"

section \<open>What a well behaved driver does\<close>

text \<open>
  Registers are named by the CPU and the address. \<open>driver_ok os fds n regs wm\<close>: the first
  \<open>n\<close> descriptors give access to the registers of the CPUs, eight bytes at a time, and the next
  one takes batch requests, which report the system's write mask \<open>wm\<close> and change only the bits
  in it. \<open>regs\<close> reads the registers off the world.
\<close>

type_synonym registers = "nat \<times> 64 word \<Rightarrow> 64 word"

definition op_key :: "batch_op \<Rightarrow> nat \<times> 64 word" where
  "op_key op = (unat (op_cpu op), ucast (op_msr op))"

definition rdmsr_op :: "registers \<Rightarrow> (32 word \<Rightarrow> 64 word) \<Rightarrow> batch_op \<Rightarrow> batch_op" where
  "rdmsr_op r wm op = op\<lparr>op_err := 0, op_msrdata := r (op_key op), op_wmask := wm (op_msr op)\<rparr>"

definition wrmsr_op :: "(32 word \<Rightarrow> 64 word) \<Rightarrow> batch_op \<Rightarrow> batch_op" where
  "wrmsr_op wm op = op\<lparr>op_err := 0, op_wmask := wm (op_msr op)\<rparr>"

definition wrmsr_regs :: "(32 word \<Rightarrow> 64 word) \<Rightarrow> batch_op \<Rightarrow> registers \<Rightarrow> registers" where
  "wrmsr_regs wm op r = r(op_key op := (r (op_key op) AND NOT (wm (op_msr op))) OR (op_msrdata op AND wm (op_msr op)))"

definition driver_ok ::
  "'w os \<Rightarrow> int list \<Rightarrow> nat \<Rightarrow> ('w \<Rightarrow> registers) \<Rightarrow> (32 word \<Rightarrow> 64 word) \<Rightarrow> bool" where
  "driver_ok os fds n regs wm \<longleftrightarrow>
     (\<forall>i buf off w. i < n \<longrightarrow> os_pread os (fds ! i) buf off w = ((8, regs w (i, off)), w)) \<and>
     (\<forall>i v off w. i < n \<longrightarrow> (\<exists>w'. os_pwrite os (fds ! i) v off w = (8, w') \<and> regs w' = (regs w)((i, off) := v))) \<and>
     (\<forall>ops w. (\<forall>op \<in> set ops. unat (op_cpu op) < n \<and> op_isrdmsr op \<noteq> 0) \<longrightarrow>
        (\<exists>w'. os_msr_batch os (fds ! n) ops w = ((0, map (rdmsr_op (regs w) wm) ops), w') \<and> regs w' = regs w)) \<and>
     (\<forall>ops w. (\<forall>op \<in> set ops. unat (op_cpu op) < n \<and> op_isrdmsr op = 0) \<longrightarrow>
        (\<exists>w'. os_msr_batch os (fds ! n) ops w = ((0, map (wrmsr_op wm) ops), w') \<and>
              regs w' = fold (wrmsr_regs wm) ops (regs w)))"

lemma driver_pread:
  "driver_ok os fds n regs wm \<Longrightarrow> i < n \<Longrightarrow> os_pread os (fds ! i) buf off w = ((8, regs w (i, off)), w)"
  unfolding driver_ok_def by blast

lemma driver_pwrite:
  assumes "driver_ok os fds n regs wm" "i < n"
  obtains w' where "os_pwrite os (fds ! i) v off w = (8, w')" "regs w' = (regs w)((i, off) := v)"
  using assms unfolding driver_ok_def by blast

lemma driver_batch_read:
  assumes "driver_ok os fds n regs wm" "\<forall>op \<in> set ops. unat (op_cpu op) < n \<and> op_isrdmsr op \<noteq> 0"
  obtains w' where "os_msr_batch os (fds ! n) ops w = ((0, map (rdmsr_op (regs w) wm) ops), w')" "regs w' = regs w"
  using assms unfolding driver_ok_def by blast

lemma driver_batch_write:
  assumes "driver_ok os fds n regs wm" "\<forall>op \<in> set ops. unat (op_cpu op) < n \<and> op_isrdmsr op = 0"
  obtains w' where "os_msr_batch os (fds ! n) ops w = ((0, map (wrmsr_op wm) ops), w')"
    "regs w' = fold (wrmsr_regs wm) ops (regs w)"
  using assms unfolding driver_ok_def by blast

section \<open>The abstract specification\<close>

text \<open>
  A context promises a set of pending masked writes, one per register; writing the batch applies
  each to its register and leaves the others alone.
\<close>

definition pending :: "batch_context \<Rightarrow> nat \<times> 64 word \<rightharpoonup> 64 word \<times> 64 word" where
  "pending c = map_of (zip (map op_key (m_write_batch_op c)) (zip (m_write_val c) (m_write_mask c)))"

definition masked_write :: "(nat \<times> 64 word \<rightharpoonup> 64 word \<times> 64 word) \<Rightarrow> registers \<Rightarrow> registers" where
  "masked_write p r = (\<lambda>k. case p k of None \<Rightarrow> r k | Some (v, mk) \<Rightarrow> (r k AND NOT mk) OR v)"

text \<open>
  The index map of a context against the registers its operations are for: each CPU's map takes
  an offset to the position of the operation on that register, and has no other entries.
\<close>

definition index_ok :: "nat \<Rightarrow> (nat \<times> 64 word) list \<Rightarrow> (64 word \<rightharpoonup> int) list \<Rightarrow> bool" where
  "index_ok n keys m \<longleftrightarrow> length m = n \<and> (\<forall>k \<in> set keys. fst k < n) \<and>
     (\<forall>cpu < n. \<forall>off j. (m ! cpu) off = Some j \<longleftrightarrow> (\<exists>i < length keys. j = int i \<and> keys ! i = (cpu, off)))"

text \<open>The invariant of a context, with the number of CPUs.\<close>

definition ctx_inv :: "nat \<Rightarrow> batch_context \<Rightarrow> bool" where
  "ctx_inv n c \<longleftrightarrow>
     length (m_write_val c) = length (m_write_batch_op c) \<and>
     length (m_write_mask c) = length (m_write_batch_op c) \<and>
     (\<forall>op \<in> set (m_write_batch_op c). unat (op_cpu op) < n \<and> op_isrdmsr op = 1) \<and>
     (\<forall>i < length (m_write_batch_op c).
        m_write_val c ! i AND m_write_mask c ! i = m_write_val c ! i \<and>
        m_write_mask c ! i AND op_wmask (m_write_batch_op c ! i) = m_write_mask c ! i) \<and>
     index_ok n (map op_key (m_write_batch_op c)) (m_write_batch_idx_map c)"

lemma index_ok_distinct: "index_ok n keys m \<Longrightarrow> distinct keys"
  unfolding index_ok_def distinct_conv_nth
  by (metis nth_mem of_nat_eq_iff option.inject prod.collapse)

lemma index_ok_snoc:
  assumes ok: "index_ok n keys m" and cpu: "cpu < n" and none: "(m ! cpu) off = None"
  shows "index_ok n (keys @ [(cpu, off)]) (m[cpu := (m ! cpu)(off \<mapsto> int (length keys))])"
proof -
  have "((m[cpu := (m ! cpu)(off \<mapsto> int (length keys))] ! cpu') off' = Some j) \<longleftrightarrow>
      (\<exists>i < length (keys @ [(cpu, off)]). j = int i \<and> (keys @ [(cpu, off)]) ! i = (cpu', off'))"
    if cpu': "cpu' < n" for cpu' off' j
  proof (cases "(cpu', off') = (cpu, off)")
    case True
    with ok cpu none have "\<not> (\<exists>i < length keys. keys ! i = (cpu', off'))" unfolding index_ok_def by force
    with True ok cpu show ?thesis by (auto simp: index_ok_def nth_append less_Suc_eq)
  next
    case False
    then have "((m[cpu := (m ! cpu)(off \<mapsto> int (length keys))] ! cpu') off' = Some j) \<longleftrightarrow> (m ! cpu') off' = Some j"
      using ok cpu' by (cases "cpu' = cpu") (simp_all add: index_ok_def)
    also have "\<dots> \<longleftrightarrow> (\<exists>i < length keys. j = int i \<and> keys ! i = (cpu', off'))"
      using ok cpu' by (simp add: index_ok_def)
    finally show ?thesis using False by (auto simp: nth_append less_Suc_eq)
  qed
  with ok cpu show ?thesis unfolding index_ok_def by simp
qed

lemma ctx_inv_distinct: "ctx_inv n c \<Longrightarrow> distinct (map op_key (m_write_batch_op c))"
  unfolding ctx_inv_def by (blast dest: index_ok_distinct)

definition ctx_read_inv :: "nat \<Rightarrow> batch_context \<Rightarrow> bool" where
  "ctx_read_inv n c \<longleftrightarrow> (\<forall>op \<in> set (m_read_batch_op c). unat (op_cpu op) < n \<and> op_isrdmsr op = 1)"

text \<open>Objects whose descriptors are open and whose queues are idle.\<close>

definition msrio_inv :: "'w msrio \<Rightarrow> bool" where
  "msrio_inv s \<longleftrightarrow> 0 \<le> m_num_cpu s \<and> m_num_cpu s \<le> 65536 \<and>
     length (m_file_desc s) = nat (m_num_cpu s) + 1 \<and>
     m_batch_reader s \<in> {None, Some []} \<and> m_batch_writer s \<in> {None, Some []} \<and>
     (\<forall>c \<in> set (m_batch_context s). ctx_inv (nat (m_num_cpu s)) c \<and> ctx_read_inv (nat (m_num_cpu s)) c)"

subsection \<open>Execution of the combinators\<close>

definition put_ctx :: "nat \<Rightarrow> batch_context \<Rightarrow> 'w msrio \<Rightarrow> 'w msrio" where
  "put_ctx i c s = s\<lparr>m_batch_context := (m_batch_context s)[i := c]\<rparr>"

lemma put_ctx_simps [simp]:
  "m_num_cpu (put_ctx i c s) = m_num_cpu s" "m_file_desc (put_ctx i c s) = m_file_desc s"
  "m_is_batch_enabled (put_ctx i c s) = m_is_batch_enabled s" "m_os_world (put_ctx i c s) = m_os_world s"
  "m_batch_reader (put_ctx i c s) = m_batch_reader s" "m_batch_writer (put_ctx i c s) = m_batch_writer s"
  "length (m_batch_context (put_ctx i c s)) = length (m_batch_context s)"
  "put_ctx i d (put_ctx i c s) = put_ctx i d s"
  "i < length (m_batch_context s) \<Longrightarrow> m_batch_context (put_ctx i c s) ! i = c"
  "uring k (put_ctx i c s) = uring k s"
  by (simp_all add: put_ctx_def) (cases k; simp)

lemma put_ctx_world [simp]: "(put_ctx i c s)\<lparr>m_os_world := w\<rparr> = put_ctx i c (s\<lparr>m_os_world := w\<rparr>)"
  by (simp add: put_ctx_def)

lemma bind_ctx_at:
  "i < length (m_batch_context s) \<Longrightarrow> bind (ctx_at (int i)) f s = f (m_batch_context s ! i) s"
  by (simp add: ctx_at_def bind_def gets_def lift_def)

lemma ctx_at_bad:
  "\<not> (0 \<le> i \<and> i < int (length (m_batch_context s))) \<Longrightarrow> bind (ctx_at i) f s = (Inl Std_out_of_range, s)"
  by (auto simp: ctx_at_def bind_def gets_def lift_def at_def)

lemma upd_ctx_put: "upd_ctx (int i) f s = (Inr (), put_ctx i (f (m_batch_context s ! i)) s)"
  by (simp add: upd_ctx_def modify_def put_ctx_def)

lemma bind_upd_ctx: "bind (upd_ctx (int i) f) g s = g () (put_ctx i (f (m_batch_context s ! i)) s)"
  by (simp add: bind_def upd_ctx_put)

lemma bind_sys: "f (m_os_world s) = (x, w) \<Longrightarrow> bind (sys f) g s = g x (s\<lparr>m_os_world := w\<rparr>)"
  by (simp add: sys_def bind_def)

lemma bind_msr_desc:
  "0 \<le> cpu \<Longrightarrow> cpu \<le> m_num_cpu s \<Longrightarrow> bind (msr_desc cpu) f s = f (m_file_desc s ! nat cpu) s"
  by (simp add: msr_desc_def bind_def gets_def guard_def)

lemma bind_msr_batch_desc: "bind msr_batch_desc f s = f (m_file_desc s ! nat (m_num_cpu s)) s"
  by (simp add: msr_batch_desc_def act_simps)

lemmas msr_exec = bind_ctx_at upd_ctx_put bind_upd_ctx bind_msr_desc bind_msr_batch_desc act_simps

lemma for_each_guard: "\<forall>x \<in> set xs. P x \<Longrightarrow> for_each (\<lambda>x. guard (P x) (e x)) xs s = (Inr (), s)"
  by (induction xs) (auto simp: act_simps)

lemma length_modify_ops [simp]: "length (modify_ops ops mks vs) = length ops"
  by (induction ops mks vs rule: modify_ops.induct) auto

lemma nth_modify_ops:
  "i < length ops \<Longrightarrow> length mks = length ops \<Longrightarrow> length vs = length ops \<Longrightarrow>
     modify_ops ops mks vs ! i = modify_op (ops ! i) (mks ! i) (vs ! i)"
proof (induction ops mks vs arbitrary: i rule: modify_ops.induct)
  case (1 op ops mk mks v vs)
  then show ?case by (cases i) auto
qed auto

subsection \<open>Reading and writing registers in a batch\<close>

lemma fold_update_distinct:
  assumes "distinct (map key xs)"
  shows "fold (\<lambda>x r. r(key x := g x (r (key x)))) xs r =
    (\<lambda>k. case map_of (map (\<lambda>x. (key x, x)) xs) k of None \<Rightarrow> r k | Some x \<Rightarrow> g x (r k))"
  using assms
proof (induction xs arbitrary: r)
  case (Cons x xs)
  then have "map_of (map (\<lambda>y. (key y, y)) xs) (key x) = None"
    by (simp add: map_of_eq_None_iff image_image)
  with Cons show ?case by (auto simp: fun_eq_iff split: option.splits)
qed auto

lemma masked_word:
  fixes r :: "64 word"
  assumes "v AND mk = v" "mk AND wm = mk"
  shows "(r AND NOT wm) OR (((r AND NOT mk) OR v) AND wm) = (r AND NOT mk) OR v"
proof (rule bit_eqI)
  fix j
  assume "possible_bit TYPE(64 word) j"
  have "bit v j \<Longrightarrow> bit mk j" "bit mk j \<Longrightarrow> bit wm j"
    using arg_cong[OF assms(1), of "\<lambda>x. bit x j"] arg_cong[OF assms(2), of "\<lambda>x. bit x j"]
    by (simp_all add: bit_simps) 
  then show "bit ((r AND NOT wm) OR (((r AND NOT mk) OR v) AND wm)) j = bit ((r AND NOT mk) OR v) j"
    by (auto simp: bit_simps)
qed

text \<open>
  The two ways of writing a batch come down to these two folds; both are the masked write of
  the pending values.
\<close>

lemma pending_nth:
  assumes "ctx_inv n c" "j < length (m_write_batch_op c)"
  shows "pending c (op_key (m_write_batch_op c ! j)) = Some (m_write_val c ! j, m_write_mask c ! j)"
  using assms map_of_zip_nth[of "map op_key (m_write_batch_op c)" "zip (m_write_val c) (m_write_mask c)" j]
    ctx_inv_distinct[OF assms(1)]
  by (simp add: pending_def ctx_inv_def)

lemma pending_None: "ctx_inv n c \<Longrightarrow> pending c k = None \<longleftrightarrow> k \<notin> op_key ` set (m_write_batch_op c)"
  by (simp add: pending_def ctx_inv_def map_of_zip_is_None)

lemma pending_cases:
  assumes "ctx_inv n c"
  obtains "pending c k = None" "k \<notin> op_key ` set (m_write_batch_op c)"
  | j where "j < length (m_write_batch_op c)" "k = op_key (m_write_batch_op c ! j)"
      "pending c k = Some (m_write_val c ! j, m_write_mask c ! j)"
proof (cases "k \<in> op_key ` set (m_write_batch_op c)")
  case True
  then obtain j where "j < length (m_write_batch_op c)" "k = op_key (m_write_batch_op c ! j)"
    by (auto simp: in_set_conv_nth)
  with pending_nth[OF assms] show ?thesis by (auto intro: that(2))
next
  case False
  with pending_None[OF assms, of k] show ?thesis by (intro that(1)) simp_all
qed

lemma fold_masked:
  assumes inv: "ctx_inv n c" and len: "length ops = length (m_write_batch_op c)"
    and nth: "\<And>j. j < length ops \<Longrightarrow> op_key (ops ! j) = op_key (m_write_batch_op c ! j) \<and>
      g (ops ! j) (r (op_key (ops ! j))) = (r (op_key (ops ! j)) AND NOT (m_write_mask c ! j)) OR m_write_val c ! j"
  shows "fold (\<lambda>op r. r(op_key op := g op (r (op_key op)))) ops r = masked_write (pending c) r"
proof -
  have keys: "map op_key ops = map op_key (m_write_batch_op c)"
    using len nth by (simp add: list_eq_iff_nth_eq)
  have dist: "distinct (map op_key ops)"
    using ctx_inv_distinct[OF inv] keys by simp
  have "(case map_of (map (\<lambda>x. (op_key x, x)) ops) k of None \<Rightarrow> r k | Some x \<Rightarrow> g x (r k)) = masked_write (pending c) r k" for k
  proof (cases rule: pending_cases[OF inv, of k])
    case 1
    then have "map_of (map (\<lambda>x. (op_key x, x)) ops) k = None"
      using keys by (simp add: map_of_eq_None_iff image_image) (metis image_set)
    with 1 show ?thesis by (simp add: masked_write_def)
  next
    case (2 j)
    then have k: "k = op_key (ops ! j)" and j: "j < length ops" using nth len by auto
    have "(k, ops ! j) \<in> set (map (\<lambda>x. (op_key x, x)) ops)"
      unfolding k set_map by (rule image_eqI[OF refl nth_mem[OF j]])
    then have "map_of (map (\<lambda>x. (op_key x, x)) ops) k = Some (ops ! j)"
      using dist by (intro map_of_is_SomeI) (auto simp: comp_def)
    moreover have "g (ops ! j) (r k) = (r k AND NOT (m_write_mask c ! j)) OR m_write_val c ! j"
      using nth[OF j] unfolding k by blast
    ultimately show ?thesis using 2(3) by (simp add: masked_write_def)
  qed
  then show ?thesis by (simp add: fold_update_distinct[OF dist] fun_eq_iff)
qed

lemma ctx_inv_maskD:
  "ctx_inv n c \<Longrightarrow> j < length (m_write_batch_op c) \<Longrightarrow>
    m_write_val c ! j AND m_write_mask c ! j = m_write_val c ! j \<and>
    m_write_mask c ! j AND op_wmask (m_write_batch_op c ! j) = m_write_mask c ! j"
  by (simp add: ctx_inv_def)

lemma ctx_inv_lengths:
  "ctx_inv n c \<Longrightarrow> length (m_write_val c) = length (m_write_batch_op c) \<and> length (m_write_mask c) = length (m_write_batch_op c)"
  by (simp add: ctx_inv_def)

lemma wrmsr_regs_masked:
  assumes inv: "ctx_inv n c" and wm: "\<forall>op \<in> set (m_write_batch_op c). op_wmask op = wm (op_msr op)"
  shows "fold (wrmsr_regs wm) (modify_ops (map (rdmsr_op r wm) (m_write_batch_op c)) (m_write_mask c) (m_write_val c)) r =
    masked_write (pending c) r"
  unfolding wrmsr_regs_def
proof (rule fold_masked[OF inv], goal_cases)
  case (2 j)
  then have j: "j < length (m_write_batch_op c)" by simp
  with wm have wm_j: "wm (op_msr (m_write_batch_op c ! j)) = op_wmask (m_write_batch_op c ! j)" by simp
  show ?case
    using j ctx_inv_lengths[OF inv] ctx_inv_maskD[OF inv j]
    by (simp add: nth_modify_ops modify_op_def rdmsr_op_def op_key_def wm_j masked_word)
qed simp

subsection \<open>The batch request path\<close>

lemma msr_ioctl_reads:
  assumes ok: "driver_ok os (m_file_desc s) (nat (m_num_cpu s)) regs wm"
    and i: "i < length (m_batch_context s)"
    and ops: "\<forall>op \<in> set (kind_ops k (m_batch_context s ! i)). unat (op_cpu op) < nat (m_num_cpu s) \<and> op_isrdmsr op = 1"
  obtains w where "msr_ioctl os k (int i) s = (Inr (), put_ctx i
      (set_kind_ops k (map (rdmsr_op (regs (m_os_world s)) wm) (kind_ops k (m_batch_context s ! i))) (m_batch_context s ! i))
      (s\<lparr>m_os_world := w\<rparr>))" "regs w = regs (m_os_world s)"
proof -
  let ?ops = "kind_ops k (m_batch_context s ! i)"
  from ops have "\<forall>op \<in> set ?ops. unat (op_cpu op) < nat (m_num_cpu s) \<and> op_isrdmsr op \<noteq> 0" by simp
  from driver_batch_read[OF ok this] obtain w where
    "os_msr_batch os (m_file_desc s ! nat (m_num_cpu s)) ?ops (m_os_world s) =
      ((0, map (rdmsr_op (regs (m_os_world s)) wm) ?ops), w)" "regs w = regs (m_os_world s)" by blast
  then show ?thesis using i
    by (intro that[of w])
      (auto simp: msr_ioctl_def msr_exec bind_sys for_each_guard rdmsr_op_def)
qed

lemma msr_ioctl_writes:
  assumes ok: "driver_ok os (m_file_desc s) (nat (m_num_cpu s)) regs wm"
    and i: "i < length (m_batch_context s)"
    and ops: "\<forall>op \<in> set (kind_ops k (m_batch_context s ! i)). unat (op_cpu op) < nat (m_num_cpu s) \<and> op_isrdmsr op = 0"
  obtains w where "msr_ioctl os k (int i) s = (Inr (), put_ctx i
      (set_kind_ops k (map (wrmsr_op wm) (kind_ops k (m_batch_context s ! i))) (m_batch_context s ! i))
      (s\<lparr>m_os_world := w\<rparr>))" "regs w = fold (wrmsr_regs wm) (kind_ops k (m_batch_context s ! i)) (regs (m_os_world s))"
proof -
  let ?ops = "kind_ops k (m_batch_context s ! i)"
  from driver_batch_write[OF ok ops] obtain w where
    "os_msr_batch os (m_file_desc s ! nat (m_num_cpu s)) ?ops (m_os_world s) = ((0, map (wrmsr_op wm) ?ops), w)"
    "regs w = fold (wrmsr_regs wm) ?ops (regs (m_os_world s))" by blast
  then show ?thesis using i
    by (intro that[of w])
      (auto simp: msr_ioctl_def msr_exec bind_sys for_each_guard wrmsr_op_def)
qed

definition written_ctx :: "batch_op list \<Rightarrow> batch_context \<Rightarrow> batch_context" where
  "written_ctx ops c = c\<lparr>
     m_write_batch := \<lparr>numops = length (m_write_batch_op c), ops_ptr = Some (length (m_write_batch_op c))\<rparr>,
     m_write_batch_op := ops, m_write_val := map (\<lambda>_. 0) (m_write_val c),
     m_write_mask := map (\<lambda>_. 0) (m_write_mask c), m_is_batch_read := True\<rparr>"

text \<open>The operations after a successful batch write: they hold the values that were written.\<close>

definition written_ops :: "(batch_op \<Rightarrow> batch_op) \<Rightarrow> registers \<Rightarrow> batch_context \<Rightarrow> batch_op list" where
  "written_ops f r c = map (\<lambda>op. op\<lparr>op_isrdmsr := 1\<rparr>)
     (modify_ops (map (\<lambda>op. f (op\<lparr>op_msrdata := r (op_key op)\<rparr>)) (m_write_batch_op c)) (m_write_mask c) (m_write_val c))"

lemma modify_ops_map:
  assumes "\<And>op mk v. f (modify_op op mk v) = modify_op (f op) mk v"
  shows "map f (modify_ops ops mks vs) = modify_ops (map f ops) mks vs"
  by (induction ops mks vs rule: modify_ops.induct) (auto simp: assms)

lemma modify_ops_isrdmsr:
  "length mks = length ops \<Longrightarrow> length vs = length ops \<Longrightarrow> \<forall>op \<in> set (modify_ops ops mks vs). op_isrdmsr op = 0"
  by (auto simp: in_set_conv_nth nth_modify_ops modify_op_def)

lemma modify_ops_cpu:
  "\<forall>op \<in> set ops. P (op_cpu op) \<Longrightarrow> \<forall>op \<in> set (modify_ops ops mks vs). P (op_cpu op)"
  by (induction ops mks vs rule: modify_ops.induct) (auto simp: modify_op_def)

lemma ctx_inv_ops:
  "ctx_inv n c \<Longrightarrow> \<forall>op \<in> set (m_write_batch_op c). unat (op_cpu op) < n \<and> op_isrdmsr op = 1"
  by (simp add: ctx_inv_def)

lemma msrio_invD:
  "msrio_inv s \<Longrightarrow> i < length (m_batch_context s) \<Longrightarrow>
     ctx_inv (nat (m_num_cpu s)) (m_batch_context s ! i) \<and> ctx_read_inv (nat (m_num_cpu s)) (m_batch_context s ! i)"
  by (simp add: msrio_inv_def)

definition armed_ctx :: "batch_context \<Rightarrow> batch_context" where
  "armed_ctx c = c\<lparr>m_write_batch := \<lparr>numops = length (m_write_batch_op c), ops_ptr = Some (length (m_write_batch_op c))\<rparr>\<rparr>"

lemma armed_ctx_simps [simp]:
  "m_write_batch_op (armed_ctx c) = m_write_batch_op c" "m_write_val (armed_ctx c) = m_write_val c"
  "m_write_mask (armed_ctx c) = m_write_mask c" "numops (m_write_batch (armed_ctx c)) = length (m_write_batch_op c)"
  by (simp_all add: armed_ctx_def)

lemma write_batch_path:
  assumes i: "i < length (m_batch_context s)"
    and path: "(if m_is_batch_enabled s then msr_ioctl_write os (int i) else msr_rmw_files os (int i))
        (put_ctx i (armed_ctx (m_batch_context s ! i)) s) =
      (Inr (), put_ctx i ((armed_ctx (m_batch_context s ! i))\<lparr>m_write_batch_op := ops\<rparr>) t)"
    and len: "length (m_batch_context t) = length (m_batch_context s)"
  shows "msrio_write_batch os (int i) s = (Inr (), put_ctx i (written_ctx ops (m_batch_context s ! i)) t)"
  using i path len
  by (simp add: msrio_write_batch_def msr_exec armed_ctx_def[symmetric] bind_Inr written_ctx_def)

lemma written_ops_Nil: "m_write_batch_op c = [] \<Longrightarrow> written_ops f r c = []"
  by (simp add: written_ops_def)

lemma pending_Nil: "m_write_batch_op c = [] \<Longrightarrow> masked_write (pending c) r = r"
  by (simp add: masked_write_def pending_def)

lemma armed_ctx_Nil: "m_write_batch_op c = [] \<Longrightarrow> (armed_ctx c)\<lparr>m_write_batch_op := []\<rparr> = armed_ctx c"
  by (cases c) (simp add: armed_ctx_def)

lemma modified_ops:
  assumes "ctx_inv n c" "\<And>op. op_cpu (f op) = op_cpu op"
  shows "\<forall>op \<in> set (modify_ops (map f (m_write_batch_op c)) (m_write_mask c) (m_write_val c)).
    unat (op_cpu op) < n \<and> op_isrdmsr op = 0"
  using assms modify_ops_isrdmsr[of "m_write_mask c" "map f (m_write_batch_op c)" "m_write_val c"]
    modify_ops_cpu[of "map f (m_write_batch_op c)" "\<lambda>x. unat x < n"] ctx_inv_ops[of n c] ctx_inv_lengths[of n c]
  by auto

lemma ioctl_ops:
  "map (\<lambda>op. op\<lparr>op_isrdmsr := 1\<rparr>) (map (wrmsr_op wm)
     (modify_ops (map (rdmsr_op r wm) (m_write_batch_op c)) (m_write_mask c) (m_write_val c))) =
   written_ops (wrmsr_op wm) r c"
proof -
  have "map (wrmsr_op wm) (modify_ops (map (rdmsr_op r wm) (m_write_batch_op c)) (m_write_mask c) (m_write_val c)) =
      modify_ops (map (wrmsr_op wm) (map (rdmsr_op r wm) (m_write_batch_op c))) (m_write_mask c) (m_write_val c)"
    by (rule modify_ops_map) (simp add: wrmsr_op_def modify_op_def)
  also have "map (wrmsr_op wm) (map (rdmsr_op r wm) (m_write_batch_op c)) =
      map (\<lambda>op. wrmsr_op wm (op\<lparr>op_msrdata := r (op_key op)\<rparr>)) (m_write_batch_op c)"
    by (simp add: wrmsr_op_def rdmsr_op_def)
  finally show ?thesis by (simp add: written_ops_def)
qed

lemma msr_ioctl_write_ok:
  assumes cinv: "ctx_inv (nat (m_num_cpu s)) c" and i: "i < length (m_batch_context s)"
    and ok: "driver_ok os (m_file_desc s) (nat (m_num_cpu s)) regs wm"
    and wm: "\<forall>op \<in> set (m_write_batch_op c). op_wmask op = wm (op_msr op)"
  obtains w where "msr_ioctl_write os (int i) (put_ctx i (armed_ctx c) s) = (Inr (), put_ctx i
      ((armed_ctx c)\<lparr>m_write_batch_op := written_ops (wrmsr_op wm) (regs (m_os_world s)) c\<rparr>) (s\<lparr>m_os_world := w\<rparr>))"
    "regs w = masked_write (pending c) (regs (m_os_world s))"
proof (cases "m_write_batch_op c = []")
  case True
  then have "msr_ioctl_write os (int i) (put_ctx i (armed_ctx c) s) = (Inr (), put_ctx i (armed_ctx c) s)"
    using i by (simp add: msr_ioctl_write_def msr_exec)
  with True show ?thesis
    by (intro that[of "m_os_world s"]) (simp_all add: written_ops_Nil pending_Nil armed_ctx_Nil)
next
  case False
  let ?r = "regs (m_os_world s)"
  let ?ops3 = "modify_ops (map (rdmsr_op ?r wm) (m_write_batch_op c)) (m_write_mask c) (m_write_val c)"
  note len = ctx_inv_lengths[OF cinv]
  obtain w where rd: "msr_ioctl os Write_batch (int i) (put_ctx i (armed_ctx c) s) =
      (Inr (), put_ctx i ((armed_ctx c)\<lparr>m_write_batch_op := map (rdmsr_op ?r wm) (m_write_batch_op c)\<rparr>) (s\<lparr>m_os_world := w\<rparr>))"
    and w: "regs w = ?r"
    by (rule msr_ioctl_reads[of os "put_ctx i (armed_ctx c) s" regs wm i Write_batch])
      (use ok i ctx_inv_ops[OF cinv] in auto)
  let ?s3 = "put_ctx i ((armed_ctx c)\<lparr>m_write_batch_op := ?ops3\<rparr>) (s\<lparr>m_os_world := w\<rparr>)"
  have ops3: "\<forall>op \<in> set ?ops3. unat (op_cpu op) < nat (m_num_cpu s) \<and> op_isrdmsr op = 0"
    by (rule modified_ops[OF cinv]) (simp add: rdmsr_op_def)
  obtain w' where wr: "msr_ioctl os Write_batch (int i) ?s3 =
      (Inr (), put_ctx i ((armed_ctx c)\<lparr>m_write_batch_op := map (wrmsr_op wm) ?ops3\<rparr>) (s\<lparr>m_os_world := w'\<rparr>))"
    and w': "regs w' = fold (wrmsr_regs wm) ?ops3 ?r"
    by (rule msr_ioctl_writes[of os ?s3 regs wm i Write_batch]) (use ok i ops3 w in auto)
  have "msr_ioctl_write os (int i) (put_ctx i (armed_ctx c) s) = (Inr (), put_ctx i
      ((armed_ctx c)\<lparr>m_write_batch_op := written_ops (wrmsr_op wm) ?r c\<rparr>) (s\<lparr>m_os_world := w'\<rparr>))"
    using i False len rd wr
    by (simp add: msr_ioctl_write_def msr_exec bind_Inr modify_step_def reset_isrdmsr_def ioctl_ops[symmetric])
  moreover have "regs w' = masked_write (pending c) ?r"
    unfolding w' by (rule wrmsr_regs_masked[OF cinv wm])
  ultimately show ?thesis by (rule that)
qed

subsection \<open>The file path\<close>

lemma map_action_append:
  "map_action f (xs @ ys) s = bind (map_action f xs) (\<lambda>a. bind (map_action f ys) (\<lambda>b. ret (a @ b))) s"
proof (induction xs arbitrary: s)
  case Nil
  show ?case by (simp add: bind_def ret_def split: prod.splits sum.splits)
next
  case (Cons x xs)
  then show ?case by (auto simp: bind_def ret_def split: prod.splits sum.splits)
qed

lemma map_action_snoc:
  "map_action f xs s = (Inr a, t) \<Longrightarrow> f x t = (Inr b, u) \<Longrightarrow> map_action f (xs @ [x]) s = (Inr (a @ [b]), u)"
  by (simp add: map_action_append bind_def ret_def)

definition file_op :: "int list \<Rightarrow> batch_kind \<Rightarrow> nat \<Rightarrow> batch_op list \<Rightarrow> nat \<Rightarrow> uring_op" where
  "file_op fds k i ops j = \<lparr>u_is_read = (op_isrdmsr (ops ! j) \<noteq> 0), u_fd = fds ! unat (op_cpu (ops ! j)),
     u_ctx = i, u_kind = k, u_idx = j, u_offset = ucast (op_msr (ops ! j))\<rparr>"

definition read_op :: "registers \<Rightarrow> batch_op \<Rightarrow> batch_op" where
  "read_op r op = op\<lparr>op_msrdata := r (op_key op)\<rparr>"

lemma kind_ops_set [simp]: "kind_ops k (set_kind_ops k xs c) = xs"
  by (cases k) auto

lemma set_kind_ops_twice [simp]: "set_kind_ops k ys (set_kind_ops k xs c) = set_kind_ops k ys c"
  by (cases k) auto

lemma set_kind_ops_same [simp]: "set_kind_ops k (kind_ops k c) c = c"
  by (cases k) auto

lemma put_ctx_same [simp]: "i < length (m_batch_context s) \<Longrightarrow> put_ctx i (m_batch_context s ! i) s = s"
  by (simp add: put_ctx_def)

lemma uring_exec_read:
  assumes ok: "driver_ok os (m_file_desc s) n regs wm" and i: "i < length (m_batch_context s)"
    and c: "c = m_batch_context s ! i" and j: "j < length (kind_ops k c)"
    and u: "u = file_op (m_file_desc s) k i ops j"
    and op: "op_isrdmsr (ops ! j) \<noteq> 0" "unat (op_cpu (ops ! j)) < n" "kind_ops k c ! j = ops ! j"
  shows "uring_exec os u s = (Inr 8, put_ctx i
    (set_kind_ops k ((kind_ops k c)[j := read_op (regs (m_os_world s)) (ops ! j)]) c) s)"
  using i j op unfolding c u
  by (simp add: uring_exec_def file_op_def act_simps bind_sys[OF driver_pread[OF ok]] set_buffer_def
      bind_upd_ctx uring_status_def read_op_def op_key_def)

lemma exec_reads:
  assumes ok: "driver_ok os (m_file_desc s) n regs wm" and i: "i < length (m_batch_context s)"
    and ops: "ops = kind_ops k (m_batch_context s ! i)"
    and rd: "\<forall>op \<in> set ops. unat (op_cpu op) < n \<and> op_isrdmsr op \<noteq> 0"
    and m: "m \<le> length ops"
  shows "map_action (uring_exec os) (map (file_op (m_file_desc s) k i ops) [0..<m]) s =
    (Inr (replicate m 8), put_ctx i (set_kind_ops k
      (map (read_op (regs (m_os_world s))) (take m ops) @ drop m ops) (m_batch_context s ! i)) s)"
  using m
proof (induction m)
  case 0
  show ?case using i by (simp add: ops)
next
  case (Suc m)
  let ?rd = "read_op (regs (m_os_world s))"
  let ?t = "put_ctx i (set_kind_ops k (map ?rd (take m ops) @ drop m ops) (m_batch_context s ! i)) s"
  from Suc.prems have m: "m < length ops" by simp
  have "uring_exec os (file_op (m_file_desc s) k i ops m) ?t = (Inr 8, put_ctx i (set_kind_ops k
      ((map ?rd (take m ops) @ drop m ops)[m := ?rd (ops ! m)]) (m_batch_context s ! i)) s)"
    using ok i m rd by (subst uring_exec_read[where n = n and regs = regs and wm = wm and i = i and k = k and j = m and ops = ops]) (auto simp: nth_append)
  moreover have "(map ?rd (take m ops) @ drop m ops)[m := ?rd (ops ! m)] = map ?rd (take (Suc m) ops) @ drop (Suc m) ops"
    using m by (simp add: list_update_append Cons_nth_drop_Suc[symmetric] take_Suc_snoc)
  ultimately show ?case
    using Suc by (simp add: map_action_snoc replicate_append_same[symmetric])
qed

definition write_op :: "batch_op \<Rightarrow> registers \<Rightarrow> registers" where
  "write_op op r = r(op_key op := op_msrdata op)"

lemma exec_writes:
  assumes ok: "driver_ok os (m_file_desc s) n regs wm" and i: "i < length (m_batch_context s)"
    and ops: "ops = kind_ops k (m_batch_context s ! i)"
    and wr: "\<forall>op \<in> set ops. unat (op_cpu op) < n \<and> op_isrdmsr op = 0"
    and m: "m \<le> length ops"
  shows "\<exists>w. map_action (uring_exec os) (map (file_op (m_file_desc s) k i ops) [0..<m]) s =
    (Inr (replicate m 8), s\<lparr>m_os_world := w\<rparr>) \<and> regs w = fold write_op (take m ops) (regs (m_os_world s))"
  using m
proof (induction m)
  case 0
  show ?case by (intro exI[of _ "m_os_world s"]) simp
next
  case (Suc m)
  then obtain w where IH: "map_action (uring_exec os) (map (file_op (m_file_desc s) k i ops) [0..<m]) s =
      (Inr (replicate m 8), s\<lparr>m_os_world := w\<rparr>)" "regs w = fold write_op (take m ops) (regs (m_os_world s))" by auto
  from Suc.prems have m: "m < length ops" by simp
  with wr have op: "unat (op_cpu (ops ! m)) < n" "op_isrdmsr (ops ! m) = 0" by auto
  obtain w' where "os_pwrite os (m_file_desc s ! unat (op_cpu (ops ! m))) (op_msrdata (ops ! m)) (ucast (op_msr (ops ! m))) w = (8, w')"
    "regs w' = (regs w)(op_key (ops ! m) := op_msrdata (ops ! m))"
    using driver_pwrite[OF ok op(1)] unfolding op_key_def by blast
  moreover from this(1) have "uring_exec os (file_op (m_file_desc s) k i ops m) (s\<lparr>m_os_world := w\<rparr>) = (Inr 8, s\<lparr>m_os_world := w'\<rparr>)"
    using op(2) by (simp add: uring_exec_def file_op_def act_simps buffer_def ops[symmetric] bind_sys uring_status_def)
  ultimately show ?case
    using IH m by (intro exI[of _ w']) (simp add: map_action_snoc replicate_append_same[symmetric] take_Suc_snoc write_op_def[of "ops ! m"])
qed

definition idle :: "batch_kind \<Rightarrow> 'w msrio \<Rightarrow> 'w msrio" where
  "idle k s = set_uring k (Some []) s"

lemma set_uring_simps [simp]:
  "uring k (set_uring k q s) = q" "set_uring k q' (set_uring k q s) = set_uring k q' s"
  "m_num_cpu (set_uring k q s) = m_num_cpu s" "m_file_desc (set_uring k q s) = m_file_desc s"
  "m_batch_context (set_uring k q s) = m_batch_context s" "m_os_world (set_uring k q s) = m_os_world s"
  "m_is_batch_enabled (set_uring k q s) = m_is_batch_enabled s"
  "uring k s = q \<Longrightarrow> set_uring k q s = s"
  "set_uring k q (put_ctx i c s) = put_ctx i c (set_uring k q s)"
  "set_uring k q (s\<lparr>m_os_world := w\<rparr>) = (set_uring k q s)\<lparr>m_os_world := w\<rparr>"
  by (cases k; auto simp: put_ctx_def)+

definition prep_body :: "batch_kind \<Rightarrow> nat \<Rightarrow> batch_op list \<Rightarrow> nat \<Rightarrow> ('w msrio, unit) action" where
  "prep_body k i ops j = (let op = ops ! j in bind (msr_desc (uint (op_cpu op))) (\<lambda>fd.
      uring_prep k \<lparr>u_is_read = (op_isrdmsr op \<noteq> 0), u_fd = fd, u_ctx = i, u_kind = k,
         u_idx = j, u_offset = ucast (op_msr op)\<rparr>))"

lemma prep_step:
  assumes "unat (op_cpu (ops ! j)) < nat (m_num_cpu s)" "uring k s = Some q"
  shows "prep_body k i ops j s = (Inr (), set_uring k (Some (q @ [file_op (m_file_desc s) k i ops j])) s)"
proof -
  have "int (unat (op_cpu (ops ! j))) = uint (op_cpu (ops ! j))" by simp
  with assms(1) have "uint (op_cpu (ops ! j)) \<le> m_num_cpu s" by linarith
  then have "prep_body k i ops j s = uring_prep k \<lparr>u_is_read = (op_isrdmsr (ops ! j) \<noteq> 0),
      u_fd = m_file_desc s ! nat (uint (op_cpu (ops ! j))), u_ctx = i, u_kind = k,
      u_idx = j, u_offset = ucast (op_msr (ops ! j))\<rparr> s"
    by (simp only: prep_body_def Let_def bind_msr_desc uint_0_iff uint_ge_0)
  with assms(2) show ?thesis by (simp add: uring_prep_def modify_def file_op_def)
qed

lemma prep_loop:
  assumes "\<forall>j \<in> set js. unat (op_cpu (ops ! j)) < nat (m_num_cpu s)" "uring k s = Some q"
  shows "for_each (prep_body k i ops) js s =
    (Inr (), set_uring k (Some (q @ map (file_op (m_file_desc s) k i ops) js)) s)"
  using assms
proof (induction js arbitrary: s q)
  case (Cons j js)
  let ?t = "set_uring k (Some (q @ [file_op (m_file_desc s) k i ops j])) s"
  have "for_each (prep_body k i ops) (j # js) s = for_each (prep_body k i ops) js ?t"
    using Cons.prems by (simp add: bind_Inr prep_step)
  also have "\<dots> = (Inr (), set_uring k (Some ((q @ [file_op (m_file_desc s) k i ops j]) @ map (file_op (m_file_desc ?t) k i ops) js)) ?t)"
    using Cons.prems by (intro Cons.IH) auto
  finally show ?case by simp
qed simp

lemma batch_io_step:
  assumes "i < length (m_batch_context s)" "uring k s = Some []"
    and c: "c = m_batch_context s ! i" and ops: "ops = kind_ops k c"
    and n: "numops (kind_array k c) = length ops"
    and cpus: "\<forall>op \<in> set ops. unat (op_cpu op) < nat (m_num_cpu s)"
    and exec: "map_action (uring_exec os) (map (file_op (m_file_desc s) k i ops) [0..<length ops]) (set_uring k (Some (map (file_op (m_file_desc s) k i ops) [0..<length ops])) s) =
      (Inr (replicate (length ops) 8), t)"
  shows "msr_batch_io os k (int i) s = (Inr (), set_uring k (Some []) t)"
proof -
  have "\<forall>j \<in> set [0..<length ops]. unat (op_cpu (ops ! j)) < nat (m_num_cpu s)" using cpus by simp
  note prep = prep_loop[OF this assms(2), of i]
  show ?thesis
    using assms(1,2) exec prep
    by (simp add: msr_batch_io_def msr_exec prep_body_def[symmetric] c[symmetric] ops[symmetric] n bind_Inr uring_submit_def for_each_guard)
qed

lemma files_read:
  assumes ok: "driver_ok os (m_file_desc s) (nat (m_num_cpu s)) regs wm" and i: "i < length (m_batch_context s)"
    and q: "uring k s = Some []" and c: "c = m_batch_context s ! i"
    and n: "numops (kind_array k c) = length (kind_ops k c)"
    and rd: "\<forall>op \<in> set (kind_ops k c). unat (op_cpu op) < nat (m_num_cpu s) \<and> op_isrdmsr op = 1"
  shows "msr_batch_io os k (int i) s =
    (Inr (), put_ctx i (set_kind_ops k (map (read_op (regs (m_os_world s))) (kind_ops k c)) c) s)"
proof -
  let ?s = "set_uring k (Some (map (file_op (m_file_desc s) k i (kind_ops k c)) [0..<length (kind_ops k c)])) s"
  have "\<forall>op \<in> set (kind_ops k c). unat (op_cpu op) < nat (m_num_cpu s) \<and> op_isrdmsr op \<noteq> 0"
    using rd by simp
  then have "map_action (uring_exec os) (map (file_op (m_file_desc s) k i (kind_ops k c)) [0..<length (kind_ops k c)]) ?s =
      (Inr (replicate (length (kind_ops k c)) 8), put_ctx i (set_kind_ops k (map (read_op (regs (m_os_world s))) (kind_ops k c)) c) ?s)"
    using exec_reads[of os ?s "nat (m_num_cpu s)" regs wm i "kind_ops k c" k "length (kind_ops k c)"] ok i
    by (simp add: c)
  from batch_io_step[OF i q c refl n _ this] rd q show ?thesis by simp
qed

lemma files_write:
  assumes ok: "driver_ok os (m_file_desc s) (nat (m_num_cpu s)) regs wm" and i: "i < length (m_batch_context s)"
    and q: "uring k s = Some []" and c: "c = m_batch_context s ! i"
    and n: "numops (kind_array k c) = length (kind_ops k c)"
    and wr: "\<forall>op \<in> set (kind_ops k c). unat (op_cpu op) < nat (m_num_cpu s) \<and> op_isrdmsr op = 0"
  obtains w where "msr_batch_io os k (int i) s = (Inr (), s\<lparr>m_os_world := w\<rparr>)"
    "regs w = fold write_op (kind_ops k c) (regs (m_os_world s))"
proof -
  let ?s = "set_uring k (Some (map (file_op (m_file_desc s) k i (kind_ops k c)) [0..<length (kind_ops k c)])) s"
  obtain w where "map_action (uring_exec os) (map (file_op (m_file_desc s) k i (kind_ops k c)) [0..<length (kind_ops k c)]) ?s =
      (Inr (replicate (length (kind_ops k c)) 8), ?s\<lparr>m_os_world := w\<rparr>)"
    "regs w = fold write_op (kind_ops k c) (regs (m_os_world s))"
    using exec_writes[of os ?s "nat (m_num_cpu s)" regs wm i "kind_ops k c" k "length (kind_ops k c)"] ok i wr
    by (auto simp: c)
  moreover from batch_io_step[OF i q c refl n _ this(1)] wr q
  have "msr_batch_io os k (int i) s = (Inr (), s\<lparr>m_os_world := w\<rparr>)" by simp
  ultimately show ?thesis by (intro that)
qed

lemma write_op_masked:
  assumes inv: "ctx_inv n c"
  shows "fold write_op (modify_ops (map (read_op r) (m_write_batch_op c)) (m_write_mask c) (m_write_val c)) r =
    masked_write (pending c) r"
  unfolding write_op_def
proof (rule fold_masked[OF inv, where g = "\<lambda>op _. op_msrdata op"], goal_cases)
  case (2 j)
  then have j: "j < length (m_write_batch_op c)" by simp
  then show ?case
    using ctx_inv_lengths[OF inv] by (simp add: nth_modify_ops modify_op_def read_op_def op_key_def)
qed simp

lemma files_ops:
  "map (\<lambda>op. op\<lparr>op_isrdmsr := 1\<rparr>) (modify_ops (map (read_op r) (m_write_batch_op c)) (m_write_mask c) (m_write_val c)) =
   written_ops (\<lambda>op. op) r c"
proof -
  have "read_op r = (\<lambda>op. op\<lparr>op_msrdata := r (op_key op)\<rparr>)" by (simp add: fun_eq_iff read_op_def)
  then show ?thesis by (simp add: written_ops_def)
qed

definition ready :: "batch_kind \<Rightarrow> 'w msrio \<Rightarrow> 'w msrio" where
  "ready k s = (if uring k s = None then set_uring k (Some []) s else s)"

lemma ready_simps [simp]:
  "m_num_cpu (ready k s) = m_num_cpu s" "m_file_desc (ready k s) = m_file_desc s"
  "m_batch_context (ready k s) = m_batch_context s" "m_os_world (ready k s) = m_os_world s"
  "m_is_batch_enabled (ready k s) = m_is_batch_enabled s"
  "ready k (put_ctx i c s) = put_ctx i c (ready k s)"
  "uring k s \<in> {None, Some []} \<Longrightarrow> uring k (ready k s) = Some []"
  "m_batch_reader s = None \<or> m_batch_reader s = Some [] \<Longrightarrow> m_batch_reader (ready Read_batch s) = Some []"
  "m_batch_writer s = None \<or> m_batch_writer s = Some [] \<Longrightarrow> m_batch_writer (ready Write_batch s) = Some []"
  "m_batch_reader (ready Write_batch s) = m_batch_reader s" "m_batch_writer (ready Read_batch s) = m_batch_writer s"
  "m_offset_mask_map (ready k s) = m_offset_mask_map s"
  "(ready k s)\<lparr>m_os_world := m_os_world s\<rparr> = ready k s"
  by (cases k; auto simp: ready_def)+

lemma make_uring_ready: "make_uring k s = (Inr (), ready k s)"
  by (simp add: make_uring_def modify_def ready_def)

lemma msr_rmw_files_ok:
  assumes cinv: "ctx_inv (nat (m_num_cpu s)) c" and i: "i < length (m_batch_context s)"
    and q: "uring Write_batch s \<in> {None, Some []}"
    and ok: "driver_ok os (m_file_desc s) (nat (m_num_cpu s)) regs wm"
  obtains w t where "msr_rmw_files os (int i) (put_ctx i (armed_ctx c) s) = (Inr (), put_ctx i
      ((armed_ctx c)\<lparr>m_write_batch_op := written_ops (\<lambda>op. op) (regs (m_os_world s)) c\<rparr>) (t\<lparr>m_os_world := w\<rparr>))"
    "regs w = masked_write (pending c) (regs (m_os_world s))" "t = s \<or> t = ready Write_batch s"
proof (cases "m_write_batch_op c = []")
  case True
  then have "msr_rmw_files os (int i) (put_ctx i (armed_ctx c) s) = (Inr (), put_ctx i (armed_ctx c) s)"
    using i by (simp add: msr_rmw_files_def msr_exec)
  with True show ?thesis
    by (intro that[of "m_os_world s" s]) (simp_all add: written_ops_Nil pending_Nil armed_ctx_Nil)
next
  case False
  let ?r = "regs (m_os_world s)" and ?t = "ready Write_batch s"
  let ?ops2 = "map (read_op ?r) (m_write_batch_op c)"
  let ?ops3 = "modify_ops ?ops2 (m_write_mask c) (m_write_val c)"
  note len = ctx_inv_lengths[OF cinv]
  have rd: "msr_batch_io os Write_batch (int i) (put_ctx i (armed_ctx c) ?t) =
      (Inr (), put_ctx i ((armed_ctx c)\<lparr>m_write_batch_op := ?ops2\<rparr>) ?t)"
    using files_read[of os "put_ctx i (armed_ctx c) ?t" regs wm i Write_batch "armed_ctx c"] ok i q ctx_inv_ops[OF cinv]
    by simp
  let ?s3 = "put_ctx i ((armed_ctx c)\<lparr>m_write_batch_op := ?ops3\<rparr>) ?t"
  have ops3: "\<forall>op \<in> set ?ops3. unat (op_cpu op) < nat (m_num_cpu s) \<and> op_isrdmsr op = 0"
    by (rule modified_ops[OF cinv]) (simp add: read_op_def)
  obtain w where wr: "msr_batch_io os Write_batch (int i) ?s3 = (Inr (), ?s3\<lparr>m_os_world := w\<rparr>)"
    and w: "regs w = fold write_op ?ops3 ?r"
    by (rule files_write[of os ?s3 regs wm i Write_batch "(armed_ctx c)\<lparr>m_write_batch_op := ?ops3\<rparr>"])
      (use ok i q ops3 in auto)
  have "msr_rmw_files os (int i) (put_ctx i (armed_ctx c) s) = (Inr (), put_ctx i
      ((armed_ctx c)\<lparr>m_write_batch_op := written_ops (\<lambda>op. op) ?r c\<rparr>) (?t\<lparr>m_os_world := w\<rparr>))"
    using i False len rd wr
    by (simp add: msr_rmw_files_def msr_exec bind_Inr[OF make_uring_ready] bind_Inr modify_step_def reset_isrdmsr_def files_ops[symmetric])
  moreover have "regs w = masked_write (pending c) ?r"
    unfolding w by (rule write_op_masked[OF cinv])
  ultimately show ?thesis by (rule that) simp
qed

text \<open>
  What the batch writes promise: after a successful write the registers are the masked write of
  the pending values, nothing is pending, and the context only differs in the data of its
  operations.
\<close>

definition masks_known :: "(32 word \<Rightarrow> 64 word) \<Rightarrow> 'w msrio \<Rightarrow> bool" where
  "masks_known wm s \<longleftrightarrow> (m_is_batch_enabled s \<longrightarrow>
     (\<forall>c \<in> set (m_batch_context s). \<forall>op \<in> set (m_write_batch_op c). op_wmask op = wm (op_msr op)) \<and>
     (\<forall>off mk. m_offset_mask_map s off = Some mk \<longrightarrow> mk = wm (ucast off)))"

lemma write_batch_ok:
  assumes inv: "msrio_inv s" and i: "i < length (m_batch_context s)"
    and ok: "driver_ok os (m_file_desc s) (nat (m_num_cpu s)) regs wm" and wm: "masks_known wm s"
  obtains f t w where "msrio_write_batch os (int i) s = (Inr (), put_ctx i
      (written_ctx (written_ops f (regs (m_os_world s)) (m_batch_context s ! i)) (m_batch_context s ! i)) (t\<lparr>m_os_world := w\<rparr>))"
    "regs w = masked_write (pending (m_batch_context s ! i)) (regs (m_os_world s))"
    "t = s \<or> t = ready Write_batch s" "f = (\<lambda>op. op) \<and> \<not> m_is_batch_enabled s \<or> f = wrmsr_op wm \<and> m_is_batch_enabled s"
proof -
  let ?c = "m_batch_context s ! i"
  have cinv: "ctx_inv (nat (m_num_cpu s)) ?c" using msrio_invD[OF inv i] by simp
  have q: "uring Write_batch s \<in> {None, Some []}" using inv by (simp add: msrio_inv_def)
  show ?thesis
  proof (cases "m_is_batch_enabled s")
    case True
    have "\<forall>op \<in> set (m_write_batch_op ?c). op_wmask op = wm (op_msr op)"
      using wm True nth_mem[OF i] by (simp add: masks_known_def)
    from msr_ioctl_write_ok[OF cinv i ok this] obtain w where
      "msr_ioctl_write os (int i) (put_ctx i (armed_ctx ?c) s) = (Inr (), put_ctx i
        ((armed_ctx ?c)\<lparr>m_write_batch_op := written_ops (wrmsr_op wm) (regs (m_os_world s)) ?c\<rparr>) (s\<lparr>m_os_world := w\<rparr>))"
      and w: "regs w = masked_write (pending ?c) (regs (m_os_world s))" by blast
    with True i write_batch_path[OF i, of os _ "s\<lparr>m_os_world := w\<rparr>"]
    show ?thesis by (intro that[of "wrmsr_op wm" w s]) simp_all
  next
    case False
    from msr_rmw_files_ok[OF cinv i q ok] obtain w t where
      "msr_rmw_files os (int i) (put_ctx i (armed_ctx ?c) s) = (Inr (), put_ctx i
        ((armed_ctx ?c)\<lparr>m_write_batch_op := written_ops (\<lambda>op. op) (regs (m_os_world s)) ?c\<rparr>) (t\<lparr>m_os_world := w\<rparr>))"
      and w: "regs w = masked_write (pending ?c) (regs (m_os_world s))" and t: "t = s \<or> t = ready Write_batch s" by blast
    moreover from t have "length (m_batch_context (t\<lparr>m_os_world := w\<rparr>)) = length (m_batch_context s)" by auto
    ultimately show ?thesis using False i write_batch_path[OF i, of os _ "t\<lparr>m_os_world := w\<rparr>"]
      by (intro that[of "\<lambda>op. op" w t]) simp_all
  qed
qed

subsection \<open>Reading a batch\<close>

definition read_ctx :: "batch_op list \<Rightarrow> batch_context \<Rightarrow> batch_context" where
  "read_ctx ops c = c\<lparr>
     m_read_batch := \<lparr>numops = length (m_read_batch_op c), ops_ptr = Some (length (m_read_batch_op c))\<rparr>,
     m_read_batch_op := ops, m_is_batch_read := True\<rparr>"

definition armed_read_ctx :: "batch_context \<Rightarrow> batch_context" where
  "armed_read_ctx c = c\<lparr>m_read_batch := \<lparr>numops = length (m_read_batch_op c), ops_ptr = Some (length (m_read_batch_op c))\<rparr>\<rparr>"

lemma armed_read_ctx_simps [simp]:
  "m_read_batch_op (armed_read_ctx c) = m_read_batch_op c"
  "numops (m_read_batch (armed_read_ctx c)) = length (m_read_batch_op c)"
  by (simp_all add: armed_read_ctx_def)

lemma read_batch_path:
  assumes i: "i < length (m_batch_context s)"
    and path: "(if m_is_batch_enabled s then msr_ioctl_read os (int i) else msr_read_files os (int i))
        (put_ctx i (armed_read_ctx (m_batch_context s ! i)) s) =
      (Inr (), put_ctx i ((armed_read_ctx (m_batch_context s ! i))\<lparr>m_read_batch_op := ops\<rparr>) t)"
    and len: "length (m_batch_context t) = length (m_batch_context s)"
  shows "msrio_read_batch os (int i) s = (Inr (), put_ctx i (read_ctx ops (m_batch_context s ! i)) t)"
  using i path len
  by (simp add: msrio_read_batch_def msr_exec armed_read_ctx_def[symmetric] bind_Inr)
    (simp add: armed_read_ctx_def read_ctx_def)

lemma read_batch_ok:
  assumes inv: "msrio_inv s" and i: "i < length (m_batch_context s)"
    and ok: "driver_ok os (m_file_desc s) (nat (m_num_cpu s)) regs wm"
  obtains f t w where "msrio_read_batch os (int i) s = (Inr (), put_ctx i
      (read_ctx (map f (m_read_batch_op (m_batch_context s ! i))) (m_batch_context s ! i)) (t\<lparr>m_os_world := w\<rparr>))"
    "regs w = regs (m_os_world s)" "t = s \<or> t = ready Read_batch s"
    "f = read_op (regs (m_os_world s)) \<or> f = rdmsr_op (regs (m_os_world s)) wm"
proof -
  let ?c = "m_batch_context s ! i" and ?r = "regs (m_os_world s)"
  let ?c1 = "armed_read_ctx ?c"
  have rinv: "\<forall>op \<in> set (m_read_batch_op ?c). unat (op_cpu op) < nat (m_num_cpu s) \<and> op_isrdmsr op = 1"
    using msrio_invD[OF inv i] by (simp add: ctx_read_inv_def)
  have q: "m_batch_reader s = None \<or> m_batch_reader s = Some []" using inv by (auto simp: msrio_inv_def)
  consider (empty) "m_read_batch_op ?c = []" | (ioctl) "m_read_batch_op ?c \<noteq> []" "m_is_batch_enabled s"
    | (files) "m_read_batch_op ?c \<noteq> []" "\<not> m_is_batch_enabled s" by blast
  then show ?thesis
  proof cases
    case empty
    then have "?c1\<lparr>m_read_batch_op := []\<rparr> = ?c1" by (cases ?c) (simp add: armed_read_ctx_def)
    with empty i read_batch_path[OF i, of os "[]" s]
    show ?thesis by (intro that[of "read_op ?r" "m_os_world s" s])
      (simp_all add: msr_ioctl_read_def msr_read_files_def msr_exec)
  next
    case ioctl
    obtain w where w: "msr_ioctl os Read_batch (int i) (put_ctx i ?c1 s) =
        (Inr (), put_ctx i (?c1\<lparr>m_read_batch_op := map (rdmsr_op ?r wm) (m_read_batch_op ?c)\<rparr>) (s\<lparr>m_os_world := w\<rparr>))"
        "regs w = ?r"
      by (rule msr_ioctl_reads[of os "put_ctx i ?c1 s" regs wm i Read_batch]) (use ok i rinv in auto)
    with ioctl i read_batch_path[OF i, of os _ "s\<lparr>m_os_world := w\<rparr>"]
    show ?thesis by (intro that[of "rdmsr_op ?r wm" w s]) (simp_all add: msr_ioctl_read_def msr_exec)
  next
    case files
    let ?t = "ready Read_batch s"
    have "msr_batch_io os Read_batch (int i) (put_ctx i ?c1 ?t) =
        (Inr (), put_ctx i (?c1\<lparr>m_read_batch_op := map (read_op ?r) (m_read_batch_op ?c)\<rparr>) ?t)"
      using files_read[of os "put_ctx i ?c1 ?t" regs wm i Read_batch ?c1] ok i q rinv by simp
    with files i read_batch_path[OF i, of os _ "?t\<lparr>m_os_world := m_os_world s\<rparr>"]
    show ?thesis by (intro that[of "read_op ?r" "m_os_world s" ?t])
      (simp_all add: msr_read_files_def msr_exec bind_Inr[OF make_uring_ready])
  qed
qed

section \<open>Invariants\<close>

lemma msrio_inv_put:
  "msrio_inv s \<Longrightarrow> ctx_inv (nat (m_num_cpu s)) c \<Longrightarrow> ctx_read_inv (nat (m_num_cpu s)) c \<Longrightarrow> msrio_inv (put_ctx i c s)"
  by (auto simp: msrio_inv_def put_ctx_def dest: set_update_subset_insert[THEN subsetD])

lemma msrio_inv_world [simp]: "msrio_inv (s\<lparr>m_os_world := w\<rparr>) = msrio_inv s"
  by (simp add: msrio_inv_def)

lemma msrio_inv_ready: "msrio_inv s \<Longrightarrow> msrio_inv (ready k s)"
  by (cases k) (auto simp: msrio_inv_def ready_def)

lemma ctx_inv_new: "ctx_inv (nat n) (batch_context_new n)" "ctx_read_inv (nat n) (batch_context_new n)"
  by (simp_all add: ctx_inv_def ctx_read_inv_def batch_context_new_def index_ok_def)

lemma ctx_inv_replaced:
  assumes "ctx_inv n c" "length ops = length (m_write_batch_op c)"
    "\<And>j. j < length ops \<Longrightarrow> op_cpu (ops ! j) = op_cpu (m_write_batch_op c ! j) \<and>
       op_msr (ops ! j) = op_msr (m_write_batch_op c ! j) \<and> op_isrdmsr (ops ! j) = 1"
  shows "ctx_inv n (written_ctx ops c)"
proof -
  have "map op_key ops = map op_key (m_write_batch_op c)"
    using assms by (simp add: list_eq_iff_nth_eq op_key_def)
  then show ?thesis using assms
    unfolding ctx_inv_def written_ctx_def by (auto simp: all_set_conv_all_nth)
qed

lemma written_ops_nth:
  assumes "ctx_inv n c" "j < length (m_write_batch_op c)" "f = (\<lambda>op. op) \<or> f = wrmsr_op wm"
  shows "op_cpu (written_ops f r c ! j) = op_cpu (m_write_batch_op c ! j) \<and>
    op_msr (written_ops f r c ! j) = op_msr (m_write_batch_op c ! j) \<and> op_isrdmsr (written_ops f r c ! j) = 1 \<and>
    op_wmask (written_ops f r c ! j) = (if f = (\<lambda>op. op) then op_wmask (m_write_batch_op c ! j) else wm (op_msr (m_write_batch_op c ! j)))"
  using assms ctx_inv_lengths[OF assms(1)]
  by (auto simp: written_ops_def nth_modify_ops modify_op_def wrmsr_op_def fun_eq_iff)

lemma length_written_ops [simp]: "length (written_ops f r c) = length (m_write_batch_op c)"
  by (simp add: written_ops_def)

lemma ctx_read_inv_written [simp]: "ctx_read_inv n (written_ctx ops c) = ctx_read_inv n c"
  by (simp add: ctx_read_inv_def written_ctx_def)

lemma ctx_inv_read [simp]: "ctx_inv n (read_ctx ops c) = ctx_inv n c"
  by (simp add: ctx_inv_def read_ctx_def)

lemma mask_accumulates:
  fixes v :: "64 word"
  assumes "v AND m = v" "raw AND k = raw"
  shows "((v AND NOT k) OR raw) AND (m OR k) = (v AND NOT k) OR raw"
proof (rule bit_eqI)
  fix j
  have "bit v j \<Longrightarrow> bit m j" "bit raw j \<Longrightarrow> bit k j"
    using arg_cong[OF assms(1), of "\<lambda>x. bit x j"] arg_cong[OF assms(2), of "\<lambda>x. bit x j"]
    by (simp_all add: bit_simps)
  then show "bit (((v AND NOT k) OR raw) AND (m OR k)) j = bit ((v AND NOT k) OR raw) j"
    by (auto simp: bit_simps)
qed

lemma mask_within:
  fixes m :: "64 word"
  assumes "m AND wm = m" "NOT wm AND k = 0"
  shows "(m OR k) AND wm = m OR k"
proof (rule bit_eqI)
  fix j
  assume "possible_bit TYPE(64 word) j"
  then have "bit m j \<Longrightarrow> bit wm j" "bit k j \<Longrightarrow> bit wm j"
    using arg_cong[OF assms(1), of "\<lambda>x. bit x j"] arg_cong[OF assms(2), of "\<lambda>x. bit x j"]
    by (auto simp: bit_simps)
  then show "bit ((m OR k) AND wm) j = bit (m OR k) j"
    by (auto simp: bit_simps)
qed

definition adjusted_ctx :: "nat \<Rightarrow> 64 word \<Rightarrow> 64 word \<Rightarrow> batch_context \<Rightarrow> batch_context" where
  "adjusted_ctx j raw mk c = c\<lparr>
     m_write_val := (m_write_val c)[j := (m_write_val c ! j AND NOT mk) OR raw],
     m_write_mask := (m_write_mask c)[j := m_write_mask c ! j OR mk]\<rparr>"

lemma ctx_inv_adjusted:
  assumes "ctx_inv n c" "j < length (m_write_batch_op c)"
    "NOT (op_wmask (m_write_batch_op c ! j)) AND mk = 0" "raw AND mk = raw"
  shows "ctx_inv n (adjusted_ctx j raw mk c)"
  using assms(1) mask_accumulates[OF _ assms(4)] mask_within[OF _ assms(3)] assms(2)
  unfolding ctx_inv_def adjusted_ctx_def by (auto simp: nth_list_update)

lemma adjust_cases:
  assumes "msrio_adjust idx raw mk b s = (r, t)"
  obtains e where "r = Inl e" "t = s"
  | i j where "b = int i" "idx = int j" "i < length (m_batch_context s)" "j < length (m_write_batch_op (m_batch_context s ! i))"
      "NOT (op_wmask (m_write_batch_op (m_batch_context s ! i) ! j)) AND mk = 0" "raw AND mk = raw"
      "r = Inr ()" "t = put_ctx i (adjusted_ctx j raw mk (m_batch_context s ! i)) s"
proof (cases "0 \<le> b \<and> b < int (length (m_batch_context s))")
  case False
  from assms have "r = Inl Std_out_of_range" "t = s"
    unfolding msrio_adjust_def ctx_at_bad[OF False] by simp_all
  then show ?thesis by (rule that(1))
next
  case True
  then obtain i where b: "b = int i" and i: "i < length (m_batch_context s)" using zero_le_imp_eq_int by auto
  show ?thesis
  proof (cases "0 \<le> idx")
    case False
    with assms i show ?thesis unfolding b by (intro that(1)) (auto simp: msrio_adjust_def msr_exec)
  next
    case True
    then obtain j where "idx = int j" using zero_le_imp_eq_int by auto
    with assms i show ?thesis unfolding b
      by (auto simp: msrio_adjust_def msr_exec adjusted_ctx_def[symmetric] not_le split: if_splits intro: that(1) that(2)[OF b])
  qed
qed

lemma adjust_inv: "keeps msrio_inv (msrio_adjust idx raw mk b)"
proof (rule keepsI)
  fix s :: "'a msrio" and r t
  assume inv: "msrio_inv s" and "msrio_adjust idx raw mk b s = (r, t)"
  from this(2) show "msrio_inv t"
  proof (cases rule: adjust_cases)
    case (2 i j)
    then have "ctx_inv (nat (m_num_cpu s)) (adjusted_ctx j raw mk (m_batch_context s ! i))"
      using msrio_invD[OF inv] by (intro ctx_inv_adjusted) auto
    moreover have "ctx_read_inv (nat (m_num_cpu s)) (adjusted_ctx j raw mk (m_batch_context s ! i))"
      using msrio_invD[OF inv 2(3)] by (simp add: adjusted_ctx_def ctx_read_inv_def)
    ultimately show ?thesis unfolding 2(8) by (rule msrio_inv_put[OF inv])
  qed (use inv in simp)
qed

definition added_ctx :: "nat \<Rightarrow> 64 word \<Rightarrow> 64 word \<Rightarrow> batch_context \<Rightarrow> batch_context" where
  "added_ctx cpu off wm c = c\<lparr>
     m_write_batch_op := m_write_batch_op c @
       [\<lparr>op_cpu = of_int (int cpu), op_isrdmsr = 1, op_err = 0, op_msr = ucast off, op_msrdata = 0, op_wmask = wm\<rparr>],
     m_write_val := m_write_val c @ [0], m_write_mask := m_write_mask c @ [0],
     m_write_batch_idx_map := (m_write_batch_idx_map c)
       [cpu := (m_write_batch_idx_map c ! cpu)(off \<mapsto> int (length (m_write_batch_op c)))]\<rparr>"

lemma ucast_down_up: "off < 2 ^ 32 \<Longrightarrow> ucast (ucast off :: 32 word) = (off :: 64 word)"
proof -
  assume "off < 2 ^ 32"
  then have "uint off < 2 ^ 32" by (simp add: word_less_def)
  then have "uint (ucast (ucast off :: 32 word) :: 64 word) = uint off"
    by (simp add: unsigned_ucast_eq unsigned_take_bit_eq take_bit_int_eq_self)
  then show ?thesis by (simp only: word_uint_eq_iff)
qed

lemma unat_of_cpu: "cpu < 65536 \<Longrightarrow> unat (word_of_nat cpu :: 16 word) = cpu"
  by (simp add: unsigned_of_nat take_bit_nat_eq_self)

lemma ctx_inv_added:
  assumes inv: "ctx_inv n c" and cpu: "cpu < n" "n \<le> 65536" and off: "off < 2 ^ 32"
    and none: "(m_write_batch_idx_map c ! cpu) off = None"
  shows "ctx_inv n (added_ctx cpu off wm c)"
proof -
  have "index_ok n (map op_key (m_write_batch_op c) @ [(cpu, off)]) ((m_write_batch_idx_map c)
      [cpu := (m_write_batch_idx_map c ! cpu)(off \<mapsto> int (length (m_write_batch_op c)))])"
    using index_ok_snoc[of n "map op_key (m_write_batch_op c)" "m_write_batch_idx_map c" cpu off] inv cpu none
    by (simp add: ctx_inv_def)
  with inv cpu off show ?thesis
    by (auto simp: ctx_inv_def added_ctx_def op_key_def unat_of_cpu ucast_down_up nth_append less_Suc_eq)
qed

abbreviation learn :: "'w \<Rightarrow> (64 word \<rightharpoonup> 64 word) \<Rightarrow> 'w msrio \<Rightarrow> 'w msrio" where
  "learn w mm s \<equiv> s\<lparr>m_offset_mask_map := mm, m_os_world := w\<rparr>"

lemma system_write_mask_ok:
  assumes ok: "driver_ok os (m_file_desc s) (nat (m_num_cpu s)) regs wm" and n: "0 < m_num_cpu s"
    and known: "masks_known wm s"
  shows "\<exists>mk w mm. system_write_mask os off s = (Inr mk, learn w mm s) \<and> mk = (if m_is_batch_enabled s then wm (ucast off) else NOT 0) \<and>
    masks_known wm (learn w mm s) \<and> regs w = regs (m_os_world s)"
proof (cases "m_is_batch_enabled s \<and> m_offset_mask_map s off = None")
  case False
  with known show ?thesis
    by (intro exI[of _ "if m_is_batch_enabled s then the (m_offset_mask_map s off) else NOT 0"]
        exI[of _ "m_os_world s"] exI[of _ "m_offset_mask_map s"])
      (auto simp: system_write_mask_def act_simps masks_known_def split: option.splits)
next
  case True
  let ?op = "\<lparr>op_cpu = 0, op_isrdmsr = 1, op_err = 0, op_msr = ucast off, op_msrdata = 0, op_wmask = 0\<rparr>"
  have "\<forall>op \<in> set [?op]. unat (op_cpu op) < nat (m_num_cpu s) \<and> op_isrdmsr op \<noteq> 0" using n by simp
  from driver_batch_read[OF ok this] obtain w where
    "os_msr_batch os (m_file_desc s ! nat (m_num_cpu s)) [?op] (m_os_world s) =
      ((0, map (rdmsr_op (regs (m_os_world s)) wm) [?op]), w)" "regs w = regs (m_os_world s)" by blast
  with True known show ?thesis
    by (intro exI[of _ "wm (ucast off)"] exI[of _ w] exI[of _ "(m_offset_mask_map s)(off \<mapsto> wm (ucast off))"])
      (auto simp: system_write_mask_def msr_exec bind_sys rdmsr_op_def masks_known_def)
qed

text \<open>The states in which the theorems below hold: invariant, driver and known masks.\<close>

definition good_state :: "'w os \<Rightarrow> ('w \<Rightarrow> registers) \<Rightarrow> (32 word \<Rightarrow> 64 word) \<Rightarrow> 'w msrio \<Rightarrow> bool" where
  "good_state os regs wm s \<longleftrightarrow> msrio_inv s \<and> driver_ok os (m_file_desc s) (nat (m_num_cpu s)) regs wm \<and> masks_known wm s"

lemma good_stateD:
  "good_state os regs wm s \<Longrightarrow> msrio_inv s"
  "good_state os regs wm s \<Longrightarrow> driver_ok os (m_file_desc s) (nat (m_num_cpu s)) regs wm"
  "good_state os regs wm s \<Longrightarrow> masks_known wm s"
  by (simp_all add: good_state_def)

lemma ctx_at_cases:
  assumes "bind (ctx_at b) f s = (r, t)"
  obtains "r = Inl Std_out_of_range" "t = s" "\<not> (0 \<le> b \<and> b < int (length (m_batch_context s)))"
  | i where "b = int i" "i < length (m_batch_context s)" "f (m_batch_context s ! i) s = (r, t)"
proof (cases "0 \<le> b \<and> b < int (length (m_batch_context s))")
  case False
  from assms have "r = Inl Std_out_of_range" "t = s" unfolding ctx_at_bad[OF False] by simp_all
  from that(1)[OF this False] show ?thesis .
next
  case True
  then obtain i where b: "b = int i" and i: "i < length (m_batch_context s)" using zero_le_imp_eq_int by auto
  with assms show ?thesis by (intro that(2)[OF b i]) (simp add: bind_ctx_at)
qed

lemma masks_known_put:
  "masks_known wm s \<Longrightarrow> (m_is_batch_enabled s \<Longrightarrow> \<forall>op \<in> set (m_write_batch_op c). op_wmask op = wm (op_msr op)) \<Longrightarrow>
    masks_known wm (put_ctx i c s)"
  by (auto simp: masks_known_def put_ctx_def dest: set_update_subset_insert[THEN subsetD])

lemma masks_knownD:
  "masks_known wm s \<Longrightarrow> i < length (m_batch_context s) \<Longrightarrow> m_is_batch_enabled s \<Longrightarrow>
    op \<in> set (m_write_batch_op (m_batch_context s ! i)) \<Longrightarrow> op_wmask op = wm (op_msr op)"
  by (auto simp: masks_known_def)

lemma add_write_cases:
  assumes "msrio_add_write os cpu off b s = (r, t)" and good: "good_state os regs wm s"
  obtains "r = Inl Std_out_of_range" "t = s"
      "\<not> (0 \<le> b \<and> b < int (length (m_batch_context s)) \<and> 0 \<le> cpu \<and> cpu < m_num_cpu s)"
  | i k j where "b = int i" "i < length (m_batch_context s)" "cpu = int k" "int k < m_num_cpu s"
      "(m_write_batch_idx_map (m_batch_context s ! i) ! k) off = Some j" "r = Inr j" "t = s"
  | i k mk w mm where "b = int i" "i < length (m_batch_context s)" "cpu = int k" "int k < m_num_cpu s"
      "(m_write_batch_idx_map (m_batch_context s ! i) ! k) off = None"
      "r = Inr (int (length (m_write_batch_op (m_batch_context s ! i))))"
      "t = put_ctx i (added_ctx k off mk (m_batch_context s ! i)) (learn w mm s)"
      "mk = (if m_is_batch_enabled s then wm (ucast off) else NOT 0)"
      "masks_known wm (learn w mm s)" "regs w = regs (m_os_world s)"
  using assms(1) unfolding msrio_add_write_def
proof (cases rule: ctx_at_cases)
  case (2 i)
  let ?c = "m_batch_context s ! i"
  have len: "length (m_write_batch_idx_map ?c) = nat (m_num_cpu s)"
    using msrio_invD[OF good_stateD(1)[OF good] 2(2)] by (simp add: ctx_inv_def index_ok_def)
  show ?thesis
  proof (cases "0 \<le> cpu \<and> cpu < m_num_cpu s")
    case False
    with 2 len have "r = Inl Std_out_of_range" "t = s" by (auto simp: act_simps at_def split: if_splits)
    with False show ?thesis by (intro that(1)) auto
  next
    case True
    then obtain k where k: "cpu = int k" "int k < m_num_cpu s" using zero_le_imp_eq_int by auto
    show ?thesis
    proof (cases "(m_write_batch_idx_map ?c ! k) off")
      case (Some j)
      with 2 k len show ?thesis by (intro that(2)[OF 2(1,2) k Some]) (auto simp: act_simps at_def)
    next
      case None
      from k have "0 < m_num_cpu s" by simp
      from system_write_mask_ok[OF good_stateD(2)[OF good] this good_stateD(3)[OF good], of off] obtain mk w mm
        where sm: "system_write_mask os off s = (Inr mk, learn w mm s)" "mk = (if m_is_batch_enabled s then wm (ucast off) else NOT 0)"
        "masks_known wm (learn w mm s)" "regs w = regs (m_os_world s)" by blast
      from 2 k len None sm(1) have "r = Inr (int (length (m_write_batch_op ?c)))"
        "t = put_ctx i (added_ctx k off mk ?c) (learn w mm s)"
        by (auto simp: act_simps at_def bind_Inr bind_upd_ctx added_ctx_def)
      from that(3)[OF 2(1,2) k None this sm(2-4)] show ?thesis .
    qed
  qed
qed (use that(1) in blast)

subsection \<open>Reachable states\<close>

text \<open>
  The calls that use a batch, in any order and with any outcome, on a driver that works. Offsets
  are register addresses (the request holds 32 bits of them); \<^verbatim>\<open>add_read()\<close> does not check
  its CPU index, so the caller has to.
\<close>

inductive msrio_step :: "'w os \<Rightarrow> 'w msrio \<Rightarrow> 'w msrio \<Rightarrow> bool" for os where
  step_create: "create_batch_context s = (r, t) \<Longrightarrow> msrio_step os s t"
| step_add_write: "off < 2 ^ 32 \<Longrightarrow> msrio_add_write os cpu off b s = (r, t) \<Longrightarrow> msrio_step os s t"
| step_adjust: "msrio_adjust idx raw mk b s = (r, t) \<Longrightarrow> msrio_step os s t"
| step_add_read: "0 \<le> cpu \<Longrightarrow> cpu < m_num_cpu s \<Longrightarrow> msrio_add_read cpu off b s = (r, t) \<Longrightarrow> msrio_step os s t"
| step_read_batch: "msrio_read_batch os b s = (r, t) \<Longrightarrow> msrio_step os s t"
| step_write_batch: "msrio_write_batch os b s = (r, t) \<Longrightarrow> msrio_step os s t"

lemma good_put:
  "good_state os regs wm s \<Longrightarrow> ctx_inv (nat (m_num_cpu s)) c \<Longrightarrow> ctx_read_inv (nat (m_num_cpu s)) c \<Longrightarrow>
    (m_is_batch_enabled s \<Longrightarrow> \<forall>op \<in> set (m_write_batch_op c). op_wmask op = wm (op_msr op)) \<Longrightarrow>
    good_state os regs wm (put_ctx i c s)"
  by (auto simp: good_state_def intro: msrio_inv_put masks_known_put)

lemma good_frame [simp]:
  "good_state os regs wm (s\<lparr>m_os_world := w\<rparr>) = good_state os regs wm s"
  "good_state os regs wm s \<Longrightarrow> good_state os regs wm (ready k s)"
  by (simp_all add: good_state_def masks_known_def msrio_inv_ready)

lemma good_context:
  assumes "good_state os regs wm s" "i < length (m_batch_context s)"
  shows "ctx_inv (nat (m_num_cpu s)) (m_batch_context s ! i)" "ctx_read_inv (nat (m_num_cpu s)) (m_batch_context s ! i)"
    "m_is_batch_enabled s \<Longrightarrow> \<forall>op \<in> set (m_write_batch_op (m_batch_context s ! i)). op_wmask op = wm (op_msr op)"
  using assms msrio_invD[of s i] masks_knownD[of wm s i] by (auto simp: good_state_def)

lemma good_create: "good_state os regs wm s \<Longrightarrow> create_batch_context s = (r, t) \<Longrightarrow> good_state os regs wm t"
  using ctx_inv_new[of "m_num_cpu s"]
  by (auto simp: create_batch_context_def act_simps good_state_def msrio_inv_def masks_known_def batch_context_new_def)

lemma good_adjust:
  assumes good: "good_state os regs wm s" and step: "msrio_adjust idx raw mk b s = (r, t)"
  shows "good_state os regs wm t"
  using step
proof (cases rule: adjust_cases)
  case (2 i j)
  with good good_context(3)[OF good 2(3)] keepsD[OF adjust_inv good_stateD(1)[OF good] step] show ?thesis
    by (auto simp: good_state_def adjusted_ctx_def intro!: masks_known_put)
qed (use good in simp)

lemma good_add_write:
  assumes good: "good_state os regs wm s" and off: "off < 2 ^ 32" and step: "msrio_add_write os cpu off b s = (r, t)"
  shows "good_state os regs wm t"
  using step good
proof (cases rule: add_write_cases)
  case (3 i k mk w mm)
  let ?s = "learn w mm s"
  have good': "good_state os regs wm ?s" using good 3(9) by (simp add: good_state_def msrio_inv_def)
  have "nat (m_num_cpu s) \<le> 65536" using good by (auto simp: good_state_def msrio_inv_def)
  with 3 off good_context[OF good 3(2)]
  have "ctx_inv (nat (m_num_cpu s)) (added_ctx k off mk (m_batch_context s ! i))" by (intro ctx_inv_added) auto
  with 3 good_context[OF good 3(2)] show ?thesis
    by (auto intro!: good_put[OF good'] simp: added_ctx_def ctx_read_inv_def)
qed (use good in simp_all)

lemma good_add_read:
  assumes good: "good_state os regs wm s" and cpu: "0 \<le> cpu" "cpu < m_num_cpu s" and step: "msrio_add_read cpu off b s = (r, t)"
  shows "good_state os regs wm t"
  using step unfolding msrio_add_read_def
proof (cases rule: ctx_at_cases)
  case (2 i)
  have "nat cpu < 65536" using good cpu by (auto simp: good_state_def msrio_inv_def)
  then have "unat (word_of_int cpu :: 16 word) = nat cpu" using unat_of_cpu[of "nat cpu"] cpu by simp
  with 2 cpu good_context[OF good 2(2)] show ?thesis
    by (auto simp: act_simps bind_upd_ctx ctx_inv_def ctx_read_inv_def intro!: good_put[OF good])
qed (use good in simp)

lemma ctx_ops_simps [simp]:
  "m_write_batch_op (read_ctx ops c) = m_write_batch_op c" "m_write_batch_op (written_ctx ops c) = ops"
  "m_read_batch_op (read_ctx ops c) = ops" "m_read_batch_op (written_ctx ops c) = m_read_batch_op c"
  by (simp_all add: read_ctx_def written_ctx_def)

lemma bad_context_read: "\<not> (0 \<le> b \<and> b < int (length (m_batch_context s))) \<Longrightarrow> msrio_read_batch os b s = (Inl Std_out_of_range, s)"
  unfolding msrio_read_batch_def by (rule ctx_at_bad)

lemma bad_context_write: "\<not> (0 \<le> b \<and> b < int (length (m_batch_context s))) \<Longrightarrow> msrio_write_batch os b s = (Inl Std_out_of_range, s)"
  unfolding msrio_write_batch_def by (rule ctx_at_bad)

lemma good_read_batch:
  assumes good: "good_state os regs wm s" and i: "i < length (m_batch_context s)"
  shows "\<exists>t. msrio_read_batch os (int i) s = (Inr (), t) \<and> good_state os regs wm t \<and> regs (m_os_world t) = regs (m_os_world s)"
proof -
  let ?c = "m_batch_context s ! i"
  obtain f t w where run: "msrio_read_batch os (int i) s = (Inr (), put_ctx i
      (read_ctx (map f (m_read_batch_op ?c)) ?c) (t\<lparr>m_os_world := w\<rparr>))" "regs w = regs (m_os_world s)"
    and t: "t = s \<or> t = ready Read_batch s" and f: "f = read_op (regs (m_os_world s)) \<or> f = rdmsr_op (regs (m_os_world s)) wm"
    by (rule read_batch_ok[OF good_stateD(1)[OF good] i good_stateD(2)[OF good]])
  have "ctx_read_inv (nat (m_num_cpu s)) (read_ctx (map f (m_read_batch_op ?c)) ?c)"
    using good_context(2)[OF good i] f by (auto simp: ctx_read_inv_def read_ctx_def read_op_def rdmsr_op_def)
  with t good good_context[OF good i] have "good_state os regs wm (put_ctx i (read_ctx (map f (m_read_batch_op ?c)) ?c) (t\<lparr>m_os_world := w\<rparr>))"
    by (intro good_put) auto
  with run show ?thesis by auto
qed

lemma good_write_batch:
  assumes good: "good_state os regs wm s" and i: "i < length (m_batch_context s)"
  obtains ops t where "msrio_write_batch os (int i) s = (Inr (), t)" "good_state os regs wm t"
    "regs (m_os_world t) = masked_write (pending (m_batch_context s ! i)) (regs (m_os_world s))"
    "m_batch_context t = (m_batch_context s)[i := written_ctx ops (m_batch_context s ! i)]"
    "map op_key ops = map op_key (m_write_batch_op (m_batch_context s ! i))"
    "map op_wmask ops = map op_wmask (m_write_batch_op (m_batch_context s ! i))"
    "m_num_cpu t = m_num_cpu s" "m_is_batch_enabled t = m_is_batch_enabled s"
proof -
  let ?c = "m_batch_context s ! i" and ?r = "regs (m_os_world s)"
  note cinv = good_context[OF good i]
  obtain f t w where run: "msrio_write_batch os (int i) s = (Inr (), put_ctx i
      (written_ctx (written_ops f ?r ?c) ?c) (t\<lparr>m_os_world := w\<rparr>))" "regs w = masked_write (pending ?c) ?r"
    and t: "t = s \<or> t = ready Write_batch s" and f: "f = (\<lambda>op. op) \<and> \<not> m_is_batch_enabled s \<or> f = wrmsr_op wm \<and> m_is_batch_enabled s"
    by (rule write_batch_ok[OF good_stateD(1)[OF good] i good_stateD(2,3)[OF good]])
  have f': "f = (\<lambda>op. op) \<or> f = wrmsr_op wm" using f by blast
  note nth = written_ops_nth[OF cinv(1) _ f']
  have "ctx_inv (nat (m_num_cpu s)) (written_ctx (written_ops f ?r ?c) ?c)"
    using nth by (intro ctx_inv_replaced[OF cinv(1)]) simp_all
  moreover have "\<forall>op \<in> set (written_ops f ?r ?c). op_wmask op = wm (op_msr op)" if "m_is_batch_enabled s"
    using nth cinv(3)[OF that] by (auto simp: all_set_conv_all_nth)
  ultimately have "good_state os regs wm (put_ctx i (written_ctx (written_ops f ?r ?c) ?c) (t\<lparr>m_os_world := w\<rparr>))"
    using t good cinv by (intro good_put) auto
  moreover have "map op_key (written_ops f ?r ?c) = map op_key (m_write_batch_op ?c)"
    using nth by (simp add: list_eq_iff_nth_eq op_key_def)
  moreover have "map op_wmask (written_ops f ?r ?c) = map op_wmask (m_write_batch_op ?c)"
    using nth cinv(3) f by (auto simp: list_eq_iff_nth_eq)
  moreover have "m_batch_context (put_ctx i (written_ctx (written_ops f ?r ?c) ?c) (t\<lparr>m_os_world := w\<rparr>)) =
      (m_batch_context s)[i := written_ctx (written_ops f ?r ?c) ?c]"
    using t by (auto simp: put_ctx_def)
  moreover have "m_num_cpu (put_ctx i (written_ctx (written_ops f ?r ?c) ?c) (t\<lparr>m_os_world := w\<rparr>)) = m_num_cpu s"
    "m_is_batch_enabled (put_ctx i (written_ctx (written_ops f ?r ?c) ?c) (t\<lparr>m_os_world := w\<rparr>)) = m_is_batch_enabled s"
    using t by auto
  ultimately show ?thesis using run(2) by (intro that[where ops = "written_ops f ?r ?c", OF run(1)]) simp_all
qed

lemma good_step:
  assumes "msrio_step os s t" "good_state os regs wm s"
  shows "good_state os regs wm t"
  using assms
proof cases
  case (step_read_batch b r)
  show ?thesis
  proof (cases "0 \<le> b \<and> b < int (length (m_batch_context s))")
    case True
    then obtain i where "b = int i" "i < length (m_batch_context s)" using zero_le_imp_eq_int by auto
    with good_read_batch[OF assms(2), of i] step_read_batch show ?thesis by auto
  next
    case False
    with step_read_batch bad_context_read[OF False, of os] assms(2) show ?thesis by simp
  qed
next
  case (step_write_batch b r)
  show ?thesis
  proof (cases "0 \<le> b \<and> b < int (length (m_batch_context s))")
    case True
    then obtain i where "b = int i" "i < length (m_batch_context s)" using zero_le_imp_eq_int by auto
    with step_write_batch assms(2) show ?thesis by (auto elim: good_write_batch[of os regs wm s i])
  next
    case False
    with step_write_batch bad_context_write[OF False, of os] assms(2) show ?thesis by simp
  qed
qed (auto dest: good_create good_add_write good_adjust good_add_read)

lemma good_steps: "(msrio_step os)\<^sup>*\<^sup>* s t \<Longrightarrow> good_state os regs wm s \<Longrightarrow> good_state os regs wm t"
  by (induction rule: rtranclp_induct) (auto intro: good_step)

section \<open>A driver for the examples\<close>

text \<open>Two CPUs whose registers are kept in a map; the batch device and the files work as documented.\<close>

type_synonym demo_regs = "registers"

fun demo_batch :: "batch_op list \<Rightarrow> registers \<Rightarrow> batch_op list \<times> registers" where
  "demo_batch [] r = ([], r)"
| "demo_batch (op # ops) r =
     (if op_isrdmsr op \<noteq> 0
      then let (ops', r') = demo_batch ops r in (rdmsr_op r (\<lambda>_. 0xFF) op # ops', r')
      else let (ops', r') = demo_batch ops (wrmsr_regs (\<lambda>_. 0xFF) op r) in (wrmsr_op (\<lambda>_. 0xFF) op # ops', r'))"

definition demo_os :: "registers os" where
  "demo_os = \<lparr>os_open = (\<lambda>path r. (if path = ''/dev/cpu/0/msr_safe'' \<or> path = ''/dev/cpu/0/msr'' then 3
        else if path = ''/dev/cpu/1/msr_safe'' \<or> path = ''/dev/cpu/1/msr'' then 4
        else if path = ''/dev/cpu/msr_batch'' then 5 else -1, r)),
     os_fstat = (\<lambda>fd r. (if fd \<in> {3, 4, 5} then 0 else -1, r)), os_close = (\<lambda>fd r. (0, r)),
     os_pread = (\<lambda>fd buf off r. if fd = 3 \<or> fd = 4 then ((8, r (nat (fd - 3), off)), r) else ((-1, buf), r)),
     os_pwrite = (\<lambda>fd v off r. if fd = 3 \<or> fd = 4 then (8, r((nat (fd - 3), off) := v)) else (-1, r)),
     os_msr_batch = (\<lambda>fd ops r. let (ops', r') = demo_batch ops r in ((0, ops'), r')),
     os_errno = (\<lambda>_. 9)\<rparr>"

definition demo_msrio :: "driver_type \<Rightarrow> registers msrio" where
  "demo_msrio d = snd (make_msrio demo_os 2 d (\<lambda>_. 0))"

lemma demo_batch_reads:
  "\<forall>op \<in> set ops. op_isrdmsr op \<noteq> 0 \<Longrightarrow> demo_batch ops r = (map (rdmsr_op r (\<lambda>_. 0xFF)) ops, r)"
  by (induction ops) auto

lemma demo_batch_writes:
  "\<forall>op \<in> set ops. op_isrdmsr op = 0 \<Longrightarrow>
    demo_batch ops r = (map (wrmsr_op (\<lambda>_. 0xFF)) ops, fold (wrmsr_regs (\<lambda>_. 0xFF)) ops r)"
  by (induction ops arbitrary: r) auto

lemma demo_driver_ok: "driver_ok demo_os [3, 4, fd] 2 (\<lambda>r. r) (\<lambda>_. 0xFF)"
  unfolding driver_ok_def demo_os_def by (auto simp: less_2_cases_iff demo_batch_reads demo_batch_writes)

lemma demo_paths [simp]:
  "msr_path M_DRIVER_MSRSAFE 0 = Inr ''/dev/cpu/0/msr_safe''" "msr_path M_DRIVER_MSRSAFE 1 = Inr ''/dev/cpu/1/msr_safe''"
  "msr_path M_DRIVER_MSR 0 = Inr ''/dev/cpu/0/msr''" "msr_path M_DRIVER_MSR 1 = Inr ''/dev/cpu/1/msr''"
  by code_simp+

lemma demo_msrio_eq:
  "demo_msrio M_DRIVER_MSRSAFE = \<lparr>m_num_cpu = 2, m_file_desc = [3, 4, 5], m_batch_context = [batch_context_new 2],
     m_is_batch_enabled = True, m_offset_mask_map = Map.empty, m_is_open = True, m_path = M_DRIVER_MSRSAFE,
     m_batch_reader = None, m_batch_writer = None, m_os_world = (\<lambda>_. 0)\<rparr>"
  "demo_msrio M_DRIVER_MSR = \<lparr>m_num_cpu = 2, m_file_desc = [3, 4, -1], m_batch_context = [batch_context_new 2],
     m_is_batch_enabled = False, m_offset_mask_map = Map.empty, m_is_open = True, m_path = M_DRIVER_MSR,
     m_batch_reader = None, m_batch_writer = None, m_os_world = (\<lambda>_. 0)\<rparr>"
  by (simp_all add: demo_msrio_def make_msrio_def create_batch_context_def open_all_def open_msr_def open_msr_batch_def
      msr_batch_desc_def set_desc_def sys_def bind_def act_simps demo_os_def msr_batch_path_def upto.simps numeral_2_eq_2)

section \<open>Construction\<close>

definition fresh_msrio :: "int \<Rightarrow> bool \<Rightarrow> 'w msrio \<Rightarrow> bool" where
  "fresh_msrio n enabled s \<longleftrightarrow> m_num_cpu s = n \<and> length (m_file_desc s) = nat n + 1 \<and>
     m_batch_context s = [batch_context_new n] \<and> m_batch_reader s = None \<and> m_batch_writer s = None \<and>
     m_offset_mask_map s = Map.empty \<and> (m_is_batch_enabled s \<longrightarrow> enabled)"

lemma keeps_sys [keeps_intros]: "(\<And>s w. P s \<Longrightarrow> P (s\<lparr>m_os_world := w\<rparr>)) \<Longrightarrow> keeps P (sys f)"
  by (auto simp: keeps_def sys_def split: prod.splits)

lemma fresh_sys: "keeps (fresh_msrio n e) (sys f)"
  by (rule keeps_sys) (simp add: fresh_msrio_def)

lemma fresh_set_desc: "keeps (fresh_msrio n e) (set_desc i fd)"
  unfolding set_desc_def by (rule keeps_modify) (simp add: fresh_msrio_def)

lemmas fresh_intros = keeps_bind keeps_if keeps_ret keeps_gets keeps_guard keeps_lift keeps_for_each fresh_sys fresh_set_desc

lemma fresh_open_msr: "keeps (fresh_msrio n e) (open_msr os i)"
  unfolding open_msr_def by (intro fresh_intros)

lemma fresh_modify:
  "keeps (fresh_msrio n e) (modify (\<lambda>s. s\<lparr>m_is_open := b\<rparr>))" "keeps (fresh_msrio n e) (modify (\<lambda>s. s\<lparr>m_is_batch_enabled := False\<rparr>))"
  by (auto intro!: keeps_modify simp: fresh_msrio_def)

lemma fresh_open_msr_batch: "keeps (fresh_msrio n e) (open_msr_batch os)"
  unfolding open_msr_batch_def msr_batch_desc_def case_prod_beta by (intro fresh_intros fresh_modify)

lemma fresh_open_all: "keeps (fresh_msrio n e) (open_all os)"
  unfolding open_all_def case_prod_beta by (intro fresh_intros fresh_modify fresh_open_msr fresh_open_msr_batch)

lemma make_msrio_fresh: "make_msrio os n d w = (r, s) \<Longrightarrow> fresh_msrio n (msr_batch_path d \<noteq> []) s"
  unfolding make_msrio_def create_batch_context_def
  by (rule keepsD[OF fresh_open_all]) (auto simp: act_simps bind_def fresh_msrio_def)

lemma good_make:
  assumes "make_msrio os n d w = (Inr (), s)" "0 \<le> n" "n \<le> 65536" "driver_ok os (m_file_desc s) (nat n) regs wm"
  shows "good_state os regs wm s"
  using make_msrio_fresh[OF assms(1)] assms(2-4) ctx_inv_new[of n]
  by (simp add: fresh_msrio_def good_state_def msrio_inv_def masks_known_def batch_context_new_def)

definition msrio_reachable :: "'w os \<Rightarrow> ('w \<Rightarrow> registers) \<Rightarrow> (32 word \<Rightarrow> 64 word) \<Rightarrow> 'w msrio \<Rightarrow> bool" where
  "msrio_reachable os regs wm t \<longleftrightarrow> (\<exists>n d w s. make_msrio os n d w = (Inr (), s) \<and> 0 \<le> n \<and> n \<le> 65536 \<and>
     driver_ok os (m_file_desc s) (nat n) regs wm \<and> (msrio_step os)\<^sup>*\<^sup>* s t)"

lemma reachable_good: "msrio_reachable os regs wm t \<Longrightarrow> good_state os regs wm t"
  unfolding msrio_reachable_def by (blast intro: good_steps good_make)

lemma demo_make:
  assumes "d = M_DRIVER_MSRSAFE \<or> d = M_DRIVER_MSR"
  shows "make_msrio demo_os 2 d (\<lambda>_. 0) = (Inr (), demo_msrio d)"
    "driver_ok demo_os (m_file_desc (demo_msrio d)) (nat 2) (\<lambda>r. r) (\<lambda>_. 0xFF)"
proof -
  have "fst (make_msrio demo_os 2 d (\<lambda>_. 0)) = Inr ()"
    using assms by (auto simp: make_msrio_def create_batch_context_def open_all_def open_msr_def open_msr_batch_def
      msr_batch_desc_def set_desc_def sys_def bind_def act_simps demo_os_def msr_batch_path_def upto.simps numeral_2_eq_2)
  then show "make_msrio demo_os 2 d (\<lambda>_. 0) = (Inr (), demo_msrio d)"
    by (metis demo_msrio_def prod.collapse)
  show "driver_ok demo_os (m_file_desc (demo_msrio d)) (nat 2) (\<lambda>r. r) (\<lambda>_. 0xFF)"
    using assms by (auto simp: demo_msrio_eq demo_driver_ok)
qed

lemma demo_reachable: "msrio_reachable demo_os (\<lambda>r. r) (\<lambda>_. 0xFF) (demo_msrio M_DRIVER_MSRSAFE)"
  "msrio_reachable demo_os (\<lambda>r. r) (\<lambda>_. 0xFF) (demo_msrio M_DRIVER_MSR)"
proof -
  have "msrio_reachable demo_os (\<lambda>r. r) (\<lambda>_. 0xFF) (demo_msrio d)" if "d = M_DRIVER_MSRSAFE \<or> d = M_DRIVER_MSR" for d
    unfolding msrio_reachable_def using demo_make[OF that]
    by (intro exI[of _ 2] exI[of _ d] exI[of _ "\<lambda>_. 0"] exI[of _ "demo_msrio d"]) simp
  then show "msrio_reachable demo_os (\<lambda>r. r) (\<lambda>_. 0xFF) (demo_msrio M_DRIVER_MSRSAFE)"
    "msrio_reachable demo_os (\<lambda>r. r) (\<lambda>_. 0xFF) (demo_msrio M_DRIVER_MSR)" by simp_all
qed

lemma reachable_step: "msrio_reachable os regs wm s \<Longrightarrow> msrio_step os s t \<Longrightarrow> msrio_reachable os regs wm t"
  unfolding msrio_reachable_def by (meson rtranclp.rtrancl_into_rtrancl)

definition demo_added :: "driver_type \<Rightarrow> registers msrio" where
  "demo_added d = snd (msrio_add_write demo_os 1 0x10 0 (demo_msrio d))"

definition demo_adjusted :: "driver_type \<Rightarrow> registers msrio" where
  "demo_adjusted d = snd (msrio_adjust 0 5 0xF 0 (demo_added d))"

definition demo_op :: batch_op where
  "demo_op = \<lparr>op_cpu = 1, op_isrdmsr = 1, op_err = 0, op_msr = 0x10, op_msrdata = 0, op_wmask = 0xFF\<rparr>"

lemma demo_added_eq:
  "msrio_add_write demo_os 1 0x10 0 (demo_msrio M_DRIVER_MSRSAFE) = (Inr 0, \<lparr>m_num_cpu = 2, m_file_desc = [3, 4, 5],
     m_batch_context = [(batch_context_new 2)\<lparr>m_write_batch_op := [demo_op], m_write_val := [0], m_write_mask := [0],
       m_write_batch_idx_map := [Map.empty, [0x10 \<mapsto> 0]]\<rparr>],
     m_is_batch_enabled = True, m_offset_mask_map = [0x10 \<mapsto> 0xFF], m_is_open = True, m_path = M_DRIVER_MSRSAFE,
     m_batch_reader = None, m_batch_writer = None, m_os_world = (\<lambda>_. 0)\<rparr>)"
proof -
  have empty: "m_write_batch_op (batch_context_new 2) = []" "m_write_val (batch_context_new 2) = []"
    "m_write_mask (batch_context_new 2) = []" "m_write_batch_idx_map (batch_context_new 2) = [Map.empty, Map.empty]"
    by (simp_all add: batch_context_new_def numeral_2_eq_2)
  have mk: "system_write_mask demo_os 0x10 (demo_msrio M_DRIVER_MSRSAFE) =
      (Inr 0xFF, (demo_msrio M_DRIVER_MSRSAFE)\<lparr>m_offset_mask_map := [0x10 \<mapsto> 0xFF]\<rparr>)"
    unfolding demo_msrio_eq system_write_mask_def demo_os_def
    by (simp add: msr_batch_desc_def sys_def bind_def act_simps rdmsr_op_def)
  have "demo_op = \<lparr>op_cpu = of_int 1, op_isrdmsr = 1, op_err = 0, op_msr = ucast (0x10 :: 64 word), op_msrdata = 0, op_wmask = 0xFF\<rparr>"
    by (simp add: demo_op_def)
  with mk show ?thesis
    by (simp add: msrio_add_write_def ctx_at_def bind_def act_simps at_def upd_ctx_def demo_msrio_eq empty)
qed

lemmas demo_added_sel = demo_added_def[of M_DRIVER_MSRSAFE, unfolded demo_added_eq snd_conv]

lemma demo_op_wmask: "op_wmask demo_op = 0xFF"
  by (simp add: demo_op_def)

lemma demo_adjusted_eq:
  "msrio_adjust 0 5 0xF 0 (demo_added M_DRIVER_MSRSAFE) = (Inr (), \<lparr>m_num_cpu = 2, m_file_desc = [3, 4, 5],
     m_batch_context = [(batch_context_new 2)\<lparr>m_write_batch_op := [demo_op], m_write_val := [5], m_write_mask := [0xF],
       m_write_batch_idx_map := [Map.empty, [0x10 \<mapsto> 0]]\<rparr>],
     m_is_batch_enabled = True, m_offset_mask_map = [0x10 \<mapsto> 0xFF], m_is_open = True, m_path = M_DRIVER_MSRSAFE,
     m_batch_reader = None, m_batch_writer = None, m_os_world = (\<lambda>_. 0)\<rparr>)"
  unfolding demo_added_sel msrio_adjust_def
  by (simp add: ctx_at_def act_simps at_def bind_def upd_ctx_def demo_op_wmask)

lemmas demo_adjusted_sel = demo_adjusted_def[of M_DRIVER_MSRSAFE, unfolded demo_adjusted_eq snd_conv]

lemma demo_adjusted_reachable: "msrio_reachable demo_os (\<lambda>r. r) (\<lambda>_. 0xFF) (demo_adjusted M_DRIVER_MSRSAFE)"
proof -
  have "msrio_step demo_os (demo_msrio M_DRIVER_MSRSAFE) (demo_added M_DRIVER_MSRSAFE)"
    by (rule step_add_write[of "0x10" demo_os 1 0]) (simp_all add: demo_added_eq demo_added_sel)
  moreover have "msrio_step demo_os (demo_added M_DRIVER_MSRSAFE) (demo_adjusted M_DRIVER_MSRSAFE)"
    by (rule step_adjust[of 0 5 "0xF" 0]) (simp add: demo_adjusted_eq demo_adjusted_sel)
  ultimately show ?thesis by (blast intro: demo_reachable reachable_step)
qed

lemma map_of_zip_map: "map_of (zip ks (map f vs)) k = map_option f (map_of (zip ks vs) k)"
proof (induction ks arbitrary: vs)
  case (Cons x ks)
  then show ?case by (cases vs) auto
qed simp

lemma pending_written:
  assumes "map op_key ops = map op_key (m_write_batch_op c)"
  shows "pending (written_ctx ops c) k = map_option (\<lambda>_. (0, 0)) (pending c k)"
proof -
  have zeros: "zip (map (\<lambda>_. 0 :: 64 word) xs) (map (\<lambda>_. 0 :: 64 word) ys) = map (\<lambda>_. (0, 0)) (zip xs ys)"
    for xs ys :: "64 word list"
    by (induction xs ys rule: list_induct2') auto
  have "pending (written_ctx ops c) = map_of (zip (map op_key (m_write_batch_op c))
      (zip (map (\<lambda>_. 0) (m_write_val c)) (map (\<lambda>_. 0) (m_write_mask c))))"
    by (simp add: pending_def written_ctx_def assms)
  then show ?thesis unfolding zeros by (simp only: map_of_zip_map pending_def)
qed

section \<open>Properties\<close>



lemma sampled_register:
  assumes "msrio_reachable os regs wm s" "i < length (m_batch_context s)"
    "j < length (m_read_batch_op (m_batch_context s ! i))"
  shows "\<exists>t. msrio_read_batch os (int i) s = (Inr (), t) \<and> regs (m_os_world t) = regs (m_os_world s) \<and>
    msrio_sample (int j) (int i) t = (Inr (regs (m_os_world s) (op_key (m_read_batch_op (m_batch_context s ! i) ! j))), t)"
proof -
  let ?c = "m_batch_context s ! i"
  note good = reachable_good[OF assms(1)]
  obtain f t w where run: "msrio_read_batch os (int i) s = (Inr (), put_ctx i
      (read_ctx (map f (m_read_batch_op ?c)) ?c) (t\<lparr>m_os_world := w\<rparr>))" "regs w = regs (m_os_world s)"
    and t: "t = s \<or> t = ready Read_batch s" and f: "f = read_op (regs (m_os_world s)) \<or> f = rdmsr_op (regs (m_os_world s)) wm"
    by (rule read_batch_ok[OF good_stateD(1)[OF good] assms(2) good_stateD(2)[OF good]])
  from t have "length (m_batch_context (t\<lparr>m_os_world := w\<rparr>)) = length (m_batch_context s)" by auto
  with assms f have "msrio_sample (int j) (int i) (put_ctx i (read_ctx (map f (m_read_batch_op ?c)) ?c) (t\<lparr>m_os_world := w\<rparr>)) =
      (Inr (regs (m_os_world s) (op_key (m_read_batch_op ?c ! j))), put_ctx i (read_ctx (map f (m_read_batch_op ?c)) ?c) (t\<lparr>m_os_world := w\<rparr>))"
    by (auto simp: msrio_sample_def msr_exec read_ctx_def read_op_def rdmsr_op_def)
  with run show ?thesis by (intro exI) auto
qed

text \<open>
  After \<^verbatim>\<open>read_batch()\<close> in a reachable state, \<^verbatim>\<open>sample()\<close> of an index
  returned by \<^verbatim>\<open>add_read()\<close> gives the content of that CPU's register; the registers
  themselves are not changed.
\<close>

theorem sample_reads_register:
  assumes "msrio_reachable os regs wm s" "i < length (m_batch_context s)"
    "j < length (m_read_batch_op (m_batch_context s ! i))"
  shows "\<exists>t. msrio_read_batch os (int i) s = (Inr (), t) \<and> regs (m_os_world t) = regs (m_os_world s) \<and>
    msrio_sample (int j) (int i) t = (Inr (regs (m_os_world s) (op_key (m_read_batch_op (m_batch_context s ! i) ! j))), t)"
  by (rule sampled_register[OF assms])

definition demo_reading :: "registers msrio" where
  "demo_reading = snd (msrio_add_read 1 0x10 0 (demo_msrio M_DRIVER_MSR))"

lemma demo_reading_eq:
  "msrio_add_read 1 0x10 0 (demo_msrio M_DRIVER_MSR) = (Inr 0, \<lparr>m_num_cpu = 2, m_file_desc = [3, 4, -1],
     m_batch_context = [(batch_context_new 2)\<lparr>m_read_batch_op := [demo_op\<lparr>op_wmask := 0\<rparr>]\<rparr>],
     m_is_batch_enabled = False, m_offset_mask_map = Map.empty, m_is_open = True, m_path = M_DRIVER_MSR,
     m_batch_reader = None, m_batch_writer = None, m_os_world = (\<lambda>_. 0)\<rparr>)"
  by (simp add: demo_msrio_eq msrio_add_read_def ctx_at_def upd_ctx_def bind_def act_simps at_def demo_op_def batch_context_new_def)

lemmas demo_reading_sel = demo_reading_def[unfolded demo_reading_eq snd_conv]

lemma demo_reading_reachable: "msrio_reachable demo_os (\<lambda>r. r) (\<lambda>_. 0xFF) demo_reading"
proof (rule reachable_step[OF demo_reachable(2)], rule step_add_read)
  show "msrio_add_read 1 0x10 0 (demo_msrio M_DRIVER_MSR) = (Inr 0, demo_reading)"
    by (simp add: demo_reading_eq demo_reading_sel)
qed (simp_all add: demo_msrio_eq)

theorem sample_reads_register_witness:
  "\<exists>t. msrio_read_batch demo_os 0 demo_reading = (Inr (), t) \<and> msrio_sample 0 0 t = (Inr 0, t)"
  using sample_reads_register[OF demo_reading_reachable, of 0 0]
  by (auto simp: demo_reading_sel)

subsection \<open>The batch device and the files\<close>

text \<open>Programs that use one batch: the calls that build it, change it and write it out.\<close>

datatype msr_cmd = Add_write int "64 word" | Adjust int "64 word" "64 word" | Write_out

fun run_cmd :: "'w os \<Rightarrow> msr_cmd \<Rightarrow> ('w msrio, int) action" where
  "run_cmd os (Add_write cpu off) = msrio_add_write os cpu off 0"
| "run_cmd os (Adjust idx raw mk) = bind (msrio_adjust idx raw mk 0) (\<lambda>_. ret 0)"
| "run_cmd os Write_out = bind (msrio_write_batch os 0) (\<lambda>_. ret 0)"

fun addressable :: "msr_cmd \<Rightarrow> bool" where
  "addressable (Add_write cpu off) \<longleftrightarrow> off < 2 ^ 32"
| "addressable _ \<longleftrightarrow> True"

text \<open>
  The relation kept between an object that uses the batch device and one that uses the files:
  the same registers and the same batch, up to the write masks the latter does not know.
\<close>

definition same_batch ::
  "'v os \<Rightarrow> ('v \<Rightarrow> registers) \<Rightarrow> (32 word \<Rightarrow> 64 word) \<Rightarrow> 'w os \<Rightarrow> ('w \<Rightarrow> registers) \<Rightarrow> (32 word \<Rightarrow> 64 word) \<Rightarrow>
   'v msrio \<Rightarrow> 'w msrio \<Rightarrow> bool" where
  "same_batch osA regsA wmA osB regsB wmB a b \<longleftrightarrow>
     good_state osA regsA wmA a \<and> good_state osB regsB wmB b \<and> m_num_cpu a = m_num_cpu b \<and>
     \<not> m_is_batch_enabled b \<and> m_batch_context a \<noteq> [] \<and> m_batch_context b \<noteq> [] \<and>
     regsA (m_os_world a) = regsB (m_os_world b) \<and>
     map op_key (m_write_batch_op (m_batch_context a ! 0)) = map op_key (m_write_batch_op (m_batch_context b ! 0)) \<and>
     (\<forall>op \<in> set (m_write_batch_op (m_batch_context b ! 0)). op_wmask op = NOT 0) \<and>
     m_write_val (m_batch_context a ! 0) = m_write_val (m_batch_context b ! 0) \<and>
     m_write_mask (m_batch_context a ! 0) = m_write_mask (m_batch_context b ! 0) \<and>
     m_write_batch_idx_map (m_batch_context a ! 0) = m_write_batch_idx_map (m_batch_context b ! 0)"

lemma same_batch_lengths:
  "same_batch osA regsA wmA osB regsB wmB a b \<Longrightarrow>
    length (m_write_batch_op (m_batch_context a ! 0)) = length (m_write_batch_op (m_batch_context b ! 0))"
  unfolding same_batch_def by (metis length_map)

lemma adjust_ok:
  assumes "i < length (m_batch_context s)" "j < length (m_write_batch_op (m_batch_context s ! i))"
    "NOT (op_wmask (m_write_batch_op (m_batch_context s ! i) ! j)) AND mk = 0" "raw AND mk = raw"
  shows "msrio_adjust (int j) raw mk (int i) s = (Inr (), put_ctx i (adjusted_ctx j raw mk (m_batch_context s ! i)) s)"
  using assms by (simp add: msrio_adjust_def msr_exec adjusted_ctx_def)

lemma same_batch_adjust:
  assumes sim: "same_batch osA regsA wmA osB regsB wmB a b" and run: "msrio_adjust idx raw mk 0 a = (Inr (), a')"
  shows "\<exists>b'. msrio_adjust idx raw mk 0 b = (Inr (), b') \<and> same_batch osA regsA wmA osB regsB wmB a' b'"
proof -
  have goodA: "good_state osA regsA wmA a'" using sim run good_adjust by (auto simp: same_batch_def)
  from run show ?thesis
  proof (cases rule: adjust_cases)
    case (2 i j)
    let ?b' = "put_ctx 0 (adjusted_ctx j raw mk (m_batch_context b ! 0)) b"
    have i: "i = 0" and j: "j < length (m_write_batch_op (m_batch_context b ! 0))"
      using 2 same_batch_lengths[OF sim] by auto
    then have "op_wmask (m_write_batch_op (m_batch_context b ! 0) ! j) = NOT 0"
      using sim by (simp add: same_batch_def)
    then have runB: "msrio_adjust idx raw mk 0 b = (Inr (), ?b')"
      using 2 sim j adjust_ok[of 0 b j mk raw] by (simp add: same_batch_def)
    have goodB: "good_state osB regsB wmB ?b'" using sim runB good_adjust by (auto simp: same_batch_def)
    have "same_batch osA regsA wmA osB regsB wmB a' ?b'"
      using sim goodA goodB unfolding same_batch_def 2(8) i by (simp add: put_ctx_def adjusted_ctx_def)
    with runB show ?thesis by blast
  qed simp
qed

lemma same_batch_add_write:
  assumes sim: "same_batch osA regsA wmA osB regsB wmB a b" and off: "off < 2 ^ 32"
    and run: "msrio_add_write osA cpu off 0 a = (Inr r, a')"
  shows "\<exists>b'. msrio_add_write osB cpu off 0 b = (Inr r, b') \<and> same_batch osA regsA wmA osB regsB wmB a' b'"
proof -
  obtain rB b' where runB: "msrio_add_write osB cpu off 0 b = (rB, b')" by fastforce
  have gA: "good_state osA regsA wmA a" and gB: "good_state osB regsB wmB b" using sim by (simp_all add: same_batch_def)
  have gA': "good_state osA regsA wmA a'" using good_add_write[OF gA off run] .
  have gB': "good_state osB regsB wmB b'" using good_add_write[OF gB off runB] .
  have "rB = Inr r \<and> same_batch osA regsA wmA osB regsB wmB a' b'"
    using run gA
  proof (cases rule: add_write_cases)
    case (2 i k j)
    from runB gB show ?thesis by (cases rule: add_write_cases) (use 2 sim in \<open>auto simp: same_batch_def\<close>)
  next
    case (3 i k mk w mm)
    note A = 3
    from runB gB show ?thesis
    proof (cases rule: add_write_cases)
      case (3 i' k' mk' w' mm')
      have [simp]: "i = 0" "i' = 0" "k' = k" using A(1,3) 3(1,3) by auto
      have len: "m_batch_context a \<noteq> []" "m_batch_context b \<noteq> []" using sim by (simp_all add: same_batch_def)
      have "same_batch osA regsA wmA osB regsB wmB a' b'"
        using sim gA' gB' A(10) 3(8,10) same_batch_lengths[OF sim] len unfolding same_batch_def A(7) 3(7)
        by (simp add: put_ctx_def added_ctx_def op_key_def)
      then show ?thesis using A(6) 3(6) same_batch_lengths[OF sim] by simp
    qed (use A sim in \<open>auto simp: same_batch_def\<close>)
  qed simp
  with runB show ?thesis by blast
qed

lemma same_batch_write:
  assumes sim: "same_batch osA regsA wmA osB regsB wmB a b"
  shows "\<exists>a' b'. msrio_write_batch osA 0 a = (Inr (), a') \<and> msrio_write_batch osB 0 b = (Inr (), b') \<and>
    same_batch osA regsA wmA osB regsB wmB a' b'"
proof -
  let ?c = "m_batch_context a ! 0" and ?d = "m_batch_context b ! 0"
  have gA: "good_state osA regsA wmA a" and gB: "good_state osB regsB wmB b"
    and len: "0 < length (m_batch_context a)" "0 < length (m_batch_context b)" using sim by (simp_all add: same_batch_def)
  obtain ops a' where A: "msrio_write_batch osA (int 0) a = (Inr (), a')" "good_state osA regsA wmA a'"
    "regsA (m_os_world a') = masked_write (pending ?c) (regsA (m_os_world a))"
    "m_batch_context a' = (m_batch_context a)[0 := written_ctx ops ?c]" "map op_key ops = map op_key (m_write_batch_op ?c)"
    "m_num_cpu a' = m_num_cpu a"
    by (rule good_write_batch[OF gA len(1)])
  obtain opsB b' where B: "msrio_write_batch osB (int 0) b = (Inr (), b')" "good_state osB regsB wmB b'"
    "regsB (m_os_world b') = masked_write (pending ?d) (regsB (m_os_world b))"
    "m_batch_context b' = (m_batch_context b)[0 := written_ctx opsB ?d]" "map op_key opsB = map op_key (m_write_batch_op ?d)"
    "map op_wmask opsB = map op_wmask (m_write_batch_op ?d)"
    "m_num_cpu b' = m_num_cpu b" "m_is_batch_enabled b' = m_is_batch_enabled b"
    by (rule good_write_batch[OF gB len(2)])
  have "\<forall>op \<in> set opsB. op_wmask op = NOT 0"
    using B(6) sim unfolding same_batch_def by (metis (no_types, lifting) image_eqI image_iff set_map)
  moreover have "pending ?c = pending ?d" using sim by (simp add: same_batch_def pending_def)
  ultimately have "same_batch osA regsA wmA osB regsB wmB a' b'"
    using sim A B len unfolding same_batch_def by (simp add: written_ctx_def)
  with A(1) B(1) show ?thesis by auto
qed

lemma same_batch_cmd:
  assumes sim: "same_batch osA regsA wmA osB regsB wmB a b" and "addressable cmd"
    and run: "run_cmd osA cmd a = (Inr r, a')"
  shows "\<exists>b'. run_cmd osB cmd b = (Inr r, b') \<and> same_batch osA regsA wmA osB regsB wmB a' b'"
proof (cases cmd)
  case (Add_write cpu off)
  with assms same_batch_add_write[OF sim] show ?thesis by simp
next
  case (Adjust idx raw mk)
  with run have "msrio_adjust idx raw mk 0 a = (Inr (), a')" "r = 0" by (auto simp: bind_cases ret_def)
  with same_batch_adjust[OF sim this(1)] Adjust show ?thesis by (auto simp: bind_Inr ret_def)
next
  case Write_out
  with run same_batch_write[OF sim] show ?thesis by (auto simp: bind_Inr ret_def)
qed

lemma same_batch_run:
  assumes "same_batch osA regsA wmA osB regsB wmB a b" "list_all addressable cmds"
    "map_action (run_cmd osA) cmds a = (Inr rs, a')"
  shows "\<exists>b'. map_action (run_cmd osB) cmds b = (Inr rs, b') \<and> same_batch osA regsA wmA osB regsB wmB a' b'"
  using assms
proof (induction cmds arbitrary: a b rs)
  case (Cons cmd cmds)
  from Cons.prems(3) obtain r rs' a1 where A: "run_cmd osA cmd a = (Inr r, a1)" "map_action (run_cmd osA) cmds a1 = (Inr rs', a')"
    and rs: "rs = r # rs'" by (auto simp: bind_cases ret_def)
  from Cons.prems(2) have cmds: "addressable cmd" "list_all addressable cmds" by auto
  obtain b1 where B: "run_cmd osB cmd b = (Inr r, b1)" "same_batch osA regsA wmA osB regsB wmB a1 b1"
    using same_batch_cmd[OF Cons.prems(1) cmds(1) A(1)] by blast
  with Cons.IH[OF B(2) cmds(2) A(2)] rs show ?case by (auto simp: bind_Inr ret_def)
qed auto



lemma index_okD:
  "index_ok n keys m \<Longrightarrow> cpu < n \<Longrightarrow> (m ! cpu) off = Some j \<Longrightarrow> \<exists>i < length keys. j = int i \<and> keys ! i = (cpu, off)"
  unfolding index_ok_def by blast

lemma ctx_inv_index: "ctx_inv n c \<Longrightarrow> index_ok n (map op_key (m_write_batch_op c)) (m_write_batch_idx_map c)"
  by (simp add: ctx_inv_def)

text \<open>
  \<^verbatim>\<open>add_write()\<close> is idempotent: asked again for the same register it returns the
  same index and changes nothing. The index is a position of the batch, the operation there is
  for the register that was asked for, and the indices given out earlier keep their registers.
\<close>

theorem add_write_idempotent:
  assumes "msrio_reachable os regs wm s" "off < 2 ^ 32" "msrio_add_write os cpu off b s = (Inr j, t)"
  shows "msrio_add_write os cpu off b t = (Inr j, t) \<and>
    0 \<le> j \<and> j < int (length (m_write_batch_op (m_batch_context t ! nat b))) \<and>
    op_key (m_write_batch_op (m_batch_context t ! nat b) ! nat j) = (nat cpu, off) \<and>
    (\<forall>k < length (m_write_batch_op (m_batch_context s ! nat b)).
       m_write_batch_op (m_batch_context t ! nat b) ! k = m_write_batch_op (m_batch_context s ! nat b) ! k)"
proof -
  note good = reachable_good[OF assms(1)]
  have goodt: "good_state os regs wm t" using good_add_write[OF good assms(2,3)] .
  have found: "msrio_add_write os (int k) off (int i) t = (Inr j, t) \<and>
      0 \<le> j \<and> j < int (length (m_write_batch_op (m_batch_context t ! i))) \<and>
      op_key (m_write_batch_op (m_batch_context t ! i) ! nat j) = (k, off)"
    if "i < length (m_batch_context t)" "int k < m_num_cpu t" "(m_write_batch_idx_map (m_batch_context t ! i) ! k) off = Some j" for i k
  proof -
    note cinv = good_context(1)[OF goodt that(1)] and entry = that(3)
    have k: "k < nat (m_num_cpu t)" using that(2) by simp
    have len: "length (m_write_batch_idx_map (m_batch_context t ! i)) = nat (m_num_cpu t)"
      using ctx_inv_index[OF cinv] by (simp add: index_ok_def)
    have "msrio_add_write os (int k) off (int i) t = (Inr j, t)"
      using that k len by (simp add: msrio_add_write_def msr_exec)
    moreover obtain p where "j = int p" "p < length (m_write_batch_op (m_batch_context t ! i))"
      "op_key (m_write_batch_op (m_batch_context t ! i) ! p) = (k, off)"
      using index_okD[OF ctx_inv_index[OF cinv] k entry] by auto
    ultimately show ?thesis by simp
  qed
  from assms(3) good show ?thesis
  proof (cases rule: add_write_cases)
    case (2 i k j')
    then have "i < length (m_batch_context t)" "int k < m_num_cpu t" "(m_write_batch_idx_map (m_batch_context t ! i) ! k) off = Some j"
      by simp_all
    from found[OF this] show ?thesis unfolding 2(1,3,7) nat_int by blast
  next
    case (3 i k mk w mm)
    have "k < length (m_write_batch_idx_map (m_batch_context s ! i))"
      using ctx_inv_index[OF good_context(1)[OF good 3(2)]] 3(4) by (simp add: index_ok_def)
    then have "(m_write_batch_idx_map (m_batch_context t ! i) ! k) off = Some j"
      using 3(2,6) unfolding 3(7) by (simp add: added_ctx_def)
    with 3(2,4) have "msrio_add_write os (int k) off (int i) t = (Inr j, t) \<and>
        0 \<le> j \<and> j < int (length (m_write_batch_op (m_batch_context t ! i))) \<and>
        op_key (m_write_batch_op (m_batch_context t ! i) ! nat j) = (k, off)"
      unfolding 3(7) by (intro found[unfolded 3(7)]) simp_all
    moreover have "\<forall>p < length (m_write_batch_op (m_batch_context s ! i)).
        m_write_batch_op (m_batch_context t ! i) ! p = m_write_batch_op (m_batch_context s ! i) ! p"
      using 3(2) unfolding 3(7) by (simp add: added_ctx_def nth_append)
    ultimately show ?thesis using 3(1,3) by simp
  qed simp
qed

theorem add_write_idempotent_witness:
  "msrio_add_write demo_os 1 0x10 0 (demo_added M_DRIVER_MSRSAFE) = (Inr 0, demo_added M_DRIVER_MSRSAFE)"
  using add_write_idempotent[OF demo_reachable(1) _ demo_added_eq] by (simp add: demo_added_sel)

lemma map_of_zip_update:
  "distinct ks \<Longrightarrow> length vs = length ks \<Longrightarrow> j < length ks \<Longrightarrow>
     map_of (zip ks (vs[j := v])) = (map_of (zip ks vs))(ks ! j \<mapsto> v)"
proof (induction ks arbitrary: vs j)
  case (Cons x ks)
  obtain y ys where vs: "vs = y # ys" using Cons.prems by (cases vs) auto
  show ?case
  proof (cases j)
    case (Suc i)
    with Cons vs have "x \<noteq> ks ! i" by (auto dest: nth_mem)
    with Cons vs Suc show ?thesis by (auto simp: fun_eq_iff)
  qed (auto simp: vs fun_eq_iff)
qed simp

lemma pending_adjusted:
  assumes "msrio_reachable os regs wm s" "i < length (m_batch_context s)" "j < length (m_write_batch_op (m_batch_context s ! i))"
  shows "pending (adjusted_ctx j raw mk (m_batch_context s ! i)) = (pending (m_batch_context s ! i))
    (op_key (m_write_batch_op (m_batch_context s ! i) ! j) \<mapsto>
      ((m_write_val (m_batch_context s ! i) ! j AND NOT mk) OR raw, m_write_mask (m_batch_context s ! i) ! j OR mk))"
proof -
  note cinv = good_context(1)[OF reachable_good[OF assms(1)] assms(2)]
  show ?thesis
    using ctx_inv_distinct[OF cinv] ctx_inv_lengths[OF cinv] assms(3)
    by (simp add: pending_def adjusted_ctx_def zip_update map_of_zip_update)
qed

text \<open>
  C40: \<^verbatim>\<open>adjust()\<close> accepts a value exactly when the batch index exists, the mask is
  inside the system's write mask and the value inside the mask; otherwise it throws and changes
  nothing. What it accepts replaces the bits of its mask in the pending write of that register,
  widens its mask, and leaves the pending writes of the other registers as they were.
\<close>

theorem adjust_pending:
  assumes "msrio_reachable os regs wm s" "i < length (m_batch_context s)"
  shows "if 0 \<le> idx \<and> idx < int (length (m_write_batch_op (m_batch_context s ! i))) \<and>
      NOT (op_wmask (m_write_batch_op (m_batch_context s ! i) ! nat idx)) AND mk = 0 \<and> raw AND mk = raw
    then \<exists>t v m. msrio_adjust idx raw mk (int i) s = (Inr (), t) \<and>
      pending (m_batch_context s ! i) (op_key (m_write_batch_op (m_batch_context s ! i) ! nat idx)) = Some (v, m) \<and>
      pending (m_batch_context t ! i) = (pending (m_batch_context s ! i))
        (op_key (m_write_batch_op (m_batch_context s ! i) ! nat idx) \<mapsto> ((v AND NOT mk) OR raw, m OR mk)) \<and>
      m_os_world t = m_os_world s
    else msrio_adjust idx raw mk (int i) s = (Inl invalid, s)"
proof (cases "0 \<le> idx \<and> idx < int (length (m_write_batch_op (m_batch_context s ! i))) \<and>
      NOT (op_wmask (m_write_batch_op (m_batch_context s ! i) ! nat idx)) AND mk = 0 \<and> raw AND mk = raw")
  case False
  then have "msrio_adjust idx raw mk (int i) s = (Inl invalid, s)"
    using assms(2) by (auto simp: msrio_adjust_def msr_exec)
  with False show ?thesis by (simp only: if_False)
next
  case True
  let ?c = "m_batch_context s ! i"
  obtain j where idx: "idx = int j" and j: "j < length (m_write_batch_op ?c)" using True zero_le_imp_eq_int by auto
  let ?t = "put_ctx i (adjusted_ctx j raw mk ?c) s"
  note cinv = good_context(1)[OF reachable_good[OF assms(1)] assms(2)]
  have run: "msrio_adjust idx raw mk (int i) s = (Inr (), ?t)"
    unfolding idx using adjust_ok[OF assms(2) j] True idx by simp
  note pending_adjusted[OF assms(1,2) j, of raw mk]
  with run pending_nth[OF cinv j] assms(2) idx have "\<exists>t v m. msrio_adjust idx raw mk (int i) s = (Inr (), t) \<and>
      pending ?c (op_key (m_write_batch_op ?c ! nat idx)) = Some (v, m) \<and>
      pending (m_batch_context t ! i) = (pending ?c)(op_key (m_write_batch_op ?c ! nat idx) \<mapsto> ((v AND NOT mk) OR raw, m OR mk)) \<and>
      m_os_world t = m_os_world s"
    by (intro exI[of _ ?t] exI) simp
  then show ?thesis unfolding if_P[OF True] .
qed

theorem adjust_pending_witness:
  "\<exists>t. msrio_adjust 0 0x50 0xF0 0 (demo_adjusted M_DRIVER_MSRSAFE) = (Inr (), t) \<and> pending (m_batch_context t ! 0) (1, 0x10) = Some (0x55, 0xFF)"
  using adjust_pending[OF demo_adjusted_reachable, of 0 0 "0xF0" "0x50"]
  by (auto simp: demo_adjusted_sel pending_def op_key_def demo_op_def)

lemma read_msr_ok:
  assumes ok: "driver_ok os (m_file_desc s) (nat (m_num_cpu s)) regs wm" and cpu: "0 \<le> cpu" "cpu < m_num_cpu s"
  shows "read_msr os cpu off s = (Inr (regs (m_os_world s) (nat cpu, off)), s)"
proof -
  have "nat cpu < nat (m_num_cpu s)" using cpu by simp
  then show ?thesis using cpu by (simp add: read_msr_def bind_msr_desc bind_sys[OF driver_pread[OF ok]] act_simps)
qed

lemma write_msr_ok:
  assumes ok: "driver_ok os (m_file_desc s) (nat (m_num_cpu s)) regs wm" and cpu: "0 \<le> cpu" "cpu < m_num_cpu s"
    and raw: "raw AND mk = raw"
  shows "\<exists>w. write_msr os cpu off raw mk s = (Inr (), s\<lparr>m_os_world := w\<rparr>) \<and>
    regs w = (regs (m_os_world s))((nat cpu, off) := (regs (m_os_world s) (nat cpu, off) AND NOT mk) OR raw)"
proof -
  let ?v = "(regs (m_os_world s) (nat cpu, off) AND NOT mk) OR raw"
  have i: "nat cpu < nat (m_num_cpu s)" using cpu by simp
  obtain w where "os_pwrite os (m_file_desc s ! nat cpu) ?v off (m_os_world s) = (8, w)"
    "regs w = (regs (m_os_world s))((nat cpu, off) := ?v)"
    by (rule driver_pwrite[OF ok i])
  with raw read_msr_ok[OF ok cpu, of off] cpu show ?thesis
    by (intro exI[of _ w]) (simp add: write_msr_def act_simps bind_Inr bind_msr_desc bind_sys)
qed

text \<open>
  \<^verbatim>\<open>write_msr()\<close> refuses a value with bits outside the mask before any access;
  otherwise it replaces exactly the masked bits of one register of one CPU.
\<close>

theorem write_msr_masked:
  assumes ok: "driver_ok os (m_file_desc s) (nat (m_num_cpu s)) regs wm" and cpu: "0 \<le> cpu" "cpu < m_num_cpu s"
  shows "if raw AND mk = raw
    then \<exists>w. write_msr os cpu off raw mk s = (Inr (), s\<lparr>m_os_world := w\<rparr>) \<and>
      regs w = (regs (m_os_world s))((nat cpu, off) := (regs (m_os_world s) (nat cpu, off) AND NOT mk) OR raw)
    else write_msr os cpu off raw mk s = (Inl invalid, s)"
proof (cases "raw AND mk = raw")
  case True
  show ?thesis unfolding if_P[OF True] by (rule write_msr_ok[OF ok cpu True])
qed (simp add: write_msr_def act_simps)

theorem write_msr_masked_witness:
  "\<exists>w. write_msr demo_os 1 0x10 5 0xF (demo_msrio M_DRIVER_MSR) = (Inr (), (demo_msrio M_DRIVER_MSR)\<lparr>m_os_world := w\<rparr>) \<and> w (1, 0x10) = 5"
  using write_msr_masked[of demo_os "demo_msrio M_DRIVER_MSR" "\<lambda>r. r" "\<lambda>_. 0xFF" 1 5 "0xF" "0x10"] demo_driver_ok[of "-1"]
  by (auto simp: demo_msrio_eq)

section \<open>Where the code does not do what it means to\<close>

text \<open>
  \<^verbatim>\<open>sample()\<close> is meant to be refused before \<^verbatim>\<open>read_batch()\<close>, but
  \<^verbatim>\<open>write_batch()\<close> sets the same flag: after it the null array is read.
\<close>

lemma sample_after_write_batch:
  assumes "msrio_reachable os regs wm s" "i < length (m_batch_context s)" "ops_ptr (m_read_batch (m_batch_context s ! i)) = None"
  shows "\<exists>t. msrio_write_batch os (int i) s = (Inr (), t) \<and> fst (msrio_sample j (int i) t) = Inl Undefined_behavior"
proof -
  obtain ops t where "msrio_write_batch os (int i) s = (Inr (), t)"
    "m_batch_context t = (m_batch_context s)[i := written_ctx ops (m_batch_context s ! i)]"
    by (rule good_write_batch[OF reachable_good[OF assms(1)] assms(2)])
  with assms(2,3) show ?thesis
    by (intro exI[of _ t]) (simp add: msrio_sample_def msr_exec written_ctx_def)
qed

text \<open>
  A batch write whose second request fails throws before the operations are turned back into
  reads: the next \<^verbatim>\<open>write_batch()\<close> starts by writing the stale data instead of reading.
\<close>

lemma failed_write_leaves_writes:
  assumes "i < length (m_batch_context s)" "numops (m_write_batch (m_batch_context s ! i)) = length (m_write_batch_op (m_batch_context s ! i))"
    "ctx_inv n (m_batch_context s ! i)" "m_write_batch_op (m_batch_context s ! i) \<noteq> []"
    and rd: "msr_ioctl os Write_batch (int i) s = (Inr (), put_ctx i ((m_batch_context s ! i)\<lparr>m_write_batch_op := ops\<rparr>) s')"
    and "length ops = length (m_write_batch_op (m_batch_context s ! i))" "i < length (m_batch_context s')"
    and "os_msr_batch os (m_file_desc s' ! nat (m_num_cpu s'))
      (modify_ops ops (m_write_mask (m_batch_context s ! i)) (m_write_val (m_batch_context s ! i))) (m_os_world s') =
      ((-1, modify_ops ops (m_write_mask (m_batch_context s ! i)) (m_write_val (m_batch_context s ! i))), w)"
  shows "\<exists>t. msr_ioctl_write os (int i) s = (Inl (Exception GEOPM_ERROR_MSR_READ), t) \<and>
    (\<forall>op \<in> set (m_write_batch_op (m_batch_context t ! i)). op_isrdmsr op = 0)"
proof -
  let ?c = "m_batch_context s ! i"
  note len = ctx_inv_lengths[OF assms(3)]
  have ops: "\<forall>op \<in> set (modify_ops ops (m_write_mask ?c) (m_write_val ?c)). op_isrdmsr op = 0"
    using len assms(6) by (intro modify_ops_isrdmsr) simp_all
  show ?thesis
    using assms len ops
    by (intro exI) (auto simp: msr_ioctl_write_def msr_exec bind_Inr modify_step_def msr_ioctl_def[of os Write_batch] bind_sys bind_def[of "bind _ _"])
qed

text \<open>The guard of \<^verbatim>\<open>msr_desc()\<close> lets the index one past the last CPU through: it yields the batch descriptor.\<close>

lemma msr_desc_off_by_one: "0 \<le> m_num_cpu s \<Longrightarrow> msr_desc (m_num_cpu s) s = msr_batch_desc s"
  by (simp add: msr_desc_def msr_batch_desc_def act_simps)

end
