(* ===== verification/Platform_Signals.thy ===== *)
theory Platform_Signals
  imports Binary64 Circular_Buffer MSR_IO
begin

text \<open>
  The signal and control objects that IOGroups are built from (libgeopmd/src): RawMSRSignal.cpp,
  MSRFieldSignal.cpp, MSRFieldControl.cpp, RolloverGenerator.cpp, MSR.cpp,
  DifferenceSignal.cpp, MultiplicationSignal.cpp, RatioSignal.cpp, DerivativeSignal.cpp,
  TimeSignal.cpp and DomainControl.cpp.

  An object's methods are actions on a pair of its own members and the state below it (the
  objects it refers to, down to the \<^verbatim>\<open>MSRIO\<close> object); \<open>own\<close> and \<open>under\<close> run an action on
  one half. A signal that is a parameter of another is a record of its three methods. The locale
  \<open>batch_signal\<close> is the contract of the \<^verbatim>\<open>Signal\<close> interface (Signal.hpp), interpreted for
  every class. A raw register travels as its 64 bit pattern (\<^verbatim>\<open>geopm_field_to_signal()\<close>
  copies bits). The operands of one C++ expression are evaluated from left to right. The delay in
  \<^verbatim>\<open>DerivativeSignal::read()\<close> has no effect on the model.
\<close>

unbundle bit_operations_syntax

section \<open>Objects\<close>

definition own :: "('o, 'a) action \<Rightarrow> ('o \<times> 's, 'a) action" where
  "own m t = (let (r, x) = m (fst t) in (r, (x, snd t)))"

definition under :: "('s, 'a) action \<Rightarrow> ('o \<times> 's, 'a) action" where
  "under m t = (let (r, x) = m (snd t) in (r, (fst t, x)))"

record ('s, 'v) signal =
  sg_setup_batch :: "('s, unit) action"
  sg_sample :: "('s, 'v) action"
  sg_read :: "('s, 'v) action"

lemma own_simps [act_simps]:
  "own (gets f) t = gets (\<lambda>t. f (fst t)) t" "own (ret x) t = ret x t" "own (throw e) t = throw e t"
  "own (modify g) t = modify (\<lambda>t. (g (fst t), snd t)) t" "own (guard b e) t = guard b e t"
  by (simp_all add: own_def gets_def ret_def throw_def modify_def guard_def)

lemma own_result: "m x = (r, y) \<Longrightarrow> own m (x, s) = (r, (y, s))"
  by (simp add: own_def)

lemma under_result: "m s = (r, y) \<Longrightarrow> under m (x, s) = (r, (x, y))"
  by (simp add: under_def)

subsection \<open>The contract of a signal\<close>

text \<open>
  \<^verbatim>\<open>sample()\<close> is refused until \<^verbatim>\<open>setup_batch()\<close> has been called; the second and
  later calls of \<^verbatim>\<open>setup_batch()\<close> do nothing; sampling does not undo the setup.
\<close>

locale batch_signal =
  fixes prepare :: "('t, unit) action"
    and smp :: "('t, 'v) action"
    and is_ready :: "'t \<Rightarrow> bool"
  assumes not_ready: "\<not> is_ready t \<Longrightarrow> smp t = (Inl runtime, t)"
    and setup_ready: "prepare t = (Inr (), u) \<Longrightarrow> is_ready u"
    and setup_again: "is_ready t \<Longrightarrow> prepare t = (Inr (), t)"
    and sample_ready: "is_ready t \<Longrightarrow> smp t = (r, u) \<Longrightarrow> is_ready u"
begin

lemma setup_idempotent: "prepare t = (Inr (), u) \<Longrightarrow> prepare u = (Inr (), u)"
  by (rule setup_again) (rule setup_ready)

lemma samples_ready:
  "is_ready t \<Longrightarrow> map_action (\<lambda>_. smp) (replicate n ()) t = (r, u) \<Longrightarrow> is_ready u"
proof (induction n arbitrary: t r u)
  case (Suc n)
  then show ?case by (auto simp: bind_cases ret_def dest: sample_ready)
qed simp

lemma contract:
  "\<not> is_ready t \<Longrightarrow> smp t = (Inl runtime, t)"
  "prepare t = (Inr (), u) \<Longrightarrow> prepare u = (Inr (), u) \<and>
     (\<forall>n r v. map_action (\<lambda>_. smp) (replicate n ()) u = (r, v) \<longrightarrow> prepare v = (Inr (), v))"
  using not_ready setup_idempotent samples_ready setup_ready setup_again by blast+

end

section \<open>Raw registers\<close>

record raw_msr =
  rm_cpu :: int
  rm_offset :: "64 word"
  rm_data_idx :: int
  rm_is_batch_ready :: bool

definition raw_msr_new :: "int \<Rightarrow> 64 word \<Rightarrow> raw_msr" where
  "raw_msr_new cpu offset = \<lparr>rm_cpu = cpu, rm_offset = offset, rm_data_idx = -1, rm_is_batch_ready = False\<rparr>"

definition raw_msr_setup_batch :: "(raw_msr \<times> 'w msrio, unit) action" where
  "raw_msr_setup_batch =
     bind (own (gets id)) (\<lambda>ob.
     if \<not> rm_is_batch_ready ob
     then bind (under (msrio_add_read (rm_cpu ob) (rm_offset ob) 0)) (\<lambda>idx.
          own (modify (\<lambda>ob. ob\<lparr>rm_data_idx := idx, rm_is_batch_ready := True\<rparr>)))
     else ret ())"

definition raw_msr_sample :: "(raw_msr \<times> 'w msrio, 64 word) action" where
  "raw_msr_sample =
     bind (own (gets id)) (\<lambda>ob.
     bind (guard (rm_is_batch_ready ob) runtime) (\<lambda>_.
     under (msrio_sample (rm_data_idx ob) 0)))"

definition raw_msr_read :: "'w os \<Rightarrow> (raw_msr \<times> 'w msrio, 64 word) action" where
  "raw_msr_read os = bind (own (gets id)) (\<lambda>ob. under (read_msr os (rm_cpu ob) (rm_offset ob)))"

definition raw_msr_signal :: "'w os \<Rightarrow> (raw_msr \<times> 'w msrio, 64 word) signal" where
  "raw_msr_signal os = \<lparr>sg_setup_batch = raw_msr_setup_batch, sg_sample = raw_msr_sample, sg_read = raw_msr_read os\<rparr>"

section \<open>Fields of registers\<close>

datatype msr_function = M_FUNCTION_SCALE | M_FUNCTION_LOG_HALF | M_FUNCTION_7_BIT_FLOAT | M_FUNCTION_LOGIC | M_FUNCTION_OVERFLOW

definition string_to_function :: "string \<Rightarrow> msr_function result" where
  "string_to_function str =
     (case map_of [(''scale'', M_FUNCTION_SCALE), (''log_half'', M_FUNCTION_LOG_HALF), (''7_bit_float'', M_FUNCTION_7_BIT_FLOAT),
                   (''overflow'', M_FUNCTION_OVERFLOW), (''logic'', M_FUNCTION_LOGIC)] str of
        None \<Rightarrow> Inl invalid | Some f \<Rightarrow> Inr f)"

record rollover_generator =
  rg_last_value :: double
  rg_rollover_factor :: double
  rg_rollover_total :: double

definition rollover_new :: rollover_generator where
  "rollover_new = \<lparr>rg_last_value = Fin 0, rg_rollover_factor = Fin 0, rg_rollover_total = Fin 0\<rparr>"

definition rollover_set_factor :: "double \<Rightarrow> rollover_generator \<Rightarrow> rollover_generator" where
  "rollover_set_factor f g = g\<lparr>rg_rollover_factor := f\<rparr>"

definition rollover_update :: "double \<Rightarrow> (rollover_generator, double) action" where
  "rollover_update v =
     bind (modify (\<lambda>g. if dlt v (rg_last_value g)
                        then g\<lparr>rg_rollover_total := dadd (rg_rollover_total g) (rg_rollover_factor g)\<rparr> else g)) (\<lambda>_.
     bind (modify (\<lambda>g. g\<lparr>rg_last_value := v\<rparr>)) (\<lambda>_.
     gets (\<lambda>g. dadd v (rg_rollover_total g))))"

text \<open>
  The mask of the bits from \<open>begin_bit\<close> to \<open>end_bit\<close>. Shifting a 64 bit integer by 64 or more, or
  by a negative count, is undefined.
\<close>

definition shl64 :: "64 word \<Rightarrow> int \<Rightarrow> 64 word result" where
  "shl64 x n = (if 0 \<le> n \<and> n < 64 then Inr (push_bit (nat n) x) else Inl Undefined_behavior)"

definition field_mask :: "int \<Rightarrow> int \<Rightarrow> 64 word result" where
  "field_mask begin_bit end_bit =
     and_then (shl64 1 (end_bit - begin_bit + 1)) (\<lambda>x. shl64 (x - 1) begin_bit)"

record field_signal =
  fs_shift :: int
  fs_num_bit :: int
  fs_mask :: "64 word"
  fs_function :: msr_function
  fs_scalar :: double
  fs_is_batch_ready :: bool
  fs_rollover :: rollover_generator

definition field_signal_new :: "int \<Rightarrow> int \<Rightarrow> msr_function \<Rightarrow> double \<Rightarrow> field_signal result" where
  "field_signal_new begin_bit end_bit f scalar =
     and_then (field_mask begin_bit end_bit) (\<lambda>mk.
     and_then (shl64 1 (end_bit - begin_bit + 1)) (\<lambda>factor.
     Inr \<lparr>fs_shift = begin_bit, fs_num_bit = end_bit - begin_bit + 1, fs_mask = mk, fs_function = f, fs_scalar = scalar,
          fs_is_batch_ready = False, fs_rollover = rollover_set_factor (d_of_u64 factor) rollover_new\<rparr>))"

definition lift_rollover :: "(rollover_generator, 'a) action \<Rightarrow> (field_signal, 'a) action" where
  "lift_rollover m ob = (let (r, g) = m (fs_rollover ob) in (r, ob\<lparr>fs_rollover := g\<rparr>))"

definition convert_raw_value :: "64 word \<Rightarrow> (field_signal, double) action" where
  "convert_raw_value val =
     bind (gets id) (\<lambda>ob.
     let subfield = drop_bit (nat (fs_shift ob)) (val AND fs_mask ob) in
     bind (case fs_function ob of
             M_FUNCTION_LOG_HALF \<Rightarrow> bind (lift (shl64 1 (uint subfield))) (\<lambda>d. ret (ddiv (Fin 1) (d_of_u64 d)))
           | M_FUNCTION_7_BIT_FLOAT \<Rightarrow>
               bind (lift (shl64 1 (uint (subfield AND 0x1F)))) (\<lambda>p.
               ret (dmul (d_of_u64 p) (dadd (Fin 1) (ddiv (d_of_u64 (drop_bit 5 subfield)) (Fin 4)))))
           | M_FUNCTION_OVERFLOW \<Rightarrow> lift_rollover (rollover_update (d_of_u64 subfield))
           | M_FUNCTION_SCALE \<Rightarrow> ret (d_of_u64 subfield)
           | M_FUNCTION_LOGIC \<Rightarrow> ret (d_of_u64 subfield)) (\<lambda>result.
     ret (dmul result (fs_scalar ob))))"

definition field_setup_batch :: "('s, 64 word) signal \<Rightarrow> (field_signal \<times> 's, unit) action" where
  "field_setup_batch raw =
     bind (own (gets fs_is_batch_ready)) (\<lambda>is_ready.
     if \<not> is_ready
     then bind (under (sg_setup_batch raw)) (\<lambda>_. own (modify (\<lambda>ob. ob\<lparr>fs_is_batch_ready := True\<rparr>)))
     else ret ())"

definition field_sample :: "('s, 64 word) signal \<Rightarrow> (field_signal \<times> 's, double) action" where
  "field_sample raw =
     bind (own (gets fs_is_batch_ready)) (\<lambda>is_ready.
     bind (guard is_ready runtime) (\<lambda>_.
     bind (under (sg_sample raw)) (\<lambda>val. own (convert_raw_value val))))"

definition field_read :: "('s, 64 word) signal \<Rightarrow> (field_signal \<times> 's, double) action" where
  "field_read raw = bind (under (sg_read raw)) (\<lambda>val. own (convert_raw_value val))"

section \<open>Controls on fields\<close>

record field_control =
  fc_save_restore_ctx :: int
  fc_cpu :: int
  fc_offset :: "64 word"
  fc_shift :: int
  fc_num_bit :: int
  fc_mask :: "64 word"
  fc_function :: msr_function
  fc_inverse :: double
  fc_is_batch_ready :: bool
  fc_adjust_idx :: int
  fc_save_idx :: int
  fc_restore_idx :: int
  fc_saved_msr_value :: "64 word"

definition field_control_new ::
  "'w os \<Rightarrow> int \<Rightarrow> 64 word \<Rightarrow> int \<Rightarrow> int \<Rightarrow> msr_function \<Rightarrow> double \<Rightarrow> ('w msrio, field_control) action" where
  "field_control_new os cpu offset begin_bit end_bit f scalar =
     bind (lift (field_mask begin_bit end_bit)) (\<lambda>mk.
     bind (guard (f \<noteq> M_FUNCTION_OVERFLOW) invalid) (\<lambda>_.
     bind (guard (\<not> begin_bit > end_bit) invalid) (\<lambda>_.
     bind (system_write_mask os offset) (\<lambda>offset_mask.
     bind (guard (mk AND offset_mask = mk) invalid) (\<lambda>_.
     ret \<lparr>fc_save_restore_ctx = -1, fc_cpu = cpu, fc_offset = offset, fc_shift = begin_bit,
          fc_num_bit = end_bit - begin_bit + 1, fc_mask = mk, fc_function = f, fc_inverse = ddiv (Fin 1) scalar,
          fc_is_batch_ready = False, fc_adjust_idx = -1, fc_save_idx = -1, fc_restore_idx = -1,
          fc_saved_msr_value = 0\<rparr>)))))"

text \<open>
  \<^verbatim>\<open>encode()\<close>. \<open>lg\<close> is \<^verbatim>\<open>std::log2()\<close>. In the seven bit float the powers of two are
  shifts of the \<^verbatim>\<open>int\<close> 1: for 31 the result is the smallest \<^verbatim>\<open>int\<close>, beyond it is undefined.
\<close>

definition int_shl1 :: "64 word \<Rightarrow> int result" where
  "int_shl1 y = (if uint y < 31 then Inr (2 ^ unat y) else if uint y = 31 then Inr (- (2 ^ 31)) else Inl Undefined_behavior)"

definition GEOPM_EOVERFLOW :: exn where "GEOPM_EOVERFLOW = Exception 75"

definition encode_7_bit_float :: "(double \<Rightarrow> double) \<Rightarrow> double \<Rightarrow> double \<Rightarrow> 64 word result" where
  "encode_7_bit_float lg inv_scalar val =
     (if \<not> dlt (Fin 0) val then Inl invalid
      else let v = dmul val inv_scalar in
        and_then (u64_of_d (lg v)) (\<lambda>float_y.
        and_then (int_shl1 float_y) (\<lambda>p.
        and_then (u64_of_d (dmul (Fin 4) (dsub (ddiv v (d_of_int p)) (Fin 1)))) (\<lambda>float_z.
        if (float_y \<noteq> 0 \<and> drop_bit 5 float_y \<noteq> 0) \<or> (float_z \<noteq> 0 \<and> drop_bit 2 float_z \<noteq> 0)
        then Inl GEOPM_EOVERFLOW
        else let inferred = dmul (d_of_int p) (dadd (Fin 1) (ddiv (d_of_u64 float_z) (Fin 4))) in
          if dlt (dmul v (Fin (1 / 4))) (dsub v inferred) then Inl (Exception GEOPM_ERROR_LOGIC)
          else Inr (float_y OR push_bit 5 float_z)))))"

definition field_encode :: "(double \<Rightarrow> double) \<Rightarrow> field_control \<Rightarrow> double \<Rightarrow> 64 word result" where
  "field_encode lg c val =
     and_then
       (case fc_function c of
          M_FUNCTION_SCALE \<Rightarrow> u64_of_d (dmul (fc_inverse c) val)
        | M_FUNCTION_LOG_HALF \<Rightarrow> u64_of_d (dmul (Fin (-1)) (lg (dmul (fc_inverse c) val)))
        | M_FUNCTION_7_BIT_FLOAT \<Rightarrow> encode_7_bit_float lg (fc_inverse c) val
        | M_FUNCTION_LOGIC \<Rightarrow> Inr (if deq val (Fin 0) then 0 else 1)
        | M_FUNCTION_OVERFLOW \<Rightarrow> Inr 0)
       (\<lambda>result. Inr (push_bit (nat (fc_shift c)) result AND fc_mask c))"

definition field_control_setup_batch :: "'w os \<Rightarrow> (field_control \<times> 'w msrio, unit) action" where
  "field_control_setup_batch os =
     bind (own (gets id)) (\<lambda>c.
     if \<not> fc_is_batch_ready c
     then bind (under (msrio_add_write os (fc_cpu c) (fc_offset c) 0)) (\<lambda>idx.
          own (modify (\<lambda>c. c\<lparr>fc_adjust_idx := idx, fc_is_batch_ready := True\<rparr>)))
     else ret ())"

definition field_control_adjust :: "(double \<Rightarrow> double) \<Rightarrow> double \<Rightarrow> (field_control \<times> 'w msrio, unit) action" where
  "field_control_adjust lg val =
     bind (own (gets id)) (\<lambda>c.
     bind (guard (fc_is_batch_ready c) runtime) (\<lambda>_.
     bind (lift (field_encode lg c val)) (\<lambda>raw.
     under (msrio_adjust (fc_adjust_idx c) raw (fc_mask c) 0))))"

definition field_control_write :: "'w os \<Rightarrow> (double \<Rightarrow> double) \<Rightarrow> double \<Rightarrow> (field_control \<times> 'w msrio, unit) action" where
  "field_control_write os lg val =
     bind (own (gets id)) (\<lambda>c.
     bind (lift (field_encode lg c val)) (\<lambda>raw.
     under (write_msr os (fc_cpu c) (fc_offset c) raw (fc_mask c))))"

definition field_control_save :: "(field_control \<times> 'w msrio, unit) action" where
  "field_control_save =
     bind (own (gets id)) (\<lambda>c.
     bind (under (msrio_sample (fc_save_idx c) (fc_save_restore_ctx c))) (\<lambda>v.
     own (modify (\<lambda>c. c\<lparr>fc_saved_msr_value := v AND fc_mask c\<rparr>))))"

definition field_control_restore :: "(field_control \<times> 'w msrio, unit) action" where
  "field_control_restore =
     bind (own (gets id)) (\<lambda>c.
     under (msrio_adjust (fc_restore_idx c) (fc_saved_msr_value c) (fc_mask c) (fc_save_restore_ctx c)))"

definition add_save_restore_context :: "'w os \<Rightarrow> int \<Rightarrow> (field_control \<times> 'w msrio, unit) action" where
  "add_save_restore_context os ctx =
     bind (own (modify (\<lambda>c. c\<lparr>fc_save_restore_ctx := ctx\<rparr>))) (\<lambda>_.
     bind (own (gets id)) (\<lambda>c.
     bind (under (msrio_add_read (fc_cpu c) (fc_offset c) ctx)) (\<lambda>save_idx.
     bind (own (modify (\<lambda>c. c\<lparr>fc_save_idx := save_idx\<rparr>))) (\<lambda>_.
     bind (under (msrio_add_write os (fc_cpu c) (fc_offset c) ctx)) (\<lambda>restore_idx.
     own (modify (\<lambda>c. c\<lparr>fc_restore_idx := restore_idx\<rparr>)))))))"

section \<open>Arithmetic on signals\<close>

text \<open>The own state of the three arithmetic signals is the flag \<^verbatim>\<open>m_is_batch_ready\<close>.\<close>

definition setup_two :: "('s, 'u) signal \<Rightarrow> ('s, 'v) signal \<Rightarrow> (bool \<times> 's, unit) action" where
  "setup_two a b =
     bind (own (gets id)) (\<lambda>is_ready.
     if \<not> is_ready
     then bind (under (sg_setup_batch a)) (\<lambda>_. bind (under (sg_setup_batch b)) (\<lambda>_. own (modify (\<lambda>_. True))))
     else ret ())"

definition difference_setup_batch :: "('s, double) signal \<Rightarrow> ('s, double) signal \<Rightarrow> (bool \<times> 's, unit) action" where
  "difference_setup_batch minuend subtrahend = setup_two minuend subtrahend"

definition difference_sample :: "('s, double) signal \<Rightarrow> ('s, double) signal \<Rightarrow> (bool \<times> 's, double) action" where
  "difference_sample minuend subtrahend =
     bind (own (gets id)) (\<lambda>is_ready.
     bind (guard is_ready runtime) (\<lambda>_.
     bind (under (sg_sample minuend)) (\<lambda>x. bind (under (sg_sample subtrahend)) (\<lambda>y. ret (dsub x y)))))"

definition difference_read :: "('s, double) signal \<Rightarrow> ('s, double) signal \<Rightarrow> (bool \<times> 's, double) action" where
  "difference_read minuend subtrahend =
     bind (under (sg_read minuend)) (\<lambda>x. bind (under (sg_read subtrahend)) (\<lambda>y. ret (dsub x y)))"

definition multiplication_setup_batch :: "('s, double) signal \<Rightarrow> (bool \<times> 's, unit) action" where
  "multiplication_setup_batch multiplier =
     bind (own (gets id)) (\<lambda>is_ready.
     if \<not> is_ready then bind (under (sg_setup_batch multiplier)) (\<lambda>_. own (modify (\<lambda>_. True))) else ret ())"

definition multiplication_sample :: "('s, double) signal \<Rightarrow> double \<Rightarrow> (bool \<times> 's, double) action" where
  "multiplication_sample multiplier multiplicand =
     bind (own (gets id)) (\<lambda>is_ready.
     bind (guard is_ready runtime) (\<lambda>_.
     bind (under (sg_sample multiplier)) (\<lambda>x. ret (dmul x multiplicand))))"

definition multiplication_read :: "('s, double) signal \<Rightarrow> double \<Rightarrow> (bool \<times> 's, double) action" where
  "multiplication_read multiplier multiplicand = bind (under (sg_read multiplier)) (\<lambda>x. ret (dmul x multiplicand))"

text \<open>\<^verbatim>\<open>denominator != 0\<close> is true for a NaN; the quotient is then NaN as well.\<close>

definition ratio_value :: "double \<Rightarrow> double \<Rightarrow> double" where
  "ratio_value num den = (if \<not> deq den (Fin 0) then ddiv num den else NaN)"

definition ratio_setup_batch :: "('s, double) signal \<Rightarrow> ('s, double) signal \<Rightarrow> (bool \<times> 's, unit) action" where
  "ratio_setup_batch num den = setup_two num den"

definition ratio_sample :: "('s, double) signal \<Rightarrow> ('s, double) signal \<Rightarrow> (bool \<times> 's, double) action" where
  "ratio_sample num den =
     bind (own (gets id)) (\<lambda>is_ready.
     bind (guard is_ready runtime) (\<lambda>_.
     bind (under (sg_sample num)) (\<lambda>x. bind (under (sg_sample den)) (\<lambda>y. ret (ratio_value x y)))))"

definition ratio_read :: "('s, double) signal \<Rightarrow> ('s, double) signal \<Rightarrow> (bool \<times> 's, double) action" where
  "ratio_read num den =
     bind (under (sg_read num)) (\<lambda>x. bind (under (sg_read den)) (\<lambda>y. ret (ratio_value x y)))"

text \<open>A time signal's state below is the shared batch time; \<open>now\<close> reads the clock.\<close>

definition time_setup_batch :: "(bool \<times> 's, unit) action" where
  "time_setup_batch = bind (own (gets id)) (\<lambda>is_ready. if \<not> is_ready then own (modify (\<lambda>_. True)) else ret ())"

definition time_sample :: "('s \<Rightarrow> double) \<Rightarrow> (bool \<times> 's, double) action" where
  "time_sample batch = bind (own (gets id)) (\<lambda>is_ready. bind (guard is_ready runtime) (\<lambda>_. gets (\<lambda>t. batch (snd t))))"

section \<open>Derivatives\<close>

type_synonym history = "(double \<times> double) circular_buffer"

record derivative =
  dv_num_sample_history :: nat
  dv_history :: history
  dv_num_fit :: int
  dv_is_batch_ready :: bool
  dv_last_result :: double
  dv_nan_replace :: double
  dv_last_time :: double

definition derivative_new :: "nat \<Rightarrow> double \<Rightarrow> derivative" where
  "derivative_new n nan_replace =
     \<lparr>dv_num_sample_history = n, dv_history = cb_make (Fin 0, Fin 0) n, dv_num_fit = 0, dv_is_batch_ready = False,
      dv_last_result = NaN, dv_nan_replace = nan_replace, dv_last_time = NaN\<rparr>"

type_synonym fit_sums = "double \<times> double \<times> double \<times> double"

definition fit_add :: "double \<Rightarrow> double \<Rightarrow> double \<times> double \<Rightarrow> fit_sums \<Rightarrow> fit_sums" where
  "fit_add time_0 sig_0 x = (\<lambda>(A, B, C, D).
     let dt = dsub (fst x) time_0; sig = dsub (snd x) sig_0
     in (dadd A (dmul dt sig), dadd B dt, dadd C sig, dadd D (dmul dt dt)))"

definition fit_slope :: "int \<Rightarrow> double \<Rightarrow> fit_sums \<Rightarrow> double" where
  "fit_slope num_fit nan_replace = (\<lambda>(A, B, C, D).
     let E = ddiv (Fin 1) (d_of_int num_fit);
         ssxx = dsub D (dmul (dmul B B) E);
         ssxy = dsub A (dmul (dmul B C) E)
     in if \<not> deq ssxx (Fin 0) then ddiv ssxy ssxx else nan_replace)"

definition compute_next ::
  "double \<Rightarrow> double \<Rightarrow> double \<Rightarrow> history \<times> int \<Rightarrow> (double \<times> history \<times> int) result" where
  "compute_next time sig nan_replace = (\<lambda>(history, num_fit).
     and_then (cb_insert (time, sig) history) (\<lambda>history'.
     let num_fit' = (if num_fit < int (cb_capacity history') then num_fit + 1 else num_fit) in
     if num_fit' \<ge> 2
     then let buf_size = int (cb_size history') in
       and_then (cb_value history' (buf_size - num_fit')) (\<lambda>first.
       and_then (fold_result (\<lambda>buf_off s. and_then (cb_value history' buf_off) (\<lambda>x. Inr (fit_add (fst first) (snd first) x s)))
                   [buf_size - num_fit'..buf_size - 1] (Fin 0, Fin 0, Fin 0, Fin 0)) (\<lambda>s.
       Inr (fit_slope num_fit' nan_replace s, history', num_fit')))
     else Inr (NaN, history', num_fit')))"

definition derivative_setup_batch :: "('s, double) signal \<Rightarrow> ('s, double) signal \<Rightarrow> (derivative \<times> 's, unit) action" where
  "derivative_setup_batch time_sig y_sig =
     bind (own (gets dv_is_batch_ready)) (\<lambda>is_ready.
     if \<not> is_ready
     then bind (under (sg_setup_batch time_sig)) (\<lambda>_. bind (under (sg_setup_batch y_sig)) (\<lambda>_.
          own (modify (\<lambda>ob. ob\<lparr>dv_is_batch_ready := True\<rparr>))))
     else ret ())"

definition derivative_sample :: "('s, double) signal \<Rightarrow> ('s, double) signal \<Rightarrow> (derivative \<times> 's, double) action" where
  "derivative_sample time_sig y_sig =
     bind (own (gets dv_is_batch_ready)) (\<lambda>is_ready.
     bind (guard is_ready runtime) (\<lambda>_.
     bind (under (sg_sample time_sig)) (\<lambda>time.
     bind (own (gets id)) (\<lambda>ob.
     bind (if cb_size (dv_history ob) = 0 \<or> \<not> deq (dv_last_time ob) time
           then bind (under (sg_sample y_sig)) (\<lambda>sig.
                bind (lift (compute_next time sig (dv_nan_replace ob) (dv_history ob, dv_num_fit ob))) (\<lambda>(result, history, num_fit).
                own (modify (\<lambda>ob. ob\<lparr>dv_history := history, dv_num_fit := num_fit, dv_last_result := result, dv_last_time := time\<rparr>))))
           else ret ()) (\<lambda>_.
     own (gets dv_last_result))))))"

text \<open>Reading takes its samples in a temporary history.\<close>

fun derivative_read_loop ::
  "('s, double) signal \<Rightarrow> ('s, double) signal \<Rightarrow> double \<Rightarrow> nat \<Rightarrow> history \<times> int \<Rightarrow> double \<Rightarrow> ('s, double) action" where
  "derivative_read_loop time_sig y_sig nan_replace 0 h result s = (Inr result, s)"
| "derivative_read_loop time_sig y_sig nan_replace (Suc n) h result s =
     bind (sg_read y_sig) (\<lambda>sig. bind (sg_read time_sig) (\<lambda>time.
     bind (lift (compute_next time sig nan_replace h)) (\<lambda>(result', history, num_fit).
     derivative_read_loop time_sig y_sig nan_replace n (history, num_fit) result'))) s"

definition derivative_read :: "('s, double) signal \<Rightarrow> ('s, double) signal \<Rightarrow> (derivative \<times> 's, double) action" where
  "derivative_read time_sig y_sig =
     bind (own (gets id)) (\<lambda>ob.
     under (derivative_read_loop time_sig y_sig (dv_nan_replace ob) (dv_num_sample_history ob)
       (cb_make (Fin 0, Fin 0) (dv_num_sample_history ob), 0) NaN))"

section \<open>Controls of a domain\<close>

record 's control =
  ct_setup_batch :: "('s, unit) action"
  ct_adjust :: "double \<Rightarrow> ('s, unit) action"
  ct_write :: "double \<Rightarrow> ('s, unit) action"
  ct_save :: "('s, unit) action"
  ct_restore :: "('s, unit) action"

record 's domain_control =
  dc_controls :: "'s control list"
  dc_is_batch_ready :: bool

definition domain_control_new :: "'s control option list \<Rightarrow> 's domain_control result" where
  "domain_control_new controls =
     (if \<exists>c \<in> set controls. c = None then Inl invalid
      else Inr \<lparr>dc_controls = map the controls, dc_is_batch_ready = False\<rparr>)"

definition domain_setup_batch :: "('s domain_control \<times> 's, unit) action" where
  "domain_setup_batch =
     bind (own (gets id)) (\<lambda>c.
     if \<not> dc_is_batch_ready c
     then bind (for_each (\<lambda>ctl. under (ct_setup_batch ctl)) (dc_controls c)) (\<lambda>_.
          own (modify (\<lambda>c. c\<lparr>dc_is_batch_ready := True\<rparr>)))
     else ret ())"

definition domain_adjust :: "double \<Rightarrow> ('s domain_control \<times> 's, unit) action" where
  "domain_adjust val =
     bind (own (gets id)) (\<lambda>c.
     bind (guard (dc_is_batch_ready c) runtime) (\<lambda>_.
     for_each (\<lambda>ctl. under (ct_adjust ctl val)) (dc_controls c)))"

definition domain_write :: "double \<Rightarrow> ('s domain_control \<times> 's, unit) action" where
  "domain_write val = bind (own (gets id)) (\<lambda>c. for_each (\<lambda>ctl. under (ct_write ctl val)) (dc_controls c))"

definition domain_save :: "('s domain_control \<times> 's, unit) action" where
  "domain_save = bind (own (gets id)) (\<lambda>c. for_each (\<lambda>ctl. under (ct_save ctl)) (dc_controls c))"

definition domain_restore :: "('s domain_control \<times> 's, unit) action" where
  "domain_restore = bind (own (gets id)) (\<lambda>c. for_each (\<lambda>ctl. under (ct_restore ctl)) (dc_controls c))"

section \<open>Every signal keeps the contract\<close>

lemma bind_own [act_simps]:
  "bind (own (gets f)) g t = g (f (fst t)) t"
  "bind (own (modify h)) g' t = g' () (h (fst t), snd t)"
  by (simp_all add: bind_def own_def gets_def modify_def)

text \<open>What the state satisfies when an action returns.\<close>

definition establishes :: "('s \<Rightarrow> bool) \<Rightarrow> ('s, 'a) action \<Rightarrow> bool" where
  "establishes P m \<longleftrightarrow> (\<forall>t x u. m t = (Inr x, u) \<longrightarrow> P u)"

lemma establishesD: "establishes P m \<Longrightarrow> m t = (Inr x, u) \<Longrightarrow> P u"
  by (auto simp: establishes_def)

lemma establishes_bind: "(\<And>x. establishes P (f x)) \<Longrightarrow> establishes P (bind m f)"
  unfolding establishes_def bind_cases by blast

lemma establishes_own_modify: "(\<And>x. P (g x)) \<Longrightarrow> establishes (\<lambda>t. P (fst t)) (own (modify g))"
  by (auto simp: establishes_def own_def modify_def)

lemma keeps_under [keeps_intros]: "keeps (\<lambda>t. P (fst t)) (under m)"
  by (auto simp: keeps_def under_def split: prod.splits)

lemma keeps_own [keeps_intros]: "keeps P m \<Longrightarrow> keeps (\<lambda>t. P (fst t)) (own m)"
  by (auto simp: keeps_def own_def split: prod.splits)

text \<open>The form that every \<^verbatim>\<open>setup_batch()\<close> and \<^verbatim>\<open>sample()\<close> has.\<close>

lemma batch_signalI:
  assumes eq: "\<And>t. prepare t = (if is_ready (fst t) then (Inr (), t) else work (fst t) t)"
    and work: "\<And>x. establishes (\<lambda>t. is_ready (fst t)) (work x)"
    and smp: "\<And>t. \<not> is_ready (fst t) \<Longrightarrow> smp t = (Inl runtime, t)" "keeps (\<lambda>t. is_ready (fst t)) smp"
  shows "batch_signal prepare smp (\<lambda>t. is_ready (fst t))"
proof
  show "is_ready (fst u)" if "prepare t = (Inr (), u)" for t u
    using that establishesD[OF work] unfolding eq by (cases "is_ready (fst t)") auto
  show "prepare t = (Inr (), t)" if "is_ready (fst t)" for t using that by (simp add: eq)
qed (use smp in \<open>auto dest: keepsD\<close>)

lemma keeps_case_prod [keeps_intros]: "(\<And>a b. x = (a, b) \<Longrightarrow> keeps P (f a b)) \<Longrightarrow> keeps P (case x of (a, b) \<Rightarrow> f a b)"
  by (cases x) simp

interpretation raw_msr: batch_signal raw_msr_setup_batch raw_msr_sample "\<lambda>t. rm_is_batch_ready (fst t)"
proof (rule batch_signalI)
  show "raw_msr_setup_batch t = (if rm_is_batch_ready (fst t) then (Inr (), t) else
      bind (under (msrio_add_read (rm_cpu (fst t)) (rm_offset (fst t)) 0)) (\<lambda>idx.
        own (modify (\<lambda>ob. ob\<lparr>rm_data_idx := idx, rm_is_batch_ready := True\<rparr>))) t)" for t :: "raw_msr \<times> 'a msrio"
    by (simp add: raw_msr_setup_batch_def act_simps)
  show "keeps (\<lambda>t. rm_is_batch_ready (fst t)) raw_msr_sample"
    unfolding raw_msr_sample_def by (intro keeps_intros)
qed (intro establishes_bind establishes_own_modify, simp, simp add: raw_msr_sample_def act_simps)

lemma convert_keeps_ready: "keeps fs_is_batch_ready (convert_raw_value v)"
proof -
  have "keeps fs_is_batch_ready (lift_rollover m)" for m :: "(rollover_generator, double) action"
    by (auto simp: keeps_def lift_rollover_def split: prod.splits)
  then show ?thesis
    unfolding convert_raw_value_def Let_def by (auto intro!: keeps_intros split: msr_function.splits)
qed

interpretation field: batch_signal "field_setup_batch raw" "field_sample raw" "\<lambda>t. fs_is_batch_ready (fst t)" for raw
proof (rule batch_signalI)
  show "field_setup_batch raw t = (if fs_is_batch_ready (fst t) then (Inr (), t) else
      bind (under (sg_setup_batch raw)) (\<lambda>_. own (modify (\<lambda>ob. ob\<lparr>fs_is_batch_ready := True\<rparr>))) t)" for t
    by (simp add: field_setup_batch_def act_simps)
  show "keeps (\<lambda>t. fs_is_batch_ready (fst t)) (field_sample raw)"
    unfolding field_sample_def by (intro keeps_intros convert_keeps_ready)
qed (intro establishes_bind establishes_own_modify, simp, simp add: field_sample_def act_simps)

text \<open>The three signals whose own state is the flag.\<close>

lemma setup_two_eq:
  "setup_two a b t = (if id (fst t) then (Inr (), t) else
    bind (under (sg_setup_batch a)) (\<lambda>_. bind (under (sg_setup_batch b)) (\<lambda>_. own (modify (\<lambda>_. True)))) t)"
  by (simp add: setup_two_def act_simps)

interpretation difference: batch_signal "difference_setup_batch a b" "difference_sample a b" "\<lambda>t. id (fst t)" for a b
proof (rule batch_signalI)
  show "difference_setup_batch a b t = (if id (fst t) then (Inr (), t) else
    bind (under (sg_setup_batch a)) (\<lambda>_. bind (under (sg_setup_batch b)) (\<lambda>_. own (modify (\<lambda>_. True)))) t)" for t
    unfolding difference_setup_batch_def by (rule setup_two_eq)
  show "keeps (\<lambda>t. id (fst t)) (difference_sample a b)"
    unfolding difference_sample_def by (intro keeps_intros)
qed (intro establishes_bind establishes_own_modify, simp, simp add: difference_sample_def act_simps)

interpretation ratio: batch_signal "ratio_setup_batch a b" "ratio_sample a b" "\<lambda>t. id (fst t)" for a b
proof (rule batch_signalI)
  show "ratio_setup_batch a b t = (if id (fst t) then (Inr (), t) else
    bind (under (sg_setup_batch a)) (\<lambda>_. bind (under (sg_setup_batch b)) (\<lambda>_. own (modify (\<lambda>_. True)))) t)" for t
    unfolding ratio_setup_batch_def by (rule setup_two_eq)
  show "keeps (\<lambda>t. id (fst t)) (ratio_sample a b)"
    unfolding ratio_sample_def by (intro keeps_intros)
qed (intro establishes_bind establishes_own_modify, simp, simp add: ratio_sample_def act_simps)

interpretation multiplication: batch_signal "multiplication_setup_batch a" "multiplication_sample a x" "\<lambda>t. id (fst t)" for a x
proof (rule batch_signalI)
  show "multiplication_setup_batch a t = (if id (fst t) then (Inr (), t) else
    bind (under (sg_setup_batch a)) (\<lambda>_. own (modify (\<lambda>_. True))) t)" for t
    by (simp add: multiplication_setup_batch_def act_simps)
  show "keeps (\<lambda>t. id (fst t)) (multiplication_sample a x)"
    unfolding multiplication_sample_def by (intro keeps_intros)
qed (intro establishes_bind establishes_own_modify, simp, simp add: multiplication_sample_def act_simps)

interpretation time: batch_signal time_setup_batch "time_sample batch" "\<lambda>t. id (fst t)" for batch
proof (rule batch_signalI)
  show "time_setup_batch t = (if id (fst t) then (Inr (), t) else own (modify (\<lambda>_. True)) t)" for t :: "bool \<times> 'a"
    by (simp add: time_setup_batch_def act_simps)
  show "keeps (\<lambda>t. id (fst t)) (time_sample batch)"
    unfolding time_sample_def by (intro keeps_intros)
  show "establishes (\<lambda>t. id (fst t)) (own (modify (\<lambda>_. True)))" for x :: bool
    by (rule establishes_own_modify) simp
qed (auto simp: time_sample_def act_simps)

interpretation derivative: batch_signal "derivative_setup_batch a b" "derivative_sample a b" "\<lambda>t. dv_is_batch_ready (fst t)" for a b
proof (rule batch_signalI)
  show "derivative_setup_batch a b t = (if dv_is_batch_ready (fst t) then (Inr (), t) else
    bind (under (sg_setup_batch a)) (\<lambda>_. bind (under (sg_setup_batch b)) (\<lambda>_. own (modify (\<lambda>ob. ob\<lparr>dv_is_batch_ready := True\<rparr>)))) t)" for t
    by (simp add: derivative_setup_batch_def act_simps)
  show "keeps (\<lambda>t. dv_is_batch_ready (fst t)) (derivative_sample a b)"
    unfolding derivative_sample_def by (intro keeps_intros) auto
qed (intro establishes_bind establishes_own_modify, simp, simp add: derivative_sample_def act_simps)

section \<open>Counters that roll over\<close>

definition counts_up :: "int \<Rightarrow> int \<Rightarrow> int list \<Rightarrow> bool" where
  "counts_up N c0 cs \<longleftrightarrow> (\<forall>i < length cs. (c0 # cs) ! i \<le> cs ! i \<and> cs ! i - (c0 # cs) ! i < N)"

lemma counts_up_Cons: "counts_up N c0 (c # cs) \<longleftrightarrow> c0 \<le> c \<and> c - c0 < N \<and> counts_up N c cs"
  by (auto simp: counts_up_def All_less_Suc2 nth_Cons split: nat.splits)

definition rollover_at :: "int \<Rightarrow> int \<Rightarrow> rollover_generator" where
  "rollover_at N c = \<lparr>rg_last_value = Fin (of_int (c mod N)), rg_rollover_factor = Fin (of_int N),
     rg_rollover_total = Fin (of_int (c div N * N))\<rparr>"

lemma dadd_exact: "\<bar>x + y\<bar> < 2 ^ 53 \<Longrightarrow> dadd (Fin (of_int x)) (Fin (of_int y)) = Fin (of_int (x + y))"
  using round64_of_int[of "x + y"] by simp

lemma dlt_Fin [simp]: "dlt (Fin x) (Fin y) \<longleftrightarrow> x < y"
  by (auto simp: dlt_def less_le)

lemma deq_Fin [simp]: "deq (Fin x) (Fin y) \<longleftrightarrow> x = y"
  by (simp add: deq_def)

lemma div_step:
  fixes c c' N :: int
  assumes "0 < N" "0 \<le> c" "c \<le> c'" "c' - c < N"
  shows "c' div N = (if c' mod N < c mod N then c div N + 1 else c div N)"
proof -
  have "c div N \<le> c' div N" using assms by (simp add: zdiv_mono1)
  moreover have "c' div N \<le> c div N + 1"
  proof -
    have "c' div N \<le> (c + N) div N" using assms by (intro zdiv_mono1) auto
    then show ?thesis using assms by simp
  qed
  moreover have "c = c div N * N + c mod N" "c' = c' div N * N + c' mod N" by simp_all
  ultimately consider "c' div N = c div N" "c' mod N - c mod N = c' - c" | "c' div N = c div N + 1" "c' mod N - c mod N = c' - c - N"
    by (smt (verit, best) int_distrib(1) mult_cancel_right2)
  then show ?thesis using assms by cases auto
qed

lemma rollover_update_step:
  assumes "0 < N" "0 \<le> c" "c \<le> c'" "c' - c < N" "c' < 2 ^ 53"
  shows "rollover_update (Fin (of_int (c' mod N))) (rollover_at N c) = (Inr (Fin (of_int c')), rollover_at N c')"
proof -
  have div: "c' div N = (if c' mod N < c mod N then c div N + 1 else c div N)" by (rule div_step[OF assms(1-4)])
  have total: "0 \<le> c' div N * N" "c' div N * N \<le> c'" "c' div N * N + c' mod N = c'"
    using assms by (simp_all add: pos_imp_zdiv_nonneg_iff) (smt (verit) assms(1) minus_mod_eq_div_mult pos_mod_sign)
  have "dadd (Fin (of_int (c div N * N))) (Fin (of_int N)) = Fin (of_int (c' div N * N))" if "c' mod N < c mod N"
    using that div total assms(5) dadd_exact[of "c div N * N" N] by (simp add: distrib_right)
  moreover have "dadd (Fin (of_int (c' mod N))) (Fin (of_int (c' div N * N))) = Fin (of_int c')"
    using total assms dadd_exact[of "c' mod N" "c' div N * N"] by (simp add: add.commute)
  ultimately show ?thesis
    using div by (auto simp: rollover_update_def rollover_at_def act_simps)
qed

lemma rollover_counts:
  assumes "0 < N" "0 \<le> c" "counts_up N c cs" "\<forall>x \<in> set cs. x < 2 ^ 53"
  shows "map_action rollover_update (map (\<lambda>x. Fin (of_int (x mod N))) cs) (rollover_at N c) =
    (Inr (map (\<lambda>x. Fin (of_int x)) cs), rollover_at N (last (c # cs)))"
  using assms(2-)
proof (induction cs arbitrary: c)
  case (Cons x cs)
  from Cons.prems have step: "c \<le> x" "x - c < N" "counts_up N x cs" by (auto simp: counts_up_Cons)
  with Cons.prems have "rollover_update (Fin (of_int (x mod N))) (rollover_at N c) = (Inr (Fin (of_int x)), rollover_at N x)"
    by (intro rollover_update_step assms(1)) auto
  with Cons step show ?case by (simp add: bind_Inr ret_def)
qed simp

text \<open>
  C22: \<^verbatim>\<open>RolloverGenerator\<close> reconstructs a counter from a register field that overflows.
  If a counter that starts at zero never advances by more than the range of the field between two
  readings, then updating with its value modulo the range returns, at every reading, the counter
  itself, as long as it is below \<open>2 ^ 53\<close> (where the doubles stop being exact).
\<close>

theorem rollover_reconstructs:
  assumes "0 < b" "b < 53" "counts_up (2 ^ b) 0 cs" "\<forall>x \<in> set cs. x < 2 ^ 53"
  shows "fst (map_action rollover_update (map (\<lambda>x. d_of_int (x mod 2 ^ b)) cs)
      (rollover_set_factor (d_of_int (2 ^ b)) rollover_new)) = Inr (map d_of_int cs)"
proof -
  have pow: "(2 :: int) ^ b < 2 ^ 53" using assms(2) by (intro power_strict_increasing) auto
  have small: "d_of_int (x mod 2 ^ b) = Fin (of_int (x mod 2 ^ b))" for x :: int
  proof (rule d_of_int_exact)
    have "0 \<le> x mod 2 ^ b" "x mod 2 ^ b < 2 ^ b" by simp_all
    with pow show "\<bar>x mod 2 ^ b\<bar> < 2 ^ 53" by linarith
  qed
  have "counts_up N c xs \<Longrightarrow> 0 \<le> c \<Longrightarrow> \<forall>x \<in> set xs. 0 \<le> x" for N c xs
    by (induction xs arbitrary: c) (auto simp: counts_up_Cons)
  from this[OF assms(3)] have "\<forall>x \<in> set cs. d_of_int x = Fin (of_int x)"
    using assms(4) by (auto intro!: d_of_int_exact)
  then have result: "map d_of_int cs = map (\<lambda>x. Fin (of_int x)) cs" by simp
  have "rollover_set_factor (d_of_int (2 ^ b)) rollover_new = rollover_at (2 ^ b) 0"
    using pow by (simp add: rollover_set_factor_def rollover_new_def rollover_at_def d_of_int_exact)
  then show ?thesis
    using rollover_counts[of "2 ^ b" 0 cs] assms(3,4) by (simp add: small result)
qed

theorem rollover_reconstructs_witness:
  "fst (map_action rollover_update (map (\<lambda>x. d_of_int (x mod 2 ^ 4)) [3, 14, 17, 40 - 10])
      (rollover_set_factor (d_of_int (2 ^ 4)) rollover_new)) = Inr (map d_of_int [3, 14, 17, 40 - 10])"
  by (rule rollover_reconstructs) (simp_all add: counts_up_Cons, simp add: counts_up_def)


section \<open>The least squares window\<close>

text \<open>The reference: the regression over a list of samples, relative to the first of them.\<close>

definition regression :: "double \<Rightarrow> (double \<times> double) list \<Rightarrow> double" where
  "regression nan_replace w =
     (if length w < 2 then NaN
      else fit_slope (int (length w)) nan_replace
             (fold (fit_add (fst (hd w)) (snd (hd w))) w (Fin 0, Fin 0, Fin 0, Fin 0)))"

definition history_ok :: "nat \<Rightarrow> (double \<times> double) list \<Rightarrow> history \<times> int \<Rightarrow> bool" where
  "history_ok n w h \<longleftrightarrow> cb_inv (fst h) \<and> m_max_size (fst h) = n \<and> cb_list (fst h) = w \<and> snd h = int (length w)"

lemma fold_result_values:
  assumes "cb_inv b" "k \<le> m_count b"
  shows "fold_result (\<lambda>i s. and_then (cb_value b i) (\<lambda>x. Inr (f x s))) [int k..int (m_count b) - 1] s =
    Inr (fold f (drop k (cb_list b)) s)"
  using assms(2)
proof (induction "m_count b - k" arbitrary: k s)
  case 0
  then show ?case by simp
next
  case (Suc d)
  then have k: "k < m_count b" by simp
  have "[int k..int (m_count b) - 1] = int k # [int (Suc k)..int (m_count b) - 1]"
    using k by (simp add: upto_rec1 add.commute)
  moreover have "drop k (cb_list b) = cb_list b ! k # drop (Suc k) (cb_list b)"
    using k by (simp add: Cons_nth_drop_Suc)
  ultimately show ?case
    using Suc.hyps(1)[of "Suc k"] Suc.hyps(2) k cb_value_nth[OF assms(1) k] by simp
qed

lemma compute_next_window:
  assumes "history_ok n w (h, k)" "0 < n"
  shows "\<exists>h' k'. compute_next t y nr (h, k) = Inr (regression nr (push_bounded n (t, y) w), h', k') \<and>
    history_ok n (push_bounded n (t, y) w) (h', k')"
proof -
  let ?w = "push_bounded n (t, y) w"
  obtain h' where ins: "cb_insert (t, y) h = Inr h'" and inv: "cb_inv h'" and cap: "m_max_size h' = n" and w: "cb_list h' = ?w"
    using cb_insert_spec[of h "(t, y)"] assms by (auto simp: history_ok_def)
  have len: "length ?w = (if length w < n then length w + 1 else n)"
    using assms by (auto simp: push_bounded_def)
  have count: "m_count h' = length ?w" using w length_cb_list[of h'] by simp
  have wn: "length w \<le> n" using assms cb_inv_def[of h] length_cb_list[of h] by (auto simp: history_ok_def)
  have k': "(if k < int (cb_capacity h') then k + 1 else k) = int (length ?w)"
    using assms cap len wn by (auto simp: history_ok_def cb_capacity_def)
  show ?thesis
  proof (cases "2 \<le> length ?w")
    case True
    then have "?w \<noteq> []" by auto
    then have "cb_value h' 0 = Inr (hd ?w)"
      using cb_value_nth[OF inv, of 0] count w by (simp add: hd_conv_nth)
    moreover have "fold_result (\<lambda>i s. and_then (cb_value h' i) (\<lambda>x. Inr (fit_add (fst (hd ?w)) (snd (hd ?w)) x s)))
        [0..int (length ?w) - 1] (Fin 0, Fin 0, Fin 0, Fin 0) = Inr (fold (fit_add (fst (hd ?w)) (snd (hd ?w))) ?w (Fin 0, Fin 0, Fin 0, Fin 0))"
      using fold_result_values[OF inv, of 0] w count by simp
    ultimately show ?thesis
      using True ins inv cap w count k'
      by (intro exI[of _ h'] exI[of _ "int (length ?w)"])
        (simp add: compute_next_def cb_size_def regression_def history_ok_def Let_def)
  next
    case False
    then show ?thesis
      using ins inv cap w count k'
      by (intro exI[of _ h'] exI[of _ "int (length ?w)"])
        (simp add: compute_next_def regression_def history_ok_def Let_def)
  qed
qed

text \<open>Feeding samples one after the other, keeping the last result.\<close>

definition feed :: "double \<Rightarrow> double \<times> double \<Rightarrow> double \<times> history \<times> int \<Rightarrow> (double \<times> history \<times> int) result" where
  "feed nr x st = compute_next (fst x) (snd x) nr (snd st)"

lemma push_bounded_window:
  "0 < n \<Longrightarrow> push_bounded n x (drop (length xs - n) xs) = drop (length (xs @ [x]) - n) (xs @ [x])"
  by (cases "length xs < n") (auto simp: push_bounded_def Suc_diff_le)

lemma feed_window:
  assumes "0 < n" "history_ok n (drop (length ys - n) ys) (snd st)" "xs \<noteq> []"
  shows "\<exists>h k. fold_result (feed nr) xs st = Inr (regression nr (drop (length (ys @ xs) - n) (ys @ xs)), h, k)"
  using assms(2,3)
proof (induction xs arbitrary: ys st)
  case (Cons x xs)
  obtain h k where "snd st = (h, k)" by fastforce
  with compute_next_window[OF _ assms(1), of "drop (length ys - n) ys" h k "fst x" "snd x" nr] Cons.prems(1) push_bounded_window[OF assms(1), of x ys]
  obtain h' k' where st: "feed nr x st = Inr (regression nr (drop (length (ys @ [x]) - n) (ys @ [x])), h', k')"
    and ok: "history_ok n (drop (length (ys @ [x]) - n) (ys @ [x])) (h', k')"
    by (auto simp: feed_def)
  show ?case
  proof (cases "xs = []")
    case True
    with st show ?thesis by simp
  next
    case False
    with Cons.IH[of "ys @ [x]"] ok st show ?thesis by simp
  qed
qed simp


lemma round64_numeral [simp]: "(numeral k :: int) < 2 ^ 53 \<Longrightarrow> round64 (numeral k) = Fin (numeral k)"
  using round64_of_int[of "numeral k"] by simp

lemma round64_half: "round64 (1 / 2) = Fin (1 / 2)"
proof (rule round64_exact)
  show "representable (1 / 2)"
    unfolding representable_def by (rule exI[of _ 1], rule exI[of _ "- 1"]) (simp add: power_int_minus)
qed simp

lemma regression_example: "regression NaN [(Fin 1, Fin 7), (Fin 3, Fin 11)] = Fin 2"
  by (simp add: regression_def fit_add_def fit_slope_def dsub_def d_of_int_def round64_half Let_def)


section \<open>Writing and reading fields\<close>

lemma field_mask_eq:
  assumes "0 \<le> b" "b \<le> e" "e < 64" "e - b < 63"
  shows "field_mask b e = Inr (push_bit (nat b) (mask (nat (e - b + 1))))"
proof -
  have "push_bit (nat (e - b + 1)) (1 :: 64 word) - 1 = mask (nat (e - b + 1))"
    by (simp add: mask_eq_exp_minus_1)
  with assms show ?thesis by (simp add: field_mask_def shl64_def)
qed

text \<open>A value that fits the field, shifted into place and taken out again.\<close>

lemma field_insert_extract:
  fixes r k :: "64 word"
  assumes k: "k AND mask m = k" and m: "sh + m \<le> 64"
  shows "push_bit sh k AND push_bit sh (mask m) = push_bit sh k"
    and "drop_bit sh (((r AND NOT (push_bit sh (mask m))) OR push_bit sh k) AND push_bit sh (mask m)) = k"
proof -
  have bit_k: "bit k j \<Longrightarrow> j < m" for j
    using arg_cong[OF k, of "\<lambda>x. bit x j"] by (auto simp: bit_simps)
  show *: "push_bit sh k AND push_bit sh (mask m) = push_bit sh k"
    by (rule bit_eqI) (auto simp: bit_simps dest: bit_k)
  show "drop_bit sh (((r AND NOT (push_bit sh (mask m))) OR push_bit sh k) AND push_bit sh (mask m)) = k"
  proof (rule bit_eqI)
    fix j
    assume "possible_bit TYPE(64 word) j"
    then show "bit (drop_bit sh (((r AND NOT (push_bit sh (mask m))) OR push_bit sh k) AND push_bit sh (mask m))) j = bit k j"
      using m bit_k[of j] by (auto simp: bit_simps)
  qed
qed

lemma masked_bits_only:
  fixes r v mk :: "64 word"
  assumes "v AND mk = v"
  shows "((r AND NOT mk) OR v) AND NOT mk = r AND NOT mk"
proof (rule bit_eqI)
  fix j
  have "bit v j \<Longrightarrow> bit mk j" using arg_cong[OF assms, of "\<lambda>x. bit x j"] by (auto simp: bit_simps)
  then show "bit (((r AND NOT mk) OR v) AND NOT mk) j = bit (r AND NOT mk) j" by (auto simp: bit_simps)
qed

lemma powi_scaled:
  assumes "\<bar>k\<bar> < 2 ^ 53" "\<bar>p\<bar> \<le> 900"
  shows "round64 (of_int k * 2 powi p) = Fin (of_int k * 2 powi p)"
proof (rule round64_exact)
  show "representable (of_int k * 2 powi p)" unfolding representable_def
    by (rule exI[of _ k], rule exI[of _ p]) (use assms in auto)
  have "\<bar>of_int k * (2 :: rat) powi p\<bar> \<le> 2 ^ 53 * 2 powi 900"
  proof -
    have "\<bar>of_int k :: rat\<bar> \<le> 2 ^ 53" using assms(1) by (metis (mono_tags) less_imp_le of_int_abs of_int_le_numeral_power_cancel_iff)
    moreover have "(2 :: rat) powi p \<le> 2 powi 900" using assms(2) by (simp only: powi_le_cancel)
    ultimately show ?thesis unfolding abs_mult by (intro mult_mono) simp_all
  qed
  also have "\<dots> < 2 ^ 1024" by simp
  finally show "\<bar>of_int k * (2 :: rat) powi p\<bar> < 2 ^ 1024" .
qed

lemma inverse_powi: "\<bar>p\<bar> \<le> 900 \<Longrightarrow> ddiv (Fin 1) (Fin (2 powi p)) = Fin (2 powi (- p))"
  using powi_scaled[of 1 "- p"] by (simp add: power_int_minus divide_inverse)

lemma word_of_field_value:
  assumes "0 \<le> k" "k < 2 ^ m" "m \<le> 53"
  shows "uint (word_of_int k :: 64 word) = k" "(word_of_int k :: 64 word) AND mask m = word_of_int k" "\<bar>k\<bar> < 2 ^ 53"
proof -
  have "(2 :: int) ^ m \<le> 2 ^ 53" using assms(3) by (intro power_increasing) auto
  with assms show bound: "\<bar>k\<bar> < 2 ^ 53" by auto
  then show "uint (word_of_int k :: 64 word) = k" using assms(1) by (simp add: uint_word_of_int)
  have "take_bit m k = k" using assms by (simp add: take_bit_int_eq_self)
  then show "(word_of_int k :: 64 word) AND mask m = word_of_int k"
    by (simp add: take_bit_eq_mask[symmetric] of_int_take_bit[symmetric] del: of_int_take_bit) 
qed

lemma scale_encode:
  assumes k: "0 \<le> k" "k < 2 ^ m" "m \<le> 53" and p: "\<bar>p\<bar> \<le> 900" and c: "fc_function c = M_FUNCTION_SCALE"
    "fc_inverse c = ddiv (Fin 1) (Fin (2 powi p))"
  shows "field_encode lg c (Fin (of_int k * 2 powi p)) = Inr (push_bit (nat (fc_shift c)) (word_of_int k) AND fc_mask c)"
proof -
  have "(2 :: rat) powi (- p) * (of_int k * 2 powi p) = of_int k"
    by (simp add: power_int_minus)
  moreover have "fc_inverse c = Fin (2 powi (- p))" by (simp only: c inverse_powi[OF p])
  ultimately have "dmul (fc_inverse c) (Fin (of_int k * 2 powi p)) = Fin (of_int k)"
    using round64_of_int[OF word_of_field_value(3)[OF k]] by (simp only: dmul.simps)
  moreover have "k < 2 ^ 64" using word_of_field_value(3)[OF k] by simp
  ultimately show ?thesis using k by (simp add: field_encode_def c u64_of_d_def rat_trunc_def)
qed

lemma scale_decode:
  assumes k: "0 \<le> k" "k < 2 ^ m" "m \<le> 53" and p: "\<bar>p\<bar> \<le> 900"
    and fs: "fs_function fs = M_FUNCTION_SCALE" "fs_scalar fs = Fin (2 powi p)"
    and field: "drop_bit (nat (fs_shift fs)) (val AND fs_mask fs) = word_of_int k"
  shows "convert_raw_value val fs = (Inr (Fin (of_int k * 2 powi p)), fs)"
proof -
  have "d_of_u64 (word_of_int k) = Fin (of_int k)"
    using word_of_field_value[OF k] by (simp add: d_of_u64_def d_of_int_exact)
  with fs field powi_scaled[OF word_of_field_value(3)[OF k] p] show ?thesis
    by (simp add: convert_raw_value_def act_simps)
qed

lemma field_control_new_cases:
  assumes "field_control_new os cpu off b e f scalar s = (Inr c, t)" "0 \<le> b" "b \<le> e" "e < 64" "e - b < 63"
  shows "fc_cpu c = cpu \<and> fc_offset c = off \<and> fc_shift c = b \<and> fc_mask c = push_bit (nat b) (mask (nat (e - b + 1))) \<and>
    fc_function c = f \<and> fc_inverse c = ddiv (Fin 1) scalar"
  using assms field_mask_eq[OF assms(2-)]
  by (auto simp: field_control_new_def act_simps bind_cases split: if_splits)


definition demo_field :: field_control where
  "demo_field = \<lparr>fc_save_restore_ctx = -1, fc_cpu = 1, fc_offset = 0x10, fc_shift = 2, fc_num_bit = 4, fc_mask = 0x3C,
     fc_function = M_FUNCTION_SCALE, fc_inverse = ddiv (Fin 1) (Fin (2 powi (- 3))), fc_is_batch_ready = False,
     fc_adjust_idx = -1, fc_save_idx = -1, fc_restore_idx = -1, fc_saved_msr_value = 0\<rparr>"

definition demo_field_signal :: field_signal where
  "demo_field_signal = \<lparr>fs_shift = 2, fs_num_bit = 4, fs_mask = 0x3C, fs_function = M_FUNCTION_SCALE,
     fs_scalar = Fin (2 powi (- 3)), fs_is_batch_ready = False, fs_rollover = rollover_set_factor (d_of_u64 0x10) rollover_new\<rparr>"

lemma demo_field_mask: "field_mask 2 5 = Inr 0x3C"
  by (simp add: field_mask_def shl64_def push_bit_eq_mult)

lemma demo_field_new: "field_control_new demo_os 1 0x10 2 5 M_FUNCTION_SCALE (Fin (2 powi (- 3))) (demo_msrio M_DRIVER_MSR) =
  (Inr demo_field, demo_msrio M_DRIVER_MSR)"
  unfolding field_control_new_def demo_field_mask
  by (simp add: act_simps system_write_mask_def bind_def demo_msrio_eq demo_field_def del: ddiv.simps)

lemma demo_field_signal_new: "field_signal_new 2 5 M_FUNCTION_SCALE (Fin (2 powi (- 3))) = Inr demo_field_signal"
  by (simp add: field_signal_new_def demo_field_mask demo_field_signal_def shl64_def push_bit_eq_mult)


subsection \<open>Seven bit floats\<close>

definition sc :: "int \<Rightarrow> int \<Rightarrow> double" where
  "sc k p = Fin (of_int k * 2 powi p)"

lemma sc_round: "\<bar>k\<bar> < 2 ^ 53 \<Longrightarrow> \<bar>p\<bar> \<le> 900 \<Longrightarrow> round64 (of_int k * 2 powi p) = sc k p"
  by (simp add: sc_def powi_scaled)

lemma sc_arith:
  assumes "\<bar>p\<bar> \<le> 400" "\<bar>q\<bar> \<le> 400"
  shows "\<bar>a * b\<bar> < 2 ^ 53 \<Longrightarrow> dmul (sc a p) (sc b q) = sc (a * b) (p + q)"
    and "\<bar>a + b\<bar> < 2 ^ 53 \<Longrightarrow> dadd (sc a p) (sc b p) = sc (a + b) p"
    and "\<bar>a - b\<bar> < 2 ^ 53 \<Longrightarrow> dsub (sc a p) (sc b p) = sc (a - b) p"
    and "\<bar>a\<bar> < 2 ^ 53 \<Longrightarrow> ddiv (sc a p) (sc 1 q) = sc a (p - q)"
proof -
  show "\<bar>a * b\<bar> < 2 ^ 53 \<Longrightarrow> dmul (sc a p) (sc b q) = sc (a * b) (p + q)"
    using assms sc_round[of "a * b" "p + q"] by (simp add: sc_def power_int_add mult_ac)
  show "\<bar>a + b\<bar> < 2 ^ 53 \<Longrightarrow> dadd (sc a p) (sc b p) = sc (a + b) p"
    using assms sc_round[of "a + b" p] by (simp add: sc_def distrib_right)
  show "\<bar>a - b\<bar> < 2 ^ 53 \<Longrightarrow> dsub (sc a p) (sc b p) = sc (a - b) p"
    using assms sc_round[of "a - b" p] by (simp add: sc_def dsub_def left_diff_distrib)
  show "\<bar>a\<bar> < 2 ^ 53 \<Longrightarrow> ddiv (sc a p) (sc 1 q) = sc a (p - q)"
    using assms sc_round[of a "p - q"] by (simp add: sc_def power_int_diff)
qed

lemma sc_int: "Fin (of_int k) = sc k 0" by (simp add: sc_def)

lemma sc_shift: "0 \<le> d \<Longrightarrow> sc k (p + d) = sc (k * 2 ^ nat d) p"
  by (simp add: sc_def power_int_add power_int_nonneg_exp)

lemma seven_bit_arith:
  assumes "y < 32" "z < 4"
  defines "v \<equiv> sc ((4 + int z) * 2 ^ y) (- 2)"
  shows "dmul v (Fin 1) = v" "dlt (Fin 0) v" "ddiv v (d_of_int (2 ^ y)) = sc (4 + int z) (- 2)"
    "dmul (d_of_int (2 ^ y)) (sc (4 + int z) (- 2)) = v" "dsub v v = Fin 0" "\<not> dlt (dmul v (Fin (1 / 4))) (Fin 0)"
proof -
  have y: "(2 :: int) ^ y \<le> 2 ^ 31" using assms(1) by (intro power_increasing) auto
  have k: "(4 + int z) * 2 ^ y < 2 ^ 53" "0 < (4 + int z) * 2 ^ y"
  proof -
    have "(4 + int z) * 2 ^ y \<le> 7 * 2 ^ 31" using y assms(2) by (intro mult_mono) auto
    then show "(4 + int z) * 2 ^ y < 2 ^ 53" by simp
    show "0 < (4 + int z) * 2 ^ y" using assms(2) by simp
  qed
  have yd: "d_of_int (2 ^ y) = sc 1 (int y)"
    using y by (simp add: d_of_int_exact sc_def)
  have one: "Fin 1 = sc 1 0" by (simp add: sc_def)
  show "dmul v (Fin 1) = v" unfolding v_def one using k by (subst sc_arith(1)) auto
  show "dlt (Fin 0) v" unfolding v_def sc_def dlt_Fin using k(2) by (metis mult_pos_pos of_int_0_less_iff powi_pos)
  have shift: "sc (4 + int z) (- 2 + int y) = v" unfolding v_def by (subst sc_shift) simp_all
  show "ddiv v (d_of_int (2 ^ y)) = sc (4 + int z) (- 2)"
    unfolding shift[symmetric] yd using assms by (subst sc_arith(4)) auto
  show "dmul (d_of_int (2 ^ y)) (sc (4 + int z) (- 2)) = v"
    unfolding shift[symmetric] yd using assms by (subst sc_arith(1)) (auto simp: add.commute)
  show "dsub v v = Fin 0" unfolding v_def by (subst sc_arith(3)[where q = 0]) (auto simp: sc_def)
  have "Fin (1 / 4) = sc 1 (- 2)" by (simp add: sc_def power_int_minus)
  then have "dmul v (Fin (1 / 4)) = sc ((4 + int z) * 2 ^ y) (- 4)"
    unfolding v_def using k by (simp only:) (subst sc_arith(1), auto)
  then show "\<not> dlt (dmul v (Fin (1 / 4))) (Fin 0)"
    using k(2) by (simp add: sc_def not_less)
qed

text \<open>The two parts of the mantissa: \<open>z / 4\<close> and \<open>1 + z / 4\<close>.\<close>

lemma seven_bit_mantissa:
  assumes "z < 4"
  shows "dmul (Fin 4) (dsub (sc (4 + int z) (- 2)) (Fin 1)) = Fin (of_nat z)"
    "dadd (Fin 1) (ddiv (Fin (of_nat z)) (Fin 4)) = sc (4 + int z) (- 2)"
proof -
  have four: "Fin 1 = sc 4 (- 2)" "Fin 4 = sc 1 2" "Fin (of_nat z) = sc (int z) 0" by (simp_all add: sc_def power_int_minus)
  have "dsub (sc (4 + int z) (- 2)) (sc 4 (- 2)) = sc (int z) (- 2)"
    using assms by (subst sc_arith(3)[where q = 0]) auto
  moreover have "dmul (sc 1 2) (sc (int z) (- 2)) = sc (int z) 0"
    using assms by (subst sc_arith(1)) auto
  ultimately show "dmul (Fin 4) (dsub (sc (4 + int z) (- 2)) (Fin 1)) = Fin (of_nat z)"
    unfolding four by simp
  have "ddiv (sc (int z) 0) (sc 1 2) = sc (int z) (- 2)" using assms by (subst sc_arith(4)) auto
  moreover have "dadd (sc 4 (- 2)) (sc (int z) (- 2)) = sc (4 + int z) (- 2)"
    using assms by (subst sc_arith(2)[where q = 0]) auto
  ultimately show "dadd (Fin 1) (ddiv (Fin (of_nat z)) (Fin 4)) = sc (4 + int z) (- 2)"
    unfolding four by simp
qed

definition seven_bits :: "nat \<Rightarrow> nat \<Rightarrow> 64 word" where
  "seven_bits y z = of_nat y OR push_bit 5 (of_nat z)"

lemma seven_bits_parts:
  assumes "y < 32" "z < 4"
  shows "seven_bits y z AND 0x1F = of_nat y" "drop_bit 5 (seven_bits y z) = of_nat z"
    "drop_bit 5 (of_nat y :: 64 word) = 0" "drop_bit 2 (of_nat z :: 64 word) = 0"
proof -
  have "\<forall>y \<in> set [0..<32]. \<forall>z \<in> set [0..<4]. seven_bits y z AND 0x1F = of_nat y \<and> drop_bit 5 (seven_bits y z) = of_nat z \<and>
    drop_bit 5 (of_nat y :: 64 word) = 0 \<and> drop_bit 2 (of_nat z :: 64 word) = 0"
    by code_simp
  with assms show "seven_bits y z AND 0x1F = of_nat y" "drop_bit 5 (seven_bits y z) = of_nat z"
    "drop_bit 5 (of_nat y :: 64 word) = 0" "drop_bit 2 (of_nat z :: 64 word) = 0" by simp_all
qed

lemma small_words:
  assumes "y < 32"
  shows "uint (of_nat y :: 64 word) = int y" "unat (of_nat y :: 64 word) = y" "d_of_u64 (of_nat y) = Fin (of_nat y)"
    "u64_of_d (Fin (of_nat y)) = Inr (of_nat y)"
  using assms by (simp_all add: unsigned_of_nat take_bit_nat_eq_self d_of_u64_def d_of_int_exact u64_of_d_def rat_trunc_def)

lemma seven_bit_log:
  assumes "y < 32" "of_nat y \<le> l" "l < (of_nat y + 1 :: rat)"
  shows "u64_of_d (Fin l) = Inr (of_nat y)"
proof -
  have "\<lfloor>l\<rfloor> = int y" using assms(2,3) by (simp add: floor_eq_iff)
  moreover have "0 \<le> l" using assms(2) by (rule order_trans[rotated]) simp
  ultimately show ?thesis using assms(1) by (simp add: u64_of_d_def rat_trunc_def)
qed

lemma seven_bit_encode:
  assumes "y < 31" "z < 4" "lg (sc ((4 + int z) * 2 ^ y) (- 2)) = Fin l" "of_nat y \<le> l" "l < of_nat y + 1"
  shows "encode_7_bit_float lg (Fin 1) (sc ((4 + int z) * 2 ^ y) (- 2)) = Inr (seven_bits y z)"
proof -
  let ?v = "sc ((4 + int z) * 2 ^ y) (- 2)"
  have y: "y < 32" using assms(1) by simp
  note arith = seven_bit_arith[OF y assms(2)] and parts = seven_bits_parts[OF y assms(2)]
  have z: "z < 32" using assms(2) by simp
  have shl: "int_shl1 (of_nat y) = Inr (2 ^ y)"
    using assms(1) small_words[OF y] by (simp add: int_shl1_def)
  show ?thesis
    using seven_bit_log[OF y assms(4,5)] shl arith parts small_words[OF z] assms(3) seven_bit_mantissa[OF assms(2)]
    by (simp add: encode_7_bit_float_def Let_def seven_bits_def del: dmul.simps dadd.simps ddiv.simps)
qed

lemma seven_bit_encode_31:
  assumes "z < 4" "lg (sc ((4 + int z) * 2 ^ 31) (- 2)) = Fin l" "31 \<le> l" "l < 32"
  shows "encode_7_bit_float lg (Fin 1) (sc ((4 + int z) * 2 ^ 31) (- 2)) = Inl Undefined_behavior"
proof -
  let ?v = "sc ((4 + int z) * 2 ^ 31) (- 2)"
  note arith = seven_bit_arith[of 31, OF _ assms(1)]
  have shl: "int_shl1 31 = Inr (- (2 ^ 31))" by (simp add: int_shl1_def)
  have "d_of_int (- (2 ^ 31)) = Fin (- (2 ^ 31))" using d_of_int_exact[of "- (2 ^ 31)"] by simp
  moreover have "ddiv ?v (Fin (- (2 ^ 31))) = sc (- (4 + int z)) (- 2)"
  proof -
    have "of_int ((4 + int z) * 2 ^ 31) * 2 powi (- 2) / (- (2 ^ 31)) = (of_int (- (4 + int z)) * 2 powi (- 2) :: rat)"
      by (simp add: field_simps)
    moreover have "(- (2 ^ 31) :: rat) \<noteq> 0" by simp
    moreover have "round64 (of_int (- (4 + int z)) * 2 powi (- 2)) = sc (- (4 + int z)) (- 2)"
      using assms(1) by (intro sc_round) auto
    ultimately show ?thesis unfolding sc_def ddiv.simps by (simp only: if_False)
  qed
  moreover have "dsub (sc (- (4 + int z)) (- 2)) (Fin 1) = sc (- (8 + int z)) (- 2)"
  proof -
    have "Fin 1 = sc 4 (- 2)" by (simp add: sc_def power_int_minus)
    then show ?thesis using assms(1) by (simp only:) (subst sc_arith(3)[where q = 0], auto)
  qed
  moreover have "dmul (Fin 4) (sc (- (8 + int z)) (- 2)) = sc (- (8 + int z)) 0"
  proof -
    have "Fin 4 = sc 1 2" by (simp add: sc_def)
    then show ?thesis using assms(1) by (simp only:) (subst sc_arith(1), auto)
  qed
  moreover have "u64_of_d (sc (- (8 + int z)) 0) = Inl Undefined_behavior"
    by (simp add: sc_def u64_of_d_def rat_trunc_def)
  moreover have "u64_of_d (Fin l) = Inr 31" using seven_bit_log[of 31 l] assms by simp
  ultimately show ?thesis
    using arith(1,2) shl assms(2)
    by (simp add: encode_7_bit_float_def Let_def del: dmul.simps dadd.simps ddiv.simps)
qed

lemma seven_bit_decode:
  assumes "y < 32" "z < 4" and fs: "fs_function fs = M_FUNCTION_7_BIT_FLOAT" "fs_scalar fs = Fin 1"
    "drop_bit (nat (fs_shift fs)) (val AND fs_mask fs) = seven_bits y z"
  shows "convert_raw_value val fs = (Inr (sc ((4 + int z) * 2 ^ y) (- 2)), fs)"
proof -
  have z: "z < 32" using assms(2) by simp
  have "shl64 1 (int y) = Inr (push_bit y 1)" using assms(1) by (simp add: shl64_def)
  moreover have "uint (push_bit y (1 :: 64 word)) = 2 ^ y"
  proof -
    have "\<forall>y \<in> set [0..<32]. uint (push_bit y (1 :: 64 word)) = 2 ^ y" by code_simp
    with assms(1) show ?thesis by simp
  qed
  ultimately show ?thesis
    using seven_bits_parts[OF assms(1,2)] small_words[OF assms(1)] small_words[OF z] seven_bit_arith[OF assms(1,2)]
      seven_bit_mantissa[OF assms(2)] fs
    by (simp add: convert_raw_value_def act_simps bind_def d_of_u64_def del: dmul.simps dadd.simps ddiv.simps)
qed

text \<open>
  Round trip of the seven bit floating point fields (power limit time windows). With a
  \<^verbatim>\<open>log2()\<close> whose result for the value lies between the exponent and the next integer,
  \<^verbatim>\<open>encode()\<close> of \<open>2 ^ y * (1 + z / 4)\<close> gives the exponent \<open>y\<close> in bits 0 to 4 and the
  mantissa \<open>z\<close> in bits 5 and 6, and decoding these bits gives the value back, for every exponent
  below 31. For the exponent 31 the decoder still works but \<^verbatim>\<open>encode()\<close> shifts the
  \<^verbatim>\<open>int\<close> 1 by 31 places and has no defined result.
\<close>

theorem seven_bit_float_roundtrip:
  assumes "y < 32" "z < 4" "lg (sc ((4 + int z) * 2 ^ y) (- 2)) = Fin l" "of_nat y \<le> l" "l < of_nat y + 1"
    and "fs_function fs = M_FUNCTION_7_BIT_FLOAT" "fs_scalar fs = Fin 1"
    "drop_bit (nat (fs_shift fs)) (val AND fs_mask fs) = seven_bits y z"
  shows "encode_7_bit_float lg (Fin 1) (sc ((4 + int z) * 2 ^ y) (- 2)) =
      (if y < 31 then Inr (seven_bits y z) else Inl Undefined_behavior) \<and>
    convert_raw_value val fs = (Inr (sc ((4 + int z) * 2 ^ y) (- 2)), fs)"
proof (cases "y < 31")
  case True
  with seven_bit_encode[of y z lg l] assms(2-5) seven_bit_decode[OF assms(1,2,6-8)] show ?thesis by simp
next
  case False
  with assms(1) have "y = 31" by simp
  with seven_bit_encode_31[of z lg l] seven_bit_decode[OF assms(1,2,6-8)] assms(2-5) show ?thesis by simp
qed

definition demo_seven :: field_signal where
  "demo_seven = \<lparr>fs_shift = 0, fs_num_bit = 7, fs_mask = 0x7F, fs_function = M_FUNCTION_7_BIT_FLOAT, fs_scalar = Fin 1,
     fs_is_batch_ready = False, fs_rollover = rollover_new\<rparr>"

theorem seven_bit_float_roundtrip_witness:
  "encode_7_bit_float (\<lambda>_. Fin (10 + 1 / 2)) (Fin 1) (Fin 1536) = Inr 0x4A \<and> convert_raw_value 0x4A demo_seven = (Inr (Fin 1536), demo_seven)"
proof -
  have eqs: "sc ((4 + int 2) * 2 ^ 10) (- 2) = Fin 1536" "seven_bits 10 2 = 0x4A"
    by (simp_all add: sc_def power_int_minus seven_bits_def push_bit_eq_mult)
  show ?thesis
    using seven_bit_float_roundtrip[of 10 2 "\<lambda>_. Fin (10 + 1 / 2)" "10 + 1 / 2" demo_seven "0x4A"] eqs
    by (simp add: demo_seven_def)
qed

section \<open>Saving and restoring a field\<close>

lemma masked_restore:
  fixes r v mk :: "64 word"
  shows "((r AND NOT mk) OR (v AND mk)) AND mk = v AND mk" "((r AND NOT mk) OR (v AND mk)) AND NOT mk = r AND NOT mk"
  by (rule bit_eqI; auto simp: bit_simps)+


definition demo_both :: "registers msrio" where
  "demo_both = snd (msrio_add_write demo_os 1 0x10 0 demo_reading)"

lemma demo_both_eq:
  "msrio_add_write demo_os 1 0x10 0 demo_reading = (Inr 0, \<lparr>m_num_cpu = 2, m_file_desc = [3, 4, -1],
     m_batch_context = [(batch_context_new 2)\<lparr>m_read_batch_op := [demo_op\<lparr>op_wmask := 0\<rparr>],
       m_write_batch_op := [demo_op\<lparr>op_wmask := NOT 0\<rparr>], m_write_val := [0], m_write_mask := [0],
       m_write_batch_idx_map := [Map.empty, [0x10 \<mapsto> 0]]\<rparr>],
     m_is_batch_enabled = False, m_offset_mask_map = Map.empty, m_is_open = True, m_path = M_DRIVER_MSR,
     m_batch_reader = None, m_batch_writer = None, m_os_world = (\<lambda>_. 0)\<rparr>)"
proof -
  have empty: "m_write_batch_op (batch_context_new 2) = []" "m_write_val (batch_context_new 2) = []"
    "m_write_mask (batch_context_new 2) = []" "m_write_batch_idx_map (batch_context_new 2) = [Map.empty, Map.empty]"
    by (simp_all add: batch_context_new_def numeral_2_eq_2)
  have "demo_op\<lparr>op_wmask := NOT 0\<rparr> = \<lparr>op_cpu = of_int 1, op_isrdmsr = 1, op_err = 0, op_msr = ucast (0x10 :: 64 word), op_msrdata = 0, op_wmask = NOT 0\<rparr>"
    by (simp add: demo_op_def)
  moreover have "system_write_mask demo_os 0x10 demo_reading = (Inr (NOT 0), demo_reading)"
    unfolding demo_reading_sel system_write_mask_def by (simp add: act_simps)
  ultimately show ?thesis
    by (simp add: msrio_add_write_def ctx_at_def bind_def act_simps at_def upd_ctx_def demo_reading_sel empty)
qed

lemmas demo_both_sel = demo_both_def[unfolded demo_both_eq snd_conv]

lemma demo_both_reachable: "msrio_reachable demo_os (\<lambda>r. r) (\<lambda>_. 0xFF) demo_both"
proof (rule reachable_step[OF demo_reading_reachable], rule step_add_write)
  show "msrio_add_write demo_os 1 0x10 0 demo_reading = (Inr 0, demo_both)"
    by (simp add: demo_both_eq demo_both_sel)
qed simp


section \<open>The contract of the signals\<close>

definition batch_contract :: "('t, unit) action \<Rightarrow> ('t, 'v) action \<Rightarrow> ('t \<Rightarrow> bool) \<Rightarrow> bool" where
  "batch_contract prepare smp is_ready \<longleftrightarrow>
     (\<forall>t. \<not> is_ready t \<longrightarrow> smp t = (Inl runtime, t)) \<and>
     (\<forall>t u. prepare t = (Inr (), u) \<longrightarrow> is_ready u \<and> prepare u = (Inr (), u) \<and>
        (\<forall>n r v. map_action (\<lambda>_. smp) (replicate n ()) u = (r, v) \<longrightarrow> is_ready v \<and> prepare v = (Inr (), v)))"

context batch_signal
begin

lemma batch_contract: "batch_contract prepare smp is_ready"
  unfolding batch_contract_def using not_ready setup_ready setup_idempotent samples_ready setup_again by blast

end

text \<open>
  Every signal class keeps the contract of the interface: \<^verbatim>\<open>sample()\<close> before
  \<^verbatim>\<open>setup_batch()\<close> throws \<^verbatim>\<open>GEOPM_ERROR_RUNTIME\<close> and changes nothing, a second
  \<^verbatim>\<open>setup_batch()\<close> does nothing, and no number of samples makes the signal unready again.
\<close>

theorem signals_need_setup:
  "batch_contract raw_msr_setup_batch raw_msr_sample (\<lambda>t. rm_is_batch_ready (fst t)) \<and>
   batch_contract (field_setup_batch raw) (field_sample raw) (\<lambda>t. fs_is_batch_ready (fst t)) \<and>
   batch_contract (difference_setup_batch a b) (difference_sample a b) (\<lambda>t. id (fst t)) \<and>
   batch_contract (multiplication_setup_batch a) (multiplication_sample a x) (\<lambda>t. id (fst t)) \<and>
   batch_contract (ratio_setup_batch a b) (ratio_sample a b) (\<lambda>t. id (fst t)) \<and>
   batch_contract time_setup_batch (time_sample batch) (\<lambda>t. id (fst t)) \<and>
   batch_contract (derivative_setup_batch a b) (derivative_sample a b) (\<lambda>t. dv_is_batch_ready (fst t))"
  by (intro conjI raw_msr.batch_contract field.batch_contract difference.batch_contract multiplication.batch_contract
      ratio.batch_contract time.batch_contract derivative.batch_contract)

end
