(* ===== verification/Application_Records.thy ===== *)
theory Application_Records
  imports Helper_Strings Binary64 "HOL-Library.Multiset"
begin

text \<open>
  The record pipeline of libgeopm. An application process appends events to its
  \<^verbatim>\<open>ApplicationRecordLog\<close> (region entry and exit, epochs, affinity, start and stop), which
  compresses the regions that are entered and exited between two calls of \<^verbatim>\<open>dump()\<close> into
  short region events. \<^verbatim>\<open>ApplicationSampler::update()\<close> dumps the log of every process, passes each
  record through the filter of the process, checks what comes out with its \<^verbatim>\<open>ValidateRecord\<close>,
  and renumbers the short regions; \<^verbatim>\<open>ProcessRegionAggregator\<close> adds up what the records say.

  The two tables of the log live in shared memory: the process that writes and the controller
  that dumps are serialised by a lock, so each operation is one action on the layout and on the
  private data of the writer. CRC32 (zlib) and the reinterpretation of a double as an integer
  are parameters.
\<close>

section \<open>Time, records, names\<close>

record geopm_time_s =
  tv_sec :: int
  tv_nsec :: int

definition geopm_time_diff :: "geopm_time_s \<Rightarrow> geopm_time_s \<Rightarrow> double" where
  "geopm_time_diff begin_time end_time =
     dadd (d_of_int (tv_sec end_time - tv_sec begin_time))
          (dmul (d_of_int (tv_nsec end_time - tv_nsec begin_time)) (round64 (1 / 10 ^ 9)))"

definition geopm_time_comp :: "geopm_time_s \<Rightarrow> geopm_time_s \<Rightarrow> bool" where
  "geopm_time_comp aa bb \<longleftrightarrow>
     tv_sec aa < tv_sec bb \<or> tv_sec aa = tv_sec bb \<and> tv_nsec aa < tv_nsec bb"

abbreviation (input) EVENT_REGION_ENTRY :: int where "EVENT_REGION_ENTRY \<equiv> 0"
abbreviation (input) EVENT_REGION_EXIT :: int where "EVENT_REGION_EXIT \<equiv> 1"
abbreviation (input) EVENT_EPOCH_COUNT :: int where "EVENT_EPOCH_COUNT \<equiv> 2"
abbreviation (input) EVENT_SHORT_REGION :: int where "EVENT_SHORT_REGION \<equiv> 3"
abbreviation (input) EVENT_AFFINITY :: int where "EVENT_AFFINITY \<equiv> 9"
abbreviation (input) EVENT_START_PROFILE :: int where "EVENT_START_PROFILE \<equiv> 10"
abbreviation (input) EVENT_STOP_PROFILE :: int where "EVENT_STOP_PROFILE \<equiv> 11"
abbreviation (input) EVENT_OVERHEAD :: int where "EVENT_OVERHEAD \<equiv> 12"

abbreviation (input) GEOPM_REGION_HASH_INVALID :: "64 word" where "GEOPM_REGION_HASH_INVALID \<equiv> 0"

record record_s =
  rec_time :: geopm_time_s
  rec_process :: int
  rec_event :: int
  rec_signal :: "64 word"

record short_region_s =
  sr_hash :: "64 word"
  sr_num_complete :: int
  sr_total_time :: double

definition event_names :: "(int \<times> string) list" where
  "event_names =
     [(EVENT_REGION_ENTRY, ''REGION_ENTRY''), (EVENT_REGION_EXIT, ''REGION_EXIT''),
      (EVENT_EPOCH_COUNT, ''EPOCH_COUNT''), (EVENT_SHORT_REGION, ''EVENT_SHORT_REGION''),
      (EVENT_AFFINITY, ''EVENT_AFFINITY''), (EVENT_START_PROFILE, ''EVENT_START_PROFILE''),
      (EVENT_STOP_PROFILE, ''EVENT_STOP_PROFILE''), (EVENT_OVERHEAD, ''EVENT_OVERHEAD'')]"

definition event_name :: "int \<Rightarrow> string result" where
  "event_name event_type = (case map_of event_names event_type of None \<Rightarrow> Inl invalid | Some n \<Rightarrow> Inr n)"

definition event_types :: "(string \<times> int) list" where
  "event_types =
     [(''REGION_ENTRY'', EVENT_REGION_ENTRY), (''REGION_EXIT'', EVENT_REGION_EXIT),
      (''EPOCH_COUNT'', EVENT_EPOCH_COUNT), (''EVENT_SHORT_REGION'', EVENT_SHORT_REGION),
      (''EVENT_AFFINITY'', EVENT_AFFINITY), (''EVENT_START_PROFILE'', EVENT_START_PROFILE),
      (''EVENT_STOP_PROFILE'', EVENT_STOP_PROFILE), (''EVENT_OVERHEAD'', EVENT_OVERHEAD)]"

definition event_type :: "string \<Rightarrow> int result" where
  "event_type name = (case map_of event_types name of None \<Rightarrow> Inl invalid | Some e \<Rightarrow> Inr e)"

abbreviation (input) GEOPM_NUM_REGION_HINT :: "64 word" where "GEOPM_NUM_REGION_HINT \<equiv> 11"

definition check_hint :: "64 word \<Rightarrow> unit result" where
  "check_hint hint = (if hint \<ge> GEOPM_NUM_REGION_HINT then Inl invalid else Inr ())"

definition hint_names :: "string list" where
  "hint_names = [''UNSET'', ''UNKNOWN'', ''COMPUTE'', ''MEMORY'', ''NETWORK'', ''IO'', ''SERIAL'',
     ''PARALLEL'', ''IGNORE'', ''INACTIVE'', ''SPIN'']"

definition hint_name :: "64 word \<Rightarrow> string result" where
  "hint_name hint = and_then (check_hint hint) (\<lambda>_. Inr (hint_names ! unat hint))"

definition hint_type :: "string \<Rightarrow> 64 word result" where
  "hint_type name =
     (case map_of
        [(''UNSET'', 0), (''UNKNOWN'', 1), (''COMPUTE'', 2), (''MEMORY'', 3), (''NETWORK'', 4),
         (''IO'', 5), (''SERIAL'', 6), (''PARALLEL'', 7), (''IGNORE'', 8), (''INACTIVE'', 9),
         (''SPIN'', 10)] name of
        None \<Rightarrow> Inl invalid | Some h \<Rightarrow> Inr h)"

section \<open>The record log\<close>

abbreviation (input) M_LAYOUT_SIZE :: nat where "M_LAYOUT_SIZE \<equiv> 57384"
abbreviation (input) M_MAX_RECORD :: nat where "M_MAX_RECORD \<equiv> 1024"
abbreviation (input) M_MAX_REGION :: nat where "M_MAX_REGION \<equiv> 1025"

record layout =
  num_record :: nat
  record_table :: "record_s list"
  num_region :: nat
  region_table :: "short_region_s list"

record region_enter =
  re_record_idx :: int
  re_region_idx :: int
  re_enter_time :: geopm_time_s
  re_is_short :: bool

record record_log =
  rl_layout :: layout
  rl_process :: int
  rl_enter_map :: "64 word \<Rightarrow> region_enter option"
  rl_epoch_count :: "64 word"
  rl_entered_hash :: "64 word"

text \<open>A new shared memory segment is filled with zeros.\<close>

definition zero_layout :: layout where
  "zero_layout = \<lparr>num_record = 0,
     record_table = replicate M_MAX_RECORD \<lparr>rec_time = \<lparr>tv_sec = 0, tv_nsec = 0\<rparr>, rec_process = 0, rec_event = 0, rec_signal = 0\<rparr>,
     num_region = 0,
     region_table = replicate M_MAX_REGION \<lparr>sr_hash = 0, sr_num_complete = 0, sr_total_time = Fin 0\<rparr>\<rparr>"

definition make_record_log :: "nat \<Rightarrow> int \<Rightarrow> record_log result" where
  "make_record_log shmem_size process =
     (if shmem_size < M_LAYOUT_SIZE then Inl invalid
      else Inr \<lparr>rl_layout = zero_layout, rl_process = process, rl_enter_map = Map.empty,
                rl_epoch_count = 0, rl_entered_hash = GEOPM_REGION_HASH_INVALID\<rparr>)"

text \<open>An assignment through an index: outside of the array it has no defined meaning.\<close>

definition update_at :: "'a list \<Rightarrow> int \<Rightarrow> ('a \<Rightarrow> 'a result) \<Rightarrow> 'a list result" where
  "update_at xs i f =
     (if 0 \<le> i \<and> i < int (length xs) then and_then (f (xs ! nat i)) (\<lambda>y. Inr (xs[nat i := y]))
      else Inl Undefined_behavior)"

definition upd_record :: "int \<Rightarrow> (record_s \<Rightarrow> record_s) \<Rightarrow> (record_log, unit) action" where
  "upd_record i f =
     bind (gets (\<lambda>s. update_at (record_table (rl_layout s)) i (\<lambda>r. Inr (f r)))) (\<lambda>res.
     bind (lift res) (\<lambda>table. modify (\<lambda>s. s\<lparr>rl_layout := (rl_layout s)\<lparr>record_table := table\<rparr>\<rparr>)))"

definition upd_region :: "int \<Rightarrow> (short_region_s \<Rightarrow> short_region_s result) \<Rightarrow> (record_log, unit) action" where
  "upd_region i f =
     bind (gets (\<lambda>s. update_at (region_table (rl_layout s)) i f)) (\<lambda>res.
     bind (lift res) (\<lambda>table. modify (\<lambda>s. s\<lparr>rl_layout := (rl_layout s)\<lparr>region_table := table\<rparr>\<rparr>)))"

definition upd_enter :: "64 word \<Rightarrow> (region_enter \<Rightarrow> region_enter) \<Rightarrow> (record_log, unit) action" where
  "upd_enter hash f = modify (\<lambda>s. s\<lparr>rl_enter_map := (rl_enter_map s)(hash := map_option f (rl_enter_map s hash))\<rparr>)"

definition check_reset :: "(record_log, unit) action" where
  "check_reset = modify (\<lambda>s.
     if num_record (rl_layout s) = 0 then
       (case rl_enter_map s (rl_entered_hash s) of
          Some entry_info \<Rightarrow>
            if re_is_short entry_info
            then s\<lparr>rl_enter_map := [rl_entered_hash s \<mapsto> entry_info\<lparr>re_record_idx := -1, re_region_idx := -1\<rparr>]\<rparr>
            else s\<lparr>rl_enter_map := Map.empty\<rparr>
        | None \<Rightarrow> s\<lparr>rl_enter_map := Map.empty\<rparr>)
     else s)"

definition append_record :: "record_s \<Rightarrow> (record_log, unit) action" where
  "append_record record =
     bind (gets (\<lambda>s. num_record (rl_layout s))) (\<lambda>record_idx.
     if record_idx < M_MAX_RECORD
     then bind (upd_record (int record_idx) (\<lambda>_. record)) (\<lambda>_.
          modify (\<lambda>s. s\<lparr>rl_layout := (rl_layout s)\<lparr>num_record := num_record (rl_layout s) + 1\<rparr>\<rparr>))
     else throw runtime)"

text \<open>Append a record of this process, as every operation does.\<close>

definition append_event :: "geopm_time_s \<Rightarrow> int \<Rightarrow> 64 word \<Rightarrow> (record_log, unit) action" where
  "append_event time event signal =
     bind (gets rl_process) (\<lambda>process.
     append_record \<lparr>rec_time = time, rec_process = process, rec_event = event, rec_signal = signal\<rparr>)"

definition enter_region :: "64 word \<Rightarrow> geopm_time_s \<Rightarrow> region_enter option \<Rightarrow> (record_log, unit) action" where
  "enter_region hash time found =
     (case found of
        Some _ \<Rightarrow> upd_enter hash (\<lambda>e. e\<lparr>re_enter_time := time\<rparr>)
      | None \<Rightarrow>
          bind (gets (\<lambda>s. num_record (rl_layout s))) (\<lambda>record_idx.
          bind (modify (\<lambda>s. s\<lparr>rl_enter_map := (rl_enter_map s)(hash \<mapsto>
                  \<lparr>re_record_idx = int record_idx, re_region_idx = -1, re_enter_time = time, re_is_short = False\<rparr>)\<rparr>)) (\<lambda>_.
          append_event time EVENT_REGION_ENTRY hash)))"

definition log_enter :: "64 word \<Rightarrow> geopm_time_s \<Rightarrow> (record_log, unit) action" where
  "log_enter hash time =
     bind check_reset (\<lambda>_.
     bind (gets (\<lambda>s. rl_enter_map s hash)) (\<lambda>found.
     bind (enter_region hash time found) (\<lambda>_.
     modify (\<lambda>s. s\<lparr>rl_entered_hash := hash\<rparr>))))"

text \<open>"Find or add the region in short regions array".\<close>

definition find_or_add_region :: "64 word \<Rightarrow> (record_log, int) action" where
  "find_or_add_region hash =
     bind (gets (\<lambda>s. the (rl_enter_map s hash))) (\<lambda>enter_info.
     if re_region_idx enter_info = -1 then
       bind (gets (\<lambda>s. num_region (rl_layout s))) (\<lambda>region_idx.
       bind (upd_enter hash (\<lambda>e. e\<lparr>re_region_idx := int region_idx\<rparr>)) (\<lambda>_.
       bind (modify (\<lambda>s. s\<lparr>rl_layout := (rl_layout s)\<lparr>num_region := num_region (rl_layout s) + 1\<rparr>\<rparr>)) (\<lambda>_.
       bind (upd_region (int region_idx) (\<lambda>_. Inr \<lparr>sr_hash = hash, sr_num_complete = 0, sr_total_time = Fin 0\<rparr>)) (\<lambda>_.
       bind (upd_record (re_record_idx enter_info)
               (\<lambda>r. r\<lparr>rec_event := EVENT_SHORT_REGION, rec_signal := of_nat region_idx\<rparr>)) (\<lambda>_.
       ret (int region_idx))))))
     else ret (re_region_idx enter_info))"

text \<open>The counter is a 32 bit signed integer; incrementing the largest one is undefined.\<close>

definition complete_region :: "geopm_time_s \<Rightarrow> geopm_time_s \<Rightarrow> short_region_s \<Rightarrow> short_region_s result" where
  "complete_region enter_time time region =
     (if sr_num_complete region = INT_MAX then Inl Undefined_behavior
      else Inr (region\<lparr>sr_num_complete := sr_num_complete region + 1,
             sr_total_time := dadd (sr_total_time region) (geopm_time_diff enter_time time)\<rparr>))"

definition exit_region :: "64 word \<Rightarrow> geopm_time_s \<Rightarrow> region_enter option \<Rightarrow> (record_log, unit) action" where
  "exit_region hash time region_it =
     (case region_it of
        None \<Rightarrow> append_event time EVENT_REGION_EXIT hash
      | Some enter_info \<Rightarrow>
          bind (upd_enter hash (\<lambda>e. e\<lparr>re_is_short := True\<rparr>)) (\<lambda>_.
          bind (if re_record_idx enter_info = -1 then
                  bind (gets (\<lambda>s. num_record (rl_layout s))) (\<lambda>record_idx.
                  bind (upd_enter hash (\<lambda>e. e\<lparr>re_record_idx := int record_idx\<rparr>)) (\<lambda>_.
                  append_event time EVENT_REGION_ENTRY hash))
                else ret ()) (\<lambda>_.
          bind (find_or_add_region hash) (\<lambda>region_idx.
          upd_region region_idx (complete_region (re_enter_time enter_info) time)))))"

definition log_exit :: "64 word \<Rightarrow> geopm_time_s \<Rightarrow> (record_log, unit) action" where
  "log_exit hash time =
     bind check_reset (\<lambda>_.
     bind (gets (\<lambda>s. rl_enter_map s hash)) (\<lambda>region_it.
     bind (exit_region hash time region_it) (\<lambda>_.
     modify (\<lambda>s. s\<lparr>rl_entered_hash := GEOPM_REGION_HASH_INVALID\<rparr>))))"

definition log_epoch :: "geopm_time_s \<Rightarrow> (record_log, unit) action" where
  "log_epoch time =
     bind check_reset (\<lambda>_.
     bind (modify (\<lambda>s. s\<lparr>rl_epoch_count := rl_epoch_count s + 1\<rparr>)) (\<lambda>_.
     bind (gets rl_epoch_count) (\<lambda>count.
     append_event time EVENT_EPOCH_COUNT count)))"

definition log_affinity :: "geopm_time_s \<Rightarrow> int \<Rightarrow> (record_log, unit) action" where
  "log_affinity time cpu_idx = bind check_reset (\<lambda>_. append_event time EVENT_AFFINITY (word_of_int cpu_idx))"

text \<open>The scheduler's CPU set of the process and the number of CPUs are arguments.\<close>

definition log_cpuset_changed :: "(int \<Rightarrow> bool) \<Rightarrow> int \<Rightarrow> geopm_time_s \<Rightarrow> (record_log, unit) action" where
  "log_cpuset_changed cpu_set num_cpu time =
     for_each (\<lambda>cpu_idx. if cpu_set cpu_idx then log_affinity time cpu_idx else ret ()) (map int [0..<nat num_cpu])"

definition log_start_profile :: "(string \<Rightarrow> 64 word) \<Rightarrow> geopm_time_s \<Rightarrow> string \<Rightarrow> (record_log, unit) action" where
  "log_start_profile crc32_str time profile_name =
     bind check_reset (\<lambda>_. append_event time EVENT_START_PROFILE (crc32_str profile_name))"

definition log_stop_profile :: "(string \<Rightarrow> 64 word) \<Rightarrow> geopm_time_s \<Rightarrow> string \<Rightarrow> (record_log, unit) action" where
  "log_stop_profile crc32_str time profile_name =
     bind check_reset (\<lambda>_. append_event time EVENT_STOP_PROFILE (crc32_str profile_name))"

definition log_overhead :: "(double \<Rightarrow> 64 word) \<Rightarrow> geopm_time_s \<Rightarrow> double \<Rightarrow> (record_log, unit) action" where
  "log_overhead signal_to_field time overhead_sec =
     bind check_reset (\<lambda>_. append_event time EVENT_OVERHEAD (signal_to_field overhead_sec))"

definition log_dump :: "(record_log, record_s list \<times> short_region_s list) action" where
  "log_dump =
     bind (gets (\<lambda>s. (take (num_record (rl_layout s)) (record_table (rl_layout s)),
                      take (num_region (rl_layout s)) (region_table (rl_layout s))))) (\<lambda>result.
     bind (modify (\<lambda>s. s\<lparr>rl_layout := (rl_layout s)\<lparr>num_record := 0, num_region := 0\<rparr>\<rparr>)) (\<lambda>_.
     ret result))"

section \<open>Histories\<close>

datatype log_op =
    Op_enter "64 word" geopm_time_s
  | Op_exit "64 word" geopm_time_s
  | Op_epoch geopm_time_s
  | Op_affinity geopm_time_s int
  | Op_append geopm_time_s int "64 word"   \<comment> \<open>start, stop and overhead, with the computed signal\<close>
  | Op_dump

fun log_step :: "log_op \<Rightarrow> (record_log, unit) action" where
  "log_step (Op_enter hash time) = log_enter hash time"
| "log_step (Op_exit hash time) = log_exit hash time"
| "log_step (Op_epoch time) = log_epoch time"
| "log_step (Op_affinity time cpu_idx) = log_affinity time cpu_idx"
| "log_step (Op_append time event signal) =
     (if event \<in> {EVENT_START_PROFILE, EVENT_STOP_PROFILE, EVENT_OVERHEAD}
      then bind check_reset (\<lambda>_. append_event time event signal) else ret ())"
| "log_step Op_dump = bind log_dump (\<lambda>_. ret ())"

section \<open>Invariant\<close>

definition short_signals :: "record_s list \<Rightarrow> nat list" where
  "short_signals rs = map (\<lambda>r. unat (rec_signal r)) (filter (\<lambda>r. rec_event r = EVENT_SHORT_REGION) rs)"

definition records :: "layout \<Rightarrow> record_s list" where
  "records L = take (num_record L) (record_table L)"

definition regions :: "layout \<Rightarrow> short_region_s list" where
  "regions L = take (num_region L) (region_table L)"

definition layout_ok :: "layout \<Rightarrow> bool" where
  "layout_ok L \<longleftrightarrow> length (record_table L) = M_MAX_RECORD \<and> length (region_table L) = M_MAX_REGION \<and>
     num_record L \<le> M_MAX_RECORD \<and> mset (short_signals (records L)) = mset_set {0..<num_region L} \<and>
     (\<forall>x \<in> set (regions L). 0 \<le> sr_num_complete x)"

text \<open>
  What the private map of the writer says about a region: nothing yet (it is kept from an earlier
  interval), the index of its entry record, or the index of its short region record and of the
  short region.
\<close>

definition entry_ok :: "layout \<Rightarrow> 64 word \<Rightarrow> region_enter \<Rightarrow> bool" where
  "entry_ok L hash e \<longleftrightarrow>
     re_record_idx e = -1 \<and> re_region_idx e = -1 \<or>
     (\<exists>i < num_record L. re_record_idx e = int i \<and>
        (re_region_idx e = -1 \<and> rec_event (record_table L ! i) = EVENT_REGION_ENTRY \<and> rec_signal (record_table L ! i) = hash \<or>
         (\<exists>j < num_region L. re_region_idx e = int j \<and> rec_event (record_table L ! i) = EVENT_SHORT_REGION \<and>
            rec_signal (record_table L ! i) = of_nat j \<and> sr_hash (region_table L ! j) = hash)))"

definition log_inv :: "record_log \<Rightarrow> bool" where
  "log_inv s \<longleftrightarrow> layout_ok (rl_layout s) \<and>
     (num_record (rl_layout s) \<noteq> 0 \<longrightarrow> (\<forall>hash e. rl_enter_map s hash = Some e \<longrightarrow> entry_ok (rl_layout s) hash e))"

text \<open>The same after \<open>check_reset\<close>: every entry of the map is about the records in the table.\<close>

definition log_ready :: "record_log \<Rightarrow> bool" where
  "log_ready s \<longleftrightarrow> layout_ok (rl_layout s) \<and>
     (\<forall>hash e. rl_enter_map s hash = Some e \<longrightarrow> entry_ok (rl_layout s) hash e)"

text \<open>The completed calls of a region that the table reports.\<close>

definition completions :: "64 word \<Rightarrow> record_s list \<Rightarrow> short_region_s list \<Rightarrow> int" where
  "completions hash rs shorts =
     int (length (filter (\<lambda>r. rec_event r = EVENT_REGION_EXIT \<and> rec_signal r = hash) rs)) +
     sum_list (map sr_num_complete (filter (\<lambda>x. sr_hash x = hash) shorts))"

definition completed :: "64 word \<Rightarrow> record_log \<Rightarrow> int" where
  "completed hash s = completions hash (records (rl_layout s)) (regions (rl_layout s))"

lemma log_ready_inv: "log_ready s \<Longrightarrow> log_inv s"
  by (simp add: log_ready_def log_inv_def)

lemma num_region_le:
  assumes "layout_ok L"
  shows "num_region L \<le> num_record L"
proof -
  have "num_region L = length (short_signals (records L))"
    using arg_cong[of _ _ size, OF assms[unfolded layout_ok_def, THEN conjunct2, THEN conjunct2, THEN conjunct2, THEN conjunct1]] by simp
  also have "\<dots> \<le> length (records L)" by (simp add: short_signals_def)
  also have "\<dots> \<le> num_record L" by (simp add: records_def)
  finally show ?thesis .
qed

lemma check_reset_ready:
  assumes "log_inv s" "check_reset s = (r, t)"
  shows "r = Inr () \<and> log_ready t \<and> rl_layout t = rl_layout s \<and> rl_process t = rl_process s \<and> rl_epoch_count t = rl_epoch_count s \<and> rl_entered_hash t = rl_entered_hash s"
  using assms
  by (auto simp: check_reset_def act_simps log_inv_def log_ready_def entry_ok_def split: option.splits if_splits)

lemma upd_record_apply [act_simps]:
  "upd_record i f s =
     (if 0 \<le> i \<and> i < int (length (record_table (rl_layout s)))
      then (Inr (), s\<lparr>rl_layout := (rl_layout s)\<lparr>record_table := (record_table (rl_layout s))[nat i := f (record_table (rl_layout s) ! nat i)]\<rparr>\<rparr>)
      else (Inl Undefined_behavior, s))"
  by (simp add: upd_record_def update_at_def act_simps)

lemma upd_region_apply [act_simps]:
  "upd_region i f s =
     (if 0 \<le> i \<and> i < int (length (region_table (rl_layout s)))
      then (case f (region_table (rl_layout s) ! nat i) of
              Inl e \<Rightarrow> (Inl e, s)
            | Inr x \<Rightarrow> (Inr (), s\<lparr>rl_layout := (rl_layout s)\<lparr>region_table := (region_table (rl_layout s))[nat i := x]\<rparr>\<rparr>))
      else (Inl Undefined_behavior, s))"
  by (simp add: upd_region_def update_at_def act_simps split: sum.splits)

lemma append_record_cases:
  assumes "layout_ok (rl_layout s)"
  shows "append_record r s =
     (if num_record (rl_layout s) < M_MAX_RECORD
      then (Inr (), s\<lparr>rl_layout := (rl_layout s)\<lparr>record_table := (record_table (rl_layout s))[num_record (rl_layout s) := r],
              num_record := num_record (rl_layout s) + 1\<rparr>\<rparr>)
      else (Inl runtime, s))"
  using assms by (simp add: append_record_def act_simps bind_def layout_ok_def)

text \<open>The layout after an append.\<close>

definition grown :: "record_s \<Rightarrow> layout \<Rightarrow> layout" where
  "grown r L = L\<lparr>record_table := (record_table L)[num_record L := r], num_record := num_record L + 1\<rparr>"

lemma records_grown: "num_record L < length (record_table L) \<Longrightarrow> records (grown r L) = records L @ [r]"
  by (simp add: records_def grown_def take_Suc_conv_app_nth)

lemma regions_grown [simp]: "regions (grown r L) = regions L"
  by (simp add: regions_def grown_def)

lemma layout_ok_grown:
  assumes "layout_ok L" "num_record L < M_MAX_RECORD" "rec_event r \<noteq> EVENT_SHORT_REGION"
  shows "layout_ok (grown r L)"
proof -
  have "records (grown r L) = records L @ [r]" using assms by (intro records_grown) (simp add: layout_ok_def)
  with assms show ?thesis by (simp add: layout_ok_def short_signals_def) (simp add: grown_def)
qed

lemma entry_ok_grown: "entry_ok L hash e \<Longrightarrow> entry_ok (grown r L) hash e"
  unfolding entry_ok_def grown_def
  by (auto simp: nth_list_update intro: less_SucI)

lemma append_event_cases:
  assumes "layout_ok (rl_layout s)"
  shows "append_event time event signal s =
     (if num_record (rl_layout s) < M_MAX_RECORD
      then (Inr (), s\<lparr>rl_layout := grown \<lparr>rec_time = time, rec_process = rl_process s, rec_event = event, rec_signal = signal\<rparr> (rl_layout s)\<rparr>)
      else (Inl runtime, s))"
  using append_record_cases[OF assms] by (simp add: append_event_def act_simps grown_def)

lemma append_event_ready:
  assumes "log_ready s" "append_event time event signal s = (r, t)" "event \<noteq> EVENT_SHORT_REGION"
  shows "(r = Inl runtime \<and> t = s) \<or>
         (r = Inr () \<and> log_ready t \<and> num_record (rl_layout s) < M_MAX_RECORD \<and>
          t = s\<lparr>rl_layout := grown \<lparr>rec_time = time, rec_process = rl_process s, rec_event = event, rec_signal = signal\<rparr> (rl_layout s)\<rparr>)"
  using assms append_event_cases[of s time event signal] layout_ok_grown[of "rl_layout s"] entry_ok_grown
  by (auto simp: log_ready_def split: if_splits)

lemma completed_grown:
  assumes "layout_ok (rl_layout s)" "num_record (rl_layout s) < M_MAX_RECORD"
  shows "completed hash (s\<lparr>rl_layout := grown r (rl_layout s)\<rparr>) =
     completed hash s + (if rec_event r = EVENT_REGION_EXIT \<and> rec_signal r = hash then 1 else 0)"
  using assms by (simp add: completed_def completions_def records_grown layout_ok_def)


text \<open>Replacing one record of the table.\<close>

lemma short_signals_update:
  assumes "i < length xs" "rec_event (xs ! i) \<noteq> EVENT_SHORT_REGION" "rec_event r = EVENT_SHORT_REGION"
  shows "mset (short_signals (xs[i := r])) = mset (short_signals xs) + {#unat (rec_signal r)#}"
proof -
  have "xs = take i xs @ xs ! i # drop (Suc i) xs" using assms(1) by (rule id_take_nth_drop)
  then have "short_signals xs = short_signals (take i xs) @ short_signals (drop (Suc i) xs)"
    using assms(2) by (metis (mono_tags, lifting) filter.simps(2) filter_append map_append short_signals_def)
  moreover have "short_signals (xs[i := r]) = short_signals (take i xs) @ unat (rec_signal r) # short_signals (drop (Suc i) xs)"
    using assms(1,3) by (simp add: upd_conv_take_nth_drop short_signals_def)
  ultimately show ?thesis by simp
qed

lemma filter_update_other:
  assumes "i < length xs" "\<not> P (xs ! i)" "\<not> P r"
  shows "filter P (xs[i := r]) = filter P xs"
proof -
  have "filter P xs = filter P (take i xs @ xs ! i # drop (Suc i) xs)"
    using id_take_nth_drop[OF assms(1)] by simp
  then show ?thesis using assms by (simp add: upd_conv_take_nth_drop)
qed

lemma sum_filter_update:
  fixes f :: "'a \<Rightarrow> int"
  assumes "j < length xs" "P y \<longleftrightarrow> P (xs ! j)"
  shows "sum_list (map f (filter P (xs[j := y]))) =
         sum_list (map f (filter P xs)) + (if P y then f y - f (xs ! j) else 0)"
proof -
  have "filter P xs = filter P (take j xs @ xs ! j # drop (Suc j) xs)"
    using id_take_nth_drop[OF assms(1)] by simp
  then show ?thesis using assms by (simp add: upd_conv_take_nth_drop)
qed

lemma find_or_add_region_ready:
  assumes ready: "log_ready s" and e: "rl_enter_map s hash = Some e" "re_record_idx e \<noteq> -1"
  shows "\<exists>j t. find_or_add_region hash s = (Inr (int j), t) \<and> log_ready t \<and>
    j < num_region (rl_layout t) \<and> sr_hash (region_table (rl_layout t) ! j) = hash \<and>
    (\<forall>h. completed h t = completed h s)"
proof (cases "re_region_idx e = -1")
  case False
  then show ?thesis
    using assms by (fastforce simp: find_or_add_region_def act_simps log_ready_def entry_ok_def)
next
  case True
  let ?L = "rl_layout s" and ?n = "num_region (rl_layout s)"
  note ok = ready[unfolded log_ready_def, THEN conjunct1, unfolded layout_ok_def]
  have n: "?n \<le> 1024" using num_region_le[of ?L] ready ok by (simp add: log_ready_def)
  obtain i where i: "i < num_record ?L" "re_record_idx e = int i"
      "rec_event (record_table ?L ! i) = EVENT_REGION_ENTRY" "rec_signal (record_table ?L ! i) = hash"
    using ready e True unfolding log_ready_def entry_ok_def by fastforce
  define r where "r = (record_table ?L ! i)\<lparr>rec_event := EVENT_SHORT_REGION, rec_signal := of_nat ?n\<rparr>"
  define x where "x = \<lparr>sr_hash = hash, sr_num_complete = 0, sr_total_time = Fin 0\<rparr>"
  define L where "L = ?L\<lparr>num_region := ?n + 1, region_table := (region_table ?L)[?n := x], record_table := (record_table ?L)[i := r]\<rparr>"
  define t where "t = s\<lparr>rl_enter_map := (rl_enter_map s)(hash \<mapsto> e\<lparr>re_region_idx := int ?n\<rparr>), rl_layout := L\<rparr>"
  have run: "find_or_add_region hash s = (Inr (int ?n), t)"
    using True e i(1,2) n ok
    by (simp add: find_or_add_region_def upd_enter_def bind_def act_simps t_def L_def r_def x_def)
  have recs: "records L = (records ?L)[i := r]" by (simp add: L_def records_def take_update_swap)
  have regs: "regions L = regions ?L @ [x]"
    using n ok by (simp add: L_def regions_def take_Suc_conv_app_nth)
  have nth: "records ?L ! i = record_table ?L ! i" "i < length (records ?L)"
    using i(1) ok by (simp_all add: records_def)
  have un: "unat (of_nat ?n :: 64 word) = ?n" using n by (simp add: unsigned_of_nat take_bit_nat_eq_self)
  have "mset (short_signals (records L)) = mset_set {0..<num_region L}"
  proof -
    have "num_region L = Suc ?n" by (simp add: L_def)
    then show ?thesis
      using short_signals_update[of i "records ?L" r] nth i ok n
      by (simp add: recs r_def un atLeastLessThanSuc)
  qed
  then have "layout_ok L"
    using ok n regs by (simp add: layout_ok_def) (simp add: L_def x_def)
  moreover have "entry_ok L h e'" if "rl_enter_map t h = Some e'" for h e'
  proof (cases "h = hash")
    case True
    with that show ?thesis using i n ok by (auto simp: t_def entry_ok_def L_def r_def x_def)
  next
    case False
    then have "entry_ok ?L h e'" using that ready by (simp add: t_def log_ready_def)
    moreover from this have "re_record_idx e' \<noteq> int i" using False i by (auto simp: entry_ok_def)
    moreover have "record_table L ! k = record_table ?L ! k" if "k \<noteq> i" for k using that by (simp add: L_def)
    moreover have "region_table L ! k = region_table ?L ! k" if "k < ?n" for k using that by (simp add: L_def)
    moreover have "num_record L = num_record ?L" "num_region L = Suc ?n" by (simp_all add: L_def)
    ultimately show ?thesis unfolding entry_ok_def by (metis less_SucI)
  qed
  ultimately have "log_ready t" by (simp add: log_ready_def) (simp add: t_def)
  moreover have "completed h t = completed h s" for h
  proof -
    have "filter (\<lambda>r. rec_event r = EVENT_REGION_EXIT \<and> rec_signal r = h) (records L) =
          filter (\<lambda>r. rec_event r = EVENT_REGION_EXIT \<and> rec_signal r = h) (records ?L)"
      unfolding recs using nth i by (intro filter_update_other) (simp_all add: r_def)
    then show ?thesis using regs by (simp add: completed_def completions_def t_def x_def)
  qed
  ultimately show ?thesis
    using run n ok by (intro exI[of _ ?n] exI[of _ t]) (auto simp: t_def L_def x_def)
qed

lemma num_complete_le:
  assumes "layout_ok (rl_layout s)" "j < num_region (rl_layout s)" "sr_hash (region_table (rl_layout s) ! j) = hash"
  shows "sr_num_complete (region_table (rl_layout s) ! j) \<le> completed hash s"
proof -
  let ?x = "region_table (rl_layout s) ! j" and ?xs = "filter (\<lambda>x. sr_hash x = hash) (regions (rl_layout s))"
  have "j < 1025" using num_region_le[OF assms(1)] assms(1,2) by (simp add: layout_ok_def)
  then have "?x \<in> set (regions (rl_layout s))"
    using assms by (auto simp: regions_def in_set_conv_nth layout_ok_def)
  then have "sr_num_complete ?x \<in> set (map sr_num_complete ?xs)" using assms(3) by simp
  moreover have "\<forall>v \<in> set (map sr_num_complete ?xs). 0 \<le> v" using assms(1) by (auto simp: layout_ok_def)
  ultimately have "sr_num_complete ?x \<le> sum_list (map sr_num_complete ?xs)"
    by (intro member_le_sum_list) auto
  then show ?thesis by (simp add: completed_def completions_def)
qed

lemma upd_region_ready:
  assumes ready: "log_ready s" and j: "j < num_region (rl_layout s)" "sr_hash (region_table (rl_layout s) ! j) = hash"
    and bound: "completed hash s < INT_MAX"
  shows "\<exists>t. upd_region (int j) (complete_region t0 time) s = (Inr (), t) \<and> log_ready t \<and>
    (\<forall>h. completed h t = completed h s + (if h = hash then 1 else 0))"
proof -
  let ?L = "rl_layout s" and ?x = "region_table (rl_layout s) ! j"
  note ok = ready[unfolded log_ready_def, THEN conjunct1, unfolded layout_ok_def]
  have n: "j < 1025" using num_region_le[of ?L] ready ok j by (simp add: log_ready_def)
  have small: "sr_num_complete ?x \<noteq> INT_MAX"
    using num_complete_le[of s j hash] ready j bound by (simp add: log_ready_def)
  define y where "y = ?x\<lparr>sr_num_complete := sr_num_complete ?x + 1, sr_total_time := dadd (sr_total_time ?x) (geopm_time_diff t0 time)\<rparr>"
  define L where "L = ?L\<lparr>region_table := (region_table ?L)[j := y]\<rparr>"
  have run: "upd_region (int j) (complete_region t0 time) s = (Inr (), s\<lparr>rl_layout := L\<rparr>)"
    using ok n small by (simp add: act_simps complete_region_def y_def L_def)
  have regs: "regions L = (regions ?L)[j := y]" by (simp add: L_def regions_def take_update_swap)
  have nth: "regions ?L ! j = ?x" "j < length (regions ?L)" using j n ok by (simp_all add: regions_def)
  have "?x \<in> set (regions ?L)" using nth by (metis nth_mem)
  then have "layout_ok L"
    using ok regs by (auto simp: layout_ok_def L_def records_def y_def dest!: subsetD[OF set_update_subset_insert])
  moreover have "entry_ok L h e" if "rl_enter_map s h = Some e" for h e
  proof -
    have "sr_hash (region_table L ! k) = sr_hash (region_table ?L ! k)" for k
      using n ok by (cases "k = j") (simp_all add: L_def y_def)
    moreover have "entry_ok ?L h e" using that ready by (simp add: log_ready_def)
    ultimately show ?thesis by (simp add: entry_ok_def) (simp add: L_def)
  qed
  moreover have "completed h (s\<lparr>rl_layout := L\<rparr>) = completed h s + (if h = hash then 1 else 0)" for h
    using sum_filter_update[of j "regions ?L" "\<lambda>x. sr_hash x = h" y sr_num_complete] nth j(2)
    by (auto simp: completed_def completions_def regs y_def) (simp_all add: L_def records_def)
  ultimately show ?thesis using run by (intro exI[of _ "s\<lparr>rl_layout := L\<rparr>"]) (simp add: log_ready_def)
qed


lemma completed_same [simp]:
  "completed h (s\<lparr>rl_enter_map := m\<rparr>) = completed h s"
  "completed h (s\<lparr>rl_entered_hash := k\<rparr>) = completed h s"
  "completed h (s\<lparr>rl_epoch_count := c\<rparr>) = completed h s"
  by (simp_all add: completed_def)

text \<open>A log of this process keeps its entry facts when it stores a new entry record of a region.\<close>

lemma ready_new_entry:
  assumes ready: "log_ready s" and room: "num_record (rl_layout s) < M_MAX_RECORD"
    and e: "re_record_idx e = int (num_record (rl_layout s))" "re_region_idx e = -1"
    and r: "rec_event r = EVENT_REGION_ENTRY" "rec_signal r = hash"
  shows "log_ready (s\<lparr>rl_enter_map := (rl_enter_map s)(hash \<mapsto> e), rl_layout := grown r (rl_layout s)\<rparr>)"
proof -
  let ?L = "rl_layout s"
  have ok: "layout_ok ?L" using ready by (simp add: log_ready_def)
  then have "entry_ok (grown r ?L) hash e"
    using e r room by (simp add: entry_ok_def grown_def layout_ok_def)
  then show ?thesis
    using ready entry_ok_grown layout_ok_grown[OF ok room, of r] r by (simp add: log_ready_def)
qed

lemma entry_ok_same [simp]:
  "entry_ok L hash (e\<lparr>re_enter_time := time\<rparr>) \<longleftrightarrow> entry_ok L hash e"
  "entry_ok L hash (e\<lparr>re_is_short := b\<rparr>) \<longleftrightarrow> entry_ok L hash e"
  by (simp_all add: entry_ok_def)

lemma entry_ok_none: "entry_ok L hash e \<Longrightarrow> re_record_idx e = -1 \<Longrightarrow> re_region_idx e = -1"
  by (auto simp: entry_ok_def)

lemma log_ready_map:
  "log_ready s \<Longrightarrow> entry_ok (rl_layout s) hash e \<Longrightarrow> log_ready (s\<lparr>rl_enter_map := (rl_enter_map s)(hash \<mapsto> e)\<rparr>)"
  by (simp add: log_ready_def)

lemma log_readyD: "log_ready s \<Longrightarrow> rl_enter_map s hash = Some e \<Longrightarrow> entry_ok (rl_layout s) hash e"
  by (simp add: log_ready_def)

lemma enter_region_ready:
  assumes ready: "log_ready s" and run: "enter_region hash time (rl_enter_map s hash) s = (r, t)"
  shows "r = Inl runtime \<or> r = Inr () \<and> log_ready t \<and> (\<forall>h. completed h t = completed h s)"
proof (cases "rl_enter_map s hash")
  case (Some e)
  then show ?thesis
    using run log_ready_map[OF ready, of hash "e\<lparr>re_enter_time := time\<rparr>"] log_readyD[OF ready Some]
    by (auto simp: enter_region_def upd_enter_def act_simps)
next
  case None
  let ?r = "\<lparr>rec_time = time, rec_process = rl_process s, rec_event = EVENT_REGION_ENTRY, rec_signal = hash\<rparr>"
  have ok: "layout_ok (rl_layout s)" using ready by (simp add: log_ready_def)
  show ?thesis
  proof (cases "num_record (rl_layout s) < M_MAX_RECORD")
    case True
    let ?e = "\<lparr>re_record_idx = int (num_record (rl_layout s)), re_region_idx = -1, re_enter_time = time, re_is_short = False\<rparr>"
    have "r = Inr ()" "t = s\<lparr>rl_enter_map := (rl_enter_map s)(hash \<mapsto> ?e), rl_layout := grown ?r (rl_layout s)\<rparr>"
      using run None True ok by (auto simp: enter_region_def act_simps append_event_cases)
    then show ?thesis
      using ready_new_entry[OF ready True, of ?e ?r hash] completed_grown[OF ok True, of _ ?r] by (simp add: completed_def)
  qed (use run None ok in \<open>simp add: enter_region_def act_simps append_event_cases\<close>)
qed

lemma exit_region_ready:
  assumes ready: "log_ready s" and bound: "\<forall>h. completed h s < INT_MAX"
    and run: "exit_region hash time (rl_enter_map s hash) s = (r, t)"
  shows "r = Inl runtime \<or> r = Inr () \<and> log_ready t \<and> (\<forall>h. completed h t = completed h s + (if h = hash then 1 else 0))"
proof (cases "rl_enter_map s hash")
  case None
  then show ?thesis
    using run append_event_ready[OF ready, of time 1 hash r t] ready completed_grown[of s]
    by (auto simp: exit_region_def log_ready_def)
next
  case (Some e)
  let ?e = "e\<lparr>re_is_short := True\<rparr>"
  let ?s1 = "s\<lparr>rl_enter_map := (rl_enter_map s)(hash \<mapsto> ?e)\<rparr>"
  have rest: "\<exists>v. bind (find_or_add_region hash) (\<lambda>region_idx.
               upd_region region_idx (complete_region (re_enter_time e) time)) u = (Inr (), v) \<and> log_ready v \<and>
               (\<forall>h. completed h v = completed h s + (if h = hash then 1 else 0))"
    if u: "log_ready u" "rl_enter_map u hash = Some e'" "re_record_idx e' \<noteq> -1" "\<forall>h. completed h u = completed h s" for u e'
  proof -
    obtain j w where w: "find_or_add_region hash u = (Inr (int j), w)" "log_ready w" "j < num_region (rl_layout w)"
        "sr_hash (region_table (rl_layout w) ! j) = hash" "\<forall>h. completed h w = completed h u"
      using find_or_add_region_ready[OF u(1-3)] by blast
    then show ?thesis
      using upd_region_ready[OF w(2-4), of "re_enter_time e" time] bound u(4) by (auto simp: bind_def)
  qed
  have ready1: "log_ready ?s1" using log_ready_map[OF ready, of hash ?e] log_readyD[OF ready Some] by simp
  have ok: "layout_ok (rl_layout s)" using ready by (simp add: log_ready_def)
  show ?thesis
  proof (cases "re_record_idx e = -1")
    case False
    then show ?thesis
      using run Some rest[OF ready1, of ?e] by (auto simp: exit_region_def upd_enter_def act_simps)
  next
    case True
    let ?r = "\<lparr>rec_time = time, rec_process = rl_process s, rec_event = EVENT_REGION_ENTRY, rec_signal = hash\<rparr>"
    let ?e2 = "?e\<lparr>re_record_idx := int (num_record (rl_layout s))\<rparr>"
    let ?s2 = "s\<lparr>rl_enter_map := (rl_enter_map s)(hash \<mapsto> ?e2), rl_layout := grown ?r (rl_layout s)\<rparr>"
    have "re_region_idx e = -1" using entry_ok_none[OF log_readyD[OF ready Some]] True by simp
    then have ready2: "log_ready ?s2" if "num_record (rl_layout s) < M_MAX_RECORD"
      using ready_new_entry[OF ready that, of ?e2 ?r hash] by simp
    have same: "\<forall>h. completed h ?s2 = completed h s" if "num_record (rl_layout s) < M_MAX_RECORD"
      using completed_grown[OF ok that, of _ ?r] by (simp add: completed_def)
    show ?thesis
    proof (cases "num_record (rl_layout s) < M_MAX_RECORD")
      case room: True
      then show ?thesis
        using run Some True ok rest[OF ready2[OF room], of ?e2] same
        by (auto simp: exit_region_def upd_enter_def act_simps append_event_cases bind_def)
    next
      case False
      then show ?thesis
        using run Some True ok by (auto simp: exit_region_def upd_enter_def act_simps append_event_cases bind_def)
    qed
  qed
qed

section \<open>Every history\<close>

definition exits :: "64 word \<Rightarrow> log_op list \<Rightarrow> int" where
  "exits hash ops = int (length (filter (\<lambda>op. case op of Op_exit h _ \<Rightarrow> h = hash | _ \<Rightarrow> False) ops))"

definition since_dump :: "log_op list \<Rightarrow> log_op list" where
  "since_dump ops = rev (takeWhile (\<lambda>op. op \<noteq> Op_dump) (rev ops))"

lemma since_dump_Cons:
  "since_dump (op # ops) =
     (if Op_dump \<in> set ops then since_dump ops else if op = Op_dump then ops else op # ops)"
proof (cases "Op_dump \<in> set ops")
  case True
  then have "takeWhile (\<lambda>op. op \<noteq> Op_dump) (rev ops @ [op]) = takeWhile (\<lambda>op. op \<noteq> Op_dump) (rev ops)"
    by (intro takeWhile_append1[of Op_dump]) auto
  with True show ?thesis by (simp add: since_dump_def)
next
  case False
  then have "takeWhile (\<lambda>op. op \<noteq> Op_dump) (rev ops @ [op]) = rev ops @ takeWhile (\<lambda>op. op \<noteq> Op_dump) [op]"
    by (intro takeWhile_append2) auto
  with False show ?thesis by (simp add: since_dump_def)
qed

lemma since_dump_none: "Op_dump \<notin> set ops \<Longrightarrow> since_dump ops = ops"
  by (induction ops) (auto simp: since_dump_Cons, simp add: since_dump_def)

lemma exits_simps [simp]:
  "exits hash [] = 0"
  "exits hash (Op_exit h time # ops) = (if h = hash then 1 else 0) + exits hash ops"
  "exits hash (Op_enter h time # ops) = exits hash ops"
  "exits hash (Op_epoch time # ops) = exits hash ops"
  "exits hash (Op_affinity time cpu # ops) = exits hash ops"
  "exits hash (Op_append time event signal # ops) = exits hash ops"
  "exits hash (Op_dump # ops) = exits hash ops"
  by (simp_all add: exits_def)

lemma exits_le: "exits hash ops \<le> int (length ops)" and exits_ge: "0 \<le> exits hash ops"
  by (simp_all add: exits_def)

lemma log_dump_apply:
  "log_dump s = (Inr (records (rl_layout s), regions (rl_layout s)), s\<lparr>rl_layout := (rl_layout s)\<lparr>num_record := 0, num_region := 0\<rparr>\<rparr>)"
  by (simp add: log_dump_def act_simps records_def regions_def)

lemma completed_nonneg: "log_inv s \<Longrightarrow> 0 \<le> completed h s"
  by (auto simp: completed_def completions_def log_inv_def layout_ok_def intro!: add_nonneg_nonneg sum_list_nonneg)

lemma log_step_inv:
  assumes inv: "log_inv s" and bound: "\<forall>h. completed h s < INT_MAX" and run: "log_step op s = (r, t)"
  shows "r = Inl runtime \<or> r = Inr () \<and> log_inv t \<and>
    (\<forall>h. completed h t = (if op = Op_dump then 0 else completed h s + exits h [op]))"
proof -
  obtain u where u: "check_reset s = (Inr (), u)" "log_ready u" "rl_layout u = rl_layout s"
      "rl_process u = rl_process s"
    using check_reset_ready[OF inv] by (metis prod.collapse)
  have reset: "bind check_reset (\<lambda>_. m) s = m u" for m :: "(record_log, 'b) action" by (simp add: bind_def u(1))
  have same: "completed h u = completed h s" for h using u(3) by (simp add: completed_def)
  have append: "r = Inl runtime \<or> r = Inr () \<and> log_inv t \<and> (\<forall>h. completed h t = completed h s)"
    if "append_event time event signal v = (r, t)" "event \<noteq> EVENT_SHORT_REGION" "event \<noteq> EVENT_REGION_EXIT"
       "log_ready v" "\<And>h. completed h v = completed h s" for time event signal v
    using append_event_ready[OF that(4,1,2)] that(3,5) completed_grown[of v] that(4)
    by (auto simp: log_ready_inv log_ready_def)
  show ?thesis
  proof (cases op)
    case (Op_enter hash time)
    obtain q w where q: "enter_region hash time (rl_enter_map u hash) u = (q, w)" by fastforce
    have inv': "log_ready w \<Longrightarrow> log_inv (w\<lparr>rl_entered_hash := hash\<rparr>)" by (simp add: log_ready_def log_inv_def)
    show ?thesis
      using run enter_region_ready[OF u(2) q] same inv'
      by (auto simp: Op_enter log_enter_def reset bind_act_simps) (auto simp: bind_def q modify_def)
  next
    case (Op_exit hash time)
    obtain q w where q: "exit_region hash time (rl_enter_map u hash) u = (q, w)" by fastforce
    have inv': "log_ready w \<Longrightarrow> log_inv (w\<lparr>rl_entered_hash := 0\<rparr>)" by (simp add: log_ready_def log_inv_def)
    have b: "\<forall>h. completed h u < INT_MAX" using bound same by simp
    show ?thesis
      using run exit_region_ready[OF u(2) b q] same inv'
      by (auto simp: Op_exit log_exit_def reset bind_act_simps) (auto simp: bind_def q modify_def)
  next
    case (Op_epoch time)
    have "log_ready (u\<lparr>rl_epoch_count := rl_epoch_count u + 1\<rparr>)" using u(2) by (simp add: log_ready_def)
    then show ?thesis
      using run append[of time 2 _ "u\<lparr>rl_epoch_count := rl_epoch_count u + 1\<rparr>"] same
      by (simp add: Op_epoch log_epoch_def reset) (simp add: act_simps)
  next
    case (Op_affinity time cpu)
    then show ?thesis
      using run append[of time 9 _ u] u(2) same by (simp add: log_affinity_def reset)
  next
    case (Op_append time event signal)
    then show ?thesis
      using run append[of time event signal u] u(2) same inv
      by (cases "event \<in> {10, 11, 12}") (simp_all add: reset act_simps, auto)
  next
    case Op_dump
    then show ?thesis
      using run inv
      by (auto simp: log_dump_apply bind_def act_simps log_inv_def layout_ok_def completed_def completions_def
          records_def regions_def short_signals_def)
  qed
qed

lemma log_run_inv:
  assumes "log_inv s" "\<forall>h. completed h s + int (length ops) \<le> INT_MAX" "for_each log_step ops s = (r, t)"
  shows "r = Inl runtime \<or> r = Inr () \<and> log_inv t \<and>
    (\<forall>h. completed h t = (if Op_dump \<in> set ops then exits h (since_dump ops) else completed h s + exits h ops))"
  using assms
proof (induction ops arbitrary: s)
  case (Cons op ops)
  have bound: "\<forall>h. completed h s < INT_MAX"
  proof
    fix h show "completed h s < INT_MAX" using spec[OF Cons.prems(2), of h] by simp
  qed
  have run: "(\<exists>e. log_step op s = (Inl e, t) \<and> r = Inl e) \<or>
      (\<exists>u. log_step op s = (Inr (), u) \<and> for_each log_step ops u = (r, t))"
    using Cons.prems(3) by (auto simp: bind_cases)
  then show ?case
  proof
    assume "\<exists>e. log_step op s = (Inl e, t) \<and> r = Inl e"
    then show ?thesis using log_step_inv[OF Cons.prems(1) bound] by blast
  next
    assume "\<exists>u. log_step op s = (Inr (), u) \<and> for_each log_step ops u = (r, t)"
    then obtain u where u: "log_step op s = (Inr (), u)" "for_each log_step ops u = (r, t)" by blast
    from log_step_inv[OF Cons.prems(1) bound u(1)] have inv: "log_inv u"
      and c: "\<forall>h. completed h u = (if op = Op_dump then 0 else completed h s + exits h [op])" by auto
    have "completed h u + int (length ops) \<le> INT_MAX" for h
      using spec[OF c, of h] spec[OF Cons.prems(2), of h] exits_le[of h "[op]"]
        completed_nonneg[OF Cons.prems(1), of h] by (auto split: if_splits)
    from Cons.IH[OF inv _ u(2)] this show ?thesis
      using c by (cases op) (auto simp: since_dump_Cons)
  qed
qed auto

lemma make_record_log_inv:
  assumes "make_record_log shmem_size process = Inr s"
  shows "log_inv s \<and> completed h s = 0 \<and> num_record (rl_layout s) = 0 \<and> rl_enter_map s = Map.empty"
  using assms
  by (auto simp: make_record_log_def zero_layout_def log_inv_def layout_ok_def short_signals_def records_def
      regions_def completed_def completions_def split: if_splits)

lemma log_run_from_new:
  assumes "make_record_log shmem_size process = Inr s" "int (length ops) \<le> INT_MAX" "for_each log_step ops s = (r, t)"
  shows "r = Inl runtime \<or> r = Inr () \<and> log_inv t \<and> (\<forall>h. completed h t = exits h (since_dump ops))"
proof -
  have "log_inv s" and zero: "completed h s = 0" for h using make_record_log_inv[OF assms(1)] by simp_all
  with log_run_inv[OF this(1) _ assms(3)] assms(2) show ?thesis by (auto simp: since_dump_none)
qed

section \<open>The table is never overrun\<close>

text \<open>A log with a full table and an unknown region: what \<^verbatim>\<open>enter()\<close> leaves behind.\<close>

lemma full_enter:
  assumes "log_inv s" "num_record (rl_layout s) = M_MAX_RECORD" "rl_enter_map s hash = None"
  shows "log_enter hash t0 s = (Inl runtime, s\<lparr>rl_enter_map := (rl_enter_map s)(hash \<mapsto>
     \<lparr>re_record_idx = int M_MAX_RECORD, re_region_idx = -1, re_enter_time = t0, re_is_short = False\<rparr>)\<rparr>)"
proof -
  have "check_reset s = (Inr (), s)" using assms(2) by (simp add: check_reset_def act_simps)
  then show ?thesis
    using assms by (simp add: log_enter_def enter_region_def bind_def act_simps append_event_cases log_inv_def)
qed

lemma full_exit:
  assumes "layout_ok (rl_layout s)" "num_record (rl_layout s) = M_MAX_RECORD"
    and "rl_enter_map s hash = Some e" "re_record_idx e = int M_MAX_RECORD" "re_region_idx e = -1"
  shows "fst (log_exit hash time s) = Inl Undefined_behavior"
proof -
  have "check_reset s = (Inr (), s)" using assms(2) by (simp add: check_reset_def act_simps)
  moreover have "num_region (rl_layout s) < length (region_table (rl_layout s))" "length (record_table (rl_layout s)) = 1024"
    using num_region_le[OF assms(1)] assms(1,2) by (simp_all add: layout_ok_def)
  ultimately show ?thesis
    using assms(3-5)
    by (simp add: log_exit_def exit_region_def find_or_add_region_def upd_enter_def bind_def act_simps)
qed


lemma for_each_append: "for_each f (xs @ ys) = bind (for_each f xs) (\<lambda>_. for_each f ys)"
  by (induction xs) (auto simp: fun_eq_iff bind_def split: prod.splits sum.splits)

lemma epochs_fill:
  assumes "make_record_log shmem_size process = Inr s" "n \<le> M_MAX_RECORD"
  shows "\<exists>t. for_each log_step (replicate n (Op_epoch time)) s = (Inr (), t) \<and> log_inv t \<and>
     num_record (rl_layout t) = n \<and> rl_enter_map t = Map.empty"
  using assms(2)
proof (induction n)
  case 0
  then show ?case using make_record_log_inv[OF assms(1)] by auto
next
  case (Suc n)
  then obtain t where t: "for_each log_step (replicate n (Op_epoch time)) s = (Inr (), t)" "log_inv t"
      "num_record (rl_layout t) = n" "rl_enter_map t = Map.empty" by auto
  have "check_reset t = (Inr (), t)" using t(4) by (simp add: check_reset_def act_simps)
  then have "log_epoch time t = (Inr (), t\<lparr>rl_epoch_count := rl_epoch_count t + 1,
      rl_layout := grown \<lparr>rec_time = time, rec_process = rl_process t, rec_event = 2, rec_signal = rl_epoch_count t + 1\<rparr> (rl_layout t)\<rparr>)"
    (is "_ = (_, ?u)")
    using t(2,3) Suc.prems by (simp add: log_epoch_def bind_def act_simps append_event_cases log_inv_def)
  moreover have "log_inv ?u"
    using t layout_ok_grown[of "rl_layout t"] Suc.prems by (simp add: log_inv_def)
  moreover have "replicate (Suc n) (Op_epoch time) = replicate n (Op_epoch time) @ [Op_epoch time]"
    by (simp add: replicate_append_same)
  ultimately show ?case
    using t Suc.prems by (simp add: for_each_append bind_def) (simp add: grown_def)
qed


text \<open>
  No completed call of a region is lost or counted twice by the compression. After any
  history of enter, exit, epoch, affinity and dump calls that did not throw, the next dump reports,
  for every region hash, exactly the calls of \<^verbatim>\<open>exit()\<close> with that hash since the previous dump:
  its region exit events plus the counts of its short regions.
\<close>

theorem dump_counts_exits:
  assumes "make_record_log shmem_size process = Inr s" "int (length ops) \<le> INT_MAX"
    and "for_each log_step ops s = (Inr (), t)" "log_dump t = (Inr (rs, shorts), u)"
  shows "completions hash rs shorts = exits hash (since_dump ops)"
  using log_run_from_new[OF assms(1-3)] assms(4) by (auto simp: log_dump_apply completed_def)

lemma take_1_update: "0 < length xs \<Longrightarrow> take (Suc 0) (xs[0 := x]) = [x]"
  by (cases xs) auto

lemma entered_region:
  assumes "make_record_log shmem_size process = Inr s"
  shows "\<exists>t u. for_each log_step [Op_enter 7 t0, Op_exit 7 t1, Op_enter 7 t2, Op_dump, Op_exit 7 t3] s = (Inr (), t) \<and>
     log_dump t = (Inr ([\<lparr>rec_time = t3, rec_process = process, rec_event = EVENT_SHORT_REGION, rec_signal = 0\<rparr>],
        [\<lparr>sr_hash = 7, sr_num_complete = 1, sr_total_time = dadd (Fin 0) (geopm_time_diff t2 t3)\<rparr>]), u)"
  using assms
  by (auto simp: make_record_log_def zero_layout_def log_enter_def enter_region_def log_exit_def exit_region_def
      check_reset_def append_event_def append_record_def find_or_add_region_def upd_enter_def complete_region_def
      INT_MAX_def bind_def act_simps log_dump_def take_1_update split: if_splits)

theorem dump_counts_exits_witness:
  "completions 7 [\<lparr>rec_time = \<lparr>tv_sec = 4, tv_nsec = 0\<rparr>, rec_process = 1, rec_event = EVENT_SHORT_REGION, rec_signal = 0\<rparr>]
     [\<lparr>sr_hash = 7, sr_num_complete = 1, sr_total_time = dadd (Fin 0) (geopm_time_diff \<lparr>tv_sec = 3, tv_nsec = 0\<rparr> \<lparr>tv_sec = 4, tv_nsec = 0\<rparr>)\<rparr>] = 1"
proof -
  obtain s where s: "make_record_log 57384 1 = Inr s" by (simp add: make_record_log_def)
  let ?t = "\<lambda>n. \<lparr>tv_sec = n, tv_nsec = 0\<rparr>"
  obtain t u where t: "for_each log_step [Op_enter 7 (?t 1), Op_exit 7 (?t 2), Op_enter 7 (?t 3), Op_dump, Op_exit 7 (?t 4)] s = (Inr (), t)"
      "log_dump t = (Inr ([\<lparr>rec_time = ?t 4, rec_process = 1, rec_event = EVENT_SHORT_REGION, rec_signal = 0\<rparr>],
        [\<lparr>sr_hash = 7, sr_num_complete = 1, sr_total_time = dadd (Fin 0) (geopm_time_diff (?t 3) (?t 4))\<rparr>]), u)"
    using entered_region[OF s] by blast
  show ?thesis
    using dump_counts_exits[OF s _ t(1,2), of 7] by (simp add: since_dump_def INT_MAX_def)
qed

section \<open>Names of events and hints\<close>

lemma event_names_roundtrip:
  "event_name e = Inr n \<longleftrightarrow> event_type n = Inr e"
  by (auto simp: event_name_def event_type_def event_names_def event_types_def split: if_splits option.splits)

lemma hint_names_roundtrip:
  "map hint_name [0, 1, 2, 3, 4, 5, 6, 7, 8, 9, 10] = map Inr hint_names"
  "map hint_type hint_names = map Inr [0, 1, 2, 3, 4, 5, 6, 7, 8, 9, 10]"
  unfolding hint_names_def by (simp_all add: hint_type_def hint_name_def check_hint_def hint_names_def word_le_def)

section \<open>The order of time stamps\<close>

text \<open>
  \<^verbatim>\<open>geopm_time_diff()\<close> rounds three times; its sign is still the order of the time stamps, as long
  as the nanoseconds are normalised and the seconds fit in 52 bits.
\<close>

definition time_ok :: "geopm_time_s \<Rightarrow> bool" where
  "time_ok t \<longleftrightarrow> 0 \<le> tv_sec t \<and> tv_sec t < 2 ^ 52 \<and> 0 \<le> tv_nsec t \<and> tv_nsec t < 10 ^ 9"

lemma double_between: "Fin a \<le> d \<Longrightarrow> d \<le> Fin b \<Longrightarrow> \<exists>x. d = Fin x \<and> a \<le> x \<and> x \<le> b"
  by (cases d) (auto simp: less_eq_double_def)

lemma round64_powi: "- 1074 \<le> k \<Longrightarrow> \<bar>of_int m * (2 :: rat) powi k\<bar> < 2 ^ 1024 \<Longrightarrow> \<bar>m\<bar> < 2 ^ 53 \<Longrightarrow>
   round64 (of_int m * 2 powi k) = Fin (of_int m * 2 powi k)"
  by (rule round64_exact) (auto simp: representable_def)

lemma nano_bounds: "\<exists>e. round64 (1 / 10 ^ 9) = Fin e \<and> 1 / 2 ^ 30 \<le> e \<and> e * (10 ^ 9 - 1) \<le> 1 - 1 / 2 ^ 31"
proof -
  let ?m = "4835703278458517 :: int"
  have up: "round64 (of_int ?m / 2 ^ 82) = Fin (of_int ?m / 2 ^ 82)"
    and low: "round64 (1 / 2 ^ 30) = Fin (1 / 2 ^ 30)"
    using round64_powi[of "- 82" ?m] round64_powi[of "- 30" 1] by (simp_all add: power_int_def divide_simps)
  have "round64 (1 / 2 ^ 30) \<le> round64 (1 / 10 ^ 9)" "round64 (1 / 10 ^ 9) \<le> round64 (of_int ?m / 2 ^ 82)"
    by (rule round64_mono; simp)+
  then obtain e where "round64 (1 / 10 ^ 9) = Fin e" "1 / 2 ^ 30 \<le> e" "e \<le> of_int ?m / 2 ^ 82"
    using double_between[of "1 / 2 ^ 30"] unfolding up low by blast
  then show ?thesis by (intro exI[of _ e]) simp
qed

lemma round64_neg_iff:
  assumes "x \<le> - (1 / 2 ^ 31) \<or> 0 \<le> x"
  shows "dlt (round64 x) (Fin 0) \<longleftrightarrow> x < 0"
proof -
  have low: "round64 (- (1 / 2 ^ 31)) = Fin (- (1 / 2 ^ 31))"
    using round64_powi[of "- 31" "-1"] by (simp add: power_int_def divide_simps)
  show ?thesis
  proof (cases "0 \<le> x")
    case True
    then have "Fin 0 \<le> round64 x" using round64_mono[of 0 x] by simp
    with True show ?thesis by (auto simp: dlt_def)
  next
    case False
    then have "round64 x \<le> Fin (- (1 / 2 ^ 31))" using assms round64_mono[of x "- (1 / 2 ^ 31)"] low by simp
    also have "\<dots> < Fin 0" by simp
    finally show ?thesis using False by (simp add: dlt_def)
  qed
qed

lemma abs_of_int_le: "\<bar>n\<bar> \<le> m \<Longrightarrow> \<bar>of_int n :: rat\<bar> \<le> of_int m"
  by (metis of_int_abs of_int_le_iff)

lemma nano_product:
  assumes "\<bar>n\<bar> \<le> 999999999"
  shows "\<exists>p. dmul (d_of_int n) (round64 (1 / 10 ^ 9)) = Fin p \<and> \<bar>p\<bar> \<le> 1 - 1 / 2 ^ 31 \<and>
    (n < 0 \<longrightarrow> p \<le> - (1 / 2 ^ 30)) \<and> (0 \<le> n \<longrightarrow> 0 \<le> p)"
proof -
  obtain e where e: "round64 (1 / 10 ^ 9) = Fin e" "1 / 2 ^ 30 \<le> e" "e * (10 ^ 9 - 1) \<le> 1 - 1 / 2 ^ 31"
    using nano_bounds by blast
  define c :: rat where "c = 1 - 1 / 2 ^ 31"
  define x :: rat where "x = of_int n * e"
  have c: "round64 c = Fin c" "round64 (- c) = Fin (- c)"
    unfolding c_def using round64_powi[of "- 31" "2 ^ 31 - 1"] round64_powi[of "- 31" "- (2 ^ 31 - 1)"]
    by (simp_all add: power_int_def divide_simps)
  have pos: "0 < e" using e(2) by (rule less_le_trans[rotated]) simp
  have "\<bar>x\<bar> = \<bar>of_int n\<bar> * e" using pos by (simp add: x_def abs_mult)
  also have "\<dots> \<le> 999999999 * e" using abs_of_int_le[OF assms] pos by (intro mult_right_mono) simp_all
  also have "\<dots> \<le> c" using e(3) by (simp add: c_def mult.commute)
  finally have x: "- c \<le> x" "x \<le> c" by linarith+
  have "Fin (- c) \<le> round64 x" "round64 x \<le> Fin c"
    using round64_mono[OF x(1)] round64_mono[OF x(2)] c by simp_all
  then obtain p where p: "round64 x = Fin p" "- c \<le> p" "p \<le> c" using double_between by blast
  have "p \<le> - (1 / 2 ^ 30)" if "n < 0"
  proof -
    have "n \<le> - 1" using that by simp
    then have "(of_int n :: rat) \<le> of_int (- 1)" unfolding of_int_le_iff .
    then have "x \<le> - 1 * e" unfolding x_def using pos by (intro mult_right_mono) simp_all
    then have "x \<le> - (1 / 2 ^ 30)" using e(2) by simp
    moreover have "round64 (- (1 / 2 ^ 30)) = Fin (- (1 / 2 ^ 30))"
      using round64_powi[of "- 30" "-1"] by (simp add: power_int_def divide_simps)
    ultimately show ?thesis using round64_mono[of x "- (1 / 2 ^ 30)"] p(1) by simp
  qed
  moreover have "0 \<le> p" if "0 \<le> n"
  proof -
    have "0 \<le> x" unfolding x_def using that pos by (intro mult_nonneg_nonneg) simp_all
    then show ?thesis using round64_mono[of 0 x] p(1) by simp
  qed
  moreover have "dmul (d_of_int n) (round64 (1 / 10 ^ 9)) = Fin p"
    using assms p(1) e(1) by (simp add: d_of_int_exact x_def)
  ultimately show ?thesis using p unfolding c_def by (intro exI[of _ p]) (simp add: abs_le_iff)
qed

lemma time_diff_negative:
  assumes "time_ok a" "time_ok b"
  shows "dlt (geopm_time_diff a b) (Fin 0) \<longleftrightarrow> geopm_time_comp b a"
proof -
  define s n where "s = tv_sec b - tv_sec a" and "n = tv_nsec b - tv_nsec a"
  have bounds: "\<bar>s\<bar> < 2 ^ 53" "\<bar>n\<bar> \<le> 999999999" using assms by (auto simp: time_ok_def s_def n_def)
  have comp: "geopm_time_comp b a \<longleftrightarrow> s < 0 \<or> s = 0 \<and> n < 0"
    by (auto simp: geopm_time_comp_def s_def n_def)
  obtain p where p: "dmul (d_of_int n) (round64 (1 / 10 ^ 9)) = Fin p" "\<bar>p\<bar> \<le> 1 - 1 / 2 ^ 31"
      "n < 0 \<longrightarrow> p \<le> - (1 / 2 ^ 30)" "0 \<le> n \<longrightarrow> 0 \<le> p"
    using nano_product[OF bounds(2)] by blast
  have diff: "geopm_time_diff a b = round64 (of_int s + p)"
    using p(1) d_of_int_exact[OF bounds(1)] by (simp add: geopm_time_diff_def s_def n_def)
  have "(of_int s + p \<le> - (1 / 2 ^ 31) \<or> 0 \<le> of_int s + p) \<and> (of_int s + p < 0 \<longleftrightarrow> s < 0 \<or> s = 0 \<and> n < 0)"
  proof (cases s "0 :: int" rule: linorder_cases)
    case less
    then have "s \<le> - 1" by simp
    then have "(of_int s :: rat) \<le> of_int (- 1)" unfolding of_int_le_iff .
    then have "of_int s + p \<le> - (1 / 2 ^ 31)" using p(2) by simp
    with less show ?thesis by auto
  next
    case equal
    then show ?thesis using p(3,4) by (cases "n < 0") auto
  next
    case greater
    then have "1 \<le> s" by simp
    then have "(of_int 1 :: rat) \<le> of_int s" unfolding of_int_le_iff .
    then have "0 \<le> of_int s + p" using p(2) by simp
    with greater show ?thesis by auto
  qed
  then show ?thesis using round64_neg_iff[of "of_int s + p"] by (simp add: diff comp)
qed

end
