(* ===== verification/Record_Filters.thy ===== *)
theory Record_Filters
  imports Application_Records Circular_Buffer
begin

text \<open>
  What happens to a record on its way from the log of a process to the controller: the filters
  that replace the application's epochs by inferred ones (libgeopm/src/ProxyEpochRecordFilter.cpp,
  EditDistEpochRecordFilter.cpp with its EditDistPeriodicityDetector.cpp, and the factory in
  RecordFilter.cpp) and the check of the stream that comes out (ValidateRecord.cpp).

  The locale \<open>epoch_filter\<close> is the interface of a filter: it passes everything but epochs
  through, and the epochs it adds are numbered from one. It is interpreted for both filters at the
  end of the sections that define them. CRC32 and \<^verbatim>\<open>std::stod()\<close> are parameters.
\<close>

section \<open>Validation\<close>

record validate_record =
  v_is_empty :: bool
  v_time :: geopm_time_s
  v_process :: int
  v_epoch_count :: "64 word"
  v_region_hash :: "64 word"

definition validate_new :: validate_record where
  "validate_new = \<lparr>v_is_empty = True, v_time = \<lparr>tv_sec = 0, tv_nsec = 0\<rparr>, v_process = -1,
     v_epoch_count = 0, v_region_hash = GEOPM_REGION_HASH_INVALID\<rparr>"

definition validate_hash :: "64 word \<Rightarrow> unit result" where
  "validate_hash hash =
     (if hash = GEOPM_REGION_HASH_INVALID \<or> hash > 0xFFFFFFFF then Inl invalid else Inr ())"

definition validate_entry :: "64 word \<Rightarrow> (validate_record, unit) action" where
  "validate_entry signal =
     bind (lift (validate_hash signal)) (\<lambda>_.
     bind (gets v_region_hash) (\<lambda>region_hash.
     bind (guard (\<not> region_hash \<noteq> GEOPM_REGION_HASH_INVALID) invalid) (\<lambda>_.
     modify (\<lambda>v. v\<lparr>v_region_hash := signal\<rparr>))))"

definition validate_exit :: "64 word \<Rightarrow> (validate_record, unit) action" where
  "validate_exit signal =
     bind (lift (validate_hash signal)) (\<lambda>_.
     bind (gets v_region_hash) (\<lambda>region_hash.
     bind (guard (\<not> region_hash = GEOPM_REGION_HASH_INVALID) invalid) (\<lambda>_.
     bind (guard (\<not> signal \<noteq> region_hash) invalid) (\<lambda>_.
     modify (\<lambda>v. v\<lparr>v_region_hash := GEOPM_REGION_HASH_INVALID\<rparr>)))))"

definition validate_epoch :: "64 word \<Rightarrow> (validate_record, unit) action" where
  "validate_epoch signal =
     bind (gets v_epoch_count) (\<lambda>epoch_count.
     bind (guard (\<not> signal \<noteq> epoch_count + 1) invalid) (\<lambda>_.
     modify (\<lambda>v. v\<lparr>v_epoch_count := signal\<rparr>)))"

definition check_event :: "record_s \<Rightarrow> (validate_record, unit) action" where
  "check_event record =
     (if rec_event record = EVENT_REGION_ENTRY then validate_entry (rec_signal record)
      else if rec_event record = EVENT_REGION_EXIT then validate_exit (rec_signal record)
      else if rec_event record = EVENT_EPOCH_COUNT then validate_epoch (rec_signal record)
      else ret ())"

definition check :: "record_s \<Rightarrow> (validate_record, unit) action" where
  "check record =
     bind (modify (\<lambda>v. if v_is_empty v
             then \<lparr>v_is_empty = False, v_time = rec_time record, v_process = rec_process record,
                   v_epoch_count = 0, v_region_hash = GEOPM_REGION_HASH_INVALID\<rparr>
             else v)) (\<lambda>_.
     bind (gets v_process) (\<lambda>process.
     bind (guard (\<not> rec_process record \<noteq> process) invalid) (\<lambda>_.
     bind (gets v_time) (\<lambda>time.
     bind (guard (\<not> dlt (geopm_time_diff time (rec_time record)) (Fin 0)) invalid) (\<lambda>_.
     bind (modify (\<lambda>v. v\<lparr>v_time := rec_time record\<rparr>)) (\<lambda>_.
     check_event record))))))"

section \<open>The proxy filter\<close>

record proxy_filter =
  pf_proxy_hash :: "64 word"
  pf_num_per_epoch :: int
  pf_count :: int

definition proxy_new :: "64 word \<Rightarrow> int \<Rightarrow> int \<Rightarrow> proxy_filter result" where
  "proxy_new region_hash calls_per_epoch startup_count =
     and_then (int_result (- startup_count)) (\<lambda>count.
     if region_hash > 0xFFFFFFFF then Inl invalid
     else if calls_per_epoch \<le> 0 then Inl invalid
     else if startup_count < 0 then Inl invalid
     else Inr \<lparr>pf_proxy_hash = region_hash, pf_num_per_epoch = calls_per_epoch, pf_count = count\<rparr>)"

definition proxy_epoch_event :: "record_s \<Rightarrow> (proxy_filter, record_s list) action" where
  "proxy_epoch_event record =
     bind (gets (\<lambda>f. (pf_count f, pf_num_per_epoch f))) (\<lambda>(count, num_per_epoch).
     if count \<ge> 0 \<and> count mod num_per_epoch = 0
     then bind (lift (int_result (1 + count div num_per_epoch))) (\<lambda>signal.
          ret [record\<lparr>rec_event := EVENT_EPOCH_COUNT, rec_signal := word_of_int signal\<rparr>])
     else ret [])"

definition proxy_step :: "record_s \<Rightarrow> (proxy_filter, record_s list) action" where
  "proxy_step record =
     (if rec_event record \<noteq> EVENT_EPOCH_COUNT then
        bind (gets pf_proxy_hash) (\<lambda>proxy_hash.
        if rec_event record = EVENT_REGION_ENTRY \<and> rec_signal record = proxy_hash then
          bind (proxy_epoch_event record) (\<lambda>epoch.
          bind (gets (\<lambda>f. int_result (pf_count f + 1))) (\<lambda>incremented.
          bind (lift incremented) (\<lambda>count.
          bind (modify (\<lambda>f. f\<lparr>pf_count := count\<rparr>)) (\<lambda>_.
          ret (record # epoch)))))
        else ret [record])
      else ret [])"

section \<open>Names of filters\<close>

definition is_octal :: "char \<Rightarrow> bool" where
  "is_octal c \<longleftrightarrow> 48 \<le> (of_char c :: nat) \<and> (of_char c :: nat) \<le> 55"

definition is_hex :: "char \<Rightarrow> bool" where
  "is_hex c \<longleftrightarrow> (case hex_digit_value c of Inr _ \<Rightarrow> True | Inl _ \<Rightarrow> False)"

definition hex_value :: "char \<Rightarrow> nat" where
  "hex_value c = (case hex_digit_value c of Inr v \<Rightarrow> v | Inl _ \<Rightarrow> 0)"

text \<open>
  \<^verbatim>\<open>std::stoull(s, nullptr, 0)\<close>: white space, a sign, and digits in the base that the prefix
  says; a minus sign negates modulo 2^64.
\<close>

definition digits_of :: "string \<Rightarrow> nat \<times> string" where
  "digits_of body =
     (if take 2 body \<in> {''0x'', ''0X''} \<and> 2 < length body \<and> is_hex (body ! 2) then (16, takeWhile is_hex (drop 2 body))
      else if take 1 body = ''0'' then (8, takeWhile is_octal body)
      else (10, takeWhile is_digit body))"

definition stoull :: "string \<Rightarrow> 64 word result" where
  "stoull s =
     (let (neg, body) = strip_sign (dropWhile is_space s); (base, ds) = digits_of body;
          v = foldl (\<lambda>acc c. base * acc + hex_value c) 0 ds
      in if ds = [] then Inl Std_invalid_argument
         else if v \<ge> 2 ^ 64 then Inl Std_out_of_range
         else Inr (if neg then - of_nat v else of_nat v))"

text \<open>\<^verbatim>\<open>try { r } catch (const std::exception &) { h }\<close>\<close>

definition catch_std :: "'a result \<Rightarrow> 'a result \<Rightarrow> 'a result" where
  "catch_std r h =
     (case r of Inr x \<Rightarrow> Inr x | Inl Undefined_behavior \<Rightarrow> Inl Undefined_behavior | Inl _ \<Rightarrow> h)"

definition proxy_parse_name :: "(string \<Rightarrow> 64 word) \<Rightarrow> string \<Rightarrow> (64 word \<times> int \<times> int) result" where
  "proxy_parse_name crc32_str name =
     and_then (string_split name '','') (\<lambda>split_name.
     if split_name ! 0 \<noteq> ''proxy_epoch'' then Inl invalid
     else if length split_name \<le> 1 then Inl invalid
     else if split_name ! 1 = [] then Inl invalid
     else
       and_then (catch_std (stoull (split_name ! 1)) (Inr (crc32_str (split_name ! 1)))) (\<lambda>region_hash.
       and_then (if length split_name > 2 then catch_std (stoi (split_name ! 2)) (Inl invalid) else Inr 1) (\<lambda>calls_per_epoch.
       and_then (if length split_name > 3 then catch_std (stoi (split_name ! 3)) (Inl invalid) else Inr 0) (\<lambda>startup_count.
       Inr (region_hash, calls_per_epoch, startup_count)))))"

definition proxy_of_name :: "(string \<Rightarrow> 64 word) \<Rightarrow> string \<Rightarrow> proxy_filter result" where
  "proxy_of_name crc32_str filter_name =
     and_then (proxy_parse_name crc32_str filter_name) (\<lambda>(region_hash, calls_per_epoch, startup_count).
     proxy_new region_hash calls_per_epoch startup_count)"

section \<open>The periodicity detector\<close>

text \<open>
  The history of region hashes is a ring of \<open>n\<close> entries, and the table of distances a vector with
  \<open>n\<close> * \<open>n\<close> * \<open>n\<close> entries whose three indices are reduced modulo \<open>n\<close>.
\<close>

record detector =
  ed_history_buffer :: "64 word circular_buffer"
  ed_history_buffer_size :: int
  ed_period :: int
  ed_score :: int
  ed_record_count :: int
  ed_DP :: "32 word list"

definition detector_new :: "int \<Rightarrow> detector result" where
  "detector_new history_buffer_size =
     and_then (imul history_buffer_size history_buffer_size) (\<lambda>square.
     and_then (imul square history_buffer_size) (\<lambda>cube.
     if cube < 0 then Inl Std_length_error
     else Inr \<lparr>ed_history_buffer = cb_make 0 (nat history_buffer_size), ed_history_buffer_size = history_buffer_size,
            ed_period = -1, ed_score = -1, ed_record_count = 0, ed_DP = replicate (nat cube) 0\<rparr>))"

definition Didx :: "detector \<Rightarrow> int \<Rightarrow> int \<Rightarrow> int \<Rightarrow> nat" where
  "Didx d ii jj mm =
     (let n = ed_history_buffer_size d in nat ((ii mod n) * n * n + (jj mod n) * n + mm mod n))"

definition Dset :: "int \<Rightarrow> int \<Rightarrow> int \<Rightarrow> 32 word \<Rightarrow> detector \<Rightarrow> detector" where
  "Dset ii jj mm val d = d\<lparr>ed_DP := (ed_DP d)[Didx d ii jj mm := val]\<rparr>"

definition Dget :: "detector \<Rightarrow> int \<Rightarrow> int \<Rightarrow> int \<Rightarrow> 32 word" where
  "Dget d ii jj mm =
     (let n = ed_history_buffer_size d; count = ed_record_count d
      in if count - ii < n \<and> jj < n \<and> count - mm < n then ed_DP d ! Didx d ii jj mm
         else 0xFFFFFFFF div 2)"

definition pattern_repeats :: "'a list \<Rightarrow> nat \<Rightarrow> bool" where
  "pattern_repeats recs d \<longleftrightarrow> length recs mod d = 0 \<and>
     list_all (\<lambda>group. let curr = d * group
                       in take d (drop (curr - d) recs) = take d (drop curr recs)) [1..<length recs div d]"

definition find_smallest_repeating_pattern :: "detector \<Rightarrow> int \<Rightarrow> int result" where
  "find_smallest_repeating_pattern d slice_start =
     (let buffer = ed_history_buffer d
      in if int (cb_size buffer) = slice_start then Inr 1
         else and_then (if slice_start < 0 then Inl invalid
                        else cb_make_vector_slice 0 (nat slice_start) (cb_size buffer) buffer) (\<lambda>recs.
           Inr (case List.find (pattern_repeats recs) [1..<length recs div 2 + 1] of
                  Some divisor \<Rightarrow> int divisor | None \<Rightarrow> int (length recs))))"

text \<open>One cell: the cheapest of an insertion, a deletion, and a match or replacement.\<close>

definition update_cell :: "64 word \<Rightarrow> int \<Rightarrow> int \<Rightarrow> detector \<Rightarrow> detector result" where
  "update_cell last_rec mm ii d =
     (let count = ed_record_count d; buffer = ed_history_buffer d; num_recs_in_hist = int (cb_size buffer);
          entry_age = count - (ii - 1)
      in and_then (if entry_age \<le> num_recs_in_hist
                   then and_then (cb_value buffer (num_recs_in_hist - entry_age)) (\<lambda>compared_rec.
                        Inr (if compared_rec = last_rec then 0 else 2))
                   else Inr 2) (\<lambda>term.
         Inr (Dset ii (count - mm) mm
               (min (min (Dget d (ii - 1) (count - mm) mm + 1) (Dget d ii (count - mm - 1) mm + 1))
                    (Dget d (ii - 1) (count - mm - 1) mm + term)) d)))"

definition find_best :: "detector \<Rightarrow> int \<times> 32 word" where
  "find_best d =
     (let count = ed_record_count d; mm = max ((count + 1) div 2) (count - ed_history_buffer_size d)
      in fold (\<lambda>mm (bestm, bestval). let val = Dget d mm (count - mm) mm
                                     in if val < bestval then (mm, val) else (bestm, bestval))
           [mm + 1..count - 1] (mm, Dget d mm (count - mm) mm))"

definition calc_period :: "detector \<Rightarrow> detector result" where
  "calc_period d =
     (let count = ed_record_count d; n = ed_history_buffer_size d; num_recs_in_hist = int (cb_size (ed_history_buffer d))
      in if count < 2 then Inr d
         else
           let d = fold (\<lambda>ii. Dset ii 0 (count - 1) 0) [max 0 (count - n)..count - 1] d;
               d = fold (\<lambda>mm. Dset 0 (count - mm) mm (word_of_int (count - mm))) [max 0 (count - n)..count - 1] d
           in and_then (cb_value (ed_history_buffer d) (num_recs_in_hist - 1)) (\<lambda>last_rec.
              and_then (fold_result (\<lambda>mm. fold_result (update_cell last_rec mm) [max 1 (count - n)..mm])
                          [max 1 (count - n)..count - 1] d) (\<lambda>d.
              let (bestm, bestval) = find_best d; d = d\<lparr>ed_score := sint bestval\<rparr>
              in and_then (find_smallest_repeating_pattern d (num_recs_in_hist - (count - bestm))) (\<lambda>period.
                 Inr (d\<lparr>ed_period := period\<rparr>)))))"

definition detector_update :: "record_s \<Rightarrow> detector \<Rightarrow> detector result" where
  "detector_update record d =
     (if rec_event record = EVENT_REGION_ENTRY then
        and_then (cb_insert (rec_signal record) (ed_history_buffer d)) (\<lambda>buffer.
        and_then (int_result (ed_record_count d + 1)) (\<lambda>count.
        calc_period (d\<lparr>ed_history_buffer := buffer, ed_record_count := count\<rparr>)))
      else Inr d)"

section \<open>The edit distance filter\<close>

record edit_filter =
  ef_edpd :: detector
  ef_min_hysteresis_base_period :: int
  ef_min_detectable_period :: int
  ef_stable_period_hysteresis :: double
  ef_unstable_period_hysteresis :: double
  ef_last_period :: int
  ef_period_stable :: int
  ef_period_unstable :: int
  ef_is_period_detected :: bool
  ef_last_epoch :: int
  ef_epoch_count :: int

definition edit_new :: "int \<Rightarrow> int \<Rightarrow> int \<Rightarrow> double \<Rightarrow> double \<Rightarrow> edit_filter result" where
  "edit_new history_buffer_size min_hysteresis_base_period min_detectable_period stable_hysteresis unstable_hysteresis =
     and_then (detector_new history_buffer_size) (\<lambda>edpd.
     Inr \<lparr>ef_edpd = edpd, ef_min_hysteresis_base_period = min_hysteresis_base_period,
          ef_min_detectable_period = min_detectable_period, ef_stable_period_hysteresis = stable_hysteresis,
          ef_unstable_period_hysteresis = unstable_hysteresis, ef_last_period = -1, ef_period_stable = 0,
          ef_period_unstable = 0, ef_is_period_detected = False, ef_last_epoch = -1, ef_epoch_count = 0\<rparr>)"

definition track_candidate :: "edit_filter \<Rightarrow> edit_filter" where
  "track_candidate f =
     (let period = ed_period (ef_edpd f)
      in if ed_score (ef_edpd f) \<ge> period \<or> period < ef_min_detectable_period f
         then f\<lparr>ef_last_period := -1, ef_period_stable := 0\<rparr>
         else if period = ef_last_period f then f\<lparr>ef_period_stable := ef_period_stable f + 1\<rparr>
         else f\<lparr>ef_last_period := period, ef_period_stable := 0\<rparr>)"

text \<open>"To understand this criteria read m_min_hysteresis_base_period and m_stable_period_hysteresis".\<close>

definition period_is_stable :: "edit_filter \<Rightarrow> bool result" where
  "period_is_stable f =
     (let period = ed_period (ef_edpd f); base = ef_min_hysteresis_base_period f
      in if period \<le> base \<and>
            deq (d_of_int (ef_period_stable f)) (dmul (ef_stable_period_hysteresis f) (d_of_int base))
         then Inr True
         else if period > base
         then and_then (int_of_d (dmul (ef_stable_period_hysteresis f) (d_of_int period))) (\<lambda>limit.
              Inr (ef_period_stable f \<ge> limit))
         else Inr False)"

definition epoch_detected :: "(edit_filter, bool) action" where
  "epoch_detected =
     bind (gets ef_is_period_detected) (\<lambda>is_detected.
     if \<not> is_detected then
       bind (modify track_candidate) (\<lambda>_.
       bind (gets period_is_stable) (\<lambda>stable.
       bind (lift stable) (\<lambda>stable.
       if stable
       then bind (modify (\<lambda>f. f\<lparr>ef_is_period_detected := True, ef_last_epoch := ed_record_count (ef_edpd f), ef_period_stable := 0\<rparr>))
              (\<lambda>_. ret True)
       else ret False)))
     else
       bind (modify (\<lambda>f. if ed_period (ef_edpd f) = ef_last_period f then f\<lparr>ef_period_unstable := 0\<rparr>
                         else f\<lparr>ef_period_unstable := ef_period_unstable f + 1\<rparr>)) (\<lambda>_.
       bind (gets (\<lambda>f. int_of_d (dmul (ef_unstable_period_hysteresis f) (d_of_int (ef_last_period f))))) (\<lambda>limit.
       bind (lift limit) (\<lambda>limit.
       bind (gets (\<lambda>f. (ef_period_unstable f, ed_period (ef_edpd f) \<ge> ef_last_period f \<and>
                        ed_record_count (ef_edpd f) - ef_last_epoch f \<ge> ed_period (ef_edpd f)))) (\<lambda>(unstable, due).
       if unstable \<ge> limit
       then bind (modify (\<lambda>f. f\<lparr>ef_is_period_detected := False, ef_period_unstable := 0\<rparr>)) (\<lambda>_. ret False)
       else if due
       then bind (modify (\<lambda>f. f\<lparr>ef_last_epoch := ed_record_count (ef_edpd f)\<rparr>)) (\<lambda>_. ret True)
       else ret False)))))"

definition edit_step :: "record_s \<Rightarrow> (edit_filter, record_s list) action" where
  "edit_step record =
     (if rec_event record \<noteq> EVENT_EPOCH_COUNT then
        if rec_event record = EVENT_REGION_ENTRY then
          bind (gets (\<lambda>f. detector_update record (ef_edpd f))) (\<lambda>updated.
          bind (lift updated) (\<lambda>edpd.
          bind (modify (\<lambda>f. f\<lparr>ef_edpd := edpd\<rparr>)) (\<lambda>_.
          bind epoch_detected (\<lambda>is_epoch.
          if is_epoch then
            bind (gets (\<lambda>f. int_result (ef_epoch_count f + 1))) (\<lambda>incremented.
            bind (lift incremented) (\<lambda>count.
            bind (modify (\<lambda>f. f\<lparr>ef_epoch_count := count\<rparr>)) (\<lambda>_.
            ret [record, record\<lparr>rec_event := EVENT_EPOCH_COUNT, rec_signal := word_of_int count\<rparr>])))
          else ret [record]))))
        else ret [record]
      else ret [])"

definition edit_parse_name :: "(string \<Rightarrow> double result) \<Rightarrow> string \<Rightarrow> (int \<times> int \<times> int \<times> double \<times> double) result" where
  "edit_parse_name stod name =
     and_then (string_split name '','') (\<lambda>pieces.
     if pieces ! 0 \<noteq> ''edit_distance'' then Inl invalid
     else
       and_then (if length pieces > 1 then catch_std (stoi (pieces ! 1)) (Inl invalid) else Inr 50) (\<lambda>history_buffer_size.
       and_then (if length pieces > 2 then catch_std (stoi (pieces ! 2)) (Inl invalid) else Inr 4) (\<lambda>min_hysteresis_base_period.
       and_then (if length pieces > 3 then catch_std (stoi (pieces ! 3)) (Inl invalid) else Inr 3) (\<lambda>min_detectable_period.
       and_then (if length pieces > 4 then catch_std (stod (pieces ! 4)) (Inl invalid) else Inr (Fin 1)) (\<lambda>stable_hysteresis.
       and_then (if length pieces > 5 then catch_std (stod (pieces ! 5)) (Inl invalid) else Inr (Fin (3 / 2))) (\<lambda>unstable_hysteresis.
       if length pieces > 6 then Inl invalid
       else Inr (history_buffer_size, min_hysteresis_base_period, min_detectable_period, stable_hysteresis, unstable_hysteresis)))))))"

text \<open>
  The constructor from a name goes through helpers that return each parameter; those of the two
  hysteresis factors are declared to return an \<^verbatim>\<open>int\<close>.
\<close>

definition edit_of_name :: "(string \<Rightarrow> double result) \<Rightarrow> string \<Rightarrow> edit_filter result" where
  "edit_of_name stod name =
     and_then (edit_parse_name stod name) (\<lambda>(history_buffer_size, min_hysteresis_base_period, min_detectable_period, stable_hysteresis, unstable_hysteresis).
     and_then (int_of_d stable_hysteresis) (\<lambda>stable_int.
     and_then (int_of_d unstable_hysteresis) (\<lambda>unstable_int.
     edit_new history_buffer_size min_hysteresis_base_period min_detectable_period (d_of_int stable_int) (d_of_int unstable_int))))"

section \<open>The factory\<close>

datatype record_filter = Proxy_epoch proxy_filter | Edit_distance edit_filter

definition make_filter :: "(string \<Rightarrow> 64 word) \<Rightarrow> (string \<Rightarrow> double result) \<Rightarrow> string \<Rightarrow> record_filter result" where
  "make_filter crc32_str stod name =
     (if string_begins_with name ''proxy_epoch'' then and_then (proxy_of_name crc32_str name) (\<lambda>f. Inr (Proxy_epoch f))
      else if string_begins_with name ''edit_distance'' then and_then (edit_of_name stod name) (\<lambda>f. Inr (Edit_distance f))
      else Inl invalid)"

fun filter_record :: "record_s \<Rightarrow> (record_filter, record_s list) action" where
  "filter_record record (Proxy_epoch f) = (case proxy_step record f of (r, g) \<Rightarrow> (r, Proxy_epoch g))"
| "filter_record record (Edit_distance f) = (case edit_step record f of (r, g) \<Rightarrow> (r, Edit_distance g))"

section \<open>Which streams are valid\<close>

abbreviation is_epoch :: "record_s \<Rightarrow> bool" where
  "is_epoch r \<equiv> rec_event r = EVENT_EPOCH_COUNT"

abbreviation is_border :: "record_s \<Rightarrow> bool" where
  "is_border r \<equiv> rec_event r = EVENT_REGION_ENTRY \<or> rec_event r = EVENT_REGION_EXIT"

definition hash_ok :: "64 word \<Rightarrow> bool" where
  "hash_ok h \<longleftrightarrow> h \<noteq> GEOPM_REGION_HASH_INVALID \<and> h \<le> 0xFFFFFFFF"

text \<open>Entries and exits alternate and match; the last region may still be open.\<close>

fun balanced :: "record_s list \<Rightarrow> bool" where
  "balanced [] \<longleftrightarrow> True"
| "balanced [r] \<longleftrightarrow> rec_event r = EVENT_REGION_ENTRY \<and> hash_ok (rec_signal r)"
| "balanced (r # s # rs) \<longleftrightarrow> rec_event r = EVENT_REGION_ENTRY \<and> hash_ok (rec_signal r) \<and>
     rec_event s = EVENT_REGION_EXIT \<and> rec_signal s = rec_signal r \<and> balanced rs"

definition not_later :: "geopm_time_s \<Rightarrow> geopm_time_s \<Rightarrow> bool" where
  "not_later a b \<longleftrightarrow> \<not> geopm_time_comp b a"

definition well_formed :: "record_s list \<Rightarrow> bool" where
  "well_formed rs \<longleftrightarrow>
     (\<forall>r \<in> set rs. rec_process r = rec_process (hd rs)) \<and>
     sorted_wrt not_later (map rec_time rs) \<and>
     map rec_signal (filter is_epoch rs) = map of_nat [1..<Suc (length (filter is_epoch rs))] \<and>
     balanced (filter is_border rs)"

text \<open>The same for a stream that continues one whose last check left a given state.\<close>

definition balanced_from :: "64 word \<Rightarrow> record_s list \<Rightarrow> bool" where
  "balanced_from h rs =
     (if h = GEOPM_REGION_HASH_INVALID then balanced rs
      else case rs of [] \<Rightarrow> True | r # rest \<Rightarrow> rec_event r = EVENT_REGION_EXIT \<and> rec_signal r = h \<and> balanced rest)"

definition follows :: "validate_record \<Rightarrow> record_s list \<Rightarrow> bool" where
  "follows v rs \<longleftrightarrow>
     (\<forall>r \<in> set rs. rec_process r = v_process v) \<and>
     sorted_wrt not_later (v_time v # map rec_time rs) \<and>
     map rec_signal (filter is_epoch rs) = map (\<lambda>k. v_epoch_count v + 1 + of_nat k) [0..<length (filter is_epoch rs)] \<and>
     balanced_from (v_region_hash v) (filter is_border rs)"

lemma not_later_simps: "not_later a b \<longleftrightarrow> tv_sec a < tv_sec b \<or> tv_sec a = tv_sec b \<and> tv_nsec a \<le> tv_nsec b"
  by (auto simp: not_later_def geopm_time_comp_def)

lemma transp_not_later: "transp not_later"
  by (auto simp: transp_def not_later_simps)

lemma sorted_not_later_Cons2:
  "sorted_wrt not_later (a # b # ts) \<longleftrightarrow> not_later a b \<and> sorted_wrt not_later (b # ts)"
  using transp_not_later by (auto simp: transp_def)

lemma balanced_from_entry:
  "rec_event r = EVENT_REGION_ENTRY \<Longrightarrow>
   balanced_from h (r # rs) \<longleftrightarrow> h = GEOPM_REGION_HASH_INVALID \<and> hash_ok (rec_signal r) \<and> balanced_from (rec_signal r) rs"
  by (cases rs) (auto simp: balanced_from_def hash_ok_def)

lemma balanced_from_exit:
  "rec_event r = EVENT_REGION_EXIT \<Longrightarrow> h = GEOPM_REGION_HASH_INVALID \<or> hash_ok h \<Longrightarrow>
   balanced_from h (r # rs) \<longleftrightarrow> h \<noteq> GEOPM_REGION_HASH_INVALID \<and> rec_signal r = h \<and> balanced_from GEOPM_REGION_HASH_INVALID rs"
  by (cases rs) (auto simp: balanced_from_def hash_ok_def)

lemma upt_shift_map: "map f [0..<Suc n] = f 0 # map (\<lambda>k. f (Suc k)) [0..<n]"
  by (simp add: map_upt_Suc del: upt_Suc)

definition v_ok :: "validate_record \<Rightarrow> bool" where
  "v_ok v \<longleftrightarrow> \<not> v_is_empty v \<and> time_ok (v_time v) \<and> (v_region_hash v = GEOPM_REGION_HASH_INVALID \<or> hash_ok (v_region_hash v))"

lemma check_follows:
  assumes "v_ok v" "time_ok (rec_time r)"
  shows "(\<forall>v'. check r v = (Inr (), v') \<longrightarrow> v_ok v' \<and> (follows v (r # rs) \<longleftrightarrow> follows v' rs)) \<and>
         ((\<nexists>v'. check r v = (Inr (), v')) \<longrightarrow> \<not> follows v (r # rs))"
proof -
  have diff: "dlt (geopm_time_diff (v_time v) (rec_time r)) (Fin 0) \<longleftrightarrow> \<not> not_later (v_time v) (rec_time r)"
    using assms by (simp add: time_diff_negative v_ok_def not_later_def)
  let ?u = "v\<lparr>v_time := rec_time r\<rparr>"
  have step: "check r v = (if rec_process r \<noteq> v_process v then (Inl invalid, v)
      else if \<not> not_later (v_time v) (rec_time r) then (Inl invalid, v) else check_event r ?u)"
    using assms(1) diff by (simp add: check_def act_simps v_ok_def)
  show ?thesis
  proof (cases "rec_process r = v_process v \<and> not_later (v_time v) (rec_time r)")
    case False
    then show ?thesis using step by (auto simp: follows_def)
  next
    case True
    then have run: "check r v = check_event r ?u" using step by simp
    consider "rec_event r = 0" | "rec_event r = 1" | "rec_event r = 2" | "rec_event r \<notin> {0, 1, 2}" by blast
    then show ?thesis
    proof cases
      case 1
      then show ?thesis
        unfolding run using True assms
        by (auto simp: check_event_def validate_entry_def validate_hash_def act_simps follows_def v_ok_def
            sorted_not_later_Cons2 balanced_from_entry hash_ok_def not_less simp del: sorted_wrt.simps)
    next
      case 2
      then show ?thesis
        unfolding run using True assms
        by (auto simp: check_event_def validate_exit_def validate_hash_def act_simps follows_def v_ok_def
            sorted_not_later_Cons2 balanced_from_exit hash_ok_def not_less simp del: sorted_wrt.simps)
    next
      case 3
      then show ?thesis
        unfolding run using True assms
        by (auto simp: check_event_def validate_epoch_def act_simps follows_def v_ok_def upt_shift_map
            sorted_not_later_Cons2 add.assoc simp del: sorted_wrt.simps upt_Suc)
    next
      case 4
      then show ?thesis
        unfolding run using True assms
        by (auto simp: check_event_def act_simps follows_def v_ok_def sorted_not_later_Cons2 simp del: sorted_wrt.simps)
    qed
  qed
qed

lemma for_each_check:
  assumes "v_ok v" "\<forall>r \<in> set rs. time_ok (rec_time r)"
  shows "(\<exists>v'. for_each check rs v = (Inr (), v')) \<longleftrightarrow> follows v rs"
  using assms
proof (induction rs arbitrary: v)
  case Nil
  then show ?case by (simp add: follows_def balanced_from_def)
next
  case (Cons r rs)
  have r: "time_ok (rec_time r)" using Cons.prems(2) by simp
  note step = check_follows[OF Cons.prems(1) r, of rs]
  show ?case
  proof (cases "\<exists>v'. check r v = (Inr (), v')")
    case True
    then obtain v' where v': "check r v = (Inr (), v')" by blast
    then show ?thesis using step Cons.IH[of v'] Cons.prems(2) by (simp add: bind_def)
  next
    case False
    then have "(\<exists>v'. for_each check (r # rs) v = (Inr (), v')) = False" by (auto simp: bind_cases)
    with False step show ?thesis by simp
  qed
qed

definition validate_first :: "record_s \<Rightarrow> validate_record" where
  "validate_first r = \<lparr>v_is_empty = False, v_time = rec_time r, v_process = rec_process r,
     v_epoch_count = 0, v_region_hash = GEOPM_REGION_HASH_INVALID\<rparr>"

lemma check_new: "for_each check (r # rs) validate_new = for_each check (r # rs) (validate_first r)"
proof -
  have "check r validate_new = check r (validate_first r)"
    by (simp add: check_def validate_new_def validate_first_def act_simps)
  then show ?thesis by (simp add: bind_def)
qed

lemma map_from_1: "map (\<lambda>k. 0 + 1 + of_nat k) [0..<n] = map of_nat [1..<Suc n]"
  by (simp add: map_Suc_upt[symmetric] comp_def del: upt_Suc)

lemma follows_first: "follows (validate_first r) (r # rs) \<longleftrightarrow> well_formed (r # rs)"
proof -
  have "not_later (rec_time r) (rec_time r)" by (simp add: not_later_simps)
  moreover have "v_epoch_count (validate_first r) = 0" by (simp add: validate_first_def)
  ultimately show ?thesis
    unfolding follows_def well_formed_def map_from_1[symmetric]
    by (auto simp: validate_first_def balanced_from_def sorted_not_later_Cons2 simp del: sorted_wrt.simps upt_Suc)
qed

lemma accepted_iff:
  assumes "\<forall>r \<in> set rs. time_ok (rec_time r)"
  shows "(\<exists>v. for_each check rs validate_new = (Inr (), v)) \<longleftrightarrow> well_formed rs"
proof (cases rs)
  case Nil
  then show ?thesis by (simp add: well_formed_def)
next
  case (Cons r rest)
  then have "v_ok (validate_first r)" using assms by (simp add: v_ok_def validate_first_def)
  then show ?thesis
    using for_each_check[of "validate_first r" rs] assms check_new[of r rest] follows_first[of r rest] Cons by simp
qed

text \<open>
  C28: The validator accepts exactly the streams it documents: one process, time stamps that never
  decrease, epochs that count 1, 2, 3 and so on, and region entries and exits that alternate with
  matching hashes, which are not zero and fit in 32 bits. That a difference of time stamps computed
  in double precision is negative exactly when the stamps are out of order is part of the proof.
\<close>

theorem validate_iff:
  assumes "\<forall>r \<in> set rs. time_ok (rec_time r)"
  shows "(\<exists>v. for_each check rs validate_new = (Inr (), v)) \<longleftrightarrow> well_formed rs"
  by (rule accepted_iff[OF assms])

definition demo_record :: "int \<Rightarrow> int \<Rightarrow> 64 word \<Rightarrow> record_s" where
  "demo_record t e h = \<lparr>rec_time = \<lparr>tv_sec = t, tv_nsec = 5\<rparr>, rec_process = 9, rec_event = e, rec_signal = h\<rparr>"

lemmas demo_record_sel = demo_record_def record_s.simps geopm_time_s.simps

theorem validate_iff_witness:
  "(\<exists>v. for_each check [demo_record 1 0 7, demo_record 2 2 1, demo_record 2 1 7, demo_record 4 2 2] validate_new = (Inr (), v)) \<and>
   \<not> (\<exists>v. for_each check [demo_record 1 0 7, demo_record 2 1 8] validate_new = (Inr (), v))"
proof -
  have "well_formed [demo_record 1 0 7, demo_record 2 2 1, demo_record 2 1 7, demo_record 4 2 2]"
    by (simp add: well_formed_def demo_record_sel not_later_simps hash_ok_def upt_rec word_le_def)
  moreover have "\<not> well_formed [demo_record 1 0 7, demo_record 2 1 8]"
    by (simp add: well_formed_def demo_record_sel)
  ultimately show ?thesis
    using validate_iff[of "[demo_record 1 0 7, demo_record 2 2 1, demo_record 2 1 7, demo_record 4 2 2]"]
      validate_iff[of "[demo_record 1 0 7, demo_record 2 1 8]"]
    by (simp add: demo_record_sel time_ok_def)
qed

section \<open>The interface of a filter\<close>

lemma borders_not_epochs: "filter is_border (filter (\<lambda>r. \<not> is_epoch r) xs) = filter is_border xs"
  by (simp, rule filter_cong) auto


text \<open>
  \<open>epochs f\<close> is the number of epochs the filter has inferred. A step that returns passes its record
  on, unless it is an epoch, and may add one epoch after a region entry.
\<close>

locale epoch_filter =
  fixes step :: "record_s \<Rightarrow> ('f, record_s list) action"
    and epochs :: "'f \<Rightarrow> int"
    and inv :: "'f \<Rightarrow> bool"
  assumes step_cases: "inv f \<Longrightarrow> step r f = (Inr out, g) \<Longrightarrow>
      inv g \<and> (epochs g = epochs f \<and> out = (if is_epoch r then [] else [r]) \<or>
        epochs g = epochs f + 1 \<and> rec_event r = EVENT_REGION_ENTRY \<and>
        out = [r, r\<lparr>rec_event := EVENT_EPOCH_COUNT, rec_signal := word_of_int (epochs f + 1)\<rparr>])"
begin

lemma run_cases:
  assumes "inv f" "map_action step (r # rs) f = (Inr outs, g)"
  obtains out u rest where "step r f = (Inr out, u)" "map_action step rs u = (Inr rest, g)" "outs = out # rest" "inv u"
  using assms step_cases[OF assms(1)] by (fastforce simp: bind_cases ret_def)

lemma passes_through:
  "inv f \<Longrightarrow> map_action step rs f = (Inr outs, g) \<Longrightarrow>
   filter (\<lambda>r. \<not> is_epoch r) (concat outs) = filter (\<lambda>r. \<not> is_epoch r) rs"
proof (induction rs arbitrary: f outs)
  case (Cons r rs)
  from Cons.prems obtain out u rest where s: "step r f = (Inr out, u)" "map_action step rs u = (Inr rest, g)"
      "outs = out # rest" "inv u" by (rule run_cases)
  then show ?case using Cons.IH[OF s(4,2)] step_cases[OF Cons.prems(1) s(1)] by auto
qed simp

lemma epochs_count:
  "inv f \<Longrightarrow> map_action step rs f = (Inr outs, g) \<Longrightarrow>
   epochs g = epochs f + int (length (filter is_epoch (concat outs))) \<and>
   map rec_signal (filter is_epoch (concat outs)) =
     map (\<lambda>k. word_of_int (epochs f + 1 + int k)) [0..<length (filter is_epoch (concat outs))]"
proof (induction rs arbitrary: f outs)
  case (Cons r rs)
  from Cons.prems obtain out u rest where s: "step r f = (Inr out, u)" "map_action step rs u = (Inr rest, g)"
      "outs = out # rest" "inv u" by (rule run_cases)
  then show ?case
    using Cons.IH[OF s(4,2)] step_cases[OF Cons.prems(1) s(1)]
    by (auto simp: upt_shift_map add_ac simp del: upt_Suc)
qed simp

lemma out_records:
  "inv f \<Longrightarrow> map_action step rs f = (Inr outs, g) \<Longrightarrow> x \<in> set (concat outs) \<Longrightarrow>
   \<exists>r \<in> set rs. \<not> is_epoch r \<and> rec_process x = rec_process r \<and> rec_time x = rec_time r"
proof (induction rs arbitrary: f outs)
  case (Cons r rs)
  from Cons.prems(1,2) obtain out u rest where s: "step r f = (Inr out, u)" "map_action step rs u = (Inr rest, g)"
      "outs = out # rest" "inv u" by (rule run_cases)
  show ?case
  proof (cases "x \<in> set (concat rest)")
    case True
    then show ?thesis using Cons.IH[OF s(4,2)] by auto
  next
    case False
    then have "x \<in> set out" using Cons.prems(3) s(3) by simp
    then show ?thesis using step_cases[OF Cons.prems(1) s(1)] by (auto split: if_splits)
  qed
qed simp

lemma out_sorted:
  "inv f \<Longrightarrow> map_action step rs f = (Inr outs, g) \<Longrightarrow>
   sorted_wrt not_later (t # map rec_time (filter (\<lambda>r. \<not> is_epoch r) rs)) \<Longrightarrow>
   sorted_wrt not_later (t # map rec_time (concat outs))"
proof (induction rs arbitrary: f outs t)
  case (Cons r rs)
  from Cons.prems(1,2) obtain out u rest where s: "step r f = (Inr out, u)" "map_action step rs u = (Inr rest, g)"
      "outs = out # rest" "inv u" by (rule run_cases)
  show ?case
  proof (cases "is_epoch r")
    case True
    then show ?thesis
      using Cons.IH[OF s(4,2)] Cons.prems(3) step_cases[OF Cons.prems(1) s(1)] s(3) by auto
  next
    case False
    then have "not_later t (rec_time r)" "sorted_wrt not_later (rec_time r # map rec_time (filter (\<lambda>r. \<not> is_epoch r) rs))"
      using Cons.prems(3) by simp_all
    moreover have "not_later (rec_time r) (rec_time r)" by (simp add: not_later_simps)
    ultimately show ?thesis
      using Cons.IH[OF s(4,2), of "rec_time r"] step_cases[OF Cons.prems(1) s(1)] s(3) False
      by (auto simp: sorted_not_later_Cons2 simp del: sorted_wrt.simps)
  qed
qed simp

lemma out_well_formed:
  assumes "inv f" "epochs f = 0" "map_action step rs f = (Inr outs, g)" "well_formed (filter (\<lambda>r. \<not> is_epoch r) rs)"
  shows "well_formed (concat outs)"
proof -
  let ?rs = "filter (\<lambda>r. \<not> is_epoch r) rs"
  have procs: "(\<forall>x \<in> set xs. rec_process x = rec_process (hd xs)) \<longleftrightarrow> (\<exists>p. \<forall>x \<in> set xs. rec_process x = p)" for xs
    by (cases xs) auto
  obtain p where "\<forall>x \<in> set ?rs. rec_process x = p" using assms(4) unfolding well_formed_def procs by blast
  then have "\<forall>x \<in> set (concat outs). rec_process x = p" using out_records[OF assms(1,3)] by force
  moreover have "sorted_wrt not_later (map rec_time (concat outs))"
  proof (cases "map rec_time ?rs")
    case Nil
    then have "\<forall>r \<in> set rs. is_epoch r" by (simp add: filter_empty_conv)
    then have "x \<notin> set (concat outs)" for x using out_records[OF assms(1,3), of x] by blast
    then have "concat outs = []" by (metis hd_in_set)
    then show ?thesis by (simp only: list.map sorted_wrt.simps)
  next
    case (Cons t ts)
    then have "sorted_wrt not_later (t # map rec_time ?rs)"
      using assms(4) by (simp add: well_formed_def not_later_simps)
    from out_sorted[OF assms(1,3) this] show ?thesis by simp
  qed
  moreover have "map rec_signal (filter is_epoch (concat outs)) = map of_nat [1..<Suc (length (filter is_epoch (concat outs)))]"
    using epochs_count[OF assms(1,3)] assms(2)
    by (simp add: map_Suc_upt[symmetric] comp_def del: upt_Suc)
  moreover have "filter is_border (concat outs) = filter is_border ?rs"
    using borders_not_epochs[of "concat outs"] passes_through[OF assms(1,3)] by argo
  ultimately show ?thesis
    using assms(4) unfolding well_formed_def procs by auto
qed

end

section \<open>Both filters implement it\<close>

definition proxy_epochs :: "proxy_filter \<Rightarrow> int" where
  "proxy_epochs f = (if pf_count f \<le> 0 then 0 else (pf_count f - 1) div pf_num_per_epoch f + 1)"

fun filter_epochs :: "record_filter \<Rightarrow> int" where
  "filter_epochs (Proxy_epoch f) = proxy_epochs f"
| "filter_epochs (Edit_distance f) = ef_epoch_count f"

fun filter_inv :: "record_filter \<Rightarrow> bool" where
  "filter_inv (Proxy_epoch f) \<longleftrightarrow> 0 < pf_num_per_epoch f"
| "filter_inv (Edit_distance f) \<longleftrightarrow> True"

lemma div_pred:
  fixes c n :: int
  assumes "0 < n" "0 < c"
  shows "(c - 1) div n = (if c mod n = 0 then c div n - 1 else c div n)"
proof -
  have m: "0 \<le> c mod n" "c mod n < n" using assms by simp_all
  have c: "c = n * (c div n) + c mod n" by simp
  show ?thesis
  proof (cases "c mod n = 0")
    case True
    have "(c - 1) div n = c div n - 1"
      by (rule int_div_pos_eq[of _ _ _ "n - 1"]) (use c True assms(1) in \<open>simp_all add: algebra_simps\<close>)
    with True show ?thesis by simp
  next
    case False
    have "(c - 1) div n = c div n"
      by (rule int_div_pos_eq[of _ _ _ "c mod n - 1"]) (use c False m in \<open>simp_all\<close>)
    with False show ?thesis by simp
  qed
qed

lemma proxy_step_cases:
  assumes inv: "0 < pf_num_per_epoch f" and run: "proxy_step r f = (Inr out, g)"
  shows "0 < pf_num_per_epoch g \<and> (proxy_epochs g = proxy_epochs f \<and> out = (if is_epoch r then [] else [r]) \<or>
        proxy_epochs g = proxy_epochs f + 1 \<and> rec_event r = EVENT_REGION_ENTRY \<and>
        out = [r, r\<lparr>rec_event := EVENT_EPOCH_COUNT, rec_signal := word_of_int (proxy_epochs f + 1)\<rparr>])"
proof (cases "rec_event r = EVENT_REGION_ENTRY \<and> rec_signal r = pf_proxy_hash f")
  case False
  then show ?thesis using run inv by (auto simp: proxy_step_def act_simps split: if_splits)
next
  case True
  let ?c = "pf_count f" and ?n = "pf_num_per_epoch f"
  have g: "g = f\<lparr>pf_count := ?c + 1\<rparr>"
    and out: "out = (if 0 \<le> ?c \<and> ?c mod ?n = 0
       then [r, r\<lparr>rec_event := EVENT_EPOCH_COUNT, rec_signal := word_of_int (1 + ?c div ?n)\<rparr>] else [r])"
    using run True
    by (auto simp: proxy_step_def proxy_epoch_event_def int_result_def act_simps bind_def split: if_splits)
  show ?thesis
  proof (cases "0 < ?c")
    case True
    then show ?thesis
      using inv \<open>rec_event r = 0 \<and> rec_signal r = pf_proxy_hash f\<close> div_pred[OF inv True]
      by (auto simp: g out proxy_epochs_def add.commute)
  next
    case False
    then show ?thesis
      using inv \<open>rec_event r = 0 \<and> rec_signal r = pf_proxy_hash f\<close>
      by (cases "?c = 0") (auto simp: g out proxy_epochs_def)
  qed
qed

interpretation pf: epoch_filter proxy_step proxy_epochs "\<lambda>f. 0 < pf_num_per_epoch f"
  by unfold_locales (rule proxy_step_cases)

lemma track_candidate_epochs [simp]: "ef_epoch_count (track_candidate f) = ef_epoch_count f"
  by (simp add: track_candidate_def Let_def)

lemma epoch_detected_count:
  "epoch_detected f = (r, g) \<Longrightarrow> ef_epoch_count g = ef_epoch_count f"
  unfolding epoch_detected_def
  by (auto simp: act_simps bind_cases split: if_splits sum.splits prod.splits)

lemma edit_step_cases:
  assumes run: "edit_step r f = (Inr out, g)"
  shows "ef_epoch_count g = ef_epoch_count f \<and> out = (if is_epoch r then [] else [r]) \<or>
        ef_epoch_count g = ef_epoch_count f + 1 \<and> rec_event r = EVENT_REGION_ENTRY \<and>
        out = [r, r\<lparr>rec_event := EVENT_EPOCH_COUNT, rec_signal := word_of_int (ef_epoch_count f + 1)\<rparr>]"
proof (cases "rec_event r = EVENT_REGION_ENTRY")
  case False
  then show ?thesis using run by (auto simp: edit_step_def act_simps split: if_splits)
next
  case True
  then obtain d where d: "detector_update r (ef_edpd f) = Inr d"
    using run by (auto simp: edit_step_def act_simps split: sum.splits)
  obtain q u where u: "epoch_detected (f\<lparr>ef_edpd := d\<rparr>) = (q, u)" by fastforce
  have "ef_epoch_count u = ef_epoch_count f" using epoch_detected_count[OF u] by simp
  then show ?thesis
    using run True d
    by (auto simp: edit_step_def act_simps bind_def u int_result_def split: sum.splits if_splits)
qed

interpretation ef: epoch_filter edit_step ef_epoch_count "\<lambda>_. True"
  by unfold_locales (use edit_step_cases in blast)

interpretation rf: epoch_filter filter_record filter_epochs filter_inv
proof
  fix f r out g
  assume "filter_inv f" "filter_record r f = (Inr out, g)"
  then show "filter_inv g \<and> (filter_epochs g = filter_epochs f \<and> out = (if is_epoch r then [] else [r]) \<or>
        filter_epochs g = filter_epochs f + 1 \<and> rec_event r = EVENT_REGION_ENTRY \<and>
        out = [r, r\<lparr>rec_event := EVENT_EPOCH_COUNT, rec_signal := word_of_int (filter_epochs f + 1)\<rparr>])"
  proof (cases f)
    case (Proxy_epoch p)
    with \<open>filter_record r f = (Inr out, g)\<close> obtain q where "proxy_step r p = (Inr out, q)" "g = Proxy_epoch q"
      by (auto split: prod.splits)
    with Proxy_epoch \<open>filter_inv f\<close> show ?thesis using pf.step_cases[of p r out q] by simp
  next
    case (Edit_distance p)
    with \<open>filter_record r f = (Inr out, g)\<close> obtain q where "edit_step r p = (Inr out, q)" "g = Edit_distance q"
      by (auto split: prod.splits)
    with Edit_distance show ?thesis using edit_step_cases[of r p out q] by simp
  qed
qed

lemma make_filter_inv: "make_filter crc32_str stod name = Inr f \<Longrightarrow> filter_inv f \<and> filter_epochs f = 0"
  by (auto simp: make_filter_def proxy_of_name_def proxy_new_def edit_of_name_def edit_new_def and_then_eq_Inr
      int_result_def proxy_epochs_def split: if_splits prod.splits)

text \<open>
  C29: What \<^verbatim>\<open>ApplicationSampler::update()\<close> relies on when it checks the records after the filter:
  for a filter made from any name, as long as it does not throw, the records that are not epochs
  come out unchanged and in order, the epochs that come out are numbered 1, 2, 3 and so on, and if
  the input without its epochs is a valid stream, the validator accepts the output.
\<close>

theorem filtered_stream_valid:
  assumes "make_filter crc32_str stod name = Inr f" "map_action filter_record rs f = (Inr outs, g)"
    and "\<forall>r \<in> set rs. time_ok (rec_time r)"
  shows "filter (\<lambda>r. \<not> is_epoch r) (concat outs) = filter (\<lambda>r. \<not> is_epoch r) rs \<and>
    map rec_signal (filter is_epoch (concat outs)) = map of_nat [1..<Suc (length (filter is_epoch (concat outs)))] \<and>
    ((\<exists>v. for_each check (filter (\<lambda>r. \<not> is_epoch r) rs) validate_new = (Inr (), v)) \<longrightarrow>
     (\<exists>v. for_each check (concat outs) validate_new = (Inr (), v)))"
proof (intro conjI impI)
  have inv: "filter_inv f" "filter_epochs f = 0" using make_filter_inv[OF assms(1)] by simp_all
  show "filter (\<lambda>r. \<not> is_epoch r) (concat outs) = filter (\<lambda>r. \<not> is_epoch r) rs"
    by (rule rf.passes_through[OF inv(1) assms(2)])
  show "map rec_signal (filter is_epoch (concat outs)) = map of_nat [1..<Suc (length (filter is_epoch (concat outs)))]"
    using rf.epochs_count[OF inv(1) assms(2)] inv(2) by (simp add: map_Suc_upt[symmetric] comp_def del: upt_Suc)
  have times: "\<forall>r \<in> set (concat outs). time_ok (rec_time r)"
    using rf.out_records[OF inv(1) assms(2)] assms(3) by metis
  assume "\<exists>v. for_each check (filter (\<lambda>r. \<not> is_epoch r) rs) validate_new = (Inr (), v)"
  then have "well_formed (filter (\<lambda>r. \<not> is_epoch r) rs)"
    using accepted_iff[of "filter (\<lambda>r. \<not> is_epoch r) rs"] assms(3) by simp
  from rf.out_well_formed[OF inv assms(2) this] show "\<exists>v. for_each check (concat outs) validate_new = (Inr (), v)"
    using accepted_iff[OF times] by blast
qed

theorem filtered_stream_valid_witness:
  "\<exists>f g. make_filter (\<lambda>_. 0) (\<lambda>_. Inl invalid) ''proxy_epoch,7'' = Inr f \<and>
     map_action filter_record [demo_record 1 0 7, demo_record 2 1 7, demo_record 2 2 5] f =
       (Inr [[demo_record 1 0 7, demo_record 1 2 1], [demo_record 2 1 7], []], g) \<and>
     (\<exists>v. for_each check [demo_record 1 0 7, demo_record 1 2 1, demo_record 2 1 7] validate_new = (Inr (), v))"
proof -
  let ?f = "Proxy_epoch \<lparr>pf_proxy_hash = 7, pf_num_per_epoch = 1, pf_count = 0\<rparr>"
  let ?g = "Proxy_epoch \<lparr>pf_proxy_hash = 7, pf_num_per_epoch = 1, pf_count = 1\<rparr>"
  have pre: "string_begins_with ''proxy_epoch,7'' ''proxy_epoch''" by (simp add: string_begins_with_iff)
  have f: "make_filter (\<lambda>_. 0) (\<lambda>_. Inl invalid) ''proxy_epoch,7'' = Inr ?f"
    using string_split_join[of "[''proxy_epoch'', ''7'']" "CHR '',''"] pre
    by (simp add: make_filter_def proxy_of_name_def proxy_parse_name_def proxy_new_def stoull_def
        digits_of_def strip_sign_def is_space_def is_digit_def hex_value_def hex_digit_value_def catch_std_def int_result_def
        INT_MIN_def INT_MAX_def word_le_def word_less_def)
  have run: "map_action filter_record [demo_record 1 0 7, demo_record 2 1 7, demo_record 2 2 5] ?f =
       (Inr [[demo_record 1 0 7, demo_record 1 2 1], [demo_record 2 1 7], []], ?g)"
    by (simp add: bind_def act_simps proxy_step_def proxy_epoch_event_def int_result_def INT_MAX_def INT_MIN_def demo_record_sel)
  have "well_formed [demo_record 1 0 7, demo_record 2 1 7]"
    by (simp add: well_formed_def demo_record_sel not_later_simps hash_ok_def word_le_def)
  then have "\<exists>v. for_each check [demo_record 1 0 7, demo_record 2 1 7] validate_new = (Inr (), v)"
    using accepted_iff[of "[demo_record 1 0 7, demo_record 2 1 7]"] by (simp add: demo_record_sel time_ok_def)
  then show ?thesis
    using filtered_stream_valid[OF f run] f run by (simp add: demo_record_sel time_ok_def)
qed

section \<open>The proxy filter keeps counting\<close>

abbreviation is_proxy_entry :: "64 word \<Rightarrow> record_s \<Rightarrow> bool" where
  "is_proxy_entry hash r \<equiv> rec_event r = EVENT_REGION_ENTRY \<and> rec_signal r = hash"

lemma proxy_step_returns:
  assumes "0 < pf_num_per_epoch f" "INT_MIN \<le> pf_count f"
    and "pf_count f + (if is_proxy_entry (pf_proxy_hash f) r then 1 else 0) \<le> INT_MAX"
  shows "\<exists>out. proxy_step r f = (Inr out, f\<lparr>pf_count := pf_count f + (if is_proxy_entry (pf_proxy_hash f) r then 1 else 0)\<rparr>)"
proof -
  have "0 \<le> pf_count f \<Longrightarrow> 0 \<le> pf_count f div pf_num_per_epoch f \<and> pf_count f div pf_num_per_epoch f \<le> pf_count f"
    using assms(1) by (simp add: pos_imp_zdiv_nonneg_iff) (metis div_by_1 int_one_le_iff_zero_less zdiv_mono2 zero_less_one)
  then show ?thesis
    using assms by (auto simp: proxy_step_def proxy_epoch_event_def int_result_def act_simps bind_def INT_MIN_def)
qed

lemma proxy_run_returns:
  assumes "0 < pf_num_per_epoch f" "INT_MIN \<le> pf_count f"
    and "pf_count f + int (length (filter (is_proxy_entry (pf_proxy_hash f)) rs)) \<le> INT_MAX"
  shows "\<exists>outs. map_action proxy_step rs f =
    (Inr outs, f\<lparr>pf_count := pf_count f + int (length (filter (is_proxy_entry (pf_proxy_hash f)) rs))\<rparr>)"
  using assms
proof (induction rs arbitrary: f)
  case (Cons r rs)
  let ?k = "if is_proxy_entry (pf_proxy_hash f) r then 1 else 0 :: int" and ?f = "\<lambda>k. f\<lparr>pf_count := pf_count f + k\<rparr>"
  have len: "int (length (filter (is_proxy_entry (pf_proxy_hash f)) (r # rs))) =
      ?k + int (length (filter (is_proxy_entry (pf_proxy_hash f)) rs))" by simp
  have "pf_count f + ?k \<le> INT_MAX" using Cons.prems(3) unfolding len by linarith
  then obtain out where "proxy_step r f = (Inr out, ?f ?k)" using proxy_step_returns[OF Cons.prems(1,2)] by blast
  moreover have "INT_MIN \<le> pf_count f + ?k" using Cons.prems(2) by simp
  then obtain outs where "map_action proxy_step rs (?f ?k) =
      (Inr outs, ?f (?k + int (length (filter (is_proxy_entry (pf_proxy_hash f)) rs))))"
    using Cons.IH[of "?f ?k"] Cons.prems(1,3) unfolding len by (simp add: add.assoc del: filter.simps) blast
  ultimately show ?case unfolding len by (simp add: bind_def act_simps)
qed simp

text \<open>
  C30: The proxy filter never stops inferring epochs. It returns on every stream, until the number
  of entries into the proxy region passes 2^31; and after m entries, whatever else is in the
  stream, it has emitted exactly the epochs 1, 2, up to the number of complete or started groups of
  calls_per_epoch entries that follow the startup_count entries which are to be ignored.
\<close>

theorem proxy_emits_epochs:
  assumes "proxy_new hash calls_per_epoch startup_count = Inr f"
    and "m = int (length (filter (is_proxy_entry hash) rs))" "m - startup_count \<le> INT_MAX"
  shows "\<exists>outs g. map_action proxy_step rs f = (Inr outs, g) \<and>
    map rec_signal (filter is_epoch (concat outs)) = map of_nat
      [1..<Suc (if m \<le> startup_count then 0 else nat ((m - startup_count - 1) div calls_per_epoch + 1))]"
proof -
  have f: "f = \<lparr>pf_proxy_hash = hash, pf_num_per_epoch = calls_per_epoch, pf_count = - startup_count\<rparr>"
      "0 < calls_per_epoch" "INT_MIN \<le> - startup_count" "0 \<le> startup_count"
    using assms(1) by (auto simp: proxy_new_def int_result_def split: if_splits)
  have sel: "pf_num_per_epoch f = calls_per_epoch" "pf_count f = - startup_count" "pf_proxy_hash f = hash"
    by (simp_all add: f(1))
  have "\<exists>outs. map_action proxy_step rs f = (Inr outs, f\<lparr>pf_count := - startup_count + m\<rparr>)"
    using proxy_run_returns[of f rs] f(2,3) assms(3) unfolding sel assms(2) by simp
  then obtain outs where run: "map_action proxy_step rs f = (Inr outs, f\<lparr>pf_count := - startup_count + m\<rparr>)" by blast
  let ?n = "length (filter is_epoch (concat outs))"
  have inv: "0 < pf_num_per_epoch f" and zero: "proxy_epochs f = 0" using f by (simp_all add: proxy_epochs_def)
  have count: "int ?n = (if m \<le> startup_count then 0 else (m - startup_count - 1) div calls_per_epoch + 1)"
    using conjunct1[OF pf.epochs_count[OF inv run]] zero f(1)
    by (cases "m \<le> startup_count") (simp_all add: proxy_epochs_def add.commute)
  have "map rec_signal (filter is_epoch (concat outs)) = map of_nat [1..<Suc ?n]"
    using pf.epochs_count[OF inv run] zero by (simp add: map_Suc_upt[symmetric] comp_def del: upt_Suc)
  moreover have "?n = nat (if m \<le> startup_count then 0 else (m - startup_count - 1) div calls_per_epoch + 1)"
    by (simp only: count[symmetric] nat_int)
  then have "?n = (if m \<le> startup_count then 0 else nat ((m - startup_count - 1) div calls_per_epoch + 1))"
    by (cases "m \<le> startup_count") (simp_all only: if_True if_False nat_0)
  ultimately show ?thesis using run by (intro exI conjI) (assumption, simp only:)
qed

theorem proxy_emits_epochs_witness:
  "\<exists>f outs g. proxy_new 7 2 1 = Inr f \<and>
     map_action proxy_step [demo_record 1 0 7, demo_record 2 0 7, demo_record 3 0 8, demo_record 4 0 7, demo_record 5 0 7] f = (Inr outs, g) \<and>
     map rec_signal (filter is_epoch (concat outs)) = [1, 2]"
proof -
  obtain f where f: "proxy_new 7 2 1 = Inr f" by (simp add: proxy_new_def int_result_def INT_MAX_def INT_MIN_def word_less_def)
  show ?thesis
    using proxy_emits_epochs[OF f, of 4 "[demo_record 1 0 7, demo_record 2 0 7, demo_record 3 0 8, demo_record 4 0 7, demo_record 5 0 7]"] f
    by (auto simp: demo_record_sel INT_MAX_def upt_rec)
qed

end
