(* ===== verification/Edit_Distance.thy ===== *)
theory Edit_Distance
  imports Record_Filters
begin

text \<open>
  What the periodicity detector computes. \<open>distance\<close> is the edit distance in which an insertion
  and a deletion cost one and a replacement two; \<open>best_match hs m\<close> is the distance between the
  records from \<open>m\<close> on and the closest run of records that ends where they begin. While the history
  has not been truncated, the table of \<^verbatim>\<open>EditDistPeriodicityDetector::calc_period()\<close> holds exactly
  these distances, and the score and the period are those of the best split of the history.
\<close>

section \<open>Reference definitions\<close>

text \<open>The lists are consumed from the end, so the recursion is on the reversed lists.\<close>

fun rev_distance :: "'a list \<Rightarrow> 'a list \<Rightarrow> nat" where
  "rev_distance [] ys = length ys"
| "rev_distance (x # xs) [] = Suc (length xs)"
| "rev_distance (x # xs) (y # ys) =
     min (min (rev_distance xs (y # ys) + 1) (rev_distance (x # xs) ys + 1))
         (rev_distance xs ys + (if x = y then 0 else 2))"

definition distance :: "'a list \<Rightarrow> 'a list \<Rightarrow> nat" where
  "distance xs ys = rev_distance (rev xs) (rev ys)"

definition best_match :: "'a list \<Rightarrow> nat \<Rightarrow> nat" where
  "best_match hs m = Min ((\<lambda>k. distance (drop k (take m hs)) (drop m hs)) ` {..m})"

definition is_period :: "'a list \<Rightarrow> nat \<Rightarrow> bool" where
  "is_period xs p \<longleftrightarrow> 0 < p \<and> p dvd length xs \<and> xs = concat (replicate (length xs div p) (take p xs))"

text \<open>The recursion of the table: an empty second string costs nothing, wherever it is matched.\<close>

fun match_cost :: "'a list \<Rightarrow> 'a list \<Rightarrow> nat" where
  "match_cost xs [] = 0"
| "match_cost [] (y # ys) = Suc (length ys)"
| "match_cost (x # xs) (y # ys) =
     min (min (match_cost xs (y # ys) + 1) (match_cost (x # xs) ys + 1))
         (match_cost xs ys + (if x = y then 0 else 2))"

lemma rev_distance_Nil2 [simp]: "rev_distance xs [] = length xs"
  by (cases xs) simp_all

lemma match_cost_Nil1 [simp]: "match_cost [] ys = length ys"
  by (cases ys) simp_all

lemma match_cost_le_length: "match_cost xs ys \<le> length ys"
  by (induction xs ys rule: match_cost.induct) auto

lemma match_cost_le: "match_cost xs ys \<le> rev_distance (take k xs) ys"
proof (induction xs ys arbitrary: k rule: match_cost.induct)
  case (3 x xs y ys)
  show ?case
  proof (cases k)
    case 0
    then show ?thesis using match_cost_le_length[of "x # xs" "y # ys"] by simp
  next
    case (Suc j)
    then show ?thesis
      using "3.IH"(1)[of j] "3.IH"(2)[of k] "3.IH"(3)[of j] by auto
  qed
qed auto

lemma rev_distance_Cons2: "rev_distance xs (y # ys) \<le> rev_distance xs ys + 1"
  by (cases xs) auto

lemma rev_distance_Cons1: "rev_distance (x # xs) ys \<le> rev_distance xs ys + 1"
  by (cases ys) auto

lemma match_cost_attained: "\<exists>k \<le> length xs. rev_distance (take k xs) ys = match_cost xs ys"
proof (induction xs ys rule: match_cost.induct)
  case (1 xs)
  then show ?case by (intro exI[of _ 0]) simp
next
  case (2 y ys)
  then show ?case by simp
next
  case (3 x xs y ys)
  obtain k1 where k1: "k1 \<le> length xs" "rev_distance (take k1 xs) (y # ys) = match_cost xs (y # ys)" using "3.IH"(1) by blast
  obtain k2 where k2: "k2 \<le> length (x # xs)" "rev_distance (take k2 (x # xs)) ys = match_cost (x # xs) ys" using "3.IH"(2) by blast
  obtain k3 where k3: "k3 \<le> length xs" "rev_distance (take k3 xs) ys = match_cost xs ys" using "3.IH"(3) by blast
  have u1: "rev_distance (take (Suc k1) (x # xs)) (y # ys) \<le> match_cost xs (y # ys) + 1"
    using k1(2) rev_distance_Cons1[of x "take k1 xs" "y # ys"] by simp
  have u2: "rev_distance (take k2 (x # xs)) (y # ys) \<le> match_cost (x # xs) ys + 1"
    using k2(2) rev_distance_Cons2[of "take k2 (x # xs)" y ys] by simp
  have u3: "rev_distance (take (Suc k3) (x # xs)) (y # ys) \<le> match_cost xs ys + (if x = y then 0 else 2)"
    using k3(2) by (auto simp: min_def)
  have le: "match_cost (x # xs) (y # ys) \<le> rev_distance (take k (x # xs)) (y # ys)" for k by (rule match_cost_le)
  have "match_cost (x # xs) (y # ys) = match_cost xs (y # ys) + 1 \<or> match_cost (x # xs) (y # ys) = match_cost (x # xs) ys + 1 \<or>
        match_cost (x # xs) (y # ys) = match_cost xs ys + (if x = y then 0 else 2)"
    by (simp add: min_def)
  then show ?case
  proof (elim disjE)
    assume "match_cost (x # xs) (y # ys) = match_cost xs (y # ys) + 1"
    then have "rev_distance (take (Suc k1) (x # xs)) (y # ys) = match_cost (x # xs) (y # ys)"
      using u1 le[of "Suc k1"] by linarith
    then show ?thesis using k1(1) by (intro exI[of _ "Suc k1"] conjI) (simp, assumption)
  next
    assume "match_cost (x # xs) (y # ys) = match_cost (x # xs) ys + 1"
    then have "rev_distance (take (k2) (x # xs)) (y # ys) = match_cost (x # xs) (y # ys)"
      using u2 le[of k2] by linarith
    then show ?thesis using k2(1) by (intro exI[of _ k2] conjI) (simp, assumption)
  next
    assume "match_cost (x # xs) (y # ys) = match_cost xs ys + (if x = y then 0 else 2)"
    then have "rev_distance (take (Suc k3) (x # xs)) (y # ys) = match_cost (x # xs) (y # ys)"
      using u3 le[of "Suc k3"] by linarith
    then show ?thesis using k3(1) by (intro exI[of _ "Suc k3"] conjI) (simp, assumption)
  qed
qed

lemma match_cost_Min: "match_cost xs ys = Min ((\<lambda>k. rev_distance (take k xs) ys) ` {..length xs})"
proof (rule antisym)
  show "match_cost xs ys \<le> Min ((\<lambda>k. rev_distance (take k xs) ys) ` {..length xs})"
    using match_cost_le[of xs ys] by auto
  obtain k where "k \<le> length xs" "rev_distance (take k xs) ys = match_cost xs ys" using match_cost_attained by blast
  then show "Min ((\<lambda>k. rev_distance (take k xs) ys) ` {..length xs}) \<le> match_cost xs ys"
    by (intro Min_le) (simp, rule image_eqI[of _ _ k], simp_all)
qed

lemma best_match_cost:
  assumes "m \<le> length hs"
  shows "best_match hs m = match_cost (rev (take m hs)) (rev (drop m hs))"
proof -
  have "(\<lambda>k. distance (drop k (take m hs)) (drop m hs)) ` {..m} =
        (\<lambda>k. rev_distance (take k (rev (take m hs))) (rev (drop m hs))) ` {..m}" (is "?f ` _ = ?g ` _")
  proof -
    have "?f k = ?g (m - k)" if "k \<le> m" for k using that assms by (simp add: distance_def take_rev)
    then have "?f ` {..m} = (\<lambda>k. ?g (m - k)) ` {..m}" by (intro image_cong) (simp_all only: atMost_iff)
    also have "\<dots> = ?g ` ((\<lambda>k. m - k) ` {..m})" unfolding image_image ..
    also have "(\<lambda>k. m - k) ` {..m} = {..m}"
    proof
      show "{..m} \<subseteq> (\<lambda>k. m - k) ` {..m}"
      proof
        fix x assume "x \<in> {..m}"
        then show "x \<in> (\<lambda>k. m - k) ` {..m}" by (intro image_eqI[of _ _ "m - x"]) simp_all
      qed
    qed auto
    finally show ?thesis .
  qed
  then show ?thesis using assms unfolding best_match_def match_cost_Min by simp
qed

section \<open>The smallest repeating pattern\<close>

lemma concat_replicate_iff:
  assumes "0 < p" "length xs = k * p"
  shows "(\<forall>g. 1 \<le> g \<longrightarrow> g < k \<longrightarrow> take p (drop (p * g - p) xs) = take p (drop (p * g) xs)) \<longleftrightarrow>
         xs = concat (replicate k (take p xs))"
  using assms(2)
proof (induction k arbitrary: xs)
  case (Suc k)
  let ?ys = "drop p xs"
  have len: "length ?ys = k * p" using Suc.prems by simp
  have xs: "xs = take p xs @ ?ys" by simp
  show ?case
  proof (cases k)
    case 0
    then show ?thesis using Suc.prems by simp
  next
    case (Suc j)
    have pieces: "(\<forall>g. 1 \<le> g \<longrightarrow> g < Suc k \<longrightarrow> take p (drop (p * g - p) xs) = take p (drop (p * g) xs)) \<longleftrightarrow>
        take p xs = take p ?ys \<and> (\<forall>g. 1 \<le> g \<longrightarrow> g < k \<longrightarrow> take p (drop (p * g - p) ?ys) = take p (drop (p * g) ?ys))"
    proof (intro iffI conjI allI impI)
      assume all: "\<forall>g. 1 \<le> g \<longrightarrow> g < Suc k \<longrightarrow> take p (drop (p * g - p) xs) = take p (drop (p * g) xs)"
      show "take p xs = take p ?ys" using all[rule_format, of 1] Suc by simp
      fix g assume g: "1 \<le> g" "g < k"
      have e: "p * Suc g - p = p * g" "p * g - p + p = p * g" using g(1) by (simp, cases g, simp_all)
      show "take p (drop (p * g - p) ?ys) = take p (drop (p * g) ?ys)"
        using all[rule_format, of "Suc g"] g e by (simp add: add.commute)
    next
      fix g
      assume both: "take p xs = take p ?ys \<and> (\<forall>g. 1 \<le> g \<longrightarrow> g < k \<longrightarrow> take p (drop (p * g - p) ?ys) = take p (drop (p * g) ?ys))"
        and g: "1 \<le> g" "g < Suc k"
      show "take p (drop (p * g - p) xs) = take p (drop (p * g) xs)"
      proof (cases "g = 1")
        case True
        then show ?thesis using both by simp
      next
        case False
        then obtain h where h: "g = Suc h" "1 \<le> h" "h < k" using g by (cases g) auto
        then have e: "p * g - p = p * h" "p * h - p + p = p * h" by (simp, cases h, simp_all)
        have "take p (drop (p * h - p) ?ys) = take p (drop (p * h) ?ys)" using both h by blast
        then show ?thesis using e h(1) by (simp add: add.commute)
      qed
    qed
    have "(take p xs = take p ?ys \<and> ?ys = concat (replicate k (take p ?ys))) \<longleftrightarrow> xs = concat (replicate (Suc k) (take p xs))"
    proof
      assume "take p xs = take p ?ys \<and> ?ys = concat (replicate k (take p ?ys))"
      then have "?ys = concat (replicate k (take p xs))" by simp
      with xs show "xs = concat (replicate (Suc k) (take p xs))" by (metis concat.simps(2) replicate_Suc)
    next
      assume a: "xs = concat (replicate (Suc k) (take p xs))"
      then have "take p xs @ ?ys = take p xs @ concat (replicate k (take p xs))" using xs by (metis concat.simps(2) replicate_Suc)
      then have ys: "?ys = concat (replicate k (take p xs))" by (simp only: same_append_eq)
      then have "take p ?ys = take p (take p xs @ concat (replicate j (take p xs)))" using Suc by simp
      also have "\<dots> = take p xs" using Suc.prems by simp
      finally show "take p xs = take p ?ys \<and> ?ys = concat (replicate k (take p ?ys))" using ys by simp
    qed
    then show ?thesis using pieces Suc.IH[OF len] by blast
  qed
qed simp

lemma pattern_repeats_iff:
  assumes "0 < p"
  shows "pattern_repeats xs p \<longleftrightarrow> is_period xs p"
proof (cases "p dvd length xs")
  case True
  then have len: "length xs = (length xs div p) * p" by simp
  show ?thesis
    using concat_replicate_iff[OF assms len] True assms
    by (auto simp: pattern_repeats_def is_period_def list_all_iff Let_def)
next
  case False
  then show ?thesis by (auto simp: pattern_repeats_def is_period_def)
qed

definition smallest_period :: "'a list \<Rightarrow> nat" where
  "smallest_period xs = (case List.find (pattern_repeats xs) [1..<length xs div 2 + 1] of
     Some divisor \<Rightarrow> divisor | None \<Rightarrow> length xs)"

lemma smallest_period_least:
  assumes "xs \<noteq> []"
  shows "is_period xs (smallest_period xs) \<and> (\<forall>q. is_period xs q \<longrightarrow> smallest_period xs \<le> q)"
proof -
  let ?ns = "[1..<length xs div 2 + 1]"
  have self: "is_period xs (length xs)" using assms by (simp add: is_period_def)
  have half: "q \<le> length xs div 2" if q: "is_period xs q" "q \<noteq> length xs" for q
  proof -
    obtain k where k: "length xs = q * k" using q(1) by (auto simp: is_period_def)
    have "k \<noteq> 0" using k assms by (intro notI) simp
    moreover have "k \<noteq> 1" using k q(2) by (intro notI) simp
    ultimately have "q * 2 \<le> q * k" by (intro mult_le_mono) auto
    then show ?thesis using k by linarith
  qed
  have pos: "0 < q" if "is_period xs q" for q using that by (simp add: is_period_def)
  show ?thesis
  proof (cases "List.find (pattern_repeats xs) ?ns")
    case None
    then have "\<not> is_period xs q" if "1 \<le> q" "q \<le> length xs div 2" for q
      using that pattern_repeats_iff[of q xs] by (auto simp: find_None_iff)
    then have "length xs \<le> q" if "is_period xs q" for q
      using that half[of q] pos[of q] by (cases "q = length xs") auto
    with self None show ?thesis by (simp add: smallest_period_def)
  next
    case (Some p)
    then obtain i where i: "i < length ?ns" "pattern_repeats xs (?ns ! i)" "p = ?ns ! i"
        "\<forall>j < i. \<not> pattern_repeats xs (?ns ! j)" by (auto simp: find_Some_iff)
    have p: "p = Suc i" "p \<le> length xs div 2" using i(1,3) by (auto simp del: upt_Suc)
    have "p \<le> q" if q: "is_period xs q" for q
    proof (rule ccontr)
      assume "\<not> p \<le> q"
      then obtain j where j: "j < i" "q = Suc j" using p(1) pos[OF q] by (cases q) auto
      then have "\<not> pattern_repeats xs q" using i(1,4) by (auto simp del: upt_Suc)
      then show False using q pattern_repeats_iff[OF pos[OF q], of xs] by simp
    qed
    moreover have "is_period xs p" using i(2,3) p(1) pattern_repeats_iff[of p xs] by simp
    ultimately show ?thesis using Some by (simp add: smallest_period_def)
  qed
qed

section \<open>The table\<close>

definition slot :: "nat \<Rightarrow> nat \<Rightarrow> nat \<Rightarrow> nat \<Rightarrow> nat" where
  "slot n i j m = (i * n + j) * n + m"

text \<open>Between the first \<open>i\<close> records and the \<open>j\<close> records from \<open>m\<close> on.\<close>

definition cost_at :: "'a list \<Rightarrow> nat \<Rightarrow> nat \<Rightarrow> nat \<Rightarrow> nat" where
  "cost_at hs i j m = match_cost (rev (take i hs)) (rev (take j (drop m hs)))"

definition good :: "nat \<Rightarrow> 64 word list \<Rightarrow> (nat \<times> nat \<times> nat) set \<Rightarrow> 32 word list \<Rightarrow> bool" where
  "good n hs S tbl \<longleftrightarrow> length tbl = n * n * n \<and>
     (\<forall>(i, j, m) \<in> S. i < n \<and> j < n \<and> m < n \<and> tbl ! slot n i j m = of_nat (cost_at hs i j m))"

lemma mixed_radix:
  fixes a b m n :: nat
  assumes "a * n + m = b * n + k" "m < n" "k < n"
  shows "a = b \<and> m = k"
proof -
  have "(a * n + m) div n = a" "(b * n + k) div n = b" using assms(2,3) by simp_all
  then have "a = b" using assms(1) by simp
  then show ?thesis using assms(1) by simp
qed

lemma slot_inj:
  assumes "i < n" "j < n" "m < n" "i' < n" "j' < n" "m' < n" "slot n i j m = slot n i' j' m'"
  shows "i = i' \<and> j = j' \<and> m = m'"
  using mixed_radix[of "i * n + j" n m "i' * n + j'" m'] mixed_radix[of i n j i' j'] assms
  unfolding slot_def by blast

lemma slot_less:
  assumes "i < n" "j < n" "m < n"
  shows "slot n i j m < n * n * n"
proof -
  have "(i * n + j) * n + m < (i * n + j) * n + n" using assms(3) by simp
  also have "\<dots> = (i * n + Suc j) * n" by simp
  also have "\<dots> \<le> (i * n + n) * n" using assms(2) by (intro mult_le_mono) auto
  also have "\<dots> = (Suc i * n) * n" by simp
  also have "\<dots> \<le> (n * n) * n" using assms(1) by (intro mult_le_mono) auto
  finally show ?thesis by (simp add: slot_def)
qed

lemma goodD: "good n hs S tbl \<Longrightarrow> (i, j, m) \<in> S \<Longrightarrow>
   i < n \<and> j < n \<and> m < n \<and> tbl ! slot n i j m = of_nat (cost_at hs i j m)"
  unfolding good_def by blast

lemma goodI: "length tbl = n * n * n \<Longrightarrow>
   (\<And>i j m. (i, j, m) \<in> S \<Longrightarrow> i < n \<and> j < n \<and> m < n \<and> tbl ! slot n i j m = of_nat (cost_at hs i j m)) \<Longrightarrow>
   good n hs S tbl"
  unfolding good_def by blast

lemma good_length: "good n hs S tbl \<Longrightarrow> length tbl = n * n * n"
  by (simp add: good_def)

lemma good_insert:
  assumes "good n hs S tbl" "i < n" "j < n" "m < n"
  shows "good n hs (insert (i, j, m) S) (tbl[slot n i j m := of_nat (cost_at hs i j m)])"
proof (rule goodI)
  fix a b c assume s: "(a, b, c) \<in> insert (i, j, m) S"
  show "a < n \<and> b < n \<and> c < n \<and> tbl[slot n i j m := of_nat (cost_at hs i j m)] ! slot n a b c = of_nat (cost_at hs a b c)"
  proof (cases "(a, b, c) = (i, j, m)")
    case True
    then show ?thesis using assms slot_less[OF assms(2-4)] good_length[OF assms(1)] by simp
  next
    case False
    with s have "(a, b, c) \<in> S" by blast
    then have g: "a < n \<and> b < n \<and> c < n \<and> tbl ! slot n a b c = of_nat (cost_at hs a b c)"
      by (rule goodD[OF assms(1)])
    then have "slot n i j m \<noteq> slot n a b c" using slot_inj[OF assms(2-4), of a b c] False by auto
    then show ?thesis using g by simp
  qed
qed (simp add: good_length[OF assms(1)])

lemma good_mono: "good n hs S tbl \<Longrightarrow> T \<subseteq> S \<Longrightarrow> good n hs T tbl"
  by (auto simp: good_def)

lemma cost_at_append:
  "i \<le> length hs \<Longrightarrow> m + j \<le> length hs \<Longrightarrow> cost_at (hs @ ts) i j m = cost_at hs i j m"
  by (simp add: cost_at_def)

lemma good_grow:
  assumes "good n hs S tbl" "\<forall>(i, j, m) \<in> S. i \<le> length hs \<and> m + j \<le> length hs"
  shows "good n (hs @ ts) S tbl"
proof -
  have "tbl ! slot n i j m = of_nat (cost_at (hs @ ts) i j m) \<and> i < n \<and> j < n \<and> m < n" if s: "(i, j, m) \<in> S" for i j m
  proof -
    have "cost_at (hs @ ts) i j m = cost_at hs i j m" using assms(2) s by (intro cost_at_append) auto
    then show ?thesis using assms(1) s unfolding good_def by auto
  qed
  then show ?thesis using assms(1) unfolding good_def by (simp add: case_prod_beta)
qed

lemma Didx_slot:
  assumes "ed_history_buffer_size d = int n" "i < n" "j < n" "m < n"
  shows "Didx d (int i) (int j) (int m) = slot n i j m"
proof -
  have "int i * int n * int n + int j * int n + int m = int (slot n i j m)"
    by (simp add: slot_def distrib_right)
  moreover have "int i mod int n = int i" "int j mod int n = int j" "int m mod int n = int m"
    using assms(2-4) by simp_all
  ultimately show ?thesis unfolding Didx_def Let_def assms(1) by (simp only: nat_int)
qed

lemma Dset_good:
  assumes "ed_history_buffer_size d = int n" "good n hs S tbl" "i < n" "j < n" "m < n" "v = of_nat (cost_at hs i j m)"
  shows "\<exists>tbl'. Dset (int i) (int j) (int m) v (d\<lparr>ed_DP := tbl\<rparr>) = d\<lparr>ed_DP := tbl'\<rparr> \<and> good n hs (insert (i, j, m) S) tbl'"
proof -
  have "Didx (d\<lparr>ed_DP := tbl\<rparr>) (int i) (int j) (int m) = slot n i j m"
    by (rule Didx_slot) (use assms in simp_all)
  then show ?thesis using good_insert[OF assms(2-5)] assms(6) by (auto simp: Dset_def)
qed

lemma Dget_good:
  assumes "ed_history_buffer_size d = int n" "ed_record_count d = int c" "c < n" "good n hs S tbl" "(i, j, m) \<in> S"
  shows "Dget (d\<lparr>ed_DP := tbl\<rparr>) (int i) (int j) (int m) = of_nat (cost_at hs i j m)"
proof -
  have idx: "i < n" "j < n" "m < n" "tbl ! slot n i j m = of_nat (cost_at hs i j m)"
    using assms(4,5) by (auto simp: good_def)
  have "Didx (d\<lparr>ed_DP := tbl\<rparr>) (int i) (int j) (int m) = slot n i j m"
    by (rule Didx_slot) (use assms(1) idx in simp_all)
  then show ?thesis using assms(1-3) idx by (simp add: Dget_def Let_def)
qed

text \<open>A loop of assignments, each of the right value.\<close>

lemma fold_Dset_good:
  assumes "ed_history_buffer_size d = int n"
    and "\<forall>k < N. fi k < n \<and> fj k < n \<and> fm k < n \<and> fv k = of_nat (cost_at hs (fi k) (fj k) (fm k))"
    and "good n hs S tbl" "K \<le> N"
  shows "\<exists>tbl'. fold (\<lambda>k. Dset (int (fi k)) (int (fj k)) (int (fm k)) (fv k)) [0..<K] (d\<lparr>ed_DP := tbl\<rparr>) = d\<lparr>ed_DP := tbl'\<rparr> \<and>
     good n hs ((\<lambda>k. (fi k, fj k, fm k)) ` {..<K} \<union> S) tbl'"
  using assms(4)
proof (induction K)
  case 0
  then show ?case using assms(3) by auto
next
  case (Suc K)
  then obtain t where t: "fold (\<lambda>k. Dset (int (fi k)) (int (fj k)) (int (fm k)) (fv k)) [0..<K] (d\<lparr>ed_DP := tbl\<rparr>) = d\<lparr>ed_DP := t\<rparr>"
      "good n hs ((\<lambda>k. (fi k, fj k, fm k)) ` {..<K} \<union> S) t" by auto
  then show ?case
    using Dset_good[OF assms(1) t(2), of "fi K" "fj K" "fm K" "fv K"] assms(2) Suc.prems
    by (auto simp: lessThan_Suc)
qed

lemma cost_at_le: "cost_at hs i j m \<le> j"
  using match_cost_le_length[of "rev (take i hs)" "rev (take j (drop m hs))"] by (simp add: cost_at_def)

lemma cost_at_step:
  assumes "1 \<le> i" "i \<le> length hs" "m < c" "c \<le> length hs"
  shows "cost_at hs i (c - m) m =
    min (min (cost_at hs (i - 1) (c - m) m + 1) (cost_at hs i (c - m - 1) m + 1))
        (cost_at hs (i - 1) (c - m - 1) m + (if hs ! (i - 1) = hs ! (c - 1) then 0 else 2))"
proof -
  have i: "rev (take i hs) = hs ! (i - 1) # rev (take (i - 1) hs)"
    using assms(1,2) take_Suc_conv_app_nth[of "i - 1" hs] by simp
  have "c - m - 1 < length (drop m hs)" using assms(3,4) by simp
  moreover have "Suc (c - m - 1) = c - m" "m + (c - m - 1) = c - 1" using assms(3) by simp_all
  ultimately have "rev (take (c - m) (drop m hs)) = hs ! (c - 1) # rev (take (c - m - 1) (drop m hs))"
    using take_Suc_conv_app_nth[of "c - m - 1" "drop m hs"] assms(3,4) by simp
  then show ?thesis using i by (simp add: cost_at_def)
qed

section \<open>One update\<close>

lemma int_upto: "[int a..int b] = map int [a..<Suc b]"
  by (rule nth_equalityI) (auto simp del: upt_Suc)

lemma unat_small: "x < 2 ^ 32 \<Longrightarrow> unat (of_nat x :: 32 word) = x"
  by (simp add: unsigned_of_nat take_bit_nat_eq_self)

lemma of_nat_less_small: "x < 2 ^ 32 \<Longrightarrow> y < 2 ^ 32 \<Longrightarrow> (of_nat x :: 32 word) < of_nat y \<longleftrightarrow> x < y"
  by (simp add: word_less_nat_alt unat_small)

lemma min_of_nat:
  assumes "x < 2 ^ 32" "y < 2 ^ 32"
  shows "min (of_nat x :: 32 word) (of_nat y) = of_nat (min x y)"
  using of_nat_less_small[OF assms(2,1)] by (auto simp: min_def not_less[symmetric])

text \<open>The state of a detector whose history is complete.\<close>

definition detects :: "nat \<Rightarrow> 64 word list \<Rightarrow> detector \<Rightarrow> bool" where
  "detects n hs d \<longleftrightarrow> ed_history_buffer_size d = int n \<and> ed_record_count d = int (length hs) \<and>
     cb_inv (ed_history_buffer d) \<and> cb_list (ed_history_buffer d) = hs \<and> m_max_size (ed_history_buffer d) = n \<and>
     length hs < n \<and> n < 2 ^ 31"

lemma detects_count: "detects n hs d \<Longrightarrow> m_count (ed_history_buffer d) = length hs"
  unfolding detects_def using length_cb_list by metis

lemma detects_DP [simp]: "detects n hs (d\<lparr>ed_DP := tbl\<rparr>) \<longleftrightarrow> detects n hs d"
  by (simp add: detects_def)

lemma update_cell_good:
  assumes d: "detects n hs d" and g: "good n hs S tbl" and im: "1 \<le> i" "i \<le> m" "m < length hs"
    and deps: "(i - 1, length hs - m, m) \<in> S" "(i, length hs - m - 1, m) \<in> S" "(i - 1, length hs - m - 1, m) \<in> S"
  shows "\<exists>t. update_cell (hs ! (length hs - 1)) (int m) (int i) (d\<lparr>ed_DP := tbl\<rparr>) = Inr (d\<lparr>ed_DP := t\<rparr>) \<and>
    good n hs (insert (i, length hs - m, m) S) t"
proof -
  let ?c = "length hs"
  let ?d = "d\<lparr>ed_DP := tbl\<rparr>"
  note dd = d[unfolded detects_def]
  have lt: "cost_at hs a b k < 2 ^ 31" if "(a, b, k) \<in> S" for a b k
    using goodD[OF g that] cost_at_le[of hs a b k] dd by linarith
  have num: "int (cb_size (ed_history_buffer d)) = int ?c" using detects_count[OF d] by (simp add: cb_size_def)
  have conv: "int i - 1 = int (i - 1)" "int ?c - int m = int (?c - m)" "int (?c - m) - 1 = int (?c - m - 1)"
    "int ?c - (int ?c - int (i - 1)) = int (i - 1)"
    using im by simp_all
  have cmp: "cb_value (ed_history_buffer d) (int (i - 1)) = Inr (hs ! (i - 1))"
    using cb_value_nth[of "ed_history_buffer d" "i - 1"] dd detects_count[OF d] im by simp
  note dget = Dget_good[OF dd[THEN conjunct1] dd[THEN conjunct2, THEN conjunct1] _ g]
  have cn: "?c < n" using dd by simp
  let ?v = "min (min (of_nat (cost_at hs (i - 1) (?c - m) m) + 1) (of_nat (cost_at hs i (?c - m - 1) m) + 1))
      (of_nat (cost_at hs (i - 1) (?c - m - 1) m) + (if hs ! (i - 1) = hs ! (?c - 1) then 0 else 2)) :: 32 word"
  have plus: "of_nat a + 1 = (of_nat (a + 1) :: 32 word)" "of_nat a + (if b then 0 else 2) = (of_nat (a + (if b then 0 else 2)) :: 32 word)" for a b
    by simp_all
  have v: "?v = of_nat (cost_at hs i (?c - m) m)"
    unfolding plus using lt[OF deps(1)] lt[OF deps(2)] lt[OF deps(3)] im
    by (simp add: cost_at_step min_of_nat del: of_nat_add of_nat_Suc)
  have gets: "Dget ?d (int i - 1) (int ?c - int m) (int m) = of_nat (cost_at hs (i - 1) (?c - m) m)"
    "Dget ?d (int i) (int ?c - int m - 1) (int m) = of_nat (cost_at hs i (?c - m - 1) m)"
    "Dget ?d (int i - 1) (int ?c - int m - 1) (int m) = of_nat (cost_at hs (i - 1) (?c - m - 1) m)"
    unfolding conv by (rule dget[OF cn deps(1)] dget[OF cn deps(2)] dget[OF cn deps(3)])+
  have sel: "ed_record_count ?d = int ?c" "ed_history_buffer ?d = ed_history_buffer d" using dd by simp_all
  have age: "int ?c - (int i - 1) \<le> int ?c" "int ?c - (int ?c - (int i - 1)) = int (i - 1)" using im(1) by simp_all
  have "update_cell (hs ! (?c - 1)) (int m) (int i) ?d = Inr (Dset (int i) (int ?c - int m) (int m) ?v ?d)"
    by (simp only: update_cell_def Let_def sel num age cmp gets if_True and_then_simps)
  then have "update_cell (hs ! (?c - 1)) (int m) (int i) ?d = Inr (Dset (int i) (int (?c - m)) (int m) ?v ?d)"
    unfolding conv .
  moreover obtain t where "Dset (int i) (int (?c - m)) (int m) ?v ?d = d\<lparr>ed_DP := t\<rparr>" "good n hs (insert (i, ?c - m, m) S) t"
    using Dset_good[OF dd[THEN conjunct1] g _ _ _ v] im cn by fastforce
  ultimately show ?thesis by (intro exI[of _ t] conjI) (simp only:, assumption)
qed

text \<open>The two nested loops over the cells.\<close>

lemma inner_loop_good:
  assumes d: "detects n hs d" and m: "m < length hs" and base: "(0, length hs - m, m) \<in> S" "\<forall>i \<le> m. (i, length hs - m - 1, m) \<in> S"
    and g: "good n hs S tbl" and k: "k \<le> m"
  shows "\<exists>t. fold_result (update_cell (hs ! (length hs - 1)) (int m)) (map int [1..<Suc k]) (d\<lparr>ed_DP := tbl\<rparr>) = Inr (d\<lparr>ed_DP := t\<rparr>) \<and>
    good n hs ({i. 1 \<le> i \<and> i \<le> k} \<times> {length hs - m} \<times> {m} \<union> S) t"
  using k
proof (induction k)
  case 0
  have "{i::nat. 1 \<le> i \<and> i \<le> 0} \<times> {length hs - m} \<times> {m} \<union> S = S" by auto
  then show ?case using g by (intro exI[of _ tbl]) (simp only: upt_rec[of 1] list.map fold_result.simps, simp)
next
  case (Suc k)
  let ?S = "{i. 1 \<le> i \<and> i \<le> k} \<times> {length hs - m} \<times> {m} \<union> S"
  obtain t where t: "fold_result (update_cell (hs ! (length hs - 1)) (int m)) (map int [1..<Suc k]) (d\<lparr>ed_DP := tbl\<rparr>) = Inr (d\<lparr>ed_DP := t\<rparr>)"
      "good n hs ?S t" using Suc by auto
  have "(Suc k, length hs - m - 1, m) \<in> S" "(k, length hs - m - 1, m) \<in> S"
    using base(2)[rule_format, of "Suc k"] base(2)[rule_format, of k] Suc.prems by simp_all
  moreover have "(k, length hs - m, m) \<in> ?S" using base(1) by (cases k) simp_all
  ultimately have deps: "(Suc k - 1, length hs - m, m) \<in> ?S" "(Suc k, length hs - m - 1, m) \<in> ?S" "(Suc k - 1, length hs - m - 1, m) \<in> ?S"
    by simp_all
  obtain u where u: "update_cell (hs ! (length hs - 1)) (int m) (int (Suc k)) (d\<lparr>ed_DP := t\<rparr>) = Inr (d\<lparr>ed_DP := u\<rparr>)"
      "good n hs (insert (Suc k, length hs - m, m) ?S) u"
    using update_cell_good[OF d t(2) _ Suc.prems m deps] by auto
  have "insert (Suc k, length hs - m, m) ?S = {i. 1 \<le> i \<and> i \<le> Suc k} \<times> {length hs - m} \<times> {m} \<union> S" by auto
  moreover have "map int [1..<Suc (Suc k)] = map int [1..<Suc k] @ [int (Suc k)]" by simp
  ultimately show ?case using u t(1) by (simp only: fold_result_append and_then_simps fold_result.simps) auto
qed

lemma outer_loop_good:
  assumes d: "detects n hs d"
    and base: "\<forall>m. 1 \<le> m \<longrightarrow> m < length hs \<longrightarrow> (0, length hs - m, m) \<in> S \<and> (\<forall>i \<le> m. (i, length hs - m - 1, m) \<in> S)"
    and g: "good n hs S tbl" and k: "k < length hs"
  shows "\<exists>t. fold_result (\<lambda>mm. fold_result (update_cell (hs ! (length hs - 1)) mm) [1..mm]) (map int [1..<Suc k]) (d\<lparr>ed_DP := tbl\<rparr>) = Inr (d\<lparr>ed_DP := t\<rparr>) \<and>
    good n hs ({(i, length hs - m, m) | i m. 1 \<le> i \<and> i \<le> m \<and> m \<le> k} \<union> S) t"
  using k
proof (induction k)
  case 0
  have "{(i, length hs - m, m) | i m. 1 \<le> i \<and> i \<le> m \<and> m \<le> 0} = {}" by auto
  then show ?case using g by (intro exI[of _ tbl]) simp
next
  case (Suc k)
  let ?S = "{(i, length hs - m, m) | i m. 1 \<le> i \<and> i \<le> m \<and> m \<le> k} \<union> S"
  obtain t where t: "fold_result (\<lambda>mm. fold_result (update_cell (hs ! (length hs - 1)) mm) [1..mm]) (map int [1..<Suc k]) (d\<lparr>ed_DP := tbl\<rparr>) = Inr (d\<lparr>ed_DP := t\<rparr>)"
      "good n hs ?S t" using Suc by auto
  have deps: "(0, length hs - Suc k, Suc k) \<in> ?S" "\<forall>i \<le> Suc k. (i, length hs - Suc k - 1, Suc k) \<in> ?S"
    using base Suc.prems by auto
  obtain u where u: "fold_result (update_cell (hs ! (length hs - 1)) (int (Suc k))) (map int [1..<Suc (Suc k)]) (d\<lparr>ed_DP := t\<rparr>) = Inr (d\<lparr>ed_DP := u\<rparr>)"
      "good n hs ({i. 1 \<le> i \<and> i \<le> Suc k} \<times> {length hs - Suc k} \<times> {Suc k} \<union> ?S) u"
    using inner_loop_good[OF d Suc.prems deps t(2) le_refl] by blast
  have "{i. 1 \<le> i \<and> i \<le> Suc k} \<times> {length hs - Suc k} \<times> {Suc k} \<union> ?S =
      {(i, length hs - m, m) | i m. 1 \<le> i \<and> i \<le> m \<and> m \<le> Suc k} \<union> S"
    by (auto simp: le_Suc_eq)
  moreover have "map int [1..<Suc (Suc k)] = map int [1..<Suc k] @ [int (Suc k)]" by simp
  moreover have "[1..int (Suc k)] = map int [1..<Suc (Suc k)]" using int_upto[of 1 "Suc k"] by simp
  ultimately show ?case using u t(1) by (simp only: fold_result_append and_then_simps fold_result.simps) auto
qed

text \<open>The first of the smallest values.\<close>

definition first_best :: "(nat \<Rightarrow> nat) \<Rightarrow> nat \<Rightarrow> nat \<Rightarrow> nat \<Rightarrow> bool" where
  "first_best f a b m \<longleftrightarrow> a \<le> m \<and> m < b \<and> (\<forall>k. a \<le> k \<longrightarrow> k < b \<longrightarrow> f m \<le> f k \<and> (k < m \<longrightarrow> f m < f k))"

lemma fold_first_best:
  assumes "\<forall>k. a \<le> k \<longrightarrow> k < b \<longrightarrow> g (int k) = (of_nat (f k) :: 32 word) \<and> f k < 2 ^ 32" "Suc a \<le> b"
  shows "\<exists>m. fold (\<lambda>mm (bestm, bestval). let val = g mm in if val < bestval then (mm, val) else (bestm, bestval))
     (map int [Suc a..<b]) (int a, g (int a)) = (int m, of_nat (f m)) \<and> first_best f a b m"
  using assms(2,1)
proof (induction b rule: dec_induct)
  case base
  then show ?case by (intro exI[of _ a]) (auto simp: first_best_def less_Suc_eq)
next
  case (step b)
  obtain m where m: "fold (\<lambda>mm (bestm, bestval). let val = g mm in if val < bestval then (mm, val) else (bestm, bestval))
     (map int [Suc a..<b]) (int a, g (int a)) = (int m, of_nat (f m))" "first_best f a b m"
    using step.IH step.prems by auto
  have b: "g (int b) = of_nat (f b)" "f b < 2 ^ 32" using step.prems step.hyps by simp_all
  have lt: "(of_nat (f b) :: 32 word) < of_nat (f m) \<longleftrightarrow> f b < f m"
    using m(2) step.prems b(2) by (intro of_nat_less_small) (auto simp: first_best_def)
  have split: "map int [Suc a..<Suc b] = map int [Suc a..<b] @ [int b]" using step.hyps by simp
  show ?case
  proof (cases "f b < f m")
    case True
    then have "first_best f a (Suc b) b" using m(2) step.hyps by (fastforce simp: first_best_def less_Suc_eq)
    with True show ?thesis using m(1) b(1) lt by (intro exI[of _ b]) (simp only: split fold_append, simp)
  next
    case False
    then have "first_best f a (Suc b) m" using m(2) step.hyps by (auto simp: first_best_def less_Suc_eq)
    with False show ?thesis using m(1) b(1) lt by (intro exI[of _ m]) (simp only: split fold_append, simp)
  qed
qed

lemma int_upto_0: "1 \<le> c \<Longrightarrow> [0..int c - 1] = map int [0..<c]"
  using int_upto[of 0 "c - 1"] by (cases c) (simp_all del: upt_Suc)

definition cells :: "nat \<Rightarrow> (nat \<times> nat \<times> nat) set" where
  "cells c = {(i, j, m). 1 \<le> m \<and> m < c \<and> i \<le> m \<and> m + j \<le> c}"

lemma first_column:
  assumes d: "detects n hs d" and g: "good n hs S tbl" and c: "1 \<le> length hs"
  shows "\<exists>t. fold (\<lambda>ii. Dset ii 0 (int (length hs) - 1) 0) [0..int (length hs) - 1] (d\<lparr>ed_DP := tbl\<rparr>) = d\<lparr>ed_DP := t\<rparr> \<and>
    good n hs ((\<lambda>k. (k, 0, length hs - 1)) ` {..<length hs} \<union> S) t"
proof -
  let ?c = "length hs"
  note dd = d[unfolded detects_def]
  note list = int_upto_0[OF c]
  have "\<forall>k < ?c. k < n \<and> 0 < n \<and> ?c - 1 < n \<and> (0 :: 32 word) = of_nat (cost_at hs k 0 (?c - 1))"
    using dd by (auto simp: cost_at_def)
  from fold_Dset_good[OF dd[THEN conjunct1] this g le_refl]
  obtain t where t: "fold (\<lambda>k. Dset (int k) (int 0) (int (?c - 1)) 0) [0..<?c] (d\<lparr>ed_DP := tbl\<rparr>) = d\<lparr>ed_DP := t\<rparr>"
      "good n hs ((\<lambda>k. (k, 0, ?c - 1)) ` {..<?c} \<union> S) t" by blast
  have "int (?c - 1) = int ?c - 1" using c by simp
  with t(1) have "fold (\<lambda>ii. Dset ii 0 (int ?c - 1) 0) [0..int ?c - 1] (d\<lparr>ed_DP := tbl\<rparr>) = d\<lparr>ed_DP := t\<rparr>"
    unfolding list by (simp add: fold_map comp_def)
  with t(2) show ?thesis by blast
qed

lemma first_row:
  assumes d: "detects n hs d" and g: "good n hs S tbl" and c: "1 \<le> length hs"
  shows "\<exists>t. fold (\<lambda>mm. Dset 0 (int (length hs) - mm) mm (word_of_int (int (length hs) - mm))) [0..int (length hs) - 1] (d\<lparr>ed_DP := tbl\<rparr>) = d\<lparr>ed_DP := t\<rparr> \<and>
    good n hs ((\<lambda>k. (0, length hs - k, k)) ` {..<length hs} \<union> S) t"
proof -
  let ?c = "length hs"
  note dd = d[unfolded detects_def]
  note list = int_upto_0[OF c]
  have "\<forall>k < ?c. 0 < n \<and> ?c - k < n \<and> k < n \<and> (of_nat (?c - k) :: 32 word) = of_nat (cost_at hs 0 (?c - k) k)"
    using dd by (auto simp: cost_at_def)
  from fold_Dset_good[OF dd[THEN conjunct1] this g le_refl]
  obtain t where t: "fold (\<lambda>k. Dset (int 0) (int (?c - k)) (int k) (of_nat (?c - k))) [0..<?c] (d\<lparr>ed_DP := tbl\<rparr>) = d\<lparr>ed_DP := t\<rparr>"
      "good n hs ((\<lambda>k. (0, ?c - k, k)) ` {..<?c} \<union> S) t" by blast
  have "fold (\<lambda>mm. Dset 0 (int ?c - mm) mm (word_of_int (int ?c - mm))) [0..int ?c - 1] (d\<lparr>ed_DP := tbl\<rparr>) =
      fold (\<lambda>k. Dset (int 0) (int (?c - k)) (int k) (of_nat (?c - k))) [0..<?c] (d\<lparr>ed_DP := tbl\<rparr>)"
    unfolding list fold_map by (rule fold_cong) (auto simp: of_nat_diff)
  with t show ?thesis by auto
qed

lemma all_cells_good:
  assumes d: "detects n hs d" and g: "good n hs (cells (length hs - 1)) (ed_DP d)" and c: "2 \<le> length hs"
  shows "\<exists>t. fold_result (\<lambda>mm. fold_result (update_cell (hs ! (length hs - 1)) mm) [1..mm]) [1..int (length hs) - 1]
      (fold (\<lambda>mm. Dset 0 (int (length hs) - mm) mm (word_of_int (int (length hs) - mm))) [0..int (length hs) - 1]
        (fold (\<lambda>ii. Dset ii 0 (int (length hs) - 1) 0) [0..int (length hs) - 1] d)) = Inr (d\<lparr>ed_DP := t\<rparr>) \<and>
    good n hs (cells (length hs)) t"
proof -
  let ?c = "length hs"
  have "1 \<le> ?c" using c by simp
  obtain t where t: "fold (\<lambda>ii. Dset ii 0 (int ?c - 1) 0) [0..int ?c - 1] (d\<lparr>ed_DP := ed_DP d\<rparr>) = d\<lparr>ed_DP := t\<rparr>"
      "good n hs ((\<lambda>k. (k, 0, ?c - 1)) ` {..<?c} \<union> cells (?c - 1)) t" (is "good _ _ ?S _")
    using first_column[OF d g \<open>1 \<le> ?c\<close>] by blast
  obtain u where u: "fold (\<lambda>mm. Dset 0 (int ?c - mm) mm (word_of_int (int ?c - mm))) [0..int ?c - 1] (d\<lparr>ed_DP := t\<rparr>) = d\<lparr>ed_DP := u\<rparr>"
      "good n hs ((\<lambda>k. (0, ?c - k, k)) ` {..<?c} \<union> ?S) u" (is "good _ _ ?U _")
    using first_row[OF d t(2) \<open>1 \<le> ?c\<close>] by blast
  have base: "\<forall>m. 1 \<le> m \<longrightarrow> m < ?c \<longrightarrow> (0, ?c - m, m) \<in> ?U \<and> (\<forall>i \<le> m. (i, ?c - m - 1, m) \<in> ?U)"
  proof (intro allI impI conjI)
    fix m i assume m: "1 \<le> m" "m < ?c"
    then show "(0, ?c - m, m) \<in> ?U" by blast
    assume i: "i \<le> m"
    show "(i, ?c - m - 1, m) \<in> ?U"
    proof (cases "m = ?c - 1")
      case True
      then have "(i, ?c - m - 1, m) = (i, 0, ?c - 1)" "i < ?c" using i m by simp_all
      then show ?thesis by blast
    next
      case False
      then have "(i, ?c - m - 1, m) \<in> cells (?c - 1)" using i m by (simp add: cells_def)
      then show ?thesis by blast
    qed
  qed
  have "?c - 1 < ?c" using c by simp
  from outer_loop_good[OF d base u(2) this]
  obtain w where w: "fold_result (\<lambda>mm. fold_result (update_cell (hs ! (?c - 1)) mm) [1..mm]) (map int [1..<Suc (?c - 1)]) (d\<lparr>ed_DP := u\<rparr>) = Inr (d\<lparr>ed_DP := w\<rparr>)"
      "good n hs ({(i, ?c - m, m) | i m. 1 \<le> i \<and> i \<le> m \<and> m \<le> ?c - 1} \<union> ?U) w" (is "good _ _ ?W _") by blast
  have "[1..int ?c - 1] = map int [1..<Suc (?c - 1)]" using int_upto[of 1 "?c - 1"] c by (simp add: of_nat_diff)
  moreover have "cells ?c \<subseteq> ?W"
  proof
    fix x assume "x \<in> cells ?c"
    then obtain i j m where x: "x = (i, j, m)" "1 \<le> m" "m < ?c" "i \<le> m" "m + j \<le> ?c" by (auto simp: cells_def)
    consider "m + j < ?c" "m < ?c - 1" | "m + j < ?c" "m = ?c - 1" | "j = ?c - m" "i = 0" | "j = ?c - m" "1 \<le> i" using x by linarith
    then show "x \<in> ?W"
    proof cases
      case 1
      then have "x \<in> cells (?c - 1)" using x by (simp add: cells_def)
      then show ?thesis by blast
    next
      case 2
      then have "x = (i, 0, ?c - 1)" "i < ?c" using x by simp_all
      then show ?thesis by blast
    next
      case 3
      then show ?thesis using x by blast
    next
      case 4
      then have "m \<le> ?c - 1" using x by simp
      with 4 show ?thesis using x by blast
    qed
  qed
  then have "good n hs (cells ?c) w" by (rule good_mono[OF w(2)])
  moreover have "d\<lparr>ed_DP := ed_DP d\<rparr> = d" by simp
  ultimately show ?thesis using t(1) u(1) w(1) by (intro exI[of _ w]) (simp only:)
qed

section \<open>Score and period\<close>

lemma cost_at_best_match: "k \<le> length hs \<Longrightarrow> cost_at hs k (length hs - k) k = best_match hs k"
  by (simp add: best_match_cost cost_at_def)

lemma find_best_good:
  assumes d: "detects n hs d" and g: "good n hs (cells (length hs)) tbl" and c: "2 \<le> length hs"
  shows "\<exists>m. find_best (d\<lparr>ed_DP := tbl\<rparr>) = (int m, of_nat (best_match hs m)) \<and> best_match hs m < 2 ^ 31 \<and>
    first_best (best_match hs) ((length hs + 1) div 2) (length hs) m"
proof -
  let ?c = "length hs" and ?a = "(length hs + 1) div 2" and ?d = "d\<lparr>ed_DP := tbl\<rparr>"
  note dd = d[unfolded detects_def]
  have a: "Suc ?a \<le> ?c" "1 \<le> ?a" using c by simp_all
  have small: "best_match hs k < 2 ^ 31" if "k \<le> ?c" for k
    using cost_at_le[of hs k "?c - k" k] cost_at_best_match[OF that] dd by linarith
  have "Dget ?d (int k) (int ?c - int k) (int k) = of_nat (best_match hs k) \<and> best_match hs k < 2 ^ 32"
    if k: "?a \<le> k" "k < ?c" for k
  proof -
    have "(k, ?c - k, k) \<in> cells ?c" using k a by (simp add: cells_def)
    then have "Dget ?d (int k) (int (?c - k)) (int k) = of_nat (cost_at hs k (?c - k) k)"
      using Dget_good[of d n ?c hs "cells ?c" tbl k "?c - k" k] dd g by blast
    then show ?thesis using k cost_at_best_match[of k hs] small[of k] by (simp add: of_nat_diff)
  qed
  then obtain m where m: "fold (\<lambda>mm (bestm, bestval). let val = Dget ?d mm (int ?c - mm) mm
        in if val < bestval then (mm, val) else (bestm, bestval)) (map int [Suc ?a..<?c]) (int ?a, Dget ?d (int ?a) (int ?c - int ?a) (int ?a)) =
      (int m, of_nat (best_match hs m))" "first_best (best_match hs) ?a ?c m"
    using fold_first_best[of ?a ?c "\<lambda>mm. Dget ?d mm (int ?c - mm) mm" "best_match hs", OF _ a(1)] by blast
  have "int ?a = (int ?c + 1) div 2" by (simp add: zdiv_int add.commute)
  moreover have "int ?c - int n \<le> (int ?c + 1) div 2"
  proof -
    have "int ?c < int n" using dd by simp
    moreover have "0 \<le> (int ?c + 1) div 2" by simp
    ultimately show ?thesis by linarith
  qed
  ultimately have "max ((int ?c + 1) div 2) (int ?c - int n) = int ?a" by (simp only: max.absorb1)
  moreover have "[int ?a + 1..int ?c - 1] = map int [Suc ?a..<?c]"
    using int_upto[of "Suc ?a" "?c - 1"] c by (cases ?c) (simp_all del: upt_Suc add: add.commute)
  moreover have "ed_record_count ?d = int ?c" "ed_history_buffer_size ?d = int n" using dd by simp_all
  ultimately have "find_best ?d = (int m, of_nat (best_match hs m))"
    using m(1) unfolding find_best_def Let_def by (simp only:)
  then show ?thesis using m(2) small[of m] by (auto simp: first_best_def)
qed

lemma pattern_good:
  assumes d: "detects n hs d" and m: "m < length hs"
  shows "find_smallest_repeating_pattern d (int m) = Inr (int (smallest_period (drop m hs)))"
proof -
  note dd = d[unfolded detects_def]
  have size: "cb_size (ed_history_buffer d) = length hs" using detects_count[OF d] by (simp add: cb_size_def)
  have "cb_make_vector_slice 0 m (length hs) (ed_history_buffer d) = Inr (take (length hs - m) (drop m hs))"
    using cb_make_vector_slice_list[of "ed_history_buffer d" m "length hs" 0] dd m detects_count[OF d] by simp
  then show ?thesis
    using m by (simp add: find_smallest_repeating_pattern_def size smallest_period_def Let_def split: option.split)
qed

lemma history_fold_Dset: "ed_history_buffer (fold (\<lambda>k. Dset (fi k) (fj k) (fm k) (fv k)) xs d) = ed_history_buffer d"
  by (induction xs arbitrary: d) (simp_all add: Dset_def)

definition found :: "64 word list \<Rightarrow> detector \<Rightarrow> bool" where
  "found hs d \<longleftrightarrow> (\<exists>m. first_best (best_match hs) ((length hs + 1) div 2) (length hs) m \<and>
     ed_score d = int (best_match hs m) \<and> ed_period d = int (smallest_period (drop m hs)))"

lemma calc_period_good:
  assumes d: "detects n hs d" and g: "good n hs (cells (length hs - 1)) (ed_DP d)" and c: "2 \<le> length hs"
  shows "\<exists>d'. calc_period d = Inr d' \<and> detects n hs d' \<and> good n hs (cells (length hs)) (ed_DP d') \<and> found hs d'"
proof -
  let ?c = "length hs"
  note dd = d[unfolded detects_def]
  obtain t where t: "fold_result (\<lambda>mm. fold_result (update_cell (hs ! (?c - 1)) mm) [1..mm]) [1..int ?c - 1]
      (fold (\<lambda>mm. Dset 0 (int ?c - mm) mm (word_of_int (int ?c - mm))) [0..int ?c - 1]
        (fold (\<lambda>ii. Dset ii 0 (int ?c - 1) 0) [0..int ?c - 1] d)) = Inr (d\<lparr>ed_DP := t\<rparr>)"
      "good n hs (cells ?c) t"
    using all_cells_good[OF d g c] by blast
  obtain m where m: "find_best (d\<lparr>ed_DP := t\<rparr>) = (int m, of_nat (best_match hs m))" "best_match hs m < 2 ^ 31"
      "first_best (best_match hs) ((?c + 1) div 2) ?c m"
    using find_best_good[OF d t(2) c] by blast
  let ?d = "d\<lparr>ed_DP := t, ed_score := sint (of_nat (best_match hs m) :: 32 word)\<rparr>"
  have d1: "detects n hs ?d" using d by (simp add: detects_def)
  have mc: "m < ?c" using m(3) by (simp add: first_best_def)
  have size: "int (cb_size (ed_history_buffer d)) = int ?c" using detects_count[OF d] by (simp add: cb_size_def)
  have "cb_value (ed_history_buffer d) (int (?c - 1)) = Inr (hs ! (?c - 1))"
    using cb_value_nth[of "ed_history_buffer d" "?c - 1"] dd detects_count[OF d] c by simp
  then have last: "cb_value (ed_history_buffer d) (int ?c - 1) = Inr (hs ! (?c - 1))" using c by (simp add: of_nat_diff)
  have maxs: "max 0 (int ?c - int n) = 0" "max 1 (int ?c - int n) = 1" "(int ?c < 2) = False" using dd c by simp_all
  have index: "int ?c - (int ?c - int m) = int m" by simp
  have counts: "ed_record_count d = int ?c" "ed_history_buffer_size d = int n" using dd by simp_all
  have "calc_period d = Inr (?d\<lparr>ed_period := int (smallest_period (drop m hs))\<rparr>)"
    unfolding calc_period_def Let_def counts size maxs
    by (simp only: if_False history_fold_Dset last and_then_simps t(1) m(1) prod.case index pattern_good[OF d1 mc])
  moreover have "sint (of_nat (best_match hs m) :: 32 word) = int (best_match hs m)"
    using m(2) by (simp add: signed_of_nat signed_take_bit_int_eq_self)
  ultimately show ?thesis
    using d1 t(2) m(3) by (intro exI[of _ "?d\<lparr>ed_period := int (smallest_period (drop m hs))\<rparr>"]) (auto simp: found_def detects_def)
qed

lemma update_good:
  assumes d: "detects n hs d" "good n hs (cells (length hs)) (ed_DP d)" and r: "rec_event r = EVENT_REGION_ENTRY"
    and c: "Suc (length hs) < n"
  shows "\<exists>d'. detector_update r d = Inr d' \<and> detects n (hs @ [rec_signal r]) d' \<and>
    good n (hs @ [rec_signal r]) (cells (length (hs @ [rec_signal r]))) (ed_DP d') \<and>
    (2 \<le> length (hs @ [rec_signal r]) \<longrightarrow> found (hs @ [rec_signal r]) d') \<and>
    (length (hs @ [rec_signal r]) < 2 \<longrightarrow> ed_score d' = ed_score d \<and> ed_period d' = ed_period d)"
proof -
  let ?hs = "hs @ [rec_signal r]"
  note dd = d(1)[unfolded detects_def]
  obtain b where b: "cb_insert (rec_signal r) (ed_history_buffer d) = Inr b" "cb_inv b" "m_max_size b = n" "cb_list b = ?hs"
    using cb_insert_room[of "ed_history_buffer d" "rec_signal r"] dd detects_count[OF d(1)] by auto
  let ?d = "d\<lparr>ed_history_buffer := b, ed_record_count := int (length ?hs)\<rparr>"
  have d1: "detects n ?hs ?d" using dd b c by (simp add: detects_def)
  have "int_result (int (length hs) + 1) = Inr (int (length ?hs))"
    using dd by (simp add: int_result_def INT_MAX_def INT_MIN_def)
  then have run: "detector_update r d = calc_period ?d" using r b(1) dd by (simp add: detector_update_def)
  have g: "good n ?hs (cells (length ?hs - 1)) (ed_DP ?d)"
    using good_grow[OF d(2), of "[rec_signal r]"] by (auto simp: cells_def)
  show ?thesis
  proof (cases "2 \<le> length ?hs")
    case True
    then show ?thesis using calc_period_good[OF d1 g True] run by auto
  next
    case False
    then have "int (length ?hs) < 2" by linarith
    moreover have "ed_record_count ?d = int (length ?hs)" by (simp del: length_append)
    ultimately have "ed_record_count ?d < 2" by linarith
    then have "calc_period ?d = Inr ?d" unfolding calc_period_def Let_def by (simp only: if_True)
    moreover have "cells (length ?hs) = {}" using False by (auto simp: cells_def)
    ultimately show ?thesis using run d1 False g by (auto simp: good_def)
  qed
qed

section \<open>A stream of records\<close>

abbreviation is_entry :: "record_s \<Rightarrow> bool" where
  "is_entry r \<equiv> rec_event r = EVENT_REGION_ENTRY"

lemma detector_run:
  assumes "detects n hs d" "good n hs (cells (length hs)) (ed_DP d)" "2 \<le> length hs \<longrightarrow> found hs d"
    and "length hs < 2 \<longrightarrow> ed_score d = -1 \<and> ed_period d = -1"
    and "hs @ map rec_signal (filter is_entry rs) = ks" "length ks < n"
  shows "\<exists>d'. fold_result detector_update rs d = Inr d' \<and> (2 \<le> length ks \<longrightarrow> found ks d') \<and>
    (length ks < 2 \<longrightarrow> ed_score d' = -1 \<and> ed_period d' = -1)"
  using assms
proof (induction rs arbitrary: hs d)
  case Nil
  then show ?case by auto
next
  case (Cons r rs)
  show ?case
  proof (cases "is_entry r")
    case False
    then have "detector_update r d = Inr d" by (simp add: detector_update_def)
    then show ?thesis using Cons.IH[OF Cons.prems(1-4)] Cons.prems(5,6) False by simp
  next
    case True
    let ?hs = "hs @ [rec_signal r]"
    have ks: "?hs @ map rec_signal (filter is_entry rs) = ks" using Cons.prems(5) True by simp
    then have "Suc (length hs) < n" using Cons.prems(6) by (auto simp flip: ks)
    then obtain d' where d': "detector_update r d = Inr d'" "detects n ?hs d'"
        "good n ?hs (cells (length ?hs)) (ed_DP d')" "2 \<le> length ?hs \<longrightarrow> found ?hs d'"
        "length ?hs < 2 \<longrightarrow> ed_score d' = ed_score d \<and> ed_period d' = ed_period d"
      using update_good[OF Cons.prems(1,2) True] by blast
    have "length ?hs < 2 \<longrightarrow> ed_score d' = -1 \<and> ed_period d' = -1" using d'(5) Cons.prems(4) by simp
    then show ?thesis using Cons.IH[OF d'(2-4) _ ks Cons.prems(6)] d'(1) by simp
  qed
qed

lemma detector_new_detects:
  assumes "detector_new (int n) = Inr d" "0 < n"
  shows "detects n [] d \<and> good n [] (cells 0) (ed_DP d) \<and> ed_score d = -1 \<and> ed_period d = -1"
proof -
  have n2: "int n * int n \<le> INT_MAX" and d: "d = \<lparr>ed_history_buffer = cb_make 0 n, ed_history_buffer_size = int n,
            ed_period = -1, ed_score = -1, ed_record_count = 0, ed_DP = replicate (n * n * n) 0\<rparr>"
    using assms(1) by (auto simp: detector_new_def imul_def and_then_eq_Inr simp flip: of_nat_mult split: if_splits)
  have "int n * 1 \<le> int n * int n" using assms(2) by (intro mult_left_mono) auto
  then have "int n < 2 ^ 31" using n2 by (simp add: INT_MAX_def)
  then show ?thesis using assms(2) by (auto simp: d detects_def good_def cells_def)
qed

lemma best_period:
  assumes "found hs d" "hs \<noteq> []"
  shows "\<exists>m p. first_best (best_match hs) ((length hs + 1) div 2) (length hs) m \<and>
    ed_score d = int (best_match hs m) \<and> ed_period d = int p \<and>
    is_period (drop m hs) p \<and> (\<forall>q. is_period (drop m hs) q \<longrightarrow> p \<le> q)"
proof -
  obtain m where m: "first_best (best_match hs) ((length hs + 1) div 2) (length hs) m"
      "ed_score d = int (best_match hs m)" "ed_period d = int (smallest_period (drop m hs))"
    using assms(1) by (auto simp: found_def)
  then have "drop m hs \<noteq> []" by (simp add: first_best_def)
  then show ?thesis using m smallest_period_least[of "drop m hs"] by blast
qed

text \<open>
  C31: While the history buffer has not been filled, the periodicity detector computes what it is
  meant to. On every stream it returns; records other than region entries are ignored; with at least
  two entries, the score is the smallest edit distance (an insertion or a deletion costing one, a
  replacement two) between the second part of a split of the history and a run of records that ends at
  the split, over the splits in the second half, the earliest of the best ones being chosen; and the
  period is the length of the shortest list that the second part is a repetition of.
\<close>

theorem detector_finds_period:
  assumes "detector_new (int n) = Inr d0" and "hs = map rec_signal (filter is_entry rs)" and "length hs < n"
  shows "\<exists>d. fold_result detector_update rs d0 = Inr d \<and>
    (if length hs < 2 then ed_score d = -1 \<and> ed_period d = -1
     else \<exists>m p. first_best (best_match hs) ((length hs + 1) div 2) (length hs) m \<and>
       ed_score d = int (best_match hs m) \<and> ed_period d = int p \<and>
       is_period (drop m hs) p \<and> (\<forall>q. is_period (drop m hs) q \<longrightarrow> p \<le> q))"
proof -
  have new: "detects n [] d0" "good n [] (cells (length [])) (ed_DP d0)" "ed_score d0 = -1 \<and> ed_period d0 = -1"
    using detector_new_detects[OF assms(1)] assms(3) by auto
  obtain d where d: "fold_result detector_update rs d0 = Inr d" "2 \<le> length hs \<longrightarrow> found hs d"
      "length hs < 2 \<longrightarrow> ed_score d = -1 \<and> ed_period d = -1"
    using detector_run[OF new(1,2) _ _ _ assms(3), of rs] new(3) assms(2) by auto
  show ?thesis
  proof (cases "length hs < 2")
    case True
    then show ?thesis using d by auto
  next
    case False
    then have "found hs d" "hs \<noteq> []" using d(2) by auto
    from best_period[OF this] show ?thesis using d(1) False by auto
  qed
qed

theorem detector_finds_period_witness:
  "\<exists>d0 d. detector_new 5 = Inr d0 \<and>
     fold_result detector_update [demo_record 1 0 7, demo_record 2 0 8, demo_record 2 1 8, demo_record 3 0 7, demo_record 4 0 8] d0 = Inr d \<and>
     ed_score d = 0 \<and> ed_period d = 2"
proof -
  let ?rs = "[demo_record 1 0 7, demo_record 2 0 8, demo_record 2 1 8, demo_record 3 0 7, demo_record 4 0 8]"
  let ?hs = "[7, 8, 7, 8] :: 64 word list"
  obtain d0 where d0: "detector_new (int 5) = Inr d0" by (simp add: detector_new_def imul_def INT_MAX_def INT_MIN_def)
  have hs: "?hs = map rec_signal (filter is_entry ?rs)" by (simp add: demo_record_sel)
  obtain d m p where d: "fold_result detector_update ?rs d0 = Inr d" "first_best (best_match ?hs) 2 4 m"
      "ed_score d = int (best_match ?hs m)" "ed_period d = int p"
      "is_period (drop m ?hs) p" "\<forall>q. is_period (drop m ?hs) q \<longrightarrow> p \<le> q"
  proof -
    have n: "length ?hs = 4" "(4 < (2 :: nat)) = False" "(4 + 1) div 2 = (2 :: nat)" "length ?hs < 5" by simp_all
    from detector_finds_period[OF d0 hs n(4)] show ?thesis unfolding n(1-3) if_False using that by blast
  qed
  have two: "best_match ?hs 2 = 0" and three: "best_match ?hs 3 = 1" by (simp_all add: best_match_cost numeral_eq_Suc)
  have "2 \<le> m" "m < 4" and le: "best_match ?hs m \<le> best_match ?hs 2" using d(2) by (auto simp: first_best_def)
  then have m: "m = 2" using two three by (cases "m = 3") auto
  have "is_period (drop m ?hs) 2" by (simp add: m is_period_def)
  then have "p \<le> 2" using d(6) by blast
  moreover have "p \<noteq> 0" "p \<noteq> 1" using d(5) by (auto simp: m is_period_def numeral_eq_Suc)
  ultimately have "p = 2" by linarith
  then show ?thesis using d0 d(1,3,4) m two by auto
qed

end
