(* ===== verification/Application_Status.thy ===== *)
theory Application_Status
  imports Application_Records
begin

text \<open>
  The status of the application on each CPU (\<^verbatim>\<open>ApplicationStatus\<close>): the hint and the hash of the
  region that runs there and the work units of a parallel loop. The application writes it to
  shared memory, the controller reads from a copy that \<^verbatim>\<open>update_cache()\<close> takes. No lock is held: the
  class relies on stores of 32 bits being atomic. The operations are first modelled as actions; the
  section on interleaving breaks them into their stores and loads, one step each.
\<close>

section \<open>State\<close>

record cpu_status =
  cs_process :: int
  cs_hint :: "32 word"
  cs_hash :: "32 word"
  cs_total_work :: "32 word"
  cs_completed_work :: "32 word"

record app_status =
  st_num_cpu :: int
  st_buffer :: "cpu_status list"   \<comment> \<open>in shared memory\<close>
  st_cache :: "cpu_status list"    \<comment> \<open>the entries of the cache that are used\<close>

abbreviation (input) M_STATUS_SIZE :: "64 word" where "M_STATUS_SIZE \<equiv> 64"

definition buffer_size :: "int \<Rightarrow> 64 word" where
  "buffer_size num_cpu = M_STATUS_SIZE * word_of_int num_cpu"

datatype status_field = Process | Hint | Hash | Total_work | Completed_work

text \<open>One entry of the copy, field by field.\<close>

fun load_field :: "status_field \<Rightarrow> cpu_status \<Rightarrow> cpu_status \<Rightarrow> cpu_status" where
  "load_field Process src dst = dst\<lparr>cs_process := cs_process src\<rparr>"
| "load_field Hint src dst = dst\<lparr>cs_hint := cs_hint src\<rparr>"
| "load_field Hash src dst = dst\<lparr>cs_hash := cs_hash src\<rparr>"
| "load_field Total_work src dst = dst\<lparr>cs_total_work := cs_total_work src\<rparr>"
| "load_field Completed_work src dst = dst\<lparr>cs_completed_work := cs_completed_work src\<rparr>"

definition load :: "nat \<times> status_field \<Rightarrow> app_status \<Rightarrow> app_status" where
  "load = (\<lambda>(i, f) s. s\<lparr>st_cache := (st_cache s)[i := load_field f (st_buffer s ! i) (st_cache s ! i)]\<rparr>)"

definition status_loads :: "int \<Rightarrow> (nat \<times> status_field) list" where
  "status_loads num_cpu =
     concat (map (\<lambda>i. map (Pair i) [Process, Hint, Hash, Total_work, Completed_work]) [0..<nat num_cpu])"

definition status_update_cache :: "(app_status, unit) action" where
  "status_update_cache = modify (\<lambda>s. fold load (status_loads (st_num_cpu s)) s)"

text \<open>The contents of the shared memory are an argument; the cache starts with zeros.\<close>

definition zero_status :: cpu_status where
  "zero_status = \<lparr>cs_process = 0, cs_hint = 0, cs_hash = 0, cs_total_work = 0, cs_completed_work = 0\<rparr>"

definition make_status :: "64 word \<Rightarrow> cpu_status list \<Rightarrow> int \<Rightarrow> app_status result" where
  "make_status shmem_size contents num_cpu =
     (if shmem_size \<noteq> buffer_size num_cpu then Inl invalid
      else fst (bind status_update_cache (\<lambda>_. gets (\<lambda>s. s))
             \<lparr>st_num_cpu = num_cpu, st_buffer = contents, st_cache = replicate (nat num_cpu) zero_status\<rparr>))"

section \<open>Operations\<close>

definition check_cpu :: "int \<Rightarrow> (app_status, unit) action" where
  "check_cpu cpu_idx =
     bind (gets st_num_cpu) (\<lambda>num_cpu. guard (\<not> (cpu_idx < 0 \<or> cpu_idx \<ge> num_cpu)) invalid)"

datatype store =
    Store_hint "32 word" | Store_hash "32 word" | Store_total_work "32 word" | Store_completed_work "32 word"

fun store_field :: "store \<Rightarrow> cpu_status \<Rightarrow> cpu_status" where
  "store_field (Store_hint v) c = c\<lparr>cs_hint := v\<rparr>"
| "store_field (Store_hash v) c = c\<lparr>cs_hash := v\<rparr>"
| "store_field (Store_total_work v) c = c\<lparr>cs_total_work := v\<rparr>"
| "store_field (Store_completed_work v) c = c\<lparr>cs_completed_work := v\<rparr>"

definition put :: "int \<times> store \<Rightarrow> app_status \<Rightarrow> app_status" where
  "put = (\<lambda>(cpu_idx, v) s. s\<lparr>st_buffer := (st_buffer s)[nat cpu_idx := store_field v (st_buffer s ! nat cpu_idx)]\<rparr>)"

definition status_set_hint :: "int \<Rightarrow> 64 word \<Rightarrow> (app_status, unit) action" where
  "status_set_hint cpu_idx hint =
     bind (check_cpu cpu_idx) (\<lambda>_.
     bind (lift (check_hint hint)) (\<lambda>_.
     modify (put (cpu_idx, Store_hint (ucast hint)))))"

definition status_get_hint :: "int \<Rightarrow> (app_status, 64 word) action" where
  "status_get_hint cpu_idx =
     bind (check_cpu cpu_idx) (\<lambda>_.
     bind (gets (\<lambda>s. ucast (cs_hint (st_cache s ! nat cpu_idx)))) (\<lambda>result.
     bind (lift (check_hint result)) (\<lambda>_.
     ret result)))"

definition status_set_hash :: "int \<Rightarrow> 64 word \<Rightarrow> 64 word \<Rightarrow> (app_status, unit) action" where
  "status_set_hash cpu_idx hash hint =
     bind (check_cpu cpu_idx) (\<lambda>_.
     bind (guard (\<not> and (push_bit 32 (not 0)) hash \<noteq> 0) invalid) (\<lambda>_.
     bind (lift (check_hint hint)) (\<lambda>_.
     bind (modify (put (cpu_idx, Store_hash (ucast hash)))) (\<lambda>_.
     modify (put (cpu_idx, Store_hint (ucast hint)))))))"

definition status_get_hash :: "int \<Rightarrow> (app_status, 64 word) action" where
  "status_get_hash cpu_idx =
     bind (check_cpu cpu_idx) (\<lambda>_. gets (\<lambda>s. ucast (cs_hash (st_cache s ! nat cpu_idx))))"

definition reset_work_units :: "int \<Rightarrow> (app_status, unit) action" where
  "reset_work_units cpu_idx =
     bind (check_cpu cpu_idx) (\<lambda>_.
     bind (modify (put (cpu_idx, Store_total_work 0))) (\<lambda>_.
     modify (put (cpu_idx, Store_completed_work 0))))"

definition set_total_work_units :: "int \<Rightarrow> int \<Rightarrow> (app_status, unit) action" where
  "set_total_work_units cpu_idx work_units =
     bind (check_cpu cpu_idx) (\<lambda>_.
     bind (guard (\<not> work_units \<le> 0) invalid) (\<lambda>_.
     modify (put (cpu_idx, Store_total_work (word_of_int work_units)))))"

definition increment_work_unit :: "int \<Rightarrow> (app_status, unit) action" where
  "increment_work_unit cpu_idx =
     bind (check_cpu cpu_idx) (\<lambda>_.
     bind (gets (\<lambda>s. st_buffer s ! nat cpu_idx)) (\<lambda>c.
     if cs_total_work c \<noteq> 0
     then modify (put (cpu_idx, Store_completed_work (cs_completed_work c + 1)))
     else ret ()))"

definition get_progress_cpu :: "int \<Rightarrow> (app_status, double) action" where
  "get_progress_cpu cpu_idx =
     bind (check_cpu cpu_idx) (\<lambda>_.
     gets (\<lambda>s. let c = st_cache s ! nat cpu_idx; total_work = sint (cs_total_work c)
               in if total_work \<noteq> 0 then ddiv (d_of_int (uint (cs_completed_work c))) (d_of_int total_work)
                  else NaN))"

section \<open>Interleaving\<close>

text \<open>
  The calls of the writing threads, the stores each of them performs, in order, and the result of
  the checks before them. The increment loads the counter when the call begins.
\<close>

datatype status_call =
    Set_hint int "64 word"
  | Set_hash int "64 word" "64 word"
  | Reset_work_units int
  | Set_total_work_units int int
  | Increment_work_unit int

fun call_action :: "status_call \<Rightarrow> (app_status, unit) action" where
  "call_action (Set_hint cpu_idx hint) = status_set_hint cpu_idx hint"
| "call_action (Set_hash cpu_idx hash hint) = status_set_hash cpu_idx hash hint"
| "call_action (Reset_work_units cpu_idx) = reset_work_units cpu_idx"
| "call_action (Set_total_work_units cpu_idx work_units) = set_total_work_units cpu_idx work_units"
| "call_action (Increment_work_unit cpu_idx) = increment_work_unit cpu_idx"

definition in_range :: "app_status \<Rightarrow> int \<Rightarrow> bool" where
  "in_range s cpu_idx \<longleftrightarrow> 0 \<le> cpu_idx \<and> cpu_idx < st_num_cpu s"

fun call_stores :: "status_call \<Rightarrow> app_status \<Rightarrow> (int \<times> store) list result" where
  "call_stores (Set_hint cpu_idx hint) s =
     (if in_range s cpu_idx \<and> hint < GEOPM_NUM_REGION_HINT then Inr [(cpu_idx, Store_hint (ucast hint))] else Inl invalid)"
| "call_stores (Set_hash cpu_idx hash hint) s =
     (if in_range s cpu_idx \<and> and (push_bit 32 (not 0)) hash = 0 \<and> hint < GEOPM_NUM_REGION_HINT
      then Inr [(cpu_idx, Store_hash (ucast hash)), (cpu_idx, Store_hint (ucast hint))] else Inl invalid)"
| "call_stores (Reset_work_units cpu_idx) s =
     (if in_range s cpu_idx then Inr [(cpu_idx, Store_total_work 0), (cpu_idx, Store_completed_work 0)] else Inl invalid)"
| "call_stores (Set_total_work_units cpu_idx work_units) s =
     (if in_range s cpu_idx \<and> 0 < work_units then Inr [(cpu_idx, Store_total_work (word_of_int work_units))] else Inl invalid)"
| "call_stores (Increment_work_unit cpu_idx) s =
     (if in_range s cpu_idx
      then Inr (if cs_total_work (st_buffer s ! nat cpu_idx) \<noteq> 0
                then [(cpu_idx, Store_completed_work (cs_completed_work (st_buffer s ! nat cpu_idx) + 1))] else [])
      else Inl invalid)"

text \<open>Without interleaving, the stores of a call are the call.\<close>

lemma call_action_stores:
  "call_action c s = (case call_stores c s of Inl e \<Rightarrow> (Inl e, s) | Inr ws \<Rightarrow> (Inr (), fold put ws s))"
  by (cases c) (auto simp: status_set_hint_def status_set_hash_def reset_work_units_def set_total_work_units_def
      increment_work_unit_def check_cpu_def check_hint_def in_range_def act_simps bind_def[of "bind _ _"] split: if_splits)

record system =
  sys_status :: app_status
  sys_pending :: "nat \<Rightarrow> (int \<times> store) list"   \<comment> \<open>what each writing thread has still to store\<close>

inductive status_step :: "status_call set \<Rightarrow> system \<Rightarrow> system \<Rightarrow> bool" for calls where
  begin_call: "sys_pending s w = [] \<Longrightarrow> c \<in> calls \<Longrightarrow> call_stores c (sys_status s) = Inr ws \<Longrightarrow>
     status_step calls s (s\<lparr>sys_pending := (sys_pending s)(w := ws)\<rparr>)"
| perform_store: "sys_pending s w = a # ws \<Longrightarrow>
     status_step calls s (s\<lparr>sys_status := put a (sys_status s), sys_pending := (sys_pending s)(w := ws)\<rparr>)"
| load_one: "l \<in> set (status_loads (st_num_cpu (sys_status s))) \<Longrightarrow>
     status_step calls s (s\<lparr>sys_status := load l (sys_status s)\<rparr>)"

text \<open>The values that may be seen for a CPU: the first one, and those of the calls for that CPU.\<close>

definition hints_of :: "status_call set \<Rightarrow> int \<Rightarrow> 64 word set" where
  "hints_of calls cpu_idx = {h. h < GEOPM_NUM_REGION_HINT \<and>
     (Set_hint cpu_idx h \<in> calls \<or> (\<exists>hash. Set_hash cpu_idx hash h \<in> calls))}"

definition hashes_of :: "status_call set \<Rightarrow> int \<Rightarrow> 64 word set" where
  "hashes_of calls cpu_idx = {hash. hash < 2 ^ 32 \<and> (\<exists>h. Set_hash cpu_idx hash h \<in> calls)}"

definition seen_ok :: "status_call set \<Rightarrow> cpu_status list \<Rightarrow> nat \<Rightarrow> cpu_status \<Rightarrow> bool" where
  "seen_ok calls contents i c \<longleftrightarrow>
     ucast (cs_hint c) \<in> insert (ucast (cs_hint (contents ! i))) (hints_of calls (int i)) \<and>
     ucast (cs_hash c) \<in> insert (ucast (cs_hash (contents ! i)) :: 64 word) (hashes_of calls (int i))"

definition store_ok :: "status_call set \<Rightarrow> int \<times> store \<Rightarrow> bool" where
  "store_ok calls a \<longleftrightarrow> (case a of
      (cpu_idx, Store_hint v) \<Rightarrow> ucast v \<in> hints_of calls cpu_idx
    | (cpu_idx, Store_hash v) \<Rightarrow> ucast v \<in> hashes_of calls cpu_idx
    | _ \<Rightarrow> True)"

definition entries_ok :: "status_call set \<Rightarrow> cpu_status list \<Rightarrow> cpu_status list \<Rightarrow> bool" where
  "entries_ok calls contents xs \<longleftrightarrow> length xs = length contents \<and> (\<forall>i < length xs. seen_ok calls contents i (xs ! i))"

definition system_ok :: "status_call set \<Rightarrow> cpu_status list \<Rightarrow> system \<Rightarrow> bool" where
  "system_ok calls contents s \<longleftrightarrow> st_num_cpu (sys_status s) = int (length contents) \<and>
     entries_ok calls contents (st_buffer (sys_status s)) \<and> entries_ok calls contents (st_cache (sys_status s)) \<and>
     (\<forall>w. \<forall>a \<in> set (sys_pending s w). 0 \<le> fst a \<and> store_ok calls a)"

lemma ucast_32: "x < 2 ^ 32 \<Longrightarrow> ucast (ucast (x :: 64 word) :: 32 word) = x"
proof -
  assume "x < 2 ^ 32"
  then have "unat x < 2 ^ 32" by (simp add: word_less_nat_alt)
  then have "unat (ucast (ucast x :: 32 word) :: 64 word) = unat x" by (simp add: unsigned_ucast_eq unsigned_take_bit_eq take_bit_nat_eq_self)
  then show ?thesis by (simp only: word_unat_eq_iff)
qed

lemma ucast_hint: "hint < GEOPM_NUM_REGION_HINT \<Longrightarrow> ucast (ucast (hint :: 64 word) :: 32 word) = hint"
  by (rule ucast_32) (simp add: word_less_nat_alt)

lemma ucast_hash:
  assumes "and (push_bit 32 (not 0)) (hash :: 64 word) = 0"
  shows "ucast (ucast hash :: 32 word) = hash \<and> hash < 2 ^ 32"
proof -
  have "bit hash n \<Longrightarrow> n < 32" for n
  proof (rule ccontr)
    assume n: "bit hash n" "\<not> n < 32"
    then have "bit (and (push_bit 32 (not 0)) hash) n" by (auto simp: bit_simps dest: bit_imp_le_length)
    then show False using assms by simp
  qed
  then have "hash = take_bit 32 hash" by (intro bit_eqI) (auto simp: bit_take_bit_iff)
  then have "unat hash < 2 ^ 32" by (metis unsigned_take_bit_eq take_bit_nat_less_exp)
  then have "hash < 2 ^ 32" by (simp add: word_less_nat_alt)
  then show ?thesis using ucast_32 by blast
qed

lemma entries_ok_update:
  "entries_ok calls contents xs \<Longrightarrow> (i < length xs \<Longrightarrow> seen_ok calls contents i c) \<Longrightarrow> entries_ok calls contents (xs[i := c])"
  by (cases "i < length xs") (auto simp: entries_ok_def nth_list_update)

lemma call_stores_ok:
  assumes "call_stores c s = Inr ws" "c \<in> calls" "a \<in> set ws"
  shows "0 \<le> fst a \<and> store_ok calls a"
  using assms ucast_hash
  by (cases c) (auto simp: store_ok_def in_range_def hints_of_def hashes_of_def ucast_hint split: if_splits, blast+)


lemma system_ok_step:
  assumes "status_step calls s t" "system_ok calls contents s"
  shows "system_ok calls contents t"
  using assms
proof (induction rule: status_step.induct)
  case (begin_call s w c ws)
  then show ?case using call_stores_ok[of c _ ws calls] by (auto simp: system_ok_def)
next
  case (perform_store s w a ws)
  obtain cpu v where a: "a = (cpu, v)" by fastforce
  have "\<forall>a \<in> set (sys_pending s w). 0 \<le> fst a \<and> store_ok calls a" using perform_store(2) unfolding system_ok_def by blast
  then have v: "0 \<le> cpu" "store_ok calls (cpu, v)" "\<forall>a \<in> set ws. 0 \<le> fst a \<and> store_ok calls a"
    using perform_store(1) a by simp_all
  have buffer: "entries_ok calls contents (st_buffer (sys_status s))" using perform_store by (simp add: system_ok_def)
  have "seen_ok calls contents (nat cpu) (store_field v (st_buffer (sys_status s) ! nat cpu))"
    if "nat cpu < length (st_buffer (sys_status s))"
    using that v buffer by (cases v) (auto simp: entries_ok_def seen_ok_def store_ok_def)
  from entries_ok_update[OF buffer this] show ?case
    using perform_store(2) v by (auto simp: a put_def system_ok_def fun_upd_def)
next
  case (load_one l s)
  obtain i f where l: "l = (i, f)" by fastforce
  have ok: "entries_ok calls contents (st_buffer (sys_status s))" "entries_ok calls contents (st_cache (sys_status s))"
    using load_one by (simp_all add: system_ok_def)
  have "seen_ok calls contents i (load_field f (st_buffer (sys_status s) ! i) (st_cache (sys_status s) ! i))"
    if "i < length (st_cache (sys_status s))"
    using that ok by (cases f) (auto simp: entries_ok_def seen_ok_def)
  from entries_ok_update[OF ok(2) this] show ?case using load_one by (auto simp: l load_def system_ok_def)
qed

lemma system_ok_steps: "(status_step calls)\<^sup>*\<^sup>* s t \<Longrightarrow> system_ok calls contents s \<Longrightarrow> system_ok calls contents t"
  by (induction rule: rtranclp_induct) (auto intro: system_ok_step)

section \<open>Reading the cache\<close>

lemma status_loads_Suc: "status_loads (int (Suc n)) = status_loads (int n) @ map (Pair n) [Process, Hint, Hash, Total_work, Completed_work]"
  by (simp add: status_loads_def nat_int_add flip: of_nat_Suc)

lemma load_fields:
  assumes "i < length (st_cache s)"
  shows "fold load (map (Pair i) [Process, Hint, Hash, Total_work, Completed_work]) s =
    s\<lparr>st_cache := (st_cache s)[i := st_buffer s ! i]\<rparr>"
proof -
  have eq: "c\<lparr>cs_process := cs_process d, cs_hint := cs_hint d, cs_hash := cs_hash d, cs_total_work := cs_total_work d,
      cs_completed_work := cs_completed_work d\<rparr> = d" for c d :: cpu_status
    by (cases c, cases d) simp
  show ?thesis using assms by (simp add: load_def) (simp only: eq)
qed

lemma fold_loads:
  "n \<le> length (st_cache s) \<Longrightarrow> n \<le> length (st_buffer s) \<Longrightarrow>
   fold load (status_loads (int n)) s = s\<lparr>st_cache := take n (st_buffer s) @ drop n (st_cache s)\<rparr>"
proof (induction n)
  case 0
  then show ?case by (simp add: status_loads_def)
next
  case (Suc n)
  then have "fold load (status_loads (int (Suc n))) s =
      fold load (map (Pair n) [Process, Hint, Hash, Total_work, Completed_work]) (s\<lparr>st_cache := take n (st_buffer s) @ drop n (st_cache s)\<rparr>)"
    by (simp only: status_loads_Suc fold_append) simp
  also have "\<dots> = s\<lparr>st_cache := (take n (st_buffer s) @ drop n (st_cache s))[n := st_buffer s ! n]\<rparr>"
    using Suc.prems by (subst load_fields) simp_all
  also have "(take n (st_buffer s) @ drop n (st_cache s))[n := st_buffer s ! n] = take (Suc n) (st_buffer s) @ drop (Suc n) (st_cache s)"
    using Suc.prems by (simp add: list_update_append take_Suc_conv_app_nth Cons_nth_drop_Suc[symmetric])
  finally show ?case .
qed

lemma update_cache_copies:
  assumes "st_num_cpu s = int (length (st_buffer s))" "length (st_cache s) = length (st_buffer s)"
  shows "status_update_cache s = (Inr (), s\<lparr>st_cache := st_buffer s\<rparr>)"
  using assms fold_loads[of "length (st_buffer s)" s] by (simp add: status_update_cache_def act_simps)

lemma make_status_eq:
  assumes "make_status shmem_size contents (int (length contents)) = Inr st"
  shows "st = \<lparr>st_num_cpu = int (length contents), st_buffer = contents, st_cache = contents\<rparr>"
  using assms by (simp add: make_status_def bind_def update_cache_copies act_simps split: if_splits)

text \<open>
  C32: Without a lock, what the controller reads is still valid. The threads of the application
  may make any calls, and their stores, in the order of each thread, and the loads of
  \<^verbatim>\<open>update_cache()\<close> may be interleaved in any way: in every reachable state \<^verbatim>\<open>get_hint()\<close> and
  \<^verbatim>\<open>get_hash()\<close> return, for each CPU of the node, a valid hint and a 32 bit hash that were in shared memory
  at first or that some call set for that CPU. (The pair may be torn: the two values need
  not be of the same call.)
\<close>

theorem status_reads_valid:
  assumes "make_status shmem_size contents (int (length contents)) = Inr st"
    and "\<forall>c \<in> set contents. ucast (cs_hint c) < GEOPM_NUM_REGION_HINT"
    and "(status_step calls)\<^sup>*\<^sup>* \<lparr>sys_status = st, sys_pending = (\<lambda>_. [])\<rparr> s"
    and "i < length contents"
  shows "\<exists>hint hash. status_get_hint (int i) (sys_status s) = (Inr hint, sys_status s) \<and>
      hint \<in> insert (ucast (cs_hint (contents ! i))) (hints_of calls (int i)) \<and> hint < GEOPM_NUM_REGION_HINT \<and>
    status_get_hash (int i) (sys_status s) = (Inr hash, sys_status s) \<and>
      hash \<in> insert (ucast (cs_hash (contents ! i))) (hashes_of calls (int i)) \<and> hash < 2 ^ 32"
proof -
  let ?c = "st_cache (sys_status s) ! i"
  have "system_ok calls contents \<lparr>sys_status = st, sys_pending = (\<lambda>_. [])\<rparr>"
    by (simp add: make_status_eq[OF assms(1)] system_ok_def entries_ok_def seen_ok_def)
  from system_ok_steps[OF assms(3) this] have ok: "seen_ok calls contents i ?c" "st_num_cpu (sys_status s) = int (length contents)"
    using assms(4) by (simp_all add: system_ok_def entries_ok_def)
  have hint: "ucast (cs_hint ?c) < GEOPM_NUM_REGION_HINT"
    using ok(1) assms(2,4) by (auto simp: seen_ok_def hints_of_def)
  have "unat (cs_hash ?c) < 2 ^ 32" using unsigned_less[of "cs_hash ?c"] by simp
  then have "unat (ucast (cs_hash ?c) :: 64 word) < 2 ^ 32" by (simp add: unsigned_ucast_eq take_bit_nat_eq_self)
  then have "(ucast (cs_hash ?c) :: 64 word) < 2 ^ 32" by (simp add: word_less_nat_alt)
  moreover have "status_get_hint (int i) (sys_status s) = (Inr (ucast (cs_hint ?c)), sys_status s)"
    using ok(2) assms(4) hint by (auto simp: status_get_hint_def check_cpu_def check_hint_def act_simps bind_def[of "bind _ _"])
  moreover have "status_get_hash (int i) (sys_status s) = (Inr (ucast (cs_hash ?c)), sys_status s)"
    using ok(2) assms(4) by (simp add: status_get_hash_def check_cpu_def act_simps bind_def[of "bind _ _"])
  ultimately show ?thesis using ok(1) hint unfolding seen_ok_def by blast
qed

theorem status_reads_valid_witness:
  "\<exists>st s. make_status 64 [zero_status] 1 = Inr st \<and>
     (status_step {Set_hash 0 7 2})\<^sup>*\<^sup>* \<lparr>sys_status = st, sys_pending = (\<lambda>_. [])\<rparr> s \<and>
     status_get_hash 0 (sys_status s) = (Inr 7, sys_status s) \<and>
     (\<exists>hint \<in> {0, 2}. status_get_hint 0 (sys_status s) = (Inr hint, sys_status s))"
proof -
  let ?calls = "{Set_hash 0 7 2}"
  let ?st = "\<lparr>st_num_cpu = 1, st_buffer = [zero_status], st_cache = [zero_status]\<rparr>"
  have st: "make_status 64 [zero_status] (int (length [zero_status])) = Inr ?st"
    using update_cache_copies[of "\<lparr>st_num_cpu = 1, st_buffer = [zero_status], st_cache = [zero_status]\<rparr>"]
    by (simp add: make_status_def buffer_size_def bind_def act_simps)
  let ?c = "zero_status\<lparr>cs_hash := 7\<rparr>"
  let ?p = "[(0, Store_hash 7), (0, Store_hint 2)]"
  let ?s0 = "\<lparr>sys_status = ?st, sys_pending = (\<lambda>_. [])\<rparr>"
  let ?s1 = "?s0\<lparr>sys_pending := (sys_pending ?s0)(0 := ?p)\<rparr>"
  let ?s2 = "?s1\<lparr>sys_status := put (0, Store_hash 7) (sys_status ?s1), sys_pending := (sys_pending ?s1)(0 := [(0, Store_hint 2)])\<rparr>"
  let ?s3 = "?s2\<lparr>sys_status := load (0, Hash) (sys_status ?s2)\<rparr>"
  have "status_step ?calls ?s0 ?s1"
  proof (rule begin_call[of _ _ "Set_hash 0 7 2"])
    have "and (push_bit 32 (not 0)) (7 :: 64 word) = 0" by code_simp
    then show "call_stores (Set_hash 0 7 2) (sys_status ?s0) = Inr ?p" by (simp add: in_range_def word_less_nat_alt)
  qed simp_all
  moreover have "status_step ?calls ?s1 ?s2" by (rule perform_store) simp
  moreover have "status_step ?calls ?s2 ?s3" by (rule load_one) (simp add: put_def status_loads_def)
  ultimately have run: "(status_step ?calls)\<^sup>*\<^sup>* ?s0 ?s3" by (meson rtranclp.rtrancl_refl rtranclp.rtrancl_into_rtrancl)
  have "status_get_hash 0 (sys_status ?s3) = (Inr 7, sys_status ?s3)"
    by (simp add: put_def load_def zero_status_def status_get_hash_def check_cpu_def act_simps bind_def[of "bind _ _"])
  moreover have "\<exists>hint \<in> {0, 2}. status_get_hint 0 (sys_status ?s3) = (Inr hint, sys_status ?s3)"
    using status_reads_valid[OF st _ run, of 0] by (auto simp: zero_status_def hints_of_def)
  ultimately show ?thesis using st run by (intro exI[of _ ?st] exI[of _ ?s3]) simp
qed

section \<open>Progress\<close>

definition status_ok :: "app_status \<Rightarrow> bool" where
  "status_ok s \<longleftrightarrow> st_num_cpu s = int (length (st_buffer s)) \<and> length (st_cache s) = length (st_buffer s)"

lemma increment_one:
  assumes "st_num_cpu s = int (length (st_buffer s))" "i < length (st_buffer s)" "cs_total_work (st_buffer s ! i) \<noteq> 0"
  shows "increment_work_unit (int i) s =
    (Inr (), s\<lparr>st_buffer := (st_buffer s)[i := (st_buffer s ! i)\<lparr>cs_completed_work := cs_completed_work (st_buffer s ! i) + 1\<rparr>]\<rparr>)"
  using assms by (simp add: increment_work_unit_def check_cpu_def act_simps bind_def[of "bind _ _"] put_def)

lemma increments:
  assumes "st_num_cpu s = int (length (st_buffer s))" "i < length (st_buffer s)" "cs_total_work (st_buffer s ! i) \<noteq> 0"
  shows "for_each (\<lambda>_. increment_work_unit (int i)) [0..<k] s =
    (Inr (), s\<lparr>st_buffer := (st_buffer s)[i := (st_buffer s ! i)\<lparr>cs_completed_work := cs_completed_work (st_buffer s ! i) + of_nat k\<rparr>]\<rparr>)"
proof (induction k)
  case (Suc k)
  let ?t = "s\<lparr>st_buffer := (st_buffer s)[i := (st_buffer s ! i)\<lparr>cs_completed_work := cs_completed_work (st_buffer s ! i) + of_nat k\<rparr>]\<rparr>"
  have "increment_work_unit (int i) ?t =
      (Inr (), s\<lparr>st_buffer := (st_buffer s)[i := (st_buffer s ! i)\<lparr>cs_completed_work := cs_completed_work (st_buffer s ! i) + of_nat (Suc k)\<rparr>]\<rparr>)"
    using increment_one[of ?t i] assms by (simp add: ac_simps)
  moreover have "[0..<Suc k] = [0..<k] @ [k]" by simp
  ultimately show ?case using Suc by (simp only: for_each_append) (simp add: bind_def)
qed simp

lemma work_cycle:
  fixes k :: nat
  assumes "status_ok s" "i < length (st_buffer s)" "0 < n" "n \<le> INT_MAX"
  defines "c \<equiv> (st_buffer s ! i)\<lparr>cs_total_work := word_of_int n, cs_completed_work := of_nat k\<rparr>"
  shows "bind (reset_work_units (int i)) (\<lambda>_. bind (set_total_work_units (int i) n)
        (\<lambda>_. bind (for_each (\<lambda>_. increment_work_unit (int i)) [0..<k]) (\<lambda>_. status_update_cache))) s =
     (Inr (), s\<lparr>st_buffer := (st_buffer s)[i := c], st_cache := (st_buffer s)[i := c]\<rparr>)"
proof -
  let ?z = "(st_buffer s ! i)\<lparr>cs_total_work := 0, cs_completed_work := 0\<rparr>"
  let ?s1 = "s\<lparr>st_buffer := (st_buffer s)[i := ?z]\<rparr>"
  let ?s2 = "s\<lparr>st_buffer := (st_buffer s)[i := ?z\<lparr>cs_total_work := word_of_int n\<rparr>]\<rparr>"
  let ?s3 = "s\<lparr>st_buffer := (st_buffer s)[i := c]\<rparr>"
  have range: "int i < st_num_cpu s" using assms by (simp add: status_ok_def)
  have 1: "reset_work_units (int i) s = (Inr (), ?s1)"
    using range assms(2) by (simp add: reset_work_units_def check_cpu_def act_simps bind_def[of "bind _ _"] put_def)
  have 2: "set_total_work_units (int i) n ?s1 = (Inr (), ?s2)"
    using range assms(2,3) by (simp add: set_total_work_units_def check_cpu_def act_simps bind_def[of "bind _ _"] put_def)
  have "uint (word_of_int n :: 32 word) = n" using assms(3,4) by (simp add: INT_MAX_def uint_word_of_int_eq take_bit_int_eq_self)
  then have "(word_of_int n :: 32 word) \<noteq> 0" using assms(3) by auto
  then have 3: "for_each (\<lambda>_. increment_work_unit (int i)) [0..<k] ?s2 = (Inr (), ?s3)"
    using increments[of ?s2 i k] assms(1,2) by (simp add: status_ok_def c_def)
  have 4: "status_update_cache ?s3 = (Inr (), s\<lparr>st_buffer := (st_buffer s)[i := c], st_cache := (st_buffer s)[i := c]\<rparr>)"
    using update_cache_copies[of ?s3] assms(1) by (simp add: status_ok_def)
  show ?thesis using 1 2 3 4 by (simp add: bind_def)
qed

text \<open>
  C33: Progress is counted as it is meant to be. A CPU whose work units are reset, that is then
  given n units and completes k of them (fewer than 2^32), is seen by the controller, after its next
  \<^verbatim>\<open>update_cache()\<close>, with the progress k / n, rounded to a double, which is between 0 and 1 while k is
  at most n. The reset is needed: \<^verbatim>\<open>set_total_work_units()\<close> leaves the completed work as it is.
\<close>

theorem progress_counts:
  assumes "status_ok s" "i < length (st_buffer s)" "0 < n" "n \<le> INT_MAX" "k < 2 ^ 32"
  shows "\<exists>t u. bind (reset_work_units (int i)) (\<lambda>_. bind (set_total_work_units (int i) n)
        (\<lambda>_. bind (for_each (\<lambda>_. increment_work_unit (int i)) [0..<k]) (\<lambda>_. status_update_cache))) s = (Inr (), t) \<and>
     get_progress_cpu (int i) t = (Inr (round64 (of_nat k / of_int n)), t) \<and>
     (int k \<le> n \<longrightarrow> Fin 0 \<le> round64 (of_nat k / of_int n) \<and> round64 (of_nat k / of_int n) \<le> Fin 1) \<and>
     set_total_work_units (int i) n s = (Inr (), u) \<and>
       cs_completed_work (st_buffer u ! i) = cs_completed_work (st_buffer s ! i)"
proof -
  let ?c = "(st_buffer s ! i)\<lparr>cs_total_work := word_of_int n, cs_completed_work := of_nat k\<rparr>"
  let ?t = "s\<lparr>st_buffer := (st_buffer s)[i := ?c], st_cache := (st_buffer s)[i := ?c]\<rparr>"
  let ?u = "s\<lparr>st_buffer := (st_buffer s)[i := (st_buffer s ! i)\<lparr>cs_total_work := word_of_int n\<rparr>]\<rparr>"
  have range: "int i < st_num_cpu s" using assms by (simp add: status_ok_def)
  have n: "sint (word_of_int n :: 32 word) = n" using assms(3,4) by (simp add: INT_MAX_def signed_of_int signed_take_bit_int_eq_self)
  have k: "uint (of_nat k :: 32 word) = int k" using assms(5) by (simp add: unsigned_of_nat take_bit_nat_eq_self)
  have "d_of_int (int k) = Fin (of_nat k)" using assms(5) by (simp add: d_of_int_exact)
  moreover have "d_of_int n = Fin (of_int n)" using assms(3,4) by (simp add: d_of_int_exact INT_MAX_def)
  ultimately have "get_progress_cpu (int i) ?t = (Inr (round64 (of_nat k / of_int n)), ?t)"
    using range assms(2,3) n k by (simp add: get_progress_cpu_def check_cpu_def act_simps bind_def[of "bind _ _"] Let_def)
  moreover have "int k \<le> n \<longrightarrow> Fin 0 \<le> round64 (of_nat k / of_int n) \<and> round64 (of_nat k / of_int n) \<le> Fin 1"
  proof (intro impI conjI)
    assume "int k \<le> n"
    then have "(of_nat k :: rat) \<le> of_int n" by (metis of_int_le_iff of_int_of_nat_eq)
    then have le: "0 \<le> (of_nat k / of_int n :: rat)" "(of_nat k / of_int n :: rat) \<le> 1" using assms(3) by simp_all
    show "Fin 0 \<le> round64 (of_nat k / of_int n)" using round64_mono[OF le(1)] by simp
    show "round64 (of_nat k / of_int n) \<le> Fin 1" using round64_mono[OF le(2)] round64_of_int[of 1] by simp
  qed
  moreover have "set_total_work_units (int i) n s = (Inr (), ?u)"
    using range assms(3) by (simp add: set_total_work_units_def check_cpu_def act_simps bind_def[of "bind _ _"] put_def)
  ultimately show ?thesis using work_cycle[OF assms(1-4), of k] assms(2) by - (rule exI[of _ ?t], rule exI[of _ ?u], simp)
qed

theorem progress_counts_witness:
  "\<exists>t. bind (reset_work_units 0) (\<lambda>_. bind (set_total_work_units 0 4)
      (\<lambda>_. bind (for_each (\<lambda>_. increment_work_unit 0) [0..<1]) (\<lambda>_. status_update_cache)))
      \<lparr>st_num_cpu = 1, st_buffer = [zero_status], st_cache = [zero_status]\<rparr> = (Inr (), t) \<and>
    get_progress_cpu 0 t = (Inr (Fin (1 / 4)), t)"
proof -
  have "round_value (1 / 4) = 1 / 4" by code_simp
  then have "round64 (1 / 4) = Fin (1 / 4)" by (simp add: round64_def)
  then show ?thesis
    using progress_counts[of "\<lparr>st_num_cpu = 1, st_buffer = [zero_status], st_cache = [zero_status]\<rparr>" 0 4 1]
    by (auto simp: status_ok_def INT_MAX_def)
qed

end
