(* ===== verification/Application_Sampler.thy ===== *)
theory Application_Sampler
  imports Record_Filters Application_Status Platform_Topo
begin

text \<open>
  The controller's side of the record pipeline (\<^verbatim>\<open>ApplicationSampler\<close>). Each call of \<^verbatim>\<open>update()\<close>
  dumps the log of every process, filters and validates the records, renumbers the handles of the
  short regions so that they index one common buffer, follows the start and the end of profiling
  and the affinity of the processes, and charges the time since the last call to the hint of each CPU.
  The process map is a \<^verbatim>\<open>std::map\<close>: its list of entries by increasing process id.

  Parameters: \<open>field_to_signal\<close> is \<^verbatim>\<open>geopm_field_to_signal()\<close>, \<open>read_file\<close> the content of files and
  \<open>now\<close> the monotonic clock; \<open>status_shmem\<close> and \<open>record_shmem\<close> are the shared memory that the
  service has created. What the code prints to the terminal is not modelled.
\<close>

section \<open>State\<close>

record process_s =
  ps_filter :: "record_filter option"
  ps_valid :: validate_record
  ps_record_log :: record_log
  ps_records :: "record_s list"
  ps_short_regions :: "short_region_s list"

text \<open>The zero of time is a global object; it is kept here because only the sampler sets it.\<close>

record sampler =
  sa_record_buffer :: "record_s list"
  sa_short_region_buffer :: "short_region_s list"
  sa_status :: "app_status option"
  sa_topo :: topo
  sa_num_cpu :: int
  sa_process_map :: "(int \<times> process_s) list"
  sa_is_filtered :: bool
  sa_filter_name :: string
  sa_hint_time :: "double list list"
  sa_is_cpu_active :: "bool list"
  sa_update_time :: geopm_time_s
  sa_is_first_update :: bool
  sa_hint_last :: "64 word list"
  sa_client_cpu_map :: "(int \<times> int list) list"
  sa_client_pids :: "int list"
  sa_do_shutdown :: bool
  sa_last_stop :: geopm_time_s
  sa_total_time :: double
  sa_overhead_time :: double
  sa_num_registered :: int
  sa_num_client :: int
  sa_time_zero :: geopm_time_s
  sa_time_error :: bool

abbreviation (input) GEOPM_REGION_HINT_UNSET :: "64 word" where "GEOPM_REGION_HINT_UNSET \<equiv> 0"
abbreviation (input) GEOPM_REGION_HINT_INACTIVE :: "64 word" where "GEOPM_REGION_HINT_INACTIVE \<equiv> 9"
abbreviation (input) GEOPM_REGION_HASH_APP :: "64 word" where "GEOPM_REGION_HASH_APP \<equiv> 0x9d540c53"

definition sampler_new ::
  "app_status option \<Rightarrow> topo \<Rightarrow> (int \<times> process_s) list \<Rightarrow> bool \<Rightarrow> string \<Rightarrow> bool list \<Rightarrow> (int \<times> int list) list \<Rightarrow>
   geopm_time_s \<Rightarrow> bool \<Rightarrow> sampler result" where
  "sampler_new status topo process_map is_filtered filter_name is_cpu_active client_cpu_map zero zero_error =
     and_then (num_domain topo GEOPM_DOMAIN_CPU) (\<lambda>num_cpu.
     Inr \<lparr>sa_record_buffer = [], sa_short_region_buffer = [], sa_status = status, sa_topo = topo, sa_num_cpu = num_cpu,
       sa_process_map = process_map, sa_is_filtered = is_filtered, sa_filter_name = filter_name,
       sa_hint_time = replicate (nat num_cpu) (replicate (unat GEOPM_NUM_REGION_HINT) (Fin 0)),
       sa_is_cpu_active = (if is_cpu_active = [] then replicate (nat num_cpu) False else is_cpu_active),
       sa_update_time = \<lparr>tv_sec = 0, tv_nsec = 0\<rparr>, sa_is_first_update = True,
       sa_hint_last = replicate (nat num_cpu) GEOPM_REGION_HINT_UNSET, sa_client_cpu_map = client_cpu_map,
       sa_client_pids = [], sa_do_shutdown = False, sa_last_stop = \<lparr>tv_sec = 0, tv_nsec = 0\<rparr>, sa_total_time = Fin 0,
       sa_overhead_time = Fin 0, sa_num_registered = 0, sa_num_client = 0,
       sa_time_zero = zero, sa_time_error = zero_error\<rparr>)"

text \<open>\<^verbatim>\<open>operator[]\<close> of a vector: no check.\<close>

definition elem :: "'a list \<Rightarrow> int \<Rightarrow> 'a result" where
  "elem xs i = (if 0 \<le> i \<and> i < int (length xs) then Inr (xs ! nat i) else Inl Undefined_behavior)"

definition time_zero :: "(sampler, geopm_time_s) action" where
  "time_zero = bind (gets (\<lambda>s. (sa_time_error s, sa_time_zero s))) (\<lambda>(error, zero).
     if error then throw runtime else ret zero)"

definition time_zero_reset :: "geopm_time_s \<Rightarrow> (sampler, unit) action" where
  "time_zero_reset zero = modify (\<lambda>s. s\<lparr>sa_time_zero := zero, sa_time_error := False\<rparr>)"

section \<open>Gathering the records\<close>

definition on_log :: "(record_log, 'a) action \<Rightarrow> (process_s, 'a) action" where
  "on_log m p = (case m (ps_record_log p) of (r, l) \<Rightarrow> (r, p\<lparr>ps_record_log := l\<rparr>))"

definition on_valid :: "(validate_record, 'a) action \<Rightarrow> (process_s, 'a) action" where
  "on_valid m p = (case m (ps_valid p) of (r, v) \<Rightarrow> (r, p\<lparr>ps_valid := v\<rparr>))"

definition on_filter :: "(record_filter, 'a) action \<Rightarrow> (process_s, 'a) action" where
  "on_filter m p = (case ps_filter p of
      None \<Rightarrow> (Inl Undefined_behavior, p)
    | Some f \<Rightarrow> (case m f of (r, g) \<Rightarrow> (r, p\<lparr>ps_filter := Some g\<rparr>)))"

text \<open>The state while one process is handled: the process and the end of the record buffer.\<close>

type_synonym gathering = "process_s \<times> record_s list"

definition on_process :: "(process_s, 'a) action \<Rightarrow> (gathering, 'a) action" where
  "on_process m = (\<lambda>(p, buffer). case m p of (r, q) \<Rightarrow> (r, (q, buffer)))"

definition push_record :: "record_s \<Rightarrow> (gathering, unit) action" where
  "push_record r = modify (\<lambda>(p, buffer). (p, buffer @ [r]))"

definition process_dump :: "(process_s, unit) action" where
  "process_dump =
     bind (on_log log_dump) (\<lambda>(records, short_regions).
     modify (\<lambda>p. p\<lparr>ps_records := records, ps_short_regions := short_regions\<rparr>))"

definition filter_one :: "record_s \<Rightarrow> (gathering, unit) action" where
  "filter_one record_it =
     bind (on_process (on_filter (filter_record record_it))) (\<lambda>filtered.
     for_each (\<lambda>filtered_it.
       bind (on_process (on_valid (check filtered_it))) (\<lambda>_. push_record filtered_it)) filtered)"

definition gather_records :: "bool \<Rightarrow> (gathering, unit) action" where
  "gather_records is_filtered =
     bind (gets (\<lambda>(p, buffer). ps_records p)) (\<lambda>records.
     if is_filtered then for_each filter_one records
     else
       bind (for_each (\<lambda>record. on_process (on_valid (check record))) records) (\<lambda>_.
       modify (\<lambda>(p, buffer). (p, buffer @ records))))"

text \<open>The first \<open>remain\<close> short region events get their new handle.\<close>

fun reindex :: "nat \<Rightarrow> 64 word \<Rightarrow> record_s list \<Rightarrow> record_s list" where
  "reindex 0 offset rs = rs"
| "reindex (Suc remain) offset [] = []"
| "reindex (Suc remain) offset (r # rs) =
     (if rec_event r = EVENT_SHORT_REGION
      then r\<lparr>rec_signal := rec_signal r + offset\<rparr> # reindex remain offset rs
      else r # reindex (Suc remain) offset rs)"

definition process_update :: "bool \<Rightarrow> 64 word \<Rightarrow> (gathering, short_region_s list) action" where
  "process_update is_filtered region_offset =
     bind (on_process process_dump) (\<lambda>_.
     bind (gather_records is_filtered) (\<lambda>_.
     bind (gets (\<lambda>(p, buffer). ps_short_regions p)) (\<lambda>short_regions.
     bind (modify (\<lambda>(p, buffer). (p, reindex (length short_regions) region_offset buffer))) (\<lambda>_.
     ret short_regions))))"

text \<open>The records that were gathered before a throw stay in the buffer.\<close>

definition update_process :: "nat \<Rightarrow> (sampler, unit) action" where
  "update_process i s =
     (let (pid, p) = sa_process_map s ! i; offset = of_nat (length (sa_short_region_buffer s))
      in case process_update (sa_is_filtered s) offset (p, []) of
           (r, (q, buffer)) \<Rightarrow>
             let t = s\<lparr>sa_process_map := (sa_process_map s)[i := (pid, q)], sa_record_buffer := sa_record_buffer s @ buffer\<rparr>
             in case r of
                  Inl e \<Rightarrow> (Inl e, t)
                | Inr short_regions \<Rightarrow> (Inr (), t\<lparr>sa_short_region_buffer := sa_short_region_buffer t @ short_regions\<rparr>))"

definition update_records :: "(sampler, unit) action" where
  "update_records =
     bind (modify (\<lambda>s. s\<lparr>sa_record_buffer := [], sa_short_region_buffer := []\<rparr>)) (\<lambda>_.
     bind (gets (\<lambda>s. length (sa_process_map s))) (\<lambda>n.
     for_each update_process [0..<n]))"

definition get_short_region :: "sampler \<Rightarrow> 64 word \<Rightarrow> short_region_s result" where
  "get_short_region s event_signal =
     (if unat event_signal \<ge> length (sa_short_region_buffer s) then Inl invalid
      else Inr (sa_short_region_buffer s ! unat event_signal))"

section \<open>The CPU of the sampler\<close>

definition get_cpuset_fallback :: "(string \<Rightarrow> string result) \<Rightarrow> topo \<Rightarrow> int list result" where
  "get_cpuset_fallback read_file topo =
     (case get_cpuset read_file 0 of
        Inl (Exception e) \<Rightarrow> and_then (num_domain topo GEOPM_DOMAIN_CPU) (\<lambda>num_cpu. Inr [0..num_cpu - 1])
      | r \<Rightarrow> r)"

definition mark_core :: "topo \<Rightarrow> bool list \<Rightarrow> int \<Rightarrow> bool list \<Rightarrow> bool list result" where
  "mark_core topo is_cpu_active cpu_idx is_core_active =
     and_then (elem is_cpu_active cpu_idx) (\<lambda>active.
     if active
     then and_then (domain_idx topo GEOPM_DOMAIN_CORE cpu_idx) (\<lambda>core_idx.
          and_then (Geopm_Prelude.at is_core_active core_idx) (\<lambda>_. Inr (is_core_active[nat core_idx := True])))
     else Inr is_core_active)"

fun find_core :: "topo \<Rightarrow> int list \<Rightarrow> bool list \<Rightarrow> int list \<Rightarrow> int option result" where
  "find_core topo allowed_cpus is_core_active [] = Inr None"
| "find_core topo allowed_cpus is_core_active (core_idx # cores) =
     and_then (Geopm_Prelude.at is_core_active core_idx) (\<lambda>active.
     if active then find_core topo allowed_cpus is_core_active cores
     else
       and_then (domain_nested topo GEOPM_DOMAIN_CPU GEOPM_DOMAIN_CORE core_idx) (\<lambda>inactive_cpu.
       if inactive_cpu = [] then Inl Undefined_behavior
       else if last inactive_cpu \<notin> set allowed_cpus then find_core topo allowed_cpus is_core_active cores
       else Inr (Some (last inactive_cpu))))"

fun find_cpu :: "int list \<Rightarrow> bool list \<Rightarrow> int list \<Rightarrow> int option result" where
  "find_cpu allowed_cpus is_cpu_active [] = Inr None"
| "find_cpu allowed_cpus is_cpu_active (cpu_idx # cpus) =
     and_then (elem is_cpu_active cpu_idx) (\<lambda>active.
     if \<not> active \<and> cpu_idx \<in> set allowed_cpus then Inr (Some cpu_idx)
     else find_cpu allowed_cpus is_cpu_active cpus)"

definition sampler_cpu :: "(string \<Rightarrow> string result) \<Rightarrow> topo \<Rightarrow> int \<Rightarrow> bool list \<Rightarrow> int result" where
  "sampler_cpu read_file topo cpu_count is_cpu_active =
     and_then (num_domain topo GEOPM_DOMAIN_CORE) (\<lambda>num_core.
     and_then (get_cpuset_fallback read_file topo) (\<lambda>allowed_cpus.
     and_then (fold_result (mark_core topo is_cpu_active) [0..cpu_count - 1] (replicate (nat num_core) False)) (\<lambda>is_core_active.
     and_then (find_core topo allowed_cpus is_core_active (rev [0..num_core - 1])) (\<lambda>found_core.
     case found_core of
       Some cpu_idx \<Rightarrow> Inr cpu_idx
     | None \<Rightarrow>
         and_then (find_cpu allowed_cpus is_cpu_active (rev [0..cpu_count - 1])) (\<lambda>found_cpu.
         Inr (case found_cpu of Some cpu_idx \<Rightarrow> cpu_idx | None \<Rightarrow> cpu_count - 1))))))"

section \<open>Hints\<close>

definition on_status :: "(app_status, 'a) action \<Rightarrow> (sampler, 'a) action" where
  "on_status m s = (case sa_status s of
      None \<Rightarrow> (Inl Undefined_behavior, s)
    | Some st \<Rightarrow> (case m st of (r, u) \<Rightarrow> (r, s\<lparr>sa_status := Some u\<rparr>)))"

definition cpu_hint :: "int \<Rightarrow> (sampler, 64 word) action" where
  "cpu_hint cpu_idx =
     bind (gets sa_status) (\<lambda>status.
     if status = None then ret GEOPM_REGION_HINT_INACTIVE
     else
       bind (gets (\<lambda>s. elem (sa_is_cpu_active s) cpu_idx)) (\<lambda>res. bind (lift res) (\<lambda>active.
       if active then on_status (status_get_hint cpu_idx) else ret GEOPM_REGION_HINT_INACTIVE)))"

definition cpu_region_hash :: "int \<Rightarrow> (sampler, 64 word) action" where
  "cpu_region_hash cpu_idx =
     bind (gets sa_status) (\<lambda>status.
     if status = None then ret GEOPM_REGION_HASH_APP
     else
       bind (gets (\<lambda>s. elem (sa_is_cpu_active s) cpu_idx)) (\<lambda>res. bind (lift res) (\<lambda>active.
       if active then on_status (status_get_hash cpu_idx) else ret GEOPM_REGION_HASH_INVALID)))"

definition cpu_progress :: "int \<Rightarrow> (sampler, double) action" where
  "cpu_progress cpu_idx =
     bind (gets sa_status) (\<lambda>status. if status = None then ret (Fin 0) else on_status (get_progress_cpu cpu_idx))"

definition cpu_hint_time :: "int \<Rightarrow> 64 word \<Rightarrow> (sampler, double) action" where
  "cpu_hint_time cpu_idx hint =
     bind (gets sa_num_cpu) (\<lambda>num_cpu.
     bind (guard (\<not> (cpu_idx < 0 \<or> cpu_idx \<ge> num_cpu)) invalid) (\<lambda>_.
     bind (gets (\<lambda>s. elem (sa_is_cpu_active s) cpu_idx)) (\<lambda>res. bind (lift res) (\<lambda>active.
     if active then
       bind (lift (check_hint hint)) (\<lambda>_.
       bind (gets (\<lambda>s. and_then (elem (sa_hint_time s) cpu_idx) (\<lambda>times. elem times (uint hint)))) (\<lambda>res. lift res))
     else ret NaN))))"

definition refresh_hint :: "int \<Rightarrow> (sampler, unit) action" where
  "refresh_hint cpu_idx =
     bind (cpu_hint cpu_idx) (\<lambda>hint.
     bind (gets (\<lambda>s. update_at (sa_hint_last s) cpu_idx (\<lambda>_. Inr hint))) (\<lambda>res. bind (lift res) (\<lambda>hint_last.
     modify (\<lambda>s. s\<lparr>sa_hint_last := hint_last\<rparr>))))"

definition charge_hint :: "double \<Rightarrow> int \<Rightarrow> (sampler, unit) action" where
  "charge_hint time_delta cpu_idx =
     bind (gets (\<lambda>s. and_then (elem (sa_hint_last s) cpu_idx) (\<lambda>hint.
            update_at (sa_hint_time s) cpu_idx (\<lambda>times.
              update_at times (uint hint) (\<lambda>time. Inr (dadd time time_delta)))))) (\<lambda>res. bind (lift res) (\<lambda>hint_time.
     modify (\<lambda>s. s\<lparr>sa_hint_time := hint_time\<rparr>)))"

section \<open>Start, affinity and stop\<close>

definition all_cpus :: "sampler \<Rightarrow> int list" where
  "all_cpus s = [0..sa_num_cpu s - 1]"

text \<open>The request to move the sampling thread to the chosen CPU, whose failure is ignored, is left out.\<close>

definition update_cpu_active :: "(string \<Rightarrow> string result) \<Rightarrow> (sampler, unit) action" where
  "update_cpu_active read_file =
     bind (modify (\<lambda>s. s\<lparr>sa_is_cpu_active := map (\<lambda>_. False) (sa_is_cpu_active s)\<rparr>)) (\<lambda>_.
     bind (gets (\<lambda>s. concat (map snd (sa_client_cpu_map s)))) (\<lambda>cpus.
     bind (for_each (\<lambda>cpu_idx.
             bind (gets (\<lambda>s. update_at (sa_is_cpu_active s) cpu_idx (\<lambda>_. Inr True))) (\<lambda>res. bind (lift res) (\<lambda>active.
             modify (\<lambda>s. s\<lparr>sa_is_cpu_active := active\<rparr>)))) cpus) (\<lambda>_.
     bind (gets all_cpus) (\<lambda>all.
     bind (for_each refresh_hint all) (\<lambda>_.
     bind (gets (\<lambda>s. sampler_cpu read_file (sa_topo s) (sa_num_cpu s) (sa_is_cpu_active s))) (\<lambda>res. bind (lift res) (\<lambda>_.
     ret ())))))))"

text \<open>\<^verbatim>\<open>m_client_cpu_map[process].insert(cpu)\<close>\<close>

fun add_client_cpu :: "int \<Rightarrow> int \<Rightarrow> (int \<times> int list) list \<Rightarrow> (int \<times> int list) list" where
  "add_client_cpu process cpu [] = [(process, [cpu])]"
| "add_client_cpu process cpu ((p, cpus) # rest) =
     (if process = p then (p, insort_insert cpu cpus) # rest
      else if process < p then (process, [cpu]) # (p, cpus) # rest
      else (p, cpus) # add_client_cpu process cpu rest)"

text \<open>The conversion of a 64 bit signal to \<^verbatim>\<open>int\<close> keeps the low 32 bits.\<close>

definition int_of_signal :: "64 word \<Rightarrow> int" where
  "int_of_signal signal = sint (ucast signal :: 32 word)"

text \<open>The loop of \<^verbatim>\<open>update_start()\<close> with its local variables \<^verbatim>\<open>zero\<close>, \<^verbatim>\<open>do_update_zero\<close> and \<^verbatim>\<open>do_update_cpu\<close>.\<close>

fun start_loop :: "(64 word \<Rightarrow> double) \<Rightarrow> record_s list \<Rightarrow> geopm_time_s \<times> bool \<times> bool \<Rightarrow> (sampler, geopm_time_s \<times> bool \<times> bool) action" where
  "start_loop field_to_signal [] locals = ret locals"
| "start_loop field_to_signal (record # rs) (zero, do_update_zero, do_update_cpu) =
     (if rec_event record = EVENT_START_PROFILE then
        bind (gets sa_num_registered) (\<lambda>num_registered.
        bind (lift (int_result (num_registered + 1))) (\<lambda>incremented.
        bind (modify (\<lambda>s. s\<lparr>sa_num_registered := incremented\<rparr>)) (\<lambda>_.
        if num_registered = 0 \<or> dlt (geopm_time_diff zero (rec_time record)) (Fin 0)
        then start_loop field_to_signal rs (rec_time record, True, do_update_cpu)
        else start_loop field_to_signal rs (zero, do_update_zero, do_update_cpu))))
      else if rec_event record = EVENT_AFFINITY then
        bind (modify (\<lambda>s. s\<lparr>sa_client_cpu_map := add_client_cpu (rec_process record) (int_of_signal (rec_signal record)) (sa_client_cpu_map s)\<rparr>)) (\<lambda>_.
        start_loop field_to_signal rs (zero, do_update_zero, True))
      else if rec_event record = EVENT_OVERHEAD then
        bind (modify (\<lambda>s. s\<lparr>sa_overhead_time := dadd (sa_overhead_time s) (field_to_signal (rec_signal record))\<rparr>)) (\<lambda>_.
        start_loop field_to_signal rs (zero, do_update_zero, do_update_cpu))
      else start_loop field_to_signal rs (zero, do_update_zero, do_update_cpu))"

definition update_start :: "(64 word \<Rightarrow> double) \<Rightarrow> (string \<Rightarrow> string result) \<Rightarrow> (sampler, unit) action" where
  "update_start field_to_signal read_file =
     bind time_zero (\<lambda>zero.
     bind (gets sa_record_buffer) (\<lambda>record_buffer.
     bind (start_loop field_to_signal record_buffer (zero, False, False)) (\<lambda>(zero, do_update_zero, do_update_cpu).
     bind (if do_update_zero then time_zero_reset zero else ret ()) (\<lambda>_.
     if do_update_cpu then update_cpu_active read_file else ret ()))))"

definition stop_one :: "record_s \<Rightarrow> (sampler, unit) action" where
  "stop_one record =
     (if rec_event record = EVENT_STOP_PROFILE then
        bind (modify (\<lambda>s. if dlt (Fin 0) (geopm_time_diff (sa_last_stop s) (rec_time record))
                          then s\<lparr>sa_last_stop := rec_time record\<rparr> else s)) (\<lambda>_.
        bind (gets sa_num_registered) (\<lambda>num_registered.
        bind (lift (int_result (num_registered - 1))) (\<lambda>decremented.
        bind (modify (\<lambda>s. s\<lparr>sa_num_registered := decremented\<rparr>)) (\<lambda>_.
        bind (gets (\<lambda>s. rec_process record \<in> set (sa_client_pids s))) (\<lambda>known.
        bind (guard (\<not> \<not> known) runtime) (\<lambda>_.
        modify (\<lambda>s. s\<lparr>sa_client_pids := remove1 (rec_process record) (sa_client_pids s)\<rparr>)))))))
      else ret ())"

definition update_stop :: "(sampler, unit) action" where
  "update_stop =
     bind (gets (\<lambda>s. sa_num_registered s \<noteq> 0)) (\<lambda>is_active.
     bind time_zero (\<lambda>zero.
     bind (gets sa_record_buffer) (\<lambda>record_buffer.
     bind (for_each stop_one record_buffer) (\<lambda>_.
     bind (gets sa_num_registered) (\<lambda>num_registered.
     bind (guard (\<not> num_registered < 0) runtime) (\<lambda>_.
     if is_active \<and> num_registered = 0
     then modify (\<lambda>s. s\<lparr>sa_total_time := geopm_time_diff zero (sa_last_stop s), sa_do_shutdown := True\<rparr>)
     else ret ()))))))"

section \<open>The update\<close>

definition hint_step :: "bool \<Rightarrow> double \<Rightarrow> int \<Rightarrow> (sampler, unit) action" where
  "hint_step is_first time_delta cpu_idx =
     bind (if is_first then ret () else charge_hint time_delta cpu_idx) (\<lambda>_. refresh_hint cpu_idx)"

definition update_hints :: "geopm_time_s \<Rightarrow> (sampler, unit) action" where
  "update_hints curr_time =
     bind (gets (\<lambda>s. (sa_is_first_update s, geopm_time_diff (sa_update_time s) curr_time, all_cpus s))) (\<lambda>(is_first, time_delta, cpus).
     bind (for_each (hint_step is_first time_delta) cpus) (\<lambda>_.
     modify (\<lambda>s. s\<lparr>sa_is_first_update := False, sa_update_time := curr_time\<rparr>)))"

definition sampler_update :: "(64 word \<Rightarrow> double) \<Rightarrow> (string \<Rightarrow> string result) \<Rightarrow> geopm_time_s \<Rightarrow> (sampler, unit) action" where
  "sampler_update field_to_signal read_file curr_time =
     bind (gets sa_status) (\<lambda>status.
     if status = None then ret ()
     else
       bind update_records (\<lambda>_.
       bind (update_start field_to_signal read_file) (\<lambda>_.
       bind (on_status status_update_cache) (\<lambda>_.
       bind (update_hints curr_time) (\<lambda>_.
       update_stop)))))"

section \<open>Connecting\<close>

text \<open>\<^verbatim>\<open>std::map::emplace()\<close> of an integer key.\<close>

fun emplace_process :: "int \<Rightarrow> process_s \<Rightarrow> (int \<times> process_s) list \<Rightarrow> (int \<times> process_s) list" where
  "emplace_process pid p [] = [(pid, p)]"
| "emplace_process pid p ((k, q) # rest) =
     (if pid = k then (k, p) # rest
      else if pid < k then (pid, p) # (k, q) # rest
      else (k, q) # emplace_process pid p rest)"

definition connect_process ::
  "(string \<Rightarrow> 64 word) \<Rightarrow> (string \<Rightarrow> double result) \<Rightarrow> (int \<Rightarrow> nat result) \<Rightarrow> bool \<Rightarrow> string \<Rightarrow> int \<Rightarrow>
   (int \<times> process_s) list \<Rightarrow> (int \<times> process_s) list result" where
  "connect_process crc32_str stod record_shmem is_filtered filter_name pid processes =
     and_then (record_shmem pid) (\<lambda>shmem_size.
     if shmem_size < M_LAYOUT_SIZE then Inl runtime
     else
       and_then (if is_filtered then and_then (make_filter crc32_str stod filter_name) (\<lambda>f. Inr (Some f)) else Inr None) (\<lambda>filter.
       and_then (make_record_log shmem_size pid) (\<lambda>log.
       Inr (emplace_process pid \<lparr>ps_filter = filter, ps_valid = validate_new, ps_record_log = log,
              ps_records = [], ps_short_regions = []\<rparr> processes))))"

definition connect_status :: "(64 word \<times> cpu_status list) result \<Rightarrow> int \<Rightarrow> app_status result" where
  "connect_status status_shmem cpu_count =
     and_then status_shmem (\<lambda>(shmem_size, contents).
     if shmem_size < buffer_size cpu_count then Inl invalid
     else make_status shmem_size contents cpu_count)"

definition sampler_connect ::
  "(string \<Rightarrow> 64 word) \<Rightarrow> (string \<Rightarrow> double result) \<Rightarrow> (64 word \<times> cpu_status list) result \<Rightarrow> (int \<Rightarrow> nat result) \<Rightarrow>
   int list \<Rightarrow> (sampler, unit) action" where
  "sampler_connect crc32_str stod status_shmem record_shmem client_pids =
     bind (gets sa_status) (\<lambda>status.
     if status \<noteq> None then ret ()
     else
       bind (modify (\<lambda>s. s\<lparr>sa_num_client := int (length client_pids),
               sa_client_pids := fold insort_insert client_pids (sa_client_pids s)\<rparr>)) (\<lambda>_.
       bind (gets (\<lambda>s. connect_status status_shmem (sa_num_cpu s))) (\<lambda>res. bind (lift res) (\<lambda>status.
       bind (modify (\<lambda>s. s\<lparr>sa_status := Some status\<rparr>)) (\<lambda>_.
       bind (gets (\<lambda>s. fold_result (connect_process crc32_str stod record_shmem (sa_is_filtered s) (sa_filter_name s)) client_pids [])) (\<lambda>res.
       bind (lift res) (\<lambda>process_map.
       modify (\<lambda>s. s\<lparr>sa_process_map := process_map\<rparr>))))))))"

section \<open>Other queries\<close>

definition client_cpu_set :: "sampler \<Rightarrow> int \<Rightarrow> int list" where
  "client_cpu_set s client_pid = (case map_of (sa_client_cpu_map s) client_pid of Some cpus \<Rightarrow> cpus | None \<Rightarrow> [])"

definition total_time :: "geopm_time_s \<Rightarrow> (sampler, double) action" where
  "total_time now =
     bind (gets sa_total_time) (\<lambda>result.
     if deq result (Fin 0) then bind time_zero (\<lambda>zero. ret (geopm_time_diff zero now)) else ret result)"

definition overhead_time :: "sampler \<Rightarrow> double" where
  "overhead_time s = (if sa_num_client s \<noteq> 0 then ddiv (sa_overhead_time s) (d_of_int (sa_num_client s)) else Fin 0)"

section \<open>What the gathering keeps\<close>

abbreviation is_short :: "record_s \<Rightarrow> bool" where
  "is_short r \<equiv> rec_event r = EVENT_SHORT_REGION"

definition shift :: "64 word \<Rightarrow> record_s \<Rightarrow> record_s" where
  "shift offset r = (if is_short r then r\<lparr>rec_signal := rec_signal r + offset\<rparr> else r)"

lemma shift_event [simp]: "rec_event (shift offset r) = rec_event r"
  by (simp add: shift_def)

lemma reindex_all: "length (filter is_short rs) \<le> n \<Longrightarrow> reindex n offset rs = map (shift offset) rs"
proof (induction n offset rs rule: reindex.induct)
  case (1 offset rs)
  then have "shift offset r = r" if "r \<in> set rs" for r using that by (auto simp: shift_def filter_empty_conv)
  then show ?case by (simp add: map_idI)
qed (auto simp: shift_def)

lemma on_valid_apply: "on_process (on_valid m) (p, buffer) = (case m (ps_valid p) of (r, v) \<Rightarrow> (r, (p\<lparr>ps_valid := v\<rparr>, buffer)))"
  by (simp add: on_process_def on_valid_def split: prod.splits)

lemma check_push_apply:
  "bind (on_process (on_valid (check r))) (\<lambda>_. push_record r) (p, buffer) = (Inr x, u) \<longleftrightarrow>
   (\<exists>v. check r (ps_valid p) = (Inr (), v) \<and> u = (p\<lparr>ps_valid := v\<rparr>, buffer @ [r]))"
  by (auto simp: bind_def on_valid_apply push_record_def act_simps split: prod.splits sum.splits)

lemma for_each_Cons_Inr: "for_each f (x # xs) s = (Inr u, t) \<longleftrightarrow> (\<exists>v. f x s = (Inr (), v) \<and> for_each f xs v = (Inr u, t))"
  by (auto simp: bind_cases)

lemma check_push_all:
  "for_each (\<lambda>r. bind (on_process (on_valid (check r))) (\<lambda>_. push_record r)) outs (p, buffer) = (Inr (), (q, buffer')) \<Longrightarrow>
   buffer' = buffer @ outs \<and> (\<exists>v. q = p\<lparr>ps_valid := v\<rparr>)"
proof (induction outs arbitrary: p buffer)
  case Nil
  then show ?case by (auto intro!: exI[of _ "ps_valid p"])
next
  case (Cons r outs)
  then obtain v where
      "for_each (\<lambda>r. bind (on_process (on_valid (check r))) (\<lambda>_. push_record r)) outs (p\<lparr>ps_valid := v\<rparr>, buffer @ [r]) = (Inr (), (q, buffer'))"
    unfolding for_each_Cons_Inr check_push_apply by blast
  from Cons.IH[OF this] show ?case by auto
qed

lemma check_all:
  "for_each (\<lambda>r. on_process (on_valid (check r))) rs (p, buffer) = (Inr (), (q, buffer')) \<Longrightarrow>
   buffer' = buffer \<and> (\<exists>v. q = p\<lparr>ps_valid := v\<rparr>)"
proof (induction rs arbitrary: p)
  case Nil
  then show ?case by (auto intro!: exI[of _ "ps_valid p"])
next
  case (Cons r rs)
  then obtain v where
      "for_each (\<lambda>r. on_process (on_valid (check r))) rs (p\<lparr>ps_valid := v\<rparr>, buffer) = (Inr (), (q, buffer'))"
    unfolding for_each_Cons_Inr on_valid_apply by (auto split: prod.splits)
  from Cons.IH[OF this] show ?case by auto
qed

definition filter_ok :: "process_s \<Rightarrow> bool" where
  "filter_ok p \<longleftrightarrow> (\<forall>f. ps_filter p = Some f \<longrightarrow> filter_inv f)"

text \<open>What filtering and checking leave alone.\<close>

definition same_log :: "process_s \<Rightarrow> process_s \<Rightarrow> bool" where
  "same_log p q \<longleftrightarrow> ps_record_log q = ps_record_log p \<and> ps_records q = ps_records p \<and> ps_short_regions q = ps_short_regions p"

lemma filter_one_passes:
  assumes "filter_one r (p, buffer) = (Inr (), (q, buffer'))" "filter_ok p"
  shows "filter (\<lambda>r. \<not> is_epoch r) buffer' = filter (\<lambda>r. \<not> is_epoch r) buffer @ filter (\<lambda>r. \<not> is_epoch r) [r] \<and>
    filter_ok q \<and> same_log p q"
proof -
  obtain f outs g where f: "ps_filter p = Some f" "filter_record r f = (Inr outs, g)"
      "for_each (\<lambda>r. bind (on_process (on_valid (check r))) (\<lambda>_. push_record r)) outs (p\<lparr>ps_filter := Some g\<rparr>, buffer) = (Inr (), (q, buffer'))"
    using assms(1) by (auto simp: filter_one_def bind_cases on_process_def on_filter_def split: prod.splits option.splits)
  have "filter_inv g \<and> filter (\<lambda>r. \<not> is_epoch r) outs = filter (\<lambda>r. \<not> is_epoch r) [r]"
    using rf.step_cases[OF _ f(2)] assms(2) f(1) by (auto simp: filter_ok_def)
  moreover obtain v where "q = p\<lparr>ps_filter := Some g, ps_valid := v\<rparr>" "buffer' = buffer @ outs" using check_push_all[OF f(3)] by auto
  ultimately show ?thesis by (simp add: filter_ok_def same_log_def)
qed

lemma filter_all_passes:
  "for_each filter_one rs (p, buffer) = (Inr (), (q, buffer')) \<Longrightarrow> filter_ok p \<Longrightarrow>
   filter (\<lambda>r. \<not> is_epoch r) buffer' = filter (\<lambda>r. \<not> is_epoch r) buffer @ filter (\<lambda>r. \<not> is_epoch r) rs \<and>
   filter_ok q \<and> same_log p q"
proof (induction rs arbitrary: p buffer)
  case Nil
  then show ?case by (simp add: same_log_def)
next
  case (Cons r rs)
  then obtain p1 b1 where 1: "filter_one r (p, buffer) = (Inr (), (p1, b1))" "for_each filter_one rs (p1, b1) = (Inr (), (q, buffer'))"
    by (auto simp: bind_cases)
  from filter_one_passes[OF 1(1) Cons.prems(2)] Cons.IH[OF 1(2)] show ?case by (auto simp: same_log_def)
qed

lemma gather_records_passes:
  assumes "gather_records is_filtered (p, buffer) = (Inr (), (q, buffer'))" "filter_ok p"
  shows "filter (\<lambda>r. \<not> is_epoch r) buffer' = filter (\<lambda>r. \<not> is_epoch r) buffer @ filter (\<lambda>r. \<not> is_epoch r) (ps_records p) \<and>
    filter_ok q \<and> same_log p q"
proof (cases is_filtered)
  case True
  then show ?thesis using assms filter_all_passes[of "ps_records p" p buffer q buffer'] by (simp add: gather_records_def act_simps)
next
  case False
  then obtain b where b: "for_each (\<lambda>r. on_process (on_valid (check r))) (ps_records p) (p, buffer) = (Inr (), (q, b))"
      "buffer' = b @ ps_records p"
    using assms(1) by (auto simp: gather_records_def act_simps bind_cases)
  from check_all[OF b(1)] b(2) assms(2) show ?thesis by (auto simp: filter_ok_def same_log_def)
qed

abbreviation log_layout :: "process_s \<Rightarrow> layout" where
  "log_layout p \<equiv> rl_layout (ps_record_log p)"

lemma process_update_passes:
  assumes "process_update is_filtered offset (p, []) = (Inr shorts, (q, buffer))" "filter_ok p" "layout_ok (log_layout p)"
  shows "shorts = regions (log_layout p) \<and>
    filter (\<lambda>r. \<not> is_epoch r) buffer = map (shift offset) (filter (\<lambda>r. \<not> is_epoch r) (records (log_layout p))) \<and>
    filter_ok q \<and> ps_record_log q = (ps_record_log p)\<lparr>rl_layout := (log_layout p)\<lparr>num_record := 0, num_region := 0\<rparr>\<rparr>"
proof -
  let ?L = "log_layout p"
  let ?p = "p\<lparr>ps_record_log := (ps_record_log p)\<lparr>rl_layout := ?L\<lparr>num_record := 0, num_region := 0\<rparr>\<rparr>,
      ps_records := records ?L, ps_short_regions := regions ?L\<rparr>"
  have dump: "on_process process_dump (p, []) = (Inr (), (?p, []))"
    by (simp add: on_process_def process_dump_def on_log_def log_dump_apply bind_def act_simps)
  obtain b where b: "gather_records is_filtered (?p, []) = (Inr (), (q, b))" "shorts = ps_short_regions q"
      "buffer = reindex (length shorts) offset b"
    using assms(1) dump by (auto simp: process_update_def bind_cases act_simps)
  have ok: "filter_ok ?p" using assms(2) by (simp add: filter_ok_def)
  note pass = gather_records_passes[OF b(1) ok]
  have "filter is_short b = filter is_short (filter (\<lambda>r. \<not> is_epoch r) b)" by (simp add: filter_filter) (rule filter_cong, auto)
  also have "\<dots> = filter is_short (records ?L)" using pass by (simp add: filter_filter) (rule filter_cong, auto)
  finally have "length (filter is_short b) = length (short_signals (records ?L))" by (simp add: short_signals_def)
  also have "\<dots> = num_region ?L"
    using arg_cong[of _ _ size, OF assms(3)[unfolded layout_ok_def, THEN conjunct2, THEN conjunct2, THEN conjunct2, THEN conjunct1]] by simp
  also have "\<dots> = length (regions ?L)"
    using num_region_le[OF assms(3)] assms(3) by (simp add: regions_def layout_ok_def)
  finally have "length (filter is_short b) \<le> length shorts" using b(2) pass by (simp add: same_log_def)
  then have "buffer = map (shift offset) b" using b(3) reindex_all by blast
  then have "filter (\<lambda>r. \<not> is_epoch r) buffer = map (shift offset) (filter (\<lambda>r. \<not> is_epoch r) b)" by (simp add: filter_map comp_def)
  then show ?thesis using pass b(2) by (simp add: same_log_def)
qed

section \<open>The handles of the short regions\<close>

definition process_ok :: "process_s \<Rightarrow> bool" where
  "process_ok p \<longleftrightarrow> filter_ok p \<and> layout_ok (log_layout p)"

text \<open>The records of the processes, epochs aside, as they are to appear in the buffer.\<close>

fun gathered :: "nat \<Rightarrow> (int \<times> process_s) list \<Rightarrow> record_s list" where
  "gathered offset [] = []"
| "gathered offset ((pid, p) # rest) =
     map (shift (of_nat offset)) (filter (\<lambda>r. \<not> is_epoch r) (records (log_layout p))) @
     gathered (offset + length (regions (log_layout p))) rest"

definition all_regions :: "(int \<times> process_s) list \<Rightarrow> short_region_s list" where
  "all_regions ps = concat (map (\<lambda>(pid, p). regions (log_layout p)) ps)"

lemma all_regions_simps [simp]:
  "all_regions [] = []"
  "all_regions ((pid, p) # ps) = regions (log_layout p) @ all_regions ps"
  "all_regions (ps @ qs) = all_regions ps @ all_regions qs"
  by (simp_all add: all_regions_def)

lemma gathered_snoc:
  "gathered offset (ps @ [(pid, p)]) = gathered offset ps @
     map (shift (of_nat (offset + length (all_regions ps)))) (filter (\<lambda>r. \<not> is_epoch r) (records (log_layout p)))"
  by (induction offset ps rule: gathered.induct) (simp_all add: add.assoc)

lemma update_process_gathers:
  assumes "update_process i s = (Inr (), t)" "i < length (sa_process_map s)" "process_ok (snd (sa_process_map s ! i))"
  shows "\<exists>q. sa_process_map t = (sa_process_map s)[i := (fst (sa_process_map s ! i), q)] \<and> filter_ok q \<and>
    ps_record_log q = (ps_record_log (snd (sa_process_map s ! i)))\<lparr>rl_layout := (log_layout (snd (sa_process_map s ! i)))\<lparr>num_record := 0, num_region := 0\<rparr>\<rparr> \<and>
    sa_short_region_buffer t = sa_short_region_buffer s @ regions (log_layout (snd (sa_process_map s ! i))) \<and>
    filter (\<lambda>r. \<not> is_epoch r) (sa_record_buffer t) = filter (\<lambda>r. \<not> is_epoch r) (sa_record_buffer s) @
      map (shift (of_nat (length (sa_short_region_buffer s)))) (filter (\<lambda>r. \<not> is_epoch r) (records (log_layout (snd (sa_process_map s ! i)))))"
proof -
  obtain pid p where p: "sa_process_map s ! i = (pid, p)" by fastforce
  obtain r q b where run: "process_update (sa_is_filtered s) (of_nat (length (sa_short_region_buffer s))) (p, []) = (r, (q, b))"
    by (metis prod.collapse)
  then obtain shorts where shorts: "r = Inr shorts" using assms(1) by (cases r) (auto simp: update_process_def p Let_def)
  from process_update_passes[OF run[unfolded shorts]] assms(3) p
  show ?thesis using assms(1) run shorts by (auto simp: update_process_def process_ok_def Let_def)
qed

lemma update_loop_gathers:
  assumes "for_each update_process [0..<k] s = (Inr (), t)" "k \<le> length (sa_process_map s)"
    and "\<forall>(pid, p) \<in> set (sa_process_map s). process_ok p" "sa_record_buffer s = []" "sa_short_region_buffer s = []"
  shows "length (sa_process_map t) = length (sa_process_map s) \<and> drop k (sa_process_map t) = drop k (sa_process_map s) \<and>
    (\<forall>(pid, p) \<in> set (take k (sa_process_map t)). filter_ok p \<and> num_record (log_layout p) = 0) \<and>
    sa_short_region_buffer t = all_regions (take k (sa_process_map s)) \<and>
    filter (\<lambda>r. \<not> is_epoch r) (sa_record_buffer t) = gathered 0 (take k (sa_process_map s))"
  using assms(1,2)
proof (induction k arbitrary: t)
  case 0
  then show ?case using assms by simp
next
  case (Suc k)
  let ?pm = "sa_process_map s"
  obtain u where u: "for_each update_process [0..<k] s = (Inr (), u)" "update_process k u = (Inr (), t)"
    using Suc.prems(1) by (auto simp: for_each_append bind_cases)
  have IH: "length (sa_process_map u) = length ?pm" "drop k (sa_process_map u) = drop k ?pm"
      "\<forall>(pid, p) \<in> set (take k (sa_process_map u)). filter_ok p \<and> num_record (log_layout p) = 0"
      "sa_short_region_buffer u = all_regions (take k ?pm)"
      "filter (\<lambda>r. \<not> is_epoch r) (sa_record_buffer u) = gathered 0 (take k ?pm)"
    using Suc.IH[OF u(1)] Suc.prems(2) by simp_all
  have k: "k < length ?pm" using Suc.prems(2) by simp
  have same: "sa_process_map u ! k = ?pm ! k"
    using IH(1,2) k by (metis hd_drop_conv_nth)
  obtain pid p where p: "?pm ! k = (pid, p)" by fastforce
  then have "process_ok p" using assms(3) k nth_mem by fastforce
  then obtain q where q: "sa_process_map t = (sa_process_map u)[k := (pid, q)]" "filter_ok q"
      "ps_record_log q = (ps_record_log p)\<lparr>rl_layout := (log_layout p)\<lparr>num_record := 0, num_region := 0\<rparr>\<rparr>"
      "sa_short_region_buffer t = sa_short_region_buffer u @ regions (log_layout p)"
      "filter (\<lambda>r. \<not> is_epoch r) (sa_record_buffer t) = filter (\<lambda>r. \<not> is_epoch r) (sa_record_buffer u) @
        map (shift (of_nat (length (sa_short_region_buffer u)))) (filter (\<lambda>r. \<not> is_epoch r) (records (log_layout p)))"
    using update_process_gathers[OF u(2)] k IH(1) same p by auto
  have take: "take (Suc k) ?pm = take k ?pm @ [(pid, p)]" using k p by (simp add: take_Suc_conv_app_nth)
  have "take (Suc k) (sa_process_map t) = take k (sa_process_map u) @ [(pid, q)]"
    using k IH(1) by (simp add: q(1) take_Suc_conv_app_nth)
  then have "\<forall>(pid, p) \<in> set (take (Suc k) (sa_process_map t)). filter_ok p \<and> num_record (log_layout p) = 0"
    using IH(3) q(2,3) by auto
  moreover have "drop (Suc k) (sa_process_map t) = drop (Suc k) ?pm"
    using IH(2) by (simp add: q(1)) (metis drop_Suc tl_drop)
  ultimately show ?case using IH q(1,4,5) by (simp add: take gathered_snoc)
qed

text \<open>What the handles of one process refer to.\<close>

definition resolved :: "process_s \<Rightarrow> (record_s \<times> short_region_s) list" where
  "resolved p = map (\<lambda>r. (r\<lparr>rec_signal := 0\<rparr>, regions (log_layout p) ! unat (rec_signal r)))
     (filter is_short (records (log_layout p)))"

lemma short_signal_less:
  assumes "layout_ok L" "r \<in> set (records L)" "is_short r"
  shows "unat (rec_signal r) < length (regions L)"
proof -
  have "unat (rec_signal r) \<in># mset (short_signals (records L))" using assms(2,3) by (auto simp: short_signals_def)
  also have "mset (short_signals (records L)) = mset_set {0..<num_region L}" using assms(1) by (simp add: layout_ok_def)
  finally have "unat (rec_signal r) < num_region L" by simp
  then show ?thesis using num_region_le[OF assms(1)] assms(1) by (simp add: regions_def layout_ok_def)
qed

lemma length_regions: "layout_ok L \<Longrightarrow> length (regions L) = num_region L"
  using num_region_le[of L] by (simp add: regions_def layout_ok_def)

lemma shifted_shorts:
  assumes "layout_ok L" "offset + length (regions L) < 2 ^ 64" "r \<in> set (records L)" "is_short r"
  shows "unat (rec_signal (shift (of_nat offset) r)) = offset + unat (rec_signal r)"
proof -
  have "unat (rec_signal r) < length (regions L)" by (rule short_signal_less[OF assms(1,3,4)])
  then have "unat (rec_signal r + of_nat offset) = unat (rec_signal r) + offset"
    using assms(2) by (simp add: unat_word_ariths unsigned_of_nat take_bit_nat_eq_self)
  then show ?thesis using assms(4) by (simp add: shift_def)
qed

lemma shorts_not_epochs: "filter is_short (filter (\<lambda>r. \<not> is_epoch r) rs) = filter is_short rs"
  by (simp add: filter_filter) (rule filter_cong, auto)

lemma gathered_resolves:
  assumes "\<forall>(pid, p) \<in> set ps. process_ok p" "length pre + length (all_regions ps) < 2 ^ 64"
  shows "map (\<lambda>r. (r\<lparr>rec_signal := 0\<rparr>, (pre @ all_regions ps) ! unat (rec_signal r))) (filter is_short (gathered (length pre) ps)) =
      concat (map (\<lambda>(pid, p). resolved p) ps) \<and>
    mset (short_signals (gathered (length pre) ps)) = mset [length pre..<length pre + length (all_regions ps)]"
  using assms
proof (induction ps arbitrary: pre)
  case Nil
  then show ?case by (simp add: short_signals_def)
next
  case (Cons x ps)
  obtain pid p where x: "x = (pid, p)" by fastforce
  let ?L = "log_layout p" and ?o = "length pre"
  have L: "layout_ok ?L" using Cons.prems(1) x by (simp add: process_ok_def)
  have room: "?o + length (regions ?L) < 2 ^ 64" using Cons.prems(2) x by simp
  have IH: "map (\<lambda>r. (r\<lparr>rec_signal := 0\<rparr>, ((pre @ regions ?L) @ all_regions ps) ! unat (rec_signal r))) (filter is_short (gathered (length (pre @ regions ?L)) ps)) =
      concat (map (\<lambda>(pid, p). resolved p) ps)"
    "mset (short_signals (gathered (length (pre @ regions ?L)) ps)) = mset [length (pre @ regions ?L)..<length (pre @ regions ?L) + length (all_regions ps)]"
    using Cons.IH[of "pre @ regions ?L"] Cons.prems x by (simp_all add: add.assoc)
  let ?G = "map (shift (of_nat ?o)) (filter (\<lambda>r. \<not> is_epoch r) (records ?L))"
  have G: "filter is_short ?G = map (shift (of_nat ?o)) (filter is_short (records ?L))"
    using shorts_not_epochs[of "records ?L"] by (simp add: filter_map comp_def)
  have sig: "unat (rec_signal (shift (of_nat ?o) r)) = ?o + unat (rec_signal r)" "unat (rec_signal r) < length (regions ?L)"
      "(shift (of_nat ?o) r)\<lparr>rec_signal := 0\<rparr> = r\<lparr>rec_signal := 0\<rparr>"
    if "r \<in> set (filter is_short (records ?L))" for r
    using that shifted_shorts[OF L room] short_signal_less[OF L] by (auto simp: shift_def)
  have res: "map (\<lambda>r. (r\<lparr>rec_signal := 0\<rparr>, (pre @ regions ?L @ all_regions ps) ! unat (rec_signal r))) (filter is_short ?G) = resolved p"
    unfolding G resolved_def list.map_comp by (rule map_cong[OF refl]) (simp add: sig nth_append comp_def)
  have "short_signals ?G = map (\<lambda>r. ?o + unat (rec_signal r)) (filter is_short (records ?L))"
    unfolding short_signals_def G list.map_comp by (rule map_cong[OF refl]) (simp add: sig)
  then have "mset (short_signals ?G) = image_mset (\<lambda>j. ?o + j) (mset (short_signals (records ?L)))"
    by (simp add: short_signals_def image_mset.compositionality comp_def)
  also have "\<dots> = mset (map (\<lambda>j. ?o + j) [0..<length (regions ?L)])"
    using L by (simp add: layout_ok_def length_regions[OF L] del: map_add_upt)
  also have "map (\<lambda>j. ?o + j) [0..<length (regions ?L)] = [?o..<?o + length (regions ?L)]"
    using map_add_upt[of ?o "length (regions ?L)"] by (simp only: add.commute)
  finally have ms: "mset (short_signals ?G) = mset [?o..<?o + length (regions ?L)]" .
  have "[?o..<?o + length (regions ?L) + length (all_regions ps)] =
      [?o..<?o + length (regions ?L)] @ [?o + length (regions ?L)..<?o + length (regions ?L) + length (all_regions ps)]"
    by (rule upt_add_eq_append) simp
  then show ?case using IH x res ms by (simp add: short_signals_def add.assoc)
qed

text \<open>After the records have been gathered, the update only reads them.\<close>

definition buffers :: "record_s list \<Rightarrow> short_region_s list \<Rightarrow> (int \<times> process_s) list \<Rightarrow> sampler \<Rightarrow> bool" where
  "buffers rs shorts ps s \<longleftrightarrow> sa_record_buffer s = rs \<and> sa_short_region_buffer s = shorts \<and> sa_process_map s = ps"

lemma keeps_split [keeps_intros]: "(\<And>a b. x = (a, b) \<Longrightarrow> keeps P (f a b)) \<Longrightarrow> keeps P (case x of (a, b) \<Rightarrow> f a b)"
  by (cases x) simp

lemma keeps_on_status [keeps_intros]: "(\<And>s st. P s \<Longrightarrow> P (s\<lparr>sa_status := st\<rparr>)) \<Longrightarrow> keeps P (on_status m)"
  by (auto simp: keeps_def on_status_def split: option.splits prod.splits)

lemma keeps_cpu_hint [keeps_intros]: "(\<And>s st. P s \<Longrightarrow> P (s\<lparr>sa_status := st\<rparr>)) \<Longrightarrow> keeps P (cpu_hint cpu)"
  unfolding cpu_hint_def by (intro keeps_intros) auto

lemma keeps_refresh_hint [keeps_intros]:
  "(\<And>s st. P s \<Longrightarrow> P (s\<lparr>sa_status := st\<rparr>)) \<Longrightarrow> (\<And>s h. P s \<Longrightarrow> P (s\<lparr>sa_hint_last := h\<rparr>)) \<Longrightarrow> keeps P (refresh_hint cpu)"
  unfolding refresh_hint_def by (intro keeps_intros) auto

lemma buffers_update [simp]:
  "buffers rs shorts ps (s\<lparr>sa_status := a\<rparr>) = buffers rs shorts ps s"
  "buffers rs shorts ps (s\<lparr>sa_hint_last := b\<rparr>) = buffers rs shorts ps s"
  "buffers rs shorts ps (s\<lparr>sa_hint_time := c\<rparr>) = buffers rs shorts ps s"
  "buffers rs shorts ps (s\<lparr>sa_is_cpu_active := d\<rparr>) = buffers rs shorts ps s"
  "buffers rs shorts ps (s\<lparr>sa_num_registered := e\<rparr>) = buffers rs shorts ps s"
  "buffers rs shorts ps (s\<lparr>sa_client_cpu_map := f\<rparr>) = buffers rs shorts ps s"
  "buffers rs shorts ps (s\<lparr>sa_overhead_time := g\<rparr>) = buffers rs shorts ps s"
  "buffers rs shorts ps (s\<lparr>sa_time_zero := h, sa_time_error := i\<rparr>) = buffers rs shorts ps s"
  "buffers rs shorts ps (s\<lparr>sa_last_stop := j\<rparr>) = buffers rs shorts ps s"
  "buffers rs shorts ps (s\<lparr>sa_client_pids := k\<rparr>) = buffers rs shorts ps s"
  "buffers rs shorts ps (s\<lparr>sa_total_time := l, sa_do_shutdown := m\<rparr>) = buffers rs shorts ps s"
  "buffers rs shorts ps (s\<lparr>sa_is_first_update := n, sa_update_time := t\<rparr>) = buffers rs shorts ps s"
  by (simp_all add: buffers_def)

lemma keeps_start_loop: "keeps (buffers A B M) (start_loop field_to_signal rs locals)"
proof (induction field_to_signal rs locals rule: start_loop.induct)
  case (2 field_to_signal r rs zero do_update_zero do_update_cpu)
  show ?case unfolding start_loop.simps by (intro keeps_intros "2.IH") auto
qed (simp add: keeps_ret)

lemma keeps_update_cpu_active: "keeps (buffers A B M) (update_cpu_active read_file)"
  unfolding update_cpu_active_def by (intro keeps_intros) auto

lemma keeps_update_start: "keeps (buffers A B M) (update_start field_to_signal read_file)"
  unfolding update_start_def time_zero_def time_zero_reset_def
  by (intro keeps_intros keeps_start_loop keeps_update_cpu_active) auto

lemma keeps_update_hints: "keeps (buffers A B M) (update_hints curr_time)"
  unfolding update_hints_def hint_step_def charge_hint_def by (intro keeps_intros) auto

lemma keeps_update_stop: "keeps (buffers A B M) update_stop"
  unfolding update_stop_def stop_one_def time_zero_def by (intro keeps_intros) auto

lemma sampler_update_buffers:
  assumes "sampler_update field_to_signal read_file curr_time s = (Inr (), t)" "sa_status s \<noteq> None"
  shows "\<exists>u. update_records s = (Inr (), u) \<and> buffers (sa_record_buffer u) (sa_short_region_buffer u) (sa_process_map u) t"
proof -
  obtain u v w x where run: "update_records s = (Inr (), u)" "update_start field_to_signal read_file u = (Inr (), v)"
      "on_status status_update_cache v = (Inr (), w)" "update_hints curr_time w = (Inr (), x)" "update_stop x = (Inr (), t)"
    using assms by (auto simp: sampler_update_def act_simps bind_cases)
  let ?P = "buffers (sa_record_buffer u) (sa_short_region_buffer u) (sa_process_map u)"
  have "?P u" by (simp add: buffers_def)
  then have "?P v" using run(2) keeps_update_start keepsD by metis
  then have "?P w" using run(3) keeps_on_status[of ?P] keepsD by (metis buffers_update(1))
  then have "?P x" using run(4) keeps_update_hints keepsD by metis
  then have "?P t" using run(5) keeps_update_stop keepsD by metis
  then show ?thesis using run(1) by blast
qed

lemma update_records_gathers:
  assumes "update_records s = (Inr (), u)" "\<forall>(pid, p) \<in> set (sa_process_map s). process_ok p"
  shows "sa_short_region_buffer u = all_regions (sa_process_map s) \<and>
    filter (\<lambda>r. \<not> is_epoch r) (sa_record_buffer u) = gathered 0 (sa_process_map s) \<and>
    (\<forall>(pid, p) \<in> set (sa_process_map u). filter_ok p \<and> num_record (log_layout p) = 0)"
proof -
  let ?s = "s\<lparr>sa_record_buffer := [], sa_short_region_buffer := []\<rparr>"
  have "for_each update_process [0..<length (sa_process_map ?s)] ?s = (Inr (), u)"
    using assms(1) by (simp add: update_records_def act_simps)
  from update_loop_gathers[OF this] assms(2) show ?thesis by simp
qed

lemma length_all_regions:
  assumes "\<forall>(pid, p) \<in> set ps. process_ok p"
  shows "length (all_regions ps) \<le> 1024 * length ps"
  using assms
proof (induction ps)
  case (Cons x ps)
  obtain pid p where x: "x = (pid, p)" by fastforce
  then have L: "layout_ok (log_layout p)" using Cons.prems by (simp add: process_ok_def)
  have "length (regions (log_layout p)) \<le> 1024"
    using num_region_le[OF L] L length_regions[OF L] by (simp add: layout_ok_def)
  then show ?case using Cons x by simp
qed simp

lemma gathered_others:
  "filter (\<lambda>r. \<not> is_short r) (gathered offset ps) =
   concat (map (\<lambda>(pid, p). filter (\<lambda>r. \<not> is_epoch r \<and> \<not> is_short r) (records (log_layout p))) ps)"
proof (induction offset ps rule: gathered.induct)
  case (2 offset pid p rest)
  have "map (shift d) (filter (\<lambda>r. \<not> is_epoch r \<and> \<not> is_short r) rs) = filter (\<lambda>r. \<not> is_epoch r \<and> \<not> is_short r) rs" for d rs
    by (rule map_idI) (auto simp: shift_def)
  then show ?case using 2 by (simp add: filter_map comp_def filter_filter conj_commute)
qed simp


lemma demo_log:
  "\<exists>l. log_inv l \<and> records (rl_layout l) = [\<lparr>rec_time = \<lparr>tv_sec = 4, tv_nsec = 0\<rparr>, rec_process = pid, rec_event = EVENT_SHORT_REGION, rec_signal = 0\<rparr>] \<and>
     regions (rl_layout l) = [\<lparr>sr_hash = 7, sr_num_complete = 1, sr_total_time = dadd (Fin 0) (geopm_time_diff \<lparr>tv_sec = 3, tv_nsec = 0\<rparr> \<lparr>tv_sec = 4, tv_nsec = 0\<rparr>)\<rparr>]"
proof -
  obtain s where s: "make_record_log 57384 pid = Inr s" by (simp add: make_record_log_def)
  let ?t = "\<lambda>n. \<lparr>tv_sec = n, tv_nsec = 0\<rparr>"
  obtain l u where l: "for_each log_step [Op_enter 7 (?t 1), Op_exit 7 (?t 2), Op_enter 7 (?t 3), Op_dump, Op_exit 7 (?t 4)] s = (Inr (), l)"
      "log_dump l = (Inr ([\<lparr>rec_time = ?t 4, rec_process = pid, rec_event = EVENT_SHORT_REGION, rec_signal = 0\<rparr>],
        [\<lparr>sr_hash = 7, sr_num_complete = 1, sr_total_time = dadd (Fin 0) (geopm_time_diff (?t 3) (?t 4))\<rparr>]), u)"
    using entered_region[OF s] by blast
  have "log_inv l" using log_run_from_new[OF s _ l(1)] by (simp add: INT_MAX_def)
  then show ?thesis using l(2) by (intro exI[of _ l]) (simp add: log_dump_apply)
qed

lemma time_diff_self [simp]: "geopm_time_diff t t = Fin 0"
proof -
  obtain e where e: "round64 (1 / 10 ^ 9) = Fin e" using nano_bounds by blast
  show ?thesis unfolding geopm_time_diff_def e by (simp add: d_of_int_def)
qed

definition demo_process :: "record_log \<Rightarrow> process_s" where
  "demo_process l = \<lparr>ps_filter = None, ps_valid = validate_new, ps_record_log = l, ps_records = [], ps_short_regions = []\<rparr>"

lemma demo_update:
  assumes "log_inv l" "records (rl_layout l) = [r]" "regions (rl_layout l) = [x]" "is_short r"
  shows "\<exists>q. process_update False offset (demo_process l, []) = (Inr [x], (q, [r\<lparr>rec_signal := rec_signal r + offset\<rparr>])) \<and>
     process_ok (demo_process l)"
proof -
  have "process_ok (demo_process l)" using assms(1) by (simp add: process_ok_def filter_ok_def demo_process_def log_inv_def)
  then show ?thesis
    using assms(2-4)
    by (simp add: demo_process_def process_update_def process_dump_def gather_records_def on_process_def on_log_def on_valid_def
        log_dump_apply bind_def act_simps check_def check_event_def validate_new_def dlt_def)
qed


definition one_cpu :: topo where
  "one_cpu = \<lparr>m_num_package = 1, m_core_per_package = 1, m_thread_per_core = 1, m_numa_map = [[0]], m_gpu_node = [], m_gpu_chip = []\<rparr>"

definition one_status :: app_status where
  "one_status = \<lparr>st_num_cpu = 1, st_buffer = [zero_status], st_cache = [zero_status]\<rparr>"

lemma one_status_cache: "status_update_cache one_status = (Inr (), one_status)"
  using update_cache_copies[of one_status] by (simp add: one_status_def)

lemma demo_sampler_update:
  assumes "log_inv l" "records (rl_layout l) = [r]" "regions (rl_layout l) = [x]" "is_short r" "rec_signal r = 0"
    and "log_inv k" "records (rl_layout k) = [v]" "regions (rl_layout k) = [y]" "is_short v" "rec_signal v = 0"
    and s: "sampler_new (Some one_status) one_cpu [(1, demo_process l), (2, demo_process k)] False [] [] [] zero False = Inr s"
  shows "\<exists>t. sampler_update f g now s = (Inr (), t) \<and> sa_record_buffer t = [r\<lparr>rec_signal := 0\<rparr>, v\<lparr>rec_signal := 1\<rparr>] \<and>
     sa_short_region_buffer t = [x, y] \<and> \<not> sa_time_error t"
proof -
  obtain p where p: "process_update False 0 (demo_process l, []) = (Inr [x], (p, [r\<lparr>rec_signal := 0\<rparr>]))"
    using demo_update[OF assms(1-4), of 0] assms(5) by auto
  obtain q where q: "process_update False 1 (demo_process k, []) = (Inr [y], (q, [v\<lparr>rec_signal := 1\<rparr>]))"
    using demo_update[OF assms(6-9), of 1] assms(10) by auto
  let ?u = "s\<lparr>sa_process_map := [(1, p), (2, q)], sa_record_buffer := [r\<lparr>rec_signal := 0\<rparr>, v\<lparr>rec_signal := 1\<rparr>],
      sa_short_region_buffer := [x, y]\<rparr>"
  have pm: "sa_process_map s = [(1, demo_process l), (2, demo_process k)]" "\<not> sa_is_filtered s" "sa_num_registered s = 0"
      "\<not> sa_time_error s" "sa_status s = Some one_status" "sa_num_cpu s = 1" "sa_is_cpu_active s = [False]"
      "sa_is_first_update s" "sa_hint_last s = [0]"
    using s by (auto simp: sampler_new_def one_cpu_def num_cpu_def)
  have 1: "update_records s = (Inr (), ?u)"
    using p q pm by (simp add: update_records_def update_process_def bind_def act_simps Let_def upt_rec numeral_2_eq_2)
  have 2: "update_start f g ?u = (Inr (), ?u)"
    using pm assms(4,9) by (simp add: update_start_def time_zero_def bind_def act_simps)
  have 3: "on_status status_update_cache ?u = (Inr (), ?u)"
    using pm by (simp add: on_status_def one_status_cache)
  obtain w where 4: "update_hints now ?u = (Inr (), w)" "sa_record_buffer w = [r\<lparr>rec_signal := 0\<rparr>, v\<lparr>rec_signal := 1\<rparr>]"
      "sa_num_registered w = 0" "\<not> sa_time_error w" "sa_short_region_buffer w = [x, y]"
    using pm by (simp add: update_hints_def hint_step_def all_cpus_def refresh_hint_def cpu_hint_def elem_def update_at_def bind_def act_simps)
  have 5: "update_stop w = (Inr (), w)"
    using 4 assms(4,9) by (simp add: update_stop_def stop_one_def time_zero_def bind_def act_simps)
  show ?thesis using 1 2 3 4 5 pm by (simp add: sampler_update_def bind_def act_simps)
qed


section \<open>The choice of the CPU\<close>

lemma find_rev_upto:
  "(case List.find P (rev [0..int n - 1]) of
      Some c \<Rightarrow> 0 \<le> c \<and> c < int n \<and> P c \<and> (\<forall>d. c < d \<longrightarrow> d < int n \<longrightarrow> \<not> P d)
    | None \<Rightarrow> \<forall>c. 0 \<le> c \<longrightarrow> c < int n \<longrightarrow> \<not> P c)"
proof (induction n)
  case (Suc n)
  have "[0..int (Suc n) - 1] = [0..int n - 1] @ [int n]" using upto_rec2[of 0 "int n"] by simp
  then have "rev [0..int (Suc n) - 1] = int n # rev [0..int n - 1]" by simp
  then show ?case using Suc
    by (cases "P (int n)") (auto split: option.splits simp: le_less[of _ "int n"] zless_add1_eq add.commute[of 1])
qed simp

definition core_count :: "topo \<Rightarrow> int" where
  "core_count t = m_num_package t * m_core_per_package t"

definition active_at :: "bool list \<Rightarrow> int \<Rightarrow> bool" where
  "active_at active cpu \<longleftrightarrow> active ! nat cpu"

text \<open>The last CPU of a core that is allowed and whose core runs no process of the application.\<close>

definition idle_core :: "topo \<Rightarrow> bool list \<Rightarrow> int list \<Rightarrow> int \<Rightarrow> bool" where
  "idle_core t active allowed cpu \<longleftrightarrow> num_cpu t - core_count t \<le> cpu \<and> cpu < num_cpu t \<and> cpu \<in> set allowed \<and>
     (\<forall>c. 0 \<le> c \<longrightarrow> c < num_cpu t \<longrightarrow> domain_idx t GEOPM_DOMAIN_CORE c = domain_idx t GEOPM_DOMAIN_CORE cpu \<longrightarrow> \<not> active_at active c)"

definition idle_cpu :: "topo \<Rightarrow> bool list \<Rightarrow> int list \<Rightarrow> int \<Rightarrow> bool" where
  "idle_cpu t active allowed cpu \<longleftrightarrow> 0 \<le> cpu \<and> cpu < num_cpu t \<and> cpu \<in> set allowed \<and> \<not> active_at active cpu"

definition greatest :: "(int \<Rightarrow> bool) \<Rightarrow> int \<Rightarrow> bool" where
  "greatest P c \<longleftrightarrow> P c \<and> (\<forall>d. P d \<longrightarrow> d \<le> c)"

lemma topo_pos:
  assumes "topo_wf t"
  shows "0 < core_count t" "0 < m_thread_per_core t" "num_cpu t = core_count t * m_thread_per_core t" "core_count t \<le> num_cpu t"
  using assms by (auto simp: topo_wf_def core_count_def num_cpu_def)

lemma core_idx_mod:
  "topo_wf t \<Longrightarrow> 0 \<le> c \<Longrightarrow> c < num_cpu t \<Longrightarrow> domain_idx t GEOPM_DOMAIN_CORE c = Inr (c mod core_count t)"
  using topo_pos[of t] by (simp add: domain_idx_def core_count_def)

lemma mark_cores:
  assumes t: "topo_wf t" and len: "int (length active) = num_cpu t" and n: "int n \<le> num_cpu t"
  shows "\<exists>cores. fold_result (mark_core t active) (map int [0..<n]) (replicate (nat (core_count t)) False) = Inr cores \<and>
    length cores = nat (core_count t) \<and>
    (\<forall>j. 0 \<le> j \<longrightarrow> j < core_count t \<longrightarrow> cores ! nat j = (\<exists>c. 0 \<le> c \<and> c < int n \<and> active_at active c \<and> c mod core_count t = j))"
  using n
proof (induction n)
  case 0
  then show ?case by simp
next
  case (Suc n)
  then obtain cores where cores: "fold_result (mark_core t active) (map int [0..<n]) (replicate (nat (core_count t)) False) = Inr cores"
      "length cores = nat (core_count t)"
      "\<forall>j. 0 \<le> j \<longrightarrow> j < core_count t \<longrightarrow> cores ! nat j = (\<exists>c. 0 \<le> c \<and> c < int n \<and> active_at active c \<and> c mod core_count t = j)" by auto
  let ?k = "int n mod core_count t"
  have k: "0 \<le> ?k" "?k < core_count t" using topo_pos(1)[OF t] by simp_all
  have n: "int n < num_cpu t" using Suc.prems by simp
  let ?new = "if active_at active (int n) then cores[nat ?k := True] else cores"
  have "mark_core t active (int n) cores = Inr ?new"
    using n len k cores(2) core_idx_mod[OF t _ n] by (simp add: mark_core_def elem_def active_at_def Geopm_Prelude.at_def)
  then have "fold_result (mark_core t active) (map int [0..<Suc n]) (replicate (nat (core_count t)) False) = Inr ?new"
    using cores(1) by (simp add: fold_result_append)
  moreover have "?new ! nat j = (\<exists>c. 0 \<le> c \<and> c < int (Suc n) \<and> active_at active c \<and> c mod core_count t = j)"
    if j: "0 \<le> j" "j < core_count t" for j
  proof -
    have "(\<exists>c. 0 \<le> c \<and> c < int (Suc n) \<and> active_at active c \<and> c mod core_count t = j) \<longleftrightarrow>
        active_at active (int n) \<and> ?k = j \<or> (\<exists>c. 0 \<le> c \<and> c < int n \<and> active_at active c \<and> c mod core_count t = j)"
    proof -
      have "c < int (Suc n) \<longleftrightarrow> c = int n \<or> c < int n" for c by linarith
      then show ?thesis by (simp only:) (metis of_nat_0_le_iff)
    qed
    moreover have "nat ?k = nat j \<longleftrightarrow> ?k = j" by (rule eq_nat_nat_iff[OF k(1) j(1)])
    ultimately show ?thesis using cores(2,3) j k by (auto simp: nth_list_update)
  qed
  ultimately show ?case using cores(2) by auto
qed

text \<open>The last CPU of a core.\<close>

lemma last_of_core:
  assumes "topo_wf t" "0 \<le> j" "j < core_count t"
  shows "\<exists>s. domain_nested t GEOPM_DOMAIN_CPU GEOPM_DOMAIN_CORE j = Inr s \<and> s \<noteq> [] \<and> last s = num_cpu t - core_count t + j"
proof -
  let ?n = "core_count t" and ?h = "m_thread_per_core t"
  note pos = topo_pos[OF assms(1)]
  have j: "j < m_num_package t * m_core_per_package t" using assms(3) by (simp add: core_count_def)
  obtain s where s: "domain_nested t GEOPM_DOMAIN_CPU GEOPM_DOMAIN_CORE j = Inr s" "sset s"
      "domain_cpus t GEOPM_DOMAIN_CORE j = Inr s" using nested_cpu_core[OF assms(1,2) j] by blast
  have set: "set s = {cpu. 0 \<le> cpu \<and> cpu < num_cpu t \<and> cpu mod ?n = j}"
    using set_core_cpus[OF assms(1,2) j] s(3) by (auto simp: core_count_def)
  let ?l = "num_cpu t - ?n + j"
  have eq: "?l = j + ?n * (?h - 1)" by (simp add: pos(3) algebra_simps)
  have "?l mod ?n = j" unfolding eq mod_mult_self2 using assms(2,3) by simp
  moreover have "0 \<le> ?l" "?l < num_cpu t" using assms(2,3) pos(4) by linarith+
  ultimately have l: "?l \<in> set s" unfolding set by blast
  have "c \<le> ?l" if "c \<in> set s" for c
  proof -
    have c: "c mod ?n = j" "c < num_cpu t" using that unfolding set by simp_all
    have split: "c = ?n * (c div ?n) + j" using c(1) mult_div_mod_eq[of ?n c] by simp
    then have "?n * (c div ?n) < ?n * ?h" using assms(2) c(2) pos(3) by linarith
    then have "c div ?n \<le> ?h - 1" using pos(1) by simp
    then have "?n * (c div ?n) \<le> ?n * (?h - 1)" using pos(1) by (intro mult_left_mono) auto
    then show ?thesis using split eq by linarith
  qed
  moreover have "s \<noteq> []" using l by auto
  moreover have "last s \<in> set s" using \<open>s \<noteq> []\<close> by simp
  moreover have "c \<le> last s" if "c \<in> set s" for c
    using s(2) that by (rule sset_last)
  ultimately have "last s = ?l" using l by (intro antisym) blast+
  then show ?thesis using s(1) \<open>s \<noteq> []\<close> by blast
qed

lemma find_core_find:
  assumes t: "topo_wf t" and len: "length cores = nat (core_count t)" and js: "\<forall>j \<in> set js. 0 \<le> j \<and> j < core_count t"
  shows "find_core t allowed cores js =
    Inr (map_option (\<lambda>j. num_cpu t - core_count t + j)
      (List.find (\<lambda>j. \<not> cores ! nat j \<and> num_cpu t - core_count t + j \<in> set allowed) js))"
  using js
proof (induction js)
  case (Cons j js)
  obtain s where s: "domain_nested t GEOPM_DOMAIN_CPU GEOPM_DOMAIN_CORE j = Inr s" "s \<noteq> []" "last s = num_cpu t - core_count t + j"
    using last_of_core[OF t] Cons.prems by auto
  have "Geopm_Prelude.at cores j = Inr (cores ! nat j)" using Cons.prems len by (simp add: Geopm_Prelude.at_def)
  then show ?case using Cons s by simp
qed simp

lemma find_cpu_find:
  assumes "\<forall>c \<in> set cs. 0 \<le> c \<and> c < int (length active)"
  shows "find_cpu allowed active cs = Inr (List.find (\<lambda>c. \<not> active_at active c \<and> c \<in> set allowed) cs)"
  using assms by (induction cs) (auto simp: elem_def active_at_def)

lemma upto_map_int: "0 < n \<Longrightarrow> [0..n - 1] = map int [0..<nat n]"
  by (rule nth_equalityI) auto

lemma idle_core_at:
  assumes t: "topo_wf t" and j: "0 \<le> j" "j < core_count t"
  shows "idle_core t active allowed (num_cpu t - core_count t + j) \<longleftrightarrow>
    num_cpu t - core_count t + j \<in> set allowed \<and>
    \<not> (\<exists>c. 0 \<le> c \<and> c < num_cpu t \<and> active_at active c \<and> c mod core_count t = j)"
proof -
  let ?l = "num_cpu t - core_count t + j"
  note pos = topo_pos[OF t]
  have "?l = j + core_count t * (m_thread_per_core t - 1)" by (simp add: pos(3) algebra_simps)
  then have mod: "?l mod core_count t = j" using j by (simp only: mod_mult_self2) simp
  have l: "0 \<le> ?l" "?l < num_cpu t" "num_cpu t - core_count t \<le> ?l" using j pos(4) by linarith+
  have "domain_idx t GEOPM_DOMAIN_CORE c = domain_idx t GEOPM_DOMAIN_CORE ?l \<longleftrightarrow> c mod core_count t = j"
    if "0 \<le> c" "c < num_cpu t" for c
    unfolding core_idx_mod[OF t that] core_idx_mod[OF t l(1,2)] mod by simp
  then show ?thesis unfolding idle_core_def using l by blast
qed

text \<open>
  The sampler stays out of the way of the application when it can. On a well formed topology,
  \<^verbatim>\<open>sampler_cpu()\<close> returns a CPU: the greatest CPU that is the last one of its core, is allowed to the
  controller, and on whose core no CPU is used by the application; if there is none, the greatest
  allowed CPU that the application does not use; and only if there is none either, the last CPU.
\<close>

theorem sampler_cpu_choice:
  assumes "topo_wf t" "int (length active) = num_cpu t" "get_cpuset_fallback read_file t = Inr allowed"
  shows "\<exists>cpu. sampler_cpu read_file t (num_cpu t) active = Inr cpu \<and> 0 \<le> cpu \<and> cpu < num_cpu t \<and>
    (if \<exists>c. idle_core t active allowed c then greatest (idle_core t active allowed) cpu
     else if \<exists>c. idle_cpu t active allowed c then greatest (idle_cpu t active allowed) cpu
     else cpu = num_cpu t - 1)"
proof -
  let ?N = "num_cpu t" and ?C = "core_count t"
  note pos = topo_pos[OF assms(1)]
  have N: "int (nat ?N) = ?N" "[0..?N - 1] = map int [0..<nat ?N]" and C: "int (nat ?C) = ?C"
    using pos upto_map_int by simp_all
  obtain cores where cores: "fold_result (mark_core t active) [0..?N - 1] (replicate (nat ?C) False) = Inr cores"
      "length cores = nat ?C"
      "\<forall>j. 0 \<le> j \<longrightarrow> j < ?C \<longrightarrow> cores ! nat j = (\<exists>c. 0 \<le> c \<and> c < ?N \<and> active_at active c \<and> c mod ?C = j)"
    using mark_cores[OF assms(1,2), of "nat ?N"] N by auto
  let ?P = "\<lambda>j. \<not> cores ! nat j \<and> ?N - ?C + j \<in> set allowed"
  let ?found = "List.find ?P (rev [0..?C - 1])"
  have core: "find_core t allowed cores (rev [0..?C - 1]) = Inr (map_option (\<lambda>j. ?N - ?C + j) ?found)"
    by (rule find_core_find[OF assms(1) cores(2)]) simp
  have idle: "idle_core t active allowed (?N - ?C + j) \<longleftrightarrow> ?P j" if "0 \<le> j" "j < ?C" for j
    using idle_core_at[OF assms(1) that] cores(3) that by blast
  have range: "\<exists>j. 0 \<le> j \<and> j < ?C \<and> c = ?N - ?C + j" if "idle_core t active allowed c" for c
    using that by (intro exI[of _ "c - (?N - ?C)"]) (auto simp: idle_core_def)
  note spec = find_rev_upto[of "nat ?C" ?P, unfolded C]
  have run: "sampler_cpu read_file t ?N active = (case map_option (\<lambda>j. ?N - ?C + j) ?found of
      Some cpu \<Rightarrow> Inr cpu
    | None \<Rightarrow> and_then (find_cpu allowed active (rev [0..?N - 1])) (\<lambda>found. Inr (case found of Some cpu \<Rightarrow> cpu | None \<Rightarrow> ?N - 1)))"
    using core cores(1) assms(3) by (simp add: sampler_cpu_def core_count_def cong: option.case_cong)
  show ?thesis
  proof (cases ?found)
    case (Some j)
    then have j: "0 \<le> j" "j < ?C" "?P j" "\<forall>d. j < d \<longrightarrow> d < ?C \<longrightarrow> \<not> ?P d"
      using spec unfolding Some option.case by blast+
    have "greatest (idle_core t active allowed) (?N - ?C + j)"
      unfolding greatest_def
    proof (intro conjI allI impI)
      show "idle_core t active allowed (?N - ?C + j)" using idle j by blast
      fix d assume d: "idle_core t active allowed d"
      then obtain i where i: "0 \<le> i" "i < ?C" "d = ?N - ?C + i" using range by blast
      then have "?P i" using idle d by blast
      then have "\<not> j < i" using j(4) i(2) by blast
      then show "d \<le> ?N - ?C + j" using i(3) by simp
    qed
    moreover have "0 \<le> ?N - ?C + j" "?N - ?C + j < ?N" using j(1,2) pos(4) by linarith+
    ultimately show ?thesis using run Some by (auto simp: greatest_def)
  next
    case None
    then have "\<not> ?P j" if "0 \<le> j" "j < ?C" for j using spec that unfolding None option.case by blast
    then have none: "\<not> (\<exists>c. idle_core t active allowed c)" using range idle by blast
    let ?Q = "\<lambda>c. \<not> active_at active c \<and> c \<in> set allowed"
    have "find_cpu allowed active (rev [0..?N - 1]) = Inr (List.find ?Q (rev [0..?N - 1]))"
      by (rule find_cpu_find) (use assms(2) in simp)
    then have run: "sampler_cpu read_file t ?N active = Inr (case List.find ?Q (rev [0..?N - 1]) of Some cpu \<Rightarrow> cpu | None \<Rightarrow> ?N - 1)"
      using run None by simp
    have "0 < ?N" using pos by linarith
    note spec = find_rev_upto[of "nat ?N" ?Q, unfolded N(1)]
    show ?thesis
    proof (cases "List.find ?Q (rev [0..?N - 1])")
      case None
      then have "\<not> (\<exists>c. idle_cpu t active allowed c)" using spec by (auto simp: idle_cpu_def)
      then show ?thesis using run none None \<open>0 < ?N\<close> by auto
    next
      case (Some c)
      then have c: "0 \<le> c" "c < ?N" "?Q c" "\<forall>d. c < d \<longrightarrow> d < ?N \<longrightarrow> \<not> ?Q d" using spec unfolding Some option.case by blast+
      then have "greatest (idle_cpu t active allowed) c" unfolding greatest_def idle_cpu_def by (meson not_le)
      then show ?thesis using run none Some c(1,2) by (auto simp: greatest_def)
    qed
  qed
qed

theorem sampler_cpu_choice_witness:
  "topo_wf demo_topo \<and> (\<exists>cpu. sampler_cpu (\<lambda>_. Inl invalid) demo_topo (num_cpu demo_topo) (True # replicate 7 False) = Inr cpu \<and> cpu = 7)"
proof -
  let ?active = "True # replicate 7 False"
  have n: "num_cpu demo_topo = 8" "topo_wf demo_topo" using demo_topo_wf by simp_all
  have fall: "get_cpuset_fallback (\<lambda>_. Inl invalid) demo_topo = Inr [0..7]"
    by (simp add: get_cpuset_fallback_def get_cpuset_def n)
  obtain cpu where cpu: "sampler_cpu (\<lambda>_. Inl invalid) demo_topo (num_cpu demo_topo) ?active = Inr cpu" "cpu < 8"
      "if \<exists>c. idle_core demo_topo ?active [0..7] c then greatest (idle_core demo_topo ?active [0..7]) cpu
       else if \<exists>c. idle_cpu demo_topo ?active [0..7] c then greatest (idle_cpu demo_topo ?active [0..7]) cpu
       else cpu = num_cpu demo_topo - 1"
    using sampler_cpu_choice[OF n(2) _ fall, of ?active] n by auto
  have count: "core_count demo_topo = 4" by (simp add: core_count_def demo_topo_def)
  have "idle_core demo_topo ?active [0..7] 7"
    using idle_core_at[OF n(2), of 3 ?active "[0..7]"] n(1) count
    by (auto simp: active_at_def nth_Cons' nth_replicate)
  moreover from this have "\<exists>c. idle_core demo_topo ?active [0..7] c" by blast
  then have "greatest (idle_core demo_topo ?active [0..7]) cpu" using cpu(3) by (simp only: if_True)
  ultimately have "7 \<le> cpu" unfolding greatest_def by blast
  then show ?thesis using cpu(1,2) n(2) by auto
qed

section \<open>The time that is charged to the hints\<close>

text \<open>The tables have an entry for each CPU, and every hint in them is valid.\<close>

definition hints_ok :: "app_status \<Rightarrow> bool" where
  "hints_ok st \<longleftrightarrow> status_ok st \<and> (\<forall>c \<in> set (st_buffer st) \<union> set (st_cache st). (ucast (cs_hint c) :: 64 word) < GEOPM_NUM_REGION_HINT)"

definition sampler_ok :: "sampler \<Rightarrow> bool" where
  "sampler_ok s \<longleftrightarrow> 0 \<le> sa_num_cpu s \<and> length (sa_hint_time s) = nat (sa_num_cpu s) \<and>
     (\<forall>times \<in> set (sa_hint_time s). length times = 11) \<and>
     length (sa_hint_last s) = nat (sa_num_cpu s) \<and> (\<forall>h \<in> set (sa_hint_last s). h < GEOPM_NUM_REGION_HINT) \<and>
     length (sa_is_cpu_active s) = nat (sa_num_cpu s) \<and>
     (\<forall>st. sa_status s = Some st \<longrightarrow> st_num_cpu st = sa_num_cpu s \<and> hints_ok st)"

text \<open>The hint that a CPU has been seen with: the cached one while the application uses the CPU.\<close>

definition seen_hint :: "sampler \<Rightarrow> int \<Rightarrow> 64 word" where
  "seen_hint s cpu = (case sa_status s of
      None \<Rightarrow> GEOPM_REGION_HINT_INACTIVE
    | Some st \<Rightarrow> if sa_is_cpu_active s ! nat cpu then ucast (cs_hint (st_cache st ! nat cpu)) else GEOPM_REGION_HINT_INACTIVE)"

lemma seen_hint_valid:
  assumes "sampler_ok s" "0 \<le> cpu" "cpu < sa_num_cpu s"
  shows "seen_hint s cpu < GEOPM_NUM_REGION_HINT"
proof (cases "sa_status s")
  case None
  then show ?thesis by (simp add: seen_hint_def word_less_nat_alt)
next
  case (Some st)
  then have st: "hints_ok st" "st_num_cpu st = sa_num_cpu s" using assms(1) by (simp_all add: sampler_ok_def)
  then have "nat cpu < length (st_cache st)" using assms(2,3) by (auto simp: hints_ok_def status_ok_def)
  then have "st_cache st ! nat cpu \<in> set (st_cache st)" by simp
  then have "(ucast (cs_hint (st_cache st ! nat cpu)) :: 64 word) < GEOPM_NUM_REGION_HINT" using st(1) by (simp add: hints_ok_def)
  then show ?thesis using Some by (simp add: seen_hint_def word_less_nat_alt)
qed

lemma cpu_hint_seen:
  assumes "sampler_ok s" "0 \<le> cpu" "cpu < sa_num_cpu s"
  shows "cpu_hint cpu s = (Inr (seen_hint s cpu), s)"
proof (cases "sa_status s")
  case None
  then show ?thesis by (simp add: cpu_hint_def seen_hint_def act_simps)
next
  case (Some st)
  then have st: "st_num_cpu st = sa_num_cpu s" using assms(1) by (simp add: sampler_ok_def)
  have active: "elem (sa_is_cpu_active s) cpu = Inr (sa_is_cpu_active s ! nat cpu)"
    using assms by (simp add: elem_def sampler_ok_def)
  have "status_get_hint cpu st = (Inr (ucast (cs_hint (st_cache st ! nat cpu))), st)" if "sa_is_cpu_active s ! nat cpu"
    using seen_hint_valid[OF assms] Some that assms(2,3) st
    by (simp add: status_get_hint_def check_cpu_def check_hint_def seen_hint_def act_simps bind_def[of "bind _ _"] not_le)
  then show ?thesis using Some active by (simp add: cpu_hint_def seen_hint_def act_simps on_status_def)
qed

lemma refresh_hint_seen:
  assumes "sampler_ok s" "0 \<le> cpu" "cpu < sa_num_cpu s"
  shows "refresh_hint cpu s = (Inr (), s\<lparr>sa_hint_last := (sa_hint_last s)[nat cpu := seen_hint s cpu]\<rparr>) \<and>
    sampler_ok (s\<lparr>sa_hint_last := (sa_hint_last s)[nat cpu := seen_hint s cpu]\<rparr>)"
proof
  show "refresh_hint cpu s = (Inr (), s\<lparr>sa_hint_last := (sa_hint_last s)[nat cpu := seen_hint s cpu]\<rparr>)"
    using assms cpu_hint_seen[OF assms] by (simp add: refresh_hint_def bind_def[of "cpu_hint _"] act_simps update_at_def sampler_ok_def)
  show "sampler_ok (s\<lparr>sa_hint_last := (sa_hint_last s)[nat cpu := seen_hint s cpu]\<rparr>)"
    using assms(1) seen_hint_valid[OF assms] set_update_subset_insert[of "sa_hint_last s" "nat cpu" "seen_hint s cpu"]
    by (auto simp: sampler_ok_def)
qed

text \<open>An interval is charged to the hint that was seen when it began.\<close>

definition charged :: "double \<Rightarrow> sampler \<Rightarrow> nat \<Rightarrow> double list" where
  "charged time_delta s i =
     (let h = unat (sa_hint_last s ! i) in (sa_hint_time s ! i)[h := dadd (sa_hint_time s ! i ! h) time_delta])"

lemma charge_hint_eq:
  assumes "sampler_ok s" "i < nat (sa_num_cpu s)"
  shows "charge_hint time_delta (int i) s = (Inr (), s\<lparr>sa_hint_time := (sa_hint_time s)[i := charged time_delta s i]\<rparr>) \<and>
    sampler_ok (s\<lparr>sa_hint_time := (sa_hint_time s)[i := charged time_delta s i]\<rparr>)"
proof
  have i: "i < length (sa_hint_time s)" "i < length (sa_hint_last s)" using assms by (simp_all add: sampler_ok_def)
  then have "sa_hint_last s ! i \<in> set (sa_hint_last s)" "sa_hint_time s ! i \<in> set (sa_hint_time s)" by simp_all
  then have h: "sa_hint_last s ! i < GEOPM_NUM_REGION_HINT" and len: "length (sa_hint_time s ! i) = 11"
    using assms(1) by (simp_all add: sampler_ok_def)
  then have "uint (sa_hint_last s ! i) < 11" by (simp add: word_less_def)
  then have "update_at (sa_hint_time s ! i) (uint (sa_hint_last s ! i)) (\<lambda>time. Inr (dadd time time_delta)) = Inr (charged time_delta s i)"
    using len by (simp add: update_at_def charged_def Let_def)
  then have "update_at (sa_hint_time s) (int i) (\<lambda>times. update_at times (uint (sa_hint_last s ! i)) (\<lambda>time. Inr (dadd time time_delta))) =
      Inr ((sa_hint_time s)[i := charged time_delta s i])"
    using i by (simp add: update_at_def[of "sa_hint_time s"])
  moreover have "elem (sa_hint_last s) (int i) = Inr (sa_hint_last s ! i)" using i by (simp add: elem_def)
  ultimately show "charge_hint time_delta (int i) s = (Inr (), s\<lparr>sa_hint_time := (sa_hint_time s)[i := charged time_delta s i]\<rparr>)"
    unfolding charge_hint_def by (simp add: act_simps)
  show "sampler_ok (s\<lparr>sa_hint_time := (sa_hint_time s)[i := charged time_delta s i]\<rparr>)"
    using assms(1) len set_update_subset_insert[of "sa_hint_time s" i "charged time_delta s i"]
    by (auto simp: sampler_ok_def charged_def Let_def)
qed

text \<open>What the loop over the CPUs computes.\<close>

lemma hint_loop:
  assumes ok: "sampler_ok s" and k: "k \<le> nat (sa_num_cpu s)"
  shows "\<exists>times lasts. for_each (hint_step is_first time_delta) (map int [0..<k]) s = (Inr (), s\<lparr>sa_hint_time := times, sa_hint_last := lasts\<rparr>) \<and>
    sampler_ok (s\<lparr>sa_hint_time := times, sa_hint_last := lasts\<rparr>) \<and>
    (\<forall>i < nat (sa_num_cpu s). times ! i = (if i < k \<and> \<not> is_first then charged time_delta s i else sa_hint_time s ! i) \<and>
       lasts ! i = (if i < k then seen_hint s (int i) else sa_hint_last s ! i))"
  using k
proof (induction k)
  case 0
  then show ?case using ok by (intro exI[of _ "sa_hint_time s"] exI[of _ "sa_hint_last s"]) simp
next
  case (Suc k)
  obtain times lasts where IH: "for_each (hint_step is_first time_delta) (map int [0..<k]) s = (Inr (), s\<lparr>sa_hint_time := times, sa_hint_last := lasts\<rparr>)"
      "sampler_ok (s\<lparr>sa_hint_time := times, sa_hint_last := lasts\<rparr>)"
      "\<forall>i < nat (sa_num_cpu s). times ! i = (if i < k \<and> \<not> is_first then charged time_delta s i else sa_hint_time s ! i) \<and>
       lasts ! i = (if i < k then seen_hint s (int i) else sa_hint_last s ! i)" using Suc by auto
  let ?t = "s\<lparr>sa_hint_time := times, sa_hint_last := lasts\<rparr>"
  have k: "k < nat (sa_num_cpu ?t)" "int k < sa_num_cpu ?t" using Suc.prems by auto
  have len: "length times = nat (sa_num_cpu s)" "length lasts = nat (sa_num_cpu s)" using IH(2) by (simp_all add: sampler_ok_def)
  have same: "charged time_delta ?t k = charged time_delta s k" using IH(3) k by (simp add: charged_def)
  let ?times = "if is_first then times else times[k := charged time_delta s k]"
  have charge: "(if is_first then ret () else charge_hint time_delta (int k)) ?t = (Inr (), ?t\<lparr>sa_hint_time := ?times\<rparr>) \<and>
      sampler_ok (?t\<lparr>sa_hint_time := ?times\<rparr>)"
  proof (cases is_first)
    case True
    have "?t\<lparr>sa_hint_time := times\<rparr> = ?t" by simp
    then show ?thesis using True IH(2) by (simp only: if_True ret_def)
  next
    case False
    then show ?thesis using charge_hint_eq[OF IH(2) k(1), of time_delta] same by simp
  qed
  have seen: "seen_hint (?t\<lparr>sa_hint_time := ?times\<rparr>) (int k) = seen_hint s (int k)"
    by (cases "sa_status s") (simp_all add: seen_hint_def)
  have "hint_step is_first time_delta (int k) ?t = (Inr (), s\<lparr>sa_hint_time := ?times, sa_hint_last := lasts[k := seen_hint s (int k)]\<rparr>) \<and>
      sampler_ok (s\<lparr>sa_hint_time := ?times, sa_hint_last := lasts[k := seen_hint s (int k)]\<rparr>)"
    using refresh_hint_seen[of "?t\<lparr>sa_hint_time := ?times\<rparr>" "int k"] charge k(2) seen by (simp add: hint_step_def bind_def)
  moreover have "map int [0..<Suc k] = map int [0..<k] @ [int k]" by simp
  ultimately show ?case using IH(1,3) len k
    by (intro exI[of _ ?times] exI[of _ "lasts[k := seen_hint s (int k)]"])
       (auto simp: for_each_append bind_def[of "for_each _ _"] bind_def[of "hint_step _ _ _"] nth_list_update less_Suc_eq)
qed

text \<open>The parts of the state that the hints depend on.\<close>

definition same_hints :: "sampler \<Rightarrow> sampler \<Rightarrow> bool" where
  "same_hints s t \<longleftrightarrow> sa_hint_time t = sa_hint_time s \<and> sa_hint_last t = sa_hint_last s \<and> sa_update_time t = sa_update_time s \<and>
     sa_is_first_update t = sa_is_first_update s \<and> sa_num_cpu t = sa_num_cpu s \<and> sa_is_cpu_active t = sa_is_cpu_active s \<and>
     sa_status t = sa_status s"

lemma same_hints_preorder: "preorder_on_states same_hints"
  by (auto simp: preorder_on_states_def same_hints_def intro!: reflpI transpI)

lemmas same_hints_intros = evolves_pure[OF same_hints_preorder] evolves_bind[OF same_hints_preorder] evolves_if
  evolves_modify evolves_for_each[OF same_hints_preorder]

lemma same_hints_trans: "same_hints s t \<Longrightarrow> same_hints t u \<Longrightarrow> same_hints s u"
  by (simp add: same_hints_def)

lemma same_hints_ok: "same_hints s t \<Longrightarrow> sampler_ok s \<Longrightarrow> sampler_ok t"
  by (simp add: same_hints_def sampler_ok_def)

lemma update_process_hints: "evolves same_hints (update_process i)"
  by (auto simp: evolves_def update_process_def same_hints_def Let_def split: prod.splits sum.splits)

lemma update_records_hints: "evolves same_hints update_records"
  unfolding update_records_def
  by (intro same_hints_intros update_process_hints) (simp add: same_hints_def)

lemma start_loop_hints:
  assumes "\<forall>r \<in> set rs. rec_event r \<noteq> EVENT_AFFINITY"
  shows "start_loop field_to_signal rs (zero, a, c) s = (r, t) \<Longrightarrow> same_hints s t \<and> (\<forall>z b d. r = Inr (z, b, d) \<longrightarrow> d = c)"
  using assms
proof (induction rs arbitrary: zero a s)
  case Nil
  then show ?case by (auto simp: ret_def same_hints_def)
next
  case (Cons x rs)
  have step: "same_hints s t \<and> (\<forall>z b d. r = Inr (z, b, d) \<longrightarrow> d = c)"
    if "start_loop field_to_signal rs (z', a', c) u = (r, t)" "same_hints s u" for z' a' u
    using Cons.IH[OF that(1)] Cons.prems(2) that(2) same_hints_trans by auto
  have self: "same_hints s s" by (simp add: same_hints_def)
  have "(\<exists>e. r = Inl e \<and> t = s) \<or> (\<exists>z' a' u. start_loop field_to_signal rs (z', a', c) u = (r, t) \<and> same_hints s u)"
  proof (cases "rec_event x = EVENT_START_PROFILE")
    case True
    then show ?thesis using Cons.prems(1)
      by (auto simp: act_simps same_hints_def split: sum.splits if_splits intro!: exI)
  next
    case False
    then show ?thesis using Cons.prems by (auto simp: act_simps same_hints_def split: if_splits intro!: exI)
  qed
  then show ?case
  proof (elim disjE exE conjE)
    fix e assume "r = Inl e" "t = s"
    then show ?case using self by simp
  next
    fix z' a' u assume "start_loop field_to_signal rs (z', a', c) u = (r, t)" "same_hints s u"
    then show ?case by (rule step)
  qed
qed

lemma update_start_hints:
  assumes "update_start field_to_signal read_file s = (Inr (), t)" "\<forall>r \<in> set (sa_record_buffer s). rec_event r \<noteq> EVENT_AFFINITY"
  shows "same_hints s t"
proof -
  obtain z a c u where u: "start_loop field_to_signal (sa_record_buffer s) (sa_time_zero s, False, False) s = (Inr (z, a, c), u)"
      "bind (if a then time_zero_reset z else ret ()) (\<lambda>_. if c then update_cpu_active read_file else ret ()) u = (Inr (), t)"
    using assms(1) by (auto simp: update_start_def time_zero_def act_simps bind_cases split: if_splits)
  have "same_hints s u" "\<not> c" using start_loop_hints[OF assms(2) u(1)] by simp_all
  then show ?thesis using u(2) by (auto simp: time_zero_reset_def act_simps same_hints_def split: if_splits)
qed

lemma update_stop_hints: "evolves same_hints update_stop"
  unfolding update_stop_def stop_one_def time_zero_def
  by (intro same_hints_intros) (auto simp: same_hints_def intro!: same_hints_intros split: prod.split)

lemma update_hints_eq:
  assumes "sampler_ok s"
  shows "\<exists>t. update_hints now s = (Inr (), t) \<and>
    (\<exists>times lasts. t = s\<lparr>sa_hint_time := times, sa_hint_last := lasts, sa_is_first_update := False, sa_update_time := now\<rparr>) \<and> sampler_ok t \<and> sa_update_time t = now \<and> \<not> sa_is_first_update t \<and>
    sa_status t = sa_status s \<and> sa_is_cpu_active t = sa_is_cpu_active s \<and> sa_num_cpu t = sa_num_cpu s \<and>
    (\<forall>i < nat (sa_num_cpu s). sa_hint_time t ! i =
        (if sa_is_first_update s then sa_hint_time s ! i else charged (geopm_time_diff (sa_update_time s) now) s i) \<and>
      sa_hint_last t ! i = seen_hint s (int i))"
proof -
  have "[0..sa_num_cpu s - 1] = map int [0..<nat (sa_num_cpu s)]"
    using assms upto_map_int by (cases "sa_num_cpu s = 0") (simp_all add: sampler_ok_def)
  then obtain times lasts where run: "for_each (hint_step (sa_is_first_update s) (geopm_time_diff (sa_update_time s) now)) (all_cpus s) s =
        (Inr (), s\<lparr>sa_hint_time := times, sa_hint_last := lasts\<rparr>)"
      "sampler_ok (s\<lparr>sa_hint_time := times, sa_hint_last := lasts\<rparr>)"
      "\<forall>i < nat (sa_num_cpu s). times ! i = (if sa_is_first_update s then sa_hint_time s ! i
          else charged (geopm_time_diff (sa_update_time s) now) s i) \<and> lasts ! i = seen_hint s (int i)"
    using hint_loop[OF assms le_refl, of "sa_is_first_update s" "geopm_time_diff (sa_update_time s) now"] by (auto simp: all_cpus_def)
  let ?t = "s\<lparr>sa_hint_time := times, sa_hint_last := lasts, sa_is_first_update := False, sa_update_time := now\<rparr>"
  have "update_hints now s = (Inr (), ?t)" using run(1) by (simp add: update_hints_def act_simps bind_def[of "for_each _ _"])
  moreover have "sampler_ok ?t" using run(2) by (simp add: sampler_ok_def)
  moreover have "\<exists>times lasts. ?t = s\<lparr>sa_hint_time := times, sa_hint_last := lasts, sa_is_first_update := False, sa_update_time := now\<rparr>"
    by blast
  ultimately show ?thesis using run(3) by (intro exI[of _ ?t]) simp
qed

lemma on_status_cache:
  assumes "sampler_ok s" "sa_status s = Some st"
  shows "on_status status_update_cache s = (Inr (), s\<lparr>sa_status := Some (st\<lparr>st_cache := st_buffer st\<rparr>)\<rparr>) \<and>
    sampler_ok (s\<lparr>sa_status := Some (st\<lparr>st_cache := st_buffer st\<rparr>)\<rparr>)"
proof -
  have "hints_ok st" using assms by (simp add: sampler_ok_def)
  then have "status_update_cache st = (Inr (), st\<lparr>st_cache := st_buffer st\<rparr>)" "hints_ok (st\<lparr>st_cache := st_buffer st\<rparr>)"
    using update_cache_copies[of st] by (auto simp: hints_ok_def status_ok_def)
  then show ?thesis using assms by (simp add: on_status_def sampler_ok_def)
qed

text \<open>
  Time is charged to the hint that was seen. When an update without an affinity event returns, then
  for each CPU the time since the last update has been added to the time of the hint that was seen for that CPU at
  the last update, and to no other (at the first update, nowhere); the hint that is remembered for the next
  interval is the one the application has now stored for the CPU, or "inactive" where the application
  does not run; and the tables stay consistent, so that no later access is out of range.
\<close>

theorem hint_time_charged:
  assumes "sampler_update field_to_signal read_file now s = (Inr (), t)" "sampler_ok s" "sa_status s = Some st"
    and "\<forall>(pid, p) \<in> set (sa_process_map s). process_ok p \<and> (\<forall>r \<in> set (records (log_layout p)). rec_event r \<noteq> EVENT_AFFINITY)"
    and "0 \<le> cpu" "cpu < sa_num_cpu s" "h = unat (sa_hint_last s ! nat cpu)"
  shows "sampler_ok t \<and> sa_update_time t = now \<and> sa_status t = Some (st\<lparr>st_cache := st_buffer st\<rparr>) \<and> h < 11 \<and>
    sa_hint_time t ! nat cpu =
      (if sa_is_first_update s then sa_hint_time s ! nat cpu
       else (sa_hint_time s ! nat cpu)[h := dadd (sa_hint_time s ! nat cpu ! h) (geopm_time_diff (sa_update_time s) now)]) \<and>
    sa_hint_last t ! nat cpu =
      (if sa_is_cpu_active s ! nat cpu then ucast (cs_hint (st_buffer st ! nat cpu)) else GEOPM_REGION_HINT_INACTIVE)"
proof -
  obtain u v w x where run: "update_records s = (Inr (), u)" "update_start field_to_signal read_file u = (Inr (), v)"
      "on_status status_update_cache v = (Inr (), w)" "update_hints now w = (Inr (), x)" "update_stop x = (Inr (), t)"
    using assms(1,3) by (auto simp: sampler_update_def act_simps bind_cases)
  have su: "same_hints s u" using run(1) update_records_hints evolvesD by metis
  have ok: "\<forall>(pid, p) \<in> set (sa_process_map s). process_ok p" using assms(4) by auto
  have "rec_event r \<noteq> EVENT_AFFINITY" if r: "r \<in> set (sa_record_buffer u)" for r
  proof
    assume aff: "rec_event r = EVENT_AFFINITY"
    then have "r \<in> set (filter (\<lambda>r. \<not> is_short r) (filter (\<lambda>r. \<not> is_epoch r) (sa_record_buffer u)))" using r by simp
    then have "r \<in> set (filter (\<lambda>r. \<not> is_short r) (gathered 0 (sa_process_map s)))"
      using update_records_gathers[OF run(1) ok] by argo
    then show False using assms(4) aff unfolding gathered_others by auto
  qed
  then have "same_hints u v" using update_start_hints[OF run(2)] by blast
  then have sv: "same_hints s v" using su same_hints_trans by blast
  have vok: "sampler_ok v" by (rule same_hints_ok[OF sv assms(2)])
  have vst: "sa_status v = Some st" using sv assms(3) by (simp add: same_hints_def)
  then have w: "w = v\<lparr>sa_status := Some (st\<lparr>st_cache := st_buffer st\<rparr>)\<rparr>" "sampler_ok w" using on_status_cache[OF vok vst] run(3) by auto
  note x = update_hints_eq[OF w(2), of now, unfolded run(4)]
  have xt: "same_hints x t" using run(5) update_stop_hints evolvesD by metis
  have i: "nat cpu < nat (sa_num_cpu w)" "int (nat cpu) = cpu" using assms(5,6) sv w(1) by (simp_all add: same_hints_def)
  have "sa_hint_last s ! nat cpu \<in> set (sa_hint_last s)" using assms(2,5,6) by (auto simp: sampler_ok_def)
  then have "h < 11" using assms(2,7) by (auto simp: sampler_ok_def word_less_nat_alt)
  moreover have "charged (geopm_time_diff (sa_update_time w) now) w (nat cpu) =
      (sa_hint_time s ! nat cpu)[h := dadd (sa_hint_time s ! nat cpu ! h) (geopm_time_diff (sa_update_time s) now)]"
    using sv assms(7) by (simp add: charged_def w(1) same_hints_def Let_def)
  moreover have "seen_hint w cpu = (if sa_is_cpu_active s ! nat cpu then ucast (cs_hint (st_buffer st ! nat cpu)) else GEOPM_REGION_HINT_INACTIVE)"
    using sv by (simp add: seen_hint_def w(1) same_hints_def)
  moreover have "sampler_ok t" using x xt same_hints_ok by blast
  ultimately show ?thesis using x xt i sv by (auto simp: same_hints_def w(1))
qed

theorem hint_time_charged_witness:
  "\<exists>s t. sampler_update (\<lambda>_. NaN) (\<lambda>_. Inl invalid) \<lparr>tv_sec = 5, tv_nsec = 0\<rparr> s = (Inr (), t) \<and> \<not> sa_is_first_update s \<and>
     sa_hint_time t ! 0 = (replicate 11 (Fin 0))[0 := dadd (Fin 0) (geopm_time_diff \<lparr>tv_sec = 0, tv_nsec = 0\<rparr> \<lparr>tv_sec = 5, tv_nsec = 0\<rparr>)]"
proof -
  obtain s0 where s0: "sampler_new (Some one_status) one_cpu [] False [] [True] [] \<lparr>tv_sec = 0, tv_nsec = 0\<rparr> False = Inr s0"
    by (simp add: sampler_new_def one_cpu_def)
  let ?s = "s0\<lparr>sa_is_first_update := False\<rparr>"
  let ?now = "\<lparr>tv_sec = 5, tv_nsec = 0\<rparr>"
  have s: "sa_process_map ?s = []" "sa_status ?s = Some one_status" "sa_num_cpu ?s = 1" "\<not> sa_is_first_update ?s" "sa_hint_last ?s = [0]"
      "sa_hint_time ?s = [replicate 11 (Fin 0)]" "sa_update_time ?s = \<lparr>tv_sec = 0, tv_nsec = 0\<rparr>" "sa_is_cpu_active ?s = [True]"
      "sa_record_buffer ?s = []" "sa_short_region_buffer ?s = []" "\<not> sa_time_error ?s" "sa_num_registered ?s = 0"
    using s0 by (auto simp: sampler_new_def one_cpu_def num_cpu_def)
  have ok: "sampler_ok ?s"
    using s(2,3,5,6,8) by (auto simp: sampler_ok_def hints_ok_def status_ok_def one_status_def zero_status_def word_less_nat_alt)
  have same: "?s\<lparr>sa_record_buffer := [], sa_short_region_buffer := []\<rparr> = ?s" using s(9,10) by simp
  have 1: "update_records ?s = (Inr (), ?s)" using s(1) same by (simp add: update_records_def act_simps)
  have 2: "update_start (\<lambda>_. NaN) (\<lambda>_. Inl invalid) ?s = (Inr (), ?s)"
    using s(9,11) by (simp add: update_start_def time_zero_def act_simps bind_def)
  have "?s\<lparr>sa_status := Some one_status\<rparr> = ?s" using s(2) by simp
  then have 3: "on_status status_update_cache ?s = (Inr (), ?s)" using s(2) by (simp add: on_status_def one_status_cache)
  obtain x where x: "update_hints ?now ?s = (Inr (), x)"
      "\<exists>times lasts. x = ?s\<lparr>sa_hint_time := times, sa_hint_last := lasts, sa_is_first_update := False, sa_update_time := ?now\<rparr>"
    using update_hints_eq[OF ok, of ?now] by blast
  have 4: "sa_record_buffer x = []" "\<not> sa_time_error x" "sa_num_registered x = 0" using x(2) s by auto
  have 5: "update_stop x = (Inr (), x)" using 4 by (simp add: update_stop_def time_zero_def act_simps bind_def)
  have run: "sampler_update (\<lambda>_. NaN) (\<lambda>_. Inl invalid) ?now ?s = (Inr (), x)"
    using 1 2 3 x(1) 5 s(2) by (simp add: sampler_update_def bind_def act_simps)
  then show ?thesis
    using hint_time_charged[OF run ok s(2), of 0 0] s by (intro exI[of _ ?s] exI[of _ x]) simp
qed

end
