(* ===== verification/Region_Aggregator.thy ===== *)
theory Region_Aggregator
  imports Application_Sampler
begin

text \<open>
  \<^verbatim>\<open>ProcessRegionAggregator\<close> adds up, for each process and region, the time and the number of the
  completed calls that the records of the sampler report. With the record log and the sampler this closes the
  pipeline: the calls of \<^verbatim>\<open>exit()\<close> in the application are the counts in the report.
\<close>

section \<open>State and operations\<close>

record region_info_s =
  ri_total_runtime :: double
  ri_total_count :: int
  ri_last_entry_time :: double

text \<open>The map from processes is iterated in the order of the process ids.\<close>

record aggregator =
  ag_num_process :: int
  ag_region_info :: "(int \<times> (64 word \<Rightarrow> region_info_s option)) list"

definition aggregator_new :: "sampler \<Rightarrow> aggregator" where
  "aggregator_new sampler = \<lparr>ag_num_process = int (length (sa_client_pids sampler)), ag_region_info = []\<rparr>"

text \<open>A new entry of the map is filled with zeros.\<close>

definition zero_info :: region_info_s where
  "zero_info = \<lparr>ri_total_runtime = Fin 0, ri_total_count = 0, ri_last_entry_time = Fin 0\<rparr>"

definition emplace_region :: "int \<Rightarrow> 64 word \<Rightarrow> (aggregator, region_info_s) action" where
  "emplace_region process region_hash =
     bind (modify (\<lambda>a. a\<lparr>ag_region_info := upsert process (\<lambda>m.
         let region_map = (case m of Some region_map \<Rightarrow> region_map | None \<Rightarrow> Map.empty)
         in case region_map region_hash of Some _ \<Rightarrow> region_map | None \<Rightarrow> region_map(region_hash \<mapsto> zero_info)) (ag_region_info a)\<rparr>)) (\<lambda>_.
     gets (\<lambda>a. the (the (map_of (ag_region_info a) process) region_hash)))"

definition find_region :: "int \<Rightarrow> 64 word \<Rightarrow> (aggregator, region_info_s) action" where
  "find_region process region_hash =
     bind (gets (\<lambda>a. map_of (ag_region_info a) process)) (\<lambda>proc.
     case proc of
       None \<Rightarrow> throw invalid
     | Some region_map \<Rightarrow> (case region_map region_hash of None \<Rightarrow> throw invalid | Some region \<Rightarrow> ret region))"

definition set_region :: "int \<Rightarrow> 64 word \<Rightarrow> region_info_s \<Rightarrow> (aggregator, unit) action" where
  "set_region process region_hash region =
     modify (\<lambda>a. a\<lparr>ag_region_info := upsert process (\<lambda>m. (the m)(region_hash \<mapsto> region)) (ag_region_info a)\<rparr>)"

definition aggregate_entry :: "geopm_time_s \<Rightarrow> record_s \<Rightarrow> (aggregator, unit) action" where
  "aggregate_entry zero rec =
     bind (emplace_region (rec_process rec) (rec_signal rec)) (\<lambda>region.
     set_region (rec_process rec) (rec_signal rec) (region\<lparr>ri_last_entry_time := geopm_time_diff zero (rec_time rec)\<rparr>))"

definition aggregate_exit :: "geopm_time_s \<Rightarrow> record_s \<Rightarrow> (aggregator, unit) action" where
  "aggregate_exit zero rec =
     bind (find_region (rec_process rec) (rec_signal rec)) (\<lambda>region.
     bind (lift (int_result (ri_total_count region + 1))) (\<lambda>total_count.
     set_region (rec_process rec) (rec_signal rec)
       (region\<lparr>ri_total_runtime := dadd (ri_total_runtime region) (dsub (geopm_time_diff zero (rec_time rec)) (ri_last_entry_time region)),
               ri_total_count := total_count\<rparr>)))"

text \<open>The handle passes through a local variable of type \<^verbatim>\<open>int\<close>.\<close>

definition aggregate_short :: "sampler \<Rightarrow> record_s \<Rightarrow> (aggregator, unit) action" where
  "aggregate_short sampler rec =
     bind (lift (get_short_region sampler (word_of_int (int_of_signal (rec_signal rec))))) (\<lambda>short_region.
     bind (emplace_region (rec_process rec) (sr_hash short_region)) (\<lambda>region.
     bind (lift (int_result (ri_total_count region + sr_num_complete short_region))) (\<lambda>total_count.
     set_region (rec_process rec) (sr_hash short_region)
       (region\<lparr>ri_total_runtime := dadd (ri_total_runtime region) (sr_total_time short_region), ri_total_count := total_count\<rparr>))))"

definition aggregate_record :: "sampler \<Rightarrow> geopm_time_s \<Rightarrow> record_s \<Rightarrow> (aggregator, unit) action" where
  "aggregate_record sampler zero rec =
     (if rec_event rec = EVENT_REGION_ENTRY then aggregate_entry zero rec
      else if rec_event rec = EVENT_REGION_EXIT then aggregate_exit zero rec
      else if rec_event rec = EVENT_SHORT_REGION then aggregate_short sampler rec
      else ret ())"

definition aggregator_update :: "sampler \<Rightarrow> (aggregator, unit) action" where
  "aggregator_update sampler =
     bind (lift (fst (time_zero sampler))) (\<lambda>zero. for_each (aggregate_record sampler zero) (sa_record_buffer sampler))"

definition get_runtime_average :: "aggregator \<Rightarrow> 64 word \<Rightarrow> double" where
  "get_runtime_average a region_hash =
     (let total = fold (\<lambda>(process, region_map) total. case region_map region_hash of
                          Some region \<Rightarrow> dadd total (ri_total_runtime region) | None \<Rightarrow> total) (ag_region_info a) (Fin 0)
      in if ag_num_process a \<noteq> 0 then ddiv total (d_of_int (ag_num_process a)) else total)"

definition get_count_average :: "aggregator \<Rightarrow> 64 word \<Rightarrow> double" where
  "get_count_average a region_hash =
     (let total = fold (\<lambda>(process, region_map) total. case region_map region_hash of
                          Some region \<Rightarrow> dadd total (d_of_int (ri_total_count region)) | None \<Rightarrow> total) (ag_region_info a) (Fin 0)
      in if ag_num_process a \<noteq> 0 then ddiv total (d_of_int (ag_num_process a)) else total)"

section \<open>The maps\<close>

definition ag_ok :: "aggregator \<Rightarrow> bool" where
  "ag_ok a \<longleftrightarrow> sset (map fst (ag_region_info a))"

definition info_of :: "aggregator \<Rightarrow> int \<Rightarrow> 64 word \<Rightarrow> region_info_s option" where
  "info_of a p h = (case map_of (ag_region_info a) p of Some m \<Rightarrow> m h | None \<Rightarrow> None)"

definition count_of :: "aggregator \<Rightarrow> int \<Rightarrow> 64 word \<Rightarrow> int" where
  "count_of a p h = (case info_of a p h of Some i \<Rightarrow> ri_total_count i | None \<Rightarrow> 0)"

lemma emplace_region_eq:
  assumes "ag_ok a"
  shows "\<exists>b i. emplace_region p h a = (Inr i, b) \<and> ag_ok b \<and> i = (case info_of a p h of Some i \<Rightarrow> i | None \<Rightarrow> zero_info) \<and>
    info_of b p h = Some i \<and> (\<forall>q k. (q, k) \<noteq> (p, h) \<longrightarrow> info_of b q k = info_of a q k)"
proof -
  let ?f = "\<lambda>m. let region_map = (case m of Some region_map \<Rightarrow> region_map | None \<Rightarrow> Map.empty)
         in case region_map h of Some _ \<Rightarrow> region_map | None \<Rightarrow> region_map(h \<mapsto> zero_info)"
  let ?b = "a\<lparr>ag_region_info := upsert p ?f (ag_region_info a)\<rparr>"
  have ok: "sset (map fst (ag_region_info a))" using assms by (simp add: ag_ok_def)
  have "ag_ok ?b" using upsert_keys[OF ok] by (simp add: ag_ok_def)
  moreover have info: "info_of ?b q k = (if q = p then ?f (map_of (ag_region_info a) p) k else info_of a q k)" for q k
    by (simp add: info_of_def map_of_upsert[OF ok])
  moreover have "emplace_region p h a = (Inr (the (info_of ?b p h)), ?b)"
    by (simp add: emplace_region_def act_simps info_of_def map_of_upsert[OF ok])
  moreover have "?f (map_of (ag_region_info a) p) h = Some (case info_of a p h of Some i \<Rightarrow> i | None \<Rightarrow> zero_info)"
    by (auto simp: info_of_def split: option.splits)
  moreover have "?f (map_of (ag_region_info a) p) k = info_of a p k" if "k \<noteq> h" for k
    using that by (auto simp: info_of_def Let_def split: option.splits)
  ultimately show ?thesis by (intro exI[of _ ?b]) auto
qed

lemma set_region_eq:
  assumes "ag_ok a" "info_of a p h = Some j"
  shows "\<exists>b. set_region p h i a = (Inr (), b) \<and> ag_ok b \<and> info_of b p h = Some i \<and>
    (\<forall>q k. (q, k) \<noteq> (p, h) \<longrightarrow> info_of b q k = info_of a q k)"
proof -
  have ok: "sset (map fst (ag_region_info a))" using assms by (simp add: ag_ok_def)
  let ?b = "a\<lparr>ag_region_info := upsert p (\<lambda>m. (the m)(h \<mapsto> i)) (ag_region_info a)\<rparr>"
  have "ag_ok ?b" using upsert_keys[OF ok] by (simp add: ag_ok_def)
  then show ?thesis
    using assms(2) by (intro exI[of _ ?b]) (auto simp: set_region_def act_simps info_of_def map_of_upsert[OF ok] split: option.splits)
qed

section \<open>What a record adds\<close>

text \<open>The completed calls of a region in a process that one record reports.\<close>

definition reported :: "sampler \<Rightarrow> int \<Rightarrow> 64 word \<Rightarrow> record_s \<Rightarrow> int" where
  "reported sampler p h r =
     (if rec_process r \<noteq> p then 0
      else if rec_event r = EVENT_REGION_EXIT then (if rec_signal r = h then 1 else 0)
      else if is_short r then
        (case get_short_region sampler (rec_signal r) of Inr x \<Rightarrow> if sr_hash x = h then sr_num_complete x else 0 | Inl _ \<Rightarrow> 0)
      else 0)"

lemma int_of_signal_id:
  assumes "unat signal < 2 ^ 31"
  shows "word_of_int (int_of_signal signal) = signal"
proof -
  have "uint signal = int (unat signal)" by (simp only: uint_nat)
  moreover have "int (unat signal) < 2 ^ 31" using assms by (metis of_nat_less_iff of_nat_numeral of_nat_power)
  ultimately have u: "0 \<le> uint signal" "uint signal < 2 ^ 31" by simp_all
  then have "uint (ucast signal :: 32 word) = uint signal"
    by (simp add: unsigned_ucast_eq take_bit_int_eq_self)
  moreover have "signed_take_bit 31 (uint signal) = uint signal"
    using u order_trans[OF _ u(1), of "- 2147483648"] by (intro signed_take_bit_int_eq_self) simp_all
  ultimately have "int_of_signal signal = uint signal"
    by (simp add: int_of_signal_def sint_uint)
  then show ?thesis by simp
qed

lemma count_of_info: "info_of b p h = Some i \<Longrightarrow> count_of b p h = ri_total_count i"
  by (simp add: count_of_def)

lemma count_of_cong: "info_of b p h = info_of a p h \<Longrightarrow> count_of b p h = count_of a p h"
  by (simp add: count_of_def)

lemma aggregate_record_counts:
  assumes run: "aggregate_record sampler zero r a = (Inr (), b)" and ok: "ag_ok a" and sig: "is_short r \<Longrightarrow> unat (rec_signal r) < 2 ^ 31"
  shows "ag_ok b \<and> count_of b p h = count_of a p h + reported sampler p h r"
proof -
  consider "rec_event r = EVENT_REGION_ENTRY" | "rec_event r = EVENT_REGION_EXIT" | "is_short r"
    | "rec_event r \<notin> {EVENT_REGION_ENTRY, EVENT_REGION_EXIT, EVENT_SHORT_REGION}" by blast
  then show ?thesis
  proof cases
    case 1
    obtain c i where c: "emplace_region (rec_process r) (rec_signal r) a = (Inr i, c)" "ag_ok c"
        "i = (case info_of a (rec_process r) (rec_signal r) of Some i \<Rightarrow> i | None \<Rightarrow> zero_info)"
        "info_of c (rec_process r) (rec_signal r) = Some i"
        "\<forall>q k. (q, k) \<noteq> (rec_process r, rec_signal r) \<longrightarrow> info_of c q k = info_of a q k"
      using emplace_region_eq[OF ok] by blast
    obtain d where d: "set_region (rec_process r) (rec_signal r) (i\<lparr>ri_last_entry_time := geopm_time_diff zero (rec_time r)\<rparr>) c = (Inr (), d)" "ag_ok d"
        "info_of d (rec_process r) (rec_signal r) = Some (i\<lparr>ri_last_entry_time := geopm_time_diff zero (rec_time r)\<rparr>)"
        "\<forall>q k. (q, k) \<noteq> (rec_process r, rec_signal r) \<longrightarrow> info_of d q k = info_of c q k"
      using set_region_eq[OF c(2,4)] by blast
    have "b = d" using run 1 c(1) d(1) by (simp add: aggregate_record_def aggregate_entry_def bind_def)
    moreover have "count_of d p h = count_of a p h"
      using c(3,5) d(3,4) by (cases "(p, h) = (rec_process r, rec_signal r)") (auto simp: count_of_def zero_info_def split: option.splits)
    ultimately show ?thesis using 1 d(2) by (simp add: reported_def)
  next
    case 2
    obtain i where i: "find_region (rec_process r) (rec_signal r) a = (Inr i, a)" "info_of a (rec_process r) (rec_signal r) = Some i"
      using run 2 by (auto simp: aggregate_record_def aggregate_exit_def find_region_def act_simps bind_cases info_of_def split: option.splits)
    obtain n where n: "int_result (ri_total_count i + 1) = Inr n" "n = ri_total_count i + 1"
      using run 2 i(1) by (auto simp: aggregate_record_def aggregate_exit_def bind_def act_simps int_result_def split: if_splits)
    let ?j = "i\<lparr>ri_total_runtime := dadd (ri_total_runtime i) (dsub (geopm_time_diff zero (rec_time r)) (ri_last_entry_time i)), ri_total_count := n\<rparr>"
    obtain d where d: "set_region (rec_process r) (rec_signal r) ?j a = (Inr (), d)" "ag_ok d" "info_of d (rec_process r) (rec_signal r) = Some ?j"
        "\<forall>q k. (q, k) \<noteq> (rec_process r, rec_signal r) \<longrightarrow> info_of d q k = info_of a q k"
      using set_region_eq[OF ok i(2)] by blast
    have "b = d" using run 2 i(1) n(1) d(1) by (simp add: aggregate_record_def aggregate_exit_def bind_def act_simps)
    moreover have "count_of d p h = count_of a p h + reported sampler p h r"
      using i(2) d(3,4) n(2) 2 by (cases "(p, h) = (rec_process r, rec_signal r)") (auto simp: count_of_def reported_def)
    ultimately show ?thesis using d(2) by simp
  next
    case 3
    obtain x where x: "get_short_region sampler (rec_signal r) = Inr x"
      using run 3 int_of_signal_id[OF sig[OF 3]]
      by (auto simp: aggregate_record_def aggregate_short_def bind_cases act_simps split: sum.splits)
    obtain c i where c: "emplace_region (rec_process r) (sr_hash x) a = (Inr i, c)" "ag_ok c"
        "i = (case info_of a (rec_process r) (sr_hash x) of Some i \<Rightarrow> i | None \<Rightarrow> zero_info)"
        "info_of c (rec_process r) (sr_hash x) = Some i"
        "\<forall>q k. (q, k) \<noteq> (rec_process r, sr_hash x) \<longrightarrow> info_of c q k = info_of a q k"
      using emplace_region_eq[OF ok] by blast
    obtain n where n: "int_result (ri_total_count i + sr_num_complete x) = Inr n" "n = ri_total_count i + sr_num_complete x"
      using run 3 x c(1) int_of_signal_id[OF sig[OF 3]]
      by (auto simp: aggregate_record_def aggregate_short_def bind_def act_simps int_result_def split: if_splits)
    let ?j = "i\<lparr>ri_total_runtime := dadd (ri_total_runtime i) (sr_total_time x), ri_total_count := n\<rparr>"
    obtain d where d: "set_region (rec_process r) (sr_hash x) ?j c = (Inr (), d)" "ag_ok d" "info_of d (rec_process r) (sr_hash x) = Some ?j"
        "\<forall>q k. (q, k) \<noteq> (rec_process r, sr_hash x) \<longrightarrow> info_of d q k = info_of c q k"
      using set_region_eq[OF c(2,4)] by blast
    have "b = d" using run 3 x c(1) n(1) d(1) int_of_signal_id[OF sig[OF 3]]
      by (simp add: aggregate_record_def aggregate_short_def bind_def act_simps)
    moreover have "count_of d p h = count_of a p h + reported sampler p h r"
      using c(3,5) d(3,4) n(2) 3 x
      by (cases "(p, h) = (rec_process r, sr_hash x)") (auto simp: count_of_def reported_def zero_info_def split: option.splits)
    ultimately show ?thesis using d(2) by simp
  next
    case 4
    then show ?thesis using run ok by (auto simp: aggregate_record_def reported_def ret_def)
  qed
qed

lemma aggregate_all_counts:
  assumes "for_each (aggregate_record sampler zero) rs a = (Inr (), b)" "ag_ok a"
    and "\<forall>r \<in> set rs. is_short r \<longrightarrow> unat (rec_signal r) < 2 ^ 31"
  shows "ag_ok b \<and> count_of b p h = count_of a p h + sum_list (map (reported sampler p h) rs)"
  using assms
proof (induction rs arbitrary: a)
  case (Cons r rs)
  then obtain c where c: "aggregate_record sampler zero r a = (Inr (), c)" "for_each (aggregate_record sampler zero) rs c = (Inr (), b)"
    by (auto simp: bind_cases)
  from aggregate_record_counts[OF c(1) Cons.prems(2)] Cons.prems(3) Cons.IH[OF c(2)] show ?case by simp
qed simp

section \<open>Whose records they are\<close>

text \<open>Every record of a log is a record of its process.\<close>

definition owned :: "int \<Rightarrow> record_log \<Rightarrow> bool" where
  "owned p l \<longleftrightarrow> rl_process l = p \<and> length (record_table (rl_layout l)) = M_MAX_RECORD \<and>
     (\<forall>r \<in> set (records (rl_layout l)). rec_process r = p)"

lemma set_take_update:
  assumes "\<And>x. P x \<Longrightarrow> P (f x)" "\<forall>x \<in> set (take n xs). P x" "i < length xs"
  shows "\<forall>x \<in> set (take n (xs[i := f (xs ! i)])). P x"
  using assms by (simp add: all_set_conv_all_nth nth_list_update)

lemma owned_enter [simp]: "owned p (l\<lparr>rl_enter_map := m\<rparr>) = owned p l" "owned p (l\<lparr>rl_epoch_count := e\<rparr>) = owned p l"
    "owned p (l\<lparr>rl_entered_hash := h\<rparr>) = owned p l" "owned p (l\<lparr>rl_layout := (rl_layout l)\<lparr>num_region := n\<rparr>\<rparr>) = owned p l"
    "owned p (l\<lparr>rl_layout := (rl_layout l)\<lparr>region_table := t\<rparr>\<rparr>) = owned p l"
    "owned p l \<Longrightarrow> owned p (l\<lparr>rl_layout := (rl_layout l)\<lparr>num_record := 0, num_region := n\<rparr>\<rparr>)"
  by (simp_all add: owned_def records_def)

lemma keeps_owned_append: "keeps (owned p) (append_event time event signal)"
proof (rule keepsI)
  fix s r t assume "owned p s" and run: "append_event time event signal s = (r, t)"
  then show "owned p t"
    by (auto simp: append_event_def append_record_def act_simps bind_def owned_def records_def take_Suc_conv_app_nth split: if_splits)
qed

lemma keeps_owned_record:
  assumes "\<And>r. rec_process (f r) = rec_process r"
  shows "keeps (owned p) (upd_record i f)"
  unfolding upd_record_def
proof (rule keepsI)
  fix s r t
  assume own: "owned p s" and run: "bind (gets (\<lambda>s. update_at (record_table (rl_layout s)) i (\<lambda>r. Inr (f r)))) (\<lambda>res.
     bind (lift res) (\<lambda>table. modify (\<lambda>s. s\<lparr>rl_layout := (rl_layout s)\<lparr>record_table := table\<rparr>\<rparr>))) s = (r, t)"
  show "owned p t"
  proof (cases "0 \<le> i \<and> i < int (length (record_table (rl_layout s)))")
    case True
    then have i: "nat i < length (record_table (rl_layout s))" by linarith
    have "t = s\<lparr>rl_layout := (rl_layout s)\<lparr>record_table := (record_table (rl_layout s))[nat i := f (record_table (rl_layout s) ! nat i)]\<rparr>\<rparr>"
      using run True by (simp add: act_simps update_at_def)
    then show ?thesis
      using own set_take_update[OF _ _ i, of "\<lambda>r. rec_process r = p" f "num_record (rl_layout s)"] assms by (auto simp: owned_def records_def)
  next
    case False
    then show ?thesis using own run by (auto simp: act_simps update_at_def)
  qed
qed

lemma keeps_option [keeps_intros]:
  "(x = None \<Longrightarrow> keeps P m) \<Longrightarrow> (\<And>y. x = Some y \<Longrightarrow> keeps P (f y)) \<Longrightarrow> keeps P (case x of None \<Rightarrow> m | Some y \<Rightarrow> f y)"
  by (cases x) simp_all

lemma keeps_owned_step: "keeps (owned p) (log_step op)"
proof -
  have reset: "keeps (owned p) check_reset"
    unfolding check_reset_def by (intro keeps_intros) (auto split: option.splits)
  have region: "keeps (owned p) (upd_region i f)" for i f
    unfolding upd_region_def by (intro keeps_intros) simp
  have enter: "keeps (owned p) (upd_enter hash f)" for hash f
    unfolding upd_enter_def by (intro keeps_intros) simp
  note rules = keeps_intros keeps_owned_append keeps_owned_record reset region enter
  show ?thesis
    by (cases op) (simp_all only: log_step.simps log_enter_def enter_region_def log_exit_def exit_region_def find_or_add_region_def
      log_epoch_def log_affinity_def log_dump_def, (intro rules; simp)+)
qed

lemma owned_run:
  assumes "make_record_log shmem_size p = Inr l" "for_each log_step ops l = (r, t)"
  shows "owned p t"
proof -
  have "owned p l" using assms(1) by (auto simp: make_record_log_def owned_def zero_layout_def records_def split: if_splits)
  moreover have "keeps (owned p) (for_each log_step ops)" by (intro keeps_for_each keeps_owned_step)
  ultimately show ?thesis using assms(2) keepsD by metis
qed

section \<open>The counts of one process\<close>

lemma sum_over_handles:
  assumes "layout_ok L"
  shows "sum_list (map (\<lambda>r. w (regions L ! unat (rec_signal r))) (filter is_short (records L))) = (sum_list (map w (regions L)) :: int)"
proof -
  have "sum_list (map (\<lambda>r. w (regions L ! unat (rec_signal r))) (filter is_short (records L))) =
      sum_mset (image_mset (\<lambda>j. w (regions L ! j)) (mset (short_signals (records L))))"
    by (simp add: short_signals_def sum_mset_sum_list[symmetric] image_mset.compositionality comp_def)
  also have "\<dots> = sum (\<lambda>j. w (regions L ! j)) {0..<length (regions L)}"
    using assms length_regions[OF assms] by (simp add: layout_ok_def sum_unfold_sum_mset)
  also have "\<dots> = sum_list (map w (regions L))" by (simp add: sum_list_sum_nth)
  finally show ?thesis .
qed

lemma reported_shift:
  assumes L: "layout_ok L" and r: "r \<in> set (records L)" "rec_process r = p" and room: "length pre + length (regions L) < 2 ^ 64"
    and buffer: "sa_short_region_buffer t = pre @ regions L @ post"
  shows "reported t p h (shift (of_nat (length pre)) r) =
    (if rec_event r = EVENT_REGION_EXIT \<and> rec_signal r = h then 1 else 0) +
    (if is_short r then (if sr_hash (regions L ! unat (rec_signal r)) = h then sr_num_complete (regions L ! unat (rec_signal r)) else 0) else 0)"
proof (cases "is_short r")
  case True
  let ?j = "unat (rec_signal r)"
  have j: "?j < length (regions L)" by (rule short_signal_less[OF L r(1) True])
  have "unat (rec_signal (shift (of_nat (length pre)) r)) = length pre + ?j" by (rule shifted_shorts[OF L room r(1) True])
  then have "get_short_region t (rec_signal (shift (of_nat (length pre)) r)) = Inr (regions L ! ?j)"
    using j by (simp add: get_short_region_def buffer nth_append)
  moreover have "rec_process (shift (of_nat (length pre)) r) = p" using r(2) by (simp add: shift_def)
  ultimately show ?thesis using True by (simp add: reported_def)
next
  case False
  then show ?thesis using r(2) by (simp add: reported_def shift_def)
qed

lemma sum_if_count: "sum_list (map (\<lambda>x. if P x then 1 else 0) xs) = int (length (filter P xs))"
  by (induction xs) simp_all

lemma log_reported:
  assumes L: "layout_ok L" and own: "\<forall>r \<in> set (records L). rec_process r = q" and room: "length pre + length (regions L) < 2 ^ 64"
    and buffer: "sa_short_region_buffer t = pre @ regions L @ post"
  shows "sum_list (map (reported t p h) (map (shift (of_nat (length pre))) (filter (\<lambda>r. \<not> is_epoch r) (records L)))) =
    (if q = p then completions h (records L) (regions L) else 0)"
proof (cases "q = p")
  case True
  let ?s = "shift (of_nat (length pre))" and ?w = "\<lambda>x. if sr_hash x = h then sr_num_complete x else 0"
  let ?f = "\<lambda>r. reported t p h (?s r)"
  have "sum_list (map ?f (filter (\<lambda>r. \<not> is_epoch r) (records L))) = sum_list (map ?f (records L))"
    by (rule sum_list_map_filter) (simp add: reported_def shift_def)
  also have "map ?f (records L) = map (\<lambda>r. (if rec_event r = EVENT_REGION_EXIT \<and> rec_signal r = h then 1 else 0) +
      (if is_short r then ?w (regions L ! unat (rec_signal r)) else 0)) (records L)"
    using own True by (intro map_cong[OF refl] reported_shift[OF L _ _ room buffer]) auto
  also have "sum_list \<dots> = int (length (filter (\<lambda>r. rec_event r = EVENT_REGION_EXIT \<and> rec_signal r = h) (records L))) +
      sum_list (map (\<lambda>r. ?w (regions L ! unat (rec_signal r))) (filter is_short (records L)))"
    by (simp only: sum_list_addf sum_if_count sum_list_map_filter')
  also have "\<dots> = completions h (records L) (regions L)"
    unfolding completions_def sum_over_handles[OF L, of ?w] by (simp only: sum_list_map_filter')
  finally show ?thesis using True by (simp add: comp_def)
next
  case False
  then have "reported t p h (shift d r) = 0" if "r \<in> set (records L)" for d r
    using that own by (auto simp: reported_def shift_def)
  then have "map (reported t p h) (map (shift (of_nat (length pre))) (filter (\<lambda>r. \<not> is_epoch r) (records L))) =
      map (\<lambda>_. 0) (filter (\<lambda>r. \<not> is_epoch r) (records L))" by simp
  then show ?thesis using False by (simp only: sum_list_0 if_False)
qed

definition owner_ok :: "int \<times> process_s \<Rightarrow> bool" where
  "owner_ok x \<longleftrightarrow> process_ok (snd x) \<and> (\<forall>r \<in> set (records (log_layout (snd x))). rec_process r = fst x)"

lemma gathered_reported:
  assumes "\<forall>x \<in> set ps. owner_ok x" "distinct (map fst ps)" "length pre + length (all_regions ps) < 2 ^ 64"
    and "sa_short_region_buffer t = pre @ all_regions ps"
  shows "sum_list (map (reported t p h) (gathered (length pre) ps)) =
    (case map_of ps p of Some x \<Rightarrow> completed h (ps_record_log x) | None \<Rightarrow> 0)"
  using assms
proof (induction ps arbitrary: pre)
  case (Cons y ps)
  obtain q x where y: "y = (q, x)" by fastforce
  let ?L = "log_layout x"
  have L: "layout_ok ?L" "\<forall>r \<in> set (records ?L). rec_process r = q" using Cons.prems(1) y by (simp_all add: owner_ok_def process_ok_def)
  have head: "sum_list (map (reported t p h) (map (shift (of_nat (length pre))) (filter (\<lambda>r. \<not> is_epoch r) (records ?L)))) =
      (if q = p then completed h (ps_record_log x) else 0)"
    unfolding completed_def using Cons.prems(3,4) y by (intro log_reported[OF L]) simp_all
  have "sum_list (map (reported t p h) (gathered (length (pre @ regions ?L)) ps)) =
      (case map_of ps p of Some x \<Rightarrow> completed h (ps_record_log x) | None \<Rightarrow> 0)"
    using Cons.prems y by (intro Cons.IH) simp_all
  moreover have "map_of ps p = None" if "q = p"
    using Cons.prems(2) y that by (simp add: map_of_eq_None_iff)
  ultimately show ?case using head y by (cases "q = p") (simp_all add: sum_list_append)
qed simp

section \<open>The whole pipeline\<close>

lemma aggregator_new_ok: "ag_ok (aggregator_new t) \<and> count_of (aggregator_new t) p h = 0"
  by (simp add: aggregator_new_def ag_ok_def sset_def count_of_def info_of_def)

text \<open>What the sampler's buffers hold after an update, for the aggregator.\<close>

lemma update_reported:
  assumes "sampler_update field_to_signal read_file now s = (Inr (), t)" "sa_status s \<noteq> None"
    and "\<forall>x \<in> set (sa_process_map s). owner_ok x" "distinct (map fst (sa_process_map s))" "length (sa_process_map s) \<le> 2 ^ 20"
  shows "sum_list (map (reported t p h) (sa_record_buffer t)) =
      (case map_of (sa_process_map s) p of Some x \<Rightarrow> completed h (ps_record_log x) | None \<Rightarrow> 0) \<and>
    (\<forall>r \<in> set (sa_record_buffer t). is_short r \<longrightarrow> unat (rec_signal r) < 2 ^ 31)"
proof
  let ?pm = "sa_process_map s"
  have ok: "\<forall>(pid, p) \<in> set ?pm. process_ok p" using assms(3) by (auto simp: owner_ok_def)
  obtain u where u: "update_records s = (Inr (), u)" "buffers (sa_record_buffer u) (sa_short_region_buffer u) (sa_process_map u) t"
    using sampler_update_buffers[OF assms(1,2)] by blast
  have short: "sa_short_region_buffer t = all_regions ?pm" and rest: "filter (\<lambda>r. \<not> is_epoch r) (sa_record_buffer t) = gathered 0 ?pm"
    using update_records_gathers[OF u(1) ok] u(2) by (simp_all add: buffers_def)
  have room: "length (all_regions ?pm) \<le> 2 ^ 30" using length_all_regions[OF ok] assms(5) by simp
  then have less: "length ([] :: short_region_s list) + length (all_regions ?pm) < 2 ^ 64" by simp
  have "sum_list (map (reported t p h) (sa_record_buffer t)) = sum_list (map (reported t p h) (gathered 0 ?pm))"
    unfolding rest[symmetric] by (rule sum_list_map_filter[symmetric]) (simp add: reported_def)
  also have "\<dots> = (case map_of ?pm p of Some x \<Rightarrow> completed h (ps_record_log x) | None \<Rightarrow> 0)"
    using gathered_reported[OF assms(3,4) less] short by simp
  finally show "sum_list (map (reported t p h) (sa_record_buffer t)) =
      (case map_of ?pm p of Some x \<Rightarrow> completed h (ps_record_log x) | None \<Rightarrow> 0)" .
  show "\<forall>r \<in> set (sa_record_buffer t). is_short r \<longrightarrow> unat (rec_signal r) < 2 ^ 31"
  proof (intro ballI impI)
    fix r assume r: "r \<in> set (sa_record_buffer t)" "is_short r"
    then have "r \<in> set (filter is_short (filter (\<lambda>r. \<not> is_epoch r) (sa_record_buffer t)))" by simp
    then have "unat (rec_signal r) \<in># mset (short_signals (gathered 0 ?pm))" unfolding rest by (simp add: short_signals_def)
    also have "mset (short_signals (gathered 0 ?pm)) = mset [0..<length (all_regions ?pm)]"
      using gathered_resolves[OF ok less] by simp
    finally have "unat (rec_signal r) < length (all_regions ?pm)" by simp
    then show "unat (rec_signal r) < 2 ^ 31" using room by simp
  qed
qed

text \<open>The log of a process with the history of its operations.\<close>

definition has_history :: "log_op list \<Rightarrow> int \<times> process_s \<Rightarrow> bool" where
  "has_history ops x \<longleftrightarrow> filter_ok (snd x) \<and> int (length ops) \<le> INT_MAX \<and>
     (\<exists>shmem_size l. make_record_log shmem_size (fst x) = Inr l \<and> for_each log_step ops l = (Inr (), ps_record_log (snd x)))"

lemma history_owner: "has_history ops x \<Longrightarrow> owner_ok x"
  using log_run_from_new owned_run by (fastforce simp: has_history_def owner_ok_def process_ok_def log_inv_def owned_def)

lemma history_completed: "has_history ops x \<Longrightarrow> completed h (ps_record_log (snd x)) = exits h (since_dump ops)"
  using log_run_from_new by (fastforce simp: has_history_def)

text \<open>
  C25: The calls that the application completes are the calls that are counted. Take the log of every
  process as any history of its operations (enter, exit, epoch, affinity, start, stop, overhead, and the
  dumps of earlier updates) left it. When one update of the sampler and the update of the aggregator after it
  return, the aggregator's count of each region in each process has grown by exactly the number of calls
  of \<^verbatim>\<open>exit()\<close> for that region that the process made since its last dump, in whatever way the log, the
  filters and the renumbering of short regions carried them; the counts of other processes are as they were.
\<close>

theorem exits_counted:
  assumes "sampler_update field_to_signal read_file now s = (Inr (), t)" "sa_status s \<noteq> None"
    and "aggregator_update t a = (Inr (), b)" "ag_ok a"
    and "\<forall>x \<in> set (sa_process_map s). has_history (hist (fst x)) x"
    and "distinct (map fst (sa_process_map s))" "length (sa_process_map s) \<le> 2 ^ 20"
  shows "count_of b pid h = count_of a pid h +
      (if pid \<in> set (map fst (sa_process_map s)) then exits h (since_dump (hist pid)) else 0) \<and> ag_ok b"
proof -
  have own: "\<forall>x \<in> set (sa_process_map s). owner_ok x" using assms(5) history_owner by blast
  obtain zero where run: "for_each (aggregate_record t zero) (sa_record_buffer t) a = (Inr (), b)"
    using assms(3) by (auto simp: aggregator_update_def act_simps split: sum.splits)
  note sum = update_reported[OF assms(1,2) own assms(6,7), of pid h]
  have grown: "ag_ok b \<and> count_of b pid h = count_of a pid h + sum_list (map (reported t pid h) (sa_record_buffer t))"
    using aggregate_all_counts[OF run assms(4)] sum by blast
  show ?thesis
  proof (cases "map_of (sa_process_map s) pid")
    case None
    moreover have "pid \<notin> set (map fst (sa_process_map s))" using None by (simp add: map_of_eq_None_iff)
    ultimately show ?thesis using grown sum by simp
  next
    case (Some p)
    then have p: "(pid, p) \<in> set (sa_process_map s)" by (rule map_of_SomeD)
    then have "completed h (ps_record_log p) = exits h (since_dump (hist pid))"
      using assms(5) history_completed[of "hist pid" "(pid, p)" h] by fastforce
    then show ?thesis using grown sum Some p by (auto simp: image_iff Bex_def)
  qed
qed

lemma demo_history:
  "\<exists>l. has_history [Op_enter 7 \<lparr>tv_sec = 1, tv_nsec = 0\<rparr>, Op_exit 7 \<lparr>tv_sec = 2, tv_nsec = 0\<rparr>, Op_enter 7 \<lparr>tv_sec = 3, tv_nsec = 0\<rparr>,
       Op_dump, Op_exit 7 \<lparr>tv_sec = 4, tv_nsec = 0\<rparr>] (pid, demo_process l) \<and> log_inv l \<and>
     records (rl_layout l) = [\<lparr>rec_time = \<lparr>tv_sec = 4, tv_nsec = 0\<rparr>, rec_process = pid, rec_event = EVENT_SHORT_REGION, rec_signal = 0\<rparr>] \<and>
     regions (rl_layout l) = [\<lparr>sr_hash = 7, sr_num_complete = 1, sr_total_time = dadd (Fin 0) (geopm_time_diff \<lparr>tv_sec = 3, tv_nsec = 0\<rparr> \<lparr>tv_sec = 4, tv_nsec = 0\<rparr>)\<rparr>]"
proof -
  obtain s where s: "make_record_log 57384 pid = Inr s" by (simp add: make_record_log_def)
  obtain l u where l: "for_each log_step [Op_enter 7 \<lparr>tv_sec = 1, tv_nsec = 0\<rparr>, Op_exit 7 \<lparr>tv_sec = 2, tv_nsec = 0\<rparr>, Op_enter 7 \<lparr>tv_sec = 3, tv_nsec = 0\<rparr>,
       Op_dump, Op_exit 7 \<lparr>tv_sec = 4, tv_nsec = 0\<rparr>] s = (Inr (), l)"
      "log_dump l = (Inr ([\<lparr>rec_time = \<lparr>tv_sec = 4, tv_nsec = 0\<rparr>, rec_process = pid, rec_event = EVENT_SHORT_REGION, rec_signal = 0\<rparr>],
        [\<lparr>sr_hash = 7, sr_num_complete = 1, sr_total_time = dadd (Fin 0) (geopm_time_diff \<lparr>tv_sec = 3, tv_nsec = 0\<rparr> \<lparr>tv_sec = 4, tv_nsec = 0\<rparr>)\<rparr>]), u)"
    using entered_region[OF s] by blast
  have "log_inv l" using log_run_from_new[OF s _ l(1)] by (simp add: INT_MAX_def)
  moreover have "has_history [Op_enter 7 \<lparr>tv_sec = 1, tv_nsec = 0\<rparr>, Op_exit 7 \<lparr>tv_sec = 2, tv_nsec = 0\<rparr>, Op_enter 7 \<lparr>tv_sec = 3, tv_nsec = 0\<rparr>,
       Op_dump, Op_exit 7 \<lparr>tv_sec = 4, tv_nsec = 0\<rparr>] (pid, demo_process l)"
    unfolding has_history_def using s l(1) by (auto simp: filter_ok_def demo_process_def INT_MAX_def simp del: for_each.simps)
  ultimately show ?thesis using l(2) by (intro exI[of _ l]) (simp add: log_dump_apply)
qed

theorem exits_counted_witness:
  "\<exists>s t b. sampler_update (\<lambda>_. NaN) (\<lambda>_. Inl invalid) \<lparr>tv_sec = 5, tv_nsec = 0\<rparr> s = (Inr (), t) \<and>
     map fst (sa_process_map s) = [1, 2] \<and> aggregator_update t (aggregator_new t) = (Inr (), b) \<and> count_of b 2 7 = 1 \<and> count_of b 3 7 = 0"
proof -
  let ?x = "\<lparr>sr_hash = 7, sr_num_complete = 1, sr_total_time = dadd (Fin 0) (geopm_time_diff \<lparr>tv_sec = 3, tv_nsec = 0\<rparr> \<lparr>tv_sec = 4, tv_nsec = 0\<rparr>)\<rparr>"
  let ?r = "\<lambda>pid. \<lparr>rec_time = \<lparr>tv_sec = 4, tv_nsec = 0\<rparr>, rec_process = pid, rec_event = EVENT_SHORT_REGION, rec_signal = 0\<rparr>"
  let ?ops = "[Op_enter 7 \<lparr>tv_sec = 1, tv_nsec = 0\<rparr>, Op_exit 7 \<lparr>tv_sec = 2, tv_nsec = 0\<rparr>, Op_enter 7 \<lparr>tv_sec = 3, tv_nsec = 0\<rparr>,
       Op_dump, Op_exit 7 \<lparr>tv_sec = 4, tv_nsec = 0\<rparr>]"
  obtain l where l: "has_history ?ops (1, demo_process l)" "log_inv l" "records (rl_layout l) = [?r 1]" "regions (rl_layout l) = [?x]" using demo_history[of 1] by blast
  obtain k where k: "has_history ?ops (2, demo_process k)" "log_inv k" "records (rl_layout k) = [?r 2]" "regions (rl_layout k) = [?x]" using demo_history[of 2] by blast
  obtain s where s: "sampler_new (Some one_status) one_cpu [(1, demo_process l), (2, demo_process k)] False [] [] [] \<lparr>tv_sec = 0, tv_nsec = 0\<rparr> False = Inr s"
    by (simp add: sampler_new_def one_cpu_def)
  obtain t where t: "sampler_update (\<lambda>_. NaN) (\<lambda>_. Inl invalid) \<lparr>tv_sec = 5, tv_nsec = 0\<rparr> s = (Inr (), t)"
      "sa_record_buffer t = [?r 1, (?r 2)\<lparr>rec_signal := 1\<rparr>]" "sa_short_region_buffer t = [?x, ?x]" "\<not> sa_time_error t"
    using demo_sampler_update[OF l(2-4) _ _ k(2-4) _ _ s] by (simp add: ex_simps) blast
  have pm: "sa_process_map s = [(1, demo_process l), (2, demo_process k)]" "sa_status s \<noteq> None"
    using s by (auto simp: sampler_new_def one_cpu_def)
  obtain b where b: "aggregator_update t (aggregator_new t) = (Inr (), b)"
    using t(2-4) by (simp add: aggregator_update_def time_zero_def aggregate_record_def aggregate_short_def get_short_region_def
        int_of_signal_def emplace_region_def set_region_def aggregator_new_def zero_info_def INT_MAX_def INT_MIN_def int_result_def bind_def act_simps Let_def)
  have "\<forall>x \<in> set (sa_process_map s). has_history ?ops x" using l(1) k(1) pm by simp
  note counted = exits_counted[OF t(1) pm(2) b, of "\<lambda>_. ?ops", OF _ this]
  have "count_of b p 7 = (if p \<in> {1, 2} then 1 else 0)" for p
    using counted[of p 7] aggregator_new_ok[of t p 7] by (simp add: pm since_dump_def)
  then show ?thesis using t(1) pm b by (intro exI[of _ s] exI[of _ t] exI[of _ b]) simp
qed

end
