(* ===== verification/Sample_Aggregator.thy ===== *)
theory Sample_Aggregator
  imports Platform_IO
begin

text \<open>
  \<^verbatim>\<open>SampleAggregator\<close> (libgeopm/src/SampleAggregator.cpp, Accumulator.cpp) follows signals of
  \<^verbatim>\<open>PlatformIO\<close> over time and adds them up for the whole application, for each region, since the first
  epoch and by periods: the increase of a monotone signal, the time weighted average of another.

  The C++ templates over the two accumulator classes are functions of the record \<open>accum_ops\<close> of their
  methods; what an accumulator promises (the values of the updates so far and of the last interval)
  is the locale \<open>accumulator\<close>, interpreted for both. A \<^verbatim>\<open>shared_ptr\<close> to an accumulator has one
  owner, so it is the accumulator itself, and an iterator into the map of regions is its key.
\<close>

section \<open>Accumulators\<close>

record sum_accumulator =
  su_total :: double
  su_current :: double
  su_last :: double

record avg_accumulator =
  av_total :: double
  av_weight :: double
  av_curr_total :: double
  av_curr_weight :: double
  av_last :: double

definition sum_new :: sum_accumulator where
  "sum_new = \<lparr>su_total = Fin 0, su_current = Fin 0, su_last = Fin 0\<rparr>"

definition sum_update :: "double \<Rightarrow> sum_accumulator \<Rightarrow> sum_accumulator" where
  "sum_update delta_signal a =
     (if \<not> isnan delta_signal
      then a\<lparr>su_total := dadd (su_total a) delta_signal, su_current := dadd (su_current a) delta_signal\<rparr>
      else a)"

definition sum_enter :: "sum_accumulator \<Rightarrow> sum_accumulator" where
  "sum_enter a = a\<lparr>su_current := Fin 0\<rparr>"

definition sum_exit :: "sum_accumulator \<Rightarrow> sum_accumulator" where
  "sum_exit a = a\<lparr>su_last := su_current a\<rparr>"

definition avg_new :: avg_accumulator where
  "avg_new = \<lparr>av_total = Fin 0, av_weight = Fin 0, av_curr_total = Fin 0, av_curr_weight = Fin 0, av_last = Fin 0\<rparr>"

definition avg_update :: "double \<times> double \<Rightarrow> avg_accumulator \<Rightarrow> avg_accumulator" where
  "avg_update = (\<lambda>(delta_time, signal) a.
     if \<not> isnan signal \<and> \<not> isnan delta_time
     then a\<lparr>av_curr_total := dadd (av_curr_total a) (dmul delta_time signal), av_total := dadd (av_total a) (dmul delta_time signal),
            av_curr_weight := dadd (av_curr_weight a) delta_time, av_weight := dadd (av_weight a) delta_time\<rparr>
     else a)"

definition avg_enter :: "avg_accumulator \<Rightarrow> avg_accumulator" where
  "avg_enter a = a\<lparr>av_curr_total := Fin 0, av_curr_weight := Fin 0\<rparr>"

definition avg_exit :: "avg_accumulator \<Rightarrow> avg_accumulator" where
  "avg_exit a = a\<lparr>av_last := (if deq (av_curr_weight a) (Fin 0) then Fin 0 else ddiv (av_curr_total a) (av_curr_weight a))\<rparr>"

definition avg_average :: "avg_accumulator \<Rightarrow> double" where
  "avg_average a = (if deq (av_weight a) (Fin 0) then Fin 0 else ddiv (av_total a) (av_weight a))"

record ('d, 'acc) accum_ops =
  op_new :: 'acc
  op_update :: "'d \<Rightarrow> 'acc \<Rightarrow> 'acc"
  op_enter :: "'acc \<Rightarrow> 'acc"
  op_exit :: "'acc \<Rightarrow> 'acc"
  op_whole :: "'acc \<Rightarrow> double"
  op_interval :: "'acc \<Rightarrow> double"

definition sum_ops :: "(double, sum_accumulator) accum_ops" where
  "sum_ops = \<lparr>op_new = sum_new, op_update = sum_update, op_enter = sum_enter, op_exit = sum_exit, op_whole = su_total, op_interval = su_last\<rparr>"

definition avg_ops :: "(double \<times> double, avg_accumulator) accum_ops" where
  "avg_ops = \<lparr>op_new = avg_new, op_update = avg_update, op_enter = avg_enter, op_exit = avg_exit, op_whole = avg_average, op_interval = av_last\<rparr>"

section \<open>Signals\<close>

abbreviation (input) GEOPM_REGION_HASH_UNMARKED :: "64 word" where "GEOPM_REGION_HASH_UNMARKED \<equiv> 0x725e8066"
abbreviation (input) GEOPM_REGION_HASH_EPOCH :: "64 word" where "GEOPM_REGION_HASH_EPOCH \<equiv> 0x66c91423"
abbreviation (input) REGION_HASH_INVALID :: "64 word" where "REGION_HASH_INVALID \<equiv> 0"
abbreviation (input) REGION_HASH_APP :: "64 word" where "REGION_HASH_APP \<equiv> 0x9d540c53"

text \<open>
  \<^verbatim>\<open>m_sum_signal_s\<close> and \<^verbatim>\<open>m_avg_signal_s\<close> only differ in the type of the accumulators and in the name
  of the first member (the last sample of a monotone signal, the last time of another).
\<close>

record 'acc agg_signal =
  as_last :: double
  as_region_hash_idx :: int
  as_region_hash_last :: "64 word"
  as_epoch_count_idx :: int
  as_epoch_count_last :: int
  as_app_accum :: 'acc
  as_epoch_accum :: 'acc
  as_period_accum :: 'acc
  as_region_accum :: "64 word \<rightharpoonup> 'acc"
  as_region_accum_it :: "64 word"

definition new_signal :: "('d, 'acc) accum_ops \<Rightarrow> int \<Rightarrow> int \<Rightarrow> 'acc agg_signal" where
  "new_signal ops region_hash_idx epoch_count_idx =
     \<lparr>as_last = NaN, as_region_hash_idx = region_hash_idx, as_region_hash_last = REGION_HASH_INVALID,
      as_epoch_count_idx = epoch_count_idx, as_epoch_count_last = 0,
      as_app_accum = op_new ops, as_epoch_accum = op_new ops, as_period_accum = op_new ops,
      as_region_accum = Map.empty, as_region_accum_it = 0\<rparr>"

definition emplace_hash :: "('d, 'acc) accum_ops \<Rightarrow> 64 word \<Rightarrow> 'acc agg_signal \<Rightarrow> 'acc agg_signal" where
  "emplace_hash ops hash signal =
     signal\<lparr>as_region_accum := (case as_region_accum signal hash of
              Some _ \<Rightarrow> as_region_accum signal | None \<Rightarrow> (as_region_accum signal)(hash \<mapsto> op_new ops)),
            as_region_accum_it := hash\<rparr>"

text \<open>A call on the accumulator that the iterator points to; it is set once the signal has been initialised.\<close>

definition on_region :: "('acc \<Rightarrow> 'acc) \<Rightarrow> 'acc agg_signal \<Rightarrow> 'acc agg_signal" where
  "on_region f signal =
     signal\<lparr>as_region_accum := (as_region_accum signal)
              (as_region_accum_it signal := map_option f (as_region_accum signal (as_region_accum_it signal)))\<rparr>"

definition update_epoch :: "('d, 'acc) accum_ops \<Rightarrow> int \<Rightarrow> 'acc agg_signal \<Rightarrow> 'acc agg_signal" where
  "update_epoch ops epoch_count signal =
     (if epoch_count \<noteq> as_epoch_count_last signal
      then let exited = (if as_epoch_count_last signal \<noteq> 0 then op_exit ops (as_epoch_accum signal) else as_epoch_accum signal)
           in signal\<lparr>as_epoch_accum := op_enter ops exited, as_epoch_count_last := epoch_count\<rparr>
      else signal)"

definition update_hash_exit :: "('d, 'acc) accum_ops \<Rightarrow> 64 word \<Rightarrow> 'acc agg_signal \<Rightarrow> 'acc agg_signal" where
  "update_hash_exit ops hash signal =
     (if as_region_hash_last signal \<noteq> hash
      then if as_region_hash_last signal \<noteq> GEOPM_REGION_HASH_UNMARKED then on_region (op_exit ops) signal else signal
      else signal)"

definition update_hash_enter :: "('d, 'acc) accum_ops \<Rightarrow> 64 word \<Rightarrow> 'acc agg_signal \<Rightarrow> 'acc agg_signal" where
  "update_hash_enter ops hash signal =
     (if as_region_hash_last signal \<noteq> hash
      then if hash \<noteq> GEOPM_REGION_HASH_UNMARKED then on_region (op_enter ops) signal else signal
      else signal)"

definition update_period :: "('d, 'acc) accum_ops \<Rightarrow> int \<Rightarrow> 'acc agg_signal \<Rightarrow> 'acc agg_signal" where
  "update_period ops period signal =
     (let exited = (if period \<noteq> 0 then op_exit ops (as_period_accum signal) else as_period_accum signal)
      in signal\<lparr>as_period_accum := op_enter ops exited\<rparr>)"

text \<open>The first update of a signal, and the part that the later updates of both kinds of signals share.\<close>

definition first_update :: "('d, 'acc) accum_ops \<Rightarrow> double \<Rightarrow> 64 word \<Rightarrow> int \<Rightarrow> 'acc agg_signal \<Rightarrow> 'acc agg_signal" where
  "first_update ops last_value hash epoch_count signal =
     emplace_hash ops hash (signal\<lparr>as_last := last_value, as_region_hash_last := hash, as_epoch_count_last := epoch_count\<rparr>)"

definition add_delta :: "('d, 'acc) accum_ops \<Rightarrow> 'd \<Rightarrow> 'acc agg_signal \<Rightarrow> 'acc agg_signal" where
  "add_delta ops delta signal =
     on_region (op_update ops delta)
       (signal\<lparr>as_app_accum := op_update ops delta (as_app_accum signal),
               as_epoch_accum := (if as_epoch_count_last signal \<noteq> 0 then op_update ops delta (as_epoch_accum signal) else as_epoch_accum signal),
               as_period_accum := op_update ops delta (as_period_accum signal)\<rparr>)"

definition next_update :: "('d, 'acc) accum_ops \<Rightarrow> 'd \<Rightarrow> double \<Rightarrow> 64 word \<Rightarrow> int \<Rightarrow> int \<Rightarrow> int \<Rightarrow> 'acc agg_signal \<Rightarrow> 'acc agg_signal" where
  "next_update ops delta last_value hash epoch_count period period_last signal =
     (let s1 = update_hash_exit ops hash (update_epoch ops epoch_count (add_delta ops delta signal));
          s2 = (if as_region_hash_last s1 \<noteq> hash then emplace_hash ops hash s1 else s1);
          s3 = update_hash_enter ops hash s2;
          s4 = (if period \<noteq> period_last then update_period ops period s3 else s3)
      in s4\<lparr>as_region_hash_last := hash, as_last := last_value\<rparr>)"

section \<open>The object\<close>

record 'w sample_agg =
  sg_platform_io :: "'w pio"
  sg_time_idx :: int
  sg_is_updated :: bool
  sg_sum_signal :: "(int \<times> sum_accumulator agg_signal) list"
  sg_avg_signal :: "(int \<times> avg_accumulator agg_signal) list"
  sg_period_duration :: double
  sg_period_last :: int

definition on_pio :: "('w pio, 'a) action \<Rightarrow> ('w sample_agg, 'a) action" where
  "on_pio m s = (case m (sg_platform_io s) of (r, p) \<Rightarrow> (r, s\<lparr>sg_platform_io := p\<rparr>))"

definition make_sample_agg :: "'w pio \<Rightarrow> 'w sample_agg result \<times> 'w pio" where
  "make_sample_agg platio =
     (case push_signal ''TIME'' GEOPM_DOMAIN_BOARD 0 platio of (r, p) \<Rightarrow>
       (and_then r (\<lambda>time_idx. Inr \<lparr>sg_platform_io = p, sg_time_idx = time_idx, sg_is_updated = False,
          sg_sum_signal = [], sg_avg_signal = [], sg_period_duration = Fin 0, sg_period_last = 0\<rparr>), p))"

definition push_signal_total :: "string \<Rightarrow> int \<Rightarrow> int \<Rightarrow> ('w sample_agg, int) action" where
  "push_signal_total signal_name domain_type domain_index =
     bind (gets sg_is_updated) (\<lambda>is_updated.
     bind (guard (\<not> is_updated) invalid) (\<lambda>_.
     bind (on_pio (push_signal signal_name domain_type domain_index)) (\<lambda>result.
     bind (gets (\<lambda>s. map_of (sg_avg_signal s) result)) (\<lambda>bad_it.
     bind (guard (bad_it = None) invalid) (\<lambda>_.
     bind (gets (\<lambda>s. map_of (sg_sum_signal s) result)) (\<lambda>signal_it.
     bind (if signal_it = None then
             bind (on_pio (push_signal ''REGION_HASH'' domain_type domain_index)) (\<lambda>region_hash_idx.
             bind (on_pio (push_signal ''EPOCH_COUNT'' domain_type domain_index)) (\<lambda>epoch_count_idx.
             modify (\<lambda>s. s\<lparr>sg_sum_signal := upsert result (\<lambda>_. new_signal sum_ops region_hash_idx epoch_count_idx) (sg_sum_signal s)\<rparr>)))
           else ret ()) (\<lambda>_.
     ret result)))))))"

definition push_signal_average :: "string \<Rightarrow> int \<Rightarrow> int \<Rightarrow> ('w sample_agg, int) action" where
  "push_signal_average signal_name domain_type domain_index =
     bind (gets sg_is_updated) (\<lambda>is_updated.
     bind (guard (\<not> is_updated) invalid) (\<lambda>_.
     bind (on_pio (push_signal signal_name domain_type domain_index)) (\<lambda>result.
     bind (gets (\<lambda>s. map_of (sg_sum_signal s) result)) (\<lambda>bad_it.
     bind (guard (bad_it = None) invalid) (\<lambda>_.
     bind (gets (\<lambda>s. map_of (sg_avg_signal s) result)) (\<lambda>signal_it.
     bind (if signal_it = None then
             bind (on_pio (push_signal ''REGION_HASH'' domain_type domain_index)) (\<lambda>region_hash_idx.
             bind (on_pio (push_signal ''EPOCH_COUNT'' domain_type domain_index)) (\<lambda>epoch_count_idx.
             modify (\<lambda>s. s\<lparr>sg_avg_signal := upsert result (\<lambda>_. new_signal avg_ops region_hash_idx epoch_count_idx) (sg_avg_signal s)\<rparr>)))
           else ret ()) (\<lambda>_.
     ret result)))))))"

text \<open>The values of \<^verbatim>\<open>m_signal_behavior_e\<close>: constant 0, monotone 1, variable 2, label 3.\<close>

definition agg_push_signal :: "string \<Rightarrow> int \<Rightarrow> int \<Rightarrow> ('w sample_agg, int) action" where
  "agg_push_signal signal_name domain_type domain_index =
     bind (gets (\<lambda>s. signal_behavior (m_iogroup_list (sg_platform_io s)) signal_name)) (\<lambda>res.
     bind (lift res) (\<lambda>behavior.
     if behavior = 0 then throw invalid
     else if behavior = 3 then throw invalid
     else if behavior = 1 then push_signal_total signal_name domain_type domain_index
     else if behavior = 2 then push_signal_average signal_name domain_type domain_index
     else ret (- 1)))"

text \<open>The value of a conversion of NaN is not used, so that its being undefined has no effect.\<close>

definition sample_to_hash :: "double \<Rightarrow> 64 word result" where
  "sample_to_hash value = (if isnan value then Inr REGION_HASH_INVALID else u64_of_d value)"

definition set_period_duration :: "double \<Rightarrow> ('w sample_agg, unit) action" where
  "set_period_duration duration =
     bind (gets sg_is_updated) (\<lambda>is_updated.
     bind (guard (\<not> is_updated) invalid) (\<lambda>_.
     modify (\<lambda>s. s\<lparr>sg_period_duration := duration\<rparr>)))"

definition get_period :: "(double \<Rightarrow> double) \<Rightarrow> ('w sample_agg, int) action" where
  "get_period sq =
     bind (gets sg_period_duration) (\<lambda>period_duration.
     if \<not> deq period_duration (Fin 0) then
       bind (gets sg_time_idx) (\<lambda>time_idx.
       bind (on_pio (sample sq time_idx)) (\<lambda>time.
       lift (int_of_d (ddiv time period_duration))))
     else ret 0)"

definition update_total_signal :: "(double \<Rightarrow> double) \<Rightarrow> int \<Rightarrow> int \<Rightarrow> ('w sample_agg, unit) action" where
  "update_total_signal sq period signal_idx =
     bind (gets (\<lambda>s. the (map_of (sg_sum_signal s) signal_idx))) (\<lambda>signal.
     bind (on_pio (sample sq signal_idx)) (\<lambda>value.
     bind (on_pio (sample sq (as_region_hash_idx signal))) (\<lambda>hash_value.
     bind (lift (sample_to_hash hash_value)) (\<lambda>hash.
     bind (on_pio (sample sq (as_epoch_count_idx signal))) (\<lambda>epoch_value.
     bind (lift (int_of_d epoch_value)) (\<lambda>epoch_count.
     modify (\<lambda>s.
       let updated =
         if \<not> sg_is_updated s then first_update sum_ops value hash epoch_count signal
         else if isnan value then signal
         else let delta = (if \<not> isnan (as_last signal) then dsub value (as_last signal) else Fin 0)
              in next_update sum_ops delta value hash epoch_count period (sg_period_last s) signal
       in s\<lparr>sg_sum_signal := upsert signal_idx (\<lambda>_. updated) (sg_sum_signal s)\<rparr>)))))))"

definition update_total :: "(double \<Rightarrow> double) \<Rightarrow> ('w sample_agg, unit) action" where
  "update_total sq =
     bind (get_period sq) (\<lambda>period.
     bind (gets (\<lambda>s. map fst (sg_sum_signal s))) (\<lambda>idxs.
     for_each (update_total_signal sq period) idxs))"

definition update_average_signal :: "(double \<Rightarrow> double) \<Rightarrow> int \<Rightarrow> int \<Rightarrow> ('w sample_agg, unit) action" where
  "update_average_signal sq period signal_idx =
     bind (gets (\<lambda>s. the (map_of (sg_avg_signal s) signal_idx))) (\<lambda>signal.
     bind (gets sg_time_idx) (\<lambda>time_idx.
     bind (on_pio (sample sq time_idx)) (\<lambda>time.
     bind (on_pio (sample sq signal_idx)) (\<lambda>value.
     bind (on_pio (sample sq (as_region_hash_idx signal))) (\<lambda>hash_value.
     bind (lift (sample_to_hash hash_value)) (\<lambda>hash.
     bind (on_pio (sample sq (as_epoch_count_idx signal))) (\<lambda>epoch_value.
     bind (lift (int_of_d epoch_value)) (\<lambda>epoch_count.
     modify (\<lambda>s.
       let updated =
         if \<not> sg_is_updated s then first_update avg_ops (Fin 0) hash epoch_count signal
         else next_update avg_ops (dsub time (as_last signal), value) time hash epoch_count period (sg_period_last s) signal
       in s\<lparr>sg_avg_signal := upsert signal_idx (\<lambda>_. updated) (sg_avg_signal s)\<rparr>)))))))))"

definition update_average :: "(double \<Rightarrow> double) \<Rightarrow> ('w sample_agg, unit) action" where
  "update_average sq =
     bind (get_period sq) (\<lambda>period.
     bind (gets (\<lambda>s. map fst (sg_avg_signal s))) (\<lambda>idxs.
     for_each (update_average_signal sq period) idxs))"

definition agg_update :: "(double \<Rightarrow> double) \<Rightarrow> ('w sample_agg, unit) action" where
  "agg_update sq =
     bind (update_total sq) (\<lambda>_.
     bind (update_average sq) (\<lambda>_.
     bind (get_period sq) (\<lambda>period.
     modify (\<lambda>s. s\<lparr>sg_period_last := period, sg_is_updated := True\<rparr>))))"

section \<open>Queries\<close>

text \<open>The lookup that the queries share: a value of a monotone signal, of another, or a throw.\<close>

definition lookup_signal :: "'w sample_agg \<Rightarrow> (sum_accumulator agg_signal \<Rightarrow> double) \<Rightarrow> (avg_accumulator agg_signal \<Rightarrow> double) \<Rightarrow> int \<Rightarrow> double result" where
  "lookup_signal s f g signal_idx =
     (case map_of (sg_sum_signal s) signal_idx of
        Some signal \<Rightarrow> Inr (f signal)
      | None \<Rightarrow> (case map_of (sg_avg_signal s) signal_idx of Some signal \<Rightarrow> Inr (g signal) | None \<Rightarrow> Inl invalid))"

definition sample_application :: "'w sample_agg \<Rightarrow> int \<Rightarrow> double result" where
  "sample_application s signal_idx =
     (if \<not> sg_is_updated s then Inr NaN
      else lookup_signal s (\<lambda>signal. su_total (as_app_accum signal)) (\<lambda>signal. avg_average (as_app_accum signal)) signal_idx)"

definition sample_epoch_helper :: "'w sample_agg \<Rightarrow> int \<Rightarrow> bool \<Rightarrow> double result" where
  "sample_epoch_helper s signal_idx is_last =
     lookup_signal s (\<lambda>signal. if is_last then su_last (as_epoch_accum signal) else su_total (as_epoch_accum signal))
       (\<lambda>signal. if is_last then av_last (as_epoch_accum signal) else avg_average (as_epoch_accum signal)) signal_idx"

definition sample_region_helper :: "'w sample_agg \<Rightarrow> int \<Rightarrow> 64 word \<Rightarrow> bool \<Rightarrow> double result" where
  "sample_region_helper s signal_idx region_hash is_last =
     lookup_signal s
       (\<lambda>signal. case as_region_accum signal region_hash of None \<Rightarrow> Fin 0 | Some accum \<Rightarrow> if is_last then su_last accum else su_total accum)
       (\<lambda>signal. case as_region_accum signal region_hash of None \<Rightarrow> NaN | Some accum \<Rightarrow> if is_last then av_last accum else avg_average accum)
       signal_idx"

definition sample_epoch :: "'w sample_agg \<Rightarrow> int \<Rightarrow> double result" where
  "sample_epoch s signal_idx = (if \<not> sg_is_updated s then Inr NaN else sample_epoch_helper s signal_idx False)"

definition sample_epoch_last :: "'w sample_agg \<Rightarrow> int \<Rightarrow> double result" where
  "sample_epoch_last s signal_idx = (if \<not> sg_is_updated s then Inr NaN else sample_epoch_helper s signal_idx True)"

definition sample_region :: "'w sample_agg \<Rightarrow> int \<Rightarrow> 64 word \<Rightarrow> double result" where
  "sample_region s signal_idx region_hash =
     (if \<not> sg_is_updated s then Inr NaN
      else if region_hash = GEOPM_REGION_HASH_EPOCH then sample_epoch s signal_idx
      else if region_hash = REGION_HASH_APP then sample_application s signal_idx
      else sample_region_helper s signal_idx region_hash False)"

definition sample_region_last :: "'w sample_agg \<Rightarrow> int \<Rightarrow> 64 word \<Rightarrow> double result" where
  "sample_region_last s signal_idx region_hash =
     (if \<not> sg_is_updated s then Inr NaN
      else if region_hash = GEOPM_REGION_HASH_EPOCH then sample_epoch_last s signal_idx
      else sample_region_helper s signal_idx region_hash True)"

definition sample_period_last :: "'w sample_agg \<Rightarrow> int \<Rightarrow> double result" where
  "sample_period_last s signal_idx =
     (if \<not> sg_is_updated s \<or> deq (sg_period_duration s) (Fin 0) then Inr NaN
      else lookup_signal s (\<lambda>signal. su_last (as_period_accum signal)) (\<lambda>signal. av_last (as_period_accum signal)) signal_idx)"

section \<open>What an accumulator promises\<close>

text \<open>
  \<open>holds xs ys zs a\<close>: the accumulator has seen the updates \<open>xs\<close>, of which \<open>ys\<close> since the last
  \<^verbatim>\<open>enter()\<close>, and \<open>zs\<close> are those of the interval that the last \<^verbatim>\<open>exit()\<close> closed.
\<close>

locale accumulator =
  fixes ops :: "('d, 'acc) accum_ops"
    and holds :: "'d list \<Rightarrow> 'd list \<Rightarrow> 'd list \<Rightarrow> 'acc \<Rightarrow> bool"
    and value_of :: "'d list \<Rightarrow> double"
  assumes fresh: "holds [] [] [] (op_new ops)"
    and upd: "holds xs ys zs a \<Longrightarrow> holds (xs @ [d]) (ys @ [d]) zs (op_update ops d a)"
    and enter: "holds xs ys zs a \<Longrightarrow> holds xs [] zs (op_enter ops a)"
    and exit: "holds xs ys zs a \<Longrightarrow> holds xs ys ys (op_exit ops a)"
    and whole: "holds xs ys zs a \<Longrightarrow> op_whole ops a = value_of xs"
    and interval: "holds xs ys zs a \<Longrightarrow> op_interval ops a = value_of zs"

text \<open>One update of a signal: the delta, and the hash and the epoch count that it ends with.\<close>

type_synonym 'd step = "'d \<times> 64 word \<times> int"

text \<open>The updates of one region: all, those of the current visit, and those of the last visit that was left.\<close>

fun visits :: "64 word \<Rightarrow> 64 word \<Rightarrow> 'd step list \<Rightarrow> 'd list \<times> 'd list \<times> 'd list \<Rightarrow> 'd list \<times> 'd list \<times> 'd list" where
  "visits h now [] view = view"
| "visits h now ((d, hash, epoch) # us) (xs, ys, zs) =
     (if now = h
      then if hash \<noteq> h \<and> h \<noteq> GEOPM_REGION_HASH_UNMARKED then visits h hash us (xs @ [d], ys @ [d], ys @ [d])
           else visits h hash us (xs @ [d], ys @ [d], zs)
      else if hash = h \<and> h \<noteq> GEOPM_REGION_HASH_UNMARKED then visits h hash us (xs, [], zs)
      else visits h hash us (xs, ys, zs))"

text \<open>The same for the epochs.\<close>

fun epochs :: "int \<Rightarrow> 'd step list \<Rightarrow> 'd list \<times> 'd list \<times> 'd list \<Rightarrow> 'd list \<times> 'd list \<times> 'd list" where
  "epochs now [] view = view"
| "epochs now ((d, hash, epoch) # us) (xs, ys, zs) =
     (if now \<noteq> 0
      then if epoch \<noteq> now then epochs epoch us (xs @ [d], [], ys @ [d]) else epochs epoch us (xs @ [d], ys @ [d], zs)
      else if epoch \<noteq> now then epochs epoch us (xs, [], zs)
      else epochs epoch us (xs, ys, zs))"

definition run_signal :: "('d, 'acc) accum_ops \<Rightarrow> ('d \<times> double \<times> 64 word \<times> int \<times> int \<times> int) list \<Rightarrow> 'acc agg_signal \<Rightarrow> 'acc agg_signal" where
  "run_signal ops us signal = fold (\<lambda>(d, v, h, e, p, q). next_update ops d v h e p q) us signal"

definition step_of :: "'d \<times> double \<times> 64 word \<times> int \<times> int \<times> int \<Rightarrow> 'd step" where
  "step_of = (\<lambda>(d, v, h, e, p, q). (d, h, e))"

context accumulator begin

definition region_holds :: "64 word \<Rightarrow> 'd list \<times> 'd list \<times> 'd list \<Rightarrow> 'acc agg_signal \<Rightarrow> bool" where
  "region_holds h view signal \<longleftrightarrow>
     (case as_region_accum signal h of
        None \<Rightarrow> view = ([], [], []) \<and> as_region_hash_last signal \<noteq> h
      | Some a \<Rightarrow> holds (fst view) (fst (snd view)) (snd (snd view)) a)"

definition signal_ok :: "'acc agg_signal \<Rightarrow> bool" where
  "signal_ok signal \<longleftrightarrow> as_region_accum_it signal = as_region_hash_last signal \<and> as_region_accum signal (as_region_hash_last signal) \<noteq> None"

definition epoch_holds :: "'d list \<times> 'd list \<times> 'd list \<Rightarrow> 'acc agg_signal \<Rightarrow> bool" where
  "epoch_holds view signal \<longleftrightarrow> holds (fst view) (fst (snd view)) (snd (snd view)) (as_epoch_accum signal)"

lemma add_delta_fields [simp]:
  "as_region_hash_last (add_delta ops d signal) = as_region_hash_last signal"
  "as_region_accum_it (add_delta ops d signal) = as_region_accum_it signal"
  "as_epoch_count_last (add_delta ops d signal) = as_epoch_count_last signal"
  by (simp_all add: add_delta_def on_region_def)

lemma update_epoch_fields [simp]:
  "as_region_hash_last (update_epoch ops epoch signal) = as_region_hash_last signal"
  "as_region_accum_it (update_epoch ops epoch signal) = as_region_accum_it signal"
  "as_region_accum (update_epoch ops epoch signal) = as_region_accum signal"
  by (simp_all add: update_epoch_def)

lemma update_period_fields [simp]:
  "as_region_accum_it (update_period ops p signal) = as_region_accum_it signal"
  "as_region_accum (update_period ops p signal) = as_region_accum signal"
  "as_epoch_accum (update_period ops p signal) = as_epoch_accum signal"
  "as_epoch_count_last (update_period ops p signal) = as_epoch_count_last signal"
  by (simp_all add: update_period_def)

text \<open>The accumulator of the current region after the delta, and of the next region on entry.\<close>

definition left_accum :: "'d \<Rightarrow> bool \<Rightarrow> 64 word \<Rightarrow> 'acc \<Rightarrow> 'acc" where
  "left_accum d leaves c a = (if leaves \<and> c \<noteq> GEOPM_REGION_HASH_UNMARKED then op_exit ops (op_update ops d a) else op_update ops d a)"

definition entered_accum :: "64 word \<Rightarrow> 'acc option \<Rightarrow> 'acc" where
  "entered_accum hash x =
     (let a = (case x of Some a \<Rightarrow> a | None \<Rightarrow> op_new ops) in if hash \<noteq> GEOPM_REGION_HASH_UNMARKED then op_enter ops a else a)"

lemma next_fields:
  fixes d :: 'd and v :: double and hash :: "64 word" and epoch p q :: int and signal :: "'acc agg_signal"
  assumes "as_region_accum_it signal = as_region_hash_last signal" "as_region_accum signal (as_region_hash_last signal) = Some b"
  defines "c \<equiv> as_region_hash_last signal" and "t \<equiv> next_update ops d v hash epoch p q signal"
  shows "as_region_hash_last t = hash" "as_region_accum_it t = hash"
    "as_region_accum t = (if hash = c then (as_region_accum signal)(c \<mapsto> left_accum d False c b)
       else (as_region_accum signal)(c \<mapsto> left_accum d True c b, hash \<mapsto> entered_accum hash (as_region_accum signal hash)))"
proof -
  define s0 where "s0 = update_epoch ops epoch (add_delta ops d signal)"
  have s0: "as_region_accum s0 = (as_region_accum signal)(c \<mapsto> op_update ops d b)" "as_region_hash_last s0 = c" "as_region_accum_it s0 = c"
    using assms by (simp_all add: s0_def add_delta_def on_region_def)
  define s1 where "s1 = update_hash_exit ops hash s0"
  have s1: "as_region_accum s1 = (as_region_accum signal)(c \<mapsto> left_accum d (c \<noteq> hash) c b)" "as_region_hash_last s1 = c" "as_region_accum_it s1 = c"
    using s0 by (simp_all add: s1_def update_hash_exit_def on_region_def left_accum_def)
  define s2 where "s2 = (if as_region_hash_last s1 \<noteq> hash then emplace_hash ops hash s1 else s1)"
  have s2: "as_region_hash_last s2 = c" "as_region_accum_it s2 = hash" "hash = c \<Longrightarrow> s2 = s1"
    "hash \<noteq> c \<Longrightarrow> as_region_accum s2 = (as_region_accum s1)(hash \<mapsto> (case as_region_accum signal hash of Some a \<Rightarrow> a | None \<Rightarrow> op_new ops))"
    using s1 by (auto simp: s2_def emplace_hash_def split: option.splits)
  define s3 where "s3 = update_hash_enter ops hash s2"
  have s3: "as_region_accum_it s3 = hash"
    "hash \<noteq> c \<Longrightarrow> as_region_accum s3 = (as_region_accum s1)(hash \<mapsto> entered_accum hash (as_region_accum signal hash))"
    "hash = c \<Longrightarrow> s3 = s1"
    using s1(3) s2 by (auto simp: s3_def update_hash_enter_def on_region_def entered_accum_def)
  have t: "t = (if p \<noteq> q then update_period ops p s3 else s3)\<lparr>as_region_hash_last := hash, as_last := v\<rparr>"
    by (simp add: t_def next_update_def Let_def s0_def s1_def s2_def s3_def)
  show "as_region_hash_last t = hash" "as_region_accum_it t = hash" using s3(1) by (simp_all add: t)
  show "as_region_accum t = (if hash = c then (as_region_accum signal)(c \<mapsto> left_accum d False c b)
       else (as_region_accum signal)(c \<mapsto> left_accum d True c b, hash \<mapsto> entered_accum hash (as_region_accum signal hash)))"
  proof (cases "hash = c")
    case True
    then show ?thesis using s3(3) s1(1) by (simp add: t)
  next
    case False
    then show ?thesis using s3(2) s1(1) by (simp add: t)
  qed
qed

lemma next_ok: "signal_ok signal \<Longrightarrow> signal_ok (next_update ops d v hash epoch p q signal)"
  using next_fields[of signal _ d v hash epoch p q] by (auto simp: signal_ok_def)

lemma left_holds: "holds xs ys zs a \<Longrightarrow>
   holds (xs @ [d]) (ys @ [d]) (if leaves \<and> c \<noteq> GEOPM_REGION_HASH_UNMARKED then ys @ [d] else zs) (left_accum d leaves c a)"
  using upd[of xs ys zs a d] exit[of "xs @ [d]" "ys @ [d]" zs] by (simp add: left_accum_def)

lemma entered_holds: "(case x of Some a \<Rightarrow> holds xs ys zs a | None \<Rightarrow> xs = [] \<and> ys = [] \<and> zs = []) \<Longrightarrow>
   holds xs (if hash \<noteq> GEOPM_REGION_HASH_UNMARKED then [] else ys) zs (entered_accum hash x)"
  using enter[of xs ys zs] enter[OF fresh] fresh by (auto simp: entered_accum_def split: option.splits)

lemma next_region:
  assumes ok: "signal_ok signal" and view: "region_holds h (xs, ys, zs) signal"
  shows "region_holds h (visits h (as_region_hash_last signal) [(d, hash, epoch)] (xs, ys, zs)) (next_update ops d v hash epoch p q signal)"
proof -
  let ?c = "as_region_hash_last signal"
  obtain b where b: "as_region_accum_it signal = ?c" "as_region_accum signal ?c = Some b" using ok by (auto simp: signal_ok_def)
  note f = next_fields[OF b, of d v hash epoch p q]
  consider "h = ?c" | "h \<noteq> ?c" "h = hash" | "h \<noteq> ?c" "h \<noteq> hash" by blast
  then show ?thesis
  proof cases
    case 1
    then have "holds xs ys zs b" using view b(2) by (simp add: region_holds_def)
    from left_holds[OF this, of d "hash \<noteq> ?c" ?c] show ?thesis
      using 1 f by (auto simp: region_holds_def split: if_splits)
  next
    case 2
    then have "case as_region_accum signal h of Some a \<Rightarrow> holds xs ys zs a | None \<Rightarrow> xs = [] \<and> ys = [] \<and> zs = []"
      using view by (auto simp: region_holds_def split: option.splits)
    from entered_holds[OF this, of h] show ?thesis
      using 2 f by (auto simp: region_holds_def split: if_splits)
  next
    case 3
    then show ?thesis using view f by (auto simp: region_holds_def split: option.splits)
  qed
qed

lemma next_epoch_fields:
  "as_epoch_count_last (next_update ops d v hash epoch p q signal) = epoch"
  "as_epoch_accum (next_update ops d v hash epoch p q signal) = as_epoch_accum (update_epoch ops epoch (add_delta ops d signal))"
  by (simp_all add: next_update_def update_hash_exit_def on_region_def emplace_hash_def update_hash_enter_def update_epoch_def Let_def)

lemma next_epoch:
  assumes "epoch_holds (xs, ys, zs) signal"
  shows "epoch_holds (epochs (as_epoch_count_last signal) [(d, hash, epoch)] (xs, ys, zs)) (next_update ops d v hash epoch p q signal)"
proof -
  have "holds xs ys zs (as_epoch_accum signal)" using assms by (simp add: epoch_holds_def)
  from this upd[OF this, of d] exit[OF upd[OF this, of d]] enter[OF this] enter[OF exit[OF upd[OF this, of d]]]
  show ?thesis by (simp add: epoch_holds_def next_epoch_fields) (simp add: add_delta_def on_region_def update_epoch_def Let_def)
qed

end

section \<open>A signal over many updates\<close>

definition hash_after :: "64 word \<Rightarrow> 'd step list \<Rightarrow> 64 word" where
  "hash_after h us = fold (\<lambda>(d, hash, epoch) _. hash) us h"

definition epoch_after :: "int \<Rightarrow> 'd step list \<Rightarrow> int" where
  "epoch_after e us = fold (\<lambda>(d, hash, epoch) _. epoch) us e"

lemma after_simps [simp]:
  "hash_after h [] = h" "hash_after h ((d, hash, epoch) # us) = hash_after hash us" "hash_after h (us @ vs) = hash_after (hash_after h us) vs"
  "epoch_after e [] = e" "epoch_after e ((d, hash, epoch) # us) = epoch_after epoch us" "epoch_after e (us @ vs) = epoch_after (epoch_after e us) vs"
  by (simp_all add: hash_after_def epoch_after_def)

lemma visits_append: "visits h now (us @ vs) view = visits h (hash_after now us) vs (visits h now us view)"
  by (induction h now us view rule: visits.induct) auto

lemma epochs_append: "epochs now (us @ vs) view = epochs (epoch_after now us) vs (epochs now us view)"
  by (induction now us view rule: epochs.induct) auto

text \<open>The updates that began in a region, and those that began after the first epoch.\<close>

fun spent :: "64 word \<Rightarrow> 64 word \<Rightarrow> 'd step list \<Rightarrow> 'd list" where
  "spent h now [] = []"
| "spent h now ((d, hash, epoch) # us) = (if now = h then d # spent h hash us else spent h hash us)"

fun since_epoch :: "int \<Rightarrow> 'd step list \<Rightarrow> 'd list" where
  "since_epoch now [] = []"
| "since_epoch now ((d, hash, epoch) # us) = (if now \<noteq> 0 then d # since_epoch epoch us else since_epoch epoch us)"

lemma fst_visits: "fst (visits h now us (xs, ys, zs)) = xs @ spent h now us"
  by (induction us arbitrary: now xs ys zs rule: list.induct) (auto split: prod.splits)

lemma fst_epochs: "fst (epochs now us (xs, ys, zs)) = xs @ since_epoch now us"
  by (induction us arbitrary: now xs ys zs rule: list.induct) (auto split: prod.splits)

text \<open>A visit of a region: entered (or there from the start), stayed, left; then away, and maybe back again.\<close>

definition last_visit :: "64 word \<Rightarrow> 64 word \<Rightarrow> 'd step list \<Rightarrow> 'd list \<Rightarrow> bool" where
  "last_visit h now us ds \<longleftrightarrow> (\<exists>pre stay d hash epoch away again. us = pre @ stay @ (d, hash, epoch) # away @ again \<and>
     (pre = [] \<and> now = h \<or> (\<exists>pre' d' epoch'. pre = pre' @ [(d', h, epoch')] \<and> hash_after now pre' \<noteq> h)) \<and>
     (\<forall>(d, k, e) \<in> set stay. k = h) \<and> hash \<noteq> h \<and> (\<forall>(d, k, e) \<in> set away. k \<noteq> h) \<and> (\<forall>(d, k, e) \<in> set again. k = h) \<and>
     ds = map fst stay @ [d])"

text \<open>The interval between the last two changes of the epoch count.\<close>

definition last_epoch :: "int \<Rightarrow> 'd step list \<Rightarrow> 'd list \<Rightarrow> bool" where
  "last_epoch now us ds \<longleftrightarrow> (\<exists>pre stay d hash epoch rest. us = pre @ stay @ (d, hash, epoch) # rest \<and>
     (pre = [] \<or> (\<exists>pre' d' hash' epoch'. pre = pre' @ [(d', hash', epoch')] \<and> epoch_after now pre' \<noteq> epoch')) \<and>
     epoch_after now pre \<noteq> 0 \<and> (\<forall>(d, k, e) \<in> set stay. e = epoch_after now pre) \<and> epoch \<noteq> epoch_after now pre \<and>
     (\<forall>(d, k, e) \<in> set rest. e = epoch) \<and> ds = map fst stay @ [d])"

lemma visits_stay:
  "(\<forall>(d, k, e) \<in> set us. k = h) \<Longrightarrow> visits h h us (xs, ys, zs) = (xs @ map fst us, ys @ map fst us, zs) \<and> hash_after h us = h"
  by (induction us arbitrary: xs ys) auto

lemma visits_away:
  "(\<forall>(d, k, e) \<in> set us. k \<noteq> h) \<Longrightarrow> now \<noteq> h \<Longrightarrow> visits h now us view = view \<and> hash_after now us \<noteq> h"
  by (induction us arbitrary: now) (auto, (cases view, auto)+)

lemma visits_back:
  assumes "\<forall>(d, k, e) \<in> set us. k = h" "now \<noteq> h"
  shows "snd (snd (visits h now us (xs, ys, zs))) = zs"
proof (cases us)
  case (Cons u us')
  then obtain d e where u: "u = (d, h, e)" using assms(1) by auto
  have "\<forall>(d, k, e) \<in> set us'. k = h" using assms(1) Cons by simp
  from visits_stay[OF this, of xs ys zs] visits_stay[OF this, of xs "[]" zs] show ?thesis
    using assms(2) by (cases "h = GEOPM_REGION_HASH_UNMARKED") (simp_all add: Cons u)
qed simp

lemma visits_last:
  assumes "last_visit h now us ds" "h \<noteq> GEOPM_REGION_HASH_UNMARKED"
  shows "snd (snd (visits h now us ([], [], []))) = ds"
proof -
  obtain pre stay d hash epoch away again where us: "us = pre @ stay @ (d, hash, epoch) # away @ again"
    and pre: "pre = [] \<and> now = h \<or> (\<exists>pre' d' epoch'. pre = pre' @ [(d', h, epoch')] \<and> hash_after now pre' \<noteq> h)"
    and stay: "\<forall>(d, k, e) \<in> set stay. k = h" and left: "hash \<noteq> h"
    and away: "\<forall>(d, k, e) \<in> set away. k \<noteq> h" and again: "\<forall>(d, k, e) \<in> set again. k = h" and ds: "ds = map fst stay @ [d]"
    using assms(1) unfolding last_visit_def by metis
  have "hash_after now pre = h \<and> (\<exists>xs zs. visits h now pre ([], [], []) = (xs, [], zs))"
  proof (cases "pre = []")
    case False
    then obtain pre' d' epoch' where p: "pre = pre' @ [(d', h, epoch')]" "hash_after now pre' \<noteq> h" using pre by blast
    obtain xs ys zs where "visits h now pre' ([], [], []) = (xs, ys, zs)" by (metis prod.collapse)
    then show ?thesis using p assms(2) by (simp add: visits_append)
  qed (use pre in simp)
  then obtain xs zs where v: "hash_after now pre = h" "visits h now pre ([], [], []) = (xs, [], zs)" by blast
  have "visits h now (pre @ stay @ [(d, hash, epoch)]) ([], [], []) = (xs @ ds, ds, ds)"
    using visits_stay[OF stay, of xs "[]" zs] left assms(2) by (simp add: visits_append v ds)
  moreover have "hash_after now (pre @ stay @ [(d, hash, epoch)]) = hash" by simp
  ultimately have "visits h now us ([], [], []) = visits h hash (away @ again) (xs @ ds, ds, ds)"
    unfolding us using visits_append[of h now "pre @ stay @ [(d, hash, epoch)]" "away @ again" "([], [], [])"] by simp
  then show ?thesis
    using visits_away[OF away left, of "(xs @ ds, ds, ds)"] visits_back[OF again] by (simp add: visits_append)
qed

lemma epochs_stay:
  "(\<forall>(d, k, e) \<in> set us. e = now) \<Longrightarrow> now \<noteq> 0 \<Longrightarrow> epochs now us (xs, ys, zs) = (xs @ map fst us, ys @ map fst us, zs) \<and> epoch_after now us = now"
  by (induction us arbitrary: xs ys) auto

lemma epochs_rest: "(\<forall>(d, k, e) \<in> set us. e = now) \<Longrightarrow> snd (snd (epochs now us (xs, ys, zs))) = zs"
  by (induction us arbitrary: xs ys) auto

lemma epochs_last:
  assumes "last_epoch now us ds"
  shows "snd (snd (epochs now us ([], [], []))) = ds"
proof -
  obtain pre stay d hash epoch rest where us: "us = pre @ stay @ (d, hash, epoch) # rest"
    and pre: "pre = [] \<or> (\<exists>pre' d' hash' epoch'. pre = pre' @ [(d', hash', epoch')] \<and> epoch_after now pre' \<noteq> epoch')"
    and n: "epoch_after now pre \<noteq> 0" and stay: "\<forall>(d, k, e) \<in> set stay. e = epoch_after now pre"
    and left: "epoch \<noteq> epoch_after now pre" and rest: "\<forall>(d, k, e) \<in> set rest. e = epoch" and ds: "ds = map fst stay @ [d]"
    using assms unfolding last_epoch_def by metis
  have "\<exists>xs zs. epochs now pre ([], [], []) = (xs, [], zs)"
  proof (cases "pre = []")
    case False
    then obtain pre' d' hash' epoch' where p: "pre = pre' @ [(d', hash', epoch')]" "epoch_after now pre' \<noteq> epoch'" using pre by blast
    obtain xs ys zs where "epochs now pre' ([], [], []) = (xs, ys, zs)" by (metis prod.collapse)
    then show ?thesis using p by (simp add: epochs_append)
  qed simp
  then obtain xs zs where v: "epochs now pre ([], [], []) = (xs, [], zs)" by blast
  have "epochs now (pre @ stay @ [(d, hash, epoch)]) ([], [], []) = (xs @ ds, [], ds)"
    using epochs_stay[OF stay n, of xs "[]" zs] left n by (simp add: epochs_append v ds)
  then show ?thesis
    unfolding us using epochs_append[of now "pre @ stay @ [(d, hash, epoch)]" rest "([], [], [])"] epochs_rest[OF rest] by simp
qed

section \<open>What a signal has added up\<close>

context accumulator begin

text \<open>The state of a signal whose first update saw the hash \<open>h0\<close> and the epoch count \<open>e0\<close>, after the steps \<open>us\<close>.\<close>

definition follows :: "64 word \<Rightarrow> int \<Rightarrow> 'd step list \<Rightarrow> 'acc agg_signal \<Rightarrow> bool" where
  "follows h0 e0 us signal \<longleftrightarrow>
     signal_ok signal \<and> as_region_hash_last signal = hash_after h0 us \<and> as_epoch_count_last signal = epoch_after e0 us \<and>
     (\<forall>h. region_holds h (visits h h0 us ([], [], [])) signal) \<and> epoch_holds (epochs e0 us ([], [], [])) signal \<and>
     holds (map fst us) (map fst us) [] (as_app_accum signal)"

lemma follows_start:
  "follows hash epoch [] (first_update ops v hash epoch (new_signal ops i j))"
  using fresh by (simp add: follows_def first_update_def new_signal_def emplace_hash_def signal_ok_def region_holds_def epoch_holds_def)

lemma next_app:
  "as_app_accum (next_update ops d v hash epoch p q signal) = op_update ops d (as_app_accum signal)"
  by (simp add: next_update_def update_hash_exit_def on_region_def emplace_hash_def update_hash_enter_def update_epoch_def
      add_delta_def update_period_def Let_def)

lemma follows_next:
  assumes "follows h0 e0 us signal"
  shows "follows h0 e0 (us @ [(d, hash, epoch)]) (next_update ops d v hash epoch p q signal)"
proof -
  let ?t = "next_update ops d v hash epoch p q signal"
  have ok: "signal_ok signal" and now: "as_region_hash_last signal = hash_after h0 us" "as_epoch_count_last signal = epoch_after e0 us"
    and region: "\<And>h. region_holds h (visits h h0 us ([], [], [])) signal" and ep: "epoch_holds (epochs e0 us ([], [], [])) signal"
    and app: "holds (map fst us) (map fst us) [] (as_app_accum signal)"
    using assms by (simp_all add: follows_def)
  obtain b where b: "as_region_accum_it signal = as_region_hash_last signal" "as_region_accum signal (as_region_hash_last signal) = Some b"
    using ok by (auto simp: signal_ok_def)
  have "region_holds h (visits h h0 (us @ [(d, hash, epoch)]) ([], [], [])) ?t" for h
  proof -
    obtain xs ys zs where v: "visits h h0 us ([], [], []) = (xs, ys, zs)" by (metis prod.collapse)
    show ?thesis using next_region[OF ok, of h xs ys zs] region[of h] by (simp add: visits_append v now del: visits.simps(2))
  qed
  moreover have "epoch_holds (epochs e0 (us @ [(d, hash, epoch)]) ([], [], [])) ?t"
  proof -
    obtain xs ys zs where v: "epochs e0 us ([], [], []) = (xs, ys, zs)" by (metis prod.collapse)
    show ?thesis using next_epoch[of xs ys zs signal] ep by (simp add: epochs_append v now del: epochs.simps(2))
  qed
  moreover have "holds (map fst (us @ [(d, hash, epoch)])) (map fst (us @ [(d, hash, epoch)])) [] (as_app_accum ?t)"
    using upd[OF app, of d] by (simp add: next_app)
  ultimately show ?thesis
    using next_ok[OF ok] next_fields(1)[OF b] by (simp add: follows_def next_epoch_fields)
qed

text \<open>What the queries of a signal return.\<close>

lemma follows_app: "follows h0 e0 us signal \<Longrightarrow> op_whole ops (as_app_accum signal) = value_of (map fst us)"
  using whole by (auto simp: follows_def)

lemma follows_epoch: "follows h0 e0 us signal \<Longrightarrow> op_whole ops (as_epoch_accum signal) = value_of (since_epoch e0 us)"
  and follows_last_epoch: "follows h0 e0 us signal \<Longrightarrow> last_epoch e0 us ds \<Longrightarrow> op_interval ops (as_epoch_accum signal) = value_of ds"
proof -
  assume f: "follows h0 e0 us signal"
  obtain xs ys zs where v: "epochs e0 us ([], [], []) = (xs, ys, zs)" by (metis prod.collapse)
  then have h: "holds xs ys zs (as_epoch_accum signal)" using f by (simp add: follows_def epoch_holds_def)
  show "op_whole ops (as_epoch_accum signal) = value_of (since_epoch e0 us)"
    using whole[OF h] fst_epochs[of e0 us "[]" "[]" "[]"] v by simp
  show "op_interval ops (as_epoch_accum signal) = value_of ds" if "last_epoch e0 us ds"
    using interval[OF h] epochs_last[OF that] v by simp
qed

lemma follows_region:
  assumes "follows h0 e0 us signal"
  shows "case as_region_accum signal h of Some a \<Rightarrow> op_whole ops a = value_of (spent h h0 us) | None \<Rightarrow> spent h h0 us = []"
proof -
  obtain xs ys zs where v: "visits h h0 us ([], [], []) = (xs, ys, zs)" by (metis prod.collapse)
  then have "region_holds h (xs, ys, zs) signal" using assms by (metis follows_def)
  then show ?thesis using fst_visits[of h h0 us "[]" "[]" "[]"] v whole by (auto simp: region_holds_def split: option.splits)
qed

lemma follows_last_visit:
  assumes "follows h0 e0 us signal" "last_visit h h0 us ds" "h \<noteq> GEOPM_REGION_HASH_UNMARKED"
  shows "\<exists>a. as_region_accum signal h = Some a \<and> op_interval ops a = value_of ds"
proof -
  obtain xs ys zs where v: "visits h h0 us ([], [], []) = (xs, ys, zs)" by (metis prod.collapse)
  then have "region_holds h (xs, ys, zs) signal" using assms(1) by (metis follows_def)
  moreover have "zs = ds" using visits_last[OF assms(2,3)] v by simp
  moreover have "ds \<noteq> []" using assms(2) unfolding last_visit_def by fastforce
  ultimately show ?thesis using interval by (auto simp: region_holds_def split: option.splits)
qed

end

section \<open>Both accumulators keep the promise\<close>

text \<open>The sum that skips what is not a number, and the time weighted average.\<close>

definition sum_of :: "double list \<Rightarrow> double" where
  "sum_of ds = foldl dadd (Fin 0) (filter (\<lambda>d. \<not> isnan d) ds)"

definition weighted :: "(double \<times> double) list \<Rightarrow> (double \<times> double) list" where
  "weighted ds = filter (\<lambda>(t, x). \<not> isnan x \<and> \<not> isnan t) ds"

definition weight_of :: "(double \<times> double) list \<Rightarrow> double" where
  "weight_of ds = foldl dadd (Fin 0) (map fst (weighted ds))"

definition average_of :: "(double \<times> double) list \<Rightarrow> double" where
  "average_of ds =
     (if deq (weight_of ds) (Fin 0) then Fin 0
      else ddiv (foldl dadd (Fin 0) (map (\<lambda>(t, x). dmul t x) (weighted ds))) (weight_of ds))"

definition sum_holds :: "double list \<Rightarrow> double list \<Rightarrow> double list \<Rightarrow> sum_accumulator \<Rightarrow> bool" where
  "sum_holds xs ys zs a \<longleftrightarrow> su_total a = sum_of xs \<and> su_current a = sum_of ys \<and> su_last a = sum_of zs"

definition avg_holds :: "(double \<times> double) list \<Rightarrow> (double \<times> double) list \<Rightarrow> (double \<times> double) list \<Rightarrow> avg_accumulator \<Rightarrow> bool" where
  "avg_holds xs ys zs a \<longleftrightarrow>
     av_total a = foldl dadd (Fin 0) (map (\<lambda>(t, x). dmul t x) (weighted xs)) \<and> av_weight a = weight_of xs \<and>
     av_curr_total a = foldl dadd (Fin 0) (map (\<lambda>(t, x). dmul t x) (weighted ys)) \<and> av_curr_weight a = weight_of ys \<and>
     av_last a = average_of zs"

interpretation sums: accumulator sum_ops sum_holds sum_of
  by unfold_locales
    (auto simp: sum_holds_def sum_ops_def sum_new_def sum_update_def sum_enter_def sum_exit_def sum_of_def)

interpretation avgs: accumulator avg_ops avg_holds average_of
  by unfold_locales
    (auto simp: avg_holds_def avg_ops_def avg_new_def avg_update_def avg_enter_def avg_exit_def avg_average_def average_of_def weight_of_def weighted_def
      deq_def split: prod.splits)

section \<open>One update of the object\<close>

text \<open>
  Between two calls of \<^verbatim>\<open>read_batch()\<close> a sample is a reading of the batch: it changes nothing.
\<close>

definition steady :: "(double \<Rightarrow> double) \<Rightarrow> 'w pio \<Rightarrow> bool" where
  "steady sq p \<longleftrightarrow> (\<forall>i. snd (sample sq i p) = p)"

definition value_at :: "(double \<Rightarrow> double) \<Rightarrow> 'w pio \<Rightarrow> int \<Rightarrow> double" where
  "value_at sq p i = (case fst (sample sq i p) of Inr v \<Rightarrow> v | Inl _ \<Rightarrow> NaN)"

definition hash_at :: "(double \<Rightarrow> double) \<Rightarrow> 'w pio \<Rightarrow> int \<Rightarrow> 64 word" where
  "hash_at sq p i = (case sample_to_hash (value_at sq p i) of Inr hash \<Rightarrow> hash | Inl _ \<Rightarrow> REGION_HASH_INVALID)"

definition epoch_at :: "(double \<Rightarrow> double) \<Rightarrow> 'w pio \<Rightarrow> int \<Rightarrow> int" where
  "epoch_at sq p i = (case int_of_d (value_at sq p i) of Inr n \<Rightarrow> n | Inl _ \<Rightarrow> 0)"

definition total_step :: "(double \<Rightarrow> double) \<Rightarrow> 'w pio \<Rightarrow> bool \<Rightarrow> int \<Rightarrow> int \<Rightarrow> int \<Rightarrow> sum_accumulator agg_signal \<Rightarrow> sum_accumulator agg_signal" where
  "total_step sq p is_updated period period_last i g =
     (let v = value_at sq p i; hash = hash_at sq p (as_region_hash_idx g); epoch = epoch_at sq p (as_epoch_count_idx g)
      in if \<not> is_updated then first_update sum_ops v hash epoch g
         else if isnan v then g
         else next_update sum_ops (if \<not> isnan (as_last g) then dsub v (as_last g) else Fin 0) v hash epoch period period_last g)"

definition average_step :: "(double \<Rightarrow> double) \<Rightarrow> 'w pio \<Rightarrow> int \<Rightarrow> bool \<Rightarrow> int \<Rightarrow> int \<Rightarrow> int \<Rightarrow> avg_accumulator agg_signal \<Rightarrow> avg_accumulator agg_signal" where
  "average_step sq p time_idx is_updated period period_last i g =
     (let v = value_at sq p i; time = value_at sq p time_idx;
          hash = hash_at sq p (as_region_hash_idx g); epoch = epoch_at sq p (as_epoch_count_idx g)
      in if \<not> is_updated then first_update avg_ops (Fin 0) hash epoch g
         else next_update avg_ops (dsub time (as_last g), v) time hash epoch period period_last g)"

lemma on_pio_sample:
  assumes "steady sq (sg_platform_io s)"
  shows "on_pio (sample sq i) s = (fst (sample sq i (sg_platform_io s)), s)"
proof -
  have "sample sq i (sg_platform_io s) = (fst (sample sq i (sg_platform_io s)), sg_platform_io s)"
    using assms by (metis prod.collapse steady_def)
  then show ?thesis by (metis (no_types, lifting) on_pio_def prod.case sample_agg.surjective sample_agg.update_convs(1))
qed

lemma value_at_Inr: "fst (sample sq i p) = Inr v \<Longrightarrow> value_at sq p i = v"
  by (simp add: value_at_def)

lemma bind_returns: "bind m f s = (Inr y, t) \<longleftrightarrow> (\<exists>x u. m s = (Inr x, u) \<and> f x u = (Inr y, t))"
  by (auto simp: bind_cases)

lemma total_signal_effect:
  assumes "update_total_signal sq period i s = (Inr (), t)" "steady sq (sg_platform_io s)" "map_of (sg_sum_signal s) i = Some g"
  shows "t = s\<lparr>sg_sum_signal := upsert i (\<lambda>_. total_step sq (sg_platform_io s) (sg_is_updated s) period (sg_period_last s) i g) (sg_sum_signal s)\<rparr>"
proof -
  obtain v hv hash ev epoch where r: "fst (sample sq i (sg_platform_io s)) = Inr v"
      "fst (sample sq (as_region_hash_idx g) (sg_platform_io s)) = Inr hv" "sample_to_hash hv = Inr hash"
      "fst (sample sq (as_epoch_count_idx g) (sg_platform_io s)) = Inr ev" "int_of_d ev = Inr epoch"
      "(Inr (), t) = modify (\<lambda>s. let updated = if \<not> sg_is_updated s then first_update sum_ops v hash epoch g
           else if isnan v then g
           else let delta = (if \<not> isnan (as_last g) then dsub v (as_last g) else Fin 0)
                in next_update sum_ops delta v hash epoch period (sg_period_last s) g
         in s\<lparr>sg_sum_signal := upsert i (\<lambda>_. updated) (sg_sum_signal s)\<rparr>) s"
    using assms(1) unfolding update_total_signal_def bind_returns
    by (auto simp: on_pio_sample[OF assms(2)] assms(3) gets_def lift_def split: sum.splits)
  have "value_at sq (sg_platform_io s) i = v" "hash_at sq (sg_platform_io s) (as_region_hash_idx g) = hash"
      "epoch_at sq (sg_platform_io s) (as_epoch_count_idx g) = epoch"
    using r by (simp_all add: value_at_Inr hash_at_def epoch_at_def)
  then show ?thesis using r(6) by (simp add: modify_def total_step_def Let_def)
qed

lemma average_signal_effect:
  assumes "update_average_signal sq period i s = (Inr (), t)" "steady sq (sg_platform_io s)" "map_of (sg_avg_signal s) i = Some g"
  shows "t = s\<lparr>sg_avg_signal := upsert i (\<lambda>_. average_step sq (sg_platform_io s) (sg_time_idx s) (sg_is_updated s) period (sg_period_last s) i g) (sg_avg_signal s)\<rparr>"
proof -
  obtain time v hv hash ev epoch where r: "fst (sample sq (sg_time_idx s) (sg_platform_io s)) = Inr time"
      "fst (sample sq i (sg_platform_io s)) = Inr v"
      "fst (sample sq (as_region_hash_idx g) (sg_platform_io s)) = Inr hv" "sample_to_hash hv = Inr hash"
      "fst (sample sq (as_epoch_count_idx g) (sg_platform_io s)) = Inr ev" "int_of_d ev = Inr epoch"
      "(Inr (), t) = modify (\<lambda>s. let updated = if \<not> sg_is_updated s then first_update avg_ops (Fin 0) hash epoch g
           else next_update avg_ops (dsub time (as_last g), v) time hash epoch period (sg_period_last s) g
         in s\<lparr>sg_avg_signal := upsert i (\<lambda>_. updated) (sg_avg_signal s)\<rparr>) s"
    using assms(1) unfolding update_average_signal_def bind_returns
    by (auto simp: on_pio_sample[OF assms(2)] assms(3) gets_def lift_def split: sum.splits)
  have "value_at sq (sg_platform_io s) i = v" "value_at sq (sg_platform_io s) (sg_time_idx s) = time"
      "hash_at sq (sg_platform_io s) (as_region_hash_idx g) = hash" "epoch_at sq (sg_platform_io s) (as_epoch_count_idx g) = epoch"
    using r by (simp_all add: value_at_Inr hash_at_def epoch_at_def)
  then show ?thesis using r(7) by (simp add: modify_def average_step_def Let_def)
qed

lemma total_loop:
  assumes "for_each (update_total_signal sq period) idxs s = (Inr (), t)" "steady sq (sg_platform_io s)"
    and "sset (map fst (sg_sum_signal s))" "set idxs \<subseteq> set (map fst (sg_sum_signal s))" "distinct idxs"
  shows "\<exists>l. t = s\<lparr>sg_sum_signal := l\<rparr> \<and> sset (map fst l) \<and> set (map fst l) = set (map fst (sg_sum_signal s)) \<and>
    (\<forall>i. map_of l i = (if i \<in> set idxs
       then map_option (total_step sq (sg_platform_io s) (sg_is_updated s) period (sg_period_last s) i) (map_of (sg_sum_signal s) i)
       else map_of (sg_sum_signal s) i))"
  using assms
proof (induction idxs arbitrary: s)
  case Nil
  then show ?case by (intro exI[of _ "sg_sum_signal s"]) simp
next
  case (Cons i idxs)
  then obtain u where u: "update_total_signal sq period i s = (Inr (), u)" "for_each (update_total_signal sq period) idxs u = (Inr (), t)"
    by (auto simp: bind_returns)
  obtain g where g: "map_of (sg_sum_signal s) i = Some g" using Cons.prems(4) by (cases "map_of (sg_sum_signal s) i") (auto simp: map_of_eq_None_iff)
  let ?x = "total_step sq (sg_platform_io s) (sg_is_updated s) period (sg_period_last s) i g"
  have us: "u = s\<lparr>sg_sum_signal := upsert i (\<lambda>_. ?x) (sg_sum_signal s)\<rparr>" using total_signal_effect[OF u(1) Cons.prems(2) g] .
  note keys = upsert_keys[OF Cons.prems(3), of i "\<lambda>_. ?x"] map_of_upsert[OF Cons.prems(3), of i "\<lambda>_. ?x"]
  have "set (map fst (sg_sum_signal u)) = set (map fst (sg_sum_signal s))" "sset (map fst (sg_sum_signal u))"
    using keys(1) Cons.prems(4) us by auto
  then obtain l where l: "t = u\<lparr>sg_sum_signal := l\<rparr>" "sset (map fst l)" "set (map fst l) = set (map fst (sg_sum_signal s))"
      "\<forall>k. map_of l k = (if k \<in> set idxs
       then map_option (total_step sq (sg_platform_io s) (sg_is_updated s) period (sg_period_last s) k) (map_of (sg_sum_signal u) k)
       else map_of (sg_sum_signal u) k)"
    using Cons.IH[OF u(2)] Cons.prems us by auto
  show ?case using l keys(2) us g Cons.prems(5) by (intro exI[of _ l]) auto
qed

lemma average_loop:
  assumes "for_each (update_average_signal sq period) idxs s = (Inr (), t)" "steady sq (sg_platform_io s)"
    and "sset (map fst (sg_avg_signal s))" "set idxs \<subseteq> set (map fst (sg_avg_signal s))" "distinct idxs"
  shows "\<exists>l. t = s\<lparr>sg_avg_signal := l\<rparr> \<and> sset (map fst l) \<and> set (map fst l) = set (map fst (sg_avg_signal s)) \<and>
    (\<forall>i. map_of l i = (if i \<in> set idxs
       then map_option (average_step sq (sg_platform_io s) (sg_time_idx s) (sg_is_updated s) period (sg_period_last s) i) (map_of (sg_avg_signal s) i)
       else map_of (sg_avg_signal s) i))"
  using assms
proof (induction idxs arbitrary: s)
  case Nil
  then show ?case by (intro exI[of _ "sg_avg_signal s"]) simp
next
  case (Cons i idxs)
  then obtain u where u: "update_average_signal sq period i s = (Inr (), u)" "for_each (update_average_signal sq period) idxs u = (Inr (), t)"
    by (auto simp: bind_returns)
  obtain g where g: "map_of (sg_avg_signal s) i = Some g" using Cons.prems(4) by (cases "map_of (sg_avg_signal s) i") (auto simp: map_of_eq_None_iff)
  let ?x = "average_step sq (sg_platform_io s) (sg_time_idx s) (sg_is_updated s) period (sg_period_last s) i g"
  have us: "u = s\<lparr>sg_avg_signal := upsert i (\<lambda>_. ?x) (sg_avg_signal s)\<rparr>" using average_signal_effect[OF u(1) Cons.prems(2) g] .
  note keys = upsert_keys[OF Cons.prems(3), of i "\<lambda>_. ?x"] map_of_upsert[OF Cons.prems(3), of i "\<lambda>_. ?x"]
  have "set (map fst (sg_avg_signal u)) = set (map fst (sg_avg_signal s))" "sset (map fst (sg_avg_signal u))"
    using keys(1) Cons.prems(4) us by auto
  then obtain l where l: "t = u\<lparr>sg_avg_signal := l\<rparr>" "sset (map fst l)" "set (map fst l) = set (map fst (sg_avg_signal s))"
      "\<forall>k. map_of l k = (if k \<in> set idxs
       then map_option (average_step sq (sg_platform_io s) (sg_time_idx s) (sg_is_updated s) period (sg_period_last s) k) (map_of (sg_avg_signal u) k)
       else map_of (sg_avg_signal u) k)"
    using Cons.IH[OF u(2)] Cons.prems us by auto
  show ?case using l keys(2) us g Cons.prems(5) by (intro exI[of _ l]) auto
qed

definition agg_keys_ok :: "'w sample_agg \<Rightarrow> bool" where
  "agg_keys_ok s \<longleftrightarrow> sset (map fst (sg_sum_signal s)) \<and> sset (map fst (sg_avg_signal s))"

lemma get_period_effect: "steady sq (sg_platform_io s) \<Longrightarrow> get_period sq s = (r, t) \<Longrightarrow> t = s"
  by (auto simp: get_period_def bind_def act_simps on_pio_sample split: sum.splits if_splits)

lemma update_total_effect:
  assumes "update_total sq s = (Inr (), t)" "steady sq (sg_platform_io s)" "sset (map fst (sg_sum_signal s))"
  shows "\<exists>period l. t = s\<lparr>sg_sum_signal := l\<rparr> \<and> sset (map fst l) \<and> fst (get_period sq s) = Inr period \<and>
    (\<forall>i. map_of l i = map_option (total_step sq (sg_platform_io s) (sg_is_updated s) period (sg_period_last s) i) (map_of (sg_sum_signal s) i))"
proof -
  obtain period u where p: "get_period sq s = (Inr period, u)" "for_each (update_total_signal sq period) (map fst (sg_sum_signal u)) u = (Inr (), t)"
    using assms(1) unfolding update_total_def bind_returns by (auto simp: gets_def)
  then have u: "u = s" using get_period_effect[OF assms(2)] by blast
  have "distinct (map fst (sg_sum_signal s))" using assms(3) by (simp add: sset_def)
  from total_loop[OF p(2)[unfolded u] assms(2,3) _ this] obtain l where "t = s\<lparr>sg_sum_signal := l\<rparr>" "sset (map fst l)"
      "\<forall>i. map_of l i = (if i \<in> set (map fst (sg_sum_signal s))
       then map_option (total_step sq (sg_platform_io s) (sg_is_updated s) period (sg_period_last s) i) (map_of (sg_sum_signal s) i)
       else map_of (sg_sum_signal s) i)" by auto
  moreover have "map_of (sg_sum_signal s) i = None" if "i \<notin> set (map fst (sg_sum_signal s))" for i
    using that by (simp add: map_of_eq_None_iff)
  ultimately show ?thesis using p(1) by (intro exI[of _ period] exI[of _ l]) auto
qed

lemma update_average_effect:
  assumes "update_average sq s = (Inr (), t)" "steady sq (sg_platform_io s)" "sset (map fst (sg_avg_signal s))"
  shows "\<exists>period l. t = s\<lparr>sg_avg_signal := l\<rparr> \<and> sset (map fst l) \<and> fst (get_period sq s) = Inr period \<and>
    (\<forall>i. map_of l i = map_option (average_step sq (sg_platform_io s) (sg_time_idx s) (sg_is_updated s) period (sg_period_last s) i) (map_of (sg_avg_signal s) i))"
proof -
  obtain period u where p: "get_period sq s = (Inr period, u)" "for_each (update_average_signal sq period) (map fst (sg_avg_signal u)) u = (Inr (), t)"
    using assms(1) unfolding update_average_def bind_returns by (auto simp: gets_def)
  then have u: "u = s" using get_period_effect[OF assms(2)] by blast
  have "distinct (map fst (sg_avg_signal s))" using assms(3) by (simp add: sset_def)
  from average_loop[OF p(2)[unfolded u] assms(2,3) _ this] obtain l where "t = s\<lparr>sg_avg_signal := l\<rparr>" "sset (map fst l)"
      "\<forall>i. map_of l i = (if i \<in> set (map fst (sg_avg_signal s))
       then map_option (average_step sq (sg_platform_io s) (sg_time_idx s) (sg_is_updated s) period (sg_period_last s) i) (map_of (sg_avg_signal s) i)
       else map_of (sg_avg_signal s) i)" by auto
  moreover have "map_of (sg_avg_signal s) i = None" if "i \<notin> set (map fst (sg_avg_signal s))" for i
    using that by (simp add: map_of_eq_None_iff)
  ultimately show ?thesis using p(1) by (intro exI[of _ period] exI[of _ l]) auto
qed

lemma agg_update_effect:
  assumes "agg_update sq s = (Inr (), t)" "steady sq (sg_platform_io s)" "agg_keys_ok s"
  shows "sg_platform_io t = sg_platform_io s \<and> sg_time_idx t = sg_time_idx s \<and> sg_is_updated t \<and> agg_keys_ok t \<and>
    (\<exists>period. \<forall>i. map_of (sg_sum_signal t) i =
        map_option (total_step sq (sg_platform_io s) (sg_is_updated s) period (sg_period_last s) i) (map_of (sg_sum_signal s) i)) \<and>
    (\<exists>period. \<forall>i. map_of (sg_avg_signal t) i =
        map_option (average_step sq (sg_platform_io s) (sg_time_idx s) (sg_is_updated s) period (sg_period_last s) i) (map_of (sg_avg_signal s) i))"
proof -
  obtain u v period w where run: "update_total sq s = (Inr (), u)" "update_average sq u = (Inr (), v)"
      "get_period sq v = (Inr period, w)" "t = w\<lparr>sg_period_last := period, sg_is_updated := True\<rparr>"
    using assms(1) unfolding agg_update_def bind_returns by (auto simp: modify_def)
  obtain p1 l1 where u: "u = s\<lparr>sg_sum_signal := l1\<rparr>" "sset (map fst l1)"
      "\<forall>i. map_of l1 i = map_option (total_step sq (sg_platform_io s) (sg_is_updated s) p1 (sg_period_last s) i) (map_of (sg_sum_signal s) i)"
    using update_total_effect[OF run(1) assms(2)] assms(3) by (auto simp: agg_keys_ok_def)
  have "steady sq (sg_platform_io u)" "sset (map fst (sg_avg_signal u))" using assms(2,3) u(1) by (simp_all add: agg_keys_ok_def)
  from update_average_effect[OF run(2) this] obtain p2 l2 where v: "v = u\<lparr>sg_avg_signal := l2\<rparr>" "sset (map fst l2)"
      "\<forall>i. map_of l2 i = map_option (average_step sq (sg_platform_io s) (sg_time_idx s) (sg_is_updated s) p2 (sg_period_last s) i) (map_of (sg_avg_signal s) i)"
    using u(1) by auto
  have "w = v" using get_period_effect[OF _ run(3)] assms(2) u(1) v(1) by simp
  then show ?thesis using u v run(4) by (auto simp: agg_keys_ok_def)
qed

section \<open>Many updates\<close>

text \<open>One update after each of a sequence of batches.\<close>

definition agg_rounds :: "(double \<Rightarrow> double) \<Rightarrow> 'w pio list \<Rightarrow> ('w sample_agg, unit) action" where
  "agg_rounds sq ps = for_each (\<lambda>p. bind (modify (\<lambda>s. s\<lparr>sg_platform_io := p\<rparr>)) (\<lambda>_. agg_update sq)) ps"

text \<open>What a batch says about a signal, and the steps that a sequence of batches makes: what is not a number is left out.\<close>

type_synonym reading = "double \<times> 64 word \<times> int"

definition reading_of :: "(double \<Rightarrow> double) \<Rightarrow> int \<Rightarrow> 'acc agg_signal \<Rightarrow> 'w pio \<Rightarrow> reading" where
  "reading_of sq i g p = (value_at sq p i, hash_at sq p (as_region_hash_idx g), epoch_at sq p (as_epoch_count_idx g))"

fun increases :: "double \<Rightarrow> reading list \<Rightarrow> double step list" where
  "increases v [] = []"
| "increases v ((v', hash, epoch) # rs) =
     (if isnan v' then increases v rs
      else ((if \<not> isnan v then dsub v' v else Fin 0), hash, epoch) # increases v' rs)"

fun durations :: "double \<Rightarrow> (double \<times> reading) list \<Rightarrow> (double \<times> double) step list" where
  "durations t [] = []"
| "durations t ((t', v, hash, epoch) # rs) = ((dsub t' t, v), hash, epoch) # durations t' rs"

lemma next_update_keeps:
  "as_region_hash_idx (next_update ops d v hash epoch p q g) = as_region_hash_idx g"
  "as_epoch_count_idx (next_update ops d v hash epoch p q g) = as_epoch_count_idx g"
  "as_last (next_update ops d v hash epoch p q g) = v"
  by (simp_all add: next_update_def update_hash_exit_def on_region_def emplace_hash_def update_hash_enter_def update_epoch_def
      add_delta_def update_period_def Let_def)

lemma first_update_keeps:
  "as_region_hash_idx (first_update ops v hash epoch g) = as_region_hash_idx g"
  "as_epoch_count_idx (first_update ops v hash epoch g) = as_epoch_count_idx g"
  "as_last (first_update ops v hash epoch g) = v"
  by (simp_all add: first_update_def emplace_hash_def)

lemma total_rounds:
  assumes "agg_rounds sq ps s = (Inr (), t)" "\<forall>p \<in> set ps. steady sq p" "agg_keys_ok s" "sg_is_updated s"
    and "map_of (sg_sum_signal s) i = Some g" "sums.follows h0 e0 us g"
  shows "sg_is_updated t \<and> (\<exists>g'. map_of (sg_sum_signal t) i = Some g' \<and>
    sums.follows h0 e0 (us @ increases (as_last g) (map (reading_of sq i g) ps)) g')"
  using assms
proof (induction ps arbitrary: s us g)
  case Nil
  then show ?case by (auto simp: agg_rounds_def)
next
  case (Cons p ps)
  let ?s = "s\<lparr>sg_platform_io := p\<rparr>"
  obtain u where u: "agg_update sq ?s = (Inr (), u)" "agg_rounds sq ps u = (Inr (), t)"
    using Cons.prems(1) unfolding agg_rounds_def for_each.simps bind_returns by (auto simp: modify_def)
  have "steady sq (sg_platform_io ?s)" "agg_keys_ok ?s" using Cons.prems(2,3) by (simp_all add: agg_keys_ok_def)
  from agg_update_effect[OF u(1) this] obtain period where e: "agg_keys_ok u" "sg_is_updated u"
      "map_of (sg_sum_signal u) i = map_option (total_step sq p True period (sg_period_last s) i) (map_of (sg_sum_signal s) i)"
    using Cons.prems(4) by auto
  have rest: "\<forall>p \<in> set ps. steady sq p" using Cons.prems(2) by simp
  show ?case
  proof (cases "isnan (value_at sq p i)")
    case True
    then have "map_of (sg_sum_signal u) i = Some g" using e(3) Cons.prems(5) by (simp add: total_step_def)
    from Cons.IH[OF u(2) rest e(1,2) this Cons.prems(6)] True show ?thesis by (simp add: reading_of_def)
  next
    case False
    let ?d = "if \<not> isnan (as_last g) then dsub (value_at sq p i) (as_last g) else Fin 0"
    let ?g = "next_update sum_ops ?d (value_at sq p i) (hash_at sq p (as_region_hash_idx g)) (epoch_at sq p (as_epoch_count_idx g)) period (sg_period_last s) g"
    have "map_of (sg_sum_signal u) i = Some ?g" using e(3) Cons.prems(5) False by (simp add: total_step_def Let_def)
    from Cons.IH[OF u(2) rest e(1,2) this sums.follows_next[OF Cons.prems(6)]] False show ?thesis
      by (simp add: reading_of_def next_update_keeps)
  qed
qed

lemma average_rounds:
  assumes "agg_rounds sq ps s = (Inr (), t)" "\<forall>p \<in> set ps. steady sq p" "agg_keys_ok s" "sg_is_updated s"
    and "map_of (sg_avg_signal s) i = Some g" "avgs.follows h0 e0 us g" "map_of (sg_sum_signal s) i = None"
  shows "sg_is_updated t \<and> map_of (sg_sum_signal t) i = None \<and> (\<exists>g'. map_of (sg_avg_signal t) i = Some g' \<and>
    avgs.follows h0 e0 (us @ durations (as_last g) (map (\<lambda>p. (value_at sq p (sg_time_idx s), reading_of sq i g p)) ps)) g')"
  using assms
proof (induction ps arbitrary: s us g)
  case Nil
  then show ?case by (auto simp: agg_rounds_def)
next
  case (Cons p ps)
  let ?s = "s\<lparr>sg_platform_io := p\<rparr>"
  obtain u where u: "agg_update sq ?s = (Inr (), u)" "agg_rounds sq ps u = (Inr (), t)"
    using Cons.prems(1) unfolding agg_rounds_def for_each.simps bind_returns by (auto simp: modify_def)
  have "steady sq (sg_platform_io ?s)" "agg_keys_ok ?s" using Cons.prems(2,3) by (simp_all add: agg_keys_ok_def)
  from agg_update_effect[OF u(1) this] obtain period where e: "agg_keys_ok u" "sg_is_updated u" "sg_time_idx u = sg_time_idx s"
      "map_of (sg_avg_signal u) i = map_option (average_step sq p (sg_time_idx s) True period (sg_period_last s) i) (map_of (sg_avg_signal s) i)"
      "map_of (sg_sum_signal u) i = None"
    using Cons.prems(4,7) by auto
  have rest: "\<forall>p \<in> set ps. steady sq p" using Cons.prems(2) by simp
  let ?g = "next_update avg_ops (dsub (value_at sq p (sg_time_idx s)) (as_last g), value_at sq p i) (value_at sq p (sg_time_idx s))
    (hash_at sq p (as_region_hash_idx g)) (epoch_at sq p (as_epoch_count_idx g)) period (sg_period_last s) g"
  have "map_of (sg_avg_signal u) i = Some ?g" using e(4) Cons.prems(5) by (simp add: average_step_def Let_def)
  from Cons.IH[OF u(2) rest e(1,2) this avgs.follows_next[OF Cons.prems(6)] e(5)] show ?case
    by (simp add: reading_of_def next_update_keeps e(3))
qed

section \<open>Pushing\<close>

text \<open>An object that signals are pushed to: nothing has been updated.\<close>

definition agg_fresh :: "'w sample_agg \<Rightarrow> bool" where
  "agg_fresh s \<longleftrightarrow> \<not> sg_is_updated s \<and> agg_keys_ok s \<and>
     (\<forall>i g. map_of (sg_sum_signal s) i = Some g \<longrightarrow> (\<exists>hi ei. g = new_signal sum_ops hi ei) \<and> map_of (sg_avg_signal s) i = None) \<and>
     (\<forall>i g. map_of (sg_avg_signal s) i = Some g \<longrightarrow> (\<exists>hi ei. g = new_signal avg_ops hi ei) \<and> map_of (sg_sum_signal s) i = None)"

lemma agg_fresh_pio [simp]: "agg_fresh (s\<lparr>sg_platform_io := p\<rparr>) = agg_fresh s"
  by (simp add: agg_fresh_def agg_keys_ok_def)

lemma on_pio_fresh: "on_pio m s = (r, t) \<Longrightarrow> agg_fresh t = agg_fresh s \<and> sg_is_updated t = sg_is_updated s \<and>
   sg_sum_signal t = sg_sum_signal s \<and> sg_avg_signal t = sg_avg_signal s"
  by (auto simp: on_pio_def split: prod.splits)

lemma push_total_fresh:
  assumes "push_signal_total name dt k s = (Inr i, t)" "agg_fresh s"
  shows "agg_fresh t \<and> map_of (sg_sum_signal t) i \<noteq> None"
proof -
  obtain u where u: "on_pio (push_signal name dt k) s = (Inr i, u)" "map_of (sg_avg_signal u) i = None"
      "bind (if map_of (sg_sum_signal u) i = None then
             bind (on_pio (push_signal ''REGION_HASH'' dt k)) (\<lambda>region_hash_idx.
             bind (on_pio (push_signal ''EPOCH_COUNT'' dt k)) (\<lambda>epoch_count_idx.
             modify (\<lambda>s. s\<lparr>sg_sum_signal := upsert i (\<lambda>_. new_signal sum_ops region_hash_idx epoch_count_idx) (sg_sum_signal s)\<rparr>)))
           else ret ()) (\<lambda>_. ret i) u = (Inr i, t)"
    using assms(1) unfolding push_signal_total_def bind_returns by (auto simp: gets_def guard_def ret_def throw_def split: if_splits)
  have fresh: "agg_fresh u" using on_pio_fresh[OF u(1)] assms(2) by simp
  show ?thesis
  proof (cases "map_of (sg_sum_signal u) i = None")
    case False
    then have "t = u" using u(3) unfolding if_not_P[OF False] by (simp add: bind_def ret_def)
    then show ?thesis using False fresh by simp
  next
    case True
    then obtain hi ei v w where w: "on_pio (push_signal ''REGION_HASH'' dt k) u = (Inr hi, v)" "on_pio (push_signal ''EPOCH_COUNT'' dt k) v = (Inr ei, w)"
        "t = w\<lparr>sg_sum_signal := upsert i (\<lambda>_. new_signal sum_ops hi ei) (sg_sum_signal w)\<rparr>"
      using u(3) unfolding bind_returns by (auto simp: modify_def ret_def bind_returns)
    have f: "agg_fresh w" "map_of (sg_avg_signal w) i = None" using on_pio_fresh[OF w(1)] on_pio_fresh[OF w(2)] fresh u(2) by simp_all
    then have "sset (map fst (sg_sum_signal w))" by (simp add: agg_fresh_def agg_keys_ok_def)
    from upsert_keys[OF this, of i "\<lambda>_. new_signal sum_ops hi ei"] map_of_upsert[OF this, of i "\<lambda>_. new_signal sum_ops hi ei"]
    show ?thesis using f by (auto simp: w(3) agg_fresh_def agg_keys_ok_def)
  qed
qed

lemma push_average_fresh:
  assumes "push_signal_average name dt k s = (Inr i, t)" "agg_fresh s"
  shows "agg_fresh t \<and> map_of (sg_avg_signal t) i \<noteq> None"
proof -
  obtain u where u: "on_pio (push_signal name dt k) s = (Inr i, u)" "map_of (sg_sum_signal u) i = None"
      "bind (if map_of (sg_avg_signal u) i = None then
             bind (on_pio (push_signal ''REGION_HASH'' dt k)) (\<lambda>region_hash_idx.
             bind (on_pio (push_signal ''EPOCH_COUNT'' dt k)) (\<lambda>epoch_count_idx.
             modify (\<lambda>s. s\<lparr>sg_avg_signal := upsert i (\<lambda>_. new_signal avg_ops region_hash_idx epoch_count_idx) (sg_avg_signal s)\<rparr>)))
           else ret ()) (\<lambda>_. ret i) u = (Inr i, t)"
    using assms(1) unfolding push_signal_average_def bind_returns by (auto simp: gets_def guard_def ret_def throw_def split: if_splits)
  have fresh: "agg_fresh u" using on_pio_fresh[OF u(1)] assms(2) by simp
  show ?thesis
  proof (cases "map_of (sg_avg_signal u) i = None")
    case False
    then have "t = u" using u(3) unfolding if_not_P[OF False] by (simp add: bind_def ret_def)
    then show ?thesis using False fresh by simp
  next
    case True
    then obtain hi ei v w where w: "on_pio (push_signal ''REGION_HASH'' dt k) u = (Inr hi, v)" "on_pio (push_signal ''EPOCH_COUNT'' dt k) v = (Inr ei, w)"
        "t = w\<lparr>sg_avg_signal := upsert i (\<lambda>_. new_signal avg_ops hi ei) (sg_avg_signal w)\<rparr>"
      using u(3) unfolding bind_returns by (auto simp: modify_def ret_def bind_returns)
    have f: "agg_fresh w" "map_of (sg_sum_signal w) i = None" using on_pio_fresh[OF w(1)] on_pio_fresh[OF w(2)] fresh u(2) by simp_all
    then have "sset (map fst (sg_avg_signal w))" by (simp add: agg_fresh_def agg_keys_ok_def)
    from upsert_keys[OF this, of i "\<lambda>_. new_signal avg_ops hi ei"] map_of_upsert[OF this, of i "\<lambda>_. new_signal avg_ops hi ei"]
    show ?thesis using f by (auto simp: w(3) agg_fresh_def agg_keys_ok_def)
  qed
qed

lemma agg_push_fresh:
  assumes "agg_push_signal name dt k s = (Inr i, t)" "agg_fresh s"
  shows "agg_fresh t"
  using assms push_total_fresh[of name dt k s i t] push_average_fresh[of name dt k s i t]
  unfolding agg_push_signal_def bind_returns by (auto simp: gets_def lift_def throw_def ret_def split: sum.splits if_splits)

text \<open>The requests made before the first update.\<close>

definition push_all :: "(string \<times> int \<times> int) list \<Rightarrow> ('w sample_agg, int list) action" where
  "push_all requests = map_action (\<lambda>(name, dt, k). agg_push_signal name dt k) requests"

lemma push_all_fresh: "push_all requests s = (Inr is, t) \<Longrightarrow> agg_fresh s \<Longrightarrow> agg_fresh t"
proof (induction requests arbitrary: s "is")
  case (Cons x requests)
  obtain name dt k where x: "x = (name, dt, k)" by (cases x) auto
  obtain i u js where "agg_push_signal name dt k s = (Inr i, u)" "push_all requests u = (Inr js, t)"
    using Cons.prems(1) unfolding push_all_def map_action.simps bind_returns by (auto simp: x ret_def)
  then show ?case using Cons.IH agg_push_fresh Cons.prems(2) by blast
qed (simp add: push_all_def ret_def)

lemma make_fresh: "make_sample_agg platio = (Inr s, p) \<Longrightarrow> agg_fresh s"
  unfolding make_sample_agg_def
  by (cases "fst (push_signal ''TIME'' GEOPM_DOMAIN_BOARD 0 platio)") (auto simp: agg_fresh_def agg_keys_ok_def sset_def split: prod.splits)

section \<open>Properties\<close>

text \<open>The state of a monotone signal after the first and further batches.\<close>

lemma total_history:
  assumes "agg_fresh s" "map_of (sg_sum_signal s) i = Some g"
    and "agg_rounds sq (p # ps) s = (Inr (), t)" "\<forall>q \<in> set (p # ps). steady sq q"
  shows "sg_is_updated t \<and> (\<exists>g'. map_of (sg_sum_signal t) i = Some g' \<and>
    sums.follows (hash_at sq p (as_region_hash_idx g)) (epoch_at sq p (as_epoch_count_idx g))
      (increases (value_at sq p i) (map (reading_of sq i g) ps)) g')"
proof -
  let ?s = "s\<lparr>sg_platform_io := p\<rparr>"
  obtain hi ei where g: "g = new_signal sum_ops hi ei" using assms(1,2) unfolding agg_fresh_def by blast
  obtain u where u: "agg_update sq ?s = (Inr (), u)" "agg_rounds sq ps u = (Inr (), t)"
    using assms(3) unfolding agg_rounds_def for_each.simps bind_returns by (auto simp: modify_def)
  have "steady sq (sg_platform_io ?s)" "agg_keys_ok ?s" using assms(1,4) by (simp_all add: agg_fresh_def agg_keys_ok_def)
  from agg_update_effect[OF u(1) this] obtain period where e: "agg_keys_ok u" "sg_is_updated u"
      "map_of (sg_sum_signal u) i = map_option (total_step sq p (sg_is_updated s) period (sg_period_last s) i) (map_of (sg_sum_signal s) i)"
    by auto
  let ?g = "first_update sum_ops (value_at sq p i) (hash_at sq p hi) (epoch_at sq p ei) g"
  have "map_of (sg_sum_signal u) i = Some ?g"
    using e(3) assms(1,2) by (simp add: total_step_def agg_fresh_def g Let_def) (simp add: new_signal_def)
  moreover have "sums.follows (hash_at sq p hi) (epoch_at sq p ei) [] ?g" unfolding g by (rule sums.follows_start)
  moreover have "reading_of sq i ?g = (reading_of sq i g :: 'a pio \<Rightarrow> _)" "as_last ?g = value_at sq p i"
      "as_region_hash_idx g = hi" "as_epoch_count_idx g = ei"
    by (simp_all add: fun_eq_iff reading_of_def first_update_keeps g) (simp_all add: new_signal_def)
  ultimately show ?thesis
    using total_rounds[OF u(2) _ e(1,2), of i ?g "hash_at sq p hi" "epoch_at sq p ei" "[]"] assms(4) by simp
qed

lemma average_history:
  assumes "agg_fresh s" "map_of (sg_avg_signal s) i = Some g"
    and "agg_rounds sq (p # ps) s = (Inr (), t)" "\<forall>q \<in> set (p # ps). steady sq q"
  shows "sg_is_updated t \<and> map_of (sg_sum_signal t) i = None \<and> (\<exists>g'. map_of (sg_avg_signal t) i = Some g' \<and>
    avgs.follows (hash_at sq p (as_region_hash_idx g)) (epoch_at sq p (as_epoch_count_idx g))
      (durations (Fin 0) (map (\<lambda>q. (value_at sq q (sg_time_idx s), reading_of sq i g q)) ps)) g')"
proof -
  let ?s = "s\<lparr>sg_platform_io := p\<rparr>"
  obtain hi ei where g: "g = new_signal avg_ops hi ei" using assms(1,2) unfolding agg_fresh_def by blast
  obtain u where u: "agg_update sq ?s = (Inr (), u)" "agg_rounds sq ps u = (Inr (), t)"
    using assms(3) unfolding agg_rounds_def for_each.simps bind_returns by (auto simp: modify_def)
  have "steady sq (sg_platform_io ?s)" "agg_keys_ok ?s" using assms(1,4) by (simp_all add: agg_fresh_def agg_keys_ok_def)
  from agg_update_effect[OF u(1) this] obtain period where e: "agg_keys_ok u" "sg_is_updated u" "sg_time_idx u = sg_time_idx s"
      "map_of (sg_avg_signal u) i = map_option (average_step sq p (sg_time_idx s) (sg_is_updated s) period (sg_period_last s) i) (map_of (sg_avg_signal s) i)"
      "map_of (sg_sum_signal u) i = None"
    using assms(1,2) by (auto simp: agg_fresh_def)
  let ?g = "first_update avg_ops (Fin 0) (hash_at sq p hi) (epoch_at sq p ei) g"
  have "map_of (sg_avg_signal u) i = Some ?g"
    using e(4) assms(1,2) by (simp add: average_step_def agg_fresh_def g Let_def) (simp add: new_signal_def)
  moreover have "avgs.follows (hash_at sq p hi) (epoch_at sq p ei) [] ?g" unfolding g by (rule avgs.follows_start)
  moreover have "reading_of sq i ?g = (reading_of sq i g :: 'a pio \<Rightarrow> _)" "as_last ?g = Fin 0"
      "as_region_hash_idx g = hi" "as_epoch_count_idx g = ei"
    by (simp_all add: fun_eq_iff reading_of_def first_update_keeps g) (simp_all add: new_signal_def)
  ultimately show ?thesis
    using average_rounds[OF u(2) _ e(1,2), of i ?g "hash_at sq p hi" "epoch_at sq p ei" "[]"] assms(4) e(3,5) by simp
qed

text \<open>Counts in doubles: sums of whole numbers are exact below \<open>2 ^ 53\<close>.\<close>

lemma sum_of_ints:
  assumes "\<forall>x \<in> set xs. 0 \<le> x" "sum_list xs < 2 ^ 53"
  shows "sum_of (map (\<lambda>x. Fin (of_int x)) xs) = Fin (of_int (sum_list xs))"
proof -
  have "foldl dadd (Fin (of_int a)) (map (\<lambda>x. Fin (of_int x)) xs) = Fin (of_int (a + sum_list xs))"
    if "0 \<le> a" "a + sum_list xs < 2 ^ 53" "\<forall>x \<in> set xs. 0 \<le> x" for a
    using that
  proof (induction xs arbitrary: a)
    case (Cons x xs)
    have "0 \<le> sum_list xs" using Cons.prems(3) by (auto intro!: sum_list_nonneg)
    then have "\<bar>a + x\<bar> < 2 ^ 53" using Cons.prems by simp
    from round64_of_int[OF this] have "dadd (Fin (of_int a)) (Fin (of_int x)) = Fin (of_int (a + x))" by simp
    then show ?case using Cons.IH[of "a + x"] Cons.prems by (simp add: add.assoc)
  qed simp
  from this[of 0] assms show ?thesis by (simp add: sum_of_def filter_True comp_def)
qed

text \<open>The increases of whole numbers, and the part of them that began with a hash.\<close>

fun int_spent :: "64 word \<Rightarrow> 64 word \<Rightarrow> int \<Rightarrow> (int \<times> 64 word \<times> int) list \<Rightarrow> int list" where
  "int_spent h now n [] = []"
| "int_spent h now n ((m, hash, e) # rs) = (if now = h then (m - n) # int_spent h hash m rs else int_spent h hash m rs)"

abbreviation reading_int :: "int \<times> 64 word \<times> int \<Rightarrow> reading" where
  "reading_int \<equiv> \<lambda>(m, hash, e). (Fin (of_int m), hash, e)"

lemma dsub_ints: "\<bar>m - n\<bar> < 2 ^ 53 \<Longrightarrow> dsub (Fin (of_int m)) (Fin (of_int n)) = Fin (of_int (m - n))"
  using round64_of_int[of "m - n"] by (simp add: dsub_def)

lemma spent_ints:
  assumes "sorted (n # map fst rs)" "\<forall>m \<in> set (map fst rs). m - n < 2 ^ 53"
  shows "spent h now (increases (Fin (of_int n)) (map reading_int rs)) = map (\<lambda>x. Fin (of_int x)) (int_spent h now n rs) \<and>
    (\<forall>x \<in> set (int_spent h now n rs). 0 \<le> x)"
  using assms
proof (induction rs arbitrary: now n)
  case (Cons r rs)
  obtain m hash e where r: "r = (m, hash, e)" by (cases r) auto
  have "\<forall>k \<in> set (map fst rs). k - m < 2 ^ 53" using Cons.prems r by fastforce
  then have "spent h hash (increases (Fin (of_int m)) (map reading_int rs)) = map (\<lambda>x. Fin (of_int x)) (int_spent h hash m rs) \<and>
    (\<forall>x \<in> set (int_spent h hash m rs). 0 \<le> x)" using Cons.IH[of m hash] Cons.prems r by simp
  moreover have "dsub (Fin (of_int m)) (Fin (of_int n)) = Fin (of_int (m - n))" "0 \<le> m - n"
    using Cons.prems r by (simp_all add: dsub_ints)
  ultimately show ?case by (auto simp: r)
qed simp

lemma all_ints:
  assumes "sorted (n # map fst rs)" "\<forall>m \<in> set (map fst rs). m - n < 2 ^ 53"
  shows "\<exists>ds. map fst (increases (Fin (of_int n)) (map reading_int rs)) = map (\<lambda>x. Fin (of_int x)) ds \<and>
    (\<forall>x \<in> set ds. 0 \<le> x) \<and> sum_list ds = last (n # map fst rs) - n"
  using assms
proof (induction rs arbitrary: n)
  case (Cons r rs)
  obtain m hash e where r: "r = (m, hash, e)" by (cases r) auto
  have "\<forall>k \<in> set (map fst rs). k - m < 2 ^ 53" using Cons.prems r by fastforce
  then obtain ds where "map fst (increases (Fin (of_int m)) (map reading_int rs)) = map (\<lambda>x. Fin (of_int x)) ds"
    "\<forall>x \<in> set ds. 0 \<le> x" "sum_list ds = last (m # map fst rs) - m" using Cons.IH[of m] Cons.prems r by auto
  moreover have "dsub (Fin (of_int m)) (Fin (of_int n)) = Fin (of_int (m - n))" "0 \<le> m - n"
    using Cons.prems r by (simp_all add: dsub_ints)
  ultimately show ?case by (intro exI[of _ "(m - n) # ds"]) (auto simp: r)
qed simp

lemma int_spent_total:
  assumes "distinct hs" "insert now ((\<lambda>(m, hash, e). hash) ` set rs) \<subseteq> set hs"
  shows "(\<Sum>h \<leftarrow> hs. sum_list (int_spent h now n rs)) = last (n # map fst rs) - n"
  using assms(2)
proof (induction rs arbitrary: now n)
  case Nil
  then show ?case by (induction hs) simp_all
next
  case (Cons r rs)
  obtain m hash e where r: "r = (m, hash, e)" by (cases r) auto
  have "(\<Sum>h \<leftarrow> hs. sum_list (int_spent h now n (r # rs))) = (\<Sum>h \<leftarrow> hs. (if h = now then m - n else 0) + sum_list (int_spent h hash m rs))"
    by (rule arg_cong[where f = sum_list], rule map_cong[OF refl]) (simp add: r)
  also have "\<dots> = (\<Sum>h \<leftarrow> hs. if h = now then m - n else 0) + (\<Sum>h \<leftarrow> hs. sum_list (int_spent h hash m rs))"
    by (rule sum_list_addf)
  also have "(\<Sum>h \<leftarrow> hs. if h = now then m - n else 0) = m - n"
    using assms(1) Cons.prems by (simp add: sum_list_distinct_conv_sum_set)
  also have "(\<Sum>h \<leftarrow> hs. sum_list (int_spent h hash m rs)) = last (m # map fst rs) - m"
    using Cons.IH[of hash m] Cons.prems r by auto
  finally show ?case by (simp add: r)
qed

lemma sum_list_mono_elem: "\<forall>x \<in> set xs. 0 \<le> f x \<Longrightarrow> h \<in> set xs \<Longrightarrow> f h \<le> (\<Sum>x \<leftarrow> xs. f x :: int)"
proof (induction xs)
  case (Cons x xs)
  then have "0 \<le> (\<Sum>x \<leftarrow> xs. f x)" by (auto intro!: sum_list_nonneg)
  with Cons show ?case by auto
qed simp

text \<open>
  C34: What a monotone signal is credited to. After any pushes and any sequence of batches, the object reports for a
  signal pushed as a total: for the application the sum of its increases from batch to batch; for a region the sum of
  the increases of the intervals at whose beginning that region was running; since the first epoch the increases
  after an epoch was first seen; for the last visit of a region, the increases from the batch that first
  showed it to the batch that first showed it gone; and for the last epoch, the increases between the last two
  batches at which the epoch count had changed. Batches in which the signal is not a number are passed over.
\<close>

theorem monotone_signal_totals:
  assumes "make_sample_agg platio = (Inr s0, platio')" "push_all requests s0 = (Inr is, s)"
    and "map_of (sg_sum_signal s) i = Some g"
    and "agg_rounds sq (p # ps) s = (Inr (), t)" "\<forall>q \<in> set (p # ps). steady sq q"
  defines "us \<equiv> increases (value_at sq p i) (map (reading_of sq i g) ps)"
    and "h0 \<equiv> hash_at sq p (as_region_hash_idx g)" and "e0 \<equiv> epoch_at sq p (as_epoch_count_idx g)"
  shows "sample_application t i = Inr (sum_of (map fst us)) \<and>
    (\<forall>h. h \<notin> {GEOPM_REGION_HASH_EPOCH, REGION_HASH_APP} \<longrightarrow> sample_region t i h = Inr (sum_of (spent h h0 us))) \<and>
    sample_epoch t i = Inr (sum_of (since_epoch e0 us)) \<and>
    (\<forall>h ds. h \<notin> {GEOPM_REGION_HASH_EPOCH, GEOPM_REGION_HASH_UNMARKED} \<and> last_visit h h0 us ds \<longrightarrow>
      sample_region_last t i h = Inr (sum_of ds)) \<and>
    (\<forall>ds. last_epoch e0 us ds \<longrightarrow> sample_epoch_last t i = Inr (sum_of ds))"
proof -
  have fresh: "agg_fresh s" using push_all_fresh[OF assms(2) make_fresh[OF assms(1)]] .
  obtain g' where g: "sg_is_updated t" "map_of (sg_sum_signal t) i = Some g'" "sums.follows h0 e0 us g'"
    using total_history[OF fresh assms(3-5)] unfolding us_def h0_def e0_def by blast
  have ops: "op_whole sum_ops = su_total" "op_interval sum_ops = su_last" by (simp_all add: sum_ops_def)
  have region: "sample_region_helper t i h False = Inr (sum_of (spent h h0 us))" for h
    using sums.follows_region[OF g(3), of h] g(2)
    by (simp add: sample_region_helper_def lookup_signal_def ops split: option.splits) (simp add: sum_of_def)
  have visit: "sample_region_helper t i h True = Inr (sum_of ds)" if "last_visit h h0 us ds" "h \<noteq> GEOPM_REGION_HASH_UNMARKED" for h ds
    using sums.follows_last_visit[OF g(3) that] g(2) by (auto simp: sample_region_helper_def lookup_signal_def ops)
  show ?thesis
    using g(1,2) region visit sums.follows_app[OF g(3)] sums.follows_epoch[OF g(3)] sums.follows_last_epoch[OF g(3)]
    by (simp add: sample_application_def sample_region_def sample_region_last_def sample_epoch_def sample_epoch_last_def
        sample_epoch_helper_def lookup_signal_def ops)
qed


text \<open>
  C38: Nothing is lost between the regions. For a counter that does not decrease (whole numbers below \<open>2 ^ 53\<close> in
  every batch), the total of the application is exactly what the counter grew by, and the totals of the
  regions are not negative and add up to it, over any list of regions that contains all that were seen.
\<close>

theorem region_totals_add_up:
  assumes "make_sample_agg platio = (Inr s0, platio')" "push_all requests s0 = (Inr is, s)"
    and "map_of (sg_sum_signal s) i = Some g"
    and "agg_rounds sq (p # ps) s = (Inr (), t)" "\<forall>q \<in> set (p # ps). steady sq q"
    and "map (\<lambda>q. value_at sq q i) (p # ps) = map (\<lambda>n. Fin (of_int n)) ns" "sorted ns" "\<forall>n \<in> set ns. 0 \<le> n \<and> n < 2 ^ 53"
    and "distinct hs" "(\<lambda>q. hash_at sq q (as_region_hash_idx g)) ` set (p # ps) \<subseteq> set hs"
    and "GEOPM_REGION_HASH_EPOCH \<notin> set hs" "REGION_HASH_APP \<notin> set hs"
  shows "sample_application t i = Inr (Fin (of_int (last ns - hd ns))) \<and>
    (\<exists>total. (\<forall>h \<in> set hs. sample_region t i h = Inr (Fin (of_int (total h))) \<and> 0 \<le> total h) \<and>
      (\<Sum>h \<leftarrow> hs. total h) = last ns - hd ns)"
proof -
  have fresh: "agg_fresh s" using push_all_fresh[OF assms(2) make_fresh[OF assms(1)]] .
  let ?hash = "\<lambda>q. hash_at sq q (as_region_hash_idx g)" and ?epoch = "\<lambda>q. epoch_at sq q (as_epoch_count_idx g)"
  obtain n ms where ns: "ns = n # ms" "value_at sq p i = Fin (of_int n)" "map (\<lambda>q. value_at sq q i) ps = map (\<lambda>n. Fin (of_int n)) ms"
    using assms(6) by (cases ns) auto
  have len: "length ps = length ms" using arg_cong[OF ns(3), of length] by simp
  let ?rs = "zip ms (map (\<lambda>q. (?hash q, ?epoch q)) ps)"
  have rs: "map (reading_of sq i g) ps = map reading_int ?rs"
  proof (rule nth_equalityI)
    fix k assume k: "k < length (map (reading_of sq i g) ps)"
    then have "value_at sq (ps ! k) i = Fin (of_int (ms ! k))" using arg_cong[OF ns(3), of "\<lambda>l. l ! k"] len by simp
    then show "map (reading_of sq i g) ps ! k = map reading_int ?rs ! k" using k len by (simp add: reading_of_def)
  qed (simp add: len)
  have fst_rs: "map fst ?rs = ms" using len by simp
  have srt: "sorted (n # map fst ?rs)" and less: "\<forall>m \<in> set (map fst ?rs). m - n < 2 ^ 53"
    using assms(7,8) ns(1) by (fastforce simp: fst_rs)+
  let ?us = "increases (Fin (of_int n)) (map reading_int ?rs)"
  obtain g' where g: "sg_is_updated t" "map_of (sg_sum_signal t) i = Some g'" "sums.follows (?hash p) (?epoch p) ?us g'"
    using total_history[OF fresh assms(3-5)] unfolding rs ns(2) by blast
  have ops: "op_whole sum_ops = su_total" by (simp add: sum_ops_def)
  have grown: "last ns - hd ns < 2 ^ 53" "last (n # map fst ?rs) - n = last ns - hd ns"
    using assms(8) ns(1) last_in_set[of ns] by (fastforce simp: fst_rs)+
  obtain ds where ds: "map fst ?us = map (\<lambda>x. Fin (of_int x)) ds" "\<forall>x \<in> set ds. 0 \<le> x" "sum_list ds = last ns - hd ns"
    using all_ints[OF srt less] grown(2) by auto
  have app: "sample_application t i = Inr (Fin (of_int (last ns - hd ns)))"
    using sums.follows_app[OF g(3)] g(1,2) sum_of_ints[OF ds(2)] ds(1,3) grown(1)
    by (simp add: sample_application_def lookup_signal_def ops)
  let ?total = "\<lambda>h. sum_list (int_spent h (?hash p) n ?rs)"
  note part = spent_ints[OF srt less, of _ "?hash p"]
  have nonneg: "0 \<le> ?total h" for h using part[of h] by (auto intro: sum_list_nonneg)
  have "insert (?hash p) ((\<lambda>(m, hash, e). hash) ` set ?rs) \<subseteq> set hs"
    using assms(10) by (auto simp: set_zip)
  then have sum: "(\<Sum>h \<leftarrow> hs. ?total h) = last ns - hd ns"
    using int_spent_total[OF assms(9), of "?hash p" ?rs n] grown(2) by simp
  have "sample_region t i h = Inr (Fin (of_int (?total h)))" if "h \<in> set hs" for h
  proof -
    have "?total h < 2 ^ 53" using sum_list_mono_elem[of hs ?total h] nonneg that sum grown(1) by simp
    then have "sum_of (spent h (?hash p) ?us) = Fin (of_int (?total h))" using part[of h] sum_of_ints by simp
    moreover have "h \<noteq> GEOPM_REGION_HASH_EPOCH" "h \<noteq> REGION_HASH_APP" using that assms(11,12) by auto
    ultimately show ?thesis
      using sums.follows_region[OF g(3), of h] g(1,2)
      by (simp add: sample_region_def sample_region_helper_def lookup_signal_def ops split: option.splits) (simp add: sum_of_def)
  qed
  then show ?thesis using app nonneg sum by (intro conjI exI[of _ ?total]) auto
qed

section \<open>A platform for the witnesses\<close>

text \<open>One IOGroup whose world is the table of the samples; every signal is one of the board.\<close>

definition table_group :: "(int \<Rightarrow> double) iogroup" where
  "table_group = \<lparr>io_name = ''TABLE'', io_is_valid_signal = (\<lambda>_. True), io_is_valid_control = (\<lambda>_. False),
     io_signal_names = [], io_control_names = [],
     io_signal_domain_type = (\<lambda>_. GEOPM_DOMAIN_BOARD), io_control_domain_type = (\<lambda>_. GEOPM_DOMAIN_INVALID),
     io_agg_function = (\<lambda>_. Inl invalid), io_signal_behavior = (\<lambda>n. if n = ''ENERGY'' then 1 else 2),
     io_push_signal = (\<lambda>n _ _. ret (if n = ''TIME'' then 0 else if n = ''REGION_HASH'' then 1 else if n = ''EPOCH_COUNT'' then 2 else 3)),
     io_push_control = (\<lambda>_ _ _. throw invalid),
     io_read_batch = ret (), io_write_batch = ret (),
     io_sample = (\<lambda>i. gets (\<lambda>w. w i)), io_adjust = (\<lambda>_ _. throw invalid),
     io_read_signal = (\<lambda>_ _ _. ret (Fin 0)), io_write_control = (\<lambda>_ _ _ _. throw invalid),
     io_save_control = ret (), io_restore_control = ret (),
     io_save_control_path = (\<lambda>_. ret ()), io_restore_control_path = (\<lambda>_. ret ())\<rparr>"

definition table_pio :: "(int \<Rightarrow> double) pio" where
  "table_pio = make_pio [table_group] demo_topo (\<lambda>_. NaN)"

lemma table_find: "find_signal_iogroup [table_group] n = [table_group]"
  by (simp add: find_signal_iogroup_def table_group_def)

lemma table_push:
  assumes "m_iogroup_list s = [table_group]" "m_platform_topo s = demo_topo" "\<not> m_is_signal_active s" "\<not> m_is_control_active s"
    and "m_existing_signal s (name, 0, 0) = None"
  shows "push_signal name 0 0 s = (Inr (int (length (m_active_signal s))),
    s\<lparr>m_existing_signal := (m_existing_signal s)((name, 0, 0) \<mapsto> int (length (m_active_signal s))),
      m_active_signal := m_active_signal s @ [(Some table_group,
        if name = ''TIME'' then 0 else if name = ''REGION_HASH'' then 1 else if name = ''EPOCH_COUNT'' then 2 else 3)],
      m_pushed_signal_names := List.insert name (m_pushed_signal_names s)\<rparr>)"
proof -
  have "check_domain demo_topo 0 0 = Inr ()" by code_simp
  moreover have "io_signal_domain_type table_group name = 0"
      "io_push_signal table_group name 0 0 = ret (if name = ''TIME'' then 0 else if name = ''REGION_HASH'' then 1 else if name = ''EPOCH_COUNT'' then 2 else 3)"
      "io_read_signal table_group name 0 0 = ret (Fin 0)"
    by (simp_all add: table_group_def)
  ultimately show ?thesis
    using assms by (simp add: push_signal_def push_signal_rec_unfold act_simps table_find push_signal_group_def push_signal_native_def bind_def try_catch_def)
qed

lemma table_agg:
  "\<exists>s0 p s. make_sample_agg table_pio = (Inr s0, p) \<and> push_all [(''ENERGY'', 0, 0), (''POWER'', 0, 0)] s0 = (Inr [1, 4], s) \<and>
     sg_sum_signal s = [(1, new_signal sum_ops 2 3)] \<and> sg_avg_signal s = [(4, new_signal avg_ops 2 3)] \<and>
     sg_time_idx s = 0 \<and> sg_period_duration s = Fin 0 \<and> \<not> sg_is_updated s \<and>
     m_active_signal (sg_platform_io s) = [(Some table_group, 0), (Some table_group, 3), (Some table_group, 1), (Some table_group, 2), (Some table_group, 3)]"
proof -
  have behavior: "signal_behavior [table_group] n = Inr (if n = ''ENERGY'' then 1 else 2)" for n
    by (simp add: signal_behavior_def table_find first_iogroup_def) (simp add: table_group_def)
  have pio: "on_pio m s = (case m (sg_platform_io s) of (r, p) \<Rightarrow> (r, s\<lparr>sg_platform_io := p\<rparr>))" for m :: "((int \<Rightarrow> double) pio, int) action" and s
    by (simp add: on_pio_def)
  define p0 where "p0 = table_pio"
  have p0: "m_iogroup_list p0 = [table_group]" "m_platform_topo p0 = demo_topo" "\<not> m_is_signal_active p0" "\<not> m_is_control_active p0"
      "m_existing_signal p0 = Map.empty" "m_active_signal p0 = []"
    by (simp_all add: p0_def table_pio_def make_pio_def)
  define add where "add name k p = p\<lparr>m_existing_signal := (m_existing_signal p)((name, 0 :: int, 0 :: int) \<mapsto> int (length (m_active_signal p))),
      m_active_signal := m_active_signal p @ [(Some table_group, k)], m_pushed_signal_names := List.insert name (m_pushed_signal_names p)\<rparr>"
    for name and k :: int and p :: "(int \<Rightarrow> double) pio"
  define p1 where "p1 = add ''TIME'' 0 p0"
  define p2 where "p2 = add ''ENERGY'' 3 p1"
  define p3 where "p3 = add ''REGION_HASH'' 1 p2"
  define p4 where "p4 = add ''EPOCH_COUNT'' 2 p3"
  define p5 where "p5 = add ''POWER'' 3 p4"
  note ps = p1_def p2_def p3_def p4_def p5_def add_def
  have push: "push_signal ''TIME'' 0 0 p0 = (Inr 0, p1)" "push_signal ''ENERGY'' 0 0 p1 = (Inr 1, p2)" "push_signal ''REGION_HASH'' 0 0 p2 = (Inr 2, p3)"
      "push_signal ''EPOCH_COUNT'' 0 0 p3 = (Inr 3, p4)" "push_signal ''POWER'' 0 0 p4 = (Inr 4, p5)"
    by (simp_all add: table_push p0 ps)
  have cd: "check_domain demo_topo 0 0 = Inr ()" by code_simp
  have again: "push_signal ''REGION_HASH'' 0 0 p5 = (Inr 2, p5)" "push_signal ''EPOCH_COUNT'' 0 0 p5 = (Inr 3, p5)"
    by (simp_all add: push_signal_def push_signal_rec_unfold act_simps bind_def cd p0 ps)
  let ?s0 = "\<lparr>sg_platform_io = p1, sg_time_idx = 0, sg_is_updated = False, sg_sum_signal = [], sg_avg_signal = [],
      sg_period_duration = Fin 0, sg_period_last = 0\<rparr>"
  let ?s1 = "?s0\<lparr>sg_platform_io := p4, sg_sum_signal := [(1, new_signal sum_ops 2 3)]\<rparr>"
  let ?s2 = "?s1\<lparr>sg_platform_io := p5, sg_avg_signal := [(4, new_signal avg_ops 2 3)]\<rparr>"
  have groups: "m_iogroup_list p1 = [table_group]" "m_iogroup_list p4 = [table_group]" by (simp_all add: p0 ps)
  have 0: "make_sample_agg table_pio = (Inr ?s0, p1)" using push(1) by (simp add: make_sample_agg_def p0_def)
  have 1: "agg_push_signal ''ENERGY'' 0 0 ?s0 = (Inr 1, ?s1)"
    by (simp add: agg_push_signal_def act_simps bind_def behavior groups push_signal_total_def pio push)
  have 2: "agg_push_signal ''POWER'' 0 0 ?s1 = (Inr 4, ?s2)"
    by (simp add: agg_push_signal_def act_simps bind_def behavior groups push_signal_average_def pio push again)
  have "push_all [(''ENERGY'', 0, 0), (''POWER'', 0, 0)] ?s0 = (Inr [1, 4], ?s2)"
    using 1 2 by (simp add: push_all_def bind_def ret_def)
  then show ?thesis
    using 0 by (intro exI[of _ ?s0] exI[of _ p1] exI[of _ ?s2]) (simp add: p0 ps)
qed

text \<open>A batch: the table of its samples (time, hash, epoch count, value).\<close>

definition table_batch :: "(int \<Rightarrow> double) pio \<Rightarrow> int \<times> int \<times> int \<times> int \<Rightarrow> (int \<Rightarrow> double) pio" where
  "table_batch p = (\<lambda>(time, hash, epoch, n). p\<lparr>m_is_signal_active := True,
     m_world := (\<lambda>i. Fin (of_int (if i = 0 then time else if i = 1 then hash else if i = 2 then epoch else n)))\<rparr>)"

lemma native_sample:
  assumes "m_is_signal_active p" "0 \<le> i" "nat i < length (m_active_signal p)" "m_active_signal p ! nat i = (Some g, k)"
  shows "sample sq i p = io (io_sample g k) p"
proof -
  have "\<not> int (length (m_active_signal p)) \<le> i" using assms(2,3) by linarith
  then show ?thesis using assms by (simp add: sample_def sample_rec.simps(2) act_simps num_signal_pushed_def)
qed

lemma table_sample:
  assumes "m_active_signal p = [(Some table_group, 0), (Some table_group, 3), (Some table_group, 1), (Some table_group, 2), (Some table_group, 3)]"
  shows "sample sq i (table_batch p (time, hash, epoch, n)) =
    (if i = 0 then Inr (Fin (of_int time)) else if i = 1 \<or> i = 4 then Inr (Fin (of_int n)) else if i = 2 then Inr (Fin (of_int hash))
     else if i = 3 then Inr (Fin (of_int epoch)) else Inl invalid, table_batch p (time, hash, epoch, n))"
proof -
  let ?q = "table_batch p (time, hash, epoch, n)"
  have io: "io (io_sample table_group k) ?q = (Inr (m_world ?q k), ?q)" for k
    by (simp add: io_def table_group_def table_batch_def gets_def)
  have q: "m_is_signal_active ?q" "m_active_signal ?q = m_active_signal p" "m_world ?q = (\<lambda>i. Fin (of_int (if i = 0 then time else if i = 1 then hash else if i = 2 then epoch else n)))"
    by (simp_all add: table_batch_def)
  consider "i < 0 \<or> i \<ge> 5" | "i = 0" | "i = 1" | "i = 2" | "i = 3" | "i = 4" by linarith
  then show ?thesis
  proof cases
    case 1
    then show ?thesis by (auto simp: sample_def sample_rec.simps(2) act_simps num_signal_pushed_def q assms)
  qed (simp_all add: native_sample q assms io)
qed

lemma table_steady:
  "m_active_signal p = [(Some table_group, 0), (Some table_group, 3), (Some table_group, 1), (Some table_group, 2), (Some table_group, 3)] \<Longrightarrow>
   steady sq (table_batch p b)"
  using table_sample by (cases b) (auto simp: steady_def)

text \<open>An update returns when every sample that it takes does and converts.\<close>

lemma agg_update_returns:
  assumes "sg_sum_signal s = [(1, g)]" "sg_avg_signal s = [(4, a)]" "sg_time_idx s = 0" "sg_period_duration s = Fin 0"
    and "as_region_hash_idx g = 2" "as_epoch_count_idx g = 3" "as_region_hash_idx a = 2" "as_epoch_count_idx a = 3"
    and "sg_platform_io s = table_batch p (time, hash, epoch, n)" "0 \<le> hash" "hash < 2 ^ 32" "0 \<le> epoch" "epoch < 2 ^ 16"
    and "m_active_signal p = [(Some table_group, 0), (Some table_group, 3), (Some table_group, 1), (Some table_group, 2), (Some table_group, 3)]"
  shows "\<exists>t g' a'. agg_update sq s = (Inr (), t) \<and> sg_sum_signal t = [(1, g')] \<and> sg_avg_signal t = [(4, a')] \<and> sg_time_idx t = 0 \<and>
    sg_period_duration t = Fin 0 \<and> as_region_hash_idx g' = 2 \<and> as_epoch_count_idx g' = 3 \<and> as_region_hash_idx a' = 2 \<and> as_epoch_count_idx a' = 3"
proof -
  have smp: "on_pio (sample sq i) u = (if i = 0 then Inr (Fin (of_int time)) else if i = 1 \<or> i = 4 then Inr (Fin (of_int n))
      else if i = 2 then Inr (Fin (of_int hash)) else if i = 3 then Inr (Fin (of_int epoch)) else Inl invalid, u)"
    if "sg_platform_io u = table_batch p (time, hash, epoch, n)" for u i
    using that table_sample[OF assms(14), of sq i] table_steady[OF assms(14)] on_pio_sample[of sq u i] by simp
  have conv: "sample_to_hash (Fin (of_int hash)) = Inr (word_of_int hash)" "int_of_d (Fin (of_int epoch)) = Inr epoch"
    using assms(10-13) by (simp_all add: sample_to_hash_def u64_of_d_def int_of_d_def rat_trunc_def)
  have period: "get_period sq u = (Inr 0, u)" if "sg_period_duration u = Fin 0" for u
    using that by (simp add: get_period_def act_simps deq_def)
  define g' where "g' = (let v = Fin (of_int n) in
      if \<not> sg_is_updated s then first_update sum_ops v (word_of_int hash) epoch g
      else next_update sum_ops (if \<not> isnan (as_last g) then dsub v (as_last g) else Fin 0) v (word_of_int hash) epoch 0 (sg_period_last s) g)"
  let ?u = "s\<lparr>sg_sum_signal := [(1, g')]\<rparr>"
  have 1: "update_total sq s = (Inr (), ?u)"
    using assms(1-9)
    by (simp add: update_total_def bind_def period act_simps(3) gets_def update_total_signal_def smp conv lift_def modify_def g'_def Let_def)
  define a' where "a' = (if \<not> sg_is_updated s then first_update avg_ops (Fin 0) (word_of_int hash) epoch a
      else next_update avg_ops (dsub (Fin (of_int time)) (as_last a), Fin (of_int n)) (Fin (of_int time)) (word_of_int hash) epoch 0 (sg_period_last s) a)"
  let ?v = "?u\<lparr>sg_avg_signal := [(4, a')]\<rparr>"
  have 2: "update_average sq ?u = (Inr (), ?v)"
    using assms(1-9)
    by (simp add: update_average_def bind_def period act_simps(3) gets_def update_average_signal_def smp conv lift_def modify_def a'_def Let_def)
  have "agg_update sq s = (Inr (), ?v\<lparr>sg_period_last := 0, sg_is_updated := True\<rparr>)"
    using assms(4) by (simp add: agg_update_def bind_def 1 2 period modify_def)
  then show ?thesis
    using assms by (simp add: g'_def a'_def Let_def first_update_keeps next_update_keeps)
qed

lemma table_rounds:
  assumes "sg_sum_signal s = [(1, g)]" "sg_avg_signal s = [(4, a)]" "sg_time_idx s = 0" "sg_period_duration s = Fin 0"
    and "as_region_hash_idx g = 2" "as_epoch_count_idx g = 3" "as_region_hash_idx a = 2" "as_epoch_count_idx a = 3"
    and "\<forall>(time, hash, epoch, n) \<in> set bs. 0 \<le> hash \<and> hash < 2 ^ 32 \<and> 0 \<le> epoch \<and> epoch < 2 ^ 16"
    and "m_active_signal p = [(Some table_group, 0), (Some table_group, 3), (Some table_group, 1), (Some table_group, 2), (Some table_group, 3)]"
  shows "\<exists>t. agg_rounds sq (map (table_batch p) bs) s = (Inr (), t)"
  using assms(1-9)
proof (induction bs arbitrary: s g a)
  case (Cons b bs)
  obtain time hash epoch n where b: "b = (time, hash, epoch, n)" by (cases b) auto
  let ?s = "s\<lparr>sg_platform_io := table_batch p b\<rparr>"
  obtain u g' a' where u: "agg_update sq ?s = (Inr (), u)" "sg_sum_signal u = [(1, g')]" "sg_avg_signal u = [(4, a')]" "sg_time_idx u = 0"
      "sg_period_duration u = Fin 0" "as_region_hash_idx g' = 2" "as_epoch_count_idx g' = 3" "as_region_hash_idx a' = 2" "as_epoch_count_idx a' = 3"
    using agg_update_returns[of ?s g a p time hash epoch n sq] Cons.prems assms(10) b by auto
  obtain t where "agg_rounds sq (map (table_batch p) bs) u = (Inr (), t)"
    using Cons.IH[OF u(2-9)] Cons.prems(9) by auto
  then show ?case using u(1) by (auto simp: agg_rounds_def bind_def modify_def)
qed (simp add: agg_rounds_def)

text \<open>
  The example: time 1, 2, 4, 5; region 5 in the first two batches and region 6 after that; the epoch count goes from 1
  to 2 in the third batch; the value grows from 10 to 13, 20 and 21.
\<close>

definition demo_batches :: "(int \<times> int \<times> int \<times> int) list" where
  "demo_batches = [(1, 5, 1, 10), (2, 5, 1, 13), (4, 6, 2, 20), (5, 6, 2, 21)]"

lemma demo_run:
  "\<exists>s0 p s t. make_sample_agg table_pio = (Inr s0, p) \<and> push_all [(''ENERGY'', 0, 0), (''POWER'', 0, 0)] s0 = (Inr [1, 4], s) \<and>
     map_of (sg_sum_signal s) 1 = Some (new_signal sum_ops 2 3) \<and> map_of (sg_avg_signal s) 4 = Some (new_signal avg_ops 2 3) \<and> sg_time_idx s = 0 \<and>
     agg_rounds id (map (table_batch (sg_platform_io s)) demo_batches) s = (Inr (), t) \<and>
     (\<forall>q \<in> set (map (table_batch (sg_platform_io s)) demo_batches). steady id q) \<and>
     (\<forall>b i. value_at id (table_batch (sg_platform_io s) b) i = (case b of (time, hash, epoch, n) \<Rightarrow>
        if i = 0 then Fin (of_int time) else if i = 1 \<or> i = 4 then Fin (of_int n) else if i = 2 then Fin (of_int hash)
        else if i = 3 then Fin (of_int epoch) else NaN))"
proof -
  obtain s0 p s where s: "make_sample_agg table_pio = (Inr s0, p)" "push_all [(''ENERGY'', 0, 0), (''POWER'', 0, 0)] s0 = (Inr [1, 4], s)"
      "sg_sum_signal s = [(1, new_signal sum_ops 2 3)]" "sg_avg_signal s = [(4, new_signal avg_ops 2 3)]"
      "sg_time_idx s = 0" "sg_period_duration s = Fin 0"
      "m_active_signal (sg_platform_io s) = [(Some table_group, 0), (Some table_group, 3), (Some table_group, 1), (Some table_group, 2), (Some table_group, 3)]"
    using table_agg by blast
  have "\<forall>(time, hash, epoch, n) \<in> set demo_batches. 0 \<le> hash \<and> hash < 2 ^ 32 \<and> 0 \<le> epoch \<and> epoch < 2 ^ 16"
    by (simp add: demo_batches_def)
  then obtain t where "agg_rounds id (map (table_batch (sg_platform_io s)) demo_batches) s = (Inr (), t)"
    using table_rounds[OF s(3-6) _ _ _ _ _ s(7), of demo_batches id] by (auto simp: new_signal_def)
  moreover have "value_at id (table_batch (sg_platform_io s) b) i = (case b of (time, hash, epoch, n) \<Rightarrow>
        if i = 0 then Fin (of_int time) else if i = 1 \<or> i = 4 then Fin (of_int n) else if i = 2 then Fin (of_int hash)
        else if i = 3 then Fin (of_int epoch) else NaN)" for b i
    using table_sample[OF s(7), of id i] by (cases b) (auto simp: value_at_def)
  moreover have "\<forall>q \<in> set (map (table_batch (sg_platform_io s)) demo_batches). steady id q" using table_steady[OF s(7)] by auto
  ultimately show ?thesis using s by (intro exI[of _ s0] exI[of _ p] exI[of _ s] exI[of _ t]) simp
qed

lemma demo_conversions:
  "sample_to_hash (Fin 5) = Inr 5" "sample_to_hash (Fin 6) = Inr 6" "int_of_d (Fin 1) = Inr 1" "int_of_d (Fin 2) = Inr 2"
  by (simp_all add: sample_to_hash_def u64_of_d_def int_of_d_def rat_trunc_def)

text \<open>The same with names for the four batches, and their samples.\<close>

definition demo_values :: "'w pio \<times> 'w pio \<times> 'w pio \<times> 'w pio \<Rightarrow> bool" where
  "demo_values = (\<lambda>(q1, q2, q3, q4).
     map (\<lambda>q. value_at id q 0) [q1, q2, q3, q4] = [Fin 1, Fin 2, Fin 4, Fin 5] \<and>
     map (\<lambda>q. value_at id q 1) [q1, q2, q3, q4] = [Fin 10, Fin 13, Fin 20, Fin 21] \<and>
     map (\<lambda>q. value_at id q 4) [q1, q2, q3, q4] = [Fin 10, Fin 13, Fin 20, Fin 21] \<and>
     map (\<lambda>q. hash_at id q 2) [q1, q2, q3, q4] = [5, 5, 6, 6] \<and>
     map (\<lambda>q. epoch_at id q 3) [q1, q2, q3, q4] = [1, 1, 2, 2])"

lemma demo_opaque:
  "\<exists>s0 p s t q1 q2 q3 q4. make_sample_agg table_pio = (Inr s0, p) \<and> push_all [(''ENERGY'', 0, 0), (''POWER'', 0, 0)] s0 = (Inr [1, 4], s) \<and>
     map_of (sg_sum_signal s) 1 = Some (new_signal sum_ops 2 3) \<and> map_of (sg_avg_signal s) 4 = Some (new_signal avg_ops 2 3) \<and>
     map (table_batch (sg_platform_io s)) demo_batches = [q1, q2, q3, q4] \<and> agg_rounds id [q1, q2, q3, q4] s = (Inr (), t) \<and>
     (\<forall>q \<in> set [q1, q2, q3, q4]. steady id q) \<and> sg_time_idx s = 0 \<and> demo_values (q1, q2, q3, q4)"
proof -
  obtain s0 p s t where r: "make_sample_agg table_pio = (Inr s0, p)" "push_all [(''ENERGY'', 0, 0), (''POWER'', 0, 0)] s0 = (Inr [1, 4], s)"
      "map_of (sg_sum_signal s) 1 = Some (new_signal sum_ops 2 3)" "map_of (sg_avg_signal s) 4 = Some (new_signal avg_ops 2 3)" "sg_time_idx s = 0"
      "agg_rounds id (map (table_batch (sg_platform_io s)) demo_batches) s = (Inr (), t)"
      "\<forall>q \<in> set (map (table_batch (sg_platform_io s)) demo_batches). steady id q"
    and v: "\<And>b i. value_at id (table_batch (sg_platform_io s) b) i = (case b of (time, hash, epoch, n) \<Rightarrow>
        if i = 0 then Fin (of_int time) else if i = 1 \<or> i = 4 then Fin (of_int n) else if i = 2 then Fin (of_int hash)
        else if i = 3 then Fin (of_int epoch) else NaN)"
    using demo_run by blast
  define q1 q2 q3 q4 where q: "q1 = table_batch (sg_platform_io s) (1, 5, 1, 10)" "q2 = table_batch (sg_platform_io s) (2, 5, 1, 13)"
      "q3 = table_batch (sg_platform_io s) (4, 6, 2, 20)" "q4 = table_batch (sg_platform_io s) (5, 6, 2, 21)"
  have all: "map (table_batch (sg_platform_io s)) demo_batches = [q1, q2, q3, q4]" by (simp only: demo_batches_def list.map q)
  have "demo_values (q1, q2, q3, q4)" by (simp add: demo_values_def q v hash_at_def epoch_at_def demo_conversions)
  then show ?thesis using r(1-5) all r(6,7)[unfolded all] by (intro exI conjI) assumption+
qed

theorem monotone_signal_totals_witness:
  "\<exists>s t. agg_rounds id (map (table_batch (sg_platform_io s)) demo_batches) s = (Inr (), t) \<and>
     sample_application t 1 = Inr (sum_of [dsub (Fin 13) (Fin 10), dsub (Fin 20) (Fin 13), dsub (Fin 21) (Fin 20)]) \<and>
     sample_region t 1 5 = Inr (sum_of [dsub (Fin 13) (Fin 10), dsub (Fin 20) (Fin 13)]) \<and>
     sample_region t 1 6 = Inr (sum_of [dsub (Fin 21) (Fin 20)]) \<and> sample_region t 1 7 = Inr (sum_of []) \<and>
     sample_region_last t 1 5 = Inr (sum_of [dsub (Fin 13) (Fin 10), dsub (Fin 20) (Fin 13)]) \<and>
     sample_epoch_last t 1 = Inr (sum_of [dsub (Fin 13) (Fin 10), dsub (Fin 20) (Fin 13)])"
proof -
  obtain s0 p s t q1 q2 q3 q4 where r: "make_sample_agg table_pio = (Inr s0, p)" "push_all [(''ENERGY'', 0, 0), (''POWER'', 0, 0)] s0 = (Inr [1, 4], s)"
      "map_of (sg_sum_signal s) 1 = Some (new_signal sum_ops 2 3)" "map_of (sg_avg_signal s) 4 = Some (new_signal avg_ops 2 3)"
      "map (table_batch (sg_platform_io s)) demo_batches = [q1, q2, q3, q4]" "agg_rounds id [q1, q2, q3, q4] s = (Inr (), t)"
      "\<forall>q \<in> set [q1, q2, q3, q4]. steady id q" "sg_time_idx s = 0"
    and v: "demo_values (q1, q2, q3, q4)"
    using demo_opaque by (elim exE conjE) (rule that)
  let ?us = "[(dsub (Fin 13) (Fin 10), 5 :: 64 word, 1 :: int), (dsub (Fin 20) (Fin 13), 6, 2), (dsub (Fin 21) (Fin 20), 6, 2)]"
  have us: "increases (value_at id q1 1) (map (reading_of id 1 (new_signal sum_ops 2 3)) [q2, q3, q4]) = ?us"
    "hash_at id q1 (as_region_hash_idx (new_signal sum_ops 2 3)) = 5" "epoch_at id q1 (as_epoch_count_idx (new_signal sum_ops 2 3)) = 1"
    using v by (simp_all add: demo_values_def reading_of_def new_signal_def)
  note all = monotone_signal_totals[OF r(1-3,6,7), unfolded us]
  have "last_visit 5 5 ?us [dsub (Fin 13) (Fin 10), dsub (Fin 20) (Fin 13)]"
    unfolding last_visit_def
    by (rule exI[of _ "[]"], rule exI[of _ "take 1 ?us"], rule exI[of _ "dsub (Fin 20) (Fin 13)"], rule exI[of _ 6], rule exI[of _ 2],
        rule exI[of _ "drop 2 ?us"], rule exI[of _ "[]"]) simp
  moreover have "last_epoch 1 ?us [dsub (Fin 13) (Fin 10), dsub (Fin 20) (Fin 13)]"
    unfolding last_epoch_def
    by (rule exI[of _ "[]"], rule exI[of _ "take 1 ?us"], rule exI[of _ "dsub (Fin 20) (Fin 13)"], rule exI[of _ 6], rule exI[of _ 2],
        rule exI[of _ "drop 2 ?us"]) simp
  ultimately have "sample_region_last t 1 5 = Inr (sum_of [dsub (Fin 13) (Fin 10), dsub (Fin 20) (Fin 13)])"
      "sample_epoch_last t 1 = Inr (sum_of [dsub (Fin 13) (Fin 10), dsub (Fin 20) (Fin 13)])"
    using all by simp_all
  moreover have "sample_region t 1 h = Inr (sum_of (spent h 5 ?us))" if "h \<in> {5, 6, 7}" for h using all that by auto
  ultimately show ?thesis using all r(5,6) by (intro exI[of _ s] exI[of _ t]) simp
qed


theorem region_totals_add_up_witness:
  "\<exists>s t. agg_rounds id (map (table_batch (sg_platform_io s)) demo_batches) s = (Inr (), t) \<and>
     sample_application t 1 = Inr (Fin 11) \<and>
     (\<exists>total. (\<forall>h \<in> {5, 6}. sample_region t 1 h = Inr (Fin (of_int (total h))) \<and> 0 \<le> total h) \<and> total 5 + total 6 = 11)"
proof -
  obtain s0 p s t q1 q2 q3 q4 where r: "make_sample_agg table_pio = (Inr s0, p)" "push_all [(''ENERGY'', 0, 0), (''POWER'', 0, 0)] s0 = (Inr [1, 4], s)"
      "map_of (sg_sum_signal s) 1 = Some (new_signal sum_ops 2 3)" "map_of (sg_avg_signal s) 4 = Some (new_signal avg_ops 2 3)"
      "map (table_batch (sg_platform_io s)) demo_batches = [q1, q2, q3, q4]" "agg_rounds id [q1, q2, q3, q4] s = (Inr (), t)"
      "\<forall>q \<in> set [q1, q2, q3, q4]. steady id q" "sg_time_idx s = 0"
    and v: "demo_values (q1, q2, q3, q4)"
    using demo_opaque by (elim exE conjE) (rule that)
  have vals: "map (\<lambda>q. value_at id q 1) [q1, q2, q3, q4] = map (\<lambda>n. Fin (of_int n)) [10, 13, 20, 21]"
    using v by (simp add: demo_values_def)
  have hashes: "(\<lambda>q. hash_at id q (as_region_hash_idx (new_signal sum_ops 2 3))) ` set [q1, q2, q3, q4] \<subseteq> set [5, 6]"
    using v by (simp add: demo_values_def new_signal_def)
  have side: "sorted [10, 13, 20, 21 :: int]" "\<forall>n \<in> set [10, 13, 20, 21 :: int]. 0 \<le> n \<and> n < 2 ^ 53" "distinct [5, 6 :: 64 word]"
      "GEOPM_REGION_HASH_EPOCH \<notin> set [5, 6]" "REGION_HASH_APP \<notin> set [5, 6]"
    by simp_all
  from region_totals_add_up[OF r(1-3,6,7) vals side(1-3) hashes side(4,5)] show ?thesis
    using r(5,6) by (intro exI[of _ s] exI[of _ t]) simp
qed

end
