(* ===== verification/Power_Balancer.thy ===== *)
theory Power_Balancer
  imports Circular_Buffer Aggregation Application_Records
begin

text \<open>
  \<^verbatim>\<open>PowerBalancerImp\<close> (libgeopm/src/PowerBalancer.cpp), the part of the power balancer that looks after
  one package. It holds the cap that the package was given, lowers the limit step by step below the cap until the
  run time of an epoch reaches a target, and reports how much power that saved. Run times are noisy, so
  it works with the median of a window of measurements.

  The clock is an argument: \<open>now\<close> is what \<^verbatim>\<open>geopm_time()\<close> returns in the call. The results are \<^verbatim>\<open>double\<close>s
  with one rounding for each operation (theory \<open>Binary64\<close>).
\<close>

section \<open>State and operations\<close>

record power_balancer =
  pb_control_latency :: double
  pb_min_trial_delta :: double
  pb_min_num_sample :: int
  pb_min_duration :: double
  pb_runtime_fraction :: double
  pb_num_sample :: int
  pb_power_cap :: double
  pb_power_limit :: double
  pb_power_limit_change_time :: geopm_time_s
  pb_target_runtime :: double
  pb_trial_delta :: double
  pb_runtime_sample :: double
  pb_is_target_met :: bool
  pb_runtime_buffer :: "double circular_buffer"
  pb_runtime_vec :: "double list"

definition power_balancer_new :: "double \<Rightarrow> double \<Rightarrow> int \<Rightarrow> double \<Rightarrow> power_balancer" where
  "power_balancer_new ctl_latency trial_delta num_sample measure_duration =
     \<lparr>pb_control_latency = ctl_latency, pb_min_trial_delta = trial_delta, pb_min_num_sample = num_sample,
      pb_min_duration = measure_duration, pb_runtime_fraction = round64 (2 / 100), pb_num_sample = 0,
      pb_power_cap = NaN, pb_power_limit = NaN, pb_power_limit_change_time = \<lparr>tv_sec = 0, tv_nsec = 0\<rparr>,
      pb_target_runtime = NaN, pb_trial_delta = Fin 8, pb_runtime_sample = NaN, pb_is_target_met = False,
      pb_runtime_buffer = cb_make (Fin 0) 0, pb_runtime_vec = []\<rparr>"

definition make_power_balancer :: "double \<Rightarrow> power_balancer" where
  "make_power_balancer ctl_latency = power_balancer_new ctl_latency (Fin (1 / 8)) 9 (Fin (1 / 4))"

definition set_power_cap :: "double \<Rightarrow> power_balancer \<Rightarrow> power_balancer" where
  "set_power_cap cap b =
     b\<lparr>pb_power_limit := cap, pb_power_cap := cap, pb_runtime_buffer := cb_clear (pb_runtime_buffer b), pb_target_runtime := NaN\<rparr>"

definition power_limit_adjusted :: "geopm_time_s \<Rightarrow> double \<Rightarrow> power_balancer \<Rightarrow> power_balancer" where
  "power_limit_adjusted now actual_limit b =
     (let b1 = (if dlt (pb_power_limit b) actual_limit then b\<lparr>pb_is_target_met := True\<rparr> else b)
      in if \<not> deq (pb_power_limit b1) actual_limit
         then b1\<lparr>pb_power_limit_change_time := now, pb_power_limit := actual_limit, pb_runtime_buffer := cb_clear (pb_runtime_buffer b1)\<rparr>
         else b1)"

definition is_limit_stable :: "geopm_time_s \<Rightarrow> power_balancer \<Rightarrow> bool" where
  "is_limit_stable now b \<longleftrightarrow> dlt (pb_control_latency b) (geopm_time_diff (pb_power_limit_change_time b) now)"

definition calculate_runtime_sample :: "power_balancer \<Rightarrow> power_balancer" where
  "calculate_runtime_sample b =
     b\<lparr>pb_runtime_sample := (if cb_size (pb_runtime_buffer b) \<noteq> 0 then agg_median (cb_make_vector (Fin 0) (pb_runtime_buffer b))
                            else agg_median (pb_runtime_vec b))\<rparr>"

text \<open>The calls on the buffer, which may throw.\<close>

definition on_buffer :: "(double circular_buffer \<Rightarrow> double circular_buffer result) \<Rightarrow> (power_balancer, unit) action" where
  "on_buffer f =
     bind (gets (\<lambda>b. f (pb_runtime_buffer b))) (\<lambda>res.
     bind (lift res) (\<lambda>buffer.
     modify (\<lambda>b. b\<lparr>pb_runtime_buffer := buffer\<rparr>)))"

text \<open>The measurements are kept in \<^verbatim>\<open>m_runtime_vec\<close> until enough time has passed to size the buffer.\<close>

definition fill_buffer :: "(power_balancer, bool) action" where
  "fill_buffer =
     bind (modify (\<lambda>b. b\<lparr>pb_num_sample := int (length (pb_runtime_vec b))\<rparr>)) (\<lambda>_.
     bind (gets (\<lambda>b. pb_num_sample b < pb_min_num_sample b)) (\<lambda>is_short.
     bind (modify (\<lambda>b. if is_short then b\<lparr>pb_num_sample := pb_min_num_sample b\<rparr> else b)) (\<lambda>_.
     bind (gets (\<lambda>b. nat (pb_num_sample b))) (\<lambda>num_sample.
     bind (on_buffer (cb_set_capacity (Fin 0) num_sample)) (\<lambda>_.
     bind (gets pb_runtime_vec) (\<lambda>runtime_vec.
     bind (for_each (\<lambda>it. on_buffer (cb_insert it)) runtime_vec) (\<lambda>_.
     bind (modify (\<lambda>b. b\<lparr>pb_runtime_vec := []\<rparr>)) (\<lambda>_.
     ret (\<not> is_short)))))))))"

definition collect_runtime :: "double \<Rightarrow> (power_balancer, bool) action" where
  "collect_runtime measured_runtime =
     bind (modify (\<lambda>b. b\<lparr>pb_runtime_vec := pb_runtime_vec b @ [measured_runtime]\<rparr>)) (\<lambda>_.
     bind (gets (\<lambda>b. dlt (pb_min_duration b) (agg_sum (pb_runtime_vec b)))) (\<lambda>is_enough.
     if is_enough then fill_buffer else ret False))"

definition is_runtime_stable :: "geopm_time_s \<Rightarrow> double \<Rightarrow> (power_balancer, bool) action" where
  "is_runtime_stable now measured_runtime =
     bind (gets (is_limit_stable now)) (\<lambda>stable.
     if \<not> stable \<or> isnan measured_runtime then ret False
     else
       bind (gets (\<lambda>b. cb_size (pb_runtime_buffer b) = 0)) (\<lambda>is_empty.
       bind (if is_empty then collect_runtime measured_runtime
             else bind (on_buffer (cb_insert measured_runtime)) (\<lambda>_.
                  gets (\<lambda>b. cb_size (pb_runtime_buffer b) = cb_capacity (pb_runtime_buffer b)))) (\<lambda>result.
       bind (modify calculate_runtime_sample) (\<lambda>_.
       ret result))))"

definition target_runtime :: "double \<Rightarrow> power_balancer \<Rightarrow> power_balancer" where
  "target_runtime largest_runtime b =
     (let target = dmul largest_runtime (dsub (Fin 1) (pb_runtime_fraction b))
      in b\<lparr>pb_target_runtime := target, pb_is_target_met := dlt target (pb_runtime_sample b)\<rparr>)"

text \<open>The decision of \<^verbatim>\<open>is_target_met()\<close> once the run time is stable.\<close>

definition next_trial :: "power_balancer \<Rightarrow> power_balancer" where
  "next_trial b =
     (if dlt (pb_target_runtime b) (pb_runtime_sample b)
      then let b1 = (if dlt (pb_power_limit b) (pb_power_cap b)
                     then let raised = dadd (pb_power_limit b) (pb_trial_delta b)
                          in b\<lparr>pb_power_limit := (if dlt (pb_power_cap b) raised then pb_power_cap b else raised)\<rparr>
                     else b)
           in b1\<lparr>pb_is_target_met := True\<rparr>
      else b\<lparr>pb_power_limit := dsub (pb_power_limit b) (pb_trial_delta b), pb_runtime_buffer := cb_clear (pb_runtime_buffer b)\<rparr>)"

definition is_target_met :: "geopm_time_s \<Rightarrow> double \<Rightarrow> (power_balancer, bool) action" where
  "is_target_met now measured_runtime =
     bind (gets pb_is_target_met) (\<lambda>met.
     bind (if \<not> met then is_runtime_stable now measured_runtime else ret False) (\<lambda>stable.
     bind (modify (\<lambda>b. if stable then next_trial b else b)) (\<lambda>_.
     gets pb_is_target_met)))"

definition power_slack :: "power_balancer \<Rightarrow> double \<times> power_balancer" where
  "power_slack b =
     (let result = dsub (pb_power_cap b) (pb_power_limit b)
      in (result,
          if deq result (Fin 0)
          then let half = ddiv (pb_trial_delta b) (Fin 2)
               in b\<lparr>pb_trial_delta := (if dlt half (pb_min_trial_delta b) then pb_min_trial_delta b else half)\<rparr>
          else b))"

section \<open>No operation throws\<close>

lemma on_buffer_eq:
  "on_buffer f b = (case f (pb_runtime_buffer b) of Inl e \<Rightarrow> (Inl e, b) | Inr buffer \<Rightarrow> (Inr (), b\<lparr>pb_runtime_buffer := buffer\<rparr>))"
  by (simp add: on_buffer_def act_simps split: sum.splits)

lemma insert_all_room:
  assumes "cb_inv (pb_runtime_buffer b)" "m_count (pb_runtime_buffer b) + length rs \<le> m_max_size (pb_runtime_buffer b)"
  shows "\<exists>buffer. for_each (\<lambda>it. on_buffer (cb_insert it)) rs b = (Inr (), b\<lparr>pb_runtime_buffer := buffer\<rparr>) \<and> cb_inv buffer \<and>
    m_max_size buffer = m_max_size (pb_runtime_buffer b) \<and> cb_list buffer = cb_list (pb_runtime_buffer b) @ rs"
  using assms
proof (induction rs arbitrary: b)
  case Nil
  then show ?case by (intro exI[of _ "pb_runtime_buffer b"]) simp
next
  case (Cons r rs)
  then obtain buf where buf: "cb_insert r (pb_runtime_buffer b) = Inr buf" "cb_inv buf"
      "m_max_size buf = m_max_size (pb_runtime_buffer b)" "m_count buf = Suc (m_count (pb_runtime_buffer b))"
      "cb_list buf = cb_list (pb_runtime_buffer b) @ [r]"
    using cb_insert_room[of "pb_runtime_buffer b" r] by auto
  let ?b = "b\<lparr>pb_runtime_buffer := buf\<rparr>"
  obtain buffer where "for_each (\<lambda>it. on_buffer (cb_insert it)) rs ?b = (Inr (), ?b\<lparr>pb_runtime_buffer := buffer\<rparr>)" "cb_inv buffer"
      "m_max_size buffer = m_max_size buf" "cb_list buffer = cb_list buf @ rs"
    using Cons.IH[of ?b] Cons.prems buf by auto
  moreover have "on_buffer (cb_insert r) b = (Inr (), ?b)" using buf(1) by (simp add: on_buffer_eq)
  ultimately show ?case using buf by (intro exI[of _ buffer]) (simp add: bind_def)
qed

lemma empty_set_capacity:
  assumes "cb_inv buf" "cb_size buf = 0"
  shows "\<exists>buf'. cb_set_capacity (Fin 0) n buf = Inr buf' \<and> cb_inv buf' \<and> m_max_size buf' = n \<and> m_count buf' = 0 \<and> cb_list buf' = []"
proof -
  have "m_head buf = 0" "m_count buf = 0" using assms by (auto simp: cb_inv_def cb_size_def)
  moreover from this have "cb_list buf = []" by (simp add: cb_list_def)
  ultimately show ?thesis using cb_set_capacity_grow[OF assms(1), of n "Fin 0"] by (metis le0 length_cb_list list.size(3))
qed

text \<open>The measurements move into a buffer that is large enough for them.\<close>

lemma fill_buffer_effect:
  assumes "cb_inv (pb_runtime_buffer b)" "cb_size (pb_runtime_buffer b) = 0"
  defines "n \<equiv> max (nat (pb_min_num_sample b)) (length (pb_runtime_vec b))"
  shows "\<exists>buffer. fill_buffer b = (Inr (int (length (pb_runtime_vec b)) \<ge> pb_min_num_sample b),
      b\<lparr>pb_num_sample := int n, pb_runtime_buffer := buffer, pb_runtime_vec := []\<rparr>) \<and>
    cb_inv buffer \<and> m_max_size buffer = n \<and> cb_list buffer = pb_runtime_vec b"
proof -
  define b1 where "b1 = b\<lparr>pb_num_sample := int n\<rparr>"
  obtain buf where buf: "cb_set_capacity (Fin 0) n (pb_runtime_buffer b) = Inr buf" "cb_inv buf" "m_max_size buf = n" "m_count buf = 0" "cb_list buf = []"
    using empty_set_capacity[OF assms(1,2)] by blast
  let ?b = "b1\<lparr>pb_runtime_buffer := buf\<rparr>"
  obtain buffer where b: "for_each (\<lambda>it. on_buffer (cb_insert it)) (pb_runtime_vec b) ?b = (Inr (), ?b\<lparr>pb_runtime_buffer := buffer\<rparr>)"
      "cb_inv buffer" "m_max_size buffer = n" "cb_list buffer = pb_runtime_vec b"
    using insert_all_room[of ?b "pb_runtime_vec b"] buf by (auto simp: n_def)
  have cap: "on_buffer (cb_set_capacity (Fin 0) n) b1 = (Inr (), ?b)" using buf(1) by (simp add: on_buffer_eq b1_def)
  have steps: "bind (on_buffer (cb_set_capacity (Fin 0) n)) f b1 = f () ?b"
      "bind (for_each (\<lambda>it. on_buffer (cb_insert it)) (pb_runtime_vec b)) f ?b = f () (?b\<lparr>pb_runtime_buffer := buffer\<rparr>)"
    for f :: "unit \<Rightarrow> (power_balancer, 'c) action"
    using cap b(1) by (simp_all add: bind_def)
  have vec: "pb_runtime_vec ?b = pb_runtime_vec b" "nat (pb_num_sample b1) = n" "pb_num_sample b1 = int n"
      "pb_min_num_sample b1 = pb_min_num_sample b" by (simp_all add: b1_def)
  have "fill_buffer b = (Inr (\<not> int (length (pb_runtime_vec b)) < pb_min_num_sample b), b1\<lparr>pb_runtime_buffer := buffer, pb_runtime_vec := []\<rparr>)"
  proof (cases "int (length (pb_runtime_vec b)) < pb_min_num_sample b")
    case True
    then have "nat (pb_min_num_sample b) = n" "b\<lparr>pb_num_sample := pb_min_num_sample b\<rparr> = b1" by (auto simp: b1_def n_def)
    with True show ?thesis by (simp add: fill_buffer_def bind_act_simps ret_def vec steps modify_def)
  next
    case False
    then have "length (pb_runtime_vec b) = n" "b\<lparr>pb_num_sample := int (length (pb_runtime_vec b))\<rparr> = b1" by (auto simp: b1_def n_def)
    with False show ?thesis by (simp add: fill_buffer_def bind_act_simps ret_def vec steps modify_def)
  qed
  then show ?thesis using b by (auto simp: b1_def not_less)
qed

section \<open>The window of measurements\<close>

text \<open>
  The specification: the first number of measurements that take longer than the minimal duration, at least the
  minimal number of samples, is the length of the window; until then all measurements count.
\<close>

definition enough_runtime :: "double \<Rightarrow> double list \<Rightarrow> nat option" where
  "enough_runtime duration rs = find (\<lambda>k. dlt duration (agg_sum (take k rs))) [1..<Suc (length rs)]"

definition runtime_window :: "double \<Rightarrow> nat \<Rightarrow> double list \<Rightarrow> double list" where
  "runtime_window duration min_num rs =
     (case enough_runtime duration rs of None \<Rightarrow> rs | Some k \<Rightarrow> drop (length rs - max min_num k) rs)"

definition window_full :: "double \<Rightarrow> nat \<Rightarrow> double list \<Rightarrow> bool" where
  "window_full duration min_num rs \<longleftrightarrow>
     (case enough_runtime duration rs of None \<Rightarrow> False | Some k \<Rightarrow> max min_num k \<le> length rs)"

lemma find_append: "find P (xs @ ys) = (case find P xs of None \<Rightarrow> find P ys | Some x \<Rightarrow> Some x)"
  by (induction xs) auto

lemma enough_snoc:
  "enough_runtime d (rs @ [r]) = (case enough_runtime d rs of Some k \<Rightarrow> Some k
     | None \<Rightarrow> if dlt d (agg_sum (rs @ [r])) then Some (Suc (length rs)) else None)"
proof -
  have "find (\<lambda>k. dlt d (agg_sum (take k (rs @ [r])))) [1..<Suc (length rs)] = enough_runtime d rs"
    unfolding enough_runtime_def by (rule find_cong) auto
  moreover have "[1..<Suc (length (rs @ [r]))] = [1..<Suc (length rs)] @ [Suc (length rs)]" by simp
  ultimately show ?thesis unfolding enough_runtime_def by (simp add: find_append del: upt_Suc split: option.splits)
qed

lemma enough_bounds: "enough_runtime d rs = Some k \<Longrightarrow> 1 \<le> k \<and> k \<le> length rs"
proof -
  assume "enough_runtime d rs = Some k"
  then have "k \<in> set [1..<Suc (length rs)]" unfolding enough_runtime_def find_Some_iff by (metis nth_mem)
  then show ?thesis by auto
qed

text \<open>What the object holds after the measurements \<open>rs\<close> since it was last empty.\<close>

definition window_holds :: "double list \<Rightarrow> power_balancer \<Rightarrow> bool" where
  "window_holds rs b \<longleftrightarrow> cb_inv (pb_runtime_buffer b) \<and>
     (case enough_runtime (pb_min_duration b) rs of
        None \<Rightarrow> cb_size (pb_runtime_buffer b) = 0 \<and> pb_runtime_vec b = rs
      | Some k \<Rightarrow> pb_runtime_vec b = [] \<and> m_max_size (pb_runtime_buffer b) = max (nat (pb_min_num_sample b)) k \<and>
          cb_list (pb_runtime_buffer b) = drop (length rs - max (nat (pb_min_num_sample b)) k) rs)"

definition same_settings :: "power_balancer \<Rightarrow> power_balancer \<Rightarrow> bool" where
  "same_settings b c \<longleftrightarrow> pb_min_duration c = pb_min_duration b \<and> pb_min_num_sample c = pb_min_num_sample b \<and>
     pb_control_latency c = pb_control_latency b \<and> pb_power_limit_change_time c = pb_power_limit_change_time b \<and>
     pb_power_limit c = pb_power_limit b \<and> pb_power_cap c = pb_power_cap b \<and> pb_trial_delta c = pb_trial_delta b \<and>
     pb_is_target_met c = pb_is_target_met b \<and> pb_target_runtime c = pb_target_runtime b \<and> pb_min_trial_delta c = pb_min_trial_delta b"

lemma holds_median:
  "window_holds rs b \<Longrightarrow> pb_runtime_sample (calculate_runtime_sample b) = agg_median (runtime_window (pb_min_duration b) (nat (pb_min_num_sample b)) rs)"
proof -
  assume h: "window_holds rs b"
  show ?thesis
  proof (cases "enough_runtime (pb_min_duration b) rs")
    case None
    then show ?thesis using h by (simp add: window_holds_def calculate_runtime_sample_def runtime_window_def)
  next
    case (Some k)
    have list: "cb_list (pb_runtime_buffer b) = drop (length rs - max (nat (pb_min_num_sample b)) k) rs" "cb_inv (pb_runtime_buffer b)"
      using h Some by (simp_all add: window_holds_def)
    have "length (cb_list (pb_runtime_buffer b)) \<noteq> 0" using list(1) enough_bounds[OF Some] by (simp add: not_le) linarith
    then have "m_count (pb_runtime_buffer b) \<noteq> 0" by simp
    then show ?thesis
      using list Some by (simp add: calculate_runtime_sample_def runtime_window_def cb_size_def cb_make_vector_list)
  qed
qed

lemma push_bounded_last: "push_bounded n r (drop (length rs - n) rs) = drop (length (rs @ [r]) - n) (rs @ [r])"
proof (cases "n \<le> length rs")
  case True
  then show ?thesis by (simp add: push_bounded_def Suc_diff_le)
qed (simp add: push_bounded_def)

text \<open>The buffer when it is full: it forgets the oldest measurement.\<close>

lemma buffer_step:
  assumes "window_holds rs b" "enough_runtime (pb_min_duration b) rs = Some k"
  shows "\<exists>buffer. cb_insert r (pb_runtime_buffer b) = Inr buffer \<and> window_holds (rs @ [r]) (b\<lparr>pb_runtime_buffer := buffer\<rparr>) \<and>
    (cb_size buffer = cb_capacity buffer) = window_full (pb_min_duration b) (nat (pb_min_num_sample b)) (rs @ [r]) \<and>
    cb_size (pb_runtime_buffer b) \<noteq> 0"
proof -
  let ?n = "max (nat (pb_min_num_sample b)) k"
  have buf: "cb_inv (pb_runtime_buffer b)" "m_max_size (pb_runtime_buffer b) = ?n" "cb_list (pb_runtime_buffer b) = drop (length rs - ?n) rs"
    using assms by (simp_all add: window_holds_def)
  have k: "1 \<le> k" "k \<le> length rs" using enough_bounds[OF assms(2)] by simp_all
  have "length (cb_list (pb_runtime_buffer b)) \<noteq> 0" using buf(3) k by simp
  moreover obtain buffer where i: "cb_insert r (pb_runtime_buffer b) = Inr buffer" "cb_inv buffer" "m_max_size buffer = ?n"
      "cb_list buffer = push_bounded ?n r (drop (length rs - ?n) rs)"
    using cb_insert_spec[OF buf(1), of r] buf(2,3) k by (metis less_max_iff_disj less_le_trans zero_less_one)
  have "push_bounded ?n r (drop (length rs - ?n) rs) = drop (length (rs @ [r]) - ?n) (rs @ [r])"
    by (rule push_bounded_last)
  then have l: "cb_list buffer = drop (length (rs @ [r]) - ?n) (rs @ [r])" using i(4) by simp
  then have "m_count buffer = min ?n (Suc (length rs))" by (metis length_cb_list length_drop length_append_singleton diff_diff_cancel min_def nat_le_linear diff_is_0_eq diff_zero)
  then have "(cb_size buffer = cb_capacity buffer) = (?n \<le> length (rs @ [r]))" using i(3) by (simp only: cb_size_def cb_capacity_def length_append_singleton min.absorb_iff1)
  ultimately show ?thesis
    using i l assms by (auto simp: window_holds_def window_full_def enough_snoc cb_size_def)
qed

lemma stable_step:
  assumes "window_holds rs b" "is_limit_stable now b" "\<not> isnan r"
  shows "\<exists>c. is_runtime_stable now r b = (Inr (window_full (pb_min_duration b) (nat (pb_min_num_sample b)) (rs @ [r])), c) \<and>
    window_holds (rs @ [r]) c \<and> same_settings b c \<and>
    pb_runtime_sample c = agg_median (runtime_window (pb_min_duration b) (nat (pb_min_num_sample b)) (rs @ [r]))"
proof -
  let ?full = "window_full (pb_min_duration b) (nat (pb_min_num_sample b)) (rs @ [r])"
  let ?m = "if cb_size (pb_runtime_buffer b) = 0 then collect_runtime r
    else bind (on_buffer (cb_insert r)) (\<lambda>_. gets (\<lambda>b. cb_size (pb_runtime_buffer b) = cb_capacity (pb_runtime_buffer b)))"
  have "\<exists>c. ?m b = (Inr ?full, c) \<and> window_holds (rs @ [r]) c \<and> same_settings b c"
  proof (cases "enough_runtime (pb_min_duration b) rs")
    case None
    let ?b = "b\<lparr>pb_runtime_vec := rs @ [r]\<rparr>"
    have empty: "cb_size (pb_runtime_buffer b) = 0" "pb_runtime_vec b = rs" "cb_inv (pb_runtime_buffer b)"
      using assms(1) None by (simp_all add: window_holds_def)
    show ?thesis
    proof (cases "dlt (pb_min_duration b) (agg_sum (rs @ [r]))")
      case True
      then have "enough_runtime (pb_min_duration b) (rs @ [r]) = Some (Suc (length rs))" by (simp add: enough_snoc None)
      moreover obtain buffer where "fill_buffer ?b = (Inr (int (length (rs @ [r])) \<ge> pb_min_num_sample b),
          ?b\<lparr>pb_num_sample := int (max (nat (pb_min_num_sample b)) (length (rs @ [r]))), pb_runtime_buffer := buffer, pb_runtime_vec := []\<rparr>)"
          "cb_inv buffer" "m_max_size buffer = max (nat (pb_min_num_sample b)) (length (rs @ [r]))" "cb_list buffer = rs @ [r]"
        using fill_buffer_effect[of ?b] empty by auto
      ultimately show ?thesis
        using True empty by (auto simp: collect_runtime_def act_simps window_holds_def same_settings_def window_full_def)
    next
      case False
      then have "enough_runtime (pb_min_duration b) (rs @ [r]) = None" by (simp add: enough_snoc None)
      then show ?thesis
        using False empty by (auto simp: collect_runtime_def act_simps window_holds_def same_settings_def window_full_def)
    qed
  next
    case (Some k)
    then show ?thesis
      using buffer_step[OF assms(1) Some, of r] by (auto simp: bind_def on_buffer_eq gets_def same_settings_def)
  qed
  then obtain c where c: "?m b = (Inr ?full, c)" "window_holds (rs @ [r]) c" "same_settings b c" by blast
  have step: "is_runtime_stable now r b = (Inr ?full, calculate_runtime_sample c)"
    using assms(2,3) c(1) by (simp add: is_runtime_stable_def bind_act_simps bind_def[of ?m] bind_def[of "modify f" for f] modify_def ret_def)
  have "window_holds (rs @ [r]) (calculate_runtime_sample c)" "same_settings b (calculate_runtime_sample c)"
    using c(2,3) by (simp_all add: window_holds_def same_settings_def calculate_runtime_sample_def split: option.splits)
  then show ?thesis using step holds_median[OF c(2)] c(3) by (auto simp: same_settings_def)
qed

section \<open>Invariant of every history\<close>

lemma enough_Nil [simp]: "enough_runtime d [] = None"
  by (simp add: enough_runtime_def)

definition holds_window :: "power_balancer \<Rightarrow> bool" where
  "holds_window b \<longleftrightarrow> (\<exists>rs. window_holds rs b)"

lemma clear_holds:
  assumes "window_holds rs b" "pb_runtime_buffer c = cb_clear (pb_runtime_buffer b)" "pb_runtime_vec c = pb_runtime_vec b"
    and "pb_min_duration c = pb_min_duration b" "pb_min_num_sample c = pb_min_num_sample b"
  shows "window_holds (pb_runtime_vec b) c"
  using assms cb_inv_clear[of "pb_runtime_buffer b"]
  by (auto simp: window_holds_def cb_clear_def cb_size_def split: option.splits)

lemma holds_window_keep:
  assumes "holds_window b" "pb_runtime_buffer c = pb_runtime_buffer b \<or> pb_runtime_buffer c = cb_clear (pb_runtime_buffer b)"
    and "pb_runtime_vec c = pb_runtime_vec b" "pb_min_duration c = pb_min_duration b" "pb_min_num_sample c = pb_min_num_sample b"
  shows "holds_window c"
proof -
  obtain rs where rs: "window_holds rs b" using assms(1) by (auto simp: holds_window_def)
  show ?thesis
  proof (cases "pb_runtime_buffer c = cb_clear (pb_runtime_buffer b)")
    case True
    then show ?thesis using clear_holds[OF rs _ assms(3-5)] by (auto simp: holds_window_def)
  next
    case False
    then have "window_holds rs c" using rs assms by (simp add: window_holds_def split: option.splits)
    then show ?thesis by (auto simp: holds_window_def)
  qed
qed

text \<open>
  The limit stays at or below the cap, or below the floor that the hardware imposes; the trial step is eight watts
  halved at most six times.
\<close>

definition limit_ok :: "double \<Rightarrow> power_balancer \<Rightarrow> bool" where
  "limit_ok lower b \<longleftrightarrow> is_value (pb_power_cap b) \<and> is_value (pb_power_limit b) \<and>
     (if isnan (pb_power_cap b) then isnan (pb_power_limit b)
      else \<not> isnan (pb_power_limit b) \<and> pb_power_limit b \<le> max (pb_power_cap b) lower)"

definition trial_ok :: "power_balancer \<Rightarrow> bool" where
  "trial_ok b \<longleftrightarrow> pb_min_trial_delta b = Fin (1 / 8) \<and> pb_min_duration b = Fin (1 / 4) \<and> pb_min_num_sample b = 9 \<and> (\<exists>k \<le> 6. pb_trial_delta b = Fin (8 / 2 ^ k))"

definition balancer_ok :: "double \<Rightarrow> power_balancer \<Rightarrow> bool" where
  "balancer_ok lower b \<longleftrightarrow> holds_window b \<and> limit_ok lower b \<and> trial_ok b"

lemma ok_fresh: "balancer_ok lower (make_power_balancer latency)"
proof -
  have "window_holds [] (make_power_balancer latency)"
    by (simp add: window_holds_def make_power_balancer_def power_balancer_new_def) (simp add: cb_size_def cb_make_def)
  then show ?thesis
    by (auto simp: balancer_ok_def holds_window_def limit_ok_def trial_ok_def make_power_balancer_def power_balancer_new_def intro: exI[of _ 0])
qed

lemma ok_set_cap: "balancer_ok lower b \<Longrightarrow> is_value cap \<Longrightarrow> balancer_ok lower (set_power_cap cap b)"
  unfolding balancer_ok_def
  by (auto simp: limit_ok_def trial_ok_def set_power_cap_def elim: holds_window_keep)

lemma ok_adjusted:
  assumes "balancer_ok lower b" "is_value a" "dle (pb_power_limit b) a" "a \<le> max (pb_power_limit b) lower"
  shows "balancer_ok lower (power_limit_adjusted now a b)"
proof -
  have "holds_window (power_limit_adjusted now a b)"
    using assms(1) by (auto simp: balancer_ok_def power_limit_adjusted_def Let_def elim: holds_window_keep)
  moreover have "limit_ok lower (power_limit_adjusted now a b)"
    using assms by (auto simp: balancer_ok_def limit_ok_def power_limit_adjusted_def Let_def dle_def max_def split: if_splits)
  ultimately show ?thesis using assms(1) by (auto simp: balancer_ok_def trial_ok_def power_limit_adjusted_def Let_def)
qed

lemma ok_target: "balancer_ok lower b \<Longrightarrow> balancer_ok lower (target_runtime r b)"
  unfolding balancer_ok_def
  by (auto simp: limit_ok_def trial_ok_def target_runtime_def Let_def elim: holds_window_keep)

lemma half_trial: "ddiv (Fin (8 / 2 ^ k)) (Fin 2) = Fin (8 / 2 ^ Suc k)" if "k \<le> 6"
proof -
  have "8 / 2 ^ Suc k = (of_int 1 :: rat) * 2 powi (2 - int k)"
    using that by (simp add: power_int_diff)
  then have "representable (8 / 2 ^ Suc k)" unfolding representable_def using that by (intro exI[of _ 1] exI[of _ "2 - int k"]) simp
  moreover have "(8 / 2 ^ Suc k :: rat) \<le> 4" by (simp add: divide_le_eq)
  then have "\<bar>8 / 2 ^ Suc k :: rat\<bar> < 2 ^ 1024" by (simp add: less_le_trans)
  ultimately have "round64 (8 / 2 ^ Suc k) = Fin (8 / 2 ^ Suc k)" by (rule round64_exact)
  then show ?thesis by simp
qed

lemma ok_slack: "balancer_ok lower b \<Longrightarrow> balancer_ok lower (snd (power_slack b))"
proof -
  assume ok: "balancer_ok lower b"
  obtain k where k: "k \<le> 6" "pb_trial_delta b = Fin (8 / 2 ^ k)" "pb_min_trial_delta b = Fin (1 / 8)"
    using ok by (auto simp: balancer_ok_def trial_ok_def)
  have "\<exists>j \<le> 6. (if dlt (Fin (8 / 2 ^ Suc k)) (Fin (1 / 8)) then Fin (1 / 8) else Fin (8 / 2 ^ Suc k :: rat)) = Fin (8 / 2 ^ j)"
  proof (cases "k = 6")
    case True
    then show ?thesis by (intro exI[of _ 6]) (simp add: dlt_def)
  next
    case False
    then have "(2 :: rat) ^ Suc k \<le> 2 ^ 6" using k(1) by (intro power_increasing) auto
    then have "\<not> dlt (Fin (8 / 2 ^ Suc k)) (Fin (1 / 8))" by (simp add: dlt_def field_simps)
    then show ?thesis using False k(1) by (intro exI[of _ "Suc k"]) simp
  qed
  then have "trial_ok (snd (power_slack b))" using ok k half_trial[OF k(1)] by (auto simp: balancer_ok_def trial_ok_def power_slack_def Let_def)
  then show ?thesis using ok unfolding balancer_ok_def
    by (auto simp: limit_ok_def power_slack_def Let_def elim: holds_window_keep)
qed

lemma stable_returns:
  assumes "balancer_ok lower b"
  shows "\<exists>x c. is_runtime_stable now r b = (Inr x, c) \<and> balancer_ok lower c \<and> same_settings b c"
proof (cases "is_limit_stable now b \<and> \<not> isnan r")
  case True
  then show ?thesis using assms stable_step[of _ b now r] unfolding balancer_ok_def holds_window_def limit_ok_def trial_ok_def same_settings_def by metis
next
  case False
  then show ?thesis using assms by (auto simp: is_runtime_stable_def act_simps same_settings_def)
qed

lemma ok_next_trial:
  assumes "balancer_ok lower b"
  shows "balancer_ok lower (next_trial b)"
proof -
  obtain k where k: "k \<le> 6" "pb_trial_delta b = Fin (8 / 2 ^ k)" using assms by (auto simp: balancer_ok_def trial_ok_def)
  have val: "is_value (pb_trial_delta b)"
  proof (cases k)
    case 0
    then show ?thesis using k round64_of_int[of 8] by simp
  next
    case (Suc j)
    then show ?thesis using k half_trial[of j] by (metis Suc_leD is_value_round64 ddiv.simps(1) zero_neq_numeral)
  qed
  have "holds_window (next_trial b)"
    using assms by (auto simp: balancer_ok_def next_trial_def Let_def elim: holds_window_keep)
  moreover have "limit_ok lower (next_trial b)"
  proof (cases "dlt (pb_target_runtime b) (pb_runtime_sample b)")
    case True
    have "dadd (pb_power_limit b) (pb_trial_delta b) \<noteq> NaN" if "pb_power_limit b \<noteq> NaN" using dadd_not_NaN[OF that] k(2) by simp
    then show ?thesis using assms True val
      by (auto simp: balancer_ok_def limit_ok_def next_trial_def Let_def dlt_def isnan_def max_def not_less split: if_splits)
  next
    case False
    have "dsub (pb_power_limit b) (pb_trial_delta b) \<le> pb_power_limit b" if "is_value (pb_power_limit b)"
      using dsub_le[OF that] k(2) by simp
    moreover have "dsub (pb_power_limit b) (pb_trial_delta b) = NaN \<longleftrightarrow> pb_power_limit b = NaN"
      using dsub_not_NaN[of "pb_power_limit b"] k(2) by (auto simp: dsub_def)
    ultimately show ?thesis using assms False val
      by (auto simp: balancer_ok_def limit_ok_def next_trial_def isnan_def)
  qed
  ultimately show ?thesis using assms by (auto simp: balancer_ok_def trial_ok_def next_trial_def Let_def)
qed

lemma target_returns:
  assumes "balancer_ok lower b"
  shows "\<exists>x c. is_target_met now r b = (Inr x, c) \<and> balancer_ok lower c"
proof -
  obtain x c where c: "(if \<not> pb_is_target_met b then is_runtime_stable now r else ret False) b = (Inr x, c)" "balancer_ok lower c"
    using assms stable_returns[OF assms, of now r] by (cases "pb_is_target_met b") (auto simp: ret_def)
  then show ?thesis using ok_next_trial[OF c(2)]
    by (simp add: is_target_met_def bind_act_simps bind_def[of "if P then m else n" for P m n] modify_def gets_def bind_def)
qed

section \<open>Properties\<close>

text \<open>
  The histories of an object: any calls with any arguments, where \<^verbatim>\<open>power_limit_adjusted()\<close> is told what was
  set in place of the limit, which is the limit or a floor above it.
\<close>

inductive balancer_reachable :: "double \<Rightarrow> double \<Rightarrow> power_balancer \<Rightarrow> bool" for latency lower where
  make: "balancer_reachable latency lower (make_power_balancer latency)"
| cap: "balancer_reachable latency lower b \<Longrightarrow> is_value cap \<Longrightarrow> balancer_reachable latency lower (set_power_cap cap b)"
| adjusted: "balancer_reachable latency lower b \<Longrightarrow> is_value a \<Longrightarrow> dle (pb_power_limit b) a \<Longrightarrow> a \<le> max (pb_power_limit b) lower \<Longrightarrow>
    balancer_reachable latency lower (power_limit_adjusted now a b)"
| stable: "balancer_reachable latency lower b \<Longrightarrow> is_runtime_stable now r b = (Inr x, c) \<Longrightarrow> balancer_reachable latency lower c"
| target: "balancer_reachable latency lower b \<Longrightarrow> balancer_reachable latency lower (target_runtime r b)"
| met: "balancer_reachable latency lower b \<Longrightarrow> is_target_met now r b = (Inr x, c) \<Longrightarrow> balancer_reachable latency lower c"
| slack: "balancer_reachable latency lower b \<Longrightarrow> balancer_reachable latency lower (snd (power_slack b))"

lemma reachable_ok: "balancer_reachable latency lower b \<Longrightarrow> balancer_ok lower b"
proof (induction rule: balancer_reachable.induct)
  case (stable b now r x c)
  then show ?case using stable_returns[of lower b now r] by auto
next
  case (met b now r x c)
  then show ?case using target_returns[of lower b now r] by auto
qed (simp_all add: ok_fresh ok_set_cap ok_adjusted ok_target ok_slack)

lemma round64_nonneg: "0 \<le> x \<Longrightarrow> Fin 0 \<le> round64 x"
  using round64_mono[of 0 x] by simp

lemma slack_nonneg:
  assumes "limit_ok lower b" "\<not> isnan (pb_power_cap b)" "pb_power_cap b < PInf" "pb_power_limit b \<le> pb_power_cap b" "NInf < pb_power_limit b"
  shows "Fin 0 \<le> fst (power_slack b)"
proof -
  obtain c l where "pb_power_cap b = Fin c" "pb_power_limit b = Fin l"
    using assms by (cases "pb_power_cap b"; cases "pb_power_limit b") (auto simp: limit_ok_def less_double_def less_eq_double_def)
  then show ?thesis using assms(4) round64_nonneg[of "c - l"] by (simp add: power_slack_def dsub_def Let_def)
qed

text \<open>
  C16: The contract of the cap. In every history of a balancer, whatever run times it measures and targets it is
  given: the limit that it asks for is at most its cap, or the floor that the hardware imposed where that is higher; it asks
  for a number exactly when it has a cap, and a limit at or below the cap means that the slack that it offers is not
  negative; the step between trials is between an eighth of a watt and eight watts; and no call throws, so that
  every history can be continued.
\<close>

theorem limit_within_cap:
  assumes "balancer_reachable latency lower b"
  shows "(if isnan (pb_power_cap b) then isnan (pb_power_limit b)
      else \<not> isnan (pb_power_limit b) \<and> pb_power_limit b \<le> max (pb_power_cap b) lower) \<and>
    (\<not> isnan (pb_power_cap b) \<and> pb_power_cap b < PInf \<and> NInf < pb_power_limit b \<and> pb_power_limit b \<le> pb_power_cap b \<longrightarrow>
      Fin 0 \<le> fst (power_slack b)) \<and>
    Fin (1 / 8) \<le> pb_trial_delta b \<and> pb_trial_delta b \<le> Fin 8 \<and>
    (\<forall>now r. \<exists>x y c d. is_runtime_stable now r b = (Inr x, c) \<and> is_target_met now r b = (Inr y, d))"
proof -
  have ok: "balancer_ok lower b" using reachable_ok[OF assms] .
  then obtain k where k: "k \<le> 6" "pb_trial_delta b = Fin (8 / 2 ^ k)" by (auto simp: balancer_ok_def trial_ok_def)
  have "(2 :: rat) ^ k \<le> 2 ^ 6" by (rule power_increasing) (use k(1) in auto)
  moreover have "(1 :: rat) \<le> 2 ^ k" by simp
  ultimately have "1 / 8 \<le> (8 / 2 ^ k :: rat)" "8 / 2 ^ k \<le> (8 :: rat)" by (simp_all add: field_simps)
  moreover have "\<exists>x y c d. is_runtime_stable now r b = (Inr x, c) \<and> is_target_met now r b = (Inr y, d)" for now r
    using stable_returns[OF ok, of now r] target_returns[OF ok, of now r] by blast
  ultimately show ?thesis using ok k(2) slack_nonneg[of lower b] by (auto simp: balancer_ok_def limit_ok_def)
qed

text \<open>An example: a cap of 100 watts, a run time target that is met at once.\<close>

lemma demo_balancer:
  "\<exists>b. balancer_reachable (Fin 0) (Fin 120) b \<and> pb_power_cap b = Fin 100 \<and> pb_power_limit b = Fin 120 \<and> pb_runtime_vec b = [] \<and>
     cb_size (pb_runtime_buffer b) = 0 \<and> pb_power_limit_change_time b = \<lparr>tv_sec = 1, tv_nsec = 0\<rparr> \<and> pb_control_latency b = Fin 0"
proof -
  let ?b = "power_limit_adjusted \<lparr>tv_sec = 1, tv_nsec = 0\<rparr> (Fin 120) (set_power_cap (Fin 100) (make_power_balancer (Fin 0)))"
  have v: "is_value (Fin 100)" "is_value (Fin 120)" using round64_of_int[of 100] round64_of_int[of 120] by simp_all
  have "balancer_reachable (Fin 0) (Fin 120) ?b"
    by (rule adjusted[OF cap[OF make v(1)] v(2)]) (simp_all add: set_power_cap_def dle_def)
  moreover have "pb_power_cap ?b = Fin 100" "pb_power_limit ?b = Fin 120" "pb_runtime_vec ?b = []" "cb_size (pb_runtime_buffer ?b) = 0"
      "pb_power_limit_change_time ?b = \<lparr>tv_sec = 1, tv_nsec = 0\<rparr>" "pb_control_latency ?b = Fin 0"
    by (simp_all add: power_limit_adjusted_def set_power_cap_def make_power_balancer_def power_balancer_new_def Let_def cb_size_def cb_clear_def deq_def dlt_def)
  ultimately show ?thesis by blast
qed

theorem limit_within_cap_witness:
  "\<exists>b :: power_balancer. pb_power_cap b = Fin 100 \<and> pb_power_limit b = Fin 120 \<and> pb_power_limit b \<le> max (pb_power_cap b) (Fin 120) \<and> Fin (1 / 8) \<le> pb_trial_delta b"
proof -
  obtain b where d: "balancer_reachable (Fin 0) (Fin 120) b" "pb_power_cap b = Fin 100" "pb_power_limit b = Fin 120" using demo_balancer by blast
  show ?thesis using limit_within_cap[OF d(1)] d(2,3) by (intro exI[of _ b]) simp
qed

lemma measure_all:
  assumes "window_holds rs b" "\<forall>(now, r) \<in> set ms. is_limit_stable now b \<and> \<not> isnan r"
  defines "d \<equiv> pb_min_duration b" and "n \<equiv> nat (pb_min_num_sample b)"
  shows "\<exists>c. map_action (\<lambda>(now, r). is_runtime_stable now r) ms b =
      (Inr (map (\<lambda>i. window_full d n (rs @ take (Suc i) (map snd ms))) [0..<length ms]), c) \<and>
    (ms \<noteq> [] \<longrightarrow> pb_runtime_sample c = agg_median (runtime_window d n (rs @ map snd ms)))"
  using assms(1,2) unfolding d_def n_def
proof (induction ms arbitrary: rs b)
  case (Cons m ms)
  obtain now r where m: "m = (now, r)" by (cases m)
  obtain c where c: "is_runtime_stable now r b = (Inr (window_full (pb_min_duration b) (nat (pb_min_num_sample b)) (rs @ [r])), c)"
      "window_holds (rs @ [r]) c" "same_settings b c" "pb_runtime_sample c = agg_median (runtime_window (pb_min_duration b) (nat (pb_min_num_sample b)) (rs @ [r]))"
    using stable_step[OF Cons.prems(1), of now r] Cons.prems(2) m by auto
  have same: "pb_min_duration c = pb_min_duration b" "pb_min_num_sample c = pb_min_num_sample b" "is_limit_stable t c = is_limit_stable t b" for t
    using c(3) by (simp_all add: same_settings_def is_limit_stable_def)
  obtain e where e: "map_action (\<lambda>(now, r). is_runtime_stable now r) ms c =
      (Inr (map (\<lambda>i. window_full (pb_min_duration b) (nat (pb_min_num_sample b)) ((rs @ [r]) @ take (Suc i) (map snd ms))) [0..<length ms]), e)"
      "ms \<noteq> [] \<longrightarrow> pb_runtime_sample e = agg_median (runtime_window (pb_min_duration b) (nat (pb_min_num_sample b)) ((rs @ [r]) @ map snd ms))"
    using Cons.IH[OF c(2)] Cons.prems(2) same by auto
  have "[0..<length (m # ms)] = 0 # map Suc [0..<length ms]" by (metis length_Cons map_Suc_upt upt_conv_Cons zero_less_Suc)
  moreover have "ms = [] \<Longrightarrow> e = c" using e(1) by simp
  ultimately show ?case using c(1,4) e m
    by (intro exI[of _ e]) (auto simp: bind_def ret_def comp_def simp del: upt_Suc)
qed simp

text \<open>
  C17: The median filter against run times. From an empty buffer, while the limit is old enough to be in effect
  and with real measurements, the answers of \<^verbatim>\<open>is_runtime_stable()\<close> and the run time that is reported are those
  of a sliding window: its length is the number of measurements that first took more than a quarter of a second together,
  but at least nine; the run time is the median of the last measurements up to that number, and it counts as stable
  once the window is full. Measurements that were left in \<^verbatim>\<open>m_runtime_vec\<close> when the buffer was
  emptied (by a new cap or limit) are counted as the first ones.
\<close>

theorem median_of_window:
  assumes "balancer_reachable latency lower b" "cb_size (pb_runtime_buffer b) = 0"
    and "\<forall>(now, r) \<in> set ms. is_limit_stable now b \<and> \<not> isnan r"
  defines "rs \<equiv> pb_runtime_vec b @ map snd ms"
  shows "\<exists>c. map_action (\<lambda>(now, r). is_runtime_stable now r) ms b =
      (Inr (map (\<lambda>i. window_full (Fin (1 / 4)) 9 (pb_runtime_vec b @ take (Suc i) (map snd ms))) [0..<length ms]), c) \<and>
    (ms \<noteq> [] \<longrightarrow> pb_runtime_sample c = agg_median (runtime_window (Fin (1 / 4)) 9 rs))"
proof -
  have ok: "holds_window b" "pb_min_duration b = Fin (1 / 4)" "pb_min_num_sample b = 9"
    using reachable_ok[OF assms(1)] by (simp_all add: balancer_ok_def trial_ok_def)
  obtain vs where vs: "window_holds vs b" using ok(1) by (auto simp: holds_window_def)
  have "enough_runtime (pb_min_duration b) vs = None"
    using buffer_step[OF vs] assms(2) by (cases "enough_runtime (pb_min_duration b) vs") auto
  then have "window_holds (pb_runtime_vec b) b" using vs by (simp add: window_holds_def)
  then show ?thesis using measure_all[OF _ assms(3)] ok(2,3) by (auto simp: rs_def)
qed

lemma enough_first: "dlt d (agg_sum [r]) \<Longrightarrow> enough_runtime d (r # rs) = Some 1"
  by (simp add: enough_runtime_def upt_conv_Cons del: upt_Suc)

theorem median_of_window_witness:
  "\<exists>b c. map_action (\<lambda>(now, r). is_runtime_stable now r) (map (\<lambda>k. (\<lparr>tv_sec = 2 + k, tv_nsec = 0\<rparr>, Fin (of_int k))) [1..10]) b =
      (Inr [False, False, False, False, False, False, False, False, True, True], c) \<and> pb_runtime_sample c = Fin 6"
proof -
  obtain b where d: "balancer_reachable (Fin 0) (Fin 120) b" "pb_runtime_vec b = []" "cb_size (pb_runtime_buffer b) = 0"
      "pb_power_limit_change_time b = \<lparr>tv_sec = 1, tv_nsec = 0\<rparr>" "pb_control_latency b = Fin 0" using demo_balancer by blast
  let ?ms = "map (\<lambda>k. (\<lparr>tv_sec = 2 + k, tv_nsec = 0\<rparr>, Fin (of_int k :: rat))) [1..10]"
  have upto: "[1..10] = [1, 2, 3, 4, 5, 6, 7, 8, 9, 10 :: int]" by code_simp
  have "is_limit_stable \<lparr>tv_sec = 2 + k, tv_nsec = 0\<rparr> b" if "k \<in> {1..10}" for k
  proof -
    have "\<bar>1 + k\<bar> < 2 ^ 53" using that by auto
    then have "geopm_time_diff \<lparr>tv_sec = 1, tv_nsec = 0\<rparr> \<lparr>tv_sec = 2 + k, tv_nsec = 0\<rparr> = dadd (Fin (of_int (1 + k))) (dmul (d_of_int 0) (round64 (1 / 10 ^ 9)))"
      using d_of_int_exact[of "1 + k"] by (simp add: geopm_time_diff_def algebra_simps)
    moreover obtain e where "round64 (1 / 10 ^ 9) = Fin e" using nano_bounds by blast
    then have "dmul (d_of_int 0) (round64 (1 / 10 ^ 9)) = Fin 0" by (simp only:) (simp add: d_of_int_def)
    moreover have "dadd (Fin (of_int (1 + k))) (Fin 0) = Fin (of_int (1 + k))" using \<open>\<bar>1 + k\<bar> < 2 ^ 53\<close> round64_of_int[of "1 + k"] by simp
    ultimately show ?thesis using that d(4,5) by (simp add: is_limit_stable_def dlt_def)
  qed
  then have "\<forall>(now, r) \<in> set ?ms. is_limit_stable now b \<and> \<not> isnan r" by auto
  note w = median_of_window[OF d(1,3) this, unfolded d(2) append_Nil]
  have one: "dlt (Fin (1 / 4)) (agg_sum [Fin 1])" by code_simp
  have full: "map (\<lambda>i. window_full (Fin (1 / 4)) 9 (take (Suc i) (map snd ?ms))) [0..<length ?ms] =
      [False, False, False, False, False, False, False, False, True, True]"
    by (simp add: upto window_full_def enough_first[OF one] upt_rec)
  have last_nine: "runtime_window (Fin (1 / 4)) 9 (map snd ?ms) = map (Fin \<circ> of_int) [2..10]"
    by (simp add: upto runtime_window_def enough_first[OF one] upto_rec1)
  have mid: "agg_median (map (Fin \<circ> of_int) [2..10]) = Fin 6" by code_simp
  have "?ms \<noteq> []" by simp
  then obtain c where "map_action (\<lambda>(now, r). is_runtime_stable now r) ?ms b = (Inr (map (\<lambda>i. window_full (Fin (1 / 4)) 9 (take (Suc i) (map snd ?ms))) [0..<length ?ms]), c)"
      "pb_runtime_sample c = agg_median (runtime_window (Fin (1 / 4)) 9 (map snd ?ms))"
    using w by blast
  then show ?thesis unfolding full last_nine mid by blast
qed

end
