(* ===== verification/Power_Balancer_Agent.thy ===== *)
theory Power_Balancer_Agent
  imports Power_Balancer Sample_Aggregator
begin

text \<open>
  \<^verbatim>\<open>PowerBalancerAgent\<close> (libgeopm/src/PowerBalancerAgent.cpp) shares the power budget of a job between its compute
  nodes. The agents form a tree: policies go down, samples go up, and the tree goes through the steps of the algorithm
  together, each counted by the step number in the policy. At the leaves the agent owns one
  \<^verbatim>\<open>PowerBalancer\<close> for each package.

  A policy and a sample are vectors of doubles indexed by an enum; here they are records. The three roles are
  three records of state; the root is a tree role with more members. The step objects
  (\<^verbatim>\<open>SendDownLimitStep\<close>, \<^verbatim>\<open>MeasureRuntimeStep\<close>, \<^verbatim>\<open>ReduceLimitStep\<close>) have no state: their
  methods are cases on \<open>step_e\<close>. The leaf and its \<^verbatim>\<open>SampleAggregator\<close> use the same \<^verbatim>\<open>PlatformIO\<close> object,
  which is the one inside of the aggregator. The clock of a call is \<open>now\<close>, by package.
  Checks that exist only in debug builds are left out.
\<close>

section \<open>Policies, samples, steps\<close>

record bal_policy =
  pol_cap :: double
  pol_step :: double
  pol_runtime :: double
  pol_slack :: double

record bal_sample =
  smp_step :: double
  smp_runtime :: double
  smp_slack :: double
  smp_headroom :: double

datatype step_e = Send_down_limit | Measure_runtime | Reduce_limit

text \<open>\<^verbatim>\<open>Role::step()\<close> converts the step count to an unsigned 64 bit number and reduces it modulo three.\<close>

definition role_step :: "int \<Rightarrow> int" where
  "role_step step_count = uint (word_of_int step_count :: 64 word) mod 3"

definition step_imp :: "int \<Rightarrow> step_e" where
  "step_imp step_count =
     (if role_step step_count = 0 then Send_down_limit else if role_step step_count = 1 then Measure_runtime else Reduce_limit)"

text \<open>\<^verbatim>\<open>std::min(a, b)\<close> and \<^verbatim>\<open>std::max(a, b)\<close>.\<close>

definition std_min :: "double \<Rightarrow> double \<Rightarrow> double" where
  "std_min a b = (if dlt b a then b else a)"

definition std_max :: "double \<Rightarrow> double \<Rightarrow> double" where
  "std_max a b = (if dlt a b then b else a)"

fun update_policy :: "step_e \<Rightarrow> int \<Rightarrow> bal_sample \<Rightarrow> bal_policy \<Rightarrow> bal_policy" where
  "update_policy Send_down_limit num_node smp p = p\<lparr>pol_cap := Fin 0\<rparr>"
| "update_policy Measure_runtime num_node smp p = p\<lparr>pol_runtime := smp_runtime smp\<rparr>"
| "update_policy Reduce_limit num_node smp p =
     p\<lparr>pol_slack := std_min (ddiv (smp_slack smp) (d_of_int num_node)) (smp_headroom smp)\<rparr>"

text \<open>\<^verbatim>\<open>calc_num_node()\<close>, with the product as an \<^verbatim>\<open>int\<close>.\<close>

definition calc_num_node :: "int list \<Rightarrow> int result" where
  "calc_num_node fan_in = fold_result (\<lambda>fi num_node. int_result (num_node * fi)) fan_in 1"

section \<open>The inner nodes of the tree\<close>

record tree_role =
  tr_policy :: bal_policy
  tr_step_count :: int
  tr_num_node :: int
  tr_num_children :: nat
  tr_is_step_complete :: bool

record root_role = tree_role +
  rr_root_cap :: double
  rr_min_pkg_power_setting :: double
  rr_max_pkg_power_setting :: double

definition nan_policy :: bal_policy where
  "nan_policy = \<lparr>pol_cap = NaN, pol_step = NaN, pol_runtime = NaN, pol_slack = NaN\<rparr>"

definition make_tree_role :: "int \<Rightarrow> int list \<Rightarrow> tree_role result" where
  "make_tree_role level fan_in =
     and_then (calc_num_node fan_in) (\<lambda>num_node.
     and_then (if 0 < level \<and> level \<le> int (length fan_in) then Inr (fan_in ! nat (level - 1)) else Inl Undefined_behavior) (\<lambda>num_children.
     Inr \<lparr>tr_policy = nan_policy, tr_step_count = - 1, tr_num_node = num_node, tr_num_children = nat num_children,
          tr_is_step_complete = True\<rparr>))"

definition make_root_role :: "int \<Rightarrow> int list \<Rightarrow> double \<Rightarrow> double \<Rightarrow> root_role result" where
  "make_root_role level fan_in min_power max_power =
     and_then (make_tree_role level fan_in) (\<lambda>t.
     Inr (tree_role.extend (t\<lparr>tr_step_count := 0, tr_is_step_complete := False\<rparr>)
            \<lparr>rr_root_cap = NaN, rr_min_pkg_power_setting = min_power, rr_max_pkg_power_setting = max_power\<rparr>))"

text \<open>\<^verbatim>\<open>Agent::aggregate_sample()\<close> with the functions \<^verbatim>\<open>M_AGG_FUNC\<close>.\<close>

definition aggregate_sample :: "bal_sample list \<Rightarrow> bal_sample" where
  "aggregate_sample in_sample =
     \<lparr>smp_step = agg_min (map smp_step in_sample), smp_runtime = agg_max (map smp_runtime in_sample),
      smp_slack = agg_sum (map smp_slack in_sample), smp_headroom = agg_min (map smp_headroom in_sample)\<rparr>"

text \<open>\<^verbatim>\<open>descend()\<close> returns the policies for the children when it returns true.\<close>

definition tree_descend :: "bal_policy \<Rightarrow> ('a tree_role_scheme, bal_policy list option) action" where
  "tree_descend in_policy =
     bind (gets (\<lambda>s. tr_is_step_complete s \<and> \<not> deq (pol_step in_policy) (d_of_int (tr_step_count s)))) (\<lambda>advance.
     if advance then
       bind (if deq (pol_step in_policy) (Fin 0) then modify (\<lambda>s. s\<lparr>tr_step_count := 0\<rparr>)
             else bind (gets (\<lambda>s. int_result (tr_step_count s + 1))) (\<lambda>incremented.
                  bind (lift incremented) (\<lambda>next_step.
                  if deq (pol_step in_policy) (d_of_int next_step) then modify (\<lambda>s. s\<lparr>tr_step_count := next_step\<rparr>)
                  else throw invalid))) (\<lambda>_.
       bind (modify (\<lambda>s. s\<lparr>tr_is_step_complete := False, tr_policy := in_policy\<rparr>)) (\<lambda>_.
       gets (\<lambda>s. Some (replicate (tr_num_children s) in_policy))))
     else ret None)"

definition tree_ascend :: "bal_sample list \<Rightarrow> ('a tree_role_scheme, bool \<times> bal_sample) action" where
  "tree_ascend in_sample =
     (let out_sample = aggregate_sample in_sample in
      bind (gets (\<lambda>s. \<not> tr_is_step_complete s \<and> deq (smp_step out_sample) (d_of_int (tr_step_count s)))) (\<lambda>result.
      if result then
        bind (modify (\<lambda>s. s\<lparr>tr_is_step_complete := True\<rparr>)) (\<lambda>_.
        bind (gets (\<lambda>s. deq (smp_step out_sample) (d_of_int (tr_step_count s)))) (\<lambda>same.
        bind (guard same invalid) (\<lambda>_.
        ret (True, out_sample))))
      else ret (False, out_sample)))"

definition root_ascend :: "bal_sample list \<Rightarrow> (root_role, bool \<times> bal_sample) action" where
  "root_ascend in_sample =
     bind (tree_ascend in_sample) (\<lambda>(result, out_sample).
     if result then
       bind (gets (\<lambda>s. deq (d_of_int (tr_step_count s)) (pol_step (tr_policy s)))) (\<lambda>same.
       bind (guard same invalid) (\<lambda>_.
       bind (modify (\<lambda>s. s\<lparr>tr_policy := update_policy (step_imp (tr_step_count s)) (tr_num_node s) out_sample (tr_policy s)\<rparr>)) (\<lambda>_.
       bind (gets (\<lambda>s. int_result (tr_step_count s + 1))) (\<lambda>incremented.
       bind (lift incremented) (\<lambda>next_step.
       bind (modify (\<lambda>s. s\<lparr>tr_policy := (tr_policy s)\<lparr>pol_step := d_of_int next_step\<rparr>\<rparr>)) (\<lambda>_.
       ret (True, out_sample)))))))
     else ret (False, out_sample))"

definition root_descend :: "bal_policy \<Rightarrow> (root_role, bal_policy list option) action" where
  "root_descend in_policy =
     bind (gets (\<lambda>s. \<not> deq (pol_cap in_policy) (rr_root_cap s))) (\<lambda>is_new.
     bind (if is_new then
             bind (modify (\<lambda>s. s\<lparr>tr_step_count := 0,
                 tr_policy := \<lparr>pol_cap = pol_cap in_policy, pol_step = Fin 0, pol_runtime = Fin 0, pol_slack = Fin 0\<rparr>,
                 rr_root_cap := pol_cap in_policy\<rparr>)) (\<lambda>_.
             bind (gets (\<lambda>s. dlt (rr_max_pkg_power_setting s) (rr_root_cap s) \<or> dlt (rr_root_cap s) (rr_min_pkg_power_setting s))) (\<lambda>bad.
             bind (guard (\<not> bad) invalid) (\<lambda>_.
             ret True)))
           else
             bind (gets (\<lambda>s. int_result (tr_step_count s + 1))) (\<lambda>incremented.
             bind (lift incremented) (\<lambda>next_step.
             bind (gets (\<lambda>s. pol_step (tr_policy s))) (\<lambda>policy_step.
             if deq (d_of_int next_step) policy_step
             then bind (modify (\<lambda>s. s\<lparr>tr_step_count := next_step, tr_is_step_complete := False\<rparr>)) (\<lambda>_. ret True)
             else bind (gets (\<lambda>s. deq (d_of_int (tr_step_count s)) policy_step)) (\<lambda>same.
                  bind (guard same invalid) (\<lambda>_. ret False)))))) (\<lambda>result.
     gets (\<lambda>s. if result then Some (replicate (tr_num_children s) (tr_policy s)) else None)))"

section \<open>The leaf\<close>

record package_s =
  pk_last_epoch_count :: int
  pk_runtime :: double
  pk_actual_limit :: double
  pk_power_slack :: double
  pk_power_headroom :: double
  pk_is_out_of_bounds :: bool
  pk_is_step_complete :: bool
  pk_pio_power_idx :: int

record 'w leaf_role =
  lf_policy :: bal_policy
  lf_step_count :: int
  lf_num_node :: int
  lf_sample_agg :: "'w sample_agg"
  lf_num_domain :: int
  lf_count_pio_idx :: "int list"
  lf_time_agg_idx :: "int list"
  lf_network_agg_idx :: "int list"
  lf_ignore_agg_idx :: "int list"
  lf_power_balancer :: "power_balancer list"
  lf_package :: "package_s list"
  lf_min_pkg_power_setting :: double
  lf_max_pkg_power_setting :: double
  lf_is_single_node :: bool
  lf_is_first_policy :: bool

definition on_agg :: "('w sample_agg, 'a) action \<Rightarrow> ('w leaf_role, 'a) action" where
  "on_agg m s = (case m (lf_sample_agg s) of (r, a) \<Rightarrow> (r, s\<lparr>lf_sample_agg := a\<rparr>))"

abbreviation on_platform :: "('w pio, 'a) action \<Rightarrow> ('w leaf_role, 'a) action" where
  "on_platform m \<equiv> on_agg (on_pio m)"

definition upd_package :: "nat \<Rightarrow> (package_s \<Rightarrow> package_s) \<Rightarrow> ('w leaf_role, unit) action" where
  "upd_package pkg_idx f = modify (\<lambda>s. s\<lparr>lf_package := (lf_package s)[pkg_idx := f (lf_package s ! pkg_idx)]\<rparr>)"

text \<open>A call on the balancer of a package.\<close>

definition on_balancer :: "nat \<Rightarrow> (power_balancer, 'a) action \<Rightarrow> ('w leaf_role, 'a) action" where
  "on_balancer pkg_idx m s =
     (case m (lf_power_balancer s ! pkg_idx) of (r, b) \<Rightarrow> (r, s\<lparr>lf_power_balancer := (lf_power_balancer s)[pkg_idx := b]\<rparr>))"

definition set_steps_complete :: "bool \<Rightarrow> 'w leaf_role \<Rightarrow> 'w leaf_role" where
  "set_steps_complete is_complete s = s\<lparr>lf_package := map (\<lambda>pkg. pkg\<lparr>pk_is_step_complete := is_complete\<rparr>) (lf_package s)\<rparr>"

definition are_steps_complete :: "'w leaf_role \<Rightarrow> bool" where
  "are_steps_complete s \<longleftrightarrow> list_all pk_is_step_complete (lf_package s)"

definition init_package :: "nat \<Rightarrow> ('w leaf_role, unit) action" where
  "init_package pkg_idx =
     bind (on_platform (push_signal ''EPOCH_COUNT'' GEOPM_DOMAIN_PACKAGE (int pkg_idx))) (\<lambda>count_idx.
     bind (modify (\<lambda>s. s\<lparr>lf_count_pio_idx := (lf_count_pio_idx s)[pkg_idx := count_idx]\<rparr>)) (\<lambda>_.
     bind (on_agg (agg_push_signal ''TIME'' GEOPM_DOMAIN_PACKAGE (int pkg_idx))) (\<lambda>time_idx.
     bind (modify (\<lambda>s. s\<lparr>lf_time_agg_idx := (lf_time_agg_idx s)[pkg_idx := time_idx]\<rparr>)) (\<lambda>_.
     bind (on_agg (agg_push_signal ''TIME_HINT_NETWORK'' GEOPM_DOMAIN_PACKAGE (int pkg_idx))) (\<lambda>network_idx.
     bind (modify (\<lambda>s. s\<lparr>lf_network_agg_idx := (lf_network_agg_idx s)[pkg_idx := network_idx]\<rparr>)) (\<lambda>_.
     bind (on_agg (agg_push_signal ''TIME_HINT_IGNORE'' GEOPM_DOMAIN_PACKAGE (int pkg_idx))) (\<lambda>ignore_idx.
     bind (modify (\<lambda>s. s\<lparr>lf_ignore_agg_idx := (lf_ignore_agg_idx s)[pkg_idx := ignore_idx]\<rparr>)) (\<lambda>_.
     bind (on_platform (push_control ''CPU_POWER_LIMIT_CONTROL'' GEOPM_DOMAIN_PACKAGE (int pkg_idx))) (\<lambda>control_idx.
     upd_package pkg_idx (\<lambda>pkg. pkg\<lparr>pk_pio_power_idx := control_idx\<rparr>))))))))))"

definition init_leaf :: "('w leaf_role, unit) action" where
  "init_leaf = bind (gets (\<lambda>s. [0..<nat (lf_num_domain s)])) (for_each init_package)"

definition make_leaf_role ::
  "topo \<Rightarrow> 'w sample_agg \<Rightarrow> power_balancer list \<Rightarrow> double \<Rightarrow> double \<Rightarrow> double \<Rightarrow> bool \<Rightarrow> int \<Rightarrow> 'w leaf_role result" where
  "make_leaf_role topo agg balancers min_power max_power time_window is_single_node num_node =
     and_then (num_domain topo GEOPM_DOMAIN_PACKAGE) (\<lambda>n.
     let none = replicate (nat n) (- 1);
         s = \<lparr>lf_policy = nan_policy, lf_step_count = - 1, lf_num_node = num_node, lf_sample_agg = agg, lf_num_domain = n,
              lf_count_pio_idx = none, lf_time_agg_idx = none, lf_network_agg_idx = none, lf_ignore_agg_idx = none,
              lf_power_balancer = (if balancers = [] then replicate (nat n) (make_power_balancer (dmul (Fin 3) time_window)) else balancers),
              lf_package = replicate (nat n) \<lparr>pk_last_epoch_count = 0, pk_runtime = Fin 0, pk_actual_limit = NaN, pk_power_slack = Fin 0,
                 pk_power_headroom = Fin 0, pk_is_out_of_bounds = False, pk_is_step_complete = True, pk_pio_power_idx = - 1\<rparr>,
              lf_min_pkg_power_setting = min_power, lf_max_pkg_power_setting = max_power,
              lf_is_single_node = is_single_node, lf_is_first_policy = True\<rparr>
     in case init_leaf s of (Inl e, t) \<Rightarrow> Inl e | (Inr _, t) \<Rightarrow> Inr (set_steps_complete True t))"

subsection \<open>The start of a step\<close>

definition DBL_MAX :: double where
  "DBL_MAX = Fin ((2 ^ 53 - 1) * 2 ^ 971)"

text \<open>
  \<^verbatim>\<open>SendDownLimitStep::enter_step()\<close>: every package gets the same share of the slack, but not more than the least
  headroom; what is left is shared in proportion to the headroom that remains.
\<close>

definition least_headroom :: "double \<Rightarrow> power_balancer list \<Rightarrow> double" where
  "least_headroom max_power balancers =
     foldl (\<lambda>min_headroom b. std_min min_headroom (dsub max_power (pb_power_limit b))) DBL_MAX balancers"

definition even_share :: "double \<Rightarrow> double \<Rightarrow> int \<Rightarrow> double \<times> double" where
  "even_share slack_power min_headroom n =
     (let even_slack = ddiv slack_power (d_of_int n)
      in if dlt even_slack min_headroom then (even_slack, Fin 0)
         else (min_headroom, dsub slack_power (dmul min_headroom (d_of_int n))))"

definition headroom_after :: "double \<Rightarrow> double \<Rightarrow> power_balancer \<Rightarrow> double" where
  "headroom_after max_power even_slack b = dsub max_power (dadd (pb_power_limit b) even_slack)"

definition share_cap :: "double \<Rightarrow> double \<Rightarrow> double \<Rightarrow> double \<Rightarrow> power_balancer \<Rightarrow> double" where
  "share_cap max_power even_slack slack_power total_headroom b =
     (let factor = (if \<not> deq total_headroom (Fin 0) then ddiv (headroom_after max_power even_slack b) total_headroom else Fin 1)
      in dadd (dadd (pb_power_limit b) even_slack) (dmul factor slack_power))"

definition share_slack :: "double \<Rightarrow> int \<Rightarrow> double \<Rightarrow> power_balancer list \<Rightarrow> power_balancer list" where
  "share_slack max_power n slack balancers =
     (let (even_slack, slack_power) = even_share slack (least_headroom max_power balancers) n;
          total_headroom = foldl dadd (Fin 0) (map (headroom_after max_power even_slack) balancers)
      in map (\<lambda>b. set_power_cap (share_cap max_power even_slack slack_power total_headroom b) b) balancers)"

fun enter_step :: "step_e \<Rightarrow> bal_policy \<Rightarrow> 'w leaf_role \<Rightarrow> 'w leaf_role" where
  "enter_step Send_down_limit in_policy s =
     set_steps_complete True
       (s\<lparr>lf_power_balancer := share_slack (lf_max_pkg_power_setting s) (lf_num_domain s) (pol_slack in_policy) (lf_power_balancer s)\<rparr>)"
| "enter_step Measure_runtime in_policy s = s"
| "enter_step Reduce_limit in_policy s =
     s\<lparr>lf_power_balancer := map (target_runtime (pol_runtime in_policy)) (lf_power_balancer s)\<rparr>"

subsection \<open>The way down\<close>

text \<open>
  The first part of \<^verbatim>\<open>LeafRole::adjust_platform()\<close>: the policy that counts. The only node of a job takes the place of the root
  and makes the later policies itself.
\<close>

definition own_policy :: "'w leaf_role \<Rightarrow> bal_policy" where
  "own_policy s =
     (let p = lf_policy s;
          smp = \<lparr>smp_step = pol_step p, smp_runtime = pol_runtime p, smp_slack = pol_slack p, smp_headroom = pol_slack p\<rparr>;
          q = update_policy (step_imp (lf_step_count s)) (lf_num_node s) smp p
      in q\<lparr>pol_step := dadd (pol_step q) (Fin 1)\<rparr>)"

definition take_policy :: "bal_policy \<Rightarrow> 'w leaf_role \<Rightarrow> 'w leaf_role" where
  "take_policy in_policy s =
     (if lf_is_single_node s then
        if lf_is_first_policy s then s\<lparr>lf_policy := in_policy, lf_is_first_policy := False\<rparr>
        else if are_steps_complete s then s\<lparr>lf_policy := own_policy s\<rparr>
        else s
      else s\<lparr>lf_policy := in_policy\<rparr>)"

text \<open>The second part: a new power cap resets the algorithm, another step number advances it.\<close>

definition reset_leaf :: "'w leaf_role \<Rightarrow> 'w leaf_role" where
  "reset_leaf s =
     (let pkg_limit = ddiv (pol_cap (lf_policy s)) (d_of_int (lf_num_domain s))
      in set_steps_complete True
           (s\<lparr>lf_step_count := 0, lf_power_balancer := map (set_power_cap pkg_limit) (lf_power_balancer s)\<rparr>))"

definition advance_leaf :: "('w leaf_role, unit) action" where
  "advance_leaf =
     bind (gets (\<lambda>s. int_result (lf_step_count s + 1))) (\<lambda>incremented.
     bind (lift incremented) (\<lambda>next_step.
     bind (modify (\<lambda>s. set_steps_complete False (s\<lparr>lf_step_count := next_step\<rparr>))) (\<lambda>_.
     bind (gets (\<lambda>s. deq (d_of_int (lf_step_count s)) (pol_step (lf_policy s)))) (\<lambda>same.
     bind (guard same runtime) (\<lambda>_.
     modify (\<lambda>s. enter_step (step_imp (lf_step_count s)) (lf_policy s) s))))))"

definition receive_policy :: "bal_policy \<Rightarrow> ('w leaf_role, unit) action" where
  "receive_policy in_policy =
     bind (modify (take_policy in_policy)) (\<lambda>_.
     bind (gets (\<lambda>s. \<not> deq (pol_cap (lf_policy s)) (Fin 0))) (\<lambda>is_new_cap.
     if is_new_cap then modify reset_leaf
     else bind (gets (\<lambda>s. \<not> deq (pol_step (lf_policy s)) (d_of_int (lf_step_count s)))) (\<lambda>is_next.
          if is_next then advance_leaf else ret ())))"

text \<open>The third part: the limits that the balancers ask for are set, at least the minimum.\<close>

definition enforce_limit :: "(int \<Rightarrow> geopm_time_s) \<Rightarrow> bool \<Rightarrow> nat \<Rightarrow> ('w leaf_role, bool) action" where
  "enforce_limit now result pkg_idx =
     bind (gets (\<lambda>s. pb_power_limit (lf_power_balancer s ! pkg_idx))) (\<lambda>balancer_limit.
     if \<not> isnan balancer_limit \<and> \<not> deq balancer_limit (Fin 0) then
       bind (gets lf_min_pkg_power_setting) (\<lambda>min_power.
       bind (if dlt balancer_limit min_power
             then bind (upd_package pkg_idx (\<lambda>pkg. pkg\<lparr>pk_is_out_of_bounds := True\<rparr>)) (\<lambda>_. ret min_power)
             else ret balancer_limit) (\<lambda>request_limit.
       bind (gets (\<lambda>s. lf_package s ! pkg_idx)) (\<lambda>package.
       if \<not> deq request_limit (pk_actual_limit package) then
         bind (on_platform (adjust (pk_pio_power_idx package) request_limit)) (\<lambda>_.
         bind (on_balancer pkg_idx (modify (power_limit_adjusted (now (int pkg_idx)) request_limit))) (\<lambda>_.
         bind (upd_package pkg_idx (\<lambda>pkg. pkg\<lparr>pk_actual_limit := request_limit\<rparr>)) (\<lambda>_.
         ret True)))
       else ret result)))
     else ret result)"

fun fold_action :: "('b \<Rightarrow> 'a \<Rightarrow> ('s, 'b) action) \<Rightarrow> 'b \<Rightarrow> 'a list \<Rightarrow> ('s, 'b) action" where
  "fold_action f acc [] s = (Inr acc, s)"
| "fold_action f acc (x # xs) s = bind (f acc x) (\<lambda>acc'. fold_action f acc' xs) s"

definition enforce_limits :: "(int \<Rightarrow> geopm_time_s) \<Rightarrow> ('w leaf_role, bool) action" where
  "enforce_limits now = bind (gets (\<lambda>s. [0..<nat (lf_num_domain s)])) (fold_action (enforce_limit now) False)"

definition leaf_adjust_platform :: "(int \<Rightarrow> geopm_time_s) \<Rightarrow> bal_policy \<Rightarrow> ('w leaf_role, bool) action" where
  "leaf_adjust_platform now in_policy = bind (receive_policy in_policy) (\<lambda>_. enforce_limits now)"

subsection \<open>The way up\<close>

text \<open>The run time of the last epoch without the time in the network and in ignored regions.\<close>

definition balanced_epoch_runtime :: "nat \<Rightarrow> 'w leaf_role \<Rightarrow> double result" where
  "balanced_epoch_runtime pkg_idx s =
     and_then (sample_epoch_last (lf_sample_agg s) (lf_time_agg_idx s ! pkg_idx)) (\<lambda>total.
     and_then (sample_epoch_last (lf_sample_agg s) (lf_network_agg_idx s ! pkg_idx)) (\<lambda>network.
     and_then (sample_epoch_last (lf_sample_agg s) (lf_ignore_agg_idx s ! pkg_idx)) (\<lambda>ignore.
     Inr (dsub (dsub total network) ignore))))"

definition measure_runtime_package :: "(int \<Rightarrow> geopm_time_s) \<Rightarrow> nat \<Rightarrow> ('w leaf_role, unit) action" where
  "measure_runtime_package now pkg_idx =
     bind (gets (balanced_epoch_runtime pkg_idx)) (\<lambda>res.
     bind (lift res) (\<lambda>epoch_runtime.
     bind (on_balancer pkg_idx (is_runtime_stable (now (int pkg_idx)) epoch_runtime)) (\<lambda>is_stable.
     bind (upd_package pkg_idx (\<lambda>pkg. pkg\<lparr>pk_is_step_complete := is_stable\<rparr>)) (\<lambda>_.
     if \<not> is_stable then
       bind (gets (\<lambda>s. pb_runtime_sample (lf_power_balancer s ! pkg_idx))) (\<lambda>runtime_sample.
       upd_package pkg_idx (\<lambda>pkg. pkg\<lparr>pk_runtime := runtime_sample\<rparr>))
     else ret ()))))"

definition reduce_limit_package :: "(int \<Rightarrow> geopm_time_s) \<Rightarrow> nat \<Rightarrow> ('w leaf_role, unit) action" where
  "reduce_limit_package now pkg_idx =
     bind (gets (balanced_epoch_runtime pkg_idx)) (\<lambda>res.
     bind (lift res) (\<lambda>epoch_runtime.
     bind (gets (\<lambda>s. pk_is_out_of_bounds (lf_package s ! pkg_idx))) (\<lambda>is_out_of_bounds.
     bind (if is_out_of_bounds then ret True
           else on_balancer pkg_idx (is_target_met (now (int pkg_idx)) epoch_runtime)) (\<lambda>is_complete.
     bind (upd_package pkg_idx (\<lambda>pkg. pkg\<lparr>pk_is_step_complete := is_complete\<rparr>)) (\<lambda>_.
     bind (on_balancer pkg_idx (\<lambda>b. case power_slack b of (slack, c) \<Rightarrow> (Inr slack, c))) (\<lambda>slack.
     bind (gets (\<lambda>s. dsub (lf_max_pkg_power_setting s) (pb_power_limit (lf_power_balancer s ! pkg_idx)))) (\<lambda>headroom.
     upd_package pkg_idx (\<lambda>pkg. pkg\<lparr>pk_power_slack := slack, pk_is_out_of_bounds := False, pk_power_headroom := headroom\<rparr>))))))))"

text \<open>The loop that the two steps share: the body runs for a package with a new epoch whose step is not complete.\<close>

definition with_new_epoch ::
  "(double \<Rightarrow> double) \<Rightarrow> (nat \<Rightarrow> ('w leaf_role, unit) action) \<Rightarrow> nat \<Rightarrow> ('w leaf_role, unit) action" where
  "with_new_epoch sq body pkg_idx =
     bind (gets (\<lambda>s. lf_count_pio_idx s ! pkg_idx)) (\<lambda>count_idx.
     bind (on_platform (sample sq count_idx)) (\<lambda>count_value.
     bind (lift (int_of_d count_value)) (\<lambda>epoch_count.
     bind (gets (\<lambda>s. lf_package s ! pkg_idx)) (\<lambda>package.
     bind (if 1 < epoch_count \<and> epoch_count \<noteq> pk_last_epoch_count package \<and> \<not> pk_is_step_complete package
           then body pkg_idx else ret ()) (\<lambda>_.
     upd_package pkg_idx (\<lambda>pkg. pkg\<lparr>pk_last_epoch_count := epoch_count\<rparr>))))))"

definition step_sample_platform :: "(double \<Rightarrow> double) \<Rightarrow> (int \<Rightarrow> geopm_time_s) \<Rightarrow> step_e \<Rightarrow> ('w leaf_role, unit) action" where
  "step_sample_platform sq now step =
     bind (gets (\<lambda>s. [0..<nat (lf_num_domain s)])) (\<lambda>pkgs.
     case step of
       Send_down_limit \<Rightarrow> ret ()
     | Measure_runtime \<Rightarrow> for_each (with_new_epoch sq (measure_runtime_package now)) pkgs
     | Reduce_limit \<Rightarrow> for_each (with_new_epoch sq (reduce_limit_package now)) pkgs)"

definition leaf_sample :: "'w leaf_role \<Rightarrow> bal_sample" where
  "leaf_sample s =
     \<lparr>smp_step = d_of_int (lf_step_count s),
      smp_runtime = foldl std_max (Fin 0) (map pk_runtime (lf_package s)),
      smp_slack = foldl dadd (Fin 0) (map pk_power_slack (lf_package s)),
      smp_headroom = foldl dadd (Fin 0) (map pk_power_headroom (lf_package s))\<rparr>"

definition leaf_sample_platform :: "(double \<Rightarrow> double) \<Rightarrow> (int \<Rightarrow> geopm_time_s) \<Rightarrow> ('w leaf_role, bool \<times> bal_sample) action" where
  "leaf_sample_platform sq now =
     bind (gets (\<lambda>s. step_imp (lf_step_count s))) (\<lambda>step.
     bind (step_sample_platform sq now step) (\<lambda>_.
     bind (on_agg (agg_update sq)) (\<lambda>_.
     bind (gets leaf_sample) (\<lambda>out_sample.
     bind (gets are_steps_complete) (\<lambda>result.
     bind (modify (\<lambda>s. if lf_is_single_node s \<and> result
             then s\<lparr>lf_policy := (lf_policy s)\<lparr>pol_runtime := smp_runtime out_sample, pol_slack := std_min (smp_slack out_sample) (smp_headroom out_sample)\<rparr>\<rparr>
             else s)) (\<lambda>_.
     ret (result, out_sample)))))))"

definition leaf_trace_values :: "'w leaf_role \<Rightarrow> double list" where
  "leaf_trace_values s =
     [pol_cap (lf_policy s), pol_step (lf_policy s), pol_runtime (lf_policy s), pol_slack (lf_policy s),
      foldl dadd (Fin 0) (map pk_actual_limit (lf_package s))]"

section \<open>The agent\<close>

datatype 'w balancer_role = Leaf_role "'w leaf_role" | Root_role root_role | Tree_role tree_role

text \<open>Until the role exists the agent holds the aggregator; a leaf role takes it over.\<close>

record 'w balancer_agent =
  ba_sample_agg :: "'w sample_agg"
  ba_role :: "'w balancer_role option"
  ba_power_balancer :: "power_balancer list"
  ba_power_tdp :: double
  ba_do_send_sample :: bool
  ba_do_send_policy :: bool
  ba_do_write_batch :: bool
  ba_min_pkg_power_setting :: double
  ba_max_pkg_power_setting :: double

definition TIME_WINDOW :: double where
  "TIME_WINDOW = round64 (15 / 1000)"

definition make_balancer_agent ::
  "(double \<Rightarrow> double) \<Rightarrow> 'w sample_agg \<Rightarrow> power_balancer list \<Rightarrow> double \<Rightarrow> double \<Rightarrow> 'w balancer_agent result" where
  "make_balancer_agent sq agg balancers min_power max_power =
     (case on_pio (read_signal sq ''CPU_POWER_LIMIT_DEFAULT'' GEOPM_DOMAIN_BOARD 0) agg of (r, agg') \<Rightarrow>
       and_then r (\<lambda>tdp.
       Inr \<lparr>ba_sample_agg = agg', ba_role = None, ba_power_balancer = balancers, ba_power_tdp = tdp, ba_do_send_sample = False,
            ba_do_send_policy = False, ba_do_write_batch = False, ba_min_pkg_power_setting = min_power, ba_max_pkg_power_setting = max_power\<rparr>))"

definition agent_init :: "topo \<Rightarrow> int \<Rightarrow> int list \<Rightarrow> ('w balancer_agent, unit) action" where
  "agent_init topo level fan_in =
     bind (lift (calc_num_node fan_in)) (\<lambda>num_node.
     let is_tree_root = (level = int (length fan_in)) in
     if level = 0 then
       bind (gets (\<lambda>a. make_leaf_role topo (ba_sample_agg a) (ba_power_balancer a) (ba_min_pkg_power_setting a) (ba_max_pkg_power_setting a)
               TIME_WINDOW is_tree_root num_node)) (\<lambda>res.
       bind (lift res) (\<lambda>leaf.
       case on_platform (write_control ''CPU_POWER_TIME_WINDOW_CONTROL'' GEOPM_DOMAIN_BOARD 0 TIME_WINDOW) leaf of (r, leaf') \<Rightarrow>
       bind (modify (\<lambda>a. a\<lparr>ba_role := Some (Leaf_role leaf')\<rparr>)) (\<lambda>_. lift r)))
     else if is_tree_root then
       bind (gets (\<lambda>a. make_root_role level fan_in (ba_min_pkg_power_setting a) (ba_max_pkg_power_setting a))) (\<lambda>res.
       bind (lift res) (\<lambda>role. modify (\<lambda>a. a\<lparr>ba_role := Some (Root_role role)\<rparr>)))
     else
       bind (lift (make_tree_role level fan_in)) (\<lambda>role. modify (\<lambda>a. a\<lparr>ba_role := Some (Tree_role role)\<rparr>)))"

text \<open>
  A virtual call on the role. A leaf has no \<^verbatim>\<open>descend()\<close>, an inner node no \<^verbatim>\<open>adjust_platform()\<close>:
  the methods of the base class do nothing and return false.
\<close>

definition on_role ::
  "('w leaf_role, 'a) action \<Rightarrow> (root_role, 'a) action \<Rightarrow> (tree_role, 'a) action \<Rightarrow> ('w balancer_agent, 'a) action" where
  "on_role on_leaf on_root on_tree a =
     (case ba_role a of
        None \<Rightarrow> (Inl Undefined_behavior, a)
      | Some (Leaf_role s) \<Rightarrow> (case on_leaf s of (r, t) \<Rightarrow> (r, a\<lparr>ba_role := Some (Leaf_role t)\<rparr>))
      | Some (Root_role s) \<Rightarrow> (case on_root s of (r, t) \<Rightarrow> (r, a\<lparr>ba_role := Some (Root_role t)\<rparr>))
      | Some (Tree_role s) \<Rightarrow> (case on_tree s of (r, t) \<Rightarrow> (r, a\<lparr>ba_role := Some (Tree_role t)\<rparr>)))"

definition split_policy :: "bal_policy \<Rightarrow> ('w balancer_agent, bal_policy list option) action" where
  "split_policy in_policy =
     bind (on_role (ret None) (root_descend in_policy) (tree_descend in_policy)) (\<lambda>out_policy.
     bind (modify (\<lambda>a. a\<lparr>ba_do_send_policy := (out_policy \<noteq> None)\<rparr>)) (\<lambda>_. ret out_policy))"

definition agent_aggregate_sample :: "bal_sample list \<Rightarrow> bal_sample \<Rightarrow> ('w balancer_agent, bal_sample) action" where
  "agent_aggregate_sample in_sample out_sample =
     bind (on_role (ret (False, out_sample)) (root_ascend in_sample) (tree_ascend in_sample)) (\<lambda>(result, out).
     bind (modify (\<lambda>a. a\<lparr>ba_do_send_sample := result\<rparr>)) (\<lambda>_. ret out))"

definition agent_adjust_platform :: "(int \<Rightarrow> geopm_time_s) \<Rightarrow> bal_policy \<Rightarrow> ('w balancer_agent, unit) action" where
  "agent_adjust_platform now in_policy =
     bind (on_role (leaf_adjust_platform now in_policy) (ret False) (ret False)) (\<lambda>result.
     modify (\<lambda>a. a\<lparr>ba_do_write_batch := result\<rparr>))"

definition agent_sample_platform :: "(double \<Rightarrow> double) \<Rightarrow> (int \<Rightarrow> geopm_time_s) \<Rightarrow> bal_sample \<Rightarrow> ('w balancer_agent, bal_sample) action" where
  "agent_sample_platform sq now out_sample =
     bind (on_role (leaf_sample_platform sq now) (ret (False, out_sample)) (ret (False, out_sample))) (\<lambda>(result, out).
     bind (modify (\<lambda>a. a\<lparr>ba_do_send_sample := result\<rparr>)) (\<lambda>_. ret out))"

text \<open>\<^verbatim>\<open>validate_policy()\<close>: defaults for NaN, the cap within the bounds of a package unless it is zero, not all zero.\<close>

definition default_policy :: "double \<Rightarrow> bal_policy \<Rightarrow> bal_policy" where
  "default_policy tdp p =
     \<lparr>pol_cap = (if isnan (pol_cap p) then tdp else pol_cap p), pol_step = (if isnan (pol_step p) then Fin 0 else pol_step p),
      pol_runtime = (if isnan (pol_runtime p) then Fin 0 else pol_runtime p), pol_slack = (if isnan (pol_slack p) then Fin 0 else pol_slack p)\<rparr>"

definition clamp_cap :: "double \<Rightarrow> double \<Rightarrow> double \<Rightarrow> double" where
  "clamp_cap min_power max_power cap =
     (if \<not> deq cap (Fin 0) then
        if dlt cap min_power then min_power else if dlt max_power cap then max_power else cap
      else cap)"

definition validate_policy :: "double \<Rightarrow> double \<Rightarrow> double \<Rightarrow> bal_policy \<Rightarrow> bal_policy result" where
  "validate_policy tdp min_power max_power p =
     (let d = default_policy tdp p; v = d\<lparr>pol_cap := clamp_cap min_power max_power (pol_cap d)\<rparr>
      in if deq (pol_cap v) (Fin 0) \<and> deq (pol_step v) (Fin 0) \<and> deq (pol_runtime v) (Fin 0) \<and> deq (pol_slack v) (Fin 0)
         then Inl invalid else Inr v)"

text \<open>\<^verbatim>\<open>enforce_policy()\<close> writes the cap to the platform; a policy of another size is refused.\<close>

definition enforce_policy :: "double list \<Rightarrow> ('w pio, unit) action" where
  "enforce_policy policy =
     bind (guard (length policy = 4) invalid) (\<lambda>_.
     write_control ''CPU_POWER_LIMIT_CONTROL'' GEOPM_DOMAIN_BOARD 0 (policy ! 0))"

definition format_step_count :: "double \<Rightarrow> string result" where
  "format_step_count step =
     and_then (i64_of_d step) (\<lambda>step_count.
     let step_type = cmod (sint step_count) 3; loop_count = cdiv (sint step_count) 3
     in Inr (show_int loop_count @
          (if step_type = 0 then ''-STEP_SEND_DOWN_LIMIT'' else if step_type = 1 then ''-STEP_MEASURE_RUNTIME''
           else if step_type = 2 then ''-STEP_REDUCE_LIMIT'' else [])))"

section \<open>What the operations of a leaf keep\<close>

text \<open>
  \<open>leaf_flow P s t\<close>: the step number and the place in the tree are the same, and the flags of the packages have
  changed as \<open>P\<close> allows (package, before, after).
\<close>

definition leaf_flow :: "(nat \<Rightarrow> bool \<Rightarrow> bool \<Rightarrow> bool) \<Rightarrow> 'w leaf_role \<Rightarrow> 'w leaf_role \<Rightarrow> bool" where
  "leaf_flow P s t \<longleftrightarrow> lf_step_count t = lf_step_count s \<and> lf_is_single_node t = lf_is_single_node s \<and>
     lf_is_first_policy t = lf_is_first_policy s \<and> lf_num_domain t = lf_num_domain s \<and> length (lf_package t) = length (lf_package s) \<and>
     (\<forall>i < length (lf_package s). P i (pk_is_step_complete (lf_package s ! i)) (pk_is_step_complete (lf_package t ! i)))"

text \<open>No flag changes; only that of one package; only from incomplete to complete.\<close>

abbreviation flags_same :: "'w leaf_role \<Rightarrow> 'w leaf_role \<Rightarrow> bool" where
  "flags_same \<equiv> leaf_flow (\<lambda>i b c. b = c)"

abbreviation flags_except :: "nat \<Rightarrow> 'w leaf_role \<Rightarrow> 'w leaf_role \<Rightarrow> bool" where
  "flags_except k \<equiv> leaf_flow (\<lambda>i b c. i = k \<or> b = c)"

abbreviation flags_grow :: "'w leaf_role \<Rightarrow> 'w leaf_role \<Rightarrow> bool" where
  "flags_grow \<equiv> leaf_flow (\<lambda>i b c. b \<longrightarrow> c)"

lemma leaf_flow_mono: "leaf_flow P s t \<Longrightarrow> (\<And>i b c. P i b c \<Longrightarrow> Q i b c) \<Longrightarrow> leaf_flow Q s t"
  by (auto simp: leaf_flow_def)

lemma leaf_flow_preorder:
  assumes "\<And>i b. P i b b" "\<And>i a b c. P i a b \<Longrightarrow> P i b c \<Longrightarrow> P i a c"
  shows "preorder_on_states (leaf_flow P)"
  unfolding preorder_on_states_def leaf_flow_def
  by (rule conjI; (rule reflpI | rule transpI)) (auto simp: assms(1) intro: assms(2))

lemma flags_preorders: "preorder_on_states flags_same" "preorder_on_states (flags_except k)" "preorder_on_states flags_grow"
  by (rule leaf_flow_preorder; auto)+

lemma evolves_mono: "evolves R m \<Longrightarrow> (\<And>s t. R s t \<Longrightarrow> Q s t) \<Longrightarrow> evolves Q m"
  by (auto simp: evolves_def)

lemma leaf_flow_refl: "(\<And>i b. P i b b) \<Longrightarrow> lf_package t = lf_package s \<Longrightarrow> lf_step_count t = lf_step_count s \<Longrightarrow> lf_is_single_node t = lf_is_single_node s \<Longrightarrow>
    lf_is_first_policy t = lf_is_first_policy s \<Longrightarrow> lf_num_domain t = lf_num_domain s \<Longrightarrow> leaf_flow P s t"
  by (simp add: leaf_flow_def)

lemma evolves_on_agg: "(\<And>i b. P i b b) \<Longrightarrow> evolves (leaf_flow P) (on_agg m)"
  by (auto simp: evolves_def on_agg_def split: prod.splits intro: leaf_flow_refl)

lemma evolves_on_balancer: "(\<And>i b. P i b b) \<Longrightarrow> evolves (leaf_flow P) (on_balancer k m)"
  by (auto simp: evolves_def on_balancer_def split: prod.splits intro: leaf_flow_refl)

lemma evolves_upd_package:
  assumes "\<And>i b. P i b b" "\<And>pkg. P k (pk_is_step_complete pkg) (pk_is_step_complete (f pkg))"
  shows "evolves (leaf_flow P) (upd_package k f)"
  unfolding upd_package_def
proof (rule evolves_modify)
  fix s :: "'w leaf_role"
  have "P i (pk_is_step_complete (lf_package s ! i)) (pk_is_step_complete ((lf_package s)[k := f (lf_package s ! k)] ! i))"
    if "i < length (lf_package s)" for i
    using assms that by (cases "k = i") simp_all
  then show "leaf_flow P s (s\<lparr>lf_package := (lf_package s)[k := f (lf_package s ! k)]\<rparr>)" by (simp add: leaf_flow_def)
qed

lemma evolves_fold_action:
  assumes "preorder_on_states R" "\<And>acc x. evolves R (f acc x)"
  shows "evolves R (fold_action f acc xs)"
proof (induction xs arbitrary: acc)
  case Nil
  then show ?case using assms(1) by (auto simp: evolves_def preorder_on_states_def dest: reflpD)
next
  case (Cons x xs)
  have "evolves R (bind (f acc x) (\<lambda>acc'. fold_action f acc' xs))" by (rule evolves_bind[OF assms(1,2) Cons.IH])
  then show ?case by (simp add: evolves_def)
qed


lemma enforce_limit_flags: "evolves flags_same (enforce_limit now result k)"
  unfolding enforce_limit_def
  by (intro evolves_bind[OF flags_preorders(1)] evolves_if evolves_pure[OF flags_preorders(1)] evolves_upd_package evolves_on_agg evolves_on_balancer) auto

lemma enforce_limits_flags: "evolves flags_same (enforce_limits now)"
  unfolding enforce_limits_def
  by (intro evolves_bind[OF flags_preorders(1)] evolves_pure[OF flags_preorders(1)] evolves_fold_action[OF flags_preorders(1)] enforce_limit_flags)

lemma measure_flags: "evolves (flags_except k) (measure_runtime_package now k)"
  unfolding measure_runtime_package_def
  by (intro evolves_bind[OF flags_preorders(2)] evolves_if evolves_pure[OF flags_preorders(2)] evolves_upd_package evolves_on_agg evolves_on_balancer) auto

lemma reduce_flags: "evolves (flags_except k) (reduce_limit_package now k)"
  unfolding reduce_limit_package_def
  by (intro evolves_bind[OF flags_preorders(2)] evolves_if evolves_pure[OF flags_preorders(2)] evolves_upd_package evolves_on_agg evolves_on_balancer) auto

lemma new_epoch_flags:
  assumes "evolves (flags_except k) (body k)"
  shows "evolves flags_grow (with_new_epoch sq body k)"
proof -
  have "flags_grow s t" if "bind (gets (\<lambda>s. lf_package s ! k)) (\<lambda>package. bind (if 1 < n \<and> n \<noteq> pk_last_epoch_count package \<and> \<not> pk_is_step_complete package
      then body k else ret ()) (\<lambda>_. upd_package k (\<lambda>pkg. pkg\<lparr>pk_last_epoch_count := n\<rparr>))) s = (r, t)" for s r t n
  proof -
    let ?upd = "upd_package k (\<lambda>pkg. pkg\<lparr>pk_last_epoch_count := n\<rparr>)"
    have upd: "evolves flags_same ?upd" by (rule evolves_upd_package) auto
    show ?thesis
    proof (cases "1 < n \<and> n \<noteq> pk_last_epoch_count (lf_package s ! k) \<and> \<not> pk_is_step_complete (lf_package s ! k)")
      case True
      have "evolves (flags_except k) (bind (body k) (\<lambda>_. ?upd))"
        by (rule evolves_bind[OF flags_preorders(2) assms]) (rule evolves_mono[OF upd], auto elim: leaf_flow_mono)
      moreover have "bind (body k) (\<lambda>_. ?upd) s = (r, t)" using that True by (simp add: bind_act_simps)
      ultimately have "flags_except k s t" by (rule evolvesD)
      then show ?thesis using True by (auto simp: leaf_flow_def)
    next
      case False
      then have "?upd s = (r, t)" using that by (auto simp: bind_act_simps)
      then have "flags_same s t" by (rule evolvesD[OF upd])
      then show ?thesis by (rule leaf_flow_mono) auto
    qed
  qed
  then have inner: "evolves flags_grow (bind (gets (\<lambda>s. lf_package s ! k)) (\<lambda>package. bind (if 1 < n \<and> n \<noteq> pk_last_epoch_count package \<and>
      \<not> pk_is_step_complete package then body k else ret ()) (\<lambda>_. upd_package k (\<lambda>pkg. pkg\<lparr>pk_last_epoch_count := n\<rparr>))))" for n
    by (auto simp: evolves_def)
  have agg: "evolves flags_grow (on_agg m)" for m by (rule evolves_on_agg) simp
  show ?thesis unfolding with_new_epoch_def
    by (rule evolves_bind[OF flags_preorders(3)], rule evolves_pure[OF flags_preorders(3)])+
       (rule evolves_bind[OF flags_preorders(3) agg], rule evolves_bind[OF flags_preorders(3)], rule evolves_pure[OF flags_preorders(3)], rule inner)
qed

lemma sample_platform_flags: "evolves flags_grow (leaf_sample_platform sq now)"
proof -
  have "evolves flags_grow (step_sample_platform sq now step)" for step
    unfolding step_sample_platform_def
    by (cases step) (auto intro!: evolves_bind[OF flags_preorders(3)] evolves_pure[OF flags_preorders(3)] evolves_for_each[OF flags_preorders(3)]
        new_epoch_flags measure_flags reduce_flags)
  then show ?thesis unfolding leaf_sample_platform_def
    by (intro evolves_bind[OF flags_preorders(3)] evolves_pure[OF flags_preorders(3)] evolves_on_agg evolves_modify) (auto simp: leaf_flow_def)
qed

lemma flags_grow_complete: "flags_grow s t \<Longrightarrow> are_steps_complete s \<Longrightarrow> are_steps_complete t"
  by (auto simp: leaf_flow_def are_steps_complete_def list_all_length)

lemma flags_same_complete: "flags_same s t \<Longrightarrow> are_steps_complete t = are_steps_complete s"
  by (auto simp: leaf_flow_def are_steps_complete_def list_all_length)

text \<open>The sample that a leaf sends carries its step number, and it is sent when the step is complete.\<close>

lemma sample_platform_result:
  assumes "leaf_sample_platform sq now s = (Inr (result, out), t)"
  shows "smp_step out = d_of_int (lf_step_count t) \<and> result = are_steps_complete t \<and> flags_grow s t"
proof -
  have "flags_grow s t" using evolvesD[OF sample_platform_flags assms] .
  moreover have "smp_step out = d_of_int (lf_step_count t) \<and> result = are_steps_complete t"
    using assms unfolding leaf_sample_platform_def bind_cases
    by (auto simp: act_simps leaf_sample_def are_steps_complete_def)
  ultimately show ?thesis by simp
qed

section \<open>The limits that a leaf sets\<close>

text \<open>A balancer without a limit asks for nothing; the others get their limit, but at least the minimum.\<close>

definition asks :: "power_balancer \<Rightarrow> bool" where
  "asks b \<longleftrightarrow> \<not> isnan (pb_power_limit b) \<and> \<not> deq (pb_power_limit b) (Fin 0)"

definition request_of :: "double \<Rightarrow> power_balancer \<Rightarrow> double" where
  "request_of mn b = std_max (pb_power_limit b) mn"

definition enforced :: "double \<Rightarrow> power_balancer \<Rightarrow> package_s \<Rightarrow> power_balancer \<Rightarrow> package_s \<Rightarrow> bool" where
  "enforced mn b p c q \<longleftrightarrow>
     (if asks b
      then deq (pk_actual_limit q) (request_of mn b) \<and> (pk_is_out_of_bounds q \<longleftrightarrow> pk_is_out_of_bounds p \<or> dlt (pb_power_limit b) mn) \<and>
        (if deq (request_of mn b) (pk_actual_limit p) then c = b else deq (pb_power_limit c) (request_of mn b))
      else c = b \<and> q = p)"

lemma request_not_nan: "asks b \<Longrightarrow> \<not> isnan mn \<Longrightarrow> \<not> isnan (request_of mn b)"
  by (auto simp: asks_def request_of_def std_max_def)

lemma adjusted_limit: "\<not> isnan x \<Longrightarrow> deq (pb_power_limit (power_limit_adjusted t x b)) x"
  by (auto simp: power_limit_adjusted_def Let_def deq_def)

lemma enforce_limit_spec:
  assumes run: "enforce_limit now result k s = (Inr r, t)" and k: "k < length (lf_package s)" "length (lf_power_balancer s) = length (lf_package s)"
    and mn: "\<not> isnan (lf_min_pkg_power_setting s)"
  shows "\<exists>c q. lf_power_balancer t = (lf_power_balancer s)[k := c] \<and> lf_package t = (lf_package s)[k := q] \<and>
    lf_min_pkg_power_setting t = lf_min_pkg_power_setting s \<and>
    enforced (lf_min_pkg_power_setting s) (lf_power_balancer s ! k) (lf_package s ! k) c q \<and>
    (r \<longleftrightarrow> result \<or> asks (lf_power_balancer s ! k) \<and>
      \<not> deq (request_of (lf_min_pkg_power_setting s) (lf_power_balancer s ! k)) (pk_actual_limit (lf_package s ! k)))"
proof (cases "asks (lf_power_balancer s ! k)")
  case False
  then have "r = result" "t = s" using run by (auto simp: enforce_limit_def asks_def act_simps split: if_splits)
  then show ?thesis using False
    by (intro exI[of _ "lf_power_balancer s ! k"] exI[of _ "lf_package s ! k"]) (simp add: enforced_def)
next
  case True
  let ?b = "lf_power_balancer s ! k" and ?p = "lf_package s ! k" and ?mn = "lf_min_pkg_power_setting s"
  let ?q = "?p\<lparr>pk_is_out_of_bounds := pk_is_out_of_bounds ?p \<or> dlt (pb_power_limit ?b) ?mn\<rparr>" and ?x = "request_of ?mn ?b"
  have q: "?p\<lparr>pk_is_out_of_bounds := True\<rparr> = ?q" if "dlt (pb_power_limit ?b) ?mn" using that by simp
  have q': "?p = ?q" if "\<not> dlt (pb_power_limit ?b) ?mn" using that by simp
  have bounds: "(if dlt (pb_power_limit ?b) ?mn then bind (upd_package k (\<lambda>pkg. pkg\<lparr>pk_is_out_of_bounds := True\<rparr>)) (\<lambda>_. ret ?mn) else ret (pb_power_limit ?b)) s
      = (Inr ?x, s\<lparr>lf_package := (lf_package s)[k := ?q]\<rparr>)"
    using q q' by (auto simp: upd_package_def act_simps request_of_def std_max_def list_update_id)
  note x = request_not_nan[OF True mn]
  show ?thesis
  proof (cases "deq ?x (pk_actual_limit ?p)")
    case same: True
    have "r = result" "t = s\<lparr>lf_package := (lf_package s)[k := ?q]\<rparr>"
      using run True same k bounds by (auto simp: enforce_limit_def asks_def bind_def gets_def ret_def)
    then show ?thesis using True same
      by (intro exI[of _ ?b] exI[of _ ?q]) (auto simp: enforced_def deq_def)
  next
    case False
    let ?c = "power_limit_adjusted (now (int k)) ?x ?b" and ?q' = "?q\<lparr>pk_actual_limit := ?x\<rparr>"
    have "r \<and> lf_power_balancer t = (lf_power_balancer s)[k := ?c] \<and> lf_package t = (lf_package s)[k := ?q'] \<and> lf_min_pkg_power_setting t = ?mn"
      using run True False k bounds
      by (auto simp: enforce_limit_def asks_def bind_def gets_def ret_def modify_def on_agg_def on_balancer_def upd_package_def split: prod.splits sum.splits)
    then show ?thesis using True False adjusted_limit[OF x] x
      by (intro exI[of _ ?c] exI[of _ ?q']) (simp add: enforced_def deq_def)
  qed
qed

lemma enforce_all:
  assumes "fold_action (enforce_limit now) result ks s = (Inr r, t)" "distinct ks" "\<forall>k \<in> set ks. k < length (lf_package s)"
    and "length (lf_power_balancer s) = length (lf_package s)" "lf_min_pkg_power_setting s = mn" "\<not> isnan mn"
  shows "length (lf_power_balancer t) = length (lf_package t) \<and> length (lf_package t) = length (lf_package s) \<and>
    (\<forall>k < length (lf_package s). if k \<in> set ks
       then enforced mn (lf_power_balancer s ! k) (lf_package s ! k) (lf_power_balancer t ! k) (lf_package t ! k)
       else lf_power_balancer t ! k = lf_power_balancer s ! k \<and> lf_package t ! k = lf_package s ! k) \<and>
    (r \<longleftrightarrow> result \<or> (\<exists>k \<in> set ks. asks (lf_power_balancer s ! k) \<and>
       \<not> deq (request_of mn (lf_power_balancer s ! k)) (pk_actual_limit (lf_package s ! k))))"
  using assms
proof (induction ks arbitrary: result s)
  case (Cons k ks)
  obtain r1 u where u: "enforce_limit now result k s = (Inr r1, u)" "fold_action (enforce_limit now) r1 ks u = (Inr r, t)"
    using Cons.prems(1) by (auto simp: bind_cases)
  have kl: "k < length (lf_package s)" "k < length (lf_power_balancer s)" using Cons.prems(3,4) by auto
  obtain c q where cq: "lf_power_balancer u = (lf_power_balancer s)[k := c]" "lf_package u = (lf_package s)[k := q]" "lf_min_pkg_power_setting u = mn"
    "enforced mn (lf_power_balancer s ! k) (lf_package s ! k) c q"
    "r1 \<longleftrightarrow> result \<or> asks (lf_power_balancer s ! k) \<and> \<not> deq (request_of mn (lf_power_balancer s ! k)) (pk_actual_limit (lf_package s ! k))"
    using enforce_limit_spec[OF u(1) kl(1) Cons.prems(4)] Cons.prems(5,6) by auto
  have other: "lf_power_balancer u ! i = lf_power_balancer s ! i" "lf_package u ! i = lf_package s ! i" if "i \<noteq> k" for i
    using cq(1,2) that by simp_all
  have ks: "k \<notin> set ks" "i \<in> set ks \<Longrightarrow> i \<noteq> k" for i using Cons.prems(2) by auto
  note IH = Cons.IH[OF u(2)]
  have IH: "length (lf_power_balancer t) = length (lf_package t)" "length (lf_package t) = length (lf_package u)"
    "\<forall>i < length (lf_package u). if i \<in> set ks
       then enforced mn (lf_power_balancer u ! i) (lf_package u ! i) (lf_power_balancer t ! i) (lf_package t ! i)
       else lf_power_balancer t ! i = lf_power_balancer u ! i \<and> lf_package t ! i = lf_package u ! i"
    "r \<longleftrightarrow> r1 \<or> (\<exists>i \<in> set ks. asks (lf_power_balancer u ! i) \<and> \<not> deq (request_of mn (lf_power_balancer u ! i)) (pk_actual_limit (lf_package u ! i)))"
    using IH Cons.prems cq(1-3) by auto
  have each: "if i \<in> set (k # ks)
       then enforced mn (lf_power_balancer s ! i) (lf_package s ! i) (lf_power_balancer t ! i) (lf_package t ! i)
       else lf_power_balancer t ! i = lf_power_balancer s ! i \<and> lf_package t ! i = lf_package s ! i" if "i < length (lf_package s)" for i
  proof (cases "i = k")
    case True
    then have "lf_power_balancer t ! i = c" "lf_package t ! i = q" using IH(3) ks(1) kl cq(1,2) by auto
    then show ?thesis using True cq(4) by simp
  next
    case False
    then show ?thesis using IH(3) other[OF False] that cq(2) by auto
  qed
  have "(\<exists>i \<in> set ks. asks (lf_power_balancer u ! i) \<and> \<not> deq (request_of mn (lf_power_balancer u ! i)) (pk_actual_limit (lf_package u ! i))) \<longleftrightarrow>
    (\<exists>i \<in> set ks. asks (lf_power_balancer s ! i) \<and> \<not> deq (request_of mn (lf_power_balancer s ! i)) (pk_actual_limit (lf_package s ! i)))"
    using other ks by (intro bex_cong) auto
  then show ?case using IH(1,2,4) each cq(2,5) by auto
qed simp


text \<open>Two packages: the limit of the first has fallen below the minimum, the second has no limit.\<close>

definition limit_leaf :: "(int \<Rightarrow> double) leaf_role" where
  "limit_leaf = \<lparr>lf_policy = nan_policy, lf_step_count = 2, lf_num_node = 1,
     lf_sample_agg = \<lparr>sg_platform_io = table_pio\<lparr>m_active_control := [(Some (table_group\<lparr>io_adjust := (\<lambda>i x. modify (\<lambda>w. w(i := x)))\<rparr>), 7)]\<rparr>,
       sg_time_idx = 0, sg_is_updated = False, sg_sum_signal = [], sg_avg_signal = [], sg_period_duration = Fin 0, sg_period_last = 0\<rparr>,
     lf_num_domain = 2, lf_count_pio_idx = [], lf_time_agg_idx = [], lf_network_agg_idx = [], lf_ignore_agg_idx = [],
     lf_power_balancer = [set_power_cap (Fin 40) (make_power_balancer (Fin 1)), set_power_cap NaN (make_power_balancer (Fin 1))],
     lf_package = (let pkg = \<lparr>pk_last_epoch_count = 0, pk_runtime = Fin 0, pk_actual_limit = Fin 100, pk_power_slack = Fin 0, pk_power_headroom = Fin 0,
       pk_is_out_of_bounds = False, pk_is_step_complete = True, pk_pio_power_idx = 0\<rparr> in [pkg, pkg]),
     lf_min_pkg_power_setting = Fin 50, lf_max_pkg_power_setting = Fin 200, lf_is_single_node = False, lf_is_first_policy = True\<rparr>"

lemma limit_leaf_runs: "\<exists>t. enforce_limits now limit_leaf = (Inr True, t) \<and> m_world (sg_platform_io (lf_sample_agg t)) 7 = Fin 50"
  by (simp add: enforce_limits_def enforce_limit_def limit_leaf_def set_power_cap_def make_power_balancer_def act_simps bind_def upt_rec Let_def dlt_def deq_def
      upd_package_def on_agg_def on_pio_def adjust_def adjust_rec.simps num_control_pushed_def io_def table_pio_def make_pio_def on_balancer_def)


end
