(* ===== verification/Tree_Communicator.thy ===== *)
theory Tree_Communicator
  imports Binary64 Helper_Strings
begin

text \<open>
  \<^verbatim>\<open>TreeCommLevel.cpp\<close> and \<^verbatim>\<open>TreeComm.cpp\<close> (libgeopm/src): the mailboxes through which the agents of a job exchange
  policies and samples, and the tree that the ranks of the job form.

  A level is a group of ranks with rank 0 as the parent. Its state here is that of all of its objects together: the memory that each
  rank has exposed through a window, which the others write with \<^verbatim>\<open>window_put()\<close>. Each rank has a mailbox for a policy
  and rank 0 one slot for the sample of each rank; the first \<^verbatim>\<open>double\<close> of a mailbox or slot is a flag. The calls
  between a lock and its unlock are one access.
\<close>

section \<open>One level\<close>

record comm_level =
  tl_size :: nat
  tl_num_send_up :: nat
  tl_num_send_down :: nat
  tl_sample_mailbox :: "double list"
  tl_policy_mailbox :: "double list list"
  tl_policy_last :: "double list list"
  tl_overhead_send :: "64 word list"

definition make_comm_level :: "nat \<Rightarrow> nat \<Rightarrow> nat \<Rightarrow> comm_level" where
  "make_comm_level num_rank num_send_up num_send_down =
     \<lparr>tl_size = num_rank, tl_num_send_up = num_send_up, tl_num_send_down = num_send_down,
      tl_sample_mailbox = replicate (num_rank * (num_send_up + 1)) (Fin 0),
      tl_policy_mailbox = replicate num_rank (replicate (num_send_down + 1) (Fin 0)),
      tl_policy_last = replicate num_rank (replicate num_send_down NaN),
      tl_overhead_send = replicate num_rank 0\<rparr>"

text \<open>\<^verbatim>\<open>memcpy()\<close> and \<^verbatim>\<open>window_put()\<close> of \<^verbatim>\<open>double\<close>s, with the offset in \<^verbatim>\<open>double\<close>s.\<close>

definition window_put :: "nat \<Rightarrow> double list \<Rightarrow> double list \<Rightarrow> double list" where
  "window_put offset msg memory = take offset memory @ msg @ drop (offset + length msg) memory"

definition add_overhead :: "nat \<Rightarrow> nat \<Rightarrow> comm_level \<Rightarrow> comm_level" where
  "add_overhead rank num_double s =
     s\<lparr>tl_overhead_send := (tl_overhead_send s)[rank := tl_overhead_send s ! rank + word_of_nat (8 + num_double * 8)]\<rparr>"

definition level_send_up :: "nat \<Rightarrow> double list \<Rightarrow> (comm_level, unit) action" where
  "level_send_up rank sample_vec =
     bind (gets tl_num_send_up) (\<lambda>num_up.
     bind (guard (length sample_vec = num_up) invalid) (\<lambda>_.
     if rank \<noteq> 0 then
       let base_off = rank * (num_up + 1) in
       bind (modify (\<lambda>s. s\<lparr>tl_sample_mailbox := window_put (base_off + 1) sample_vec (window_put base_off [Fin 1] (tl_sample_mailbox s))\<rparr>)) (\<lambda>_.
       modify (add_overhead rank num_up))
     else
       modify (\<lambda>s. s\<lparr>tl_sample_mailbox := window_put 1 sample_vec (window_put 0 [Fin 1] (tl_sample_mailbox s))\<rparr>)))"

text \<open>\<^verbatim>\<open>operator==\<close> of two vectors of \<^verbatim>\<open>double\<close>s.\<close>

definition vec_eq :: "double list \<Rightarrow> double list \<Rightarrow> bool" where
  "vec_eq xs ys \<longleftrightarrow> list_all2 deq xs ys"

definition put_policy :: "nat \<Rightarrow> double list \<Rightarrow> comm_level \<Rightarrow> comm_level" where
  "put_policy rank policy s =
     s\<lparr>tl_policy_mailbox := (tl_policy_mailbox s)[rank := window_put 1 policy (window_put 0 [Fin 1] (tl_policy_mailbox s ! rank))]\<rparr>"

definition send_child :: "double list list \<Rightarrow> nat \<Rightarrow> comm_level \<Rightarrow> comm_level" where
  "send_child policy child_rank s =
     (if \<not> vec_eq (policy ! child_rank) (tl_policy_last s ! child_rank)
      then (add_overhead 0 (tl_num_send_down s) (put_policy child_rank (policy ! child_rank) s))
        \<lparr>tl_policy_last := (tl_policy_last s)[child_rank := policy ! child_rank]\<rparr>
      else s)"

definition level_send_down :: "double list list \<Rightarrow> (comm_level, unit) action" where
  "level_send_down policy =
     bind (gets (\<lambda>s. tl_size s = length policy \<and> list_all (\<lambda>it. length it = tl_num_send_down s) policy)) (\<lambda>is_sized.
     bind (guard is_sized invalid) (\<lambda>_.
     bind (modify (put_policy 0 (policy ! 0))) (\<lambda>_.
     modify (\<lambda>s. foldl (\<lambda>t child_rank. send_child policy child_rank t) s [1..<tl_size s]))))"

definition sample_slot :: "comm_level \<Rightarrow> nat \<Rightarrow> nat" where
  "sample_slot s child_rank = child_rank * (tl_num_send_up s + 1)"

definition all_posted :: "comm_level \<Rightarrow> bool" where
  "all_posted s \<longleftrightarrow> list_all (\<lambda>child_rank. \<not> deq (tl_sample_mailbox s ! sample_slot s child_rank) (Fin 0)) [0..<tl_size s]"

definition take_samples :: "comm_level \<Rightarrow> double list list \<times> comm_level" where
  "take_samples s =
     (map (\<lambda>child_rank. take (tl_num_send_up s) (drop (sample_slot s child_rank + 1) (tl_sample_mailbox s))) [0..<tl_size s],
      s\<lparr>tl_sample_mailbox := foldl (\<lambda>mem child_rank. mem[sample_slot s child_rank := Fin 0]) (tl_sample_mailbox s) [0..<tl_size s]\<rparr>)"

text \<open>\<^verbatim>\<open>receive_up()\<close> and \<^verbatim>\<open>receive_down()\<close> fill their argument in place: it is passed in and out.\<close>

definition level_receive_up :: "double list list \<Rightarrow> (comm_level, bool \<times> double list list) action" where
  "level_receive_up in_sample =
     bind (gets (\<lambda>s. tl_size s = length in_sample \<and> list_all (\<lambda>it. length it = tl_num_send_up s) in_sample)) (\<lambda>is_sized.
     bind (guard is_sized invalid) (\<lambda>_.
     bind (gets all_posted) (\<lambda>is_complete.
     bind (if is_complete
           then bind (gets take_samples) (\<lambda>(samples, t). bind (modify (\<lambda>_. t)) (\<lambda>_. ret samples))
           else ret in_sample) (\<lambda>out_sample.
     ret (is_complete \<and> list_all (\<lambda>vec. list_all (\<lambda>val. \<not> isnan val) vec) out_sample, out_sample)))))"

definition level_receive_down :: "nat \<Rightarrow> double list \<Rightarrow> (comm_level, bool \<times> double list) action" where
  "level_receive_down rank in_policy =
     bind (gets (\<lambda>s. tl_policy_mailbox s ! rank)) (\<lambda>mailbox.
     bind (gets tl_num_send_down) (\<lambda>num_down.
     let is_complete = deq (mailbox ! 0) (Fin 1); policy = (if is_complete then take num_down (drop 1 mailbox) else in_policy)
     in ret (is_complete \<and> list_all (\<lambda>val. \<not> isnan val) policy, policy)))"

section \<open>The mailboxes\<close>

text \<open>
  What the memory means: the policy that a rank has last been sent and the sample that it has posted and that has not been taken.
\<close>

definition level_mail :: "comm_level \<Rightarrow> nat \<Rightarrow> double list option" where
  "level_mail s rank = (if deq (tl_policy_mailbox s ! rank ! 0) (Fin 1) then Some (drop 1 (tl_policy_mailbox s ! rank)) else None)"

definition level_post :: "comm_level \<Rightarrow> nat \<Rightarrow> double list option" where
  "level_post s rank = (if deq (tl_sample_mailbox s ! sample_slot s rank) (Fin 0) then None
     else Some (take (tl_num_send_up s) (drop (sample_slot s rank + 1) (tl_sample_mailbox s))))"

definition level_ok :: "comm_level \<Rightarrow> bool" where
  "level_ok s \<longleftrightarrow> 0 < tl_size s \<and> 0 < tl_num_send_down s \<and>
     length (tl_sample_mailbox s) = tl_size s * (tl_num_send_up s + 1) \<and> length (tl_policy_mailbox s) = tl_size s \<and>
     length (tl_policy_last s) = tl_size s \<and>
     (\<forall>r < tl_size s. length (tl_policy_mailbox s ! r) = tl_num_send_down s + 1 \<and> length (tl_policy_last s ! r) = tl_num_send_down s \<and>
        (r \<noteq> 0 \<longrightarrow> level_mail s r = Some (tl_policy_last s ! r) \<or> list_all isnan (tl_policy_last s ! r)))"

lemma length_put: "offset + length msg \<le> length memory \<Longrightarrow> length (window_put offset msg memory) = length memory"
  by (simp add: window_put_def)

lemma put_nth:
  assumes "offset + length msg \<le> length memory" "i < length memory"
  shows "window_put offset msg memory ! i = (if offset \<le> i \<and> i < offset + length msg then msg ! (i - offset) else memory ! i)"
  using assms by (auto simp: window_put_def nth_append min_def)

lemma make_level_ok: "0 < n \<Longrightarrow> 0 < down \<Longrightarrow> level_ok (make_comm_level n up down)"
  by (auto simp: level_ok_def make_comm_level_def list_all_length)

lemma put_message: "length memory = Suc (length msg) \<Longrightarrow> window_put 1 msg (window_put 0 [Fin 1] memory) = Fin 1 # msg"
  by (simp add: window_put_def)

lemma mail_put_policy:
  assumes "level_ok s" "rank < tl_size s" "length policy = tl_num_send_down s"
  shows "level_mail (put_policy rank policy s) = (level_mail s)(rank \<mapsto> policy)"
proof
  fix r
  have "window_put 1 policy (window_put 0 [Fin 1] (tl_policy_mailbox s ! rank)) = Fin 1 # policy"
    using assms by (intro put_message) (simp add: level_ok_def)
  then show "level_mail (put_policy rank policy s) r = ((level_mail s)(rank \<mapsto> policy)) r"
    using assms by (auto simp: level_mail_def put_policy_def level_ok_def nth_list_update deq_def)
qed

lemma mail_same: "tl_policy_mailbox t = tl_policy_mailbox s \<Longrightarrow> level_mail t = level_mail s"
  by (simp add: level_mail_def fun_eq_iff)

lemma post_same: "tl_sample_mailbox t = tl_sample_mailbox s \<Longrightarrow> tl_num_send_up t = tl_num_send_up s \<Longrightarrow> level_post t = level_post s"
  by (simp add: level_post_def sample_slot_def fun_eq_iff)

lemma level_okD:
  assumes "level_ok s" "r < tl_size s"
  shows "length (tl_policy_mailbox s ! r) = tl_num_send_down s + 1" "length (tl_policy_last s ! r) = tl_num_send_down s"
    "r \<noteq> 0 \<Longrightarrow> level_mail s r = Some (tl_policy_last s ! r) \<or> list_all isnan (tl_policy_last s ! r)"
  using assms by (auto simp: level_ok_def)

text \<open>A policy that equals the last one is in the mailbox already.\<close>

lemma vec_eq_same: "vec_eq xs ys \<Longrightarrow> xs = ys"
  unfolding vec_eq_def by (induction rule: list_all2_induct) (auto simp: deq_def)

lemma vec_eq_not_nan: "vec_eq xs ys \<Longrightarrow> list_all isnan ys \<Longrightarrow> ys = []"
  unfolding vec_eq_def by (cases ys) (auto simp: list_all2_Cons2 deq_def)

lemma put_policy_fields [simp]:
  "tl_size (put_policy r p s) = tl_size s" "tl_num_send_down (put_policy r p s) = tl_num_send_down s"
  "tl_num_send_up (put_policy r p s) = tl_num_send_up s" "tl_policy_last (put_policy r p s) = tl_policy_last s"
  "tl_sample_mailbox (put_policy r p s) = tl_sample_mailbox s"
  "tl_policy_mailbox (put_policy r p s) = (tl_policy_mailbox s)[r := window_put 1 p (window_put 0 [Fin 1] (tl_policy_mailbox s ! r))]"
  by (simp_all add: put_policy_def)

lemma put_policy_ok:
  assumes "level_ok s" "rank < tl_size s" "length policy = tl_num_send_down s"
  shows "level_ok ((put_policy rank policy s)\<lparr>tl_policy_last := (tl_policy_last s)[rank := policy]\<rparr>)" (is "level_ok ?t")
    "rank = 0 \<Longrightarrow> level_ok (put_policy rank policy s)"
proof -
  have m: "level_mail (put_policy rank policy s) = (level_mail s)(rank \<mapsto> policy)" using assms by (rule mail_put_policy)
  moreover have "level_mail ?t = level_mail (put_policy rank policy s)" by (rule mail_same) simp
  ultimately have mt: "level_mail ?t = (level_mail s)(rank \<mapsto> policy)" by simp
  have len: "length (window_put 1 policy (window_put 0 [Fin 1] (tl_policy_mailbox s ! rank))) = tl_num_send_down s + 1"
    using assms level_okD(1)[OF assms(1,2)] by (subst put_message) auto
  show "level_ok ?t"
    using assms(1) len assms(2,3) level_okD(3)[OF assms(1)]
    by (auto simp: level_ok_def mt nth_list_update)
  show "level_ok (put_policy rank policy s)" if "rank = 0"
    using assms(1) len assms(2,3) level_okD(3)[OF assms(1)] that
    by (auto simp: level_ok_def m[unfolded that] that nth_list_update)
qed

lemma add_overhead_fields [simp]:
  "tl_size (add_overhead r n s) = tl_size s" "tl_num_send_down (add_overhead r n s) = tl_num_send_down s"
  "tl_num_send_up (add_overhead r n s) = tl_num_send_up s" "tl_policy_last (add_overhead r n s) = tl_policy_last s"
  "tl_policy_mailbox (add_overhead r n s) = tl_policy_mailbox s" "tl_sample_mailbox (add_overhead r n s) = tl_sample_mailbox s"
  by (simp_all add: add_overhead_def)

lemma add_overhead_simps [simp]:
  "level_mail (add_overhead r n s) = level_mail s" "level_post (add_overhead r n s) = level_post s" "level_ok (add_overhead r n s) = level_ok s"
proof -
  show m: "level_mail (add_overhead r n s) = level_mail s" by (rule mail_same) simp
  show "level_post (add_overhead r n s) = level_post s" by (rule post_same) simp_all
  show "level_ok (add_overhead r n s) = level_ok s" unfolding level_ok_def m by simp
qed

lemma send_child_mail:
  assumes "level_ok s" "r < tl_size s" "r \<noteq> 0" "length (policy ! r) = tl_num_send_down s"
  shows "level_ok (send_child policy r s) \<and> level_mail (send_child policy r s) = (level_mail s)(r \<mapsto> policy ! r) \<and> level_post (send_child policy r s) = level_post s \<and>
    tl_size (send_child policy r s) = tl_size s \<and> tl_num_send_down (send_child policy r s) = tl_num_send_down s \<and>
    tl_num_send_up (send_child policy r s) = tl_num_send_up s"
proof (cases "vec_eq (policy ! r) (tl_policy_last s ! r)")
  case True
  have "tl_policy_last s ! r \<noteq> []" using level_okD(2)[OF assms(1,2)] assms(1) by (auto simp: level_ok_def)
  then have "level_mail s r = Some (policy ! r)" using level_okD(3)[OF assms(1,2,3)] vec_eq_same[OF True] vec_eq_not_nan[OF True] by auto
  then show ?thesis using True assms(1) by (simp add: send_child_def fun_upd_idem)
next
  case False
  let ?p = "put_policy r (policy ! r) s"
  let ?t = "(add_overhead 0 (tl_num_send_down s) ?p)\<lparr>tl_policy_last := (tl_policy_last s)[r := policy ! r]\<rparr>"
  have t: "send_child policy r s = ?t" using False by (simp add: send_child_def)
  have "level_ok ?t"
  proof -
    have "?t = add_overhead 0 (tl_num_send_down s) (?p\<lparr>tl_policy_last := (tl_policy_last s)[r := policy ! r]\<rparr>)" by (simp add: add_overhead_def)
    then show ?thesis using put_policy_ok(1)[OF assms(1,2,4)] by (metis add_overhead_simps(3))
  qed
  moreover have "level_mail ?t = (level_mail s)(r \<mapsto> policy ! r)"
    using mail_put_policy[OF assms(1,2,4)] by (subst mail_same[of _ ?p]) simp_all
  moreover have "level_post ?t = level_post s" by (rule post_same) (simp_all add: put_policy_def)
  ultimately show ?thesis unfolding t by (simp add: put_policy_def)
qed

lemma send_children:
  assumes "level_ok s" "set rs \<subseteq> {1..<tl_size s}" "\<forall>r < tl_size s. length (policy ! r) = tl_num_send_down s"
  shows "let t = foldl (\<lambda>t r. send_child policy r t) s rs in level_ok t \<and> level_post t = level_post s \<and> tl_size t = tl_size s \<and>
    level_mail t = (\<lambda>r. if r \<in> set rs then Some (policy ! r) else level_mail s r)"
  using assms
proof (induction rs arbitrary: s)
  case (Cons r rs)
  then have r: "r < tl_size s" "r \<noteq> 0" "length (policy ! r) = tl_num_send_down s" by auto
  note c = send_child_mail[where s = s and r = r, OF Cons.prems(1) r]
  have "let t = foldl (\<lambda>t r. send_child policy r t) (send_child policy r s) rs in level_ok t \<and> level_post t = level_post (send_child policy r s) \<and>
      tl_size t = tl_size (send_child policy r s) \<and> level_mail t = (\<lambda>q. if q \<in> set rs then Some (policy ! q) else level_mail (send_child policy r s) q)"
    by (rule Cons.IH) (use c Cons.prems in auto)
  then show ?case using c by (auto simp: Let_def fun_eq_iff)
qed simp

lemma level_send_down_spec:
  assumes "level_ok s" "length policy = tl_size s" "\<forall>p \<in> set policy. length p = tl_num_send_down s"
  shows "\<exists>t. level_send_down policy s = (Inr (), t) \<and> level_ok t \<and> level_post t = level_post s \<and> (\<forall>r < tl_size s. level_mail t r = Some (policy ! r)) \<and>
    (\<forall>r \<ge> tl_size s. level_mail t r = level_mail s r)"
proof -
  let ?u = "put_policy 0 (policy ! 0) s"
  let ?t = "foldl (\<lambda>t r. send_child policy r t) ?u [1..<tl_size s]"
  have len: "\<forall>r < tl_size s. length (policy ! r) = tl_num_send_down s" using assms(2,3) by auto
  have pos: "0 < tl_size s" using assms(1) by (simp add: level_ok_def)
  have u: "level_ok ?u" "level_mail ?u = (level_mail s)(0 \<mapsto> policy ! 0)" "level_post ?u = level_post s" "tl_size ?u = tl_size s" "tl_num_send_down ?u = tl_num_send_down s"
    using put_policy_ok(2)[OF assms(1) pos] mail_put_policy[OF assms(1) pos] len pos
    by (auto intro!: post_same)
  have t: "level_ok ?t \<and> level_post ?t = level_post ?u \<and> tl_size ?t = tl_size ?u \<and> level_mail ?t = (\<lambda>r. if r \<in> set [1..<tl_size s] then Some (policy ! r) else level_mail ?u r)"
    using send_children[OF u(1), of "[1..<tl_size s]" policy] u(4,5) len by (simp add: Let_def)
  have "level_send_down policy s = (Inr (), ?t)"
    using assms(2,3) u(4) by (auto simp: level_send_down_def act_simps list_all_iff)
  moreover have "level_mail ?t r = Some (policy ! r)" if "r < tl_size s" for r using t u(2) that by (cases "r = 0") auto
  moreover have "level_mail ?t r = level_mail s r" if "r \<ge> tl_size s" for r using t u(2) that pos by auto
  ultimately show ?thesis using t u(3) by auto
qed

text \<open>The slots of the samples do not overlap.\<close>

lemma slot_split:
  fixes u r j :: nat
  assumes "j \<le> u"
  shows "(r * (u + 1) + j) div (u + 1) = r" "(r * (u + 1) + j) mod (u + 1) = j"
  using assms by (simp_all del: add_Suc_right mult_Suc_right)

lemma slot_unique:
  fixes u :: nat
  assumes "r * (u + 1) + j = q * (u + 1) + k" "j \<le> u" "k \<le> u"
  shows "r = q \<and> j = k"
  using assms slot_split[of j u r] slot_split[of k u q] by metis

lemma slot_fits:
  assumes "level_ok s" "r < tl_size s"
  shows "sample_slot s r + tl_num_send_up s < length (tl_sample_mailbox s)"
proof -
  have "Suc r * (tl_num_send_up s + 1) \<le> tl_size s * (tl_num_send_up s + 1)" using assms(2) by (intro mult_le_mono1) simp
  then show ?thesis using assms(1) by (simp add: level_ok_def sample_slot_def)
qed

lemma post_nth:
  assumes "level_ok s" "r < tl_size s"
  shows "level_post s r = (if deq (tl_sample_mailbox s ! sample_slot s r) (Fin 0) then None
     else Some (map (\<lambda>j. tl_sample_mailbox s ! (sample_slot s r + Suc j)) [0..<tl_num_send_up s]))"
proof -
  have "take (tl_num_send_up s) (drop (sample_slot s r + 1) (tl_sample_mailbox s)) = map (\<lambda>j. tl_sample_mailbox s ! (sample_slot s r + Suc j)) [0..<tl_num_send_up s]"
    using slot_fits[OF assms] by (intro nth_equalityI) auto
  then show ?thesis by (simp add: level_post_def)
qed

lemma post_cong:
  assumes "level_ok s" "level_ok t" "tl_size t = tl_size s" "tl_num_send_up t = tl_num_send_up s" "r < tl_size s"
    and "\<And>j. j \<le> tl_num_send_up s \<Longrightarrow> tl_sample_mailbox t ! (sample_slot s r + j) = tl_sample_mailbox s ! (sample_slot s r + j)"
  shows "level_post t r = level_post s r"
proof -
  have "sample_slot t r = sample_slot s r" using assms(4) by (simp add: sample_slot_def)
  moreover have "map (\<lambda>j. tl_sample_mailbox t ! (sample_slot s r + Suc j)) [0..<tl_num_send_up s] = map (\<lambda>j. tl_sample_mailbox s ! (sample_slot s r + Suc j)) [0..<tl_num_send_up s]"
    using assms(6) by (intro map_cong) (auto simp del: add_Suc_right)
  ultimately show ?thesis using assms(3-5) assms(6)[of 0] post_nth[OF assms(1,5)] post_nth[OF assms(2), of r] by simp
qed

lemma sample_mailbox_ok:
  assumes "level_ok s" "length mem = length (tl_sample_mailbox s)"
  shows "level_ok (s\<lparr>tl_sample_mailbox := mem\<rparr>)" "level_mail (s\<lparr>tl_sample_mailbox := mem\<rparr>) = level_mail s"
proof -
  show m: "level_mail (s\<lparr>tl_sample_mailbox := mem\<rparr>) = level_mail s" by (rule mail_same) simp
  show "level_ok (s\<lparr>tl_sample_mailbox := mem\<rparr>)" using assms unfolding level_ok_def m by simp
qed

lemma level_send_up_spec:
  assumes ok: "level_ok s" and r: "r < tl_size s" and x: "length x = tl_num_send_up s"
  shows "\<exists>t. level_send_up r x s = (Inr (), t) \<and> level_ok t \<and> tl_size t = tl_size s \<and> level_mail t = level_mail s \<and> (\<forall>q < tl_size s. level_post t q = ((level_post s)(r \<mapsto> x)) q)"
proof -
  let ?u = "tl_num_send_up s" and ?mem = "tl_sample_mailbox s"
  let ?new = "window_put (sample_slot s r + 1) x (window_put (sample_slot s r) [Fin 1] ?mem)"
  let ?s = "s\<lparr>tl_sample_mailbox := ?new\<rparr>"
  have fits: "sample_slot s r + ?u < length ?mem" using slot_fits[OF ok r] .
  then have len: "length ?new = length ?mem" using x by (simp add: length_put)
  have nth: "?new ! i = (if sample_slot s r \<le> i \<and> i \<le> sample_slot s r + ?u then (Fin 1 # x) ! (i - sample_slot s r) else ?mem ! i)" if "i < length ?mem" for i
    using that fits x by (auto simp: put_nth length_put nth_Cons')
  have ok': "level_ok ?s" "level_mail ?s = level_mail s" using sample_mailbox_ok[OF ok len] by simp_all
  have run: "level_send_up r x s = (Inr (), if r \<noteq> 0 then add_overhead r ?u ?s else ?s)"
    using x by (auto simp: level_send_up_def act_simps sample_slot_def Let_def)
  have "level_post ?s q = ((level_post s)(r \<mapsto> x)) q" if q: "q < tl_size s" for q
  proof (cases "q = r")
    case True
    have "?new ! sample_slot s r = Fin 1" using nth[of "sample_slot s r"] fits by simp
    moreover have "map (\<lambda>j. ?new ! (sample_slot s r + Suc j)) [0..<?u] = x"
      using nth fits x by (intro nth_equalityI) auto
    ultimately show ?thesis using post_nth[OF ok'(1), of r] r True by (simp add: sample_slot_def deq_def)
  next
    case False
    have "?new ! (sample_slot s q + j) = ?mem ! (sample_slot s q + j)" if j: "j \<le> ?u" for j
    proof -
      have "\<not> (sample_slot s r \<le> sample_slot s q + j \<and> sample_slot s q + j \<le> sample_slot s r + ?u)"
      proof
        assume "sample_slot s r \<le> sample_slot s q + j \<and> sample_slot s q + j \<le> sample_slot s r + ?u"
        then obtain k where "sample_slot s q + j = sample_slot s r + k" "k \<le> ?u" by (metis add_le_cancel_left le_Suc_ex)
        then show False using slot_unique[of q ?u j r k] j False by (simp add: sample_slot_def)
      qed
      then show ?thesis using nth[of "sample_slot s q + j"] slot_fits[OF ok q] j by auto
    qed
    then show ?thesis using post_cong[OF ok ok'(1) _ _ q] False by simp
  qed
  then show ?thesis using run ok' by auto
qed

lemma foldl_clear_nth:
  "i < length mem \<Longrightarrow> foldl (\<lambda>m c. m[f c := v]) mem cs ! i = (if i \<in> f ` set cs then v else mem ! i)"
  by (induction cs arbitrary: mem) (auto simp: nth_list_update)

lemma length_foldl_clear: "length (foldl (\<lambda>m c. m[f c := v]) mem cs) = length mem"
  by (induction cs arbitrary: mem) auto

lemma all_posted_iff: "all_posted s \<longleftrightarrow> (\<forall>r < tl_size s. level_post s r \<noteq> None)"
  by (auto simp: all_posted_def list_all_iff level_post_def)

lemma take_samples_spec:
  assumes "level_ok s" "all_posted s"
  shows "fst (take_samples s) = map (\<lambda>r. the (level_post s r)) [0..<tl_size s]" "level_ok (snd (take_samples s))"
    "level_mail (snd (take_samples s)) = level_mail s" "r < tl_size s \<Longrightarrow> level_post (snd (take_samples s)) r = None" "tl_size (snd (take_samples s)) = tl_size s"
proof -
  let ?mem = "foldl (\<lambda>mem c. mem[sample_slot s c := Fin 0]) (tl_sample_mailbox s) [0..<tl_size s]"
  have t: "snd (take_samples s) = s\<lparr>tl_sample_mailbox := ?mem\<rparr>" by (simp add: take_samples_def)
  show "fst (take_samples s) = map (\<lambda>r. the (level_post s r)) [0..<tl_size s]"
    using assms(2) by (auto simp: take_samples_def all_posted_iff level_post_def)
  show ok: "level_ok (snd (take_samples s))" "level_mail (snd (take_samples s)) = level_mail s"
    unfolding t by (rule sample_mailbox_ok[OF assms(1)], rule length_foldl_clear)+
  show "level_post (snd (take_samples s)) r = None" if "r < tl_size s"
  proof -
    have "?mem ! sample_slot s r = Fin 0" using slot_fits[OF assms(1) that] that by (simp add: foldl_clear_nth)
    then show ?thesis using that by (simp add: t level_post_def sample_slot_def deq_def)
  qed
  show "tl_size (snd (take_samples s)) = tl_size s" by (simp add: t)
qed

lemma level_receive_up_spec:
  assumes "level_ok s" "length in_sample = tl_size s" "\<forall>x \<in> set in_sample. length x = tl_num_send_up s"
  shows "level_receive_up in_sample s =
    (if \<forall>r < tl_size s. level_post s r \<noteq> None
     then let xs = map (\<lambda>r. the (level_post s r)) [0..<tl_size s] in (Inr (\<forall>x \<in> set xs. \<forall>v \<in> set x. \<not> isnan v, xs), snd (take_samples s))
     else (Inr (False, in_sample), s))"
  using assms(2,3) take_samples_spec(1)[OF assms(1)]
  by (cases "all_posted s") (auto simp: level_receive_up_def act_simps bind_def all_posted_iff list_all_iff Let_def split_beta)

lemma level_receive_down_spec:
  assumes "level_ok s" "r < tl_size s"
  shows "level_receive_down r in_policy s = (Inr (case level_mail s r of None \<Rightarrow> (False, in_policy) | Some p \<Rightarrow> (\<forall>v \<in> set p. \<not> isnan v, p)), s)"
  using level_okD(1)[OF assms] by (simp add: level_receive_down_def act_simps level_mail_def list_all_iff Let_def)

text \<open>The states that a level can reach: the calls of any ranks in any order.\<close>

inductive level_reachable :: "nat \<Rightarrow> nat \<Rightarrow> nat \<Rightarrow> comm_level \<Rightarrow> bool" for n up down :: nat where
  new: "level_reachable n up down (make_comm_level n up down)"
| send_up: "level_reachable n up down s \<Longrightarrow> r < n \<Longrightarrow> level_send_up r x s = (res, t) \<Longrightarrow> level_reachable n up down t"
| send_down: "level_reachable n up down s \<Longrightarrow> level_send_down ps s = (res, t) \<Longrightarrow> level_reachable n up down t"
| receive_up: "level_reachable n up down s \<Longrightarrow> level_receive_up xs s = (got, t) \<Longrightarrow> level_reachable n up down t"
| receive_down: "level_reachable n up down s \<Longrightarrow> r < n \<Longrightarrow> level_receive_down r p s = (got_down, t) \<Longrightarrow> level_reachable n up down t"

lemma level_send_up_bad: "length x \<noteq> tl_num_send_up s \<Longrightarrow> level_send_up r x s = (Inl invalid, s)"
  by (simp add: level_send_up_def act_simps)

lemma level_send_down_bad: "length ps \<noteq> tl_size s \<or> (\<exists>p \<in> set ps. length p \<noteq> tl_num_send_down s) \<Longrightarrow> level_send_down ps s = (Inl invalid, s)"
  by (auto simp: level_send_down_def act_simps list_all_iff)

lemma level_receive_up_bad: "length xs \<noteq> tl_size s \<or> (\<exists>x \<in> set xs. length x \<noteq> tl_num_send_up s) \<Longrightarrow> level_receive_up xs s = (Inl invalid, s)"
  by (auto simp: level_receive_up_def act_simps list_all_iff)

definition same_shape :: "comm_level \<Rightarrow> comm_level \<Rightarrow> bool" where
  "same_shape s t \<longleftrightarrow> tl_size t = tl_size s \<and> tl_num_send_up t = tl_num_send_up s \<and> tl_num_send_down t = tl_num_send_down s"

lemma same_shape_preorder: "preorder_on_states same_shape"
  by (auto simp: preorder_on_states_def same_shape_def intro!: reflpI transpI)

lemma send_child_shape: "same_shape s (send_child ps r s)"
  by (simp add: send_child_def same_shape_def)

lemma send_children_shape: "same_shape s (foldl (\<lambda>t r. send_child ps r t) s rs)"
  using send_child_shape by (induction rs arbitrary: s) (auto simp: same_shape_def)

lemma level_shapes:
  "evolves same_shape (level_send_up r x)" "evolves same_shape (level_send_down ps)" "evolves same_shape (level_receive_up xs)"
  "evolves same_shape (level_receive_down r p)"
proof -
  show "evolves same_shape (level_send_up r x)"
    by (auto simp: evolves_def level_send_up_def act_simps same_shape_def Let_def split: if_splits)
  show "evolves same_shape (level_send_down ps)"
    using send_children_shape by (fastforce simp: evolves_def level_send_down_def act_simps same_shape_def split: if_splits)
  show "evolves same_shape (level_receive_up xs)"
    by (auto simp: evolves_def level_receive_up_def act_simps bind_def same_shape_def take_samples_def split: if_splits)
  show "evolves same_shape (level_receive_down r p)"
    by (auto simp: evolves_def level_receive_down_def act_simps same_shape_def Let_def)
qed

lemma level_reachable_ok:
  assumes "level_reachable n up down s" "0 < n" "0 < down"
  shows "level_ok s \<and> tl_size s = n \<and> tl_num_send_up s = up \<and> tl_num_send_down s = down"
  using assms(1)
proof induction
  case new
  then show ?case using assms make_level_ok by (simp add: make_comm_level_def)
next
  case (send_up s r x res t)
  then have "level_ok t" using level_send_up_spec[of s r x] level_send_up_bad[of x s r] by (cases "length x = tl_num_send_up s") auto
  then show ?case using send_up evolvesD[OF level_shapes(1) send_up(3)] by (auto simp: same_shape_def)
next
  case (send_down s ps res t)
  then have "level_ok t" using level_send_down_spec[of s ps] level_send_down_bad[of ps s] by fastforce
  then show ?case using send_down evolvesD[OF level_shapes(2) send_down(2)] by (auto simp: same_shape_def)
next
  case (receive_up s xs got t)
  have "level_ok t"
  proof (cases "length xs = tl_size s \<and> (\<forall>x \<in> set xs. length x = tl_num_send_up s)")
    case True
    then show ?thesis using receive_up level_receive_up_spec[of s xs] take_samples_spec(2)[of s]
      by (auto simp: all_posted_iff Let_def split: if_splits)
  next
    case False
    then show ?thesis using receive_up level_receive_up_bad[of xs s] by auto
  qed
  then show ?case using receive_up evolvesD[OF level_shapes(3) receive_up(2)] by (auto simp: same_shape_def)
next
  case (receive_down s r p got t)
  then show ?case using level_receive_down_spec[of s r p] by auto
qed

text \<open>
  C20: the windows of a level are mailboxes. After any calls, a sample that a rank sends
  up replaces the one it had posted and nothing else; the parent receives the samples when every rank has posted one, it then has
  the last of each rank, and they are gone; the policies that the parent sends down are the ones that the ranks receive from
  then on, although a policy equal to the last one is not sent again. Values with a NaN are received as incomplete.
\<close>

theorem level_mailboxes:
  assumes "level_reachable n up down s" "0 < n" "0 < down"
  shows "(\<forall>r < n. \<forall>x. length x = up \<longrightarrow>
      (\<exists>t. level_send_up r x s = (Inr (), t) \<and> level_mail t = level_mail s \<and> (\<forall>q < n. level_post t q = ((level_post s)(r \<mapsto> x)) q))) \<and>
    (\<forall>ps. length ps = n \<and> (\<forall>p \<in> set ps. length p = down) \<longrightarrow>
      (\<exists>t. level_send_down ps s = (Inr (), t) \<and> level_post t = level_post s \<and> (\<forall>q < n. level_mail t q = Some (ps ! q)))) \<and>
    (\<forall>xs. length xs = n \<and> (\<forall>x \<in> set xs. length x = up) \<longrightarrow>
      (\<exists>t. level_mail t = level_mail s \<and>
        (if \<forall>r < n. level_post s r \<noteq> None
         then let ys = map (\<lambda>r. the (level_post s r)) [0..<n]
              in level_receive_up xs s = (Inr (\<forall>y \<in> set ys. \<forall>v \<in> set y. \<not> isnan v, ys), t) \<and> (\<forall>q < n. level_post t q = None)
         else level_receive_up xs s = (Inr (False, xs), t) \<and> level_post t = level_post s))) \<and>
    (\<forall>r < n. \<forall>p. level_receive_down r p s =
      (Inr (case level_mail s r of None \<Rightarrow> (False, p) | Some q \<Rightarrow> (\<forall>v \<in> set q. \<not> isnan v, q)), s))"
proof -
  have ok: "level_ok s" "tl_size s = n" "tl_num_send_up s = up" "tl_num_send_down s = down" using level_reachable_ok[OF assms] by auto
  have up: "\<exists>t. level_mail t = level_mail s \<and>
        (if \<forall>r < n. level_post s r \<noteq> None
         then let ys = map (\<lambda>r. the (level_post s r)) [0..<n]
              in level_receive_up xs s = (Inr (\<forall>y \<in> set ys. \<forall>v \<in> set y. \<not> isnan v, ys), t) \<and> (\<forall>q < n. level_post t q = None)
         else level_receive_up xs s = (Inr (False, xs), t) \<and> level_post t = level_post s)"
    if "length xs = n \<and> (\<forall>x \<in> set xs. length x = up)" for xs
  proof (cases "\<forall>r < n. level_post s r \<noteq> None")
    case True
    then have "all_posted s" using ok(2) by (simp add: all_posted_iff)
    then show ?thesis using True that ok level_receive_up_spec[OF ok(1), of xs] take_samples_spec(3,4)[OF ok(1)]
      by (intro exI[of _ "snd (take_samples s)"]) (simp add: Let_def)
  next
    case False
    then show ?thesis using that ok level_receive_up_spec[OF ok(1), of xs] by (intro exI[of _ s]) auto
  qed
  show ?thesis
    using level_send_up_spec[OF ok(1)] level_send_down_spec[OF ok(1)] level_receive_down_spec[OF ok(1)] up ok
    by (intro conjI allI impI) (blast, blast, blast, simp)
qed

theorem level_mailboxes_witness:
  "level_reachable 2 1 1 (make_comm_level 2 1 1) \<and>
   (\<exists>t. level_send_up 1 [Fin 5] (make_comm_level 2 1 1) = (Inr (), t) \<and> level_post t 1 = Some [Fin 5] \<and> level_post t 0 = None) \<and>
   (\<exists>t. level_send_down [[Fin 3], [Fin 4]] (make_comm_level 2 1 1) = (Inr (), t) \<and> level_mail t 1 = Some [Fin 4])"
proof -
  have r: "level_reachable 2 1 1 (make_comm_level 2 1 1)" by (rule level_reachable.new)
  have none: "level_post (make_comm_level 2 1 1) 0 = None" by (simp add: level_post_def make_comm_level_def sample_slot_def deq_def numeral_2_eq_2)
  note all = level_mailboxes[OF r]
  obtain t where t: "level_send_up 1 [Fin 5] (make_comm_level 2 1 1) = (Inr (), t)" "\<forall>q < 2. level_post t q = ((level_post (make_comm_level 2 1 1))(1 \<mapsto> [Fin 5])) q"
    using conjunct1[OF all, rule_format, of 1 "[Fin 5]"] by auto
  obtain u where u: "level_send_down [[Fin 3], [Fin 4]] (make_comm_level 2 1 1) = (Inr (), u)" "\<forall>q < 2. level_mail u q = Some ([[Fin 3], [Fin 4]] ! q)"
    using conjunct1[OF conjunct2[OF all], rule_format, of "[[Fin 3], [Fin 4]]"] by auto
  show ?thesis using r t u(1) none u(2)[rule_format, of 1] t(2)[rule_format, of 0] t(2)[rule_format, of 1] by auto
qed

section \<open>The tree\<close>

text \<open>
  The Cartesian communicator of the job, which is a part of the MPI library: its dimensions and the two maps between ranks
  and coordinates. \<open>cart_ok\<close> is the documented behaviour: the maps are inverse to each other and the numbering is row-major, from
  which it follows that a greater coordinate means a greater rank. \<open>split(color, key)\<close> with the rank as the key groups the ranks of a
  color by increasing rank.
\<close>

record cart_comm =
  cc_dims :: "nat list"
  cc_coordinate :: "nat \<Rightarrow> nat list"
  cc_cart_rank :: "nat list \<Rightarrow> nat"

definition num_rank :: "cart_comm \<Rightarrow> nat" where
  "num_rank M = prod_list (cc_dims M)"

definition in_grid :: "cart_comm \<Rightarrow> nat list \<Rightarrow> bool" where
  "in_grid M c \<longleftrightarrow> list_all2 (<) c (cc_dims M)"

definition cart_ok :: "cart_comm \<Rightarrow> bool" where
  "cart_ok M \<longleftrightarrow>
     (\<forall>r < num_rank M. in_grid M (cc_coordinate M r) \<and> cc_cart_rank M (cc_coordinate M r) = r) \<and>
     (\<forall>c. in_grid M c \<longrightarrow> cc_cart_rank M c < num_rank M \<and> cc_coordinate M (cc_cart_rank M c) = c) \<and>
     (\<forall>c i x y. in_grid M c \<and> i < length c \<and> x < y \<and> y < cc_dims M ! i \<longrightarrow> cc_cart_rank M (c[i := x]) < cc_cart_rank M (c[i := y]))"

definition root_level :: "cart_comm \<Rightarrow> nat" where
  "root_level M = length (cc_dims M)"

text \<open>The number of levels that a rank controls is the number of zeros at the end of its coordinates.\<close>

definition num_level_controlled :: "nat list \<Rightarrow> nat" where
  "num_level_controlled coords = length (takeWhile (\<lambda>it. it = 0) (rev coords))"

definition max_level :: "cart_comm \<Rightarrow> nat \<Rightarrow> nat" where
  "max_level M rank_cart =
     (let num_level_ctl = num_level_controlled (cc_coordinate M rank_cart)
      in if num_level_ctl \<noteq> root_level M then num_level_ctl + 1 else num_level_ctl)"

definition parent_coords :: "cart_comm \<Rightarrow> nat \<Rightarrow> nat \<Rightarrow> nat list" where
  "parent_coords M rank_cart level = foldl (\<lambda>c l. c[root_level M - 1 - l := 0]) (cc_coordinate M rank_cart) [0..<Suc level]"

text \<open>The color that a rank passes to the split for a level; None is \<^verbatim>\<open>M_SPLIT_COLOR_UNDEFINED\<close>.\<close>

definition level_color :: "cart_comm \<Rightarrow> nat \<Rightarrow> nat \<Rightarrow> nat option" where
  "level_color M level rank_cart =
     (if level < max_level M rank_cart then Some (cc_cart_rank M (parent_coords M rank_cart level)) else None)"

definition level_group :: "cart_comm \<Rightarrow> nat \<Rightarrow> nat \<Rightarrow> nat list" where
  "level_group M level rank_cart = filter (\<lambda>q. level_color M level q = level_color M level rank_cart) [0..<num_rank M]"

abbreviation (input) level_range :: exn where "level_range \<equiv> Exception (- 5)"

text \<open>\<^verbatim>\<open>m_fan_out\<close> is the list of the dimensions, reversed at the end of the constructor.\<close>

definition level_size :: "cart_comm \<Rightarrow> int \<Rightarrow> int result" where
  "level_size M level =
     (if level < 0 \<or> level \<ge> int (length (rev (cc_dims M))) then Inl level_range else Inr (int (rev (cc_dims M) ! nat level)))"

lemma cart_okD:
  assumes "cart_ok M"
  shows "r < num_rank M \<Longrightarrow> in_grid M (cc_coordinate M r)" "r < num_rank M \<Longrightarrow> cc_cart_rank M (cc_coordinate M r) = r"
    "in_grid M c \<Longrightarrow> cc_cart_rank M c < num_rank M" "in_grid M c \<Longrightarrow> cc_coordinate M (cc_cart_rank M c) = c"
    "in_grid M c \<Longrightarrow> i < length c \<Longrightarrow> x < y \<Longrightarrow> y < cc_dims M ! i \<Longrightarrow> cc_cart_rank M (c[i := x]) < cc_cart_rank M (c[i := y])"
  using assms by (auto simp: cart_ok_def)

lemma in_grid_length: "in_grid M c \<Longrightarrow> length c = root_level M"
  by (auto simp: in_grid_def root_level_def dest: list_all2_lengthD)

lemma in_grid_nth: "in_grid M c \<longleftrightarrow> length c = root_level M \<and> (\<forall>i < length c. c ! i < cc_dims M ! i)"
  by (auto simp: in_grid_def root_level_def list_all2_conv_all_nth)

lemma takeWhile_take: "takeWhile P (take n xs) = take n (takeWhile P xs)"
proof (induction xs arbitrary: n)
  case (Cons x xs)
  then show ?case by (cases n) auto
qed simp

lemma controls_iff:
  assumes "l \<le> length c"
  shows "l \<le> num_level_controlled c \<longleftrightarrow> (\<forall>i. length c - l \<le> i \<and> i < length c \<longrightarrow> c ! i = 0)"
proof
  assume l: "l \<le> num_level_controlled c"
  show "\<forall>i. length c - l \<le> i \<and> i < length c \<longrightarrow> c ! i = 0"
  proof (intro allI impI)
    fix i
    assume i: "length c - l \<le> i \<and> i < length c"
    then have j: "length c - 1 - i < num_level_controlled c" using l assms by linarith
    then have "rev c ! (length c - 1 - i) = 0"
      using set_takeWhileD[of _ "\<lambda>it. it = 0" "rev c"] takeWhile_nth[of "length c - 1 - i" "\<lambda>it. it = 0" "rev c"]
      by (metis num_level_controlled_def nth_mem)
    moreover have "length c - Suc (length c - 1 - i) = i" "length c - 1 - i < length c" using i by linarith+
    ultimately show "c ! i = 0" by (metis rev_nth)
  qed
next
  assume zeros: "\<forall>i. length c - l \<le> i \<and> i < length c \<longrightarrow> c ! i = 0"
  have "rev c ! i = 0" if "i < l" for i
  proof -
    have "length c - l \<le> length c - Suc i \<and> length c - Suc i < length c" using that assms by linarith
    then show ?thesis using zeros that assms by (simp add: rev_nth)
  qed
  then have "take l (rev c) = takeWhile (\<lambda>it. it = 0) (take l (rev c))"
    using assms by (intro takeWhile_eq_all_conv[THEN iffD2, symmetric]) (auto simp: in_set_conv_nth)
  then have "l = length (takeWhile (\<lambda>it. it = 0) (take l (rev c)))" using assms by (metis length_rev length_take min.absorb2)
  also have "\<dots> \<le> num_level_controlled c" by (simp add: num_level_controlled_def takeWhile_take)
  finally show "l \<le> num_level_controlled c" .
qed

lemma num_controlled_le: "num_level_controlled c \<le> length c"
  unfolding num_level_controlled_def by (metis length_rev length_takeWhile_le)

lemma takes_part:
  assumes "cart_ok M" "r < num_rank M" "l < root_level M"
  shows "l < max_level M r \<longleftrightarrow> l \<le> num_level_controlled (cc_coordinate M r)"
  using assms(3) num_controlled_le[of "cc_coordinate M r"] in_grid_length[OF cart_okD(1)[OF assms(1,2)]]
  by (auto simp: max_level_def Let_def)

lemma parent_coords_nth:
  assumes "length (cc_coordinate M r) = root_level M" "l < root_level M"
  shows "length (parent_coords M r l) = root_level M"
    "i < root_level M \<Longrightarrow> parent_coords M r l ! i = (if root_level M - 1 - l \<le> i then 0 else cc_coordinate M r ! i)"
proof -
  have "length (foldl (\<lambda>c l. c[root_level M - 1 - l := 0]) (cc_coordinate M r) [0..<k]) = root_level M \<and>
    (\<forall>i < root_level M. foldl (\<lambda>c l. c[root_level M - 1 - l := 0]) (cc_coordinate M r) [0..<k] ! i = (if root_level M - k \<le> i then 0 else cc_coordinate M r ! i))"
    if "k \<le> root_level M" for k
    using that
  proof (induction k)
    case (Suc k)
    have "root_level M - 1 - k = root_level M - Suc k" by simp
    then show ?case using Suc by (auto simp: nth_list_update)
  qed (use assms(1) in simp)
  from this[of "Suc l"] assms(2) show "length (parent_coords M r l) = root_level M"
    "i < root_level M \<Longrightarrow> parent_coords M r l ! i = (if root_level M - 1 - l \<le> i then 0 else cc_coordinate M r ! i)"
    by (simp_all add: parent_coords_def del: upt_Suc)
qed

lemma parent_coords_grid:
  assumes "cart_ok M" "r < num_rank M" "l < root_level M"
  shows "in_grid M (parent_coords M r l)"
proof -
  have g: "in_grid M (cc_coordinate M r)" using assms(1,2) by (rule cart_okD(1))
  then have "\<And>i. i < root_level M \<Longrightarrow> 0 < cc_dims M ! i" by (metis in_grid_nth less_nat_zero_code not_gr_zero)
  then show ?thesis using parent_coords_nth[OF in_grid_length[OF g] assms(3)] g by (simp add: in_grid_nth)
qed

text \<open>Two ranks that take part in a level are in the same group when they agree on the coordinates before that of the level.\<close>

lemma same_color:
  assumes ok: "cart_ok M" and r: "r < num_rank M" and q: "q < num_rank M" and l: "l < root_level M" "l \<le> num_level_controlled (cc_coordinate M r)"
  shows "level_color M l q = level_color M l r \<longleftrightarrow>
    l \<le> num_level_controlled (cc_coordinate M q) \<and> (\<forall>i < root_level M - 1 - l. cc_coordinate M q ! i = cc_coordinate M r ! i)"
proof -
  have lens: "length (cc_coordinate M r) = root_level M" "length (cc_coordinate M q) = root_level M"
    using in_grid_length[OF cart_okD(1)[OF ok]] r q by simp_all
  have "cc_cart_rank M (parent_coords M q l) = cc_cart_rank M (parent_coords M r l) \<longleftrightarrow> parent_coords M q l = parent_coords M r l"
    using cart_okD(4)[OF ok parent_coords_grid[OF ok r l(1)]] cart_okD(4)[OF ok parent_coords_grid[OF ok q l(1)]] by metis
  also have "\<dots> \<longleftrightarrow> (\<forall>i < root_level M - 1 - l. cc_coordinate M q ! i = cc_coordinate M r ! i)"
    using parent_coords_nth[OF lens(1) l(1)] parent_coords_nth[OF lens(2) l(1)] l(1)
    by (auto simp: list_eq_iff_nth_eq)
  finally show ?thesis using takes_part[OF ok r l(1)] takes_part[OF ok q l(1)] l(2) by (auto simp: level_color_def)
qed

lemma group_member:
  assumes ok: "cart_ok M" and r: "r < num_rank M" and l: "l < root_level M" "l \<le> num_level_controlled (cc_coordinate M r)"
    and x: "x < cc_dims M ! (root_level M - 1 - l)"
  shows "in_grid M ((cc_coordinate M r)[root_level M - 1 - l := x])" "l \<le> num_level_controlled ((cc_coordinate M r)[root_level M - 1 - l := x])"
    "Suc l \<le> num_level_controlled ((cc_coordinate M r)[root_level M - 1 - l := x]) \<longleftrightarrow> x = 0"
proof -
  let ?c = "cc_coordinate M r" and ?p = "root_level M - 1 - l"
  have g: "in_grid M ?c" using ok r by (rule cart_okD(1))
  note len = in_grid_length[OF g]
  show "in_grid M (?c[?p := x])" using g x by (auto simp: in_grid_nth nth_list_update)
  have z: "\<forall>i. root_level M - l \<le> i \<and> i < root_level M \<longrightarrow> ?c ! i = 0" using l controls_iff[of l ?c] len by auto
  then show "l \<le> num_level_controlled (?c[?p := x])" using controls_iff[of l "?c[?p := x]"] len l(1) by (auto simp: nth_list_update)
  have "Suc l \<le> num_level_controlled (?c[?p := x]) \<longleftrightarrow> (\<forall>i. ?p \<le> i \<and> i < root_level M \<longrightarrow> ?c[?p := x] ! i = 0)"
    using controls_iff[of "Suc l" "?c[?p := x]"] len l(1) by simp
  also have "\<dots> \<longleftrightarrow> x = 0"
  proof
    assume "\<forall>i. ?p \<le> i \<and> i < root_level M \<longrightarrow> ?c[?p := x] ! i = 0"
    from this[rule_format, of ?p] show "x = 0" using len l(1) by simp
  next
    assume "x = 0"
    then show "\<forall>i. ?p \<le> i \<and> i < root_level M \<longrightarrow> ?c[?p := x] ! i = 0"
      using z len l(1) by (auto simp: nth_list_update)
  qed
  finally show "Suc l \<le> num_level_controlled (?c[?p := x]) \<longleftrightarrow> x = 0" .
qed

lemma level_group_map:
  assumes ok: "cart_ok M" and r: "r < num_rank M" and l: "l < root_level M" "l \<le> num_level_controlled (cc_coordinate M r)"
  shows "level_group M l r = map (\<lambda>x. cc_cart_rank M ((cc_coordinate M r)[root_level M - 1 - l := x])) [0..<cc_dims M ! (root_level M - 1 - l)]"
proof -
  let ?c = "cc_coordinate M r" and ?p = "root_level M - 1 - l" and ?n = "cc_dims M ! (root_level M - 1 - l)"
  let ?f = "\<lambda>x. cc_cart_rank M (?c[?p := x])"
  have g: "in_grid M ?c" using ok r by (rule cart_okD(1))
  note len = in_grid_length[OF g]
  have mono: "sorted_wrt (<) (map ?f [0..<?n])"
    using cart_okD(5)[OF ok g, of ?p] len l(1) by (simp add: sorted_wrt_iff_nth_less)
  have set: "set (level_group M l r) = ?f ` {0..<?n}"
  proof
    show "set (level_group M l r) \<subseteq> ?f ` {0..<?n}"
    proof
      fix q
      assume "q \<in> set (level_group M l r)"
      then have q: "q < num_rank M" "level_color M l q = level_color M l r" by (auto simp: level_group_def)
      let ?d = "cc_coordinate M q"
      have d: "in_grid M ?d" "cc_cart_rank M ?d = q" using cart_okD(1,2)[OF ok q(1)] by auto
      have s: "l \<le> num_level_controlled ?d" "\<forall>i < ?p. ?d ! i = ?c ! i" using same_color[OF ok r q(1) l] q(2) by auto
      have "?d = ?c[?p := ?d ! ?p]"
      proof (rule nth_equalityI)
        fix i
        assume i: "i < length ?d"
        consider "i < ?p" | "i = ?p" | "root_level M - l \<le> i" by linarith
        then show "?d ! i = ?c[?p := ?d ! ?p] ! i"
        proof cases
          case 3
          then have "?d ! i = 0" "?c ! i = 0" "i \<noteq> ?p"
            using s(1) l len in_grid_length[OF d(1)] controls_iff[of l ?c] controls_iff[of l ?d] i by auto
          then show ?thesis by simp
        qed (use s(2) i len in_grid_length[OF d(1)] in auto)
      qed (use len in_grid_length[OF d(1)] in simp)
      moreover have "?d ! ?p < ?n" using d(1) l(1) by (auto simp: in_grid_nth)
      ultimately show "q \<in> ?f ` {0..<?n}" using d(2) by (metis atLeastLessThan_iff image_eqI le0)
    qed
    show "?f ` {0..<?n} \<subseteq> set (level_group M l r)"
    proof
      fix q
      assume "q \<in> ?f ` {0..<?n}"
      then obtain x where x: "x < ?n" "q = ?f x" by auto
      note m = group_member[OF ok r l x(1)]
      have q: "q < num_rank M" "cc_coordinate M q = ?c[?p := x]" using cart_okD(3,4)[OF ok m(1)] x(2) by auto
      then have "level_color M l q = level_color M l r" using same_color[OF ok r q(1) l] m(2) by auto
      then show "q \<in> set (level_group M l r)" using q(1) by (simp add: level_group_def)
    qed
  qed
  show ?thesis
  proof (rule sorted_distinct_set_unique)
    show "sorted (level_group M l r)" "distinct (level_group M l r)" by (simp_all add: level_group_def sorted_wrt_filter)
    show "sorted (map ?f [0..<?n])" "distinct (map ?f [0..<?n])" using strict_sorted_iff[THEN iffD1, OF mono] by simp_all
    show "set (level_group M l r) = set (map ?f [0..<?n])" using set by simp
  qed
qed

text \<open>
  The communicators of the levels form the tree that \<^verbatim>\<open>m_fan_out\<close> describes. A rank takes part
  in level \<open>l\<close> when it controls all levels below. Its group there is the ranks that differ from it only in one coordinate, in the
  order of that coordinate; so its place in the group is that coordinate, the group has \<^verbatim>\<open>level_size(l)\<close> ranks, and exactly the
  first one, which receives the samples, controls level \<open>l\<close> and goes on to the next level.
\<close>

theorem level_groups:
  assumes ok: "cart_ok M" and r: "r < num_rank M" and l: "l < root_level M" "l < max_level M r"
  shows "let p = root_level M - 1 - l; c = cc_coordinate M r; group = level_group M l r
    in group = map (\<lambda>x. cc_cart_rank M (c[p := x])) [0..<cc_dims M ! p] \<and>
      c ! p < length group \<and> group ! (c ! p) = r \<and> level_size M (int l) = Inr (int (length group)) \<and>
      (\<forall>i < length group. l < num_level_controlled (cc_coordinate M (group ! i)) \<longleftrightarrow> i = 0)"
proof -
  let ?p = "root_level M - 1 - l" and ?c = "cc_coordinate M r"
  have part: "l \<le> num_level_controlled ?c" using takes_part[OF ok r l(1)] l(2) by simp
  note g = level_group_map[OF ok r l(1) part]
  have c: "in_grid M ?c" "cc_cart_rank M ?c = r" using cart_okD(1,2)[OF ok r] by auto
  then have cp: "?c ! ?p < cc_dims M ! ?p" using l(1) by (auto simp: in_grid_nth)
  have "l < num_level_controlled (cc_coordinate M (level_group M l r ! i)) \<longleftrightarrow> i = 0" if "i < cc_dims M ! ?p" for i
    using group_member[OF ok r l(1) part that] cart_okD(4)[OF ok] that by (simp add: g Suc_le_eq)
  moreover have "level_size M (int l) = Inr (int (cc_dims M ! ?p))" using l(1) by (simp add: level_size_def root_level_def rev_nth)
  ultimately show ?thesis using g cp c(2) by (simp add: Let_def)
qed

subsection \<open>The fan out\<close>

text \<open>
  \<^verbatim>\<open>fan_out()\<close> asks \<^verbatim>\<open>dimension_create()\<close>, which is \<^verbatim>\<open>MPI_Dims_create()\<close>, for more and more dimensions until
  the first is small enough. \<open>dims_ok\<close> is its documented behaviour: the dimensions multiply to the number of ranks and do not increase.
\<close>

definition dims_ok :: "(nat \<Rightarrow> nat \<Rightarrow> nat list) \<Rightarrow> nat \<Rightarrow> bool" where
  "dims_ok dimension_create num_nodes \<longleftrightarrow>
     (\<forall>k > 0. length (dimension_create num_nodes k) = k \<and> prod_list (dimension_create num_nodes k) = num_nodes \<and>
        sorted_wrt (\<ge>) (dimension_create num_nodes k))"

partial_function (option) fan_out_loop :: "(nat \<Rightarrow> nat \<Rightarrow> nat list) \<Rightarrow> int \<Rightarrow> nat \<Rightarrow> nat list \<Rightarrow> nat list option" where
  "fan_out_loop dimension_create max_fan_out num_nodes fan_out =
     (if int (fan_out ! 0) > max_fan_out \<and> fan_out ! (length fan_out - 1) \<noteq> 1
      then fan_out_loop dimension_create max_fan_out num_nodes (dimension_create num_nodes (length fan_out + 1))
      else Some fan_out)"

definition fan_out :: "(nat \<Rightarrow> nat \<Rightarrow> nat list) \<Rightarrow> int \<Rightarrow> nat \<Rightarrow> nat list option" where
  "fan_out dimension_create max_fan_out num_nodes =
     (if num_nodes > 1 then
        map_option (\<lambda>f. rev (if length f > 1 \<and> f ! (length f - 1) = 1 then take (length f - 1) f else f))
          (fan_out_loop dimension_create max_fan_out num_nodes [num_nodes])
      else Some [])"

text \<open>Dimensions that do not increase and do not end in 1 are at least 2, so there are only so many of them.\<close>

lemma dims_bound:
  assumes "sorted_wrt (\<ge>) f" "f \<noteq> []" "2 \<le> last f"
  shows "(2 :: nat) ^ length f \<le> prod_list f"
proof -
  have "\<forall>d \<in> set f. last f \<le> d" using assms(1,2)
    by (induction f) (auto split: if_splits)
  then have "\<forall>d \<in> set f. 2 \<le> d" using assms(3) by auto
  then show ?thesis by (induction f) (auto intro: mult_le_mono)
qed

lemma fan_out_loop_ends:
  assumes dims: "dims_ok dimension_create n"
  shows "length f > 0 \<Longrightarrow> prod_list f = n \<Longrightarrow> sorted_wrt (\<ge>) f \<Longrightarrow> n > 1 \<Longrightarrow>
    \<exists>g. fan_out_loop dimension_create mx n f = Some g \<and> (g = f \<or> length f < length g \<and> g = dimension_create n (length g)) \<and>
      (int (g ! 0) \<le> mx \<or> g ! (length g - 1) = 1)"
proof (induction "n - length f" arbitrary: f rule: less_induct)
  case less
  show ?case
  proof (cases "int (f ! 0) > mx \<and> f ! (length f - 1) \<noteq> 1")
    case False
    then have "fan_out_loop dimension_create mx n f = Some f" by (subst fan_out_loop.simps) (rule if_not_P[OF False])
    then show ?thesis using False by auto
  next
    case True
    let ?f = "dimension_create n (length f + 1)"
    have f: "length ?f = length f + 1" "prod_list ?f = n" "sorted_wrt (\<ge>) ?f" using dims by (simp_all add: dims_ok_def)
    have "last f \<noteq> 1" using True less.prems(1) by (simp add: last_conv_nth)
    moreover have "last f \<noteq> 0" using less.prems by (metis last_in_set length_greater_0_conv not_one_less_zero prod_list_zero_iff)
    ultimately have "2 \<le> last f" by simp
    then have "2 ^ length f \<le> n" using dims_bound[OF less.prems(3)] less.prems(1,2) by simp
    then have "length f < n" by (meson less_exp order_less_le_trans)
    then have m: "n - length ?f < n - length f" using f(1) by simp
    have pos: "length ?f > 0" using f(1) by simp
    obtain g where "fan_out_loop dimension_create mx n ?f = Some g" "g = ?f \<or> length ?f < length g \<and> g = dimension_create n (length g)"
      "int (g ! 0) \<le> mx \<or> g ! (length g - 1) = 1"
      using less.hyps[OF m pos f(2,3) less.prems(4)] by blast
    moreover have "fan_out_loop dimension_create mx n f = fan_out_loop dimension_create mx n ?f"
      by (subst fan_out_loop.simps) (rule if_P[OF True])
    ultimately show ?thesis using f(1) by auto
  qed
qed

text \<open>
  the search for the fan out ends, for every number of nodes and every limit. The levels
  multiply to the number of nodes, and they have at most \<^verbatim>\<open>max_fan_out\<close> ranks, or one dimension more would be of size 1.
\<close>

theorem fan_out_terminates:
  assumes "dims_ok dimension_create n" "0 < n"
  shows "\<exists>f. fan_out dimension_create max_fan_out n = Some f \<and> prod_list f = n \<and> (f = [] \<longleftrightarrow> n = 1) \<and> sorted f \<and>
    (n > 1 \<longrightarrow> (\<forall>d \<in> set f. int d \<le> max_fan_out) \<or> 1 \<in> set (dimension_create n (length f + 1)))"
proof (cases "n > 1")
  case False
  then show ?thesis using assms(2) by (simp add: fan_out_def)
next
  case True
  obtain g where g: "fan_out_loop dimension_create max_fan_out n [n] = Some g" "g = [n] \<or> 1 < length g \<and> g = dimension_create n (length g)"
    "int (g ! 0) \<le> max_fan_out \<or> g ! (length g - 1) = 1"
    using fan_out_loop_ends[OF assms(1), of "[n]"] True by auto
  have shape: "g \<noteq> []" "prod_list g = n" "sorted_wrt (\<ge>) g"
  proof -
    have "g = [n] \<or> 0 < length g \<and> g = dimension_create n (length g)" using g(2) by auto
    then show "g \<noteq> []" "prod_list g = n" "sorted_wrt (\<ge>) g" using assms(1) unfolding dims_ok_def by force+
  qed
  show ?thesis
  proof (cases "length g > 1 \<and> g ! (length g - 1) = 1")
    case one: True
    have split: "g = butlast g @ [1]" using one shape(1) by (metis append_butlast_last_id last_conv_nth)
    obtain h where h: "g = h @ [1]" using split by blast
    have "h \<noteq> []" using one h by auto
    have "g = dimension_create n (length h + 1)" using g(2) one h by auto
    then have "1 \<in> set (dimension_create n (length h + 1))" using h by (metis in_set_conv_decomp)
    moreover have "prod_list h = n" "sorted_wrt (\<ge>) h" using shape(2,3) h by (simp_all add: sorted_wrt_append)
    moreover have "fan_out dimension_create max_fan_out n = Some (rev h)" using g(1) one True h by (simp add: fan_out_def)
    ultimately show ?thesis using True \<open>h \<noteq> []\<close> by (intro exI[of _ "rev h"]) (simp add: sorted_wrt_rev prod_list.rev)
  next
    case False
    have "g ! (length g - 1) \<noteq> 1"
    proof
      assume "g ! (length g - 1) = 1"
      then have "length g = 1" "g ! 0 = 1" using False shape(1) by (cases g; force)+
      then show False using shape(2) True by (cases g) auto
    qed
    then have "int (g ! 0) \<le> max_fan_out" using g(3) by simp
    moreover have "d \<le> g ! 0" if "d \<in> set g" for d using shape(3) that by (cases g) auto
    ultimately have "\<forall>d \<in> set g. int d \<le> max_fan_out" by fastforce
    moreover have "fan_out dimension_create max_fan_out n = Some (rev g)" unfolding fan_out_def if_P[OF True] g(1) option.map if_not_P[OF False] ..
    ultimately show ?thesis using shape True by (intro exI[of _ "rev g"]) (simp add: sorted_wrt_rev prod_list.rev)
  qed
qed

lemma in_group:
  assumes ok: "cart_ok M" and q: "q \<in> set (level_group M l r)" and r: "r < num_rank M" "l < root_level M" "l \<le> num_level_controlled (cc_coordinate M r)"
  shows "q < num_rank M" "l \<le> num_level_controlled (cc_coordinate M q)" "level_color M l q = level_color M l r"
proof -
  show q': "q < num_rank M" "level_color M l q = level_color M l r" using q by (auto simp: level_group_def)
  then show "l \<le> num_level_controlled (cc_coordinate M q)" using same_color[OF ok r(1) q'(1) r(2,3)] by simp
qed

text \<open>The rank that controls a level is the only one in its group to do so.\<close>

lemma one_parent:
  assumes ok: "cart_ok M" and q: "q \<in> set (level_group M l r)" "q \<in> set (level_group M l s)" and l: "l < root_level M"
    and r: "r < num_rank M" "Suc l \<le> num_level_controlled (cc_coordinate M r)" and s: "s < num_rank M" "Suc l \<le> num_level_controlled (cc_coordinate M s)"
  shows "r = s"
proof -
  have "level_color M l r = level_color M l s" using q by (auto simp: level_group_def)
  then have same: "\<forall>i < root_level M - 1 - l. cc_coordinate M r ! i = cc_coordinate M s ! i"
    using same_color[OF ok s(1) r(1) l] s(2) by simp
  have grids: "in_grid M (cc_coordinate M r)" "in_grid M (cc_coordinate M s)" using cart_okD(1)[OF ok] r s by auto
  have "cc_coordinate M r = cc_coordinate M s"
  proof (rule nth_equalityI)
    fix i
    assume i: "i < length (cc_coordinate M r)"
    show "cc_coordinate M r ! i = cc_coordinate M s ! i"
    proof (cases "i < root_level M - 1 - l")
      case False
      then have "cc_coordinate M r ! i = 0" "cc_coordinate M s ! i = 0"
        using controls_iff[of "Suc l" "cc_coordinate M r"] controls_iff[of "Suc l" "cc_coordinate M s"] r(2) s(2) l i grids[THEN in_grid_length] by auto
      then show ?thesis by simp
    qed (use same in simp)
  qed (use grids[THEN in_grid_length] in simp)
  then show ?thesis using cart_okD(2)[OF ok] r(1) s(1) by metis
qed

lemma some_parent:
  assumes ok: "cart_ok M" and r: "r < num_rank M" and l: "l < root_level M" "l \<le> num_level_controlled (cc_coordinate M r)"
  shows "\<exists>s < num_rank M. Suc l \<le> num_level_controlled (cc_coordinate M s) \<and> r \<in> set (level_group M l s)"
proof -
  let ?p = "root_level M - 1 - l" and ?c = "cc_coordinate M r"
  have "in_grid M ?c" using ok r by (rule cart_okD(1))
  then have pos: "0 < cc_dims M ! ?p" using l(1) by (auto simp: in_grid_nth) (metis diff_less gr_implies_not0 not_gr_zero zero_less_Suc)
  let ?s = "cc_cart_rank M (?c[?p := 0])"
  note m = group_member[OF ok r l pos]
  have s: "?s < num_rank M" "cc_coordinate M ?s = ?c[?p := 0]" using cart_okD(3,4)[OF ok m(1)] by auto
  then have c: "Suc l \<le> num_level_controlled (cc_coordinate M ?s)" using m(3) by simp
  have "level_color M l r = level_color M l ?s"
    using same_color[OF ok s(1) r l(1)] c l(2) s(2) by auto
  then have "r \<in> set (level_group M l ?s)" using r by (simp add: level_group_def)
  then show ?thesis using s(1) c by blast
qed

text \<open>Rank 0 is at the origin, and it alone controls all levels.\<close>

lemma origin_rank:
  assumes ok: "cart_ok M" and r: "r < num_rank M"
  shows "root_level M \<le> num_level_controlled (cc_coordinate M r) \<longleftrightarrow> r = 0"
proof -
  have zeros: "root_level M \<le> num_level_controlled (cc_coordinate M q) \<longleftrightarrow> (\<forall>i < root_level M. cc_coordinate M q ! i = 0)" if "q < num_rank M" for q
    using controls_iff[of "root_level M" "cc_coordinate M q"] in_grid_length[OF cart_okD(1)[OF ok that]] by simp
  have zero: "\<forall>i < root_level M. cc_coordinate M 0 ! i = 0"
  proof (intro allI impI)
    fix i
    assume i: "i < root_level M"
    have n: "0 < num_rank M" using r by simp
    let ?c = "cc_coordinate M 0"
    have g: "in_grid M ?c" using cart_okD(1)[OF ok n] .
    show "?c ! i = 0"
    proof (rule ccontr)
      assume "?c ! i \<noteq> 0"
      then have "cc_cart_rank M (?c[i := 0]) < cc_cart_rank M (?c[i := ?c ! i])"
        using g i by (intro cart_okD(5)[OF ok g]) (auto simp: in_grid_nth)
      then show False using cart_okD(2)[OF ok n] by simp
    qed
  qed
  show ?thesis
  proof
    assume "root_level M \<le> num_level_controlled (cc_coordinate M r)"
    then have "\<forall>i < root_level M. cc_coordinate M r ! i = 0" using zeros[OF r] by simp
    then have "cc_coordinate M r = cc_coordinate M 0"
      using zero in_grid_length[OF cart_okD(1)[OF ok r]] in_grid_length[OF cart_okD(1)[OF ok, of 0]] r by (intro nth_equalityI) auto
    then show "r = 0" using cart_okD(2)[OF ok r] cart_okD(2)[OF ok, of 0] r by (metis gr_implies_not0 not_gr_zero)
  qed (use zeros[OF r] zero in simp)
qed

definition demo_dims :: "nat \<Rightarrow> nat \<Rightarrow> nat list" where
  "demo_dims n k = (if k = 1 then [12] else if k = 2 then [4, 3] else [3, 2, 2] @ replicate (k - 3) 1)"

lemma demo_dims_ok: "dims_ok demo_dims 12"
proof -
  have "sorted_wrt (\<ge>) (replicate m (1 :: nat))" for m by (induction m) auto
  then show ?thesis by (auto simp: dims_ok_def demo_dims_def sorted_wrt_append)
qed

theorem fan_out_terminates_witness:
  "fan_out demo_dims 3 12 = Some [2, 2, 3] \<and> (\<exists>f. fan_out demo_dims 3 12 = Some f \<and> prod_list f = 12 \<and> sorted f)"
proof -
  have "fan_out demo_dims 3 12 = Some [2, 2, 3]"
    by (simp add: fan_out_def fan_out_loop.simps demo_dims_def)
  then show ?thesis using fan_out_terminates[OF demo_dims_ok, of 3] by simp
qed

definition demo_cart :: cart_comm where
  "demo_cart = \<lparr>cc_dims = [2, 3], cc_coordinate = (\<lambda>r. [r div 3, r mod 3]), cc_cart_rank = (\<lambda>c. 3 * c ! 0 + c ! 1)\<rparr>"

lemma demo_cart_ok: "cart_ok demo_cart"
proof -
  have grid: "in_grid demo_cart c \<longleftrightarrow> (\<exists>a b. c = [a, b] \<and> a < 2 \<and> b < 3)" for c
    by (auto simp: in_grid_def demo_cart_def list_all2_Cons2)
  have "in_grid demo_cart (cc_coordinate demo_cart r) \<and> cc_cart_rank demo_cart (cc_coordinate demo_cart r) = r" if "r < num_rank demo_cart" for r
    using that unfolding grid by (auto simp: demo_cart_def num_rank_def)
  moreover have "cc_cart_rank demo_cart c < num_rank demo_cart \<and> cc_coordinate demo_cart (cc_cart_rank demo_cart c) = c" if "in_grid demo_cart c" for c
    using that unfolding grid by (auto simp: demo_cart_def num_rank_def)
  moreover have "cc_cart_rank demo_cart (c[i := x]) < cc_cart_rank demo_cart (c[i := y])"
    if "in_grid demo_cart c" "i < length c" "x < y" "y < cc_dims demo_cart ! i" for c i x y
  proof -
    have "\<exists>a b. c = [a, b] \<and> a < 2 \<and> b < 3" using that(1) unfolding grid .
    then obtain a b where c: "c = [a, b]" "b < 3" by blast
    then show ?thesis using that(2-4) by (cases i) (auto simp: demo_cart_def nth_Cons' split: if_splits)
  qed
  ultimately show ?thesis unfolding cart_ok_def by blast
qed

theorem level_groups_witness:
  "cart_ok demo_cart \<and> level_group demo_cart 0 4 = [3, 4, 5] \<and> level_group demo_cart 1 3 = [0, 3]"
proof -
  have n: "4 < num_rank demo_cart" "3 < num_rank demo_cart" "0 < root_level demo_cart" "1 < root_level demo_cart"
    "0 < max_level demo_cart 4" "1 < max_level demo_cart 3"
    by (simp_all add: num_rank_def root_level_def demo_cart_def max_level_def num_level_controlled_def Let_def)
  from level_groups[OF demo_cart_ok n(1,3,5)] level_groups[OF demo_cart_ok n(2,4,6)] demo_cart_ok
  show ?thesis by (simp add: demo_cart_def root_level_def upt_rec Let_def)
qed

section \<open>The tree communicator of a rank\<close>

text \<open>
  \<^verbatim>\<open>TreeCommImp\<close>: of each level that the rank takes part in, its own rank there and the level.
  The methods check the number of the level and call the object of the level.
\<close>

record tree_comm =
  tc_fan_out :: "nat list"
  tc_root_level :: nat
  tc_num_level_ctl :: nat
  tc_max_level :: nat
  tc_level_ctl :: "(nat \<times> comm_level) list"

definition init_level :: "cart_comm \<Rightarrow> nat \<Rightarrow> nat \<Rightarrow> nat \<Rightarrow> (nat \<times> comm_level) list" where
  "init_level M num_send_down num_send_up rank_cart =
     map (\<lambda>level. let group = level_group M level rank_cart
       in (length (takeWhile (\<lambda>q. q \<noteq> rank_cart) group), make_comm_level (length group) num_send_up num_send_down)) [0..<max_level M rank_cart]"

definition make_tree_comm :: "cart_comm \<Rightarrow> nat \<Rightarrow> nat \<Rightarrow> nat \<Rightarrow> tree_comm" where
  "make_tree_comm M num_send_down num_send_up rank_cart =
     \<lparr>tc_fan_out = rev (cc_dims M), tc_root_level = root_level M, tc_num_level_ctl = num_level_controlled (cc_coordinate M rank_cart),
      tc_max_level = max_level M rank_cart, tc_level_ctl = init_level M num_send_down num_send_up rank_cart\<rparr>"

definition on_level :: "int \<Rightarrow> (nat \<Rightarrow> (comm_level, 'a) action) \<Rightarrow> (tree_comm, 'a) action" where
  "on_level level f s =
     (if nat level < length (tc_level_ctl s)
      then case tc_level_ctl s ! nat level of (rank, lv) \<Rightarrow>
        (case f rank lv of (res, lv') \<Rightarrow> (res, s\<lparr>tc_level_ctl := (tc_level_ctl s)[nat level := (rank, lv')]\<rparr>))
      else (Inl Undefined_behavior, s))"

definition tree_level_rank :: "int \<Rightarrow> (tree_comm, nat) action" where
  "tree_level_rank level =
     bind (gets tc_max_level) (\<lambda>mx.
     bind (guard (\<not> (level < 0 \<or> level \<ge> int mx)) level_range) (\<lambda>_.
     on_level level ret))"

definition tree_level_size :: "int \<Rightarrow> (tree_comm, nat) action" where
  "tree_level_size level =
     bind (gets tc_fan_out) (\<lambda>fan_out.
     bind (guard (\<not> (level < 0 \<or> level \<ge> int (length fan_out))) level_range) (\<lambda>_.
     ret (fan_out ! nat level)))"

definition tree_send_up :: "int \<Rightarrow> double list \<Rightarrow> (tree_comm, unit) action" where
  "tree_send_up level sample_vec =
     bind (gets tc_max_level) (\<lambda>mx.
     bind (guard (\<not> (level < 0 \<or> (level \<noteq> 0 \<and> level \<ge> int mx))) level_range) (\<lambda>_.
     on_level level (\<lambda>rank. level_send_up rank sample_vec)))"

text \<open>Only rank 0 of a level sends down and receives up.\<close>

definition tree_send_down :: "int \<Rightarrow> double list list \<Rightarrow> (tree_comm, unit) action" where
  "tree_send_down level policy =
     bind (gets tc_num_level_ctl) (\<lambda>ctl.
     bind (guard (\<not> (level < 0 \<or> level \<ge> int ctl)) level_range) (\<lambda>_.
     on_level level (\<lambda>rank. level_send_down policy)))"

definition tree_receive_up :: "int \<Rightarrow> double list list \<Rightarrow> (tree_comm, bool \<times> double list list) action" where
  "tree_receive_up level in_sample =
     bind (gets tc_num_level_ctl) (\<lambda>ctl.
     bind (guard (\<not> (level < 0 \<or> level \<ge> int ctl)) level_range) (\<lambda>_.
     on_level level (\<lambda>rank. level_receive_up in_sample)))"

definition tree_receive_down :: "int \<Rightarrow> double list \<Rightarrow> (tree_comm, bool \<times> double list) action" where
  "tree_receive_down level in_policy =
     bind (gets tc_max_level) (\<lambda>mx.
     bind (guard (\<not> (level < 0 \<or> (level \<noteq> 0 \<and> level \<ge> int mx))) level_range) (\<lambda>_.
     on_level level (\<lambda>rank. level_receive_down rank in_policy)))"

definition tree_overhead_send :: "tree_comm \<Rightarrow> 64 word" where
  "tree_overhead_send s = foldl (\<lambda>result (rank, lv). result + tl_overhead_send lv ! rank) 0 (tc_level_ctl s)"

end
