(* ===== verification/Balancer_Protocol.thy ===== *)
theory Balancer_Protocol
  imports Power_Balancer_Agent Tree_Communicator
begin

text \<open>
  The agents of a job run the power balancer together: \<^verbatim>\<open>Controller::walk_down()\<close> and \<^verbatim>\<open>walk_up()\<close>
  (libgeopm/src/Controller.cpp) call the agents of \<open>Power_Balancer_Agent\<close> and carry their policies and samples through the
  mailboxes of the tree communicator. This theory states what that network has to do, a barrier at every step number
  (\<open>barrier_step\<close>), the network as a step relation over the roles of the agents (\<open>net_step\<close>), and that the second
  implements the first. So no agent ever finds its step number out of sync, and a step of the root ends after
  the same step of every node.
\<close>

section \<open>The barrier\<close>

text \<open>
  Nodes are numbers, 0 is the root, and a child has a greater number than its parent. Of a node the barrier knows the number
  of its step, whether that step is complete, the step number of the policy in its mailbox and of the sample that it has posted.
\<close>

record agent_tree =
  at_kids :: "nat \<Rightarrow> nat list"
  at_leaf :: "nat \<Rightarrow> bool"

definition tree_ok :: "agent_tree \<Rightarrow> bool" where
  "tree_ok T \<longleftrightarrow> (\<forall>a c. c \<in> set (at_kids T a) \<longrightarrow> a < c \<and> \<not> at_leaf T a \<and> (\<forall>b. c \<in> set (at_kids T b) \<longrightarrow> b = a) \<and>
       (a = 0 \<or> (\<exists>p. a \<in> set (at_kids T p)))) \<and> \<not> at_leaf T 0"

record barrier =
  br_step :: "nat \<Rightarrow> int"
  br_done :: "nat \<Rightarrow> bool"
  br_mail :: "nat \<Rightarrow> int option"
  br_post :: "nat \<Rightarrow> int option"

inductive barrier_step :: "agent_tree \<Rightarrow> barrier \<Rightarrow> barrier \<Rightarrow> bool" for T :: agent_tree where
  advance: "br_done s 0 \<Longrightarrow> k = br_step s 0 + 1 \<Longrightarrow>
    barrier_step T s (s\<lparr>br_step := (br_step s)(0 := k), br_done := (br_done s)(0 := False),
      br_mail := (\<lambda>c. if c \<in> set (at_kids T 0) then Some k else br_mail s c)\<rparr>)"
| pass_on: "b \<in> set (at_kids T a) \<Longrightarrow> \<not> at_leaf T b \<Longrightarrow> br_done s b \<Longrightarrow> br_mail s b = Some k \<Longrightarrow> br_step s b \<noteq> k \<Longrightarrow>
    barrier_step T s (s\<lparr>br_step := (br_step s)(b := k), br_done := (br_done s)(b := False),
      br_mail := (\<lambda>c. if c \<in> set (at_kids T b) then Some k else br_mail s c)\<rparr>)"
| start: "b \<in> set (at_kids T a) \<Longrightarrow> at_leaf T b \<Longrightarrow> br_mail s b = Some k \<Longrightarrow> br_step s b \<noteq> k \<Longrightarrow>
    barrier_step T s (s\<lparr>br_step := (br_step s)(b := k), br_done := (br_done s)(b := d)\<rparr>)"
| reset: "b \<in> set (at_kids T a) \<Longrightarrow> at_leaf T b \<Longrightarrow> br_mail s b = None \<or> br_mail s b = Some 0 \<Longrightarrow>
    barrier_step T s (s\<lparr>br_step := (br_step s)(b := 0), br_done := (br_done s)(b := True)\<rparr>)"
| finish: "at_leaf T b \<Longrightarrow> br_done s b \<longrightarrow> d \<Longrightarrow> p = br_post s b \<or> d \<and> p = Some (br_step s b) \<Longrightarrow>
    barrier_step T s (s\<lparr>br_done := (br_done s)(b := d), br_post := (br_post s)(b := p)\<rparr>)"
| discard: "barrier_step T s (s\<lparr>br_post := (\<lambda>c. if c \<in> set (at_kids T a) then None else br_post s c)\<rparr>)"
| collect: "\<not> at_leaf T a \<Longrightarrow> \<not> br_done s a \<Longrightarrow> \<forall>c \<in> set (at_kids T a). \<exists>k. br_post s c = Some k \<and> br_step s a \<le> k \<Longrightarrow>
    barrier_step T s (s\<lparr>br_done := (br_done s)(a := True),
      br_post := (\<lambda>c. if c \<in> set (at_kids T a) then None else br_post s c)(a := Some (br_step s a))\<rparr>)"

inductive_cases barrier_stepE: "barrier_step T s t"

text \<open>
  The invariant of the barrier. A child is at the step of its parent or, with its own step complete, one behind;
  when the parent is complete it is at the same step and complete. The leaf of a parent without a policy may have started by itself.
\<close>

definition edge_ok :: "agent_tree \<Rightarrow> barrier \<Rightarrow> nat \<Rightarrow> nat \<Rightarrow> bool" where
  "edge_ok T s a b \<longleftrightarrow>
     br_mail s b = (if br_step s a = - 1 then None else Some (br_step s a)) \<and>
     (br_step s a = - 1 \<longrightarrow> br_step s b = - 1 \<or> at_leaf T b \<and> br_step s b = 0 \<and> br_done s b) \<and>
     (0 \<le> br_step s a \<longrightarrow> br_step s a - 1 \<le> br_step s b \<and> br_step s b \<le> br_step s a) \<and>
     (br_step s b < br_step s a \<longrightarrow> br_done s b) \<and>
     (0 \<le> br_step s a \<and> br_done s a \<longrightarrow> br_step s b = br_step s a \<and> br_done s b) \<and>
     (\<forall>k. br_post s b = Some k \<longrightarrow> k \<le> br_step s b \<and> (k = br_step s b \<longrightarrow> br_done s b))"

definition barrier_ok :: "agent_tree \<Rightarrow> barrier \<Rightarrow> bool" where
  "barrier_ok T s \<longleftrightarrow> 0 \<le> br_step s 0 \<and> (\<forall>a. - 1 \<le> br_step s a \<and> (br_step s a = - 1 \<longrightarrow> br_done s a)) \<and>
     (\<forall>a b. b \<in> set (at_kids T a) \<longrightarrow> edge_ok T s a b)"

definition start_barrier :: "agent_tree \<Rightarrow> barrier" where
  "start_barrier T = \<lparr>br_step = (\<lambda>a. - 1)(0 := 0), br_done = (\<lambda>a. True)(0 := False),
     br_mail = (\<lambda>c. if c \<in> set (at_kids T 0) then Some 0 else None), br_post = (\<lambda>c. None)\<rparr>"

lemma start_barrier_ok: "tree_ok T \<Longrightarrow> barrier_ok T (start_barrier T)"
  by (auto simp: barrier_ok_def start_barrier_def edge_ok_def tree_ok_def)

lemma barrier_okI:
  assumes "0 \<le> br_step s 0" "\<And>a. - 1 \<le> br_step s a \<and> (br_step s a = - 1 \<longrightarrow> br_done s a)"
    "\<And>a b. b \<in> set (at_kids T a) \<Longrightarrow> edge_ok T s a b"
  shows "barrier_ok T s"
  using assms by (simp add: barrier_ok_def)

lemma tree_okD:
  assumes "tree_ok T" "c \<in> set (at_kids T a)"
  shows "a < c" "c \<noteq> 0" "\<not> at_leaf T a" "c \<in> set (at_kids T b) \<longleftrightarrow> b = a"
  using assms unfolding tree_ok_def by (metis gr_implies_not0)+

lemma barrier_okD:
  assumes "barrier_ok T s"
  shows "0 \<le> br_step s 0" "- 1 \<le> br_step s a" "br_step s a = - 1 \<Longrightarrow> br_done s a" "b \<in> set (at_kids T a) \<Longrightarrow> edge_ok T s a b"
  using assms by (simp_all add: barrier_ok_def)

lemma edge_ok_nodes:
  assumes "edge_ok T s a b" "br_mail t b = br_mail s b" "br_post t b = br_post s b"
    "br_step t a = br_step s a" "br_step t b = br_step s b" "br_done t a = br_done s a" "br_done t b = br_done s b"
  shows "edge_ok T t a b"
  using assms by (simp add: edge_ok_def)

lemma mail_is_parent_step:
  assumes "edge_ok T s a b" "- 1 \<le> br_step s a" "br_mail s b = Some k" "br_step s b \<noteq> k"
  shows "k = br_step s a" "0 \<le> k" "br_step s b < k" "br_done s b" "\<not> br_done s a" "k - 1 \<le> br_step s b"
proof -
  have a: "br_step s a \<noteq> - 1" "k = br_step s a" using assms(1,3) by (auto simp: edge_ok_def split: if_splits)
  then show "k = br_step s a" "0 \<le> k" using assms(2) by simp_all
  then have "k - 1 \<le> br_step s b" "br_step s b \<le> k" using assms(1) by (auto simp: edge_ok_def)
  then show "br_step s b < k" "k - 1 \<le> br_step s b" using assms(4) by simp_all
  then show "br_done s b" "\<not> br_done s a" using assms(1,4) a \<open>0 \<le> k\<close> by (auto simp: edge_ok_def)
qed

lemma barrier_step_ok:
  assumes step: "barrier_step T s t" and T: "tree_ok T" and ok: "barrier_ok T s"
  shows "barrier_ok T t"
proof -
  have edge: "edge_ok T t a b" if b: "b \<in> set (at_kids T a)" for a b
  proof -
    note e = barrier_okD(4)[OF ok b] and kid = tree_okD[OF T b]
    show ?thesis using step
    proof cases
      case (advance k)
      then show ?thesis using e barrier_okD(1)[OF ok] kid(2) kid(4)[of 0] by (cases "a = 0") (auto simp: edge_ok_def)
    next
      case (pass_on c d k)
      note m = mail_is_parent_step[OF barrier_okD(4)[OF ok pass_on(2)] barrier_okD(2)[OF ok] pass_on(5,6)]
      consider "c = b" | "c = a" | "c \<noteq> a" "c \<noteq> b" by blast
      then show ?thesis
      proof cases
        case 1
        then have "d = a" using pass_on(2) kid(4) by simp
        moreover have "c \<noteq> a" "b \<notin> set (at_kids T c)" using 1 kid by auto
        ultimately show ?thesis using e m pass_on(1,5) 1 by (auto simp: edge_ok_def)
      next
        case 2
        then show ?thesis using e m pass_on(1) b kid barrier_okD(2,3)[OF ok, of b] by (auto simp: edge_ok_def)
      next
        case 3
        then have "b \<notin> set (at_kids T c)" using kid by simp
        then show ?thesis using e 3 pass_on(1) by (auto intro: edge_ok_nodes)
      qed
    next
      case (start c d k f)
      note m = mail_is_parent_step[OF barrier_okD(4)[OF ok start(2)] barrier_okD(2)[OF ok] start(4,5)]
      have "c \<noteq> a" using start(3) kid by auto
      show ?thesis
      proof (cases "c = b")
        case True
        then have "d = a" using start(2) kid(4) by simp
        then show ?thesis using e m start(1,4) True \<open>c \<noteq> a\<close> by (auto simp: edge_ok_def)
      next
        case False
        then show ?thesis using e start(1) \<open>c \<noteq> a\<close> by (auto intro: edge_ok_nodes)
      qed
    next
      case (reset c d)
      have "c \<noteq> a" using reset(3) kid by auto
      show ?thesis
      proof (cases "c = b")
        case True
        then have "br_step s a = - 1 \<or> br_step s a = 0" using e reset(4) by (auto simp: edge_ok_def split: if_splits)
        then show ?thesis using e reset(1,3) True \<open>c \<noteq> a\<close> by (auto simp: edge_ok_def)
      next
        case False
        then show ?thesis using e reset(1) \<open>c \<noteq> a\<close> by (auto intro: edge_ok_nodes)
      qed
    next
      case (finish c d p)
      then have "c \<noteq> a" using kid by auto
      then show ?thesis using e finish by (cases "c = b") (auto simp: edge_ok_def)
    next
      case (discard c)
      then show ?thesis using e by (auto simp: edge_ok_def)
    next
      case (collect c)
      consider "c = b" | "c = a" | "c \<noteq> a" "c \<noteq> b" by blast
      then show ?thesis
      proof cases
        case 1
        then show ?thesis using e collect(1,3) kid by (auto simp: edge_ok_def)
      next
        case 2
        then obtain k where "br_post s b = Some k" "br_step s a \<le> k" using collect(4) b by auto
        then show ?thesis using e 2 collect(1,3) kid b barrier_okD(2,3)[OF ok, of a] by (auto simp: edge_ok_def)
      next
        case 3
        then show ?thesis using e kid collect(1) by (auto simp: edge_ok_def)
      qed
    qed
  qed
  have node: "- 1 \<le> br_step t a \<and> (br_step t a = - 1 \<longrightarrow> br_done t a)" for a
  proof -
    have m: "0 \<le> k" if "b \<in> set (at_kids T d)" "br_mail s b = Some k" for b d k
      using barrier_okD(4)[OF ok that(1)] barrier_okD(2)[OF ok, of d] that(2) by (auto simp: edge_ok_def split: if_splits)
    show ?thesis using step barrier_okD(1)[OF ok] barrier_okD(2,3)[OF ok, of a] by cases (auto dest: m)
  qed
  have "0 \<le> br_step t 0" using step barrier_okD(1)[OF ok] T by cases (auto simp: tree_ok_def)
  then show ?thesis using node edge by (rule barrier_okI)
qed

lemma barrier_bounded:
  assumes T: "tree_ok T" and ok: "barrier_ok T s"
  shows "b \<in> set (at_kids T a) \<Longrightarrow> br_step s a \<le> br_step s 0 \<and> br_step s b \<le> br_step s 0"
proof (induction b arbitrary: a rule: less_induct)
  case (less b)
  note e = barrier_okD(4)[OF ok less.prems] and root = barrier_okD(1)[OF ok] and a = barrier_okD(2)[OF ok, of a]
  have "br_step s a \<le> br_step s 0"
  proof (cases "a = 0")
    case False
    then obtain p where "a \<in> set (at_kids T p)" using T less.prems unfolding tree_ok_def by metis
    then show ?thesis using less.IH tree_okD(1)[OF T less.prems] by blast
  qed simp
  then show ?case using e root a by (auto simp: edge_ok_def)
qed

text \<open>The nodes of the tree; all of them are complete at the step of a complete root.\<close>

inductive in_tree :: "agent_tree \<Rightarrow> nat \<Rightarrow> bool" for T :: agent_tree where
  root: "in_tree T 0"
| kid: "in_tree T a \<Longrightarrow> b \<in> set (at_kids T a) \<Longrightarrow> in_tree T b"

lemma barrier_complete:
  assumes "barrier_ok T s" "br_done s 0" "in_tree T b"
  shows "br_step s b = br_step s 0 \<and> br_done s b"
  using assms(3)
proof induction
  case (kid a b)
  then show ?case using barrier_okD(4)[OF assms(1), of b a] barrier_okD(1)[OF assms(1)] by (auto simp: edge_ok_def)
qed (simp add: assms)

section \<open>Step numbers as doubles\<close>

lemma small_step: "- 1 \<le> k \<Longrightarrow> k \<le> INT_MAX + 1 \<Longrightarrow> \<bar>k\<bar> < 2 ^ 53"
  by (simp add: INT_MAX_def)

lemma d_of_step: "- 1 \<le> k \<Longrightarrow> k \<le> INT_MAX + 1 \<Longrightarrow> d_of_int k = Fin (of_int k)"
  by (rule d_of_int_exact) (rule small_step)

lemma deq_step:
  assumes "- 1 \<le> j" "j \<le> INT_MAX + 1" "- 1 \<le> k" "k \<le> INT_MAX + 1"
  shows "deq (d_of_int j) (d_of_int k) \<longleftrightarrow> j = k" "d_of_int j = d_of_int k \<longleftrightarrow> j = k"
  using assms by (simp_all add: d_of_step deq_def)

lemma deq_step_0: "- 1 \<le> j \<Longrightarrow> j \<le> INT_MAX + 1 \<Longrightarrow> deq (d_of_int j) (Fin 0) \<longleftrightarrow> j = 0"
  by (simp add: d_of_step deq_def)

lemma next_step: "- 1 \<le> k \<Longrightarrow> k < INT_MAX \<Longrightarrow> int_result (k + 1) = Inr (k + 1)"
  by (simp add: int_result_def INT_MIN_def INT_MAX_def)

section \<open>The operations of the roles, by step number\<close>

text \<open>\<open>carries p k\<close>: the policy is one of step \<open>k\<close>; that of step 0, and no other, has a power cap.\<close>

definition carries :: "bal_policy \<Rightarrow> int \<Rightarrow> bool" where
  "carries p k \<longleftrightarrow> pol_step p = d_of_int k \<and> (deq (pol_cap p) (Fin 0) \<longleftrightarrow> k \<noteq> 0)"

lemma validate_carries:
  assumes "carries m k" "0 \<le> k" "k \<le> INT_MAX" "\<not> deq tdp (Fin 0)" "\<not> deq mn (Fin 0)" "\<not> deq mx (Fin 0)"
  shows "\<exists>p. validate_policy tdp mn mx m = Inr p \<and> carries p k"
proof -
  let ?d = "default_policy tdp m" and ?c = "clamp_cap mn mx (pol_cap (default_policy tdp m))"
  have step: "pol_step ?d = d_of_int k" using assms(1-3) by (simp add: default_policy_def carries_def d_of_step)
  have cap: "deq ?c (Fin 0) \<longleftrightarrow> k \<noteq> 0" using assms(1,4-6) by (auto simp: default_policy_def clamp_cap_def carries_def deq_def isnan_def)
  have "deq (d_of_int k) (Fin 0) \<longleftrightarrow> k = 0" using assms(2,3) by (simp add: deq_step_0)
  then have "validate_policy tdp mn mx m = Inr (?d\<lparr>pol_cap := ?c\<rparr>)" using step cap by (auto simp: validate_policy_def Let_def)
  moreover have "carries (?d\<lparr>pol_cap := ?c\<rparr>) k" using step cap by (simp add: carries_def)
  ultimately show ?thesis by blast
qed

lemma validate_default:
  assumes "\<not> deq tdp (Fin 0)" "\<not> deq mn (Fin 0)" "\<not> deq mx (Fin 0)"
  shows "\<exists>p. validate_policy tdp mn mx nan_policy = Inr p \<and> carries p 0"
  using assms by (auto simp: validate_policy_def Let_def default_policy_def nan_policy_def clamp_cap_def carries_def d_of_int_def)

lemma tree_descend_carries:
  assumes "carries p k" "0 \<le> k" "k \<le> INT_MAX" "- 1 \<le> tr_step_count s" "tr_step_count s \<le> k" "k - 1 \<le> tr_step_count s"
  shows "tree_descend p s =
    (if tr_is_step_complete s \<and> tr_step_count s \<noteq> k
     then (Inr (Some (replicate (tr_num_children s) p)), s\<lparr>tr_step_count := k, tr_is_step_complete := False, tr_policy := p\<rparr>)
     else (Inr None, s))"
proof -
  have "deq (pol_step p) (d_of_int (tr_step_count s)) \<longleftrightarrow> tr_step_count s = k" "deq (pol_step p) (Fin 0) \<longleftrightarrow> k = 0"
    using assms by (auto simp: carries_def deq_step deq_step_0)
  moreover have "tr_step_count s + 1 = k" "int_result (tr_step_count s + 1) = Inr k" "deq (pol_step p) (d_of_int k)" if "tr_step_count s \<noteq> k"
    using that assms by (auto simp: carries_def deq_step int_result_def INT_MIN_def INT_MAX_def)
  ultimately show ?thesis by (auto simp: tree_descend_def act_simps bind_def)
qed

lemma aggregate_step_in:
  assumes "xs \<noteq> []" "list_all (\<lambda>x. \<not> isnan (smp_step x)) xs"
  shows "smp_step (aggregate_sample xs) \<in> smp_step ` set xs" "\<And>x. x \<in> set xs \<Longrightarrow> smp_step (aggregate_sample xs) \<le> smp_step x"
proof -
  have f: "nan_filter (map smp_step xs) = map smp_step xs" using assms(2) by (auto simp: nan_filter_def list_all_iff intro: filter_True)
  have ne: "nan_filter (map smp_step xs) \<noteq> []" using assms(1) f by simp
  show "smp_step (aggregate_sample xs) \<in> smp_step ` set xs" using agg_min_props(1)[OF ne] unfolding f by (simp add: aggregate_sample_def)
  show "smp_step (aggregate_sample xs) \<le> smp_step x" if "x \<in> set xs" for x
    using agg_min_props(2)[OF ne, of "smp_step x"] that unfolding f by (simp add: aggregate_sample_def)
qed

text \<open>
  The minimum of the step numbers of the samples is the step of the node only if every sample has reached it.
\<close>

lemma tree_ascend_steps:
  assumes "list_all (\<lambda>x. \<exists>k. smp_step x = d_of_int k \<and> - 1 \<le> k \<and> k \<le> INT_MAX) xs" "- 1 \<le> tr_step_count s" "tr_step_count s \<le> INT_MAX"
  shows "tree_ascend xs s =
      (if \<not> tr_is_step_complete s \<and> deq (smp_step (aggregate_sample xs)) (d_of_int (tr_step_count s))
       then (Inr (True, aggregate_sample xs), s\<lparr>tr_is_step_complete := True\<rparr>) else (Inr (False, aggregate_sample xs), s))"
    "deq (smp_step (aggregate_sample xs)) (d_of_int (tr_step_count s)) \<Longrightarrow> x \<in> set xs \<Longrightarrow> smp_step x = d_of_int k \<Longrightarrow> - 1 \<le> k \<Longrightarrow> k \<le> INT_MAX \<Longrightarrow> tr_step_count s \<le> k"
proof -
  show "tree_ascend xs s =
      (if \<not> tr_is_step_complete s \<and> deq (smp_step (aggregate_sample xs)) (d_of_int (tr_step_count s))
       then (Inr (True, aggregate_sample xs), s\<lparr>tr_is_step_complete := True\<rparr>) else (Inr (False, aggregate_sample xs), s))"
    by (simp add: tree_ascend_def act_simps Let_def)
  assume d: "deq (smp_step (aggregate_sample xs)) (d_of_int (tr_step_count s))" and x: "x \<in> set xs" "smp_step x = d_of_int k" "- 1 \<le> k" "k \<le> INT_MAX"
  have "list_all (\<lambda>x. \<not> isnan (smp_step x)) xs" using assms(1) by (auto simp: list_all_iff d_of_int_def)
  then have "smp_step (aggregate_sample xs) \<le> smp_step x" using aggregate_step_in(2) x(1) by (metis list.set_cases list.distinct(1))
  then have "Fin (of_int (tr_step_count s)) \<le> Fin (of_int k)" using d x assms(2,3) by (simp add: deq_def d_of_step)
  then show "tr_step_count s \<le> k" by simp
qed

lemma update_policy_carries:
  assumes "carries p r" "0 \<le> r"
  shows "carries ((update_policy (step_imp r) n smp p)\<lparr>pol_step := d_of_int (r + 1)\<rparr>) (r + 1)"
proof -
  have "step_imp r = Send_down_limit" if "r = 0" using that by (simp add: step_imp_def role_step_def)
  then show ?thesis using assms by (cases "step_imp r") (auto simp: carries_def deq_def)
qed

text \<open>What the root keeps: its policy is the one for its step, or for the next one when the step is complete.\<close>

definition root_ok :: "bal_policy \<Rightarrow> root_role \<Rightarrow> bool" where
  "root_ok p s \<longleftrightarrow> 0 \<le> tr_step_count s \<and> tr_step_count s \<le> INT_MAX \<and> deq (pol_cap p) (rr_root_cap s) \<and>
     carries (tr_policy s) (if tr_is_step_complete s then tr_step_count s + 1 else tr_step_count s)"

lemma root_descend_ok:
  assumes "root_ok p s" "tr_step_count s < INT_MAX"
  shows "root_descend p s =
    (if tr_is_step_complete s
     then (Inr (Some (replicate (tr_num_children s) (tr_policy s))), s\<lparr>tr_step_count := tr_step_count s + 1, tr_is_step_complete := False\<rparr>)
     else (Inr None, s))"
proof -
  have "int_result (tr_step_count s + 1) = Inr (tr_step_count s + 1)" using assms by (intro next_step) (auto simp: root_ok_def)
  moreover have "deq (d_of_int (tr_step_count s + 1)) (pol_step (tr_policy s)) \<longleftrightarrow> tr_is_step_complete s"
    "\<not> tr_is_step_complete s \<Longrightarrow> deq (d_of_int (tr_step_count s)) (pol_step (tr_policy s))"
    using assms by (auto simp: root_ok_def carries_def deq_step)
  ultimately show ?thesis using assms by (auto simp: root_ok_def root_descend_def act_simps bind_def)
qed

lemma root_ascend_ok:
  assumes "root_ok p s" "tr_step_count s < INT_MAX"
    "list_all (\<lambda>x. \<exists>k. smp_step x = d_of_int k \<and> - 1 \<le> k \<and> k \<le> INT_MAX) xs"
  shows "\<exists>q. root_ascend xs s =
    (if \<not> tr_is_step_complete s \<and> deq (smp_step (aggregate_sample xs)) (d_of_int (tr_step_count s))
     then (Inr (True, aggregate_sample xs), s\<lparr>tr_is_step_complete := True, tr_policy := q\<rparr>)
     else (Inr (False, aggregate_sample xs), s)) \<and>
    (\<not> tr_is_step_complete s \<longrightarrow> carries q (tr_step_count s + 1))"
proof -
  let ?q = "(update_policy (step_imp (tr_step_count s)) (tr_num_node s) (aggregate_sample xs) (tr_policy s))\<lparr>pol_step := d_of_int (tr_step_count s + 1)\<rparr>"
  have "int_result (tr_step_count s + 1) = Inr (tr_step_count s + 1)" using assms by (intro next_step) (auto simp: root_ok_def)
  moreover have "deq (d_of_int (tr_step_count s)) (pol_step (tr_policy s))" if "\<not> tr_is_step_complete s"
    using assms(1) that by (auto simp: root_ok_def carries_def deq_step)
  moreover have "- 1 \<le> tr_step_count s" "tr_step_count s \<le> INT_MAX" using assms(1) by (simp_all add: root_ok_def)
  ultimately have "root_ascend xs s =
    (if \<not> tr_is_step_complete s \<and> deq (smp_step (aggregate_sample xs)) (d_of_int (tr_step_count s))
     then (Inr (True, aggregate_sample xs), s\<lparr>tr_is_step_complete := True, tr_policy := ?q\<rparr>)
     else (Inr (False, aggregate_sample xs), s))"
    using tree_ascend_steps(1)[OF assms(3), of s] by (simp add: root_ascend_def bind_def act_simps)
  moreover have "carries ?q (tr_step_count s + 1)" if "\<not> tr_is_step_complete s"
    using assms(1) that by (intro update_policy_carries) (auto simp: root_ok_def)
  ultimately show ?thesis by blast
qed

lemma complete_flags [simp]:
  "are_steps_complete (set_steps_complete True s)" "lf_step_count (set_steps_complete b s) = lf_step_count s"
  "lf_is_single_node (set_steps_complete b s) = lf_is_single_node s" "lf_policy (set_steps_complete b s) = lf_policy s"
  by (simp_all add: set_steps_complete_def are_steps_complete_def list.pred_map list.pred_True comp_def)

lemma enter_step_fields [simp]:
  "lf_step_count (enter_step st p s) = lf_step_count s" "lf_is_single_node (enter_step st p s) = lf_is_single_node s"
  by (cases st; simp)+

lemma leaf_receives:
  assumes "\<not> lf_is_single_node s" "carries p k" "0 \<le> k" "k \<le> INT_MAX" "- 1 \<le> lf_step_count s"
    "lf_step_count s = k \<or> lf_step_count s + 1 = k \<or> k = 0"
  shows "\<exists>t. receive_policy p s = (Inr (), t) \<and> lf_step_count t = k \<and> \<not> lf_is_single_node t \<and> (k = 0 \<longrightarrow> are_steps_complete t) \<and>
    (k \<noteq> 0 \<and> lf_step_count s = k \<longrightarrow> are_steps_complete t = are_steps_complete s)"
proof -
  let ?s = "s\<lparr>lf_policy := p\<rparr>"
  have take: "take_policy p s = ?s" using assms(1) by (simp add: take_policy_def)
  consider "k = 0" | "k \<noteq> 0" "lf_step_count s = k" | "k \<noteq> 0" "lf_step_count s + 1 = k" using assms(6) by blast
  then show ?thesis
  proof cases
    case 1
    then have "receive_policy p s = (Inr (), reset_leaf ?s)"
      using assms(2) take by (simp add: receive_policy_def act_simps carries_def)
    then show ?thesis using 1 assms(1) by (simp add: reset_leaf_def Let_def)
  next
    case 2
    then have "receive_policy p s = (Inr (), ?s)"
      using assms take by (simp add: receive_policy_def act_simps carries_def deq_step)
    then show ?thesis using 2 assms(1) by (simp add: are_steps_complete_def)
  next
    case 3
    let ?t = "set_steps_complete False (?s\<lparr>lf_step_count := k\<rparr>)"
    have "int_result (lf_step_count s + 1) = Inr k" using 3 assms(4,5) next_step[of "lf_step_count s"] by simp
    moreover have "\<not> deq (pol_step p) (d_of_int (lf_step_count s))" "deq (d_of_int k) (pol_step p)"
      using 3 assms(2-5) by (auto simp: carries_def deq_step)
    ultimately have "receive_policy p s = (Inr (), enter_step (step_imp k) p ?t)"
      using 3 assms(2) take by (simp add: receive_policy_def advance_leaf_def act_simps carries_def)
    then show ?thesis using 3 assms(1) by simp
  qed
qed

lemma enforce_limits_leaf:
  assumes "enforce_limits now s = (r, t)"
  shows "lf_step_count t = lf_step_count s" "lf_is_single_node t = lf_is_single_node s" "are_steps_complete t = are_steps_complete s"
  using evolvesD[OF enforce_limits_flags assms] flags_same_complete by (auto simp: leaf_flow_def)

section \<open>The network\<close>

text \<open>
  Node 0 is the root agent, the other nodes are inner agents and the leaves are the agents of the compute nodes. The
  root is given the same policy each time. \<open>bn_mail b\<close> is the policy mailbox of node \<open>b\<close> and \<open>bn_post b\<close> its sample in the
  mailbox of its parent: a policy stays until the next one replaces it, a sample is taken.
\<close>

record net_config =
  nc_tree :: agent_tree
  nc_policy :: bal_policy
  nc_tdp :: "nat \<Rightarrow> double"
  nc_min_power :: "nat \<Rightarrow> double"
  nc_max_power :: "nat \<Rightarrow> double"

record 'w balancer_net =
  bn_root :: root_role
  bn_tree :: "nat \<Rightarrow> tree_role"
  bn_leaf :: "nat \<Rightarrow> 'w leaf_role"
  bn_mail :: "nat \<Rightarrow> bal_policy option"
  bn_post :: "nat \<Rightarrow> bal_sample option"

abbreviation nc_kids :: "net_config \<Rightarrow> nat \<Rightarrow> nat list" where
  "nc_kids C \<equiv> at_kids (nc_tree C)"

abbreviation nc_leaf :: "net_config \<Rightarrow> nat \<Rightarrow> bool" where
  "nc_leaf C \<equiv> at_leaf (nc_tree C)"

definition nc_validate :: "net_config \<Rightarrow> nat \<Rightarrow> bal_policy \<Rightarrow> bal_policy result" where
  "nc_validate C n = validate_policy (nc_tdp C n) (nc_min_power C n) (nc_max_power C n)"

definition pol_has_nan :: "bal_policy \<Rightarrow> bool" where
  "pol_has_nan p \<longleftrightarrow> isnan (pol_cap p) \<or> isnan (pol_step p) \<or> isnan (pol_runtime p) \<or> isnan (pol_slack p)"

definition smp_has_nan :: "bal_sample \<Rightarrow> bool" where
  "smp_has_nan x \<longleftrightarrow> isnan (smp_step x) \<or> isnan (smp_runtime x) \<or> isnan (smp_slack x) \<or> isnan (smp_headroom x)"

text \<open>What \<^verbatim>\<open>walk_down()\<close> does at the root, at an inner node that has received a policy, and at a leaf.\<close>

definition walk_down_root :: "net_config \<Rightarrow> (root_role, bal_policy list option) action" where
  "walk_down_root C = bind (lift (nc_validate C 0 (nc_policy C))) root_descend"

definition walk_down_tree :: "net_config \<Rightarrow> nat \<Rightarrow> bal_policy \<Rightarrow> (tree_role, bal_policy list option) action" where
  "walk_down_tree C n m = bind (lift (nc_validate C n m)) tree_descend"

definition leaf_policy :: "net_config \<Rightarrow> nat \<Rightarrow> bal_policy option \<Rightarrow> bal_policy result" where
  "leaf_policy C n m = nc_validate C n (case m of None \<Rightarrow> nan_policy | Some p \<Rightarrow> p)"

definition walk_down_leaf :: "net_config \<Rightarrow> (int \<Rightarrow> geopm_time_s) \<Rightarrow> nat \<Rightarrow> bal_policy option \<Rightarrow> ('w leaf_role, bool) action" where
  "walk_down_leaf C now n m = bind (lift (leaf_policy C n m)) (leaf_adjust_platform now)"

definition deliver :: "nat list \<Rightarrow> bal_policy list option \<Rightarrow> (nat \<Rightarrow> bal_policy option) \<Rightarrow> nat \<Rightarrow> bal_policy option" where
  "deliver kids out mail = (case out of None \<Rightarrow> mail | Some ps \<Rightarrow> mail(kids [\<mapsto>] ps))"

definition clear_posts :: "nat list \<Rightarrow> (nat \<Rightarrow> bal_sample option) \<Rightarrow> nat \<Rightarrow> bal_sample option" where
  "clear_posts kids post c = (if c \<in> set kids then None else post c)"

text \<open>\<^verbatim>\<open>receive_up()\<close>: samples when every child has posted one.\<close>

definition posted :: "nat list \<Rightarrow> (nat \<Rightarrow> bal_sample option) \<Rightarrow> bal_sample list option" where
  "posted kids post = (if list_all (\<lambda>c. post c \<noteq> None) kids then Some (map (\<lambda>c. the (post c)) kids) else None)"

inductive net_step :: "net_config \<Rightarrow> 'w balancer_net \<Rightarrow> 'w balancer_net \<Rightarrow> bool" for C :: net_config where
  root_down: "walk_down_root C (bn_root s) = (Inr out, r) \<Longrightarrow>
    net_step C s (s\<lparr>bn_root := r, bn_mail := deliver (nc_kids C 0) out (bn_mail s)\<rparr>)"
| tree_down: "b \<in> set (nc_kids C a) \<Longrightarrow> \<not> nc_leaf C b \<Longrightarrow> bn_mail s b = Some m \<Longrightarrow> \<not> pol_has_nan m \<Longrightarrow>
    walk_down_tree C b m (bn_tree s b) = (Inr out, t) \<Longrightarrow>
    net_step C s (s\<lparr>bn_tree := (bn_tree s)(b := t), bn_mail := deliver (nc_kids C b) out (bn_mail s)\<rparr>)"
| leaf_down: "b \<in> set (nc_kids C a) \<Longrightarrow> nc_leaf C b \<Longrightarrow>
    walk_down_leaf C now b (bn_mail s b) (bn_leaf s b) = (Inr do_write, l) \<Longrightarrow>
    net_step C s (s\<lparr>bn_leaf := (bn_leaf s)(b := l)\<rparr>)"
| platform: "nc_leaf C b \<Longrightarrow> net_step C s (s\<lparr>bn_leaf := (bn_leaf s)(b := (bn_leaf s b)\<lparr>lf_sample_agg := agg\<rparr>)\<rparr>)"
| leaf_up: "b \<in> set (nc_kids C a) \<Longrightarrow> nc_leaf C b \<Longrightarrow>
    leaf_sample_platform sq now (bn_leaf s b) = (Inr (result, smp), l) \<Longrightarrow>
    net_step C s (s\<lparr>bn_leaf := (bn_leaf s)(b := l), bn_post := (if result then (bn_post s)(b \<mapsto> smp) else bn_post s)\<rparr>)"
| tree_up: "b \<in> set (nc_kids C a) \<Longrightarrow> \<not> nc_leaf C b \<Longrightarrow> posted (nc_kids C b) (bn_post s) = Some xs \<Longrightarrow> list_all (\<lambda>x. \<not> smp_has_nan x) xs \<Longrightarrow>
    tree_ascend xs (bn_tree s b) = (Inr (result, smp), t) \<Longrightarrow> post = clear_posts (nc_kids C b) (bn_post s) \<Longrightarrow>
    net_step C s (s\<lparr>bn_tree := (bn_tree s)(b := t), bn_post := (if result then post(b \<mapsto> smp) else post)\<rparr>)"
| root_up: "posted (nc_kids C 0) (bn_post s) = Some xs \<Longrightarrow> list_all (\<lambda>x. \<not> smp_has_nan x) xs \<Longrightarrow>
    root_ascend xs (bn_root s) = (Inr (result, smp), r) \<Longrightarrow> post = clear_posts (nc_kids C 0) (bn_post s) \<Longrightarrow>
    net_step C s (s\<lparr>bn_root := r, bn_post := (if result then post(0 \<mapsto> smp) else post)\<rparr>)"
| refused: "posted (nc_kids C n) (bn_post s) = Some xs \<Longrightarrow> \<not> list_all (\<lambda>x. \<not> smp_has_nan x) xs \<Longrightarrow>
    net_step C s (s\<lparr>bn_post := clear_posts (nc_kids C n) (bn_post s)\<rparr>)"

inductive_cases net_stepE: "net_step C s t"

text \<open>
  The start: new roles, and the root has sent its first policy. (\<^verbatim>\<open>walk_down()\<close> comes before \<^verbatim>\<open>walk_up()\<close>.)
\<close>

definition fresh_tree :: "nat \<Rightarrow> tree_role \<Rightarrow> bool" where
  "fresh_tree n t \<longleftrightarrow> tr_step_count t = - 1 \<and> tr_is_step_complete t \<and> tr_num_children t = n"

definition fresh_root :: "nat \<Rightarrow> root_role \<Rightarrow> bool" where
  "fresh_root n r \<longleftrightarrow> tr_step_count r = 0 \<and> \<not> tr_is_step_complete r \<and> rr_root_cap r = NaN \<and> tr_num_children r = n"

definition fresh_leaf :: "'w leaf_role \<Rightarrow> bool" where
  "fresh_leaf l \<longleftrightarrow> lf_step_count l = - 1 \<and> \<not> lf_is_single_node l \<and> are_steps_complete l"

definition net_start :: "net_config \<Rightarrow> 'w balancer_net \<Rightarrow> bool" where
  "net_start C s \<longleftrightarrow>
     (\<exists>r. fresh_root (length (nc_kids C 0)) r \<and>
        (\<exists>out. walk_down_root C r = (Inr out, bn_root s) \<and> bn_mail s = deliver (nc_kids C 0) out Map.empty)) \<and>
     (\<forall>n. n \<noteq> 0 \<and> \<not> nc_leaf C n \<longrightarrow> fresh_tree (length (nc_kids C n)) (bn_tree s n)) \<and>
     (\<forall>n. nc_leaf C n \<longrightarrow> fresh_leaf (bn_leaf s n)) \<and> bn_post s = Map.empty"

inductive net_reach :: "net_config \<Rightarrow> 'w balancer_net \<Rightarrow> bool" for C :: net_config where
  start: "net_start C s \<Longrightarrow> net_reach C s"
| step: "net_reach C s \<Longrightarrow> net_step C s t \<Longrightarrow> net_reach C t"

text \<open>The bounds of the nodes are not zero, and the policy asks for a power cap.\<close>

definition config_ok :: "net_config \<Rightarrow> bool" where
  "config_ok C \<longleftrightarrow> tree_ok (nc_tree C) \<and>
     (\<forall>n. \<not> deq (nc_tdp C n) (Fin 0) \<and> \<not> deq (nc_min_power C n) (Fin 0) \<and> \<not> deq (nc_max_power C n) (Fin 0)) \<and>
     \<not> isnan (nc_tdp C 0) \<and> \<not> deq (pol_cap (nc_policy C)) (Fin 0)"

lemma make_tree_role_fresh:
  assumes "make_tree_role level fan_in = Inr t"
  shows "fresh_tree (nat (fan_in ! nat (level - 1))) t"
  using assms by (auto simp: make_tree_role_def fresh_tree_def and_then_def split: sum.splits if_splits)

lemma make_root_role_fresh:
  assumes "make_root_role level fan_in mn mx = Inr r"
  shows "fresh_root (nat (fan_in ! nat (level - 1))) r"
  using assms by (auto simp: make_root_role_def make_tree_role_def fresh_root_def and_then_def tree_role.defs split: sum.splits if_splits)

text \<open>How the network implements the barrier.\<close>

definition node_step :: "net_config \<Rightarrow> 'w balancer_net \<Rightarrow> nat \<Rightarrow> int" where
  "node_step C s n = (if n = 0 then tr_step_count (bn_root s) else if nc_leaf C n then lf_step_count (bn_leaf s n) else tr_step_count (bn_tree s n))"

definition node_done :: "net_config \<Rightarrow> 'w balancer_net \<Rightarrow> nat \<Rightarrow> bool" where
  "node_done C s n \<longleftrightarrow> (if n = 0 then tr_is_step_complete (bn_root s) else if nc_leaf C n then are_steps_complete (bn_leaf s n)
     else tr_is_step_complete (bn_tree s n))"

definition reports :: "bal_sample \<Rightarrow> int \<Rightarrow> bool" where
  "reports x k \<longleftrightarrow> smp_step x = d_of_int k \<and> - 1 \<le> k \<and> k \<le> INT_MAX"

definition net_rel :: "net_config \<Rightarrow> 'w balancer_net \<Rightarrow> barrier \<Rightarrow> bool" where
  "net_rel C s b \<longleftrightarrow> br_step b = node_step C s \<and> br_done b = node_done C s \<and>
     (\<forall>n. rel_option carries (bn_mail s n) (br_mail b n)) \<and> (\<forall>n. rel_option reports (bn_post s n) (br_post b n))"

definition net_ok :: "net_config \<Rightarrow> 'w balancer_net \<Rightarrow> bool" where
  "net_ok C s \<longleftrightarrow> (\<exists>p. nc_validate C 0 (nc_policy C) = Inr p \<and> root_ok p (bn_root s)) \<and> tr_num_children (bn_root s) = length (nc_kids C 0) \<and>
     (\<forall>n. n \<noteq> 0 \<and> \<not> nc_leaf C n \<longrightarrow> tr_num_children (bn_tree s n) = length (nc_kids C n)) \<and>
     (\<forall>n. nc_leaf C n \<longrightarrow> \<not> lf_is_single_node (bn_leaf s n))"

lemma map_upds_replicate: "m(xs [\<mapsto>] replicate (length xs) p) = (\<lambda>c. if c \<in> set xs then Some p else m c)"
  by (induction xs arbitrary: m) (auto simp: fun_eq_iff)

lemma deliver_simps [simp]:
  "deliver kids None mail = mail"
  "deliver kids (Some (replicate (length kids) p)) mail = (\<lambda>c. if c \<in> set kids then Some p else mail c)"
  by (simp_all add: deliver_def map_upds_replicate)

lemma config_okD:
  assumes "config_ok C"
  shows "tree_ok (nc_tree C)" "\<not> deq (nc_tdp C n) (Fin 0)" "\<not> deq (nc_min_power C n) (Fin 0)" "\<not> deq (nc_max_power C n) (Fin 0)"
    "\<not> nc_leaf C 0" "b \<in> set (nc_kids C a) \<Longrightarrow> b \<noteq> 0"
  using assms tree_okD(2) by (auto simp: config_ok_def tree_ok_def)

lemma config_policy:
  assumes "config_ok C"
  shows "\<exists>p. nc_validate C 0 (nc_policy C) = Inr p \<and> \<not> deq (pol_cap p) (Fin 0) \<and> deq (pol_cap p) (pol_cap p)"
proof -
  let ?p = "nc_policy C"
  let ?c = "clamp_cap (nc_min_power C 0) (nc_max_power C 0) (pol_cap (default_policy (nc_tdp C 0) ?p))"
  have "\<not> deq ?c (Fin 0) \<and> deq ?c ?c"
    using config_okD(2-4)[OF assms] assms by (auto simp: config_ok_def clamp_cap_def default_policy_def deq_def dlt_def)
  then show ?thesis by (auto simp: nc_validate_def validate_policy_def Let_def)
qed

lemma root_first_descend:
  assumes "\<not> deq (pol_cap p) (Fin 0)" "fresh_root n r0" "root_descend p r0 = (Inr out, r)"
  shows "tr_step_count r = 0" "\<not> tr_is_step_complete r" "carries (tr_policy r) 0" "rr_root_cap r = pol_cap p" "tr_num_children r = n"
    "out = Some (replicate n (tr_policy r))"
  using assms by (auto simp: root_descend_def fresh_root_def bind_def act_simps deq_def carries_def d_of_int_def split: if_splits)

lemma net_start_rel:
  assumes "config_ok C" "net_start C s"
  shows "net_ok C s \<and> net_rel C s (start_barrier (nc_tree C)) \<and> barrier_ok (nc_tree C) (start_barrier (nc_tree C))"
proof -
  obtain p where p: "nc_validate C 0 (nc_policy C) = Inr p" "\<not> deq (pol_cap p) (Fin 0)" "deq (pol_cap p) (pol_cap p)"
    using config_policy[OF assms(1)] by blast
  obtain r out where r: "fresh_root (length (nc_kids C 0)) r" "walk_down_root C r = (Inr out, bn_root s)" "bn_mail s = deliver (nc_kids C 0) out Map.empty"
    using assms(2) by (auto simp: net_start_def)
  have "root_descend p r = (Inr out, bn_root s)" using r(2) p(1) by (simp add: walk_down_root_def act_simps)
  note first = root_first_descend[OF p(2) r(1) this]
  have "net_ok C s" using first p assms(2) by (auto simp: net_ok_def root_ok_def INT_MAX_def net_start_def fresh_tree_def fresh_leaf_def)
  moreover have "net_rel C s (start_barrier (nc_tree C))"
    using first r(3) assms(2) config_okD(5)[OF assms(1)]
    by (auto simp: net_rel_def start_barrier_def net_start_def fresh_tree_def fresh_leaf_def node_step_def node_done_def fun_eq_iff)
  moreover have "barrier_ok (nc_tree C) (start_barrier (nc_tree C))"
    using config_okD(1)[OF assms(1)] by (rule start_barrier_ok)
  ultimately show ?thesis by simp
qed

lemma init_leaf_flags: "evolves flags_same init_leaf"
proof -
  have modify: "evolves flags_same (modify f)" if "\<And>s. lf_package (f s) = lf_package s \<and> lf_step_count (f s) = lf_step_count s \<and>
      lf_is_single_node (f s) = lf_is_single_node s \<and> lf_is_first_policy (f s) = lf_is_first_policy s \<and> lf_num_domain (f s) = lf_num_domain s" for f
    using that by (intro evolves_modify leaf_flow_refl) auto
  show ?thesis unfolding init_leaf_def init_package_def
    by (intro evolves_bind[OF flags_preorders(1)] evolves_pure[OF flags_preorders(1)] evolves_for_each[OF flags_preorders(1)] evolves_on_agg evolves_upd_package modify)
      auto
qed

lemma make_leaf_role_fresh:
  assumes "make_leaf_role topo agg balancers mn mx w False n = Inr l"
  shows "fresh_leaf l"
  using assms by (auto simp: make_leaf_role_def Let_def and_then_def fresh_leaf_def leaf_flow_def dest!: evolvesD[OF init_leaf_flags]
      split: sum.splits prod.splits)

text \<open>One step of the network is at most one of the barrier.\<close>

definition simulates :: "net_config \<Rightarrow> 'w balancer_net \<Rightarrow> barrier \<Rightarrow> bool" where
  "simulates C t b \<longleftrightarrow> net_ok C t \<and> (\<exists>b'. (b' = b \<or> barrier_step (nc_tree C) b b') \<and> net_rel C t b')"

lemma net_okD:
  assumes "net_ok C s"
  obtains p where "nc_validate C 0 (nc_policy C) = Inr p" "root_ok p (bn_root s)"
  using assms by (auto simp: net_ok_def)

lemma sim_root_down:
  assumes C: "config_ok C" and ok: "net_ok C s" and rel: "net_rel C s b"
    and step: "walk_down_root C (bn_root s) = (Inr out, r)"
  shows "simulates C (s\<lparr>bn_root := r, bn_mail := deliver (nc_kids C 0) out (bn_mail s)\<rparr>) b"
proof -
  obtain p where p: "nc_validate C 0 (nc_policy C) = Inr p" "root_ok p (bn_root s)" using ok by (rule net_okD)
  let ?r = "tr_step_count (bn_root s)" and ?T = "nc_tree C"
  have d: "root_descend p (bn_root s) = (Inr out, r)" using step p(1) by (simp add: walk_down_root_def act_simps)
  have small: "?r < INT_MAX"
  proof (rule ccontr)
    assume "\<not> ?r < INT_MAX"
    then have "int_result (?r + 1) = Inl Undefined_behavior" by (simp add: int_result_def)
    then show False using d p(2) by (simp add: root_descend_def root_ok_def bind_def act_simps)
  qed
  note spec = root_descend_ok[OF p(2) small]
  show ?thesis
  proof (cases "tr_is_step_complete (bn_root s)")
    case False
    then have "r = bn_root s" "out = None" using spec d by auto
    then show ?thesis using ok rel by (auto simp: simulates_def)
  next
    case True
    then have r: "r = (bn_root s)\<lparr>tr_step_count := ?r + 1, tr_is_step_complete := False\<rparr>"
      and out: "out = Some (replicate (length (nc_kids C 0)) (tr_policy (bn_root s)))"
      using spec d ok by (auto simp: net_ok_def)
    let ?t = "s\<lparr>bn_root := r, bn_mail := deliver (nc_kids C 0) out (bn_mail s)\<rparr>"
    let ?b = "b\<lparr>br_step := (br_step b)(0 := ?r + 1), br_done := (br_done b)(0 := False),
      br_mail := (\<lambda>c. if c \<in> set (at_kids ?T 0) then Some (?r + 1) else br_mail b c)\<rparr>"
    have "barrier_step ?T b ?b" by (rule barrier_step.advance) (use rel True in \<open>auto simp: net_rel_def node_step_def node_done_def\<close>)
    moreover have "net_ok C ?t" using ok p True small by (auto simp: net_ok_def root_ok_def r)
    moreover have "net_rel C ?t ?b"
      using rel p(2) True out r by (auto simp: net_rel_def node_step_def node_done_def fun_eq_iff root_ok_def)
    ultimately show ?thesis by (auto simp: simulates_def)
  qed
qed

lemma sim_tree_down:
  assumes C: "config_ok C" and ok: "net_ok C s" and rel: "net_rel C s b" and bar: "barrier_ok (nc_tree C) b"
    and kid: "n \<in> set (nc_kids C a)" "\<not> nc_leaf C n" and mail: "bn_mail s n = Some m"
  shows "\<exists>out t. walk_down_tree C n m (bn_tree s n) = (Inr out, t) \<and>
    simulates C (s\<lparr>bn_tree := (bn_tree s)(n := t), bn_mail := deliver (nc_kids C n) out (bn_mail s)\<rparr>) b"
proof -
  let ?T = "nc_tree C" and ?t = "bn_tree s n"
  have n: "n \<noteq> 0" using config_okD(6)[OF C] kid(1) by simp
  obtain k where k: "br_mail b n = Some k" "carries m k" using rel mail unfolding net_rel_def by (metis option_rel_Some1)
  have e: "edge_ok ?T b a n" using bar kid(1) by (rule barrier_okD(4))
  have bn: "br_step b n = tr_step_count ?t" "br_done b n = tr_is_step_complete ?t"
    using rel kid(2) n by (simp_all add: net_rel_def node_step_def node_done_def)
  have "br_step b a = k" "0 \<le> k" using e k(1) barrier_okD(2)[OF bar, of a] by (auto simp: edge_ok_def split: if_splits)
  moreover have "br_step b 0 \<le> INT_MAX" using rel ok by (auto simp: net_rel_def node_step_def net_ok_def root_ok_def)
  ultimately have range: "0 \<le> k" "k \<le> INT_MAX" "- 1 \<le> tr_step_count ?t" "tr_step_count ?t \<le> k" "k - 1 \<le> tr_step_count ?t"
    using barrier_bounded[OF config_okD(1)[OF C] bar kid(1)] barrier_okD(2)[OF bar, of n] bn(1) e by (auto simp: edge_ok_def)
  obtain p where p: "nc_validate C n m = Inr p" "carries p k"
    unfolding nc_validate_def using validate_carries[OF k(2) range(1,2) config_okD(2-4)[OF C]] by blast
  note spec = tree_descend_carries[OF p(2) range]
  show ?thesis
  proof (cases "tr_is_step_complete ?t \<and> tr_step_count ?t \<noteq> k")
    case False
    then have "walk_down_tree C n m ?t = (Inr None, ?t)" using spec p(1) by (simp add: walk_down_tree_def act_simps del: de_Morgan_conj)
    moreover have "simulates C s b" using ok rel by (auto simp: simulates_def)
    ultimately show ?thesis by simp
  next
    case True
    let ?u = "?t\<lparr>tr_step_count := k, tr_is_step_complete := False, tr_policy := p\<rparr>"
    have num: "tr_num_children ?t = length (nc_kids C n)" using ok n kid(2) by (simp add: net_ok_def)
    have run: "walk_down_tree C n m ?t = (Inr (Some (replicate (length (nc_kids C n)) p)), ?u)"
      using spec p(1) True num by (simp add: walk_down_tree_def act_simps)
    let ?s = "s\<lparr>bn_tree := (bn_tree s)(n := ?u), bn_mail := deliver (nc_kids C n) (Some (replicate (length (nc_kids C n)) p)) (bn_mail s)\<rparr>"
    let ?b = "b\<lparr>br_step := (br_step b)(n := k), br_done := (br_done b)(n := False),
      br_mail := (\<lambda>c. if c \<in> set (at_kids ?T n) then Some k else br_mail b c)\<rparr>"
    have "barrier_step ?T b ?b" using kid k(1) True bn by (intro barrier_step.pass_on) auto
    moreover have "net_ok C ?s" using ok by (auto simp: net_ok_def)
    moreover have "net_rel C ?s ?b" using rel p(2) n kid(2) by (auto simp: net_rel_def node_step_def node_done_def fun_eq_iff)
    ultimately show ?thesis using run by (auto simp: simulates_def)
  qed
qed

text \<open>A leaf finds its step in sync: it starts the next step, starts again at step 0, or stays.\<close>

lemma leaf_in_sync:
  assumes C: "config_ok C" and ok: "net_ok C s" and rel: "net_rel C s b" and bar: "barrier_ok (nc_tree C) b"
    and kid: "n \<in> set (nc_kids C a)" "nc_leaf C n"
  shows "\<exists>p k t. leaf_policy C n (bn_mail s n) = Inr p \<and> receive_policy p (bn_leaf s n) = (Inr (), t) \<and>
    (br_mail b n = Some k \<or> k = 0 \<and> br_mail b n = None) \<and> lf_step_count t = k \<and> \<not> lf_is_single_node t \<and>
    (k = 0 \<longrightarrow> are_steps_complete t) \<and> (k \<noteq> 0 \<and> lf_step_count (bn_leaf s n) = k \<longrightarrow> are_steps_complete t = are_steps_complete (bn_leaf s n))"
proof -
  let ?l = "bn_leaf s n"
  have n: "n \<noteq> 0" using config_okD(6)[OF C] kid(1) by simp
  have e: "edge_ok (nc_tree C) b a n" using bar kid(1) by (rule barrier_okD(4))
  have l: "\<not> lf_is_single_node ?l" using ok kid(2) by (simp add: net_ok_def)
  have bn: "br_step b n = lf_step_count ?l" using rel kid(2) n by (simp add: net_rel_def node_step_def)
  have low: "- 1 \<le> lf_step_count ?l" using barrier_okD(2)[OF bar, of n] bn by simp
  show ?thesis
  proof (cases "bn_mail s n")
    case None
    then have "br_mail b n = None" using rel unfolding net_rel_def by (metis option.rel_distinct(1) option.exhaust)
    moreover obtain p where "leaf_policy C n (bn_mail s n) = Inr p" "carries p 0"
      unfolding leaf_policy_def nc_validate_def None using validate_default[OF config_okD(2)[OF C, of n] config_okD(3)[OF C, of n] config_okD(4)[OF C, of n]] by auto
    ultimately show ?thesis using leaf_receives[OF l, of p 0] low by (auto simp: INT_MAX_def)
  next
    case (Some m)
    then obtain k where k: "br_mail b n = Some k" "carries m k" using rel unfolding net_rel_def by (metis option_rel_Some1)
    have "br_step b a = k" "0 \<le> k" using e k(1) barrier_okD(2)[OF bar, of a] by (auto simp: edge_ok_def split: if_splits)
    moreover have "br_step b 0 \<le> INT_MAX" using rel ok by (auto simp: net_rel_def node_step_def net_ok_def root_ok_def)
    ultimately have range: "0 \<le> k" "k \<le> INT_MAX" "lf_step_count ?l = k \<or> lf_step_count ?l + 1 = k \<or> k = 0"
      using barrier_bounded[OF config_okD(1)[OF C] bar kid(1)] bn e by (auto simp: edge_ok_def)
    obtain p where p: "leaf_policy C n (bn_mail s n) = Inr p" "carries p k"
      unfolding leaf_policy_def nc_validate_def Some option.case using validate_carries[OF k(2) range(1,2) config_okD(2-4)[OF C]] by blast
    show ?thesis using leaf_receives[OF l p(2) range(1,2) low range(3)] p(1) k(1) by blast
  qed
qed

lemma sim_leaf_down:
  assumes C: "config_ok C" and ok: "net_ok C s" and rel: "net_rel C s b" and bar: "barrier_ok (nc_tree C) b"
    and kid: "n \<in> set (nc_kids C a)" "nc_leaf C n" and step: "walk_down_leaf C now n (bn_mail s n) (bn_leaf s n) = (Inr w, l)"
  shows "simulates C (s\<lparr>bn_leaf := (bn_leaf s)(n := l)\<rparr>) b"
proof -
  have n: "n \<noteq> 0" using config_okD(6)[OF C] kid(1) by simp
  obtain p k t where p: "leaf_policy C n (bn_mail s n) = Inr p" "receive_policy p (bn_leaf s n) = (Inr (), t)"
    and k: "br_mail b n = Some k \<or> k = 0 \<and> br_mail b n = None" and t: "lf_step_count t = k" "\<not> lf_is_single_node t" "k = 0 \<longrightarrow> are_steps_complete t"
      "k \<noteq> 0 \<and> lf_step_count (bn_leaf s n) = k \<longrightarrow> are_steps_complete t = are_steps_complete (bn_leaf s n)"
    using leaf_in_sync[OF C ok rel bar kid] by blast
  have "enforce_limits now t = (Inr w, l)" using step p by (simp add: walk_down_leaf_def leaf_adjust_platform_def bind_def act_simps)
  note same = enforce_limits_leaf[OF this]
  let ?s = "s\<lparr>bn_leaf := (bn_leaf s)(n := l)\<rparr>"
  have bn: "br_step b n = lf_step_count (bn_leaf s n)" "br_done b n = are_steps_complete (bn_leaf s n)"
    using rel kid(2) n by (simp_all add: net_rel_def node_step_def node_done_def)
  have ok': "net_ok C ?s" using ok same t kid(2) by (auto simp: net_ok_def)
  have rel': "net_rel C ?s (b\<lparr>br_step := (br_step b)(n := k), br_done := (br_done b)(n := are_steps_complete l)\<rparr>)"
    using rel same t n kid(2) by (auto simp: net_rel_def node_step_def node_done_def fun_eq_iff)
  consider "k = 0" | "k \<noteq> 0" "br_step b n = k" | "k \<noteq> 0" "br_step b n \<noteq> k" by blast
  then show ?thesis
  proof cases
    case 1
    have "barrier_step (nc_tree C) b (b\<lparr>br_step := (br_step b)(n := 0), br_done := (br_done b)(n := True)\<rparr>)"
      using kid 1 k by (intro barrier_step.reset) auto
    then show ?thesis using ok' rel' 1 t(3) same(3) by (auto simp: simulates_def)
  next
    case 2
    then have "b\<lparr>br_step := (br_step b)(n := k), br_done := (br_done b)(n := are_steps_complete l)\<rparr> = b"
      using t(4) same(3) bn by (simp add: fun_upd_idem)
    then show ?thesis using ok' rel' by (auto simp: simulates_def)
  next
    case 3
    then have "barrier_step (nc_tree C) b (b\<lparr>br_step := (br_step b)(n := k), br_done := (br_done b)(n := are_steps_complete l)\<rparr>)"
      using kid k by (intro barrier_step.start) auto
    then show ?thesis using ok' rel' by (auto simp: simulates_def)
  qed
qed

lemma sim_leaf_up:
  assumes C: "config_ok C" and ok: "net_ok C s" and rel: "net_rel C s b" and bar: "barrier_ok (nc_tree C) b"
    and kid: "n \<in> set (nc_kids C a)" "nc_leaf C n" and step: "leaf_sample_platform sq now (bn_leaf s n) = (Inr (result, smp), l)"
  shows "simulates C (s\<lparr>bn_leaf := (bn_leaf s)(n := l), bn_post := (if result then (bn_post s)(n \<mapsto> smp) else bn_post s)\<rparr>) b"
proof -
  let ?s = "s\<lparr>bn_leaf := (bn_leaf s)(n := l), bn_post := (if result then (bn_post s)(n \<mapsto> smp) else bn_post s)\<rparr>"
  have n: "n \<noteq> 0" using config_okD(6)[OF C] kid(1) by simp
  note res = sample_platform_result[OF step]
  then have same: "lf_step_count l = lf_step_count (bn_leaf s n)" "lf_is_single_node l = lf_is_single_node (bn_leaf s n)"
    "are_steps_complete (bn_leaf s n) \<Longrightarrow> are_steps_complete l" using flags_grow_complete by (auto simp: leaf_flow_def)
  have bn: "br_step b n = lf_step_count (bn_leaf s n)" "br_done b n = are_steps_complete (bn_leaf s n)"
    using rel kid(2) n by (simp_all add: net_rel_def node_step_def node_done_def)
  have "br_step b 0 \<le> INT_MAX" using rel ok by (auto simp: net_rel_def node_step_def net_ok_def root_ok_def)
  then have range: "- 1 \<le> br_step b n" "br_step b n \<le> INT_MAX"
    using barrier_bounded[OF config_okD(1)[OF C] bar kid(1)] barrier_okD(2)[OF bar, of n] by auto
  let ?p = "if result then Some (br_step b n) else br_post b n"
  let ?b = "b\<lparr>br_done := (br_done b)(n := are_steps_complete l), br_post := (br_post b)(n := ?p)\<rparr>"
  have "barrier_step (nc_tree C) b ?b" using kid(2) same bn res by (intro barrier_step.finish) auto
  moreover have "net_ok C ?s" using ok same kid(2) by (auto simp: net_ok_def)
  moreover have "net_rel C ?s ?b"
    using rel same res range bn(1) n kid(2) by (auto simp: net_rel_def node_step_def node_done_def fun_eq_iff reports_def)
  ultimately show ?thesis by (auto simp: simulates_def)
qed

lemma sim_platform:
  assumes "net_ok C s" "net_rel C s b" "nc_leaf C n"
  shows "simulates C (s\<lparr>bn_leaf := (bn_leaf s)(n := (bn_leaf s n)\<lparr>lf_sample_agg := agg\<rparr>)\<rparr>) b"
  using assms by (auto simp: simulates_def net_ok_def net_rel_def node_step_def node_done_def fun_eq_iff are_steps_complete_def)

lemma clear_posts_rel:
  assumes "net_rel C s b"
  shows "rel_option reports (clear_posts kids (bn_post s) c) (if c \<in> set kids then None else br_post b c)"
  using assms by (simp add: net_rel_def clear_posts_def)

lemma sim_refused:
  assumes "net_ok C s" "net_rel C s b"
  shows "simulates C (s\<lparr>bn_post := clear_posts (nc_kids C n) (bn_post s)\<rparr>) b"
proof -
  let ?b = "b\<lparr>br_post := (\<lambda>c. if c \<in> set (at_kids (nc_tree C) n) then None else br_post b c)\<rparr>"
  have "barrier_step (nc_tree C) b ?b" by (rule barrier_step.discard)
  moreover have "net_rel C (s\<lparr>bn_post := clear_posts (nc_kids C n) (bn_post s)\<rparr>) ?b"
    using assms(2) clear_posts_rel[OF assms(2)] by (simp add: net_rel_def node_step_def node_done_def fun_eq_iff)
  moreover have "net_ok C (s\<lparr>bn_post := clear_posts (nc_kids C n) (bn_post s)\<rparr>)" using assms(1) by (simp add: net_ok_def)
  ultimately show ?thesis by (auto simp: simulates_def)
qed

text \<open>The samples that a node collects: when their least step number is its own, every child has reached it.\<close>

lemma collected:
  assumes rel: "net_rel C s b" and xs: "posted kids (bn_post s) = Some xs"
  shows "list_all (\<lambda>x. \<exists>k. smp_step x = d_of_int k \<and> - 1 \<le> k \<and> k \<le> INT_MAX) xs"
    "deq (smp_step (aggregate_sample xs)) (d_of_int (tr_step_count r)) \<Longrightarrow> - 1 \<le> tr_step_count r \<Longrightarrow> tr_step_count r \<le> INT_MAX \<Longrightarrow>
      \<forall>c \<in> set kids. \<exists>k. br_post b c = Some k \<and> tr_step_count r \<le> k"
proof -
  have all: "list_all (\<lambda>c. bn_post s c \<noteq> None) kids" and eq: "xs = map (\<lambda>c. the (bn_post s c)) kids"
    using xs by (auto simp: posted_def split: if_splits)
  have each: "\<exists>k. br_post b c = Some k \<and> reports (the (bn_post s c)) k" if "c \<in> set kids" for c
  proof -
    obtain x where "bn_post s c = Some x" using all \<open>c \<in> set kids\<close> by (auto simp: list_all_iff)
    then show ?thesis using rel unfolding net_rel_def by (metis option.sel option_rel_Some1)
  qed
  show steps: "list_all (\<lambda>x. \<exists>k. smp_step x = d_of_int k \<and> - 1 \<le> k \<and> k \<le> INT_MAX) xs"
    using each by (fastforce simp: eq list_all_iff reports_def)
  assume d: "deq (smp_step (aggregate_sample xs)) (d_of_int (tr_step_count r))" and range: "- 1 \<le> tr_step_count r" "tr_step_count r \<le> INT_MAX"
  show "\<forall>c \<in> set kids. \<exists>k. br_post b c = Some k \<and> tr_step_count r \<le> k"
  proof
    fix c
    assume c: "c \<in> set kids"
    obtain k where k: "br_post b c = Some k" "reports (the (bn_post s c)) k" using each[OF c] by blast
    have "the (bn_post s c) \<in> set xs" using c eq by simp
    then have "tr_step_count r \<le> k" using tree_ascend_steps(2)[OF steps range d] k(2) by (auto simp: reports_def)
    then show "\<exists>k. br_post b c = Some k \<and> tr_step_count r \<le> k" using k(1) by blast
  qed
qed

lemma sim_tree_up:
  assumes C: "config_ok C" and ok: "net_ok C s" and rel: "net_rel C s b" and bar: "barrier_ok (nc_tree C) b"
    and kid: "n \<in> set (nc_kids C a)" "\<not> nc_leaf C n" and xs: "posted (nc_kids C n) (bn_post s) = Some xs"
  shows "\<exists>result smp t. tree_ascend xs (bn_tree s n) = (Inr (result, smp), t) \<and>
    (let post = clear_posts (nc_kids C n) (bn_post s) in
      simulates C (s\<lparr>bn_tree := (bn_tree s)(n := t), bn_post := (if result then post(n \<mapsto> smp) else post)\<rparr>) b)"
proof -
  let ?t = "bn_tree s n" and ?post = "clear_posts (nc_kids C n) (bn_post s)"
  have n: "n \<noteq> 0" using config_okD(6)[OF C] kid(1) by simp
  have bn: "br_step b n = tr_step_count ?t" "br_done b n = tr_is_step_complete ?t"
    using rel kid(2) n by (simp_all add: net_rel_def node_step_def node_done_def)
  have "br_step b 0 \<le> INT_MAX" using rel ok by (auto simp: net_rel_def node_step_def net_ok_def root_ok_def)
  then have range: "- 1 \<le> tr_step_count ?t" "tr_step_count ?t \<le> INT_MAX"
    using barrier_bounded[OF config_okD(1)[OF C] bar kid(1)] barrier_okD(2)[OF bar, of n] bn(1) by auto
  note run = tree_ascend_steps(1)[OF collected(1)[OF rel xs] range]
  show ?thesis
  proof (cases "\<not> tr_is_step_complete ?t \<and> deq (smp_step (aggregate_sample xs)) (d_of_int (tr_step_count ?t))")
    case False
    then have "tree_ascend xs ?t = (Inr (False, aggregate_sample xs), ?t)" using run by argo
    then show ?thesis using sim_refused[OF ok rel, of n]
      by (intro exI[of _ False] exI[of _ "aggregate_sample xs"] exI[of _ "bn_tree s n"]) (simp add: Let_def)
  next
    case True
    let ?u = "?t\<lparr>tr_is_step_complete := True\<rparr>" and ?x = "aggregate_sample xs"
    let ?s = "s\<lparr>bn_tree := (bn_tree s)(n := ?u), bn_post := ?post(n \<mapsto> ?x)\<rparr>"
    let ?b = "b\<lparr>br_done := (br_done b)(n := True),
      br_post := (\<lambda>c. if c \<in> set (at_kids (nc_tree C) n) then None else br_post b c)(n := Some (br_step b n))\<rparr>"
    have "barrier_step (nc_tree C) b ?b" using kid(2) True bn collected(2)[OF rel xs _ range] by (intro barrier_step.collect) auto
    moreover have "net_ok C ?s" using ok by (auto simp: net_ok_def)
    moreover have "reports ?x (br_step b n)" using True range bn(1) by (auto simp: reports_def deq_def)
    then have "net_rel C ?s ?b"
      using rel n kid(2) clear_posts_rel[OF rel] by (auto simp: net_rel_def node_step_def node_done_def fun_eq_iff)
    ultimately have "simulates C ?s b" unfolding simulates_def by blast
    moreover have "tree_ascend xs ?t = (Inr (True, ?x), ?u)" using run True by simp
    ultimately show ?thesis by (intro exI[of _ True] exI[of _ ?x] exI[of _ ?u]) (simp add: Let_def)
  qed
qed

lemma sim_root_up:
  assumes C: "config_ok C" and ok: "net_ok C s" and rel: "net_rel C s b"
    and xs: "posted (nc_kids C 0) (bn_post s) = Some xs" and step: "root_ascend xs (bn_root s) = (Inr (result, smp), r)"
  shows "let post = clear_posts (nc_kids C 0) (bn_post s) in
      simulates C (s\<lparr>bn_root := r, bn_post := (if result then post(0 \<mapsto> smp) else post)\<rparr>) b"
proof -
  let ?r = "bn_root s" and ?post = "clear_posts (nc_kids C 0) (bn_post s)" and ?x = "aggregate_sample xs"
  obtain p where p: "nc_validate C 0 (nc_policy C) = Inr p" "root_ok p ?r" using ok by (rule net_okD)
  have b0: "br_step b 0 = tr_step_count ?r" "br_done b 0 = tr_is_step_complete ?r"
    using rel by (simp_all add: net_rel_def node_step_def node_done_def)
  have range: "- 1 \<le> tr_step_count ?r" "tr_step_count ?r \<le> INT_MAX" using p(2) by (simp_all add: root_ok_def)
  note steps = collected(1)[OF rel xs] and run = tree_ascend_steps(1)[OF collected(1)[OF rel xs] range]
  show ?thesis
  proof (cases "\<not> tr_is_step_complete ?r \<and> deq (smp_step ?x) (d_of_int (tr_step_count ?r))")
    case False
    then have "tree_ascend xs ?r = (Inr (False, ?x), ?r)" using run by argo
    then have "root_ascend xs ?r = (Inr (False, ?x), ?r)" by (simp add: root_ascend_def bind_def act_simps)
    then show ?thesis using step sim_refused[OF ok rel, of 0] by (auto simp: Let_def)
  next
    case True
    have small: "tr_step_count ?r < INT_MAX"
    proof (rule ccontr)
      assume "\<not> tr_step_count ?r < INT_MAX"
      then have "int_result (tr_step_count ?r + 1) = Inl Undefined_behavior" by (simp add: int_result_def)
      then show False using step run True by (auto simp: root_ascend_def bind_def act_simps split: if_splits)
    qed
    obtain q where q: "root_ascend xs ?r = (Inr (True, ?x), ?r\<lparr>tr_is_step_complete := True, tr_policy := q\<rparr>)" "carries q (tr_step_count ?r + 1)"
      using root_ascend_ok[OF p(2) small steps] True by auto
    then have res: "result" "smp = ?x" "r = ?r\<lparr>tr_is_step_complete := True, tr_policy := q\<rparr>" using step by auto
    let ?s = "s\<lparr>bn_root := r, bn_post := ?post(0 \<mapsto> ?x)\<rparr>"
    let ?b = "b\<lparr>br_done := (br_done b)(0 := True),
      br_post := (\<lambda>c. if c \<in> set (at_kids (nc_tree C) 0) then None else br_post b c)(0 := Some (br_step b 0))\<rparr>"
    have "barrier_step (nc_tree C) b ?b"
      using config_okD(5)[OF C] True b0 collected(2)[OF rel xs _ range] by (intro barrier_step.collect) auto
    moreover have "net_ok C ?s" using ok p q(2) res(3) by (auto simp: net_ok_def root_ok_def)
    moreover have "reports ?x (br_step b 0)" using True range b0(1) by (auto simp: reports_def deq_def)
    then have "net_rel C ?s ?b"
      using rel res(3) clear_posts_rel[OF rel] by (auto simp: net_rel_def node_step_def node_done_def fun_eq_iff)
    ultimately have "simulates C ?s b" unfolding simulates_def by blast
    then show ?thesis using res by (simp add: Let_def)
  qed
qed

lemma net_step_simulates:
  assumes C: "config_ok C" and ok: "net_ok C s" and rel: "net_rel C s b" and bar: "barrier_ok (nc_tree C) b" and step: "net_step C s t"
  shows "simulates C t b"
  using step
proof cases
  case (root_down out r)
  then show ?thesis using sim_root_down[OF C ok rel] by simp
next
  case (tree_down n a m out u)
  then show ?thesis using sim_tree_down[OF C ok rel bar tree_down(2-4)] by auto
next
  case (leaf_down n a now w l)
  then show ?thesis using sim_leaf_down[OF C ok rel bar] by simp
next
  case (platform n agg)
  then show ?thesis using sim_platform[OF ok rel] by simp
next
  case (leaf_up n a sq now result smp l)
  then show ?thesis using sim_leaf_up[OF C ok rel bar] by simp
next
  case (tree_up n a xs result smp u post)
  then show ?thesis using sim_tree_up[OF C ok rel bar tree_up(2-4)] by (auto simp: Let_def)
next
  case (root_up xs result smp r post)
  show ?thesis by (rule sim_root_up[OF C ok rel root_up(2,4), unfolded Let_def, folded root_up(5), folded root_up(1)])
next
  case (refused n xs)
  then show ?thesis using sim_refused[OF ok rel] by simp
qed

lemma net_invariant:
  assumes C: "config_ok C" and reach: "net_reach C s"
  shows "\<exists>b. net_ok C s \<and> net_rel C s b \<and> barrier_ok (nc_tree C) b \<and> (barrier_step (nc_tree C))\<^sup>*\<^sup>* (start_barrier (nc_tree C)) b"
  using reach
proof induction
  case (start s)
  then show ?case using net_start_rel[OF C] by blast
next
  case (step s t)
  then obtain b where b: "net_ok C s" "net_rel C s b" "barrier_ok (nc_tree C) b" "(barrier_step (nc_tree C))\<^sup>*\<^sup>* (start_barrier (nc_tree C)) b"
    by blast
  obtain c where c: "net_ok C t" "net_rel C t c" "c = b \<or> barrier_step (nc_tree C) b c"
    using net_step_simulates[OF C b(1-3) step(2)] unfolding simulates_def by blast
  then show ?case using b(3,4) barrier_step_ok[OF _ config_okD(1)[OF C] b(3)] by (metis rtranclp.rtrancl_into_rtrancl)
qed

section \<open>What the protocol guarantees\<close>

text \<open>
  C13: the step numbers of the agents never get out of sync, whatever the order of the
  steps of the nodes: as long as the step number of the root has not reached INT_MAX, the root can always descend and take the samples
  of its children, an inner node can always take the policy in its mailbox and the samples of its children, and a leaf can
  always take its policy. So none of the out of sync exceptions of PowerBalancerAgent.cpp is ever thrown, for a policy
  that does not change.
\<close>

theorem steps_in_sync:
  assumes C: "config_ok C" and reach: "net_reach C s" and small: "tr_step_count (bn_root s) < INT_MAX"
  shows "(\<exists>out r. walk_down_root C (bn_root s) = (Inr out, r)) \<and>
    (\<forall>xs. posted (nc_kids C 0) (bn_post s) = Some xs \<longrightarrow> (\<exists>out r. root_ascend xs (bn_root s) = (Inr out, r))) \<and>
    (\<forall>a. \<forall>n \<in> set (nc_kids C a).
       if nc_leaf C n then \<exists>p t. leaf_policy C n (bn_mail s n) = Inr p \<and> receive_policy p (bn_leaf s n) = (Inr (), t)
       else (\<forall>m. bn_mail s n = Some m \<longrightarrow> (\<exists>out t. walk_down_tree C n m (bn_tree s n) = (Inr out, t))) \<and>
            (\<forall>xs. posted (nc_kids C n) (bn_post s) = Some xs \<longrightarrow> (\<exists>out t. tree_ascend xs (bn_tree s n) = (Inr out, t))))"
proof -
  obtain b where b: "net_ok C s" "net_rel C s b" "barrier_ok (nc_tree C) b" using net_invariant[OF C reach] by blast
  obtain p where p: "nc_validate C 0 (nc_policy C) = Inr p" "root_ok p (bn_root s)" using b(1) by (rule net_okD)
  have "\<exists>out r. walk_down_root C (bn_root s) = (Inr out, r)"
    using root_descend_ok[OF p(2) small] p(1) by (simp add: walk_down_root_def act_simps)
  moreover have "\<exists>out r. root_ascend xs (bn_root s) = (Inr out, r)" if "posted (nc_kids C 0) (bn_post s) = Some xs" for xs
    using root_ascend_ok[OF p(2) small collected(1)[OF b(2) that]] by metis
  moreover have "\<exists>p t. leaf_policy C n (bn_mail s n) = Inr p \<and> receive_policy p (bn_leaf s n) = (Inr (), t)" if "n \<in> set (nc_kids C a)" "nc_leaf C n" for a n
    using leaf_in_sync[OF C b that] by blast
  moreover have "\<exists>out t. walk_down_tree C n m (bn_tree s n) = (Inr out, t)" if "n \<in> set (nc_kids C a)" "\<not> nc_leaf C n" "bn_mail s n = Some m" for a n m
    using sim_tree_down[OF C b that] by blast
  moreover have "\<exists>out t. tree_ascend xs (bn_tree s n) = (Inr out, t)"
    if "n \<in> set (nc_kids C a)" "\<not> nc_leaf C n" "posted (nc_kids C n) (bn_post s) = Some xs" for a n xs
    using sim_tree_up[OF C b that] by blast
  ultimately show ?thesis by auto
qed

text \<open>
  C14: the steps are barriers: when the root has completed a step, every node of the tree has the same step number and has
  completed that step. So the slack that is shared and the run time that becomes the target come from all of the nodes.
\<close>

theorem step_barrier:
  assumes "config_ok C" "net_reach C s" "tr_is_step_complete (bn_root s)" "in_tree (nc_tree C) n"
  shows "node_step C s n = tr_step_count (bn_root s) \<and> node_done C s n"
proof -
  obtain b where b: "net_ok C s" "net_rel C s b" "barrier_ok (nc_tree C) b" using net_invariant[OF assms(1,2)] by blast
  have "br_done b 0" "br_step b 0 = tr_step_count (bn_root s)" using b(2) assms(3) by (simp_all add: net_rel_def node_done_def node_step_def)
  then show ?thesis using barrier_complete[OF b(3) _ assms(4)] b(2) by (simp add: net_rel_def)
qed

text \<open>
  C15: the network of agents implements the barrier: every reachable state stands for a reachable state of the barrier, and
  each step of the network, a call at one node in any order with the others, is one step of the barrier or none.
\<close>

theorem network_refines_barrier:
  assumes C: "config_ok C" and reach: "net_reach C s" and step: "net_step C s t"
  shows "\<exists>b c. (barrier_step (nc_tree C))\<^sup>*\<^sup>* (start_barrier (nc_tree C)) b \<and> net_rel C s b \<and>
    (c = b \<or> barrier_step (nc_tree C) b c) \<and> net_rel C t c"
proof -
  obtain b where b: "net_ok C s" "net_rel C s b" "barrier_ok (nc_tree C) b" "(barrier_step (nc_tree C))\<^sup>*\<^sup>* (start_barrier (nc_tree C)) b"
    using net_invariant[OF C reach] by blast
  then show ?thesis using net_step_simulates[OF C b(1-3) step] unfolding simulates_def by blast
qed

section \<open>An example\<close>

text \<open>A root with two leaves, one package each; the limit is in force already.\<close>

definition demo_config :: net_config where
  "demo_config = \<lparr>nc_tree = \<lparr>at_kids = (\<lambda>a. if a = 0 then [1, 2] else []), at_leaf = (\<lambda>a. a = 1 \<or> a = 2)\<rparr>,
     nc_policy = \<lparr>pol_cap = Fin 100, pol_step = Fin 0, pol_runtime = NaN, pol_slack = NaN\<rparr>,
     nc_tdp = (\<lambda>n. Fin 200), nc_min_power = (\<lambda>n. Fin 50), nc_max_power = (\<lambda>n. Fin 200)\<rparr>"

definition demo_root :: root_role where
  "demo_root = \<lparr>tr_policy = nan_policy, tr_step_count = 0, tr_num_node = 2, tr_num_children = 2, tr_is_step_complete = False,
     rr_root_cap = NaN, rr_min_pkg_power_setting = Fin 50, rr_max_pkg_power_setting = Fin 200\<rparr>"

definition demo_first :: bal_policy where
  "demo_first = \<lparr>pol_cap = Fin 100, pol_step = Fin 0, pol_runtime = Fin 0, pol_slack = Fin 0\<rparr>"

definition demo_leaf :: "(int \<Rightarrow> double) leaf_role" where
  "demo_leaf = \<lparr>lf_policy = nan_policy, lf_step_count = - 1, lf_num_node = 2,
     lf_sample_agg = \<lparr>sg_platform_io = table_pio, sg_time_idx = 0, sg_is_updated = False, sg_sum_signal = [], sg_avg_signal = [],
       sg_period_duration = Fin 0, sg_period_last = 0\<rparr>,
     lf_num_domain = 1, lf_count_pio_idx = [1], lf_time_agg_idx = [2], lf_network_agg_idx = [3], lf_ignore_agg_idx = [4],
     lf_power_balancer = [make_power_balancer (Fin 0)],
     lf_package = [\<lparr>pk_last_epoch_count = 0, pk_runtime = Fin 0, pk_actual_limit = Fin 100, pk_power_slack = Fin 0, pk_power_headroom = Fin 0,
       pk_is_out_of_bounds = False, pk_is_step_complete = True, pk_pio_power_idx = 5\<rparr>],
     lf_min_pkg_power_setting = Fin 50, lf_max_pkg_power_setting = Fin 200, lf_is_single_node = False, lf_is_first_policy = True\<rparr>"

definition demo_net :: "(int \<Rightarrow> double) balancer_net" where
  "demo_net = \<lparr>bn_root = demo_root\<lparr>tr_policy := demo_first, rr_root_cap := Fin 100\<rparr>,
     bn_tree = (\<lambda>n. \<lparr>tr_policy = nan_policy, tr_step_count = - 1, tr_num_node = 1, tr_num_children = 0, tr_is_step_complete = True\<rparr>),
     bn_leaf = (\<lambda>n. demo_leaf), bn_mail = [1 \<mapsto> demo_first, 2 \<mapsto> demo_first], bn_post = Map.empty\<rparr>"

lemma demo_config_ok: "config_ok demo_config"
  by (auto simp: config_ok_def demo_config_def tree_ok_def deq_def split: if_splits)

lemma demo_descend: "walk_down_root demo_config demo_root = (Inr (Some [demo_first, demo_first]), bn_root demo_net)"
  by (simp add: walk_down_root_def nc_validate_def demo_config_def validate_policy_def default_policy_def clamp_cap_def Let_def deq_def dlt_def
      root_descend_def act_simps bind_def demo_root_def demo_net_def demo_first_def numeral_2_eq_2)

lemma demo_start: "net_start demo_config demo_net"
proof -
  have "bn_mail demo_net = deliver (nc_kids demo_config 0) (Some [demo_first, demo_first]) Map.empty"
    by (simp add: deliver_def demo_net_def demo_config_def)
  moreover have "fresh_root (length (nc_kids demo_config 0)) demo_root" by (simp add: fresh_root_def demo_root_def demo_config_def)
  ultimately show ?thesis using demo_descend
    by (auto simp: net_start_def fresh_tree_def fresh_leaf_def are_steps_complete_def demo_leaf_def) (auto simp: demo_net_def demo_config_def demo_leaf_def)
qed

lemma demo_leaf_runs:
  assumes "n \<noteq> 0"
  shows "\<exists>l x m. walk_down_leaf demo_config now n (Some demo_first) demo_leaf = (Inr False, l) \<and>
    leaf_sample_platform id now l = (Inr (True, x), m) \<and> smp_step x = Fin 0 \<and> \<not> smp_has_nan x"
proof -
  have policy: "leaf_policy demo_config n (Some demo_first) = Inr demo_first"
    by (simp add: leaf_policy_def nc_validate_def demo_config_def validate_policy_def default_policy_def clamp_cap_def Let_def deq_def dlt_def demo_first_def)
  have hundred: "ddiv (Fin 100) (d_of_int 1) = Fin 100"
    using round64_of_int[of 100] by (simp add: d_of_int_exact)
  let ?l = "reset_leaf (demo_leaf\<lparr>lf_policy := demo_first\<rparr>)"
  have down: "receive_policy demo_first demo_leaf = (Inr (), ?l)"
    by (simp add: receive_policy_def take_policy_def act_simps demo_leaf_def demo_first_def deq_def)
  have enforce: "enforce_limits now ?l = (Inr False, ?l)"
    by (simp add: enforce_limits_def enforce_limit_def act_simps bind_def reset_leaf_def set_steps_complete_def demo_leaf_def demo_first_def
        set_power_cap_def hundred deq_def dlt_def Let_def)
  let ?x = "leaf_sample ?l" and ?m = "?l\<lparr>lf_sample_agg := (lf_sample_agg ?l)\<lparr>sg_is_updated := True\<rparr>\<rparr>"
  have zero: "step_imp 0 = Send_down_limit" by (simp add: step_imp_def role_step_def)
  have up: "leaf_sample_platform id now ?l = (Inr (True, ?x), ?m)"
    by (simp add: leaf_sample_platform_def step_sample_platform_def zero act_simps bind_def reset_leaf_def set_steps_complete_def demo_leaf_def
        on_agg_def agg_update_def update_total_def update_average_def get_period_def deq_def leaf_sample_def are_steps_complete_def Let_def)
  have "smp_step ?x = Fin 0 \<and> \<not> smp_has_nan ?x"
    by (simp add: leaf_sample_def reset_leaf_def set_steps_complete_def demo_leaf_def smp_has_nan_def std_max_def dlt_def d_of_int_def Let_def)
  then show ?thesis using policy down enforce up by (auto simp: walk_down_leaf_def leaf_adjust_platform_def act_simps bind_def)
qed

lemma demo_leaf_round:
  fixes now :: "int \<Rightarrow> geopm_time_s" and s :: "(int \<Rightarrow> double) balancer_net"
  assumes "n = 1 \<or> n = 2" "net_reach demo_config s" "bn_leaf s n = demo_leaf" "bn_mail s n = Some demo_first"
  shows "\<exists>t x. net_reach demo_config t \<and> bn_root t = bn_root s \<and> bn_mail t = bn_mail s \<and> bn_post t = (bn_post s)(n \<mapsto> x) \<and>
    (\<forall>k. k \<noteq> n \<longrightarrow> bn_leaf t k = bn_leaf s k) \<and> smp_step x = Fin 0 \<and> \<not> smp_has_nan x"
proof -
  obtain l x m where l: "walk_down_leaf demo_config now n (Some demo_first) demo_leaf = (Inr False, l)"
    "leaf_sample_platform id now l = (Inr (True, x), m)" "smp_step x = Fin 0" "\<not> smp_has_nan x"
    using demo_leaf_runs[of n now] assms(1) by fastforce
  have kid: "n \<in> set (nc_kids demo_config 0)" "nc_leaf demo_config n" using assms(1) by (auto simp: demo_config_def)
  let ?s = "s\<lparr>bn_leaf := (bn_leaf s)(n := l)\<rparr>"
  let ?t = "?s\<lparr>bn_leaf := (bn_leaf ?s)(n := m), bn_post := (if True then (bn_post ?s)(n \<mapsto> x) else bn_post ?s)\<rparr>"
  have "net_step demo_config s ?s" using kid assms(3,4) l(1) by (intro net_step.leaf_down) simp_all
  then have s: "net_reach demo_config ?s" by (rule net_reach.step[OF assms(2)])
  have "net_step demo_config ?s ?t" by (rule net_step.leaf_up[OF kid]) (use l(2) in simp)
  then have "net_reach demo_config ?t" by (rule net_reach.step[OF s])
  then show ?thesis using l(3,4) by (intro exI[of _ ?t] exI[of _ x]) simp
qed

text \<open>The state in which the two leaves have posted, and the one in which the root has completed step 0.\<close>

lemma demo_reached:
  "\<exists>s t :: (int \<Rightarrow> double) balancer_net. net_reach demo_config s \<and> net_step demo_config s t \<and> \<not> tr_is_step_complete (bn_root s) \<and> tr_is_step_complete (bn_root t) \<and>
     tr_step_count (bn_root s) = 0 \<and> tr_step_count (bn_root t) = 0"
proof -
  have 0: "net_reach demo_config demo_net" using demo_start by (rule net_reach.start)
  obtain s :: "(int \<Rightarrow> double) balancer_net" and x where s: "net_reach demo_config s" "bn_root s = bn_root demo_net" "bn_mail s = bn_mail demo_net" "bn_post s = (bn_post demo_net)(1 \<mapsto> x)"
    "\<forall>k. k \<noteq> 1 \<longrightarrow> bn_leaf s k = bn_leaf demo_net k" "smp_step x = Fin 0" "\<not> smp_has_nan x"
    using demo_leaf_round[OF _ 0, of 1] by (auto simp: demo_net_def)
  have "bn_leaf s 2 = demo_leaf" "bn_mail s 2 = Some demo_first" using s(3,5) by (simp_all add: demo_net_def)
  then obtain u :: "(int \<Rightarrow> double) balancer_net" and y where u: "net_reach demo_config u" "bn_root u = bn_root s" "bn_post u = (bn_post s)(2 \<mapsto> y)" "smp_step y = Fin 0" "\<not> smp_has_nan y"
    using demo_leaf_round[OF _ s(1), of 2] by blast
  have xs: "posted (nc_kids demo_config 0) (bn_post u) = Some [x, y]" using u(3) s(4) by (simp add: posted_def demo_config_def)
  let ?r = "bn_root demo_net" and ?post = "clear_posts (nc_kids demo_config 0) (bn_post u)"
  have agg: "smp_step (aggregate_sample [x, y]) = Fin 0" using s(6) u(4) by (simp add: aggregate_sample_def agg_min_def nan_filter_def dlt_def)
  have "\<exists>q. root_ascend [x, y] ?r = (Inr (True, aggregate_sample [x, y]), ?r\<lparr>tr_is_step_complete := True, tr_policy := q\<rparr>)"
    using agg by (simp add: root_ascend_def tree_ascend_def act_simps bind_def Let_def demo_net_def demo_root_def demo_first_def d_of_int_def deq_def
        int_result_def INT_MIN_def INT_MAX_def)
  then obtain q where q: "root_ascend [x, y] (bn_root u) = (Inr (True, aggregate_sample [x, y]), ?r\<lparr>tr_is_step_complete := True, tr_policy := q\<rparr>)"
    using u(2) s(2) by auto
  have "net_step demo_config u (u\<lparr>bn_root := ?r\<lparr>tr_is_step_complete := True, tr_policy := q\<rparr>, bn_post := (if True then ?post(0 \<mapsto> aggregate_sample [x, y]) else ?post)\<rparr>)"
    by (rule net_step.root_up[OF xs _ q refl]) (use s(7) u(5) in simp)
  then show ?thesis using u(1,2) s(2) by (intro exI conjI) (assumption, assumption, simp_all add: demo_net_def demo_root_def)
qed

theorem steps_in_sync_witness:
  "\<exists>s :: (int \<Rightarrow> double) balancer_net. net_reach demo_config s \<and> (\<exists>out r. walk_down_root demo_config (bn_root s) = (Inr out, r)) \<and>
     (\<exists>p t. leaf_policy demo_config 1 (bn_mail s 1) = Inr p \<and> receive_policy p (bn_leaf s 1) = (Inr (), t))"
proof -
  obtain s :: "(int \<Rightarrow> double) balancer_net" where s: "net_reach demo_config s" "tr_step_count (bn_root s) = 0" using demo_reached by blast
  have "tr_step_count (bn_root s) < INT_MAX" using s(2) by (simp add: INT_MAX_def)
  from steps_in_sync[OF demo_config_ok s(1) this] have "\<exists>out r. walk_down_root demo_config (bn_root s) = (Inr out, r)"
    "\<forall>n \<in> set (nc_kids demo_config 0). if nc_leaf demo_config n then \<exists>p t. leaf_policy demo_config n (bn_mail s n) = Inr p \<and>
       receive_policy p (bn_leaf s n) = (Inr (), t) else True" by meson+
  moreover have "1 \<in> set (nc_kids demo_config 0)" "nc_leaf demo_config 1" by (simp_all add: demo_config_def)
  ultimately show ?thesis using s(1) by fastforce
qed

theorem step_barrier_witness:
  "\<exists>s :: (int \<Rightarrow> double) balancer_net. net_reach demo_config s \<and> tr_is_step_complete (bn_root s) \<and> node_step demo_config s 2 = 0 \<and> node_done demo_config s 2"
proof -
  obtain s t :: "(int \<Rightarrow> double) balancer_net" where s: "net_reach demo_config s" "net_step demo_config s t" "tr_is_step_complete (bn_root t)" "tr_step_count (bn_root t) = 0"
    using demo_reached by blast
  have t: "net_reach demo_config t" using s(1,2) by (rule net_reach.step)
  have "in_tree (nc_tree demo_config) 2" by (rule in_tree.kid[OF in_tree.root]) (simp add: demo_config_def)
  from step_barrier[OF demo_config_ok t s(3) this] t s(3,4) show ?thesis by auto
qed

theorem network_refines_barrier_witness:
  "\<exists>(s :: (int \<Rightarrow> double) balancer_net) t b c. net_step demo_config s t \<and> net_rel demo_config s b \<and> net_rel demo_config t c \<and> \<not> br_done b 0 \<and> barrier_step (nc_tree demo_config) b c"
proof -
  obtain s t :: "(int \<Rightarrow> double) balancer_net" where s: "net_reach demo_config s" "net_step demo_config s t" "\<not> tr_is_step_complete (bn_root s)" "tr_is_step_complete (bn_root t)"
    using demo_reached by blast
  obtain b c where b: "net_rel demo_config s b" "c = b \<or> barrier_step (nc_tree demo_config) b c" "net_rel demo_config t c"
    using network_refines_barrier[OF demo_config_ok s(1,2)] by blast
  moreover from b(1,3) have "\<not> br_done b 0" "br_done c 0" using s(3,4) by (simp_all add: net_rel_def node_done_def)
  ultimately have "barrier_step (nc_tree demo_config) b c" by blast
  then show ?thesis using s(2) b(1,3) \<open>\<not> br_done b 0\<close> by blast
qed

section \<open>A new power cap while the root is complete\<close>

text \<open>
  C19: a change of the power cap that reaches the root between the end of a step and the next descend stops the
  algorithm. \<^verbatim>\<open>RootRole::descend()\<close> starts again at step 0 but leaves \<^verbatim>\<open>m_is_step_complete\<close> set, so the samples of step 0 are not
  taken: with that policy every later descend and ascend leaves the root as it is, and nothing is sent.
\<close>

theorem new_cap_stalls_complete_root:
  assumes "tr_is_step_complete s" "\<not> deq (pol_cap p) (rr_root_cap s)" "\<not> isnan (pol_cap p)" "root_descend p s = (Inr out, t)"
  shows "out \<noteq> None \<and> tr_step_count t = 0 \<and> root_descend p t = (Inr None, t) \<and>
    (\<forall>xs. root_ascend xs t = (Inr (False, aggregate_sample xs), t))"
proof -
  have t: "tr_step_count t = 0" "tr_is_step_complete t" "pol_step (tr_policy t) = Fin 0" "rr_root_cap t = pol_cap p" "out \<noteq> None"
    using assms by (auto simp: root_descend_def bind_def act_simps split: if_splits)
  have "root_descend p t = (Inr None, t)"
    using t assms(3) by (simp add: root_descend_def bind_def act_simps deq_def d_of_int_exact next_step int_result_def INT_MIN_def INT_MAX_def)
  moreover have "root_ascend xs t = (Inr (False, aggregate_sample xs), t)" for xs
    using t(2) by (simp add: root_ascend_def tree_ascend_def bind_def act_simps Let_def)
  ultimately show ?thesis using t by simp
qed

theorem new_cap_stalls_complete_root_witness:
  "\<exists>t. root_descend (demo_first\<lparr>pol_cap := Fin 120\<rparr>) ((bn_root demo_net)\<lparr>tr_is_step_complete := True\<rparr>) = (Inr (Some (replicate 2 (demo_first\<lparr>pol_cap := Fin 120\<rparr>))), t) \<and>
     root_descend (demo_first\<lparr>pol_cap := Fin 120\<rparr>) t = (Inr None, t) \<and> fst (root_ascend [] t) = Inr (False, aggregate_sample [])"
proof -
  let ?p = "demo_first\<lparr>pol_cap := Fin 120\<rparr>" and ?s = "(bn_root demo_net)\<lparr>tr_is_step_complete := True\<rparr>"
  have s: "tr_is_step_complete ?s" "\<not> deq (pol_cap ?p) (rr_root_cap ?s)" "\<not> isnan (pol_cap ?p)"
    by (simp_all add: demo_net_def deq_def)
  obtain t where t: "root_descend ?p ?s = (Inr (Some (replicate 2 ?p)), t)"
    by (simp add: root_descend_def bind_def act_simps demo_net_def demo_root_def demo_first_def deq_def dlt_def)
  from new_cap_stalls_complete_root[OF s t] t show ?thesis by auto
qed

section \<open>The tree of the communicators\<close>

text \<open>
  The agents are numbered by level, the root first, and by rank within a level. The children of the agent of rank \<open>r\<close>
  at level \<open>l + 1\<close> are the agents of level \<open>l\<close> in the group of \<open>r\<close>; the agents of level 0 are the leaves. So the protocol runs on the
  trees that \<^verbatim>\<open>TreeComm.cpp\<close> makes.
\<close>

definition agent_number :: "cart_comm \<Rightarrow> nat \<Rightarrow> nat \<Rightarrow> nat" where
  "agent_number M level rank_cart = (root_level M - level) * num_rank M + rank_cart"

definition agent_kids :: "cart_comm \<Rightarrow> nat \<Rightarrow> nat list" where
  "agent_kids M n =
     (let depth = n div num_rank M; rank_cart = n mod num_rank M; level = root_level M - depth
      in if depth < root_level M \<and> level \<le> num_level_controlled (cc_coordinate M rank_cart)
         then map (agent_number M (level - 1)) (level_group M (level - 1) rank_cart) else [])"

definition comm_tree :: "cart_comm \<Rightarrow> agent_tree" where
  "comm_tree M = \<lparr>at_kids = agent_kids M, at_leaf = (\<lambda>n. n div num_rank M = root_level M)\<rparr>"

lemma agent_kids_iff:
  assumes ok: "cart_ok M" and n: "0 < num_rank M"
  shows "c \<in> set (agent_kids M a) \<longleftrightarrow> a div num_rank M < root_level M \<and>
    root_level M - a div num_rank M \<le> num_level_controlled (cc_coordinate M (a mod num_rank M)) \<and> c div num_rank M = Suc (a div num_rank M) \<and>
    c mod num_rank M \<in> set (level_group M (root_level M - a div num_rank M - 1) (a mod num_rank M))"
proof -
  let ?N = "num_rank M" and ?d = "a div num_rank M" and ?r = "a mod num_rank M"
  let ?l = "root_level M - ?d - 1"
  have kid: "c = agent_number M ?l q \<longleftrightarrow> c div ?N = Suc ?d \<and> c mod ?N = q" if "?d < root_level M" "q < ?N" for q
  proof -
    have "root_level M - ?l = Suc ?d" using that(1) by simp
    then have num: "agent_number M ?l q = Suc ?d * ?N + q" by (simp add: agent_number_def)
    have "(Suc ?d * ?N + q) div ?N = Suc ?d" "(Suc ?d * ?N + q) mod ?N = q" using that(2) by (simp_all del: mult_Suc)
    then show ?thesis unfolding num using div_mult_mod_eq[of c ?N] by (metis mult.commute)
  qed
  have sub: "set (level_group M ?l ?r) \<subseteq> {..<?N}" by (auto simp: level_group_def)
  show ?thesis
  proof (cases "?d < root_level M \<and> root_level M - ?d \<le> num_level_controlled (cc_coordinate M ?r)")
    case True
    then have "set (agent_kids M a) = agent_number M ?l ` set (level_group M ?l ?r)" by (simp add: agent_kids_def Let_def)
    then show ?thesis using True kid sub by auto
  next
    case False
    then show ?thesis by (auto simp: agent_kids_def Let_def)
  qed
qed

lemma agent_has_parent:
  assumes ok: "cart_ok M" and r: "r < num_rank M" and l: "l < root_level M" "l \<le> num_level_controlled (cc_coordinate M r)"
  shows "\<exists>p. agent_number M l r \<in> set (agent_kids M p)"
proof -
  let ?N = "num_rank M" and ?d = "root_level M - Suc l"
  obtain s where s: "s < ?N" "Suc l \<le> num_level_controlled (cc_coordinate M s)" "r \<in> set (level_group M l s)"
    using some_parent[OF ok r l] by blast
  have "(?d * ?N + s) div ?N = ?d" "(?d * ?N + s) mod ?N = s" using s(1) by simp_all
  moreover have "root_level M - ?d = Suc l" "?d < root_level M" using l(1) by auto
  moreover have "agent_number M l r = Suc ?d * ?N + r" using l(1) by (simp add: agent_number_def Suc_diff_Suc del: mult_Suc)
  then have "agent_number M l r div ?N = Suc ?d" "agent_number M l r mod ?N = r" using r by (simp_all del: mult_Suc)
  ultimately have "agent_number M l r \<in> set (agent_kids M (?d * ?N + s))"
    using s r by (simp add: agent_kids_iff[OF ok])
  then show ?thesis by blast
qed

text \<open>
  C21: the groups of the communicators are one tree: with the levels that the ranks of a job form, every agent below the
  root is a child of an agent of the next level and of no other, the root is rank 0, and the agents of level 0 have no children. So
  the protocol of the power balancer, whose properties are stated for any tree, runs on it.
\<close>

theorem communicators_form_tree:
  assumes ok: "cart_ok M" and n: "0 < num_rank M" and depth: "0 < root_level M"
  shows "tree_ok (comm_tree M) \<and> (\<forall>l < root_level M. \<forall>r < num_rank M. l \<le> num_level_controlled (cc_coordinate M r) \<longrightarrow>
    (\<exists>a. agent_number M l r \<in> set (at_kids (comm_tree M) a)))"
proof -
  let ?N = "num_rank M" and ?D = "root_level M"
  note iff = agent_kids_iff[OF ok n]
  have "a < c \<and> a div ?N \<noteq> ?D \<and> (\<forall>b. c \<in> set (agent_kids M b) \<longrightarrow> b = a) \<and> (a = 0 \<or> (\<exists>p. a \<in> set (agent_kids M p)))"
    if "c \<in> set (agent_kids M a)" for a c
  proof (intro conjI allI impI)
    have a: "a div ?N < ?D" "?D - a div ?N \<le> num_level_controlled (cc_coordinate M (a mod ?N))" "c div ?N = Suc (a div ?N)"
      "c mod ?N \<in> set (level_group M (?D - a div ?N - 1) (a mod ?N))"
      using that unfolding iff by auto
    show "a < c" using a(3) by (metis div_le_mono not_less_eq_eq not_le order_refl)
    show "a div ?N \<noteq> ?D" using a(1) by simp
    show "b = a" if "c \<in> set (agent_kids M b)" for b
    proof -
      have b: "?D - b div ?N \<le> num_level_controlled (cc_coordinate M (b mod ?N))" "c div ?N = Suc (b div ?N)"
        "c mod ?N \<in> set (level_group M (?D - b div ?N - 1) (b mod ?N))"
        using that unfolding iff by auto
      have "b div ?N = a div ?N" using a(3) b(2) by simp
      moreover have "b mod ?N = a mod ?N"
      proof (rule one_parent[OF ok])
        show "c mod ?N \<in> set (level_group M (?D - a div ?N - 1) (b mod ?N))" using b(3) \<open>b div ?N = a div ?N\<close> by simp
        show "c mod ?N \<in> set (level_group M (?D - a div ?N - 1) (a mod ?N))" by (rule a(4))
      qed (use a b n \<open>b div ?N = a div ?N\<close> in auto)
      ultimately show "b = a" by (metis div_mult_mod_eq)
    qed
    show "a = 0 \<or> (\<exists>p. a \<in> set (agent_kids M p))"
    proof (cases "a div ?N")
      case 0
      then have "a mod ?N = 0" using origin_rank[OF ok, of "a mod ?N"] a(2) n by simp
      then show ?thesis using 0 by (metis add.right_neutral div_mult_mod_eq mult_0)
    next
      case (Suc d)
      let ?l = "?D - a div ?N"
      have "a = agent_number M ?l (a mod ?N)" using a(1) by (simp add: agent_number_def)
      then show ?thesis using agent_has_parent[OF ok, of "a mod ?N" ?l] a(1,2) n Suc by auto
    qed
  qed
  then have "tree_ok (comm_tree M)" using depth by (simp add: tree_ok_def comm_tree_def)
  then show ?thesis using agent_has_parent[OF ok] by (simp add: comm_tree_def)
qed

theorem communicators_form_tree_witness:
  "tree_ok (comm_tree demo_cart) \<and> at_kids (comm_tree demo_cart) 0 = [6, 9] \<and> at_kids (comm_tree demo_cart) 9 = [15, 16, 17]"
proof -
  have "0 < num_rank demo_cart" "0 < root_level demo_cart" by (simp_all add: num_rank_def root_level_def demo_cart_def)
  then have "tree_ok (comm_tree demo_cart)" using communicators_form_tree[OF demo_cart_ok] by blast
  moreover have "at_kids (comm_tree demo_cart) 0 = [6, 9]" "at_kids (comm_tree demo_cart) 9 = [15, 16, 17]" by code_simp+
  ultimately show ?thesis by simp
qed

end
