(* ===== verification/Batch_Server.thy ===== *)
theory Batch_Server
  imports Platform_IO Helper_Strings
begin

text \<open>
  The batch server (libgeopmd/src: BatchServer.cpp, BatchClient.cpp, BatchStatus.cpp): a process that keeps a \<^verbatim>\<open>PlatformIO\<close> for a
  client. The two exchange single characters over two FIFOs and the values over shared memory. Here are the operations of
  the two objects, and the two processes as a step relation on their common state. The result of a system call
  (a character, an interrupt) is an argument of the operation that makes the call. The opening of the FIFOs, the creation of
  the shared memory and the ownership of the files are left out: the processes start connected.
\<close>

section \<open>The server\<close>

text \<open>\<^verbatim>\<open>BatchStatus::M_MESSAGE_*\<close>, and the errno values of the system calls.\<close>

abbreviation M_MESSAGE_READ :: char where "M_MESSAGE_READ \<equiv> CHR ''r''"
abbreviation M_MESSAGE_WRITE :: char where "M_MESSAGE_WRITE \<equiv> CHR ''w''"
abbreviation M_MESSAGE_CONTINUE :: char where "M_MESSAGE_CONTINUE \<equiv> CHR ''c''"
abbreviation M_MESSAGE_QUIT :: char where "M_MESSAGE_QUIT \<equiv> CHR ''q''"
abbreviation M_MESSAGE_TERMINATE :: char where "M_MESSAGE_TERMINATE \<equiv> CHR ''t''"
abbreviation END_OF_FILE :: char where "END_OF_FILE \<equiv> CHR 0x00"
abbreviation (input) EINTR :: int where "EINTR \<equiv> 4"
abbreviation (input) EPIPE :: int where "EPIPE \<equiv> 32"

type_synonym batch_request = "string \<times> int \<times> int"

record 'w batch_server =
  bs_signal_config :: "batch_request list"
  bs_control_config :: "batch_request list"
  bs_pio :: "'w pio"
  bs_signal_shmem :: "double list"
  bs_control_shmem :: "double list"
  bs_is_linked :: bool
  bs_is_client_attached :: bool
  bs_is_client_waiting :: bool
  bs_signal_handle :: "int list"
  bs_control_handle :: "int list"
  bs_sigterm_count :: int

text \<open>The constructor, \<^verbatim>\<open>register_handler()\<close> and \<^verbatim>\<open>create_shmem()\<close>; new shared memory holds zeros.\<close>

definition make_batch_server :: "batch_request list \<Rightarrow> batch_request list \<Rightarrow> 'w pio \<Rightarrow> 'w batch_server" where
  "make_batch_server signal_config control_config pio =
     \<lparr>bs_signal_config = signal_config, bs_control_config = control_config, bs_pio = pio,
      bs_signal_shmem = replicate (length signal_config) (Fin 0), bs_control_shmem = replicate (length control_config) (Fin 0),
      bs_is_linked = True, bs_is_client_attached = False, bs_is_client_waiting = False,
      bs_signal_handle = [], bs_control_handle = [], bs_sigterm_count = 0\<rparr>"

definition on_bs_pio :: "('w pio, 'a) action \<Rightarrow> ('w batch_server, 'a) action" where
  "on_bs_pio m s = (case m (bs_pio s) of (r, p) \<Rightarrow> (r, s\<lparr>bs_pio := p\<rparr>))"

definition push_requests :: "('w batch_server, unit) action" where
  "push_requests =
     bind (gets bs_signal_config) (\<lambda>signal_config.
     bind (for_each (\<lambda>(name, domain_type, domain_idx).
        bind (on_bs_pio (push_signal name domain_type domain_idx)) (\<lambda>handle.
        modify (\<lambda>s. s\<lparr>bs_signal_handle := bs_signal_handle s @ [handle]\<rparr>))) signal_config) (\<lambda>_.
     bind (gets bs_control_config) (\<lambda>control_config.
     for_each (\<lambda>(name, domain_type, domain_idx).
        bind (on_bs_pio (push_control name domain_type domain_idx)) (\<lambda>handle.
        modify (\<lambda>s. s\<lparr>bs_control_handle := bs_control_handle s @ [handle]\<rparr>))) control_config)))"

definition store_sample :: "(double \<Rightarrow> double) \<Rightarrow> nat \<times> int \<Rightarrow> ('w batch_server, unit) action" where
  "store_sample sq = (\<lambda>(buffer_idx, handle).
     bind (on_bs_pio (sample sq handle)) (\<lambda>value.
     modify (\<lambda>s. s\<lparr>bs_signal_shmem := (bs_signal_shmem s)[buffer_idx := value]\<rparr>)))"

definition read_and_update :: "(double \<Rightarrow> double) \<Rightarrow> ('w batch_server, unit) action" where
  "read_and_update sq =
     bind (gets (\<lambda>s. length (bs_signal_config s) = 0)) (\<lambda>is_none.
     if is_none then ret ()
     else
       bind (on_bs_pio read_batch) (\<lambda>_.
       bind (gets (\<lambda>s. enumerate 0 (bs_signal_handle s))) (\<lambda>handles.
       for_each (store_sample sq) handles)))"

definition adjust_valid :: "int \<Rightarrow> double \<Rightarrow> ('w pio, unit) action" where
  "adjust_valid handle setting = (if \<not> isnan setting then adjust handle setting else ret ())"

definition apply_setting :: "nat \<times> int \<Rightarrow> ('w batch_server, unit) action" where
  "apply_setting = (\<lambda>(buffer_idx, handle).
     bind (gets (\<lambda>s. bs_control_shmem s ! buffer_idx)) (\<lambda>setting.
     on_bs_pio (adjust_valid handle setting)))"

definition update_and_write :: "('w batch_server, unit) action" where
  "update_and_write =
     bind (gets (\<lambda>s. length (bs_control_config s) = 0)) (\<lambda>is_none.
     if is_none then ret ()
     else
       bind (gets (\<lambda>s. enumerate 0 (bs_control_handle s))) (\<lambda>handles.
       bind (for_each apply_setting handles) (\<lambda>_.
       on_bs_pio write_batch)))"

text \<open>\<open>received\<close>: what \<^verbatim>\<open>receive_message()\<close> returns or throws; \<open>sent\<close>: the same of \<^verbatim>\<open>send_message()\<close>.\<close>

definition interrupted_or_rethrow :: "exn \<Rightarrow> ('w batch_server, unit) action" where
  "interrupted_or_rethrow ex =
     (case ex of
        Exception err \<Rightarrow> bind (gets bs_sigterm_count) (\<lambda>count. guard (\<not> (err \<noteq> EINTR \<or> count = 0)) runtime)
      | e \<Rightarrow> throw e)"

definition read_message :: "char result \<Rightarrow> ('w batch_server, char) action" where
  "read_message received =
     bind (case received of Inr c \<Rightarrow> ret c | Inl ex \<Rightarrow> bind (interrupted_or_rethrow ex) (\<lambda>_. ret M_MESSAGE_TERMINATE)) (\<lambda>in_message.
     bind (modify (\<lambda>s. if \<not> bs_is_client_attached s then s\<lparr>bs_is_linked := False, bs_is_client_attached := True\<rparr> else s)) (\<lambda>_.
     ret in_message))"

definition write_message :: "unit result \<Rightarrow> ('w batch_server, unit) action" where
  "write_message sent =
     (case sent of Inr _ \<Rightarrow> modify (\<lambda>s. s\<lparr>bs_is_client_waiting := False\<rparr>) | Inl ex \<Rightarrow> interrupted_or_rethrow ex)"

text \<open>The \<^verbatim>\<open>switch\<close> of \<^verbatim>\<open>event_loop()\<close>, from the message that came in to the one that goes out.\<close>

definition serve_message :: "(double \<Rightarrow> double) \<Rightarrow> char \<Rightarrow> ('w batch_server, char) action" where
  "serve_message sq in_message =
     (let client_waits = modify (\<lambda>s. s\<lparr>bs_is_client_waiting := True\<rparr>)
      in if in_message = M_MESSAGE_READ then bind client_waits (\<lambda>_. bind (read_and_update sq) (\<lambda>_. ret M_MESSAGE_CONTINUE))
         else if in_message = M_MESSAGE_WRITE then bind client_waits (\<lambda>_. bind update_and_write (\<lambda>_. ret M_MESSAGE_CONTINUE))
         else if in_message = M_MESSAGE_QUIT then bind client_waits (\<lambda>_. ret M_MESSAGE_QUIT)
         else if in_message = M_MESSAGE_TERMINATE then ret M_MESSAGE_TERMINATE
         else throw runtime)"

text \<open>The condition of the loop.\<close>

definition keeps_serving :: "char \<Rightarrow> 'w batch_server \<Rightarrow> bool" where
  "keeps_serving out_message s \<longleftrightarrow> out_message = M_MESSAGE_CONTINUE \<and> bs_sigterm_count s = 0"

text \<open>\<^verbatim>\<open>action_sigterm()\<close>, for the signal with the value of the stop request.\<close>

definition action_sigterm :: "int \<Rightarrow> 'w batch_server \<Rightarrow> 'w batch_server" where
  "action_sigterm sival s = (if sival = of_char M_MESSAGE_TERMINATE then s\<lparr>bs_sigterm_count := bs_sigterm_count s + 1\<rparr> else s)"

section \<open>The two processes\<close>

text \<open>
  The server is at the test of its loop, in \<^verbatim>\<open>read(2)\<close>, in the \<^verbatim>\<open>switch\<close>, before the reply, in the handler of an exception,
  or has ended. The client is between calls, waits for the reply to a call, has thrown because the server is unresponsive,
  has stopped the server, or has exited.
\<close>

datatype server_pc = Sv_test char | Sv_read | Sv_serve char | Sv_reply char char | Sv_failed exn | Sv_done

datatype batch_call = Call_read | Call_write "double list" | Call_stop

datatype client_pc = Cl_idle | Cl_wait batch_call | Cl_failed | Cl_stopped | Cl_gone

record 'w batch_system =
  sy_server :: "'w batch_server"
  sy_pc :: server_pc
  sy_num_signal :: nat
  sy_num_control :: nat
  sy_client :: client_pc
  sy_to_server :: string
  sy_to_client :: string
  sy_log :: "(batch_call \<times> double list) list"

definition batch_start :: "'w batch_server \<Rightarrow> 'w batch_system" where
  "batch_start server =
     \<lparr>sy_server = server, sy_pc = Sv_test M_MESSAGE_CONTINUE, sy_num_signal = length (bs_signal_config server),
      sy_num_control = length (bs_control_config server), sy_client = Cl_idle, sy_to_server = [], sy_to_client = [], sy_log = []\<rparr>"

text \<open>
  \<^verbatim>\<open>BatchClientImp\<close>: a call sends its request, waits for the expected reply and returns. \<open>sy_log\<close> records the calls that
  returned, with their results. A request to a server that has ended cannot be sent.
\<close>

fun request_of :: "batch_call \<Rightarrow> char" where
  "request_of Call_read = M_MESSAGE_READ"
| "request_of (Call_write settings) = M_MESSAGE_WRITE"
| "request_of Call_stop = M_MESSAGE_QUIT"

fun expected_reply :: "batch_call \<Rightarrow> char" where
  "expected_reply Call_stop = M_MESSAGE_QUIT"
| "expected_reply call = M_MESSAGE_CONTINUE"

definition call_returns :: "batch_call \<Rightarrow> double list \<Rightarrow> 'w batch_system \<Rightarrow> 'w batch_system" where
  "call_returns call result s =
     s\<lparr>sy_client := (if call = Call_stop then Cl_stopped else Cl_idle), sy_log := sy_log s @ [(call, result)]\<rparr>"

definition client_send :: "batch_call \<Rightarrow> 'w batch_system \<Rightarrow> 'w batch_system" where
  "client_send call s =
     (if sy_pc s = Sv_done then s\<lparr>sy_client := Cl_failed\<rparr>
      else s\<lparr>sy_to_server := sy_to_server s @ [request_of call], sy_client := Cl_wait call\<rparr>)"

definition client_read_batch :: "'w batch_system \<Rightarrow> 'w batch_system" where
  "client_read_batch s = (if sy_num_signal s = 0 then call_returns Call_read [] s else client_send Call_read s)"

text \<open>With a vector of the wrong length \<^verbatim>\<open>write_batch()\<close> throws and has sent nothing.\<close>

definition client_write_batch :: "double list \<Rightarrow> 'w batch_system \<Rightarrow> 'w batch_system" where
  "client_write_batch settings s =
     (if length settings \<noteq> sy_num_control s then s
      else if sy_num_control s = 0 then call_returns (Call_write settings) [] s
      else client_send (Call_write settings) (s\<lparr>sy_server := (sy_server s)\<lparr>bs_control_shmem := settings\<rparr>\<rparr>))"

definition client_stop_batch :: "'w batch_system \<Rightarrow> 'w batch_system" where
  "client_stop_batch s = client_send Call_stop s"

text \<open>\<^verbatim>\<open>receive_message(expect)\<close> and the end of the call.\<close>

definition client_receive :: "batch_call \<Rightarrow> char \<Rightarrow> 'w batch_system \<Rightarrow> 'w batch_system" where
  "client_receive call actual s =
     (if actual \<noteq> expected_reply call then s\<lparr>sy_client := Cl_failed\<rparr>
      else call_returns call (if call = Call_read then take (sy_num_signal s) (bs_signal_shmem (sy_server s)) else []) s)"

text \<open>
  The steps of the server, of the client, and what happens to them. \<^verbatim>\<open>read(2)\<close> waits for a message; it gives the end of the file
  when there is none and the other side has exited. Where an exception leaves \<^verbatim>\<open>event_loop()\<close>, a client that waits is told to quit.
\<close>

definition next_pc :: "('a \<Rightarrow> server_pc) \<Rightarrow> 'a result \<Rightarrow> server_pc" where
  "next_pc f r = (case r of Inl e \<Rightarrow> Sv_failed e | Inr x \<Rightarrow> f x)"

definition sends_quit :: "exn \<Rightarrow> 'w batch_server \<Rightarrow> bool" where
  "sends_quit e server \<longleftrightarrow> bs_is_client_waiting server \<and> (case e of Exception _ \<Rightarrow> True | _ \<Rightarrow> False)"

inductive server_step :: "(double \<Rightarrow> double) \<Rightarrow> 'w batch_system \<Rightarrow> 'w batch_system \<Rightarrow> bool" for sq :: "double \<Rightarrow> double" where
  test: "sy_pc s = Sv_test out \<Longrightarrow>
    server_step sq s (s\<lparr>sy_pc := (if keeps_serving out (sy_server s) then Sv_read else Sv_done)\<rparr>)"
| read: "sy_pc s = Sv_read \<Longrightarrow> sy_to_server s = c # rest \<Longrightarrow> read_message (Inr c) (sy_server s) = (r, server) \<Longrightarrow>
    server_step sq s (s\<lparr>sy_server := server, sy_to_server := rest, sy_pc := next_pc Sv_serve r\<rparr>)"
| read_end: "sy_pc s = Sv_read \<Longrightarrow> sy_to_server s = [] \<Longrightarrow> sy_client s = Cl_gone \<Longrightarrow>
    read_message (Inr END_OF_FILE) (sy_server s) = (r, server) \<Longrightarrow>
    server_step sq s (s\<lparr>sy_server := server, sy_pc := next_pc Sv_serve r\<rparr>)"
| serve: "sy_pc s = Sv_serve m \<Longrightarrow> serve_message sq m (sy_server s) = (r, server) \<Longrightarrow>
    server_step sq s (s\<lparr>sy_server := server, sy_pc := next_pc (Sv_reply m) r\<rparr>)"
| no_reply: "sy_pc s = Sv_reply M_MESSAGE_TERMINATE out \<Longrightarrow> server_step sq s (s\<lparr>sy_pc := Sv_test out\<rparr>)"
| reply: "sy_pc s = Sv_reply m out \<Longrightarrow> m \<noteq> M_MESSAGE_TERMINATE \<Longrightarrow> sy_client s \<noteq> Cl_gone \<Longrightarrow>
    write_message (Inr ()) (sy_server s) = (r, server) \<Longrightarrow>
    server_step sq s (s\<lparr>sy_server := server, sy_to_client := sy_to_client s @ [out], sy_pc := next_pc (\<lambda>_. Sv_test out) r\<rparr>)"
| reply_fails: "sy_pc s = Sv_reply m out \<Longrightarrow> m \<noteq> M_MESSAGE_TERMINATE \<Longrightarrow> sy_client s = Cl_gone \<Longrightarrow>
    write_message (Inl (Exception EPIPE)) (sy_server s) = (r, server) \<Longrightarrow>
    server_step sq s (s\<lparr>sy_server := server, sy_pc := next_pc (\<lambda>_. Sv_test out) r\<rparr>)"
| failed: "sy_pc s = Sv_failed e \<Longrightarrow>
    server_step sq s
      (if sends_quit e (sy_server s) \<and> sy_client s \<noteq> Cl_gone
       then s\<lparr>sy_server := (sy_server s)\<lparr>bs_is_client_waiting := False\<rparr>, sy_to_client := sy_to_client s @ [M_MESSAGE_QUIT], sy_pc := Sv_done\<rparr>
       else s\<lparr>sy_pc := Sv_done\<rparr>)"

inductive client_step :: "'w batch_system \<Rightarrow> 'w batch_system \<Rightarrow> bool" where
  call_read: "sy_client s = Cl_idle \<Longrightarrow> client_step s (client_read_batch s)"
| call_write: "sy_client s = Cl_idle \<Longrightarrow> client_step s (client_write_batch settings s)"
| call_stop: "sy_client s = Cl_idle \<Longrightarrow> client_step s (client_stop_batch s)"
| receive: "sy_client s = Cl_wait call \<Longrightarrow> sy_to_client s = c # rest \<Longrightarrow> client_step s (client_receive call c (s\<lparr>sy_to_client := rest\<rparr>))"
| receive_end: "sy_client s = Cl_wait call \<Longrightarrow> sy_to_client s = [] \<Longrightarrow> sy_pc s = Sv_done \<Longrightarrow> client_step s (client_receive call END_OF_FILE s)"

text \<open>
  A signal runs the handler of the server; one that arrives in a call that waits also interrupts it. The client may be
  interrupted as well, may exit, and a server that writes to a client that has exited may be killed by \<^verbatim>\<open>SIGPIPE\<close>.
\<close>

inductive disturbance :: "'w batch_system \<Rightarrow> 'w batch_system \<Rightarrow> bool" where
  sigterm: "sy_pc s \<noteq> Sv_done \<Longrightarrow> disturbance s (s\<lparr>sy_server := action_sigterm sival (sy_server s)\<rparr>)"
| read_interrupted: "sy_pc s = Sv_read \<Longrightarrow> sy_to_server s = [] \<Longrightarrow>
    read_message (Inl (Exception EINTR)) (action_sigterm sival (sy_server s)) = (r, server) \<Longrightarrow>
    disturbance s (s\<lparr>sy_server := server, sy_pc := next_pc Sv_serve r\<rparr>)"
| reply_interrupted: "sy_pc s = Sv_reply m out \<Longrightarrow> m \<noteq> M_MESSAGE_TERMINATE \<Longrightarrow>
    write_message (Inl (Exception EINTR)) (action_sigterm sival (sy_server s)) = (r, server) \<Longrightarrow>
    disturbance s (s\<lparr>sy_server := server, sy_pc := next_pc (\<lambda>_. Sv_test out) r\<rparr>)"
| sigpipe: "sy_pc s = Sv_reply m out \<Longrightarrow> sy_client s = Cl_gone \<Longrightarrow> disturbance s (s\<lparr>sy_pc := Sv_done\<rparr>)"
| client_interrupted: "sy_client s = Cl_wait call \<Longrightarrow> disturbance s (s\<lparr>sy_client := Cl_failed\<rparr>)"
| client_exits: "disturbance s (s\<lparr>sy_client := Cl_gone\<rparr>)"

definition batch_step :: "(double \<Rightarrow> double) \<Rightarrow> 'w batch_system \<Rightarrow> 'w batch_system \<Rightarrow> bool" where
  "batch_step sq s t \<longleftrightarrow> server_step sq s t \<or> client_step s t \<or> disturbance s t"

inductive_cases server_stepE: "server_step sq s t"
inductive_cases client_stepE: "client_step s t"
inductive_cases disturbanceE: "disturbance s t"

section \<open>The calls made without a server\<close>

text \<open>What a client with the same handles would do on the \<^verbatim>\<open>PlatformIO\<close> itself.\<close>

definition direct_call :: "(double \<Rightarrow> double) \<Rightarrow> int list \<Rightarrow> int list \<Rightarrow> batch_call \<Rightarrow> ('w pio, double list) action" where
  "direct_call sq signals controls call =
     (case call of
        Call_read \<Rightarrow> if signals = [] then ret [] else bind read_batch (\<lambda>_. map_action (sample sq) signals)
      | Call_write settings \<Rightarrow>
          if controls = [] then ret []
          else bind (for_each (\<lambda>(handle, setting). adjust_valid handle setting) (zip controls settings))
                 (\<lambda>_. bind write_batch (\<lambda>_. ret []))
      | Call_stop \<Rightarrow> ret [])"

fun direct_run :: "(double \<Rightarrow> double) \<Rightarrow> int list \<Rightarrow> int list \<Rightarrow> (batch_call \<times> double list) list \<Rightarrow> 'w pio \<Rightarrow> 'w pio option" where
  "direct_run sq signals controls [] p = Some p"
| "direct_run sq signals controls ((call, result) # calls) p =
     (case direct_call sq signals controls call p of
        (Inr x, q) \<Rightarrow> if x = result then direct_run sq signals controls calls q else None
      | (Inl e, q) \<Rightarrow> None)"


section \<open>The server's operations as operations of its PlatformIO\<close>

lemma on_bs_pio_eq: "on_bs_pio m s = (fst (m (bs_pio s)), s\<lparr>bs_pio := snd (m (bs_pio s))\<rparr>)"
  by (simp add: on_bs_pio_def split: prod.splits)

lemma store_sample_eq:
  assumes "sample sq h (bs_pio s) = (x, q)"
  shows "store_sample sq (k, h) s =
    (case x of Inl e \<Rightarrow> (Inl e, s\<lparr>bs_pio := q\<rparr>)
     | Inr y \<Rightarrow> (Inr (), s\<lparr>bs_pio := q, bs_signal_shmem := (bs_signal_shmem s)[k := y]\<rparr>))"
  using assms by (simp add: store_sample_def bind_def on_bs_pio_eq modify_def split: sum.splits)

lemma apply_setting_eq:
  assumes "adjust_valid h (bs_control_shmem s ! k) (bs_pio s) = (x, q)"
  shows "apply_setting (k, h) s = (x, s\<lparr>bs_pio := q\<rparr>)"
  using assms by (simp add: apply_setting_def act_simps on_bs_pio_eq)

lemma store_samples:
  assumes "for_each (store_sample sq) (enumerate k hs) s = (r, t)" "k + length hs \<le> length (bs_signal_shmem s)"
  shows "\<exists>q buffer. t = s\<lparr>bs_pio := q, bs_signal_shmem := buffer\<rparr> \<and> length buffer = length (bs_signal_shmem s) \<and>
           (r = Inr () \<longrightarrow> (\<exists>xs. map_action (sample sq) hs (bs_pio s) = (Inr xs, q) \<and>
             buffer = take k (bs_signal_shmem s) @ xs @ drop (k + length hs) (bs_signal_shmem s)))"
  using assms
proof (induction hs arbitrary: k s)
  case Nil
  then show ?case by (auto intro!: exI[of _ "bs_pio s"] exI[of _ "bs_signal_shmem s"])
next
  case (Cons h hs)
  obtain x q where sample: "sample sq h (bs_pio s) = (x, q)" by fastforce
  show ?case
  proof (cases x)
    case (Inl e)
    then have "r = Inl e" "t = s\<lparr>bs_pio := q\<rparr>" using Cons.prems(1) store_sample_eq[OF sample] by (simp_all add: bind_def)
    then show ?thesis by (auto intro!: exI[of _ q] exI[of _ "bs_signal_shmem s"])
  next
    case (Inr y)
    let ?u = "s\<lparr>bs_pio := q, bs_signal_shmem := (bs_signal_shmem s)[k := y]\<rparr>"
    have "for_each (store_sample sq) (enumerate (Suc k) hs) ?u = (r, t)"
      using Cons.prems(1) store_sample_eq[OF sample] Inr by (simp add: bind_def)
    from Cons.IH[OF this] Cons.prems(2) obtain q' buffer where b: "t = ?u\<lparr>bs_pio := q', bs_signal_shmem := buffer\<rparr>"
        "length buffer = length (bs_signal_shmem s)"
        "r = Inr () \<longrightarrow> (\<exists>xs. map_action (sample sq) hs q = (Inr xs, q') \<and>
           buffer = take (Suc k) ((bs_signal_shmem s)[k := y]) @ xs @ drop (Suc k + length hs) ((bs_signal_shmem s)[k := y]))"
      by auto
    have "take (Suc k) ((bs_signal_shmem s)[k := y]) = take k (bs_signal_shmem s) @ [y]"
      using Cons.prems(2) by (simp add: take_Suc_conv_app_nth)
    then show ?thesis using b sample Inr
      by (intro exI[of _ q'] exI[of _ buffer]) (auto simp: bind_def ret_def)
  qed
qed

lemma apply_settings:
  assumes "for_each apply_setting (enumerate k hs) s = (r, t)" "k + length hs \<le> length (bs_control_shmem s)"
  shows "\<exists>q. for_each (\<lambda>(handle, setting). adjust_valid handle setting) (zip hs (drop k (bs_control_shmem s))) (bs_pio s) = (r, q) \<and>
           t = s\<lparr>bs_pio := q\<rparr>"
  using assms
proof (induction hs arbitrary: k s)
  case (Cons h hs)
  obtain x q where step: "adjust_valid h (bs_control_shmem s ! k) (bs_pio s) = (x, q)" by fastforce
  have zip: "zip (h # hs) (drop k (bs_control_shmem s)) = (h, bs_control_shmem s ! k) # zip hs (drop (Suc k) (bs_control_shmem s))"
    using Cons.prems(2) by (simp add: Cons_nth_drop_Suc[symmetric])
  show ?case
  proof (cases x)
    case (Inl e)
    then show ?thesis using Cons.prems(1) apply_setting_eq[OF step] step unfolding zip by (auto simp: bind_def)
  next
    case (Inr y)
    have "for_each apply_setting (enumerate (Suc k) hs) (s\<lparr>bs_pio := q\<rparr>) = (r, t)"
      using Cons.prems(1) apply_setting_eq[OF step] Inr by (simp add: bind_def)
    from Cons.IH[OF this] Cons.prems(2) show ?thesis using step Inr unfolding zip by (auto simp: bind_def)
  qed
qed auto

text \<open>What serving a request keeps, and for a reply the call it stands for.\<close>

definition same_requests :: "'w batch_server \<Rightarrow> 'w batch_server \<Rightarrow> bool" where
  "same_requests s t \<longleftrightarrow>
     bs_signal_config t = bs_signal_config s \<and> bs_control_config t = bs_control_config s \<and>
     bs_signal_handle t = bs_signal_handle s \<and> bs_control_handle t = bs_control_handle s \<and>
     length (bs_signal_shmem t) = length (bs_signal_shmem s) \<and> length (bs_control_shmem t) = length (bs_control_shmem s) \<and>
     bs_sigterm_count s \<le> bs_sigterm_count t"

definition well_wired :: "'w batch_server \<Rightarrow> bool" where
  "well_wired s \<longleftrightarrow>
     length (bs_signal_handle s) = length (bs_signal_config s) \<and> length (bs_signal_shmem s) = length (bs_signal_config s) \<and>
     length (bs_control_handle s) = length (bs_control_config s) \<and> length (bs_control_shmem s) = length (bs_control_config s)"

lemma read_and_update_effect:
  assumes "read_and_update sq s = (r, t)" "well_wired s"
  shows "same_requests s t \<and> bs_is_client_waiting t = bs_is_client_waiting s \<and>
    (r = Inr () \<longrightarrow> direct_call sq (bs_signal_handle s) controls Call_read (bs_pio s) = (Inr (bs_signal_shmem t), bs_pio t))"
proof (cases "bs_signal_config s")
  case Nil
  then show ?thesis using assms by (auto simp: read_and_update_def act_simps same_requests_def well_wired_def direct_call_def)
next
  case (Cons c cs)
  obtain x q where rb: "read_batch (bs_pio s) = (x, q)" by fastforce
  then have first: "on_bs_pio read_batch s = (x, s\<lparr>bs_pio := q\<rparr>)" by (simp add: on_bs_pio_eq)
  show ?thesis
  proof (cases x)
    case (Inl e)
    then have "r = Inl e" "t = s\<lparr>bs_pio := q\<rparr>"
      using assms(1) Cons by (simp_all add: read_and_update_def act_simps bind_Inl[where m = "on_bs_pio read_batch" and s = s, OF first[unfolded Inl]])
    then show ?thesis by (simp add: same_requests_def)
  next
    case (Inr y)
    have "for_each (store_sample sq) (enumerate 0 (bs_signal_handle s)) (s\<lparr>bs_pio := q\<rparr>) = (r, t)"
      using assms(1) Cons by (simp add: read_and_update_def act_simps bind_Inr[where m = "on_bs_pio read_batch" and s = s, OF first[unfolded Inr]])
    from store_samples[OF this] assms(2) obtain q' buffer where b: "t = s\<lparr>bs_pio := q', bs_signal_shmem := buffer\<rparr>"
        "length buffer = length (bs_signal_shmem s)"
        "r = Inr () \<longrightarrow> (\<exists>xs. map_action (sample sq) (bs_signal_handle s) q = (Inr xs, q') \<and> buffer = xs)"
      by (auto simp: well_wired_def)
    moreover have "bs_signal_handle s \<noteq> []" using assms(2) Cons by (auto simp: well_wired_def)
    ultimately show ?thesis using rb Inr by (auto simp: direct_call_def bind_Inr same_requests_def)
  qed
qed

lemma update_and_write_effect:
  assumes "update_and_write s = (r, t)" "well_wired s"
  shows "same_requests s t \<and> bs_is_client_waiting t = bs_is_client_waiting s \<and>
    (r = Inr () \<longrightarrow> direct_call sq signals (bs_control_handle s) (Call_write (bs_control_shmem s)) (bs_pio s) = (Inr [], bs_pio t))"
proof (cases "bs_control_config s")
  case Nil
  then show ?thesis using assms by (auto simp: update_and_write_def act_simps same_requests_def well_wired_def direct_call_def)
next
  case (Cons c cs)
  obtain x u where loop: "for_each apply_setting (enumerate 0 (bs_control_handle s)) s = (x, u)" by fastforce
  from apply_settings[OF loop] assms(2) obtain q where q: "u = s\<lparr>bs_pio := q\<rparr>"
      "for_each (\<lambda>(handle, setting). adjust_valid handle setting) (zip (bs_control_handle s) (bs_control_shmem s)) (bs_pio s) = (x, q)"
    by (auto simp: well_wired_def)
  show ?thesis
  proof (cases x)
    case (Inl e)
    then have "r = Inl e" "t = u"
      using assms(1) Cons by (simp_all add: update_and_write_def act_simps bind_Inl[where m = "for_each apply_setting (enumerate 0 (bs_control_handle s))" and s = s, OF loop[unfolded Inl]])
    then show ?thesis using q by (simp add: same_requests_def)
  next
    case (Inr y)
    have "on_bs_pio write_batch u = (r, t)"
      using assms(1) Cons by (simp add: update_and_write_def act_simps bind_Inr[where m = "for_each apply_setting (enumerate 0 (bs_control_handle s))" and s = s, OF loop[unfolded Inr]])
    moreover have "bs_control_handle s \<noteq> []" using assms(2) Cons by (auto simp: well_wired_def)
    moreover obtain z q' where "write_batch q = (z, q')" by fastforce
    ultimately show ?thesis using q Inr by (auto simp: direct_call_def bind_Inr same_requests_def on_bs_pio_eq ret_def)
  qed
qed


section \<open>The states of the protocol\<close>

definition posted :: "batch_call \<Rightarrow> 'w batch_server \<Rightarrow> bool" where
  "posted call v \<longleftrightarrow> (\<forall>settings. call = Call_write settings \<longrightarrow> bs_control_shmem v = settings)"

definition call_result :: "batch_call \<Rightarrow> 'w batch_server \<Rightarrow> double list" where
  "call_result call v = (if call = Call_read then bs_signal_shmem v else [])"

lemma same_requests_refl [simp]: "same_requests v v"
  and same_requests_trans: "same_requests u v \<Longrightarrow> same_requests v w \<Longrightarrow> same_requests u w"
  and same_requests_wired: "same_requests v w \<Longrightarrow> well_wired w \<longleftrightarrow> well_wired v"
  by (auto simp: same_requests_def well_wired_def)

lemma same_requests_flags [simp]:
  "same_requests v (w\<lparr>bs_is_client_waiting := b\<rparr>) = same_requests v w"
  "same_requests (v\<lparr>bs_is_client_waiting := b\<rparr>) w = same_requests v w"
  by (simp_all add: same_requests_def)

lemma serve_request_effect:
  assumes "serve_message sq (request_of call) v = (r, w)" "well_wired v" "posted call v"
  shows "same_requests v w"
    and "r = Inr out \<Longrightarrow> out = expected_reply call"
    and "r = Inr out \<Longrightarrow>
           direct_call sq (bs_signal_handle v) (bs_control_handle v) call (bs_pio v) = (Inr (call_result call w), bs_pio w)"
proof -
  let ?v = "v\<lparr>bs_is_client_waiting := True\<rparr>"
  have wired: "well_wired ?v" using assms(2) by (simp add: well_wired_def)
  have "same_requests v w \<and> (r = Inr out \<longrightarrow> out = expected_reply call \<and>
     direct_call sq (bs_signal_handle v) (bs_control_handle v) call (bs_pio v) = (Inr (call_result call w), bs_pio w))"
  proof (cases call)
    case Call_read
    obtain x u where step: "read_and_update sq ?v = (x, u)" by fastforce
    have "w = u \<and> r = map_sum id (\<lambda>_. M_MESSAGE_CONTINUE) x"
      using assms(1) step Call_read by (cases x) (auto simp: serve_message_def act_simps bind_def[of "read_and_update sq"])
    then show ?thesis using read_and_update_effect[OF step wired] Call_read
      by (cases x) (auto simp: call_result_def)
  next
    case (Call_write settings)
    obtain x u where step: "update_and_write ?v = (x, u)" by fastforce
    have "w = u \<and> r = map_sum id (\<lambda>_. M_MESSAGE_CONTINUE) x"
      using assms(1) step Call_write by (cases x) (auto simp: serve_message_def act_simps bind_def[of "update_and_write"])
    then show ?thesis using update_and_write_effect[OF step wired] Call_write assms(3)
      by (cases x) (auto simp: call_result_def posted_def)
  next
    case Call_stop
    then show ?thesis using assms(1)
      by (auto simp: serve_message_def act_simps same_requests_def direct_call_def call_result_def)
  qed
  then show "same_requests v w" "r = Inr out \<Longrightarrow> out = expected_reply call"
      "r = Inr out \<Longrightarrow> direct_call sq (bs_signal_handle v) (bs_control_handle v) call (bs_pio v) = (Inr (call_result call w), bs_pio w)"
    by auto
qed

lemma serve_other_effect:
  assumes "serve_message sq m v = (r, w)" "\<forall>call. m \<noteq> request_of call"
  shows "w = v" "r = (if m = M_MESSAGE_TERMINATE then Inr M_MESSAGE_TERMINATE else Inl runtime)"
proof -
  have "m \<noteq> M_MESSAGE_READ" "m \<noteq> M_MESSAGE_WRITE" "m \<noteq> M_MESSAGE_QUIT"
    using assms(2) by (metis request_of.simps)+
  then show "w = v" "r = (if m = M_MESSAGE_TERMINATE then Inr M_MESSAGE_TERMINATE else Inl runtime)"
    using assms(1) by (auto simp: serve_message_def act_simps split: if_splits)
qed

lemma request_not_terminate [simp]: "request_of call \<noteq> M_MESSAGE_TERMINATE" "M_MESSAGE_TERMINATE \<noteq> request_of call"
  by (cases call; simp)+

lemma end_of_file_unexpected [simp]: "expected_reply call \<noteq> END_OF_FILE" "END_OF_FILE \<noteq> expected_reply call"
  by (cases call; simp)+

text \<open>The messages, with the fields they leave alone.\<close>

definition attached :: "'w batch_server \<Rightarrow> 'w batch_server" where
  "attached v = (if \<not> bs_is_client_attached v then v\<lparr>bs_is_linked := False, bs_is_client_attached := True\<rparr> else v)"

lemma attached_simps [simp]:
  "bs_pio (attached v) = bs_pio v" "bs_is_client_waiting (attached v) = bs_is_client_waiting v"
  "bs_sigterm_count (attached v) = bs_sigterm_count v" "bs_signal_shmem (attached v) = bs_signal_shmem v"
  "bs_control_shmem (attached v) = bs_control_shmem v" "same_requests v (attached v)"
  by (simp_all add: attached_def same_requests_def)

lemma action_sigterm_simps [simp]:
  "bs_pio (action_sigterm k v) = bs_pio v" "bs_is_client_waiting (action_sigterm k v) = bs_is_client_waiting v"
  "bs_signal_shmem (action_sigterm k v) = bs_signal_shmem v"
  "bs_control_shmem (action_sigterm k v) = bs_control_shmem v" "same_requests v (action_sigterm k v)"
  by (simp_all add: action_sigterm_def same_requests_def)

lemma posted_simps [simp]:
  "posted call (attached v) = posted call v" "posted call (action_sigterm k v) = posted call v"
  by (simp_all add: posted_def)

lemma call_result_simps [simp]:
  "call_result call (attached v) = call_result call v" "call_result call (action_sigterm k v) = call_result call v"
  "call_result call (v\<lparr>bs_is_client_waiting := b\<rparr>) = call_result call v"
  by (simp_all add: call_result_def)

lemma read_message_eq:
  "read_message (Inr c) v = (Inr c, attached v)"
  "read_message (Inl (Exception EINTR)) v =
     (if bs_sigterm_count v = 0 then (Inl runtime, v) else (Inr M_MESSAGE_TERMINATE, attached v))"
  by (auto simp: read_message_def interrupted_or_rethrow_def act_simps bind_def attached_def)

lemma write_message_eq:
  "write_message (Inr ()) v = (Inr (), v\<lparr>bs_is_client_waiting := False\<rparr>)"
  "write_message (Inl (Exception EINTR)) v = (if bs_sigterm_count v = 0 then Inl runtime else Inr (), v)"
  "write_message (Inl (Exception EPIPE)) v = (Inl runtime, v)"
  by (auto simp: write_message_def interrupted_or_rethrow_def act_simps bind_def)

text \<open>
  The server between two requests; a call that has not been read, that is served, whose reply is about to be sent or under way,
  and one whose reply will not come.
\<close>

fun resting :: "server_pc \<Rightarrow> bool" where
  "resting (Sv_serve m) = (m = M_MESSAGE_TERMINATE)"
| "resting (Sv_reply m out) = (m = M_MESSAGE_TERMINATE)"
| "resting pc = True"

definition quiet :: "'w batch_system \<Rightarrow> bool" where
  "quiet s \<longleftrightarrow> resting (sy_pc s) \<and> \<not> bs_is_client_waiting (sy_server s)"

definition served :: "(double \<Rightarrow> double) \<Rightarrow> 'w batch_server \<Rightarrow> batch_call \<Rightarrow> 'w pio \<Rightarrow> 'w batch_server \<Rightarrow> bool" where
  "served sq start call p v \<longleftrightarrow>
     direct_call sq (bs_signal_handle start) (bs_control_handle start) call p = (Inr (call_result call v), bs_pio v)"

lemma served_simps [simp]:
  "served sq start call p (attached v) = served sq start call p v"
  "served sq start call p (action_sigterm k v) = served sq start call p v"
  "served sq start call p (v\<lparr>bs_is_client_waiting := b\<rparr>) = served sq start call p v"
  by (simp_all add: served_def)

inductive call_phase :: "(double \<Rightarrow> double) \<Rightarrow> 'w batch_server \<Rightarrow> batch_call \<Rightarrow> 'w pio \<Rightarrow> 'w batch_system \<Rightarrow> bool"
  for sq :: "double \<Rightarrow> double" and start :: "'w batch_server" and call :: batch_call and p :: "'w pio" where
  unread: "quiet s \<Longrightarrow> sy_to_server s = [request_of call] \<Longrightarrow> sy_to_client s = [] \<Longrightarrow> bs_pio (sy_server s) = p \<Longrightarrow>
    posted call (sy_server s) \<Longrightarrow> call_phase sq start call p s"
| serving: "sy_pc s = Sv_serve (request_of call) \<Longrightarrow> sy_to_server s = [] \<Longrightarrow> sy_to_client s = [] \<Longrightarrow> bs_pio (sy_server s) = p \<Longrightarrow>
    posted call (sy_server s) \<Longrightarrow> call_phase sq start call p s"
| replying: "sy_pc s = Sv_reply (request_of call) (expected_reply call) \<Longrightarrow> sy_to_server s = [] \<Longrightarrow> sy_to_client s = [] \<Longrightarrow>
    served sq start call p (sy_server s) \<Longrightarrow> call_phase sq start call p s"
| answered: "quiet s \<Longrightarrow> sy_to_server s = [] \<Longrightarrow> sy_to_client s = [expected_reply call] \<Longrightarrow> served sq start call p (sy_server s) \<Longrightarrow>
    call_phase sq start call p s"
| failing: "sy_pc s = Sv_failed e \<or> sy_pc s = Sv_test out \<and> \<not> keeps_serving out (sy_server s) \<or> sy_pc s = Sv_done \<Longrightarrow>
    sy_to_server s = [] \<Longrightarrow> sy_to_client s = [] \<Longrightarrow> call_phase sq start call p s"
| quitting: "sy_pc s = Sv_done \<Longrightarrow> sy_to_server s = [] \<Longrightarrow> sy_to_client s = [M_MESSAGE_QUIT] \<Longrightarrow> call_phase sq start call p s"

inductive_cases call_phaseE: "call_phase sq start call p s"


definition client_phase :: "(double \<Rightarrow> double) \<Rightarrow> 'w batch_server \<Rightarrow> 'w pio \<Rightarrow> 'w batch_system \<Rightarrow> bool" where
  "client_phase sq start p s \<longleftrightarrow>
     (case sy_client s of
        Cl_idle \<Rightarrow> quiet s \<and> sy_to_server s = [] \<and> sy_to_client s = [] \<and> bs_pio (sy_server s) = p
      | Cl_wait call \<Rightarrow> call_phase sq start call p s
      | _ \<Rightarrow> True)"

definition batch_wiring :: "'w batch_server \<Rightarrow> 'w batch_system \<Rightarrow> bool" where
  "batch_wiring start s \<longleftrightarrow>
     well_wired start \<and> same_requests start (sy_server s) \<and>
     sy_num_signal s = length (bs_signal_config start) \<and> sy_num_control s = length (bs_control_config start)"

definition batch_inv :: "(double \<Rightarrow> double) \<Rightarrow> 'w batch_server \<Rightarrow> 'w batch_system \<Rightarrow> bool" where
  "batch_inv sq start s \<longleftrightarrow> batch_wiring start s \<and>
     (\<exists>p. direct_run sq (bs_signal_handle start) (bs_control_handle start) (sy_log s) (bs_pio start) = Some p \<and> client_phase sq start p s)"

lemma serve_message_keeps: "serve_message sq m v = (r, w) \<Longrightarrow> well_wired v \<Longrightarrow> same_requests v w"
proof (cases "\<exists>call. m = request_of call \<and> posted call v")
  case False
  assume a: "serve_message sq m v = (r, w)"
  have "posted Call_read v" "posted (Call_write (bs_control_shmem v)) v" "posted Call_stop v" by (simp_all add: posted_def)
  with False have "\<forall>call. m \<noteq> request_of call" by (metis batch_call.exhaust request_of.simps)
  from serve_other_effect(1)[OF a this] show ?thesis by simp
qed (auto dest: serve_request_effect(1))

lemma server_step_keeps:
  assumes "server_step sq s t" "batch_wiring start s"
  shows "batch_wiring start t" "sy_client t = sy_client s" "sy_log t = sy_log s"
proof -
  have w: "well_wired (sy_server s)" using assms(2) same_requests_wired by (auto simp: batch_wiring_def)
  have "same_requests (sy_server s) (sy_server t) \<and> sy_client t = sy_client s \<and> sy_log t = sy_log s \<and>
      sy_num_signal t = sy_num_signal s \<and> sy_num_control t = sy_num_control s"
    using assms(1) by (cases rule: server_step.cases)
      (auto simp: read_message_eq write_message_eq serve_message_keeps[OF _ w])
  then show "batch_wiring start t" "sy_client t = sy_client s" "sy_log t = sy_log s"
    using assms(2) by (auto simp: batch_wiring_def intro: same_requests_trans)
qed

lemma idle_server_step:
  assumes "server_step sq s t" "quiet s" "sy_to_server s = []" "sy_client s \<noteq> Cl_gone"
  shows "quiet t \<and> sy_to_server t = [] \<and> sy_to_client t = sy_to_client s \<and> bs_pio (sy_server t) = bs_pio (sy_server s) \<and>
     call_result call (sy_server t) = call_result call (sy_server s)"
  using assms
  by (cases rule: server_step.cases)
     (auto simp: quiet_def next_pc_def read_message_eq write_message_eq serve_message_def act_simps sends_quit_def split: if_splits)

lemma unread_server_step:
  assumes "server_step sq s t" "quiet s" "sy_to_server s = [request_of call]" "sy_client s \<noteq> Cl_gone" "sy_to_client s = []"
    "posted call (sy_server s)"
  shows "call_phase sq start call (bs_pio (sy_server s)) t"
  using assms
proof (cases rule: server_step.cases)
  case (read c rest r server)
  then show ?thesis using assms by (intro call_phase.serving) (auto simp: read_message_eq next_pc_def)
qed (auto intro!: call_phase.unread simp: quiet_def next_pc_def read_message_eq write_message_eq serve_message_def act_simps
      sends_quit_def split: if_splits)

lemma call_server_step:
  assumes "server_step sq s t" "call_phase sq start call p s" "sy_client s \<noteq> Cl_gone" "batch_wiring start s"
  shows "call_phase sq start call p t"
  using assms(2)
proof (cases rule: call_phase.cases)
  case unread
  then show ?thesis using unread_server_step[OF assms(1) unread(1,2) assms(3) unread(3,5)] by simp
next
  case serving
  have w: "well_wired (sy_server s)" and handles: "bs_signal_handle (sy_server s) = bs_signal_handle start"
      "bs_control_handle (sy_server s) = bs_control_handle start"
    using assms(4) same_requests_wired by (auto simp: batch_wiring_def same_requests_def)
  from assms(1) serving(1) obtain r v where step: "serve_message sq (request_of call) (sy_server s) = (r, v)"
      "t = s\<lparr>sy_server := v, sy_pc := next_pc (Sv_reply (request_of call)) r\<rparr>"
    by (cases rule: server_step.cases) auto
  show ?thesis
  proof (cases r)
    case (Inl e)
    then show ?thesis using step serving by (intro call_phase.failing) (auto simp: next_pc_def)
  next
    case (Inr out)
    from serve_request_effect(2,3)[OF step(1) w serving(5) Inr] show ?thesis
      using step serving Inr by (intro call_phase.replying) (auto simp: next_pc_def served_def handles)
  qed
next
  case replying
  with assms(1,3) have "t = s\<lparr>sy_server := (sy_server s)\<lparr>bs_is_client_waiting := False\<rparr>,
      sy_to_client := [expected_reply call], sy_pc := Sv_test (expected_reply call)\<rparr>"
    by (cases rule: server_step.cases) (auto simp: write_message_eq next_pc_def)
  then show ?thesis using replying by (intro call_phase.answered) (auto simp: quiet_def)
next
  case answered
  from idle_server_step[OF assms(1) answered(1,2) assms(3), of call] answered show ?thesis
    by (intro call_phase.answered) (auto simp: served_def)
next
  case (failing e out)
  from assms(1) failing show ?thesis
    by (cases rule: server_step.cases) (auto intro: call_phase.failing call_phase.quitting)
next
  case quitting
  with assms(1) show ?thesis by (cases rule: server_step.cases) auto
qed


lemma keeps_serving_sigterm: "\<not> keeps_serving out v \<Longrightarrow> \<not> keeps_serving out (action_sigterm k v)" if "0 \<le> bs_sigterm_count v"
  using that by (auto simp: keeps_serving_def action_sigterm_def)

lemma same_requests_interrupted [simp]: "same_requests v (attached (action_sigterm k v))"
  by (rule same_requests_trans[of _ "action_sigterm k v"]) simp_all

lemma disturbance_keeps:
  assumes "disturbance s t" "batch_wiring start s"
  shows "batch_wiring start t" "sy_log t = sy_log s"
proof -
  have "same_requests (sy_server s) (sy_server t) \<and> sy_log t = sy_log s \<and>
      sy_num_signal t = sy_num_signal s \<and> sy_num_control t = sy_num_control s"
    using assms(1) by (cases rule: disturbance.cases)
      (auto simp: read_message_eq write_message_eq intro: same_requests_trans split: if_splits)
  then show "batch_wiring start t" "sy_log t = sy_log s"
    using assms(2) by (auto simp: batch_wiring_def intro: same_requests_trans)
qed

lemma idle_disturbance:
  assumes "disturbance s t" "quiet s" "sy_client t = sy_client s"
  shows "quiet t \<and> sy_to_server t = sy_to_server s \<and> sy_to_client t = sy_to_client s \<and> bs_pio (sy_server t) = bs_pio (sy_server s) \<and>
     call_result call (sy_server t) = call_result call (sy_server s) \<and> (posted call (sy_server t) \<longleftrightarrow> posted call (sy_server s))"
  using assms
  by (cases rule: disturbance.cases) (auto simp: quiet_def read_message_eq next_pc_def split: if_splits)

lemma call_disturbance:
  assumes "disturbance s t" "call_phase sq start call p s" "sy_client s = Cl_wait call" "sy_client t = Cl_wait call"
    "0 \<le> bs_sigterm_count (sy_server s)"
  shows "call_phase sq start call p t"
  using assms(2)
proof (cases rule: call_phase.cases)
  case unread
  from idle_disturbance[OF assms(1) unread(1), of call] unread assms(3,4) show ?thesis by (intro call_phase.unread) auto
next
  case serving
  from assms(1) serving assms(3,4) show ?thesis
    by (cases rule: disturbance.cases) (auto intro!: call_phase.serving)
next
  case replying
  from assms(1) replying assms(3,4) show ?thesis
    by (cases rule: disturbance.cases)
      (auto intro: call_phase.replying call_phase.failing simp: write_message_eq next_pc_def keeps_serving_def split: if_splits)
next
  case answered
  from idle_disturbance[OF assms(1) answered(1), of call] answered assms(3,4) show ?thesis
    by (intro call_phase.answered) (auto simp: served_def)
next
  case (failing e out)
  from assms(1) failing assms(3-5) show ?thesis
    by (cases rule: disturbance.cases) (auto intro!: call_phase.failing simp: keeps_serving_sigterm)
next
  case quitting
  from assms(1) quitting assms(3,4) show ?thesis
    by (cases rule: disturbance.cases) (auto intro!: call_phase.quitting)
qed

lemma disturbance_client: "disturbance s t \<Longrightarrow> sy_client t = sy_client s \<or> sy_client t = Cl_failed \<or> sy_client t = Cl_gone"
  by (cases rule: disturbance.cases) auto

lemma disturbance_phase:
  assumes "disturbance s t" "client_phase sq start p s" "0 \<le> bs_sigterm_count (sy_server s)"
  shows "client_phase sq start p t"
proof (cases "sy_client t = sy_client s")
  case True
  show ?thesis
  proof (cases "sy_client s")
    case Cl_idle
    from idle_disturbance[OF assms(1) _ True] assms(2) True Cl_idle show ?thesis by (auto simp: client_phase_def)
  next
    case (Cl_wait call)
    with call_disturbance[OF assms(1) _ Cl_wait _ assms(3)] assms(2) True show ?thesis by (auto simp: client_phase_def)
  qed (use True in \<open>auto simp: client_phase_def\<close>)
next
  case False
  with disturbance_client[OF assms(1)] show ?thesis by (auto simp: client_phase_def)
qed

lemma server_step_phase:
  assumes "server_step sq s t" "client_phase sq start p s" "batch_wiring start s"
  shows "client_phase sq start p t"
proof (cases "sy_client s")
  case Cl_idle
  from idle_server_step[OF assms(1)] assms(2) server_step_keeps(2)[OF assms(1,3)] Cl_idle show ?thesis by (auto simp: client_phase_def)
next
  case (Cl_wait call)
  with call_server_step[OF assms(1) _ _ assms(3)] assms(2) server_step_keeps(2)[OF assms(1,3)] show ?thesis
    by (auto simp: client_phase_def)
qed (use server_step_keeps(2)[OF assms(1,3)] in \<open>auto simp: client_phase_def\<close>)

section \<open>A step of the client\<close>

lemma direct_run_append:
  "direct_run sq signals controls (xs @ ys) p =
     (case direct_run sq signals controls xs p of None \<Rightarrow> None | Some q \<Rightarrow> direct_run sq signals controls ys q)"
  by (induction xs arbitrary: p) (auto split: prod.splits sum.splits)

lemma direct_run_snoc:
  "direct_run sq signals controls xs p = Some q \<Longrightarrow> direct_call sq signals controls call q = (Inr result, q') \<Longrightarrow>
     direct_run sq signals controls (xs @ [(call, result)]) p = Some q'"
  by (simp add: direct_run_append)

text \<open>A call that returns at once, one that is sent, and one that gets its reply.\<close>

lemma client_send_phase:
  assumes "quiet s" "sy_to_server s = []" "sy_to_client s = []" "bs_pio (sy_server s) = p" "posted call (sy_server s)"
  shows "client_phase sq start p (client_send call s)"
  using assms by (auto simp: client_send_def client_phase_def quiet_def intro!: call_phase.unread)

lemma client_receive_reply:
  assumes "call_phase sq start call p s" "sy_to_client s = c # rest" "batch_wiring start s"
  defines "t \<equiv> client_receive call c (s\<lparr>sy_to_client := rest\<rparr>)"
  shows "sy_client t = Cl_failed \<and> sy_log t = sy_log s \<or>
    (\<exists>result q. sy_log t = sy_log s @ [(call, result)] \<and>
       direct_call sq (bs_signal_handle start) (bs_control_handle start) call p = (Inr result, q) \<and> client_phase sq start q t)"
  using assms(1)
proof (cases rule: call_phase.cases)
  case answered
  have "length (bs_signal_shmem (sy_server s)) = sy_num_signal s"
    using assms(3) by (auto simp: batch_wiring_def well_wired_def same_requests_def)
  then have "client_phase sq start (bs_pio (sy_server s)) t \<and> sy_log t = sy_log s @ [(call, call_result call (sy_server s))]"
    using answered assms(2) unfolding t_def
    by (auto simp: client_receive_def call_returns_def client_phase_def quiet_def call_result_def)
  then show ?thesis using answered(4) by (auto simp: served_def)
next
  case quitting
  show ?thesis
  proof (cases call)
    case Call_stop
    then show ?thesis using quitting assms(2) unfolding t_def
      by (auto simp: client_receive_def call_returns_def client_phase_def direct_call_def ret_def)
  qed (use quitting assms(2) in \<open>auto simp: t_def client_receive_def\<close>)
qed (use assms(2) in auto)

lemma client_ops_keep [simp]:
  "sy_server (call_returns call xs s) = sy_server s" "sy_num_signal (call_returns call xs s) = sy_num_signal s"
  "sy_num_control (call_returns call xs s) = sy_num_control s"
  "sy_server (client_send call s) = sy_server s" "sy_num_signal (client_send call s) = sy_num_signal s"
  "sy_num_control (client_send call s) = sy_num_control s" "sy_log (client_send call s) = sy_log s"
  "sy_server (client_receive call c s) = sy_server s" "sy_num_signal (client_receive call c s) = sy_num_signal s"
  "sy_num_control (client_receive call c s) = sy_num_control s"
  by (simp_all add: call_returns_def client_send_def client_receive_def)

lemma client_step_wiring: "client_step s t \<Longrightarrow> batch_wiring start s \<Longrightarrow> batch_wiring start t"
  by (cases rule: client_step.cases, assumption)
     (auto simp: batch_wiring_def client_read_batch_def client_write_batch_def client_stop_batch_def same_requests_def well_wired_def)

lemma client_step_phase:
  assumes "client_step s t" "client_phase sq start p s" "batch_wiring start s"
    and run: "direct_run sq (bs_signal_handle start) (bs_control_handle start) (sy_log s) (bs_pio start) = Some p"
  shows "\<exists>q. direct_run sq (bs_signal_handle start) (bs_control_handle start) (sy_log t) (bs_pio start) = Some q \<and>
           client_phase sq start q t"
  using assms(1)
proof (cases rule: client_step.cases)
  case call_read
  show ?thesis
  proof (cases "sy_num_signal s = 0")
    case True
    then have "bs_signal_handle start = []" using assms(3) by (auto simp: batch_wiring_def well_wired_def)
    with call_read True assms(2) run show ?thesis
      by (auto simp: client_read_batch_def call_returns_def client_phase_def direct_run_append direct_call_def ret_def quiet_def)
  next
    case False
    with call_read assms(2) run client_send_phase[of s p Call_read] show ?thesis
      by (auto simp: client_read_batch_def client_phase_def[of _ _ _ s] posted_def)
  qed
next
  case (call_write settings)
  consider "length settings \<noteq> sy_num_control s" | "length settings = sy_num_control s" "sy_num_control s = 0"
    | "length settings = sy_num_control s" "sy_num_control s \<noteq> 0" by blast
  then show ?thesis
  proof cases
    case 1
    with call_write assms(2) run show ?thesis by (auto simp: client_write_batch_def)
  next
    case 2
    then have "bs_control_handle start = []" using assms(3) by (auto simp: batch_wiring_def well_wired_def)
    with call_write 2 assms(2) run show ?thesis
      by (auto simp: client_write_batch_def call_returns_def client_phase_def direct_run_append direct_call_def ret_def quiet_def)
  next
    case 3
    let ?s = "s\<lparr>sy_server := (sy_server s)\<lparr>bs_control_shmem := settings\<rparr>\<rparr>"
    have "client_phase sq start p (client_send (Call_write settings) ?s)"
      using call_write assms(2) by (intro client_send_phase) (auto simp: client_phase_def quiet_def posted_def)
    with call_write 3 run show ?thesis by (auto simp: client_write_batch_def)
  qed
next
  case call_stop
  with assms(2) run client_send_phase[of s p Call_stop] show ?thesis
    by (auto simp: client_stop_batch_def client_phase_def[of _ _ _ s] posted_def)
next
  case (receive call c rest)
  then have "call_phase sq start call p s" using assms(2) by (auto simp: client_phase_def)
  from client_receive_reply[OF this receive(3) assms(3)] receive(1) run show ?thesis
    by (auto simp: direct_run_snoc client_phase_def)
next
  case (receive_end call)
  then have "sy_client t = Cl_failed" "sy_log t = sy_log s" by (simp_all add: client_receive_def)
  with run show ?thesis by (auto simp: client_phase_def)
qed

lemma batch_step_inv:
  assumes "batch_step sq s t" "batch_inv sq start s" "0 \<le> bs_sigterm_count start"
  shows "batch_inv sq start t"
proof -
  from assms(2) obtain p where w: "batch_wiring start s" and ph: "client_phase sq start p s"
    and run: "direct_run sq (bs_signal_handle start) (bs_control_handle start) (sy_log s) (bs_pio start) = Some p"
    by (auto simp: batch_inv_def)
  have count: "0 \<le> bs_sigterm_count (sy_server s)" using w assms(3) by (auto simp: batch_wiring_def same_requests_def)
  from assms(1) consider "server_step sq s t" | "client_step s t" | "disturbance s t" by (auto simp: batch_step_def)
  then show ?thesis
  proof cases
    case 1
    then show ?thesis using server_step_keeps[OF 1 w] server_step_phase[OF 1 ph w] run by (auto simp: batch_inv_def)
  next
    case 2
    then show ?thesis using client_step_wiring[OF 2 w] client_step_phase[OF 2 ph w run] by (auto simp: batch_inv_def)
  next
    case 3
    then show ?thesis using disturbance_keeps[OF 3 w] disturbance_phase[OF 3 ph count] run by (auto simp: batch_inv_def)
  qed
qed


section \<open>Reachable states\<close>

abbreviation batch_reachable :: "(double \<Rightarrow> double) \<Rightarrow> 'w batch_server \<Rightarrow> 'w batch_system \<Rightarrow> bool" where
  "batch_reachable sq start s \<equiv> (batch_step sq)\<^sup>*\<^sup>* (batch_start start) s"

lemma push_handles:
  assumes "for_each (\<lambda>(name, domain_type, domain_idx). bind (on_bs_pio (push name domain_type domain_idx))
             (\<lambda>handle. modify (store handle))) reqs s = (Inr (), t)"
    and "\<And>handle s. length (handles (store handle s)) = Suc (length (handles s))" "\<And>s p. handles (s\<lparr>bs_pio := p\<rparr>) = handles s"
    and "\<And>handle s. kept (store handle s) = kept s" "\<And>s p. kept (s\<lparr>bs_pio := p\<rparr>) = kept s"
  shows "length (handles t) = length (handles s) + length reqs \<and> kept t = kept s"
  using assms(1)
proof (induction reqs arbitrary: s)
  case (Cons req reqs)
  obtain name domain_type domain_idx where req: "req = (name, domain_type, domain_idx)" by (cases req)
  obtain x q where push: "push name domain_type domain_idx (bs_pio s) = (x, q)" by fastforce
  let ?body = "bind (on_bs_pio (push name domain_type domain_idx)) (\<lambda>handle. modify (store handle))"
  have body: "?body s = (case x of Inl e \<Rightarrow> (Inl e, s\<lparr>bs_pio := q\<rparr>) | Inr h \<Rightarrow> (Inr (), store h (s\<lparr>bs_pio := q\<rparr>)))"
    by (simp add: bind_def on_bs_pio_eq push modify_def split: sum.split)
  from Cons.prems have "bind ?body (\<lambda>_. for_each (\<lambda>(name, domain_type, domain_idx).
      bind (on_bs_pio (push name domain_type domain_idx)) (\<lambda>handle. modify (store handle))) reqs) s = (Inr (), t)"
    by (simp add: req)
  then obtain h where rest: "for_each (\<lambda>(name, domain_type, domain_idx). bind (on_bs_pio (push name domain_type domain_idx))
         (\<lambda>handle. modify (store handle))) reqs (store h (s\<lparr>bs_pio := q\<rparr>)) = (Inr (), t)"
    unfolding bind_cases[of ?body] body by (auto split: sum.splits)
  from Cons.IH[OF rest] show ?case using assms(2-5) by simp
qed auto

lemma pushed_well_wired:
  assumes "push_requests (make_batch_server signals controls pio) = (Inr (), start)"
  shows "well_wired start" "bs_sigterm_count start = 0" "bs_is_client_waiting start = False"
    "length (bs_signal_config start) = length signals" "length (bs_control_config start) = length controls"
proof -
  let ?s = "make_batch_server signals controls pio"
  let ?kept = "\<lambda>s. (bs_signal_config s, bs_control_config s, bs_signal_shmem s, bs_control_shmem s, bs_sigterm_count s, bs_is_client_waiting s)"
  let ?sig = "for_each (\<lambda>(name, domain_type, domain_idx). bind (on_bs_pio (push_signal name domain_type domain_idx))
        (\<lambda>handle. modify (\<lambda>s. s\<lparr>bs_signal_handle := bs_signal_handle s @ [handle]\<rparr>))) signals"
  from assms obtain u where first: "?sig ?s = (Inr (), u)" and second:
      "for_each (\<lambda>(name, domain_type, domain_idx). bind (on_bs_pio (push_control name domain_type domain_idx))
        (\<lambda>handle. modify (\<lambda>s. s\<lparr>bs_control_handle := bs_control_handle s @ [handle]\<rparr>))) (bs_control_config u) u = (Inr (), start)"
    by (auto simp: push_requests_def bind_cases act_simps make_batch_server_def)
  have 1: "length (bs_signal_handle u) = length (bs_signal_handle ?s) + length signals \<and>
      (bs_control_handle u, ?kept u) = (bs_control_handle ?s, ?kept ?s)"
    by (rule push_handles[OF first]) simp_all
  have 2: "length (bs_control_handle start) = length (bs_control_handle u) + length (bs_control_config u) \<and>
      (bs_signal_handle start, ?kept start) = (bs_signal_handle u, ?kept u)"
    by (rule push_handles[OF second]) simp_all
  from 1 2 show "well_wired start" "bs_sigterm_count start = 0" "bs_is_client_waiting start = False"
      "length (bs_signal_config start) = length signals" "length (bs_control_config start) = length controls"
    by (simp_all add: well_wired_def make_batch_server_def)
qed

lemma batch_reachable_inv:
  assumes "push_requests (make_batch_server signals controls pio) = (Inr (), start)" "batch_reachable sq start s"
  shows "batch_inv sq start s"
  using assms(2)
proof (induction rule: rtranclp_induct)
  case base
  show ?case using pushed_well_wired[OF assms(1)]
    by (simp add: batch_inv_def batch_wiring_def batch_start_def client_phase_def quiet_def)
next
  case (step y z)
  show ?case by (rule batch_step_inv[OF step(2) step.IH]) (simp add: pushed_well_wired(2)[OF assms(1)])
qed

lemma batch_reachable_phase:
  assumes "push_requests (make_batch_server signals controls pio) = (Inr (), start)" "batch_reachable sq start s"
  obtains p where "batch_wiring start s" "client_phase sq start p s"
    "direct_run sq (bs_signal_handle start) (bs_control_handle start) (sy_log s) (bs_pio start) = Some p"
  using batch_reachable_inv[OF assms] by (auto simp: batch_inv_def)

text \<open>What is left to do until a call is over.\<close>

fun pc_rank :: "server_pc \<Rightarrow> nat" where
  "pc_rank (Sv_serve m) = 5"
| "pc_rank (Sv_reply m out) = 4"
| "pc_rank (Sv_test out) = 3"
| "pc_rank Sv_read = 2"
| "pc_rank (Sv_failed e) = 1"
| "pc_rank Sv_done = 0"

definition waiting_rank :: "'w batch_system \<Rightarrow> nat" where
  "waiting_rank s = 8 * length (sy_to_server s) + pc_rank (sy_pc s)"

lemma server_step_rank: "server_step sq s t \<Longrightarrow> sy_client s \<noteq> Cl_gone \<Longrightarrow> waiting_rank t < waiting_rank s"
  by (cases rule: server_step.cases, assumption)
     (auto simp: waiting_rank_def next_pc_def read_message_eq write_message_eq split: sum.splits)

lemma client_step_wait: "client_step s t \<Longrightarrow> sy_client s = Cl_wait call \<Longrightarrow> sy_client t \<noteq> Cl_wait call'"
  by (cases rule: client_step.cases, assumption) (auto simp: client_receive_def call_returns_def)

lemma server_can_step:
  assumes "sy_pc s \<noteq> Sv_done" "sy_pc s = Sv_read \<Longrightarrow> sy_to_server s \<noteq> []" "sy_client s \<noteq> Cl_gone"
  shows "\<exists>t. server_step sq s t"
proof (cases "sy_pc s")
  case Sv_read
  with assms(2) obtain c rest where "sy_to_server s = c # rest" by (cases "sy_to_server s") auto
  then show ?thesis using server_step.read[OF Sv_read] by (metis read_message_eq(1))
next
  case (Sv_serve m)
  obtain r v where "serve_message sq m (sy_server s) = (r, v)" by fastforce
  with server_step.serve[OF Sv_serve] show ?thesis by blast
next
  case (Sv_reply m out)
  then show ?thesis
    by (cases "m = M_MESSAGE_TERMINATE") (metis server_step.no_reply, metis server_step.reply write_message_eq(1) assms(3))
next
  case (Sv_failed e)
  then show ?thesis using server_step.failed by blast
qed (use assms(1) server_step.test in blast)+

lemma call_can_go_on:
  assumes "call_phase sq start call p s" "sy_client s = Cl_wait call"
  shows "\<exists>t. server_step sq s t \<or> client_step s t"
proof (cases "sy_to_client s")
  case Nil
  show ?thesis
  proof (cases "sy_pc s = Sv_done")
    case True
    then show ?thesis using client_step.receive_end[OF assms(2) Nil] by blast
  next
    case False
    have "sy_pc s = Sv_read \<Longrightarrow> sy_to_server s \<noteq> []"
      using assms(1) Nil by (cases rule: call_phase.cases) auto
    from server_can_step[OF False this] assms(2) show ?thesis by auto
  qed
next
  case (Cons c rest)
  then show ?thesis using client_step.receive[OF assms(2)] by blast
qed


lemma reaches:
  "batch_reachable sq start s \<Longrightarrow> server_step sq s t \<Longrightarrow> batch_reachable sq start t"
  "batch_reachable sq start s \<Longrightarrow> client_step s t \<Longrightarrow> batch_reachable sq start t"
  "batch_reachable sq start s \<Longrightarrow> disturbance s t \<Longrightarrow> batch_reachable sq start t"
  by (auto simp: batch_step_def intro: rtranclp.rtrancl_into_rtrancl)

section \<open>An example\<close>

definition demo_batch :: "demo_world batch_server" where
  "demo_batch = snd (push_requests (make_batch_server [(''S'', GEOPM_DOMAIN_CORE, 2)] [] demo_pio))"

lemma demo_batch_pushed:
  "push_requests (make_batch_server [(''S'', GEOPM_DOMAIN_CORE, 2)] [] demo_pio) = (Inr (), demo_batch)"
  "bs_pio demo_batch = demo_after_push 2 demo_pio" "bs_signal_handle demo_batch = [0]" "bs_control_handle demo_batch = []"
proof -
  have "push_signal ''S'' GEOPM_DOMAIN_CORE 2 demo_pio = (Inr 0, demo_after_push 2 demo_pio)"
    unfolding push_signal_def using demo_push_core[of demo_pio 2] demo_domains(6)
    by (simp add: demo_pio_def make_pio_def)
  then have "push_requests (make_batch_server [(''S'', GEOPM_DOMAIN_CORE, 2)] [] demo_pio) =
      (Inr (), (make_batch_server [(''S'', GEOPM_DOMAIN_CORE, 2)] [] demo_pio)\<lparr>bs_pio := demo_after_push 2 demo_pio, bs_signal_handle := [0]\<rparr>)"
    by (simp add: push_requests_def make_batch_server_def bind_def gets_def modify_def on_bs_pio_eq)
  then show "push_requests (make_batch_server [(''S'', GEOPM_DOMAIN_CORE, 2)] [] demo_pio) = (Inr (), demo_batch)"
    "bs_pio demo_batch = demo_after_push 2 demo_pio" "bs_signal_handle demo_batch = [0]" "bs_control_handle demo_batch = []"
    by (simp_all add: demo_batch_def make_batch_server_def)
qed

lemma demo_batch_read:
  assumes "bs_pio v = demo_after_push 2 demo_pio" "bs_signal_handle v = [0]" "length (bs_signal_config v) = 1" "length (bs_signal_shmem v) = 1"
  shows "\<exists>w. read_and_update sq v = (Inr (), w) \<and> bs_signal_shmem w = [d_of_int 2] \<and> bs_is_client_waiting w = bs_is_client_waiting v \<and>
           bs_sigterm_count w = bs_sigterm_count v"
proof -
  let ?p = "(demo_after_push 2 demo_pio)\<lparr>m_is_signal_active := True\<rparr>"
  have first: "on_bs_pio read_batch v = (Inr (), v\<lparr>bs_pio := ?p\<rparr>)"
    by (simp add: on_bs_pio_eq read_batch_def gets_def modify_def bind_def assms(1) demo_after_push_def demo_pio_def make_pio_def ret_def)
  have second: "sample sq 0 ?p = (Inr (d_of_int 2), ?p)"
    by (simp add: sample_def sample_rec.simps act_simps bind_def demo_after_push_def demo_pio_def make_pio_def num_signal_pushed_def)
  have "store_sample sq (0, 0) (v\<lparr>bs_pio := ?p\<rparr>) =
      (Inr (), v\<lparr>bs_pio := ?p, bs_signal_shmem := (bs_signal_shmem v)[0 := d_of_int 2]\<rparr>)"
    using store_sample_eq[of sq 0 "v\<lparr>bs_pio := ?p\<rparr>" "Inr (d_of_int 2)" ?p 0] second by simp
  then have "read_and_update sq v = (Inr (), v\<lparr>bs_pio := ?p, bs_signal_shmem := (bs_signal_shmem v)[0 := d_of_int 2]\<rparr>)"
    using assms by (auto simp: read_and_update_def gets_def bind_def first)
  moreover have "(bs_signal_shmem v)[0 := d_of_int 2] = [d_of_int 2]" using assms(4) by (cases "bs_signal_shmem v") auto
  ultimately show ?thesis by simp
qed

text \<open>The steps of a call of \<^verbatim>\<open>read_batch()\<close>.\<close>

lemma demo_call_waits:
  "\<exists>s. batch_reachable sq demo_batch s \<and> sy_client s = Cl_wait Call_read \<and> sy_pc s = Sv_read \<and>
       sy_to_server s = [M_MESSAGE_READ] \<and> sy_to_client s = [] \<and> sy_log s = [] \<and> sy_num_signal s = 1 \<and> sy_server s = demo_batch"
proof -
  let ?s0 = "batch_start demo_batch"
  note wired = pushed_well_wired[OF demo_batch_pushed(1)]
  let ?s1 = "?s0\<lparr>sy_pc := Sv_read\<rparr>"
  have "server_step sq ?s0 ?s1"
    using server_step.test[of ?s0 M_MESSAGE_CONTINUE sq] wired(2) by (simp add: batch_start_def keeps_serving_def)
  moreover have "client_step ?s1 (client_read_batch ?s1)" by (rule client_step.call_read) (simp add: batch_start_def)
  ultimately have "batch_reachable sq demo_batch (client_read_batch ?s1)"
    by (meson reaches rtranclp.rtrancl_refl)
  moreover have "length (bs_signal_config demo_batch) = 1" using wired(4) by simp
  ultimately show ?thesis
    by (intro exI[of _ "client_read_batch ?s1"]) (simp add: client_read_batch_def client_send_def batch_start_def)
qed

lemma demo_call_returns:
  "\<exists>s. batch_reachable sq demo_batch s \<and> sy_client s = Cl_idle \<and> sy_log s = [(Call_read, [d_of_int 2])]"
proof -
  obtain s where s: "batch_reachable sq demo_batch s" "sy_client s = Cl_wait Call_read" "sy_pc s = Sv_read"
       "sy_to_server s = [M_MESSAGE_READ]" "sy_to_client s = []" "sy_log s = []" "sy_num_signal s = 1" "sy_server s = demo_batch"
    using demo_call_waits by blast
  note wired = pushed_well_wired[OF demo_batch_pushed(1)]
  let ?s1 = "s\<lparr>sy_server := attached demo_batch, sy_to_server := [], sy_pc := Sv_serve M_MESSAGE_READ\<rparr>"
  have 1: "server_step sq s ?s1"
    using server_step.read[OF s(3,4), of "Inr M_MESSAGE_READ" "attached demo_batch" sq] s(8) by (simp add: read_message_eq next_pc_def)
  let ?v = "(attached demo_batch)\<lparr>bs_is_client_waiting := True\<rparr>"
  have "same_requests demo_batch ?v" by simp
  then have "bs_signal_handle ?v = [0]" "length (bs_signal_config ?v) = 1" "length (bs_signal_shmem ?v) = 1"
    using wired(1,4) demo_batch_pushed(3) by (simp_all add: same_requests_def well_wired_def)
  with demo_batch_read[of ?v sq] demo_batch_pushed(2) obtain w where w: "read_and_update sq ?v = (Inr (), w)"
      "bs_signal_shmem w = [d_of_int 2]"
    by auto
  let ?s2 = "?s1\<lparr>sy_server := w, sy_pc := Sv_reply M_MESSAGE_READ M_MESSAGE_CONTINUE\<rparr>"
  have "serve_message sq M_MESSAGE_READ (attached demo_batch) = (Inr M_MESSAGE_CONTINUE, w)"
    using w(1) by (simp add: serve_message_def bind_def modify_def ret_def)
  then have 2: "server_step sq ?s1 ?s2"
    using server_step.serve[of ?s1 M_MESSAGE_READ sq "Inr M_MESSAGE_CONTINUE" w] by (simp add: next_pc_def)
  let ?s3 = "?s2\<lparr>sy_server := w\<lparr>bs_is_client_waiting := False\<rparr>, sy_to_client := [M_MESSAGE_CONTINUE], sy_pc := Sv_test M_MESSAGE_CONTINUE\<rparr>"
  have 3: "server_step sq ?s2 ?s3"
    using server_step.reply[of ?s2 M_MESSAGE_READ M_MESSAGE_CONTINUE "Inr ()" "w\<lparr>bs_is_client_waiting := False\<rparr>" sq] s(2,5)
    by (simp add: next_pc_def write_message_eq)
  let ?s4 = "client_receive Call_read M_MESSAGE_CONTINUE (?s3\<lparr>sy_to_client := []\<rparr>)"
  have 4: "client_step ?s3 ?s4" by (rule client_step.receive) (simp_all add: s(2))
  from reaches(2)[OF reaches(1)[OF reaches(1)[OF reaches(1)[OF s(1) 1] 2] 3] 4] have "batch_reachable sq demo_batch ?s4" .
  moreover have "sy_client ?s4 = Cl_idle \<and> sy_log ?s4 = [(Call_read, [d_of_int 2])]"
    using s(6,7) w(2) by (simp add: client_receive_def call_returns_def)
  ultimately show ?thesis by blast
qed

section \<open>Properties\<close>







text \<open>
  C35: A request to stop can be lost. When SIGTERM arrives after the test of \<^verbatim>\<open>g_sigterm_count\<close> and before \<^verbatim>\<open>read(2)\<close>, the handler
  counts it and nothing interrupts the read: the server was asked to stop, is not at its end, and can take no step until the client
  sends a message or exits. (Had it arrived during the read, the server would end.)
\<close>

theorem stop_request_lost:
  assumes "push_requests (make_batch_server signals controls pio) = (Inr (), start)"
  shows "\<exists>s. (batch_step sq)\<^sup>*\<^sup>* (batch_start start) s \<and> sy_client s = Cl_idle \<and> 0 < bs_sigterm_count (sy_server s) \<and>
           sy_pc s \<noteq> Sv_done \<and> (\<forall>t. \<not> server_step sq s t)"
proof -
  let ?s0 = "batch_start start"
  let ?s1 = "?s0\<lparr>sy_pc := Sv_read\<rparr>"
  let ?s2 = "?s1\<lparr>sy_server := action_sigterm (of_char M_MESSAGE_TERMINATE) (sy_server ?s1)\<rparr>"
  have "server_step sq ?s0 ?s1"
    using server_step.test[of ?s0 M_MESSAGE_CONTINUE sq] pushed_well_wired(2)[OF assms] by (simp add: batch_start_def keeps_serving_def)
  moreover have "disturbance ?s1 ?s2" by (rule disturbance.sigterm) simp
  ultimately have "batch_reachable sq start ?s2"
    by (meson reaches rtranclp.rtrancl_refl)
  moreover have "\<not> server_step sq ?s2 t" for t
    by (rule notI, erule server_step.cases) (auto simp: batch_start_def)
  ultimately show ?thesis using pushed_well_wired(2)[OF assms]
    by (intro exI[of _ ?s2]) (auto simp: batch_start_def action_sigterm_def)
qed

theorem stop_request_lost_witness:
  "\<exists>s :: demo_world batch_system. 0 < bs_sigterm_count (sy_server s) \<and> bs_signal_handle (sy_server (batch_start demo_batch)) = [0] \<and> sy_pc s \<noteq> Sv_done \<and>
     (\<forall>t. \<not> server_step (\<lambda>x. x) s t)"
  using stop_request_lost[OF demo_batch_pushed(1), of "\<lambda>x. x"] demo_batch_pushed(3) by (auto simp: batch_start_def)


section \<open>The start of the server\<close>

text \<open>
  \<^verbatim>\<open>BatchServer::main()\<close>: the requests are lines on the standard input, up to an empty line. The name of a request is an array of
  255 bytes, filled by \<^verbatim>\<open>strncpy()\<close>; \<open>array\<close> is what the array holds before.
\<close>

definition NAME_MAX :: nat where "NAME_MAX = 255"

definition request_name :: "string \<Rightarrow> string \<Rightarrow> string result" where
  "request_name array name =
     (let array = strncpy (array[NAME_MAX - 1 := CHR 0x00]) name (NAME_MAX - 1)
      in if array ! (NAME_MAX - 1) \<noteq> CHR 0x00 then Inl runtime else Inr (c_str array))"

definition parse_request :: "string \<Rightarrow> string \<Rightarrow> (bool \<times> batch_request) result" where
  "parse_request array input_line =
     and_then (string_split input_line '' '') (\<lambda>split_line.
     if length split_line \<noteq> 4 then Inl runtime
     else
       let is_read = split_line ! 0 = ''read''
       in if \<not> is_read \<and> split_line ! 0 \<noteq> ''write'' then Inl runtime
          else
            and_then (to_runtime (stoi (split_line ! 2))) (\<lambda>domain_type.
            and_then (to_runtime (stoi (split_line ! 3))) (\<lambda>domain_idx.
            and_then (request_name array (split_line ! 1)) (\<lambda>name.
            Inr (is_read, name, domain_type, domain_idx)))))"

fun parse_requests :: "string \<Rightarrow> string list \<Rightarrow> batch_request list \<Rightarrow> batch_request list \<Rightarrow> (batch_request list \<times> batch_request list) result" where
  "parse_requests array [] signal_config control_config = Inr (signal_config, control_config)"
| "parse_requests array (input_line # rest) signal_config control_config =
     (if input_line = '''' then Inr (signal_config, control_config)
      else
        and_then (parse_request array input_line) (\<lambda>(is_read, request).
        if is_read then parse_requests array rest (signal_config @ [request]) control_config
        else parse_requests array rest signal_config (control_config @ [request])))"

text \<open>\<open>serve_client\<close> is the rest of \<^verbatim>\<open>main()\<close>: it runs the server for the client and the requests.\<close>

definition geopmbatch_main :: "string list \<Rightarrow> (int \<Rightarrow> unit result) \<Rightarrow> int" where
  "geopmbatch_main argv serve_client =
     (if length argv = 2 \<and> argv ! 1 = ''--version'' then 0
      else if length argv \<noteq> 2 then - 1
      else if argv ! 1 = ''--help'' then 0
      else case stoi (argv ! 1) of
          Inl e \<Rightarrow> - 1
        | Inr client_pid \<Rightarrow> (case serve_client client_pid of Inl e \<Rightarrow> - 1 | Inr _ \<Rightarrow> 0))"

text \<open>The lines that \<^verbatim>\<open>start_batch()\<close> of the service writes to the standard input of the server.\<close>

definition request_line :: "bool \<times> batch_request \<Rightarrow> string" where
  "request_line = (\<lambda>(is_read, name, domain_type, domain_idx).
     string_join [if is_read then ''read'' else ''write'', name, show_int domain_type, show_int domain_idx] '' '')"

definition request_lines :: "batch_request list \<Rightarrow> batch_request list \<Rightarrow> string list" where
  "request_lines signals controls = map (\<lambda>r. request_line (True, r)) signals @ map (\<lambda>r. request_line (False, r)) controls @ ['''']"

lemma c_str_id: "CHR 0x00 \<notin> set s \<Longrightarrow> c_str s = s"
  by (auto simp: c_str_def takeWhile_eq_all_conv)

text \<open>The check that follows the copy never fails; the name is cut after 254 bytes.\<close>

lemma request_name_cuts:
  assumes "length array = NAME_MAX"
  shows "request_name array name = Inr (take 254 (c_str name))"
proof -
  let ?d = "array[254 := CHR 0x00]"
  have d: "254 < length ?d" "?d ! 254 = CHR 0x00" using assms by (simp_all add: NAME_MAX_def)
  have "drop 254 ?d = CHR 0x00 # drop (Suc 254) ?d" using d by (metis Cons_nth_drop_Suc)
  then have "strncpy ?d name 254 ! 254 = CHR 0x00" by (simp add: strncpy_def nth_append del: take_append)
  then show ?thesis using strncpy_terminated[OF d] by (simp add: request_name_def NAME_MAX_def Let_def)
qed

lemma stoi_show_int:
  assumes "INT_MIN \<le> i" "i \<le> INT_MAX"
  shows "stoi (show_int i) = Inr i"
proof (cases "i < 0")
  case False
  then show ?thesis using stoi_show_nat[of "nat i" "[]"] assms by (simp add: show_int_def)
next
  case True
  let ?ds = "show_nat (nat (- i))"
  have p: "list_all is_digit ?ds" "?ds \<noteq> []" "decimal_value 0 ?ds = nat (- i)" using show_nat_props by blast+
  have digits: "takeWhile is_digit ?ds = ?ds" using p(1) by (simp add: takeWhile_eq_all_conv list_all_iff)
  have sign: "strip_sign (dropWhile is_space (CHR ''-'' # ?ds)) = (True, ?ds)" by (simp add: is_space_def strip_sign_def)
  have "stoi (CHR ''-'' # ?ds) = Inr i" using True assms p(2,3) unfolding stoi_def sign Let_def prod.case digits by simp
  then show ?thesis using True by (simp add: show_int_def)
qed

lemma show_int_no_space: "CHR '' '' \<notin> set (show_int i)" "CHR 0x0A \<notin> set (show_int i)" "show_int i \<noteq> []"
  using show_nat_no_char[of "CHR '' ''"] show_nat_no_char[of "CHR 0x0A"] show_nat_props
  by (auto simp: show_int_def is_digit_def)

definition request_ok :: "batch_request \<Rightarrow> bool" where
  "request_ok = (\<lambda>(name, domain_type, domain_idx).
     CHR '' '' \<notin> set name \<and> CHR 0x0A \<notin> set name \<and> CHR 0x00 \<notin> set name \<and>
     INT_MIN \<le> domain_type \<and> domain_type \<le> INT_MAX \<and> INT_MIN \<le> domain_idx \<and> domain_idx \<le> INT_MAX)"

definition cut_name :: "batch_request \<Rightarrow> batch_request" where
  "cut_name = (\<lambda>(name, domain_type, domain_idx). (take 254 name, domain_type, domain_idx))"

lemma parse_request_line:
  assumes "length array = NAME_MAX" "request_ok r"
  shows "parse_request array (request_line (is_read, r)) = Inr (is_read, cut_name r)" "request_line (is_read, r) \<noteq> []"
    "CHR 0x0A \<notin> set (request_line (is_read, r))"
proof -
  obtain name dt di where r: "r = (name, dt, di)" by (cases r)
  have "string_split (request_line (is_read, r)) '' '' = Inr [if is_read then ''read'' else ''write'', name, show_int dt, show_int di]"
    unfolding request_line_def r prod.case
    by (rule string_split_join) (use assms(2) show_int_no_space in \<open>auto simp: r request_ok_def\<close>)
  then show "parse_request array (request_line (is_read, r)) = Inr (is_read, cut_name r)"
    using assms by (simp add: parse_request_def r request_ok_def stoi_show_int to_runtime_def request_name_cuts c_str_id cut_name_def Let_def)
  show "request_line (is_read, r) \<noteq> []" "CHR 0x0A \<notin> set (request_line (is_read, r))"
    using assms(2) show_int_no_space by (auto simp: request_line_def r request_ok_def)
qed

lemma parse_requests_signals:
  assumes "length array = NAME_MAX" "list_all request_ok signals"
  shows "parse_requests array (map (\<lambda>r. request_line (True, r)) signals @ rest) xs ys =
         parse_requests array rest (xs @ map cut_name signals) ys"
  using assms(2) by (induction signals arbitrary: xs) (auto simp: parse_request_line[OF assms(1)])

lemma parse_requests_controls:
  assumes "length array = NAME_MAX" "list_all request_ok controls"
  shows "parse_requests array (map (\<lambda>r. request_line (False, r)) controls @ rest) xs ys =
         parse_requests array rest xs (ys @ map cut_name controls)"
  using assms(2) by (induction controls arbitrary: ys) (auto simp: parse_request_line[OF assms(1)])

text \<open>
  C37: The requests written to the batch server's input are read back in order, signals apart from controls, whatever follows the
  empty line and whatever the name buffer held: with names of at most 254 bytes unchanged. A longer name is not rejected, it is cut
  after 254 bytes; the check meant to reject it never fails.
\<close>

theorem batch_requests_roundtrip:
  assumes "list_all request_ok signals" "list_all request_ok controls" "length array = NAME_MAX"
  shows "parse_requests array (getlines (unlines (request_lines signals controls) @ rest)) [] [] =
           Inr (map cut_name signals, map cut_name controls) \<and>
         (list_all (\<lambda>(name, _). length name < NAME_MAX) (signals @ controls) \<longrightarrow>
            parse_requests array (getlines (unlines (request_lines signals controls) @ rest)) [] [] = Inr (signals, controls))"
proof -
  have "list_all (\<lambda>l. CHR 0x0A \<notin> set l) (request_lines signals controls)"
    using assms(1,2) parse_request_line(3)[OF assms(3)] by (auto simp: request_lines_def list_all_iff)
  then have "getlines (unlines (request_lines signals controls) @ rest) = request_lines signals controls @ getlines rest"
    by (simp add: unlines_def getlines_lines)
  then have "parse_requests array (getlines (unlines (request_lines signals controls) @ rest)) [] [] =
      Inr (map cut_name signals, map cut_name controls)"
    using assms by (simp add: request_lines_def parse_requests_signals parse_requests_controls)
  moreover have "map cut_name rs = rs" if "list_all (\<lambda>(name, _). length name < NAME_MAX) rs" for rs
    using that by (induction rs) (auto simp: cut_name_def NAME_MAX_def)
  ultimately show ?thesis by simp
qed

theorem batch_requests_roundtrip_witness:
  "parse_requests (replicate 255 CHR ''x'') (getlines (unlines (request_lines [(''TIME'', 0, 0)] [(''C'', 3, - 1)]) @ ''junk'')) [] [] =
     Inr ([(''TIME'', 0, 0)], [(''C'', 3, - 1)])"
  using batch_requests_roundtrip[of "[(''TIME'', 0, 0)]" "[(''C'', 3, - 1)]" "replicate 255 CHR ''x''" "''junk''"]
  by (simp add: request_ok_def cut_name_def NAME_MAX_def INT_MIN_def INT_MAX_def)

end
