(* ===== verification/Spec2Isabelle.thy ===== *)
theory Spec2Isabelle
  imports Circular_Buffer Aggregation Helper_Strings Platform_Topo Platform_IO Platform_Signals Edit_Distance Region_Aggregator Sample_Aggregator Balancer_Protocol Batch_Server
begin

text \<open>
  \<^bold>\<open>A verification library for GEOPM.\<close>

  GEOPM measures and controls the power of a compute node. This library models the parts of its C++
  code that carry its own logic: the access to hardware in \<^verbatim>\<open>src/libgeopmd/src\<close> and the record
  pipeline of the runtime in \<^verbatim>\<open>src/libgeopm/src\<close>. A definition has the name of the function,
  struct or member that it models where HOL allows it; the theory of each part says which files it reads.

  \<^bold>\<open>The parts and how they interact.\<close>

  Hardware side. \<^verbatim>\<open>MSRIO\<close> reads and writes model specific registers. The signal and control
  objects take the bit fields of those registers apart and put them together, and derive other
  signals from them. \<^verbatim>\<open>PlatformIO\<close> is the front end: it finds the plugin (IOGroup) that provides a
  signal or control and converts between the domains of the topology (\<^verbatim>\<open>PlatformTopo\<close>) with
  the aggregation functions (\<^verbatim>\<open>Agg\<close>). A \<^verbatim>\<open>BatchServer\<close> is a process that uses it for a client.

  Application side. A process appends events to its \<^verbatim>\<open>ApplicationRecordLog\<close> and writes the hint,
  hash and progress of each CPU to its \<^verbatim>\<open>ApplicationStatus\<close>, both in shared memory. The
  controller's \<^verbatim>\<open>ApplicationSampler\<close> dumps the logs, sends each record through a
  \<^verbatim>\<open>RecordFilter\<close> and a \<^verbatim>\<open>ValidateRecord\<close>, and copies the status;
  \<^verbatim>\<open>ProcessRegionAggregator\<close> adds up the counts and times of regions, and \<^verbatim>\<open>SampleAggregator\<close> the
  signals that \<^verbatim>\<open>PlatformIO\<close> sampled while the regions ran.

  Control. The agents of a job form a tree; policies go down and samples up once per control loop. The power
  balancer is the agent that shares a power budget: at the leaves a \<^verbatim>\<open>PowerBalancer\<close> for each package searches for the
  least limit that still meets a target run time, with the run times of \<^verbatim>\<open>SampleAggregator\<close>, and sets it
  through \<^verbatim>\<open>PlatformIO\<close>; the inner nodes and the root take the tree through the steps of the algorithm.

  \<^bold>\<open>Theories.\<close>

  \<^item> \<open>Geopm_Prelude\<close>: exceptions as values, results, actions (functions from a state to a result and
    the state at the return or throw), the rules \<open>keeps_intros\<close> that carry invariants through the
    combinators, loops over lists, ordered sets.
  \<^item> \<open>Binary64\<close>: \<^verbatim>\<open>double\<close>, as rationals with one rounding per operation, infinities and NaN.
  \<^item> \<open>Circular_Buffer\<close>: \<^verbatim>\<open>CircularBuffer.hpp\<close>. The ring refines the list of the last entries;
    the contract of its clients is the locale \<open>bounded_history\<close>.
  \<^item> \<open>Helper_Strings\<close>: splitting, number parsing and CPU sets of \<^verbatim>\<open>Helper.cpp\<close>.
  \<^item> \<open>Error_Messages\<close>: \<^verbatim>\<open>Exception.cpp\<close>, from exceptions to the codes and texts of the C interfaces.
  \<^item> \<open>Aggregation\<close>: \<^verbatim>\<open>Agg.cpp\<close>. What each reduction returns, NaN included.
  \<^item> \<open>Platform_Topo\<close>: \<^verbatim>\<open>PlatformTopo.cpp\<close>. The domains partition the CPUs and nest; a topology is
    built only from consistent counts; the lines of the GPU affinity cache are read back.
  \<^item> \<open>Platform_IO\<close>: \<^verbatim>\<open>PlatformIO.cpp\<close>, \<^verbatim>\<open>CombinedSignal.cpp\<close>, \<^verbatim>\<open>CombinedControl.cpp\<close>. The
    invariant of the request tables holds in every reachable state; from it follow the end of the
    recursion through combined requests and what a pushed signal samples and a control writes.
  \<^item> \<open>Batch_Server\<close>: \<^verbatim>\<open>BatchServer.cpp\<close>, \<^verbatim>\<open>BatchClient.cpp\<close>, \<^verbatim>\<open>BatchStatus.cpp\<close>. Server and client as a
    step relation, with signals and exits: calls through the server give what direct calls give, never
    hang, and the two never use the shared memory together. The requests on its input are read back.
  \<^item> \<open>MSR_IO\<close>: \<^verbatim>\<open>MSRIO.cpp\<close>, \<^verbatim>\<open>MSRPath.cpp\<close>, \<^verbatim>\<open>IOUringFallback.cpp\<close>. A batch refines an
    abstract map of registers, on the batch device and through one file for each CPU.
  \<^item> \<open>Platform_Signals\<close>: the signals and controls on registers and the derived signals. Field round
    trips, the rollover of counters, the least squares slope, save and restore; every class
    keeps the contract \<open>batch_signal\<close> of \<^verbatim>\<open>Signal.hpp\<close>.
  \<^item> \<open>Application_Records\<close>: \<^verbatim>\<open>ApplicationRecordLog.cpp\<close>, \<^verbatim>\<open>record.cpp\<close>. Every history of
    operations keeps the two tables consistent and counts each exit of a region once.
  \<^item> \<open>Record_Filters\<close>: \<^verbatim>\<open>ValidateRecord.cpp\<close>, the proxy and the edit distance filter, the factory.
    The check accepts exactly the streams of a declarative definition; both filters
    implement the locale \<open>epoch_filter\<close>.
  \<^item> \<open>Edit_Distance\<close>: the table of \<^verbatim>\<open>EditDistPeriodicityDetector.cpp\<close> holds edit distances.
  \<^item> \<open>Application_Status\<close>: \<^verbatim>\<open>ApplicationStatus.cpp\<close>, with its stores and loads interleaved step by step.
  \<^item> \<open>Application_Sampler\<close>: \<^verbatim>\<open>ApplicationSampler.cpp\<close>. Handles of short regions stay right when the
    logs of the processes are joined; hint times; the CPU of the controller.
  \<^item> \<open>Region_Aggregator\<close>: \<^verbatim>\<open>ProcessRegionAggregator.cpp\<close>, and the pipeline from the calls in the
    application to the counts in the report.
  \<^item> \<open>Sample_Aggregator\<close>: \<^verbatim>\<open>SampleAggregator.cpp\<close>, \<^verbatim>\<open>Accumulator.cpp\<close>. The template parameter
    is a record of the methods of an accumulator, with the contract \<open>accumulator\<close>; what each
    query returns after any run of batches, and that the totals of the regions add up.
  \<^item> \<open>Power_Balancer\<close>: \<^verbatim>\<open>PowerBalancer.cpp\<close>. The limit stays within the cap in every history; the
    run time is the median of a sliding window.
  \<^item> \<open>Power_Balancer_Agent\<close>: \<^verbatim>\<open>PowerBalancerAgent.cpp\<close>, all roles and steps. What the operations of a
    leaf leave alone, and the limits that it sets.
  \<^item> \<open>Tree_Communicator\<close>: \<^verbatim>\<open>TreeCommLevel.cpp\<close>, \<^verbatim>\<open>TreeComm.cpp\<close>. The memory of a level implements
    mailboxes, the groups of the levels form the tree, the search for the fan out ends.
  \<^item> \<open>Balancer_Protocol\<close>: the agents of a job as a network, with the calls of \<^verbatim>\<open>Controller.cpp\<close>, in any
    order. It refines an abstract barrier, so the steps never get out of sync.

  \<^bold>\<open>Conventions.\<close> A class is a record of its members and its methods are actions on it. A throw is a value of
  \<open>exn\<close>, and the state with it is the state at the throw. What has no defined meaning in C++
  (an index outside of an array, a signed overflow) is the error \<open>Undefined_behavior\<close>. Integers that the
  code keeps unsigned are words; \<^verbatim>\<open>int\<close> is an integer with the check \<open>int_result\<close> where
  it is computed with and can leave its range. A \<^verbatim>\<open>std::map\<close> is a function with optional values, or the list of its
  entries by increasing key where the code iterates; a \<^verbatim>\<open>std::set<int>\<close> is its increasing list.
  The texts of messages are not modelled.

  \<^bold>\<open>Fuel and termination.\<close> \<open>sample\<close> and \<open>adjust\<close> of \<open>Platform_IO\<close> recurse through combined
  requests; their fuel is the number of requests, which is enough because a combined request only
  refers to smaller indices (\<open>sample_adjust_terminate\<close>). The search for the fan out is a
  \<^verbatim>\<open>partial_function\<close> with the value None where it would not end, which never happens (\<open>fan_out_terminates\<close>). Pushing, reading and writing
  at a coarser domain recurse with a measure on the domain, the parsers with the length of the text that is left; the other
  loops are recursions over lists.

  \<^bold>\<open>Parameters.\<close> Code that is not part of the sources is an argument: the system calls of the MSR files
  (\<open>os\<close>, with the documented behaviour of a driver as the named hypothesis \<open>driver_ok\<close>), the methods of the
  IOGroups on an abstract world, \<^verbatim>\<open>log2\<close> and \<^verbatim>\<open>sqrt\<close> (\<open>lg\<close>, \<open>sq\<close>), \<^verbatim>\<open>strerror_r\<close>,
  CRC32 of zlib (\<open>crc32_str\<close>), \<^verbatim>\<open>std::stod\<close>, the contents of files (\<open>read_file\<close>) and of shared memory, the
  clock, the Cartesian communicator and the division of ranks of MPI (\<open>cart_ok\<close>, \<open>dims_ok\<close>), and the reinterpretation of a 64 bit field as a double.

  \<^bold>\<open>Not modelled.\<close> The plugins that wrap vendor libraries (Level Zero, NVML, DCGM, liburing), D-Bus and gRPC,
  because the code they consist of calls is not in the sources; MSRIOGroup and the sysfs IOGroups, whose tables are
  JSON read by an external package; the MPI wrappers; reports,
  traces, options and other formatting; the synthetic benchmark; the Python, Go and Rust packages. Of the modelled
  classes, what is left out (terminal output, plugin loading, running \<^verbatim>\<open>lscpu\<close>) is said at the theory that
  models the class.
\<close>

end
